(* ===== verification/Prelude.thy ===== *)
theory Prelude
  imports Main "HOL-Library.Word" "HOL-Library.AList" "HOL-Library.Monad_Syntax"
    "HOL-Library.Sublist"
begin

unbundle bit_operations_syntax

text \<open>
  What the component theories share: the names of the machine types, the byte
  codecs every wire format of the server is built from (little-endian fields of the
  control bodies, big-endian fields of the frame headers), the wrap-around
  subtraction of \<open>size_t\<close>, and the hash tables. A \<open>std::unordered_map\<close> is an association
  list with distinct keys; its order stands for the unspecified iteration order of the container, and
  every statement is made for all orders.
\<close>

section \<open>Machine types\<close>

type_synonym u8 = "8 word"
type_synonym u16 = "16 word"
type_synonym u32 = "32 word"
type_synonym u64 = "64 word"
type_synonym bytes = "8 word list"

named_theorems codec_simps \<open>field widths and field round trips of the wire formats\<close>
named_theorems inv_intros \<open>preservation of component invariants\<close>

text \<open>\<open>size_t\<close> subtraction: a 64-bit unsigned difference, which wraps below zero.\<close>

definition size_sub :: "nat \<Rightarrow> nat \<Rightarrow> nat" where
  "size_sub a b = (if b \<le> a then a - b else 2 ^ 64 - (b - a))"

lemma size_sub_le [simp]: "b \<le> a \<Longrightarrow> size_sub a b = a - b"
  by (simp add: size_sub_def)

lemma unat_u32_bound: "unat (x :: u32) < 2 ^ 32"
  using unsigned_less [of x] by simp

lemma u32_inc:
  fixes e :: u32
  assumes "e \<noteq> 0xFFFFFFFF"
  shows "unat (e + 1) = unat e + 1" and "e < e + 1"
proof -
  have "unat e \<noteq> 0xFFFFFFFF" using assms by (auto simp: word_unat_eq_iff)
  moreover have "unat e < 0x100000000" using unsigned_less [of e] by simp
  ultimately show *: "unat (e + 1) = unat e + 1" by (simp add: unat_word_ariths)
  then show "e < e + 1" by (simp add: word_less_nat_alt)
qed

section \<open>Byte codecs\<close>

text \<open>
  The byte loops of the sources: \<open>push_back((v >> (8*i)) & 0xff)\<close> for increasing \<open>i\<close>, and
  \<open>value |= T(in[off+i]) << (8*i)\<close>. Big-endian is what \<open>memcpy\<close> of a
  \<open>hostNToNet\<close> value leaves in memory.
\<close>

definition put_le :: "nat \<Rightarrow> 'a::len word \<Rightarrow> bytes" where
  "put_le n v = map (\<lambda>i. ucast (drop_bit (8 * i) v)) [0..<n]"

definition get_le :: "bytes \<Rightarrow> 'a::len word" where
  "get_le bs = foldl (\<lambda>acc i. acc OR push_bit (8 * i) (ucast (bs ! i))) 0 [0..<length bs]"

definition put_be :: "nat \<Rightarrow> 'a::len word \<Rightarrow> bytes" where
  "put_be n v = rev (put_le n v)"

definition get_be :: "bytes \<Rightarrow> 'a::len word" where
  "get_be bs = get_le (rev bs)"

lemma length_put_le [simp]: "length (put_le n v) = n"
  by (simp add: put_le_def)

lemma length_put_be [simp]: "length (put_be n v) = n"
  by (simp add: put_be_def)

lemma bit_foldl_or:
  "bit (foldl (\<lambda>acc i. acc OR f i) (a :: 'a::len word) is) k \<longleftrightarrow> bit a k \<or> (\<exists>i \<in> set is. bit (f i) k)"
  by (induction "is" arbitrary: a) (auto simp: bit_or_iff)

lemma bit_get_le:
  "bit (get_le bs :: 'a::len word) k \<longleftrightarrow>
     k < LENGTH('a) \<and> k div 8 < length bs \<and> bit (bs ! (k div 8)) (k mod 8)"
proof -
  have *: "bit (push_bit (8 * i) (ucast (bs ! i) :: 'a word)) k \<longleftrightarrow>
      k < LENGTH('a) \<and> i = k div 8 \<and> bit (bs ! i) (k mod 8)" for i
  proof -
    have "8 * i \<le> k \<and> k - 8 * i < 8 \<longleftrightarrow> i = k div 8" by auto
    moreover have "i = k div 8 \<Longrightarrow> k - 8 * i = k mod 8"
      by (simp add: minus_div_mult_eq_mod [symmetric] mult.commute)
    ultimately show ?thesis
      by (auto simp: bit_push_bit_iff bit_ucast_iff dest: bit_imp_le_length)
  qed
  show ?thesis
    unfolding get_le_def by (auto simp: bit_foldl_or *)
qed

lemma nth_put_le: "i < n \<Longrightarrow> put_le n v ! i = ucast (drop_bit (8 * i) v)"
  by (simp add: put_le_def)

lemma get_le_put_le:
  assumes "LENGTH('a) \<le> 8 * n"
  shows "get_le (put_le n v) = (v :: 'a::len word)"
proof (rule bit_word_eqI)
  fix k assume k: "k < LENGTH('a)"
  then have "k div 8 < n" using assms by auto
  moreover have "8 * (k div 8) + k mod 8 = k" by simp
  ultimately show "bit (get_le (put_le n v) :: 'a word) k = bit v k"
    using k by (simp add: bit_get_le nth_put_le bit_ucast_iff bit_drop_bit_eq)
qed

lemma put_le_get_le:
  assumes "8 * length bs \<le> LENGTH('a)"
  shows "put_le (length bs) (get_le bs :: 'a::len word) = bs"
proof (rule nth_equalityI)
  show "length (put_le (length bs) (get_le bs :: 'a word)) = length bs" by simp
next
  fix i assume "i < length (put_le (length bs) (get_le bs :: 'a word))"
  then have i: "i < length bs" by simp
  show "put_le (length bs) (get_le bs :: 'a word) ! i = bs ! i"
  proof (rule bit_word_eqI)
    fix k assume "k < LENGTH(8)"
    then have k: "k < 8" by simp
    moreover have "(8 * i + k) div 8 = i" "(8 * i + k) mod 8 = k" using k by auto
    moreover have "8 * i + k < LENGTH('a)" using k i assms by linarith
    ultimately show "bit (put_le (length bs) (get_le bs :: 'a word) ! i) k = bit (bs ! i) k"
      using i by (simp add: nth_put_le bit_ucast_iff bit_drop_bit_eq bit_get_le)
  qed
qed

lemma get_be_put_be: "LENGTH('a) \<le> 8 * n \<Longrightarrow> get_be (put_be n v) = (v :: 'a::len word)"
  by (simp add: get_be_def put_be_def get_le_put_le)

lemma put_be_get_be:
  "8 * length bs \<le> LENGTH('a) \<Longrightarrow> put_be (length bs) (get_be bs :: 'a::len word) = bs"
  using put_le_get_le [where 'a = 'a, of "rev bs"] by (simp add: put_be_def get_be_def)

lemma get_put_fields [codec_simps]:
  "get_le (put_le 1 (a :: u8)) = a" "get_le (put_le 2 (b :: u16)) = b"
  "get_le (put_le 4 (c :: u32)) = c" "get_le (put_le 8 (d :: u64)) = d"
  "get_be (put_be 2 (b :: u16)) = b" "get_be (put_be 4 (c :: u32)) = c"
  "get_be (put_be 8 (d :: u64)) = d"
  by (simp_all add: get_le_put_le get_be_put_be)

text \<open>A 32-bit value travels unchanged through a 64-bit field helper.\<close>

lemma get_le_put_le_ucast [codec_simps]:
  "ucast (get_le (put_le 4 (ucast c :: u64)) :: u64) = (c :: u32)"
proof (rule bit_word_eqI)
  fix k assume "k < LENGTH(32)"
  then have "k < 32" by simp
  moreover have "8 * (k div 8) + k mod 8 = k" by simp
  ultimately show "bit (ucast (get_le (put_le 4 (ucast c :: u64)) :: u64) :: u32) k = bit c k"
    by (auto simp: bit_ucast_iff bit_get_le nth_put_le bit_drop_bit_eq dest: bit_imp_le_length)
qed

lemma put_le_4_ucast [codec_simps]: "put_le 4 (ucast (ucast (v :: u64) :: u32) :: u64) = put_le 4 v"
proof (rule nth_equalityI)
  fix i assume "i < length (put_le 4 (ucast (ucast v :: u32) :: u64))"
  then have i: "i < 4" by simp
  then show "put_le 4 (ucast (ucast v :: u32) :: u64) ! i = put_le 4 v ! i"
    by (auto simp: nth_put_le bit_eq_iff bit_ucast_iff bit_drop_bit_eq dest: bit_imp_le_length)
qed simp

section \<open>Lists\<close>

text \<open>The bytes of \<open>s\<close> in \<open>[off, off + n)\<close>.\<close>

definition slice :: "nat \<Rightarrow> nat \<Rightarrow> 'a list \<Rightarrow> 'a list" where
  "slice off n s = take n (drop off s)"

lemma length_slice [simp]: "off + n \<le> length s \<Longrightarrow> length (slice off n s) = n"
  by (simp add: slice_def)

lemma slice_skip: "length p \<le> off \<Longrightarrow> slice off n (p @ q) = slice (off - length p) n q"
  by (simp add: slice_def)

lemma slice_here: "length p = n \<Longrightarrow> slice 0 n (p @ q) = p"
  by (simp add: slice_def)

lemma slice_append_left: "off + n \<le> length p \<Longrightarrow> slice off n (p @ q) = slice off n p"
  by (simp add: slice_def)

lemma slice_0 [simp]: "slice 0 n s = take n s"
  by (simp add: slice_def)

lemma slice_Cons: "0 < off \<Longrightarrow> slice off n (x # xs) = slice (off - 1) n xs"
  by (simp add: slice_def drop_Cons')

lemmas slice_simps = slice_skip slice_here slice_Cons

lemma slice_join: "m = off + n \<Longrightarrow> slice off n s @ slice m k s = slice off (n + k) s"
  by (simp add: slice_def take_add drop_drop add.commute [of n off])

lemma slice_all: "length s \<le> n \<Longrightarrow> slice 0 n s = s"
  by simp

lemma slice_join3: "m = off + n \<Longrightarrow> slice off n s @ slice m k s @ t = slice off (n + k) s @ t"
  using slice_join [of m off n s k] by simp

lemma put_le_slice:
  assumes "off + n \<le> length s" and "8 * n \<le> LENGTH('a)"
  shows "put_le n (get_le (slice off n s) :: 'a::len word) = slice off n s"
  using put_le_get_le [where 'a = 'a, of "slice off n s"] assms by simp

section \<open>Hash tables\<close>

type_synonym ('k, 'v) umap = "('k \<times> 'v) list"

definition umap_ok :: "('k, 'v) umap \<Rightarrow> bool" where
  "umap_ok m \<longleftrightarrow> distinct (map fst m)"

lemma umap_ok_Nil [simp]: "umap_ok []"
  by (simp add: umap_ok_def)

lemma umap_ok_update [simp, inv_intros]: "umap_ok m \<Longrightarrow> umap_ok (AList.update k v m)"
  by (simp add: umap_ok_def distinct_update)

lemma umap_ok_delete [simp, inv_intros]: "umap_ok m \<Longrightarrow> umap_ok (AList.delete k m)"
  by (simp add: umap_ok_def distinct_delete)

lemma umap_ok_filter [simp, inv_intros]: "umap_ok m \<Longrightarrow> umap_ok (filter P m)"
  by (simp add: umap_ok_def distinct_map_filter)

lemma umap_mem_iff: "umap_ok m \<Longrightarrow> (k, v) \<in> set m \<longleftrightarrow> map_of m k = Some v"
  by (simp add: umap_ok_def)

lemma map_of_update [simp]: "map_of (AList.update k v m) = (map_of m)(k \<mapsto> v)"
  by (rule update_conv')

lemma map_of_delete [simp]: "map_of (AList.delete k m) = (map_of m)(k := None)"
  by (rule delete_conv')

lemma map_of_filter_ok:
  "umap_ok m \<Longrightarrow> map_of (filter P m) k = (case map_of m k of None \<Rightarrow> None
     | Some v \<Rightarrow> if P (k, v) then Some v else None)"
proof (induction m)
  case Nil
  then show ?case by simp
next
  case (Cons e m)
  obtain k' v' where e: "e = (k', v')" by force
  from Cons.prems have "umap_ok m" and "k' \<notin> fst ` set m" by (auto simp: umap_ok_def e)
  moreover from this have "map_of m k' = None" by (simp add: map_of_eq_None_iff)
  ultimately show ?case using Cons.IH by (auto simp: e)
qed

lemma length_update_new: "map_of m k = None \<Longrightarrow> length (AList.update k v m) = Suc (length m)"
  by (induction m) (auto split: if_splits)

lemma length_update_old: "map_of m k \<noteq> None \<Longrightarrow> length (AList.update k v m) = length m"
  by (induction m) (auto split: if_splits)

lemma length_update_le: "length (AList.update k v m) \<le> Suc (length m)"
  by (cases "map_of m k") (auto simp: length_update_new length_update_old)

text \<open>
  The contract of a table the components rely on: what a lookup returns after an
  insertion or an erasure, that both keep the keys distinct, and how the size moves.
\<close>

locale keyed_table =
  fixes find :: "'t \<Rightarrow> 'k \<Rightarrow> 'v option"
    and put :: "'k \<Rightarrow> 'v \<Rightarrow> 't \<Rightarrow> 't"
    and erase :: "'k \<Rightarrow> 't \<Rightarrow> 't"
    and size :: "'t \<Rightarrow> nat"
    and ok :: "'t \<Rightarrow> bool"
  assumes find_put: "ok t \<Longrightarrow> find (put k v t) = (find t)(k \<mapsto> v)"
    and find_erase: "ok t \<Longrightarrow> find (erase k t) = (find t)(k := None)"
    and ok_put: "ok t \<Longrightarrow> ok (put k v t)"
    and ok_erase: "ok t \<Longrightarrow> ok (erase k t)"
    and size_put_new: "ok t \<Longrightarrow> find t k = None \<Longrightarrow> size (put k v t) = Suc (size t)"
    and size_put_old: "ok t \<Longrightarrow> find t k \<noteq> None \<Longrightarrow> size (put k v t) = size t"
begin

lemma put_put_same: "ok t \<Longrightarrow> find (put k w (put k v t)) = find (put k w t)"
  by (simp add: find_put ok_put)

lemma put_commute: "ok t \<Longrightarrow> k \<noteq> l \<Longrightarrow> find (put k v (put l w t)) = find (put l w (put k v t))"
  by (simp add: find_put ok_put fun_upd_twist)

lemma erase_put: "ok t \<Longrightarrow> find t k = None \<Longrightarrow> find (erase k (put k v t)) = find t"
  by (auto simp: find_put find_erase ok_put)

lemma bounded_put:
  "ok t \<Longrightarrow> size t < bound \<Longrightarrow> size (put k v t) \<le> bound"
  by (cases "find t k") (auto simp: size_put_new size_put_old)

end

interpretation umap: keyed_table map_of AList.update AList.delete length umap_ok
  by unfold_locales (auto simp: length_update_new length_update_old)

section \<open>Tokens that are never issued twice\<close>

text \<open>
  Several components hand out counters (epochs, task ids, ledger tokens) and later accept a message
  only if it carries the current one. The contract: a step keeps the token of a key, drops
  it, or issues one the counter had not reached yet. What every client wants: a token that was
  replaced or dropped is never current again.
\<close>

locale token_source =
  fixes step :: "'op \<Rightarrow> 's \<Rightarrow> 's"
    and token :: "'s \<Rightarrow> 'k \<Rightarrow> nat option"
    and bound :: "'s \<Rightarrow> nat"
    and safe :: "'op \<Rightarrow> 's \<Rightarrow> bool"
  assumes bound_mono: "safe a s \<Longrightarrow> bound s \<le> bound (step a s)"
    and token_step: "safe a s \<Longrightarrow> token (step a s) k = Some t \<Longrightarrow>
      token s k = Some t \<or> bound s \<le> t \<and> t < bound (step a s)"
begin

primrec run :: "'op list \<Rightarrow> 's \<Rightarrow> 's" where
  "run [] s = s"
| "run (a # as) s = run as (step a s)"

primrec safe_run :: "'op list \<Rightarrow> 's \<Rightarrow> bool" where
  "safe_run [] s = True"
| "safe_run (a # as) s = (safe a s \<and> safe_run as (step a s))"

lemma safe_run_append: "safe_run (as @ bs) s \<longleftrightarrow> safe_run as s \<and> safe_run bs (run as s)"
  by (induction as arbitrary: s) auto

lemma run_append: "run (as @ bs) s = run bs (run as s)"
  by (induction as arbitrary: s) auto

lemma run_bound: "safe_run as s \<Longrightarrow> bound s \<le> bound (run as s)"
  by (induction as arbitrary: s) (auto dest: bound_mono intro: le_trans)

lemma issued_below:
  "safe_run as s \<Longrightarrow> (\<And>k t. token s k = Some t \<Longrightarrow> t < bound s) \<Longrightarrow>
     token (run as s) k = Some t \<Longrightarrow> t < bound (run as s)"
proof (induction as arbitrary: s)
  case (Cons a as)
  have "t < bound (step a s)" if "token (step a s) k = Some t" for k t
    using token_step [OF _ that] bound_mono [of a s] Cons.prems(1,2) by fastforce
  with Cons show ?case by simp
qed simp

lemma retired_stays_retired:
  "safe_run as s \<Longrightarrow> t < bound s \<Longrightarrow> token s k \<noteq> Some t \<Longrightarrow> token (run as s) k \<noteq> Some t"
proof (induction as arbitrary: s)
  case (Cons a as)
  have "token (step a s) k \<noteq> Some t" using Cons.prems token_step [of a s k t] by auto
  moreover have "t < bound (step a s)" using Cons.prems bound_mono [of a s] by auto
  ultimately show ?case using Cons by simp
qed simp

end

lemma u64_next_below: "(n :: u64) \<noteq> 0xFFFFFFFFFFFFFFFF \<Longrightarrow> unat (n + 1) = unat n + 1"
proof -
  assume "n \<noteq> 0xFFFFFFFFFFFFFFFF"
  then have "unat n \<noteq> 0xFFFFFFFFFFFFFFFF" by (auto simp: word_unat_eq_iff)
  moreover have "unat n < 0x10000000000000000" using unsigned_less [of n] by simp
  ultimately show ?thesis by (simp add: unat_word_ariths)
qed

end
