(* ===== verification/Buffer.thy ===== *)
theory Buffer
  imports Prelude
begin

text \<open>
  The receive and send buffer of every connection, zone_common/base/buffer.h and buffer.cc:
  a byte vector with a read and a write index and a reserved head. The model keeps the
  vector and both indices. \<open>None\<close> is an execution the code does not survive: a failed
  \<open>assert\<close> or a \<open>std::copy\<close> outside the vector. The abstraction is \<open>readable\<close>, the byte queue between
  the indices; each operation is shown to implement its queue operation and to keep \<open>buffer_ok\<close>.
\<close>

section \<open>Vector helpers\<close>

text \<open>\<open>std::copy\<close> into a vector at an index, and \<open>vector::resize\<close>.\<close>

definition copy_into :: "nat \<Rightarrow> bytes \<Rightarrow> bytes \<Rightarrow> bytes option" where
  "copy_into i src buf =
     (if i + length src \<le> length buf then Some (take i buf @ src @ drop (i + length src) buf) else None)"

definition resize :: "nat \<Rightarrow> bytes \<Rightarrow> bytes" where
  "resize n xs = take n xs @ replicate (n - length xs) 0"

text \<open>\<open>std::search\<close> for a pattern of two bytes: the offset of its first occurrence.\<close>

fun find_pair :: "'a \<Rightarrow> 'a \<Rightarrow> 'a list \<Rightarrow> nat option" where
  "find_pair a b (x # y # xs) =
     (if x = a \<and> y = b then Some 0 else map_option Suc (find_pair a b (y # xs)))"
| "find_pair a b _ = None"

section \<open>State and operations\<close>

record buffer =
  buff :: bytes
  writeIndex :: nat
  readIndex :: nat

definition kCheapPrepend :: nat where
  "kCheapPrepend = 32"

definition new_buffer :: buffer where
  "new_buffer = \<lparr>buff = replicate kCheapPrepend 0, writeIndex = kCheapPrepend, readIndex = kCheapPrepend\<rparr>"

text \<open>The state the move constructor leaves behind: an emptied vector, indices reset to 32.\<close>

definition moved_from :: "buffer \<Rightarrow> buffer" where
  "moved_from b = \<lparr>buff = [], writeIndex = kCheapPrepend, readIndex = kCheapPrepend\<rparr>"

definition readableBytes :: "buffer \<Rightarrow> nat" where
  "readableBytes b = size_sub (writeIndex b) (readIndex b)"

definition writeableBytes :: "buffer \<Rightarrow> nat" where
  "writeableBytes b = size_sub (length (buff b)) (writeIndex b)"

definition prependBytes :: "buffer \<Rightarrow> nat" where
  "prependBytes b = readIndex b"

text \<open>The memory from the read index on, as a pointer sees it.\<close>

definition peek :: "buffer \<Rightarrow> bytes" where
  "peek b = drop (readIndex b) (buff b)"

definition retrieveAll :: "buffer \<Rightarrow> buffer" where
  "retrieveAll b = b\<lparr>writeIndex := kCheapPrepend, readIndex := kCheapPrepend\<rparr>"

definition retrieve :: "buffer \<Rightarrow> nat \<Rightarrow> buffer option" where
  "retrieve b len =
     (if len \<le> readableBytes b
      then Some (if len < readableBytes b then b\<lparr>readIndex := readIndex b + len\<rparr> else retrieveAll b)
      else None)"

definition retrieveUntil :: "buffer \<Rightarrow> nat \<Rightarrow> buffer option" where
  "retrieveUntil b pos =
     (if readIndex b \<le> pos \<and> pos < writeIndex b then retrieve b (pos - readIndex b) else None)"

definition readAsString :: "buffer \<Rightarrow> nat \<Rightarrow> (bytes \<times> buffer) option" where
  "readAsString b len =
     (let n = (if readableBytes b < len then readableBytes b else len)
      in map_option (\<lambda>b'. (take n (peek b), b')) (retrieve b n))"

definition readAllAsString :: "buffer \<Rightarrow> (bytes \<times> buffer) option" where
  "readAllAsString b = readAsString b (readableBytes b)"

text \<open>\<open>Buffer::read\<close>: the copied bytes, their number and the buffer.\<close>

definition buffer_read :: "buffer \<Rightarrow> nat \<Rightarrow> (bytes \<times> nat \<times> buffer) option" where
  "buffer_read b len =
     (let n = (if readableBytes b < len then readableBytes b else len)
      in map_option (\<lambda>b'. (take n (peek b), n, b')) (retrieve b n))"

text \<open>The fixed-width readers: assert, \<open>memcpy\<close> of the network value, retrieve, byte swap.\<close>

definition readUint64 :: "buffer \<Rightarrow> (u64 \<times> buffer) option" where
  "readUint64 b =
     (if 8 \<le> readableBytes b then map_option (\<lambda>b'. (get_be (take 8 (peek b)), b')) (retrieve b 8) else None)"

definition readUint32 :: "buffer \<Rightarrow> (u32 \<times> buffer) option" where
  "readUint32 b =
     (if 4 \<le> readableBytes b then map_option (\<lambda>b'. (get_be (take 4 (peek b)), b')) (retrieve b 4) else None)"

definition readUint16 :: "buffer \<Rightarrow> (u16 \<times> buffer) option" where
  "readUint16 b =
     (if 2 \<le> readableBytes b then map_option (\<lambda>b'. (get_be (take 2 (peek b)), b')) (retrieve b 2) else None)"

definition readUint8 :: "buffer \<Rightarrow> (u8 \<times> buffer) option" where
  "readUint8 b =
     (if 1 \<le> readableBytes b then map_option (\<lambda>b'. (hd (peek b), b')) (retrieve b 1) else None)"

definition findCRLF :: "buffer \<Rightarrow> nat option" where
  "findCRLF b = find_pair 13 10 (take (readableBytes b) (peek b))"

definition ensureWriteable :: "buffer \<Rightarrow> nat \<Rightarrow> buffer option" where
  "ensureWriteable b len = do {
     b' \<leftarrow> (if writeableBytes b < len then
            (if writeableBytes b + prependBytes b < len + kCheapPrepend
             then Some (b\<lparr>buff := resize (writeIndex b + len) (buff b)\<rparr>)
             else do {
               let n = readableBytes b;
               moved \<leftarrow> copy_into kCheapPrepend (take n (peek b)) (buff b);
               Some \<lparr>buff = moved, writeIndex = kCheapPrepend + n, readIndex = kCheapPrepend\<rparr>
             })
          else Some b);
     if len \<le> writeableBytes b' then Some b' else None
   }"

definition buffer_append :: "buffer \<Rightarrow> bytes \<Rightarrow> buffer option" where
  "buffer_append b src = do {
     b' \<leftarrow> ensureWriteable b (length src);
     v \<leftarrow> copy_into (writeIndex b') src (buff b');
     Some (b'\<lparr>buff := v, writeIndex := writeIndex b' + length src\<rparr>)
   }"

text \<open>\<open>Buffer::write\<close> does the same and returns the length.\<close>

definition buffer_write :: "buffer \<Rightarrow> bytes \<Rightarrow> (nat \<times> buffer) option" where
  "buffer_write b src = map_option (\<lambda>b'. (length src, b')) (buffer_append b src)"

definition ensurePrepend :: "buffer \<Rightarrow> nat \<Rightarrow> buffer option" where
  "ensurePrepend b len =
     (if len \<le> prependBytes b then Some b
      else do {
        let readable = readableBytes b;
        let keep = (if kCheapPrepend < len then len else kCheapPrepend);
        moved \<leftarrow> copy_into keep (take readable (peek b)) (replicate (keep + readable) 0);
        Some \<lparr>buff = moved, writeIndex = keep + readable, readIndex = keep\<rparr>
      })"

definition prepend :: "buffer \<Rightarrow> bytes \<Rightarrow> buffer option" where
  "prepend b src = do {
     b' \<leftarrow> ensurePrepend b (length src);
     let r = readIndex b' - length src;
     v \<leftarrow> copy_into r src (buff b');
     Some (b'\<lparr>buff := v, readIndex := r\<rparr>)
   }"

definition prependInt64 :: "buffer \<Rightarrow> u64 \<Rightarrow> buffer option" where
  "prependInt64 b x = prepend b (put_be 8 x)"

definition prependInt32 :: "buffer \<Rightarrow> u32 \<Rightarrow> buffer option" where
  "prependInt32 b x = prepend b (put_be 4 x)"

definition prependInt16 :: "buffer \<Rightarrow> u16 \<Rightarrow> buffer option" where
  "prependInt16 b x = prepend b (put_be 2 x)"

definition prependInt8 :: "buffer \<Rightarrow> u8 \<Rightarrow> buffer option" where
  "prependInt8 b x = prepend b [x]"

text \<open>
  \<open>readFd\<close>: the kernel's \<open>readv\<close> is the argument, an errno or the bytes it delivers; the first
  \<open>writeableBytes\<close> of them land in the vector, the rest in the 64 KB stack buffer.
\<close>

definition readFd :: "buffer \<Rightarrow> nat + bytes \<Rightarrow> buffer option" where
  "readFd b io = (case io of
     Inl errno \<Rightarrow> Some b
   | Inr dat \<Rightarrow>
       (let writeble = writeableBytes b in
        if length dat < writeble
        then map_option (\<lambda>v. b\<lparr>buff := v, writeIndex := writeIndex b + length dat\<rparr>)
               (copy_into (writeIndex b) dat (buff b))
        else do {
          v \<leftarrow> copy_into (writeIndex b) (take writeble dat) (buff b);
          buffer_append (b\<lparr>buff := v, writeIndex := length v\<rparr>) (drop writeble dat)
        }))"

text \<open>\<open>WriteFd\<close>: the kernel's \<open>send\<close> is the argument, an errno or the number of bytes taken.\<close>

definition WriteFd :: "buffer \<Rightarrow> nat + nat \<Rightarrow> buffer option" where
  "WriteFd b io = (case io of Inl errno \<Rightarrow> Some b | Inr n \<Rightarrow> retrieve b n)"

section \<open>Invariant and abstraction\<close>

definition buffer_ok :: "buffer \<Rightarrow> bool" where
  "buffer_ok b \<longleftrightarrow> readIndex b \<le> writeIndex b \<and> writeIndex b \<le> length (buff b) \<and> kCheapPrepend \<le> length (buff b)"

definition readable :: "buffer \<Rightarrow> bytes" where
  "readable b = take (readableBytes b) (peek b)"

lemma readable_eq:
  "readIndex b \<le> writeIndex b \<Longrightarrow> readable b = drop (readIndex b) (take (writeIndex b) (buff b))"
  by (simp add: readable_def readableBytes_def peek_def drop_take)

lemma readableBytes_ok [simp]: "buffer_ok b \<Longrightarrow> readableBytes b = length (readable b)"
  by (simp add: buffer_ok_def readableBytes_def readable_eq)

lemma length_readable: "buffer_ok b \<Longrightarrow> length (readable b) = writeIndex b - readIndex b"
  by (simp add: buffer_ok_def readable_eq)

lemma writeableBytes_ok: "buffer_ok b \<Longrightarrow> writeableBytes b = length (buff b) - writeIndex b"
  by (simp add: buffer_ok_def writeableBytes_def)

lemma take_peek: "buffer_ok b \<Longrightarrow> n \<le> length (readable b) \<Longrightarrow> take n (peek b) = take n (readable b)"
  by (auto simp: buffer_ok_def readable_eq peek_def drop_take)

lemma length_readable_peek [simp]: "buffer_ok b \<Longrightarrow> length (readable b) \<le> length (peek b)"
  by (auto simp: buffer_ok_def readable_eq peek_def)

lemma take_readable_peek [simp]: "buffer_ok b \<Longrightarrow> take (length (readable b)) (peek b) = readable b"
  by (simp add: take_peek)

lemma hd_peek: "buffer_ok b \<Longrightarrow> readable b \<noteq> [] \<Longrightarrow> hd (peek b) = hd (readable b)"
  using take_peek [of b 1] by (cases "peek b"; cases "readable b") auto

lemma new_buffer_ok [simp]: "buffer_ok new_buffer" "readable new_buffer = []"
  by (simp_all add: buffer_ok_def new_buffer_def readable_def readableBytes_def)

lemma retrieve_spec:
  assumes "buffer_ok b" and "len \<le> length (readable b)"
  shows "\<exists>b'. retrieve b len = Some b' \<and> buffer_ok b' \<and> readable b' = drop len (readable b)"
proof (cases "len < length (readable b)")
  case True
  let ?b = "b\<lparr>readIndex := readIndex b + len\<rparr>"
  have "readIndex b + len \<le> writeIndex b" using True assms(1) by (simp add: length_readable)
  then have "buffer_ok ?b" "readable ?b = drop len (readable b)"
    using assms(1) by (auto simp: buffer_ok_def readable_eq add.commute)
  then show ?thesis using assms True by (auto simp: retrieve_def)
next
  case False
  then have "retrieve b len = Some (retrieveAll b)" using assms by (simp add: retrieve_def)
  moreover have "buffer_ok (retrieveAll b)" "readable (retrieveAll b) = []"
    using assms(1) by (auto simp: buffer_ok_def retrieveAll_def readable_eq)
  ultimately show ?thesis using False by auto
qed

lemma retrieve_overrun: "buffer_ok b \<Longrightarrow> length (readable b) < len \<Longrightarrow> retrieve b len = None"
  by (simp add: retrieve_def)

lemma ensureWriteable_spec:
  assumes ok: "buffer_ok b"
  shows "\<exists>b'. ensureWriteable b len = Some b' \<and> buffer_ok b' \<and> readable b' = readable b
           \<and> writeIndex b' + len \<le> length (buff b')"
proof -
  let ?w = "writeIndex b" and ?r = "readIndex b" and ?n = "length (buff b)"
  have idx: "?r \<le> ?w" "?w \<le> ?n" "kCheapPrepend \<le> ?n" using ok by (auto simp: buffer_ok_def)
  have wb: "writeableBytes b = ?n - ?w" using ok by (rule writeableBytes_ok)
  consider (fits) "len \<le> ?n - ?w"
    | (grow) "\<not> len \<le> ?n - ?w" "?n - ?w + ?r < len + kCheapPrepend"
    | (move) "\<not> len \<le> ?n - ?w" "\<not> ?n - ?w + ?r < len + kCheapPrepend"
    by blast
  then show ?thesis
  proof cases
    case fits
    with ok idx show ?thesis by (auto simp: ensureWriteable_def wb)
  next
    case grow
    let ?b = "b\<lparr>buff := resize (?w + len) (buff b)\<rparr>"
    have "?n \<le> ?w + len" using grow(1) idx by linarith
    then have v: "length (buff ?b) = ?w + len" "take ?w (buff ?b) = take ?w (buff b)"
      using idx by (auto simp: resize_def)
    then have ok': "buffer_ok ?b" using idx grow(1) by (auto simp: buffer_ok_def)
    moreover have "readable ?b = readable b" using v(2) idx by (simp add: readable_eq)
    moreover have "ensureWriteable b len = Some ?b"
      using grow v(1) writeableBytes_ok [OF ok'] by (simp add: ensureWriteable_def wb prependBytes_def)
    ultimately show ?thesis using v(1) by auto
  next
    case move
    let ?d = "readable b"
    have d: "length ?d = ?w - ?r" using ok by (rule length_readable)
    have fit: "kCheapPrepend + length ?d + len \<le> ?n" using move idx d by linarith
    let ?v = "take kCheapPrepend (buff b) @ ?d @ drop (kCheapPrepend + length ?d) (buff b)"
    let ?b = "\<lparr>buff = ?v, writeIndex = kCheapPrepend + length ?d, readIndex = kCheapPrepend\<rparr>"
    have v: "length ?v = ?n" using fit by simp
    have ok': "buffer_ok ?b" using v fit idx by (simp add: buffer_ok_def)
    have "copy_into kCheapPrepend ?d (buff b) = Some ?v" using fit by (simp add: copy_into_def)
    then have "ensureWriteable b len = Some ?b"
      using move fit ok writeableBytes_ok [OF ok'] v
      by (simp add: ensureWriteable_def wb prependBytes_def Let_def)
    moreover have "readable ?b = readable b" using idx by (simp add: readable_eq [of ?b])
    ultimately show ?thesis using ok' v fit by simp
  qed
qed

lemma append_spec:
  assumes ok: "buffer_ok b"
  shows "\<exists>b'. buffer_append b src = Some b' \<and> buffer_ok b' \<and> readable b' = readable b @ src"
proof -
  obtain b1 where b1: "ensureWriteable b (length src) = Some b1" "buffer_ok b1" "readable b1 = readable b"
    "writeIndex b1 + length src \<le> length (buff b1)"
    using ensureWriteable_spec [OF ok] by blast
  let ?b = "b1\<lparr>buff := take (writeIndex b1) (buff b1) @ src @ drop (writeIndex b1 + length src) (buff b1),
              writeIndex := writeIndex b1 + length src\<rparr>"
  have "buffer_append b src = Some ?b" using b1 by (simp add: buffer_append_def copy_into_def)
  moreover have "buffer_ok ?b" "readable ?b = readable b1 @ src"
    using b1(2,4) by (auto simp: buffer_ok_def readable_eq)
  ultimately show ?thesis using b1(3) by simp
qed

lemma ensurePrepend_spec:
  assumes ok: "buffer_ok b"
  shows "\<exists>b'. ensurePrepend b len = Some b' \<and> buffer_ok b' \<and> readable b' = readable b \<and> len \<le> readIndex b'"
proof (cases "len \<le> prependBytes b")
  case True
  with ok show ?thesis by (auto simp: ensurePrepend_def prependBytes_def)
next
  case False
  let ?k = "if kCheapPrepend < len then len else kCheapPrepend" and ?d = "readable b"
  let ?b = "\<lparr>buff = replicate ?k 0 @ ?d, writeIndex = ?k + length ?d, readIndex = ?k\<rparr>"
  have "ensurePrepend b len = Some ?b"
    using ok False by (simp add: ensurePrepend_def Let_def copy_into_def)
  moreover have "buffer_ok ?b" "readable ?b = readable b" "len \<le> readIndex ?b"
    by (auto simp: buffer_ok_def readable_eq)
  ultimately show ?thesis by blast
qed

lemma prepend_spec:
  assumes ok: "buffer_ok b"
  shows "\<exists>b'. prepend b src = Some b' \<and> buffer_ok b' \<and> readable b' = src @ readable b"
proof -
  obtain b1 where b1: "ensurePrepend b (length src) = Some b1" "buffer_ok b1" "readable b1 = readable b"
    "length src \<le> readIndex b1"
    using ensurePrepend_spec [OF ok] by blast
  let ?r = "readIndex b1 - length src"
  let ?b = "b1\<lparr>buff := take ?r (buff b1) @ src @ drop (readIndex b1) (buff b1), readIndex := ?r\<rparr>"
  have idx: "readIndex b1 \<le> writeIndex b1" "writeIndex b1 \<le> length (buff b1)"
    using b1(2) by (auto simp: buffer_ok_def)
  have "prepend b src = Some ?b" using b1 idx by (simp add: prepend_def Let_def copy_into_def)
  moreover have "buffer_ok ?b" using b1(2,4) idx by (auto simp: buffer_ok_def)
  moreover have "readable ?b = src @ readable b1"
    using b1(4) idx by (simp add: readable_eq take_append drop_take)
  ultimately show ?thesis using b1(3) by simp
qed

lemma readFd_spec:
  assumes ok: "buffer_ok b"
  shows "\<exists>b'. readFd b (Inr dat) = Some b' \<and> buffer_ok b' \<and> readable b' = readable b @ dat"
proof (cases "length dat < writeableBytes b")
  case True
  let ?b = "b\<lparr>buff := take (writeIndex b) (buff b) @ dat @ drop (writeIndex b + length dat) (buff b),
             writeIndex := writeIndex b + length dat\<rparr>"
  have "writeIndex b + length dat \<le> length (buff b)" using True ok by (simp add: writeableBytes_ok)
  then have "readFd b (Inr dat) = Some ?b" "buffer_ok ?b" "readable ?b = readable b @ dat"
    using ok True by (auto simp: readFd_def Let_def copy_into_def buffer_ok_def readable_eq)
  then show ?thesis by blast
next
  case False
  let ?k = "writeableBytes b"
  let ?b = "b\<lparr>buff := take (writeIndex b) (buff b) @ take ?k dat, writeIndex := length (buff b)\<rparr>"
  have k: "writeIndex b + ?k = length (buff b)" "length (take ?k dat) = ?k"
    using ok False by (auto simp: writeableBytes_ok buffer_ok_def)
  have "buffer_ok ?b" using ok k by (auto simp: buffer_ok_def)
  moreover have "readable ?b = readable b @ take ?k dat"
    using ok k(2) by (simp add: buffer_ok_def readable_eq writeableBytes_def)
  ultimately obtain b' where "buffer_append ?b (drop ?k dat) = Some b'" "buffer_ok b'" "readable b' = readable b @ dat"
    using append_spec [of ?b "drop ?k dat"] by auto
  moreover have "readFd b (Inr dat) = buffer_append ?b (drop ?k dat)"
    using False k by (simp add: readFd_def Let_def copy_into_def)
  ultimately show ?thesis by auto
qed

section \<open>The byte-stream contract\<close>

text \<open>
  What the frame decoders rely on: bytes are appended at the end and consumed from the front, and
  consuming more than there is stops the program. A stream fed in chunks holds their
  concatenation, so nothing depends on how the network fragments the data.
\<close>

fun push_all :: "('b \<Rightarrow> bytes \<Rightarrow> 'b option) \<Rightarrow> 'b \<Rightarrow> bytes list \<Rightarrow> 'b option" where
  "push_all push b [] = Some b"
| "push_all push b (c # cs) = do { b' \<leftarrow> push b c; push_all push b' cs }"

locale byte_stream =
  fixes contents :: "'b \<Rightarrow> bytes"
    and ok :: "'b \<Rightarrow> bool"
    and push :: "'b \<Rightarrow> bytes \<Rightarrow> 'b option"
    and pop :: "'b \<Rightarrow> nat \<Rightarrow> 'b option"
  assumes push_law: "ok b \<Longrightarrow> \<exists>b'. push b xs = Some b' \<and> ok b' \<and> contents b' = contents b @ xs"
    and pop_law: "ok b \<Longrightarrow> n \<le> length (contents b) \<Longrightarrow>
      \<exists>b'. pop b n = Some b' \<and> ok b' \<and> contents b' = drop n (contents b)"
    and pop_overrun: "ok b \<Longrightarrow> length (contents b) < n \<Longrightarrow> pop b n = None"
begin

lemma push_all_contents:
  "ok b \<Longrightarrow> \<exists>b'. push_all push b cs = Some b' \<and> ok b' \<and> contents b' = contents b @ concat cs"
proof (induction cs arbitrary: b)
  case Nil
  then show ?case by simp
next
  case (Cons c cs)
  obtain b1 where b1: "push b c = Some b1" "ok b1" "contents b1 = contents b @ c"
    using push_law [OF Cons.prems] by blast
  obtain b2 where "push_all push b1 cs = Some b2" "ok b2" "contents b2 = contents b1 @ concat cs"
    using Cons.IH [OF b1(2)] by blast
  with b1 show ?case by simp
qed

lemma pop_defined_iff: "ok b \<Longrightarrow> (\<exists>b'. pop b n = Some b') \<longleftrightarrow> n \<le> length (contents b)"
  using pop_law pop_overrun by (metis not_None_eq not_le)

lemma pop_after_push:
  assumes "ok b" and "n \<le> length (contents b)"
  shows "\<exists>b1 b2. push b xs = Some b1 \<and> pop b1 n = Some b2 \<and> contents b2 = drop n (contents b) @ xs"
proof -
  obtain b1 where b1: "push b xs = Some b1" "ok b1" "contents b1 = contents b @ xs"
    using push_law [OF assms(1)] by blast
  then show ?thesis using pop_law [of b1 n] assms(2) by auto
qed

end

interpretation rx: byte_stream readable buffer_ok buffer_append retrieve
  by unfold_locales (fact append_spec retrieve_spec retrieve_overrun)+

section \<open>Readers as byte parsers\<close>

text \<open>
  A reader on buffers refines a parser on byte lists when it sees only the readable bytes; the
  relation composes under sequencing, so a header reader is related to its parser by rules.
\<close>

definition refines :: "(buffer \<Rightarrow> ('a \<times> buffer) option) \<Rightarrow> (bytes \<Rightarrow> ('a \<times> bytes) option) \<Rightarrow> bool" where
  "refines f g \<longleftrightarrow> (\<forall>b. buffer_ok b \<longrightarrow>
     rel_option (\<lambda>(x, b') (y, r). x = y \<and> buffer_ok b' \<and> readable b' = r) (f b) (g (readable b)))"

definition field :: "nat \<Rightarrow> (bytes \<Rightarrow> 'a) \<Rightarrow> bytes \<Rightarrow> ('a \<times> bytes) option" where
  "field n conv bs = (if n \<le> length bs then Some (conv (take n bs), drop n bs) else None)"

named_theorems refine_intros \<open>readers and the parsers they implement\<close>

lemma refinesD:
  assumes "refines f g" and "buffer_ok b" and "g (readable b) = Some (x, r)"
  shows "\<exists>b'. f b = Some (x, b') \<and> buffer_ok b' \<and> readable b' = r"
proof -
  have "rel_option (\<lambda>(x, b') (y, r). x = y \<and> buffer_ok b' \<and> readable b' = r) (f b) (g (readable b))"
    using assms(1,2) by (simp add: refines_def)
  with assms(3) show ?thesis by (cases "f b") auto
qed

lemma refines_return [refine_intros]: "refines (\<lambda>b. Some (x, b)) (\<lambda>r. Some (x, r))"
  by (simp add: refines_def)

lemma refines_bind [refine_intros]:
  assumes "refines f g" and "\<And>x. refines (f' x) (g' x)"
  shows "refines (\<lambda>b. Option.bind (f b) (\<lambda>(x, b'). f' x b')) (\<lambda>r. Option.bind (g r) (\<lambda>(x, r'). g' x r'))"
  unfolding refines_def
proof (intro allI impI)
  fix b assume "buffer_ok b"
  then have "rel_option (\<lambda>(x, b') (y, r). x = y \<and> buffer_ok b' \<and> readable b' = r) (f b) (g (readable b))"
    using assms(1) by (simp add: refines_def)
  then show "rel_option (\<lambda>(x, b') (y, r). x = y \<and> buffer_ok b' \<and> readable b' = r)
      (Option.bind (f b) (\<lambda>(x, b'). f' x b')) (Option.bind (g (readable b)) (\<lambda>(x, r'). g' x r'))"
    using assms(2) by (cases "f b"; cases "g (readable b)") (auto simp: refines_def)
qed

lemma refines_fieldI:
  assumes "\<And>b. buffer_ok b \<Longrightarrow> n \<le> length (readable b) \<Longrightarrow>
      f b = map_option (\<lambda>b'. (conv (take n (readable b)), b')) (retrieve b n)"
    and "\<And>b. buffer_ok b \<Longrightarrow> length (readable b) < n \<Longrightarrow> f b = None"
  shows "refines f (field n conv)"
  unfolding refines_def
proof (intro allI impI)
  fix b assume ok: "buffer_ok b"
  show "rel_option (\<lambda>(x, b') (y, r). x = y \<and> buffer_ok b' \<and> readable b' = r) (f b) (field n conv (readable b))"
  proof (cases "n \<le> length (readable b)")
    case True
    with retrieve_spec [OF ok True] assms(1) [OF ok True] show ?thesis by (auto simp: field_def)
  next
    case False
    with assms(2) [OF ok] show ?thesis by (simp add: field_def)
  qed
qed

lemma refines_readers [refine_intros]:
  "refines readUint64 (field 8 get_be)" "refines readUint32 (field 4 get_be)"
  "refines readUint16 (field 2 get_be)"
  by (rule refines_fieldI; simp add: readUint64_def readUint32_def readUint16_def take_peek)+

lemma refines_readUint8 [refine_intros]: "refines readUint8 (field 1 hd)"
proof (rule refines_fieldI)
  fix b assume ok: "buffer_ok b" and n: "1 \<le> length (readable b)"
  then have "hd (peek b) = hd (take 1 (readable b))" by (cases "readable b") (auto simp: hd_peek)
  with ok n show "readUint8 b = map_option (Pair (hd (take 1 (readable b)))) (retrieve b 1)"
    by (simp add: readUint8_def)
next
  fix b assume "buffer_ok b" and "length (readable b) < 1"
  then show "readUint8 b = None" by (simp add: readUint8_def)
qed

lemma refines_skip [refine_intros]:
  "refines (\<lambda>b. map_option (\<lambda>b'. ((), b')) (retrieve b n)) (field n (\<lambda>_. ()))"
  by (rule refines_fieldI) (simp_all add: retrieve_overrun)

lemma field_append:
  "length xs = n \<Longrightarrow> field n conv (xs @ r) = Some (conv xs, r)"
  by (simp add: field_def)

lemma readAsString_spec:
  assumes "buffer_ok b"
  shows "\<exists>b'. readAsString b len = Some (take len (readable b), b') \<and> buffer_ok b'
      \<and> readable b' = drop len (readable b)"
proof -
  let ?n = "if length (readable b) < len then length (readable b) else len"
  have "?n \<le> length (readable b)" by simp
  from retrieve_spec [OF assms this] obtain b' where
    "retrieve b ?n = Some b'" "buffer_ok b'" "readable b' = drop ?n (readable b)" by blast
  then show ?thesis using assms by (auto simp: readAsString_def Let_def take_peek)
qed

section \<open>Properties\<close>

text \<open>
  Every write operation of the buffer is a queue operation. From a well-formed buffer,
  \<open>append\<close> adds the bytes behind the readable ones, \<open>prepend\<close> puts them in front, a
  \<open>readv\<close> delivery of any length adds exactly the delivered bytes, whichever of the two
  I/O vectors they landed in, and none of them leaves the vector or loses data when it
  grows or compacts the storage.
\<close>

theorem buffer_writes_are_queue_operations:
  assumes "buffer_ok b"
  shows "(\<exists>b'. buffer_append b src = Some b' \<and> buffer_ok b' \<and> readable b' = readable b @ src) \<and>
         (\<exists>b'. prepend b src = Some b' \<and> buffer_ok b' \<and> readable b' = src @ readable b) \<and>
         (\<exists>b'. readFd b (Inr src) = Some b' \<and> buffer_ok b' \<and> readable b' = readable b @ src)"
  using append_spec [OF assms] prepend_spec [OF assms] readFd_spec [OF assms] by blast

theorem buffer_writes_are_queue_operations_witness:
  "buffer_ok new_buffer \<and>
   (\<exists>b'. buffer_append new_buffer [1, 2] = Some b' \<and> buffer_ok b' \<and> readable b' = [1, 2])"
  using buffer_writes_are_queue_operations [OF new_buffer_ok(1), of "[1, 2]"] by simp

text \<open>
  A buffer that has been moved from is not reusable: the move constructor resets the
  indices to 32 while the vector is empty, the free space wraps below zero, no growth is
  triggered, and the next non-empty \<open>append\<close> copies outside the vector.
\<close>

theorem append_to_moved_from_buffer_escapes:
  "src \<noteq> [] \<Longrightarrow> length src \<le> 2 ^ 64 - 32 \<Longrightarrow> buffer_append (moved_from b) src = None"
  by (simp add: buffer_append_def ensureWriteable_def moved_from_def writeableBytes_def size_sub_def
      kCheapPrepend_def copy_into_def)

theorem append_to_moved_from_buffer_escapes_witness:
  "buffer_append (moved_from new_buffer) [7] = None"
  by (rule append_to_moved_from_buffer_escapes) simp_all

end
