(* ===== verification/Framing.thy ===== *)
theory Framing
  imports Buffer
begin

text \<open>
  What the two frame protocols of the server share. \<open>scan\<close> is the reference decoder on byte lists:
  search the magic, drop the garbage in front of it, classify the candidate, and skip
  it or return. Both decoders of the code are shown to implement it in their own theories. The
  locale \<open>frame_codec\<close> states what a receive loop relies on and proves, once, what it gets:
  frames come out complete, in order, and independent of the fragmentation of the stream.
\<close>

section \<open>Statuses and the reference decoder\<close>

datatype DecodeStatus = kOk | kNeedMore | kError

definition kMaxResyncPerCall :: nat where
  "kMaxResyncPerCall = 16"

definition kKeepTailWhenNoMagic :: nat where
  "kKeepTailWhenNoMagic = 1"

datatype 'm verdict = Got 'm | More | Bad

text \<open>What a candidate header means: skip it, wait for the rest, reject the frame, or accept a
  message of a total length.\<close>

datatype 'm candidate = Skip | Wait | Reject | Accept 'm nat

definition seek :: "(bytes \<Rightarrow> nat option) \<Rightarrow> nat \<Rightarrow> bytes \<Rightarrow> ('m verdict \<times> bytes) + (nat \<times> bytes)" where
  "seek locate r bs =
     (if length bs < 32 then Inl (More, bs)
      else case locate bs of
        None \<Rightarrow> Inl (More, drop (length bs - 1) bs)
      | Some off \<Rightarrow>
          if 0 < off \<and> kMaxResyncPerCall < Suc r then Inl (Bad, drop off bs)
          else if 0 < off \<and> length (drop off bs) < 32 then Inl (More, drop off bs)
          else Inr (if 0 < off then Suc r else r, drop off bs))"

definition judge :: "(bytes \<Rightarrow> 'm candidate) \<Rightarrow> nat \<Rightarrow> bytes \<Rightarrow> ('m verdict \<times> bytes) + (nat \<times> bytes)" where
  "judge cand r bs = (case cand bs of
     Skip \<Rightarrow> if kMaxResyncPerCall < Suc r then Inl (Bad, drop 2 bs) else Inr (Suc r, drop 2 bs)
   | Wait \<Rightarrow> Inl (More, bs)
   | Reject \<Rightarrow> Inl (Bad, drop 2 bs)
   | Accept m n \<Rightarrow> Inl (Got m, drop n bs))"

definition scan_step :: "(bytes \<Rightarrow> nat option) \<Rightarrow> (bytes \<Rightarrow> 'm candidate) \<Rightarrow> nat \<Rightarrow> bytes \<Rightarrow>
    ('m verdict \<times> bytes) + (nat \<times> bytes)" where
  "scan_step locate cand r bs = (case seek locate r bs of
     Inl out \<Rightarrow> Inl out | Inr (r', bs') \<Rightarrow> judge cand r' bs')"

lemma scan_step_counts:
  "scan_step locate cand r bs = Inr (r', bs') \<Longrightarrow> r < r' \<and> r' \<le> kMaxResyncPerCall"
  by (auto simp: scan_step_def seek_def judge_def split: sum.splits if_splits option.splits candidate.splits)

function scan :: "(bytes \<Rightarrow> nat option) \<Rightarrow> (bytes \<Rightarrow> 'm candidate) \<Rightarrow> nat \<Rightarrow> bytes \<Rightarrow> 'm verdict \<times> bytes" where
  "scan locate cand r bs = (case scan_step locate cand r bs of
     Inl out \<Rightarrow> out | Inr (r', bs') \<Rightarrow> scan locate cand r' bs')"
  by pat_completeness auto
termination
  by (relation "measure (\<lambda>(_, _, r, _). Suc kMaxResyncPerCall - r)") (auto dest!: scan_step_counts)

declare scan.simps [simp del]

lemma find_pair_bound: "find_pair a b xs = Some i \<Longrightarrow> i + 2 \<le> length xs"
  by (induction a b xs arbitrary: i rule: find_pair.induct) (auto split: if_splits)

text \<open>A prefix without the first byte of the pattern is skipped as a whole.\<close>

lemma find_pair_skip:
  "a \<notin> set g \<Longrightarrow> find_pair a b (g @ xs) = map_option ((+) (length g)) (find_pair a b xs)"
proof (induction g)
  case Nil
  then show ?case by (simp add: option.map_ident)
next
  case (Cons x g)
  then have "find_pair a b ((x # g) @ xs) = map_option Suc (find_pair a b (g @ xs))"
    by (cases "g @ xs") auto
  with Cons show ?case by (simp add: option.map_comp comp_def)
qed

text \<open>The result of a scan is a suffix of the input, shorter unless more data is needed.\<close>

lemma scan_step_suffix:
  "case scan_step locate cand r bs of Inl (v, rest) \<Rightarrow> suffix rest bs | Inr (r', rest) \<Rightarrow> suffix rest bs"
  by (auto simp: scan_step_def seek_def judge_def suffix_drop split: option.splits candidate.splits
      intro: suffix_order.trans [OF suffix_drop suffix_drop])

lemma scan_suffix: "suffix (snd (scan locate cand r bs)) bs"
proof (induction locate cand r bs rule: scan.induct)
  case (1 locate cand r bs)
  note step = scan_step_suffix [where locate = locate and cand = cand and r = r and bs = bs]
  show ?case
  proof (cases "scan_step locate cand r bs")
    case (Inl out)
    with step show ?thesis
      by (cases out) (simp add: scan.simps [of locate cand r bs])
  next
    case (Inr next_state)
    obtain r' rest where "next_state = (r', rest)" by force
    with Inr step 1 [OF Inr] show ?thesis
      by (auto simp: scan.simps [of locate cand r bs] intro: suffix_order.trans)
  qed
qed

text \<open>A message is returned only for a candidate that was accepted somewhere in the input.\<close>

lemma scan_Got: "scan locate cand r bs = (Got m, rest) \<Longrightarrow> \<exists>i n. cand (drop i bs) = Accept m n"
proof (induction locate cand r bs rule: scan.induct)
  case (1 locate cand r bs)
  show ?case
  proof (cases "scan_step locate cand r bs")
    case (Inl out)
    with 1(2) have "scan_step locate cand r bs = Inl (Got m, rest)"
      by (simp add: scan.simps [of locate cand r bs])
    then show ?thesis
      by (auto simp: scan_step_def seek_def judge_def
          split: sum.splits if_splits option.splits candidate.splits; metis drop_0)
  next
    case (Inr cur)
    then obtain r' k where k: "cur = (r', drop k bs)"
      by (auto simp: scan_step_def seek_def judge_def drop_drop
          split: sum.splits if_splits option.splits candidate.splits)
    with 1(1) [OF Inr, of r' "drop k bs"] 1(2) Inr show ?thesis
      by (auto simp: scan.simps [of locate cand r bs] drop_drop)
  qed
qed

section \<open>Moving to a candidate\<close>

text \<open>
  The first half of the loop body is the same text in both decoders: wait for a header's worth of
  bytes, search the magic, drop what precedes it and count the resync. \<open>Inl\<close> is an early return
  of the decoder; \<open>Inr\<close> the counter and the buffer with which the candidate is examined.
\<close>

text \<open>No magic in the buffer: all but a possible first half of a magic is dropped.\<close>

definition DropGarbage :: "buffer \<Rightarrow> buffer option" where
  "DropGarbage buf =
     (let readable = readableBytes buf;
          n = (if readable > kKeepTailWhenNoMagic then readable - kKeepTailWhenNoMagic else 0)
      in if n > 0 then retrieve buf n else Some buf)"

definition Realign :: "nat \<Rightarrow> nat \<Rightarrow> buffer \<Rightarrow> nat \<Rightarrow> (DecodeStatus \<times> buffer + nat \<times> buffer) option" where
  "Realign headerSize resync buf offset =
     (if offset > 0 then do {
        buf' \<leftarrow> retrieve buf offset;
        if Suc resync > kMaxResyncPerCall then Some (Inl (kError, buf'))
        else if readableBytes buf' < headerSize then Some (Inl (kNeedMore, buf'))
        else Some (Inr (Suc resync, buf'))
      } else Some (Inr (resync, buf)))"

definition SeekMagic :: "nat \<Rightarrow> (buffer \<Rightarrow> nat option) \<Rightarrow> nat \<Rightarrow> buffer \<Rightarrow>
    (DecodeStatus \<times> buffer + nat \<times> buffer) option" where
  "SeekMagic headerSize find_magic resync buf =
     (if readableBytes buf < headerSize then Some (Inl (kNeedMore, buf))
      else case find_magic buf of
        None \<Rightarrow> map_option (\<lambda>buf'. Inl (kNeedMore, buf')) (DropGarbage buf)
      | Some offset \<Rightarrow> Realign headerSize resync buf offset)"

lemma SeekMagic_counts:
  "SeekMagic n fm resync buf = Some (Inr (r', buf')) \<Longrightarrow> resync \<le> r'"
  by (auto simp: SeekMagic_def Realign_def split: if_splits option.splits bind_splits)

fun verdict_of :: "DecodeStatus \<Rightarrow> 'm \<Rightarrow> 'm verdict" where
  "verdict_of kOk m = Got m"
| "verdict_of kNeedMore m = More"
| "verdict_of kError m = Bad"

definition sees :: "buffer \<Rightarrow> bytes \<Rightarrow> bool" where
  "sees b bs \<longleftrightarrow> buffer_ok b \<and> readable b = bs"

lemma sees_retrieve: "sees b bs \<Longrightarrow> n \<le> length bs \<Longrightarrow> \<exists>b'. retrieve b n = Some b' \<and> sees b' (drop n bs)"
  using retrieve_spec [of b n] by (auto simp: sees_def)

lemma SeekMagic_spec:
  assumes s: "sees buf bs" and fm: "\<And>b. sees b bs \<Longrightarrow> 32 \<le> length bs \<Longrightarrow> fm b = locate bs"
    and loc: "\<And>i. locate bs = Some i \<Longrightarrow> i + 2 \<le> length bs"
  shows "case seek locate r bs of
     Inl (v, rest) \<Rightarrow> \<exists>st b'. SeekMagic 32 fm r buf = Some (Inl (st, b')) \<and> sees b' rest \<and> (\<forall>m. verdict_of st m = v)
   | Inr (r', rest) \<Rightarrow> \<exists>b'. SeekMagic 32 fm r buf = Some (Inr (r', b')) \<and> sees b' rest \<and> 32 \<le> length rest"
proof -
  have rb: "readableBytes buf = length bs" using s by (auto simp: sees_def)
  consider (short) "length bs < 32" | (none) "\<not> length bs < 32" "locate bs = None"
    | (hit) off where "\<not> length bs < 32" "locate bs = Some off" by fastforce
  then show ?thesis
  proof cases
    case short
    with s rb show ?thesis by (auto simp: seek_def SeekMagic_def intro!: exI [of _ kNeedMore])
  next
    case none
    moreover obtain b' where "retrieve buf (length bs - 1) = Some b'" "sees b' (drop (length bs - 1) bs)"
      using sees_retrieve [OF s, of "length bs - 1"] by auto
    ultimately show ?thesis using s fm [OF s]
      by (simp add: seek_def SeekMagic_def DropGarbage_def kKeepTailWhenNoMagic_def rb Let_def exI [of _ kNeedMore])
  next
    case hit
    obtain b' where b': "retrieve buf off = Some b'" "sees b' (drop off bs)"
      using sees_retrieve [OF s, of off] loc [OF hit(2)] by auto
    then have "readableBytes b' = length bs - off" by (auto simp: sees_def)
    with hit s fm [OF s] b' show ?thesis
      by (auto simp: seek_def SeekMagic_def Realign_def rb exI [of _ kError] exI [of _ kNeedMore])
  qed
qed

lemma SeekMagic_cases:
  fixes bs :: bytes and r :: nat
  assumes "sees buf bs" and "\<And>b. sees b bs \<Longrightarrow> 32 \<le> length bs \<Longrightarrow> fm b = find_pair a c bs"
  obtains (stop) v :: "'m verdict" and rest st b' where "seek (find_pair a c) r bs = Inl (v, rest)"
      "SeekMagic 32 fm r buf = Some (Inl (st, b'))" "sees b' rest" "\<And>m. verdict_of st m = v"
    | (go) r' rest b' where "seek (find_pair a c) r bs = (Inr (r', rest) :: ('m verdict \<times> bytes) + nat \<times> bytes)"
      "SeekMagic 32 fm r buf = Some (Inr (r', b'))" "sees b' rest" "32 \<le> length rest"
proof (cases "seek (find_pair a c) r bs :: ('m verdict \<times> bytes) + nat \<times> bytes")
  case (Inl out)
  then show thesis
    using SeekMagic_spec [where 'a = 'm and locate = "find_pair a c" and fm = fm and r = r, OF assms find_pair_bound [of a c bs]]
    by (cases out) (auto intro: stop)
next
  case (Inr cur)
  then show thesis
    using SeekMagic_spec [where 'a = 'm and locate = "find_pair a c" and fm = fm and r = r, OF assms find_pair_bound [of a c bs]]
    by (cases cur) (auto intro: go)
qed

text \<open>
  A decoder loop whose one iteration agrees with \<open>scan_step\<close> implements \<open>scan\<close>; from that the
  totality and progress laws of a codec follow.
\<close>

locale resync_loop =
  fixes locate :: "bytes \<Rightarrow> nat option"
    and cand :: "bytes \<Rightarrow> 'm candidate"
    and impl :: "nat \<Rightarrow> buffer \<Rightarrow> ('m verdict \<times> buffer) option"
  assumes step_law: "sees b bs \<Longrightarrow> (case scan_step locate cand r bs of
      Inl (v, rest) \<Rightarrow> \<exists>b'. impl r b = Some (v, b') \<and> sees b' rest
    | Inr (r', rest) \<Rightarrow> \<exists>b'. impl r b = impl r' b' \<and> sees b' rest)"
    and locate_bound: "locate bs = Some i \<Longrightarrow> i + 2 \<le> length bs"
    and accept_pos: "cand bs = Accept m n \<Longrightarrow> 0 < n"
begin

lemma impl_scan:
  "sees b bs \<Longrightarrow> \<exists>b'. impl r b = Some (fst (scan locate cand r bs), b') \<and> sees b' (snd (scan locate cand r bs))"
proof (induction "Suc kMaxResyncPerCall - r" arbitrary: r b bs rule: less_induct)
  case less
  note law = step_law [OF less.prems, of r] and unfold = scan.simps [of locate cand r bs]
  show ?case
  proof (cases "scan_step locate cand r bs")
    case (Inl out)
    with law unfold show ?thesis by (cases out) auto
  next
    case (Inr next_state)
    obtain r' rest where n: "next_state = (r', rest)" by force
    with law Inr obtain b' where b': "impl r b = impl r' b'" "sees b' rest" by auto
    from Inr n have "Suc kMaxResyncPerCall - r' < Suc kMaxResyncPerCall - r"
      by (auto dest!: scan_step_counts)
    from less.hyps [OF this b'(2)] b'(1) Inr n unfold show ?thesis by auto
  qed
qed

lemma scan_progress:
  "scan locate cand r bs = (v, rest) \<Longrightarrow> v \<noteq> More \<Longrightarrow> length rest < length bs"
proof (induction "Suc kMaxResyncPerCall - r" arbitrary: r bs rule: less_induct)
  case less
  note unfold = less.prems(1) [unfolded scan.simps [of locate cand r bs]]
  have bound: "\<And>i. locate bs = Some i \<Longrightarrow> i + 2 \<le> length bs" by (rule locate_bound)
  show ?case
  proof (cases "scan_step locate cand r bs")
    case (Inl out)
    with unfold less.prems(2) show ?thesis
      by (auto simp: scan_step_def seek_def judge_def split: sum.splits if_splits option.splits candidate.splits
          dest!: bound accept_pos; linarith)
  next
    case (Inr next_state)
    obtain r' bs' where n: "next_state = (r', bs')" by force
    then have "length rest < length bs'"
      using unfold Inr less.prems(2) scan_step_counts [of locate cand r bs r' bs'] by (intro less.hyps) auto
    moreover have "length bs' \<le> length bs"
      using scan_step_suffix [where locate = locate and cand = cand and r = r and bs = bs] Inr n
      by (auto dest: suffix_length_le)
    ultimately show ?thesis by simp
  qed
qed

lemma impl_total:
  "buffer_ok b \<Longrightarrow> \<exists>v b'. impl r b = Some (v, b') \<and> buffer_ok b' \<and> suffix (readable b') (readable b)"
  using impl_scan [of b "readable b" r] scan_suffix [of locate cand r "readable b"] by (auto simp: sees_def)

lemma impl_progress:
  assumes "buffer_ok b" and "impl r b = Some (v, b')" and "v \<noteq> More"
  shows "length (readable b') < length (readable b)"
  using impl_scan [of b "readable b" r] scan_progress [of r "readable b"] assms
  by (cases "scan locate cand r (readable b)") (auto simp: sees_def)

end

section \<open>The receive loop and its contract\<close>

text \<open>
  The loops of \<open>NetServer::onPeerReadable\<close>, \<open>GatewayDispatcher::OnClientMessage\<close>,
  \<open>OnBackendMessage\<close> and \<open>ServiceApp\<close> decode until more data is needed. \<open>drain\<close> is their common
  shape with the per-frame handler abstracted: it collects what the decoder reports.
\<close>

fun drain :: "('b \<Rightarrow> ('m verdict \<times> 'b) option) \<Rightarrow> nat \<Rightarrow> 'b \<Rightarrow> ('m verdict list \<times> 'b) option" where
  "drain decode 0 b = None"
| "drain decode (Suc fuel) b = (case decode b of
     None \<Rightarrow> None
   | Some (More, b') \<Rightarrow> Some ([], b')
   | Some (v, b') \<Rightarrow> map_option (\<lambda>(vs, b''). (v # vs, b'')) (drain decode fuel b'))"

text \<open>Chunks arrive one by one; each is appended and the buffer is drained.\<close>

fun receive :: "('b \<Rightarrow> bytes \<Rightarrow> 'b option) \<Rightarrow> ('b \<Rightarrow> ('m verdict \<times> 'b) option) \<Rightarrow> ('b \<Rightarrow> nat) \<Rightarrow>
    'b \<Rightarrow> bytes list \<Rightarrow> ('m verdict list \<times> 'b) option" where
  "receive push decode fuel b [] = Some ([], b)"
| "receive push decode fuel b (c # cs) = do {
     b1 \<leftarrow> push b c;
     (vs, b2) \<leftarrow> drain decode (fuel b1) b1;
     (ws, b3) \<leftarrow> receive push decode fuel b2 cs;
     Some (vs @ ws, b3)
   }"

locale frame_codec = byte_stream contents ok push pop
  for contents :: "'b \<Rightarrow> bytes" and ok push pop +
  fixes decode :: "'b \<Rightarrow> ('m verdict \<times> 'b) option"
    and encode :: "'m \<Rightarrow> bytes"
    and valid :: "'m \<Rightarrow> bool"
  assumes decode_frame: "ok b \<Longrightarrow> valid m \<Longrightarrow> contents b = encode m @ r \<Longrightarrow>
      \<exists>b'. decode b = Some (Got m, b') \<and> ok b' \<and> contents b' = r"
    and decode_partial: "ok b \<Longrightarrow> valid m \<Longrightarrow> strict_prefix (contents b) (encode m) \<Longrightarrow>
      \<exists>b'. decode b = Some (More, b') \<and> ok b' \<and> contents b' = contents b"
    and decode_total: "ok b \<Longrightarrow> \<exists>v b'. decode b = Some (v, b') \<and> ok b' \<and> suffix (contents b') (contents b)"
    and decode_progress: "ok b \<Longrightarrow> decode b = Some (v, b') \<Longrightarrow> v \<noteq> More \<Longrightarrow>
      length (contents b') < length (contents b)"
    and encode_nonempty: "valid m \<Longrightarrow> encode m \<noteq> []"
begin

lemma drain_terminates:
  assumes "ok b" and "length (contents b) < fuel"
  shows "\<exists>vs b'. drain decode fuel b = Some (vs, b') \<and> ok b' \<and> length vs \<le> length (contents b)
      \<and> suffix (contents b') (contents b)"
  using assms
proof (induction fuel arbitrary: b)
  case 0
  then show ?case by simp
next
  case (Suc fuel)
  obtain v b1 where d: "decode b = Some (v, b1)" "ok b1" "suffix (contents b1) (contents b)"
    using decode_total [OF Suc.prems(1)] by blast
  show ?case
  proof (cases "v = More")
    case True
    with d show ?thesis by simp
  next
    case False
    then have len: "length (contents b1) < length (contents b)"
      using decode_progress [OF Suc.prems(1) d(1)] by simp
    with Suc.prems(2) obtain vs b2 where "drain decode fuel b1 = Some (vs, b2)" "ok b2"
      "length vs \<le> length (contents b1)" "suffix (contents b2) (contents b1)"
      using Suc.IH [OF d(2)] by auto
    with d len False show ?thesis by (cases v) (auto intro: suffix_order.trans)
  qed
qed

text \<open>
  Draining a buffer that holds complete frames followed by a piece of another frame returns
  exactly the frames and leaves exactly the piece.
\<close>

lemma drain_frames:
  assumes "ok b" and "\<forall>m \<in> set ms. valid m"
    and "contents b = concat (map encode ms) @ tail" and "valid m'" and "strict_prefix tail (encode m')"
    and "length (contents b) < fuel"
  shows "\<exists>b'. drain decode fuel b = Some (map Got ms, b') \<and> ok b' \<and> contents b' = tail"
  using assms
proof (induction fuel arbitrary: b ms)
  case 0
  then show ?case by simp
next
  case (Suc fuel)
  show ?case
  proof (cases ms)
    case Nil
    with Suc.prems decode_partial [of b m'] show ?thesis by auto
  next
    case (Cons m ms')
    have "contents b = encode m @ (concat (map encode ms') @ tail)" using Suc.prems(3) Cons by simp
    with Suc.prems Cons obtain b1 where d: "decode b = Some (Got m, b1)" "ok b1"
      "contents b1 = concat (map encode ms') @ tail"
      using decode_frame [of b m] by auto
    have "length (contents b1) < fuel" using decode_progress [OF Suc.prems(1) d(1)] Suc.prems(6) by simp
    with Suc.IH [OF d(2) _ d(3) Suc.prems(4,5)] Suc.prems(2) Cons d(1) show ?thesis by auto
  qed
qed

lemma split_frames:
  assumes "prefix p (concat (map encode ms))" and "valid m0" and "\<forall>m \<in> set ms. valid m"
  shows "\<exists>ms1 ms2 tail m'. ms = ms1 @ ms2 \<and> p = concat (map encode ms1) @ tail \<and>
    valid m' \<and> strict_prefix tail (encode m')"
  using assms(1,3)
proof (induction ms arbitrary: p)
  case Nil
  have "strict_prefix [] (encode m0)" using encode_nonempty [OF assms(2)] by (cases "encode m0") auto
  with Nil assms(2) show ?case by (intro exI [of _ "[]"]) auto
next
  case (Cons m ms)
  show ?case
  proof (cases "prefix (encode m) p")
    case True
    then obtain q where q: "p = encode m @ q" by (auto simp: prefix_def)
    with Cons.prems have "prefix q (concat (map encode ms))" by simp
    then obtain ms1 ms2 tail m' where "ms = ms1 @ ms2" "q = concat (map encode ms1) @ tail"
      "valid m'" "strict_prefix tail (encode m')"
      using Cons.IH [of q] Cons.prems(2) by auto
    with q have "m # ms = (m # ms1) @ ms2 \<and> p = concat (map encode (m # ms1)) @ tail \<and>
        valid m' \<and> strict_prefix tail (encode m')" by simp
    then show ?thesis by blast
  next
    case False
    then have "strict_prefix p (encode m)"
      using Cons.prems(1) by (auto simp: prefix_append strict_prefix_def)
    with Cons.prems(2) have "m # ms = [] @ (m # ms) \<and> p = concat (map encode []) @ p \<and>
        valid m \<and> strict_prefix p (encode m)" by simp
    then show ?thesis by blast
  qed
qed

text \<open>However the network cuts the stream, the receive loop returns the frames that were sent.\<close>

lemma receive_frames:
  assumes "ok b" and "valid m0" and "\<forall>m \<in> set ms. valid m"
    and "contents b @ concat cs = concat (map encode ms)"
    and "valid m1" and "strict_prefix (contents b) (encode m1)"
    and "\<And>b. ok b \<Longrightarrow> length (contents b) < fuel b"
  shows "\<exists>b'. receive push decode fuel b cs = Some (map Got ms, b') \<and> ok b' \<and> contents b' = []"
  using assms(1,3,4,5,6)
proof (induction cs arbitrary: b ms m1)
  case Nil
  have "ms = []"
  proof (cases ms)
    case (Cons m ms')
    with Nil decode_frame [of b m] decode_partial [of b m1] show ?thesis by auto
  qed simp
  with Nil show ?case by simp
next
  case (Cons c cs)
  obtain b1 where b1: "push b c = Some b1" "ok b1" "contents b1 = contents b @ c"
    using push_law [OF Cons.prems(1)] by blast
  then have "prefix (contents b1) (concat (map encode ms))"
    using Cons.prems(3) by (metis concat.simps(2) append.assoc prefixI)
  then obtain ms1 ms2 tail m' where sp: "ms = ms1 @ ms2" "contents b1 = concat (map encode ms1) @ tail"
    "valid m'" "strict_prefix tail (encode m')"
    using split_frames [OF _ assms(2) Cons.prems(2)] by blast
  then obtain b2 where b2: "drain decode (fuel b1) b1 = Some (map Got ms1, b2)" "ok b2" "contents b2 = tail"
    using drain_frames [OF b1(2) _ sp(2,3,4) assms(7) [OF b1(2)]] Cons.prems(2) by auto
  have "contents b2 @ concat cs = concat (map encode ms2)"
  proof -
    have "contents b1 @ concat cs = concat (map encode ms1) @ concat (map encode ms2)"
      using Cons.prems(3) b1(3) sp(1) by simp
    then show ?thesis using sp(2) b2(3) by simp
  qed
  with Cons.IH [OF b2(2) _ _ sp(3)] sp b2 Cons.prems(2) obtain b3 where
    "receive push decode fuel b2 cs = Some (map Got ms2, b3)" "ok b3" "contents b3 = []" by auto
  with b1 b2 sp show ?case by simp
qed

end

end
