(* ===== verification/GateProto.thy ===== *)
theory GateProto
  imports Framing
begin

text \<open>
  The service-to-service protocol, zone_common/base/proto.h and proto.cc: the 32-byte frame header,
  \<open>EncodeFrame\<close>, the resynchronising \<open>DecodeFrame\<close>, and the 27-byte handshake body a backend
  reports to the gateway. \<open>DecodeFrame\<close> runs on the modelled \<open>Buffer\<close>, and is shown to
  implement the reference decoder of the framing theory and its contract.
\<close>

section \<open>Constants and data\<close>

definition kMagic :: u16 where [simp]: "kMagic = 0xC1EA"
definition kVersion :: u16 where [simp]: "kVersion = 1"
definition kHeaderSize :: nat where [simp]: "kHeaderSize = 32"
definition kMaxMessageSize :: nat where [simp]: "kMaxMessageSize = 10 * 1024 * 1024"

definition kServiceAny :: u8 where [simp]: "kServiceAny = 0"
definition kGateway :: u8 where [simp]: "kGateway = 1"
definition kDB :: u8 where [simp]: "kDB = 2"
definition kChat :: u8 where [simp]: "kChat = 3"
definition kGlobal :: u8 where [simp]: "kGlobal = 4"
definition kScene :: u8 where [simp]: "kScene = 8"

definition ServerIdName :: "u8 \<Rightarrow> string" where
  "ServerIdName i =
     (if i = kServiceAny then ''ANY'' else if i = kGateway then ''GATEWAY'' else if i = kDB then ''DB''
      else if i = kChat then ''CHAT'' else if i = kGlobal then ''GLOBAL'' else if i = kScene then ''SCENE''
      else ''UNKNOWN'')"

record Header =
  h_retrFlag :: u8
  h_msgType :: u8
  h_module :: u16
  h_method :: u16
  h_seq :: u64
  h_playerId :: u64
  h_totalLen :: u32
  h_srcServiceID :: u8
  h_dstServiceID :: u8

definition default_header :: Header where
  "default_header = \<lparr>h_retrFlag = 0, h_msgType = 0, h_module = 0, h_method = 0, h_seq = 0,
     h_playerId = 0, h_totalLen = 0, h_srcServiceID = 0, h_dstServiceID = 0\<rparr>"

definition MakeHeader :: "u8 \<Rightarrow> u16 \<Rightarrow> u16 \<Rightarrow> u64 \<Rightarrow> u64 \<Rightarrow> u8 \<Rightarrow> u8 \<Rightarrow> Header" where
  "MakeHeader msgType module method seq playerId srcServiceID dstServiceID =
     default_header\<lparr>h_retrFlag := 0, h_msgType := msgType, h_module := module, h_method := method,
       h_seq := seq, h_playerId := playerId, h_srcServiceID := srcServiceID, h_dstServiceID := dstServiceID\<rparr>"

section \<open>Modules and methods of the services\<close>

definition kSYS :: u16 where "kSYS = 1"
definition kHandshake :: u16 where "kHandshake = 1"
definition ServiceModule_kChat :: u16 where "ServiceModule_kChat = 100"
definition ServiceModule_kGlobal :: u16 where "ServiceModule_kGlobal = 101"
definition kPrivateChat :: u16 where "kPrivateChat = 1"
definition kZoneShout :: u16 where "kZoneShout = 2"
definition kAdminBroadcast :: u16 where "kAdminBroadcast = 3"
definition kGlobalPing :: u16 where "kGlobalPing = 1"
definition kGatewayMsg :: u8 where "kGatewayMsg = 1"
definition kDBMsg :: u8 where "kDBMsg = 2"
definition kGlobalMsg :: u8 where "kGlobalMsg = 3"
definition kChatMsg :: u8 where "kChatMsg = 4"
definition kSceneMsg :: u8 where "kSceneMsg = 10"

section \<open>Handshake body\<close>

record BackendHandshake =
  hs_protocolVersion :: u16
  hs_serviceId :: u8
  hs_zoneId :: u32
  hs_sceneId :: u32
  hs_sceneIncarnation :: u64
  hs_targetGatewayId :: u32
  hs_channelId :: u32

definition kProtocolVersion :: u16 where [simp]: "kProtocolVersion = 1"
definition kEncodedSize :: nat where [simp]: "kEncodedSize = 27"

definition ValidBackendHandshake :: "BackendHandshake \<Rightarrow> bool" where
  "ValidBackendHandshake h =
     (if hs_protocolVersion h \<noteq> kProtocolVersion \<or> hs_serviceId h = 0 \<or> hs_zoneId h = 0 \<or>
         hs_targetGatewayId h = 0
      then False
      else if hs_serviceId h = kScene then hs_sceneId h \<noteq> 0 \<and> hs_sceneIncarnation h \<noteq> 0
      else hs_sceneId h = 0 \<and> hs_sceneIncarnation h = 0 \<and> hs_channelId h = 0)"

definition PackBackendHandshake :: "BackendHandshake \<Rightarrow> bytes" where
  "PackBackendHandshake h =
     put_le 2 (hs_protocolVersion h) @ put_le 1 (hs_serviceId h) @ put_le 4 (hs_zoneId h) @
     put_le 4 (hs_sceneId h) @ put_le 8 (hs_sceneIncarnation h) @ put_le 4 (hs_targetGatewayId h) @
     put_le 4 (hs_channelId h)"

definition UnpackBackendHandshake :: "bytes \<Rightarrow> BackendHandshake option" where
  "UnpackBackendHandshake body =
     (if length body \<noteq> kEncodedSize then None
      else
        (let parsed = \<lparr>hs_protocolVersion = get_le (slice 0 2 body), hs_serviceId = get_le (slice 2 1 body),
               hs_zoneId = get_le (slice 3 4 body), hs_sceneId = get_le (slice 7 4 body),
               hs_sceneIncarnation = get_le (slice 11 8 body), hs_targetGatewayId = get_le (slice 19 4 body),
               hs_channelId = get_le (slice 23 4 body)\<rparr>
         in if ValidBackendHandshake parsed then Some parsed else None))"

section \<open>Encoding and decoding\<close>

text \<open>The header array \<open>hdr\<close>, filled at its twelve offsets.\<close>

definition header_bytes :: "Header \<Rightarrow> u32 \<Rightarrow> bytes" where
  "header_bytes head totalLen =
     put_be 2 kMagic @ put_be 2 kVersion @ [h_msgType head] @ [h_retrFlag head] @
     put_be 2 (h_module head) @ put_be 2 (h_method head) @ put_be 8 (h_seq head) @
     put_be 8 (h_playerId head) @ put_be 4 totalLen @ [h_srcServiceID head] @ [h_dstServiceID head]"

definition EncodeFrame :: "buffer \<Rightarrow> Header \<Rightarrow> bytes \<Rightarrow> buffer option" where
  "EncodeFrame out head body = do {
     let totalLen = (word_of_nat (kHeaderSize + length body) :: u32);
     out' \<leftarrow> buffer_append out (header_bytes head totalLen);
     if body \<noteq> [] then buffer_append out' body else Some out'
   }"

definition FindMagic :: "buffer \<Rightarrow> nat option" where
  "FindMagic buf =
     (if readableBytes buf < 2 then None
      else find_pair (ucast (drop_bit 8 kMagic)) (ucast kMagic) (take (readableBytes buf) (peek buf)))"

definition SkipCurrentMagic :: "buffer \<Rightarrow> buffer option" where
  "SkipCurrentMagic buf = retrieve buf 2"

text \<open>The total length field of the candidate, and the three checks that skip it when they fail.\<close>

definition candidate_len :: "buffer \<Rightarrow> u32" where
  "candidate_len buf = get_be (slice 26 4 (peek buf))"

definition HeaderAcceptable :: "buffer \<Rightarrow> u8 \<Rightarrow> bool" where
  "HeaderAcceptable buf expectedDst \<longleftrightarrow>
     get_be (slice 2 2 (peek buf)) = kVersion \<and>
     \<not> (unat (candidate_len buf) < kHeaderSize \<or> unat (candidate_len buf) > kMaxMessageSize) \<and>
     \<not> (expectedDst \<noteq> kServiceAny \<and> peek buf ! 31 \<noteq> expectedDst)"

definition ReadHeader :: "Header \<Rightarrow> u32 \<Rightarrow> buffer \<Rightarrow> (Header \<times> buffer) option" where
  "ReadHeader head totalLen buf = do {
     (_ :: u16, buf) \<leftarrow> readUint16 buf;
     (_ :: u16, buf) \<leftarrow> readUint16 buf;
     (msgType, buf) \<leftarrow> readUint8 buf;
     (retrFlag, buf) \<leftarrow> readUint8 buf;
     (module, buf) \<leftarrow> readUint16 buf;
     (method, buf) \<leftarrow> readUint16 buf;
     (seq, buf) \<leftarrow> readUint64 buf;
     (playerId, buf) \<leftarrow> readUint64 buf;
     (_ :: u32, buf) \<leftarrow> readUint32 buf;
     (src, buf) \<leftarrow> readUint8 buf;
     (dst, buf) \<leftarrow> readUint8 buf;
     Some (head\<lparr>h_msgType := msgType, h_totalLen := totalLen, h_retrFlag := retrFlag, h_module := module,
       h_method := method, h_seq := seq, h_playerId := playerId, h_srcServiceID := src,
       h_dstServiceID := dst\<rparr>, buf)
   }"

text \<open>The complete frame is there: pop the header, then the body.\<close>

definition ConsumeFrame :: "buffer \<Rightarrow> Header \<Rightarrow> bytes \<Rightarrow> u32 \<Rightarrow> (DecodeStatus \<times> Header \<times> bytes \<times> buffer) option" where
  "ConsumeFrame buf head body totalLen = do {
     (head', buf') \<leftarrow> ReadHeader head totalLen buf;
     let bodyLen = unat (totalLen - word_of_nat kHeaderSize);
     if readableBytes buf' < bodyLen then Some (kNeedMore, head', body, buf')
     else map_option (\<lambda>(body', buf''). (kOk, head', body', buf'')) (readAsString buf' bodyLen)
   }"

text \<open>The loop of \<open>DecodeFrame\<close>; \<open>head\<close> and \<open>body\<close> are its output parameters.\<close>

function DecodeFrame_loop ::
  "nat \<Rightarrow> buffer \<Rightarrow> Header \<Rightarrow> u8 \<Rightarrow> bytes \<Rightarrow> (DecodeStatus \<times> Header \<times> bytes \<times> buffer) option" where
  "DecodeFrame_loop resync buf head expectedDst body =
     (case SeekMagic kHeaderSize FindMagic resync buf of
        None \<Rightarrow> None
      | Some (Inl (st, buf1)) \<Rightarrow> Some (st, head, body, buf1)
      | Some (Inr (resync1, buf1)) \<Rightarrow>
          if \<not> HeaderAcceptable buf1 expectedDst
          then (case SkipCurrentMagic buf1 of
              None \<Rightarrow> None
            | Some buf2 \<Rightarrow>
                if Suc resync1 > kMaxResyncPerCall then Some (kError, head, body, buf2)
                else DecodeFrame_loop (Suc resync1) buf2 head expectedDst body)
          else if unat (candidate_len buf1) > readableBytes buf1 then Some (kNeedMore, head, body, buf1)
          else ConsumeFrame buf1 head body (candidate_len buf1))"
  by pat_completeness auto
termination
  by (relation "measure (\<lambda>(r, _). Suc kMaxResyncPerCall - r)") (auto dest!: SeekMagic_counts)

declare DecodeFrame_loop.simps [simp del]

definition DecodeFrame :: "buffer \<Rightarrow> Header \<Rightarrow> u8 \<Rightarrow> bytes \<Rightarrow> (DecodeStatus \<times> Header \<times> bytes \<times> buffer) option" where
  "DecodeFrame buf head expectedDst body = DecodeFrame_loop 0 buf head expectedDst body"

text \<open>One turn of a receive loop: fresh output parameters, the status as a verdict.\<close>

definition gate_next :: "u8 \<Rightarrow> buffer \<Rightarrow> ((Header \<times> bytes) verdict \<times> buffer) option" where
  "gate_next dst buf = map_option (\<lambda>(st, head, body, buf'). (verdict_of st (head, body), buf'))
     (DecodeFrame buf default_header dst [])"

section \<open>The decoder implements the reference decoder\<close>

definition header_of :: "bytes \<Rightarrow> Header" where
  "header_of bs = \<lparr>h_retrFlag = bs ! 5, h_msgType = bs ! 4, h_module = get_be (slice 6 2 bs),
     h_method = get_be (slice 8 2 bs), h_seq = get_be (slice 10 8 bs), h_playerId = get_be (slice 18 8 bs),
     h_totalLen = get_be (slice 26 4 bs), h_srcServiceID = bs ! 30, h_dstServiceID = bs ! 31\<rparr>"

definition gate_cand :: "u8 \<Rightarrow> bytes \<Rightarrow> (Header \<times> bytes) candidate" where
  "gate_cand dst bs =
     (let n = unat (get_be (slice 26 4 bs) :: u32) in
      if \<not> (get_be (slice 2 2 bs) = kVersion \<and> \<not> (n < kHeaderSize \<or> n > kMaxMessageSize) \<and>
             \<not> (dst \<noteq> kServiceAny \<and> bs ! 31 \<noteq> dst)) then Skip
      else if n > length bs then Wait
      else Accept (header_of bs, slice 32 (n - 32) bs) n)"

abbreviation gate_scan :: "u8 \<Rightarrow> nat \<Rightarrow> bytes \<Rightarrow> (Header \<times> bytes) verdict \<times> bytes" where
  "gate_scan dst \<equiv> scan (find_pair 0xC1 0xEA) (gate_cand dst)"

lemma slice_peek:
  assumes "buffer_ok b" and "off + n \<le> length (readable b)"
  shows "slice off n (peek b) = slice off n (readable b)"
proof -
  have "take n (drop off xs) = drop off (take (off + n) xs)" for xs :: bytes by (simp add: drop_take)
  then show ?thesis using assms by (simp add: slice_def take_peek)
qed

lemma nth_peek:
  assumes "buffer_ok b" and "i < length (readable b)"
  shows "peek b ! i = readable b ! i"
proof -
  have "peek b ! i = take (length (readable b)) (peek b) ! i" using assms(2) by simp
  then show ?thesis using assms(1) by simp
qed

lemma gate_reads:
  assumes "buffer_ok b" and "32 \<le> length (readable b)"
  shows "candidate_len b = get_be (slice 26 4 (readable b))"
    and "HeaderAcceptable b dst \<longleftrightarrow> gate_cand dst (readable b) \<noteq> Skip"
  using assms by (auto simp: candidate_len_def HeaderAcceptable_def gate_cand_def slice_peek nth_peek Let_def)

lemma magic_bytes: "ucast (drop_bit 8 kMagic) = (0xC1 :: u8)" "ucast kMagic = (0xEA :: u8)"
  by simp_all

lemma FindMagic_eq: "buffer_ok b \<Longrightarrow> 32 \<le> length (readable b) \<Longrightarrow> FindMagic b = find_pair 0xC1 0xEA (readable b)"
  by (simp add: FindMagic_def magic_bytes take_peek del: kMagic_def)

definition gate_parse :: "Header \<Rightarrow> u32 \<Rightarrow> bytes \<Rightarrow> (Header \<times> bytes) option" where
  "gate_parse head n bs = do {
     (_ :: u16, bs) \<leftarrow> field 2 get_be bs;
     (_ :: u16, bs) \<leftarrow> field 2 get_be bs;
     (msgType, bs) \<leftarrow> field 1 hd bs;
     (retrFlag, bs) \<leftarrow> field 1 hd bs;
     (module, bs) \<leftarrow> field 2 get_be bs;
     (method, bs) \<leftarrow> field 2 get_be bs;
     (seq, bs) \<leftarrow> field 8 get_be bs;
     (playerId, bs) \<leftarrow> field 8 get_be bs;
     (_ :: u32, bs) \<leftarrow> field 4 get_be bs;
     (src, bs) \<leftarrow> field 1 hd bs;
     (dst, bs) \<leftarrow> field 1 hd bs;
     Some (head\<lparr>h_msgType := msgType, h_totalLen := n, h_retrFlag := retrFlag, h_module := module,
       h_method := method, h_seq := seq, h_playerId := playerId, h_srcServiceID := src,
       h_dstServiceID := dst\<rparr>, bs)
   }"

lemma ReadHeader_refines: "refines (ReadHeader head n) (gate_parse head n)"
  unfolding ReadHeader_def [abs_def] gate_parse_def [abs_def] by (rule refine_intros)+

lemma gate_parse_eq:
  assumes "32 \<le> length bs" and "n = get_be (slice 26 4 bs)"
  shows "gate_parse head n bs = Some (header_of bs, drop 32 bs)"
  using assms
  by (cases head) (simp add: gate_parse_def field_def header_of_def slice_def hd_drop_conv_nth le_diff_conv2)

lemma ReadHeader_spec:
  assumes "buffer_ok b" and "32 \<le> length (readable b)" and "n = get_be (slice 26 4 (readable b))"
  shows "\<exists>b'. ReadHeader head n b = Some (header_of (readable b), b') \<and> buffer_ok b' \<and>
    readable b' = drop 32 (readable b)"
  using refinesD [OF ReadHeader_refines assms(1) gate_parse_eq [OF assms(2,3)]] .

lemma ConsumeFrame_spec:
  assumes s: "sees b bs" and acc: "gate_cand dst bs = Accept m n" and len: "32 \<le> length bs"
  shows "\<exists>b'. ConsumeFrame b head body (candidate_len b) = Some (kOk, fst m, snd m, b') \<and> sees b' (drop n bs)"
proof -
  let ?n = "get_be (slice 26 4 bs) :: u32"
  from s have ok: "buffer_ok b" and bs: "readable b = bs" by (auto simp: sees_def)
  from acc have n: "n = unat ?n" "32 \<le> n" "n \<le> length bs" "m = (header_of bs, slice 32 (n - 32) bs)"
    by (auto simp: gate_cand_def Let_def split: if_splits)
  have "unat (?n - 32) = n - 32" using n(1,2) by (simp add: unat_sub word_le_nat_alt)
  moreover obtain b1 where b1: "ReadHeader head ?n b = Some (header_of bs, b1)" "buffer_ok b1"
    "readable b1 = drop 32 bs"
    using ReadHeader_spec [OF ok, of ?n] len bs by auto
  moreover obtain b2 where "readAsString b1 (n - 32) = Some (slice 32 (n - 32) bs, b2)" "sees b2 (drop n bs)"
    using readAsString_spec [OF b1(2), of "n - 32"] b1(3) n(2) by (auto simp: slice_def sees_def)
  ultimately show ?thesis using gate_reads(1) [OF ok] len bs n by (simp add: ConsumeFrame_def Let_def)
qed

abbreviation gate_loop :: "Header \<Rightarrow> bytes \<Rightarrow> u8 \<Rightarrow> nat \<Rightarrow> buffer \<Rightarrow> ((Header \<times> bytes) verdict \<times> buffer) option" where
  "gate_loop head body dst r b \<equiv> map_option (\<lambda>(st, head, body, buf'). (verdict_of st (head, body), buf'))
     (DecodeFrame_loop r b head dst body)"

lemma FindMagic_sees: "sees b bs \<Longrightarrow> 32 \<le> length bs \<Longrightarrow> FindMagic b = find_pair 0xC1 0xEA bs"
  by (auto simp: sees_def FindMagic_eq)

lemma gate_step_law:
  assumes s: "sees b bs"
  shows "case scan_step (find_pair 0xC1 0xEA) (gate_cand dst) r bs of
      Inl (v, rest) \<Rightarrow> \<exists>b'. gate_loop head body dst r b = Some (v, b') \<and> sees b' rest
    | Inr (r', rest) \<Rightarrow> \<exists>b'. gate_loop head body dst r b = gate_loop head body dst r' b' \<and> sees b' rest"
proof (cases rule: SeekMagic_cases [where 'm = "Header \<times> bytes" and fm = FindMagic and a = "0xC1" and c = "0xEA"
      and r = r, OF s, case_names find stop go])
  case find
  then show ?case by (rule FindMagic_sees)
next
  case stop
  then show ?thesis by (auto simp: scan_step_def DecodeFrame_loop.simps [of r b])
next
  case (go r1 rest b1)
  then have ok1: "buffer_ok b1" "readable b1 = rest" by (auto simp: sees_def)
  note reads = gate_reads [OF ok1(1)] and unfold = DecodeFrame_loop.simps [of r b]
  obtain b2 where b2: "SkipCurrentMagic b1 = Some b2" "sees b2 (drop 2 rest)"
    using sees_retrieve [OF go(3), of 2] go(4) by (auto simp: SkipCurrentMagic_def)
  show ?thesis
  proof (cases "gate_cand dst rest")
    case Skip
    with go b2 ok1 reads show ?thesis
      by (auto simp: scan_step_def judge_def unfold split: if_splits)
  next
    case Wait
    then have "length rest < unat (get_be (slice 26 4 rest) :: u32)"
      by (auto simp: gate_cand_def Let_def split: if_splits)
    with go Wait ok1 reads show ?thesis by (auto simp: scan_step_def judge_def unfold)
  next
    case Reject
    then show ?thesis by (auto simp: gate_cand_def Let_def split: if_splits)
  next
    case (Accept m n)
    then have "\<not> length rest < unat (get_be (slice 26 4 rest) :: u32)"
      by (auto simp: gate_cand_def Let_def split: if_splits)
    with go Accept ok1 reads ConsumeFrame_spec [OF go(3) Accept go(4), of head body] show ?thesis
      by (auto simp: scan_step_def judge_def unfold)
  qed
qed

interpretation gate_rx: resync_loop "find_pair 0xC1 0xEA" "gate_cand dst" "gate_loop head body dst" for head body dst
proof
  fix bs m n
  show "gate_cand dst bs = Accept m n \<Longrightarrow> 0 < n"
    by (auto simp: gate_cand_def Let_def split: if_splits)
qed (fact gate_step_law find_pair_bound)+

section \<open>Frames on the wire\<close>

definition gate_frame :: "Header \<times> bytes \<Rightarrow> bytes" where
  "gate_frame m = header_bytes (fst m) (word_of_nat (32 + length (snd m))) @ snd m"

text \<open>A frame the receiver \<open>dst\<close> accepts: within the size limit, addressed to it, with the length
  field the encoder derives from the body.\<close>

definition gate_valid :: "u8 \<Rightarrow> Header \<times> bytes \<Rightarrow> bool" where
  "gate_valid dst m \<longleftrightarrow> 32 + length (snd m) \<le> kMaxMessageSize \<and>
     h_totalLen (fst m) = word_of_nat (32 + length (snd m)) \<and> (dst = kServiceAny \<or> h_dstServiceID (fst m) = dst)"

lemma length_header_bytes [simp]: "length (header_bytes h n) = 32"
  by (simp add: header_bytes_def)

lemma magic_wire: "put_be 2 kMagic = [0xC1, 0xEA]"
  by code_simp

lemma header_bytes_magic: "\<exists>t. header_bytes h n = 0xC1 # 0xEA # t"
  by (simp add: header_bytes_def magic_wire del: kMagic_def)

lemma header_fields:
  "slice 2 2 (header_bytes h n @ x) = put_be 2 kVersion" "header_bytes h n ! 4 = h_msgType h"
  "header_bytes h n ! 5 = h_retrFlag h" "slice 6 2 (header_bytes h n @ x) = put_be 2 (h_module h)"
  "slice 8 2 (header_bytes h n @ x) = put_be 2 (h_method h)" "slice 10 8 (header_bytes h n @ x) = put_be 8 (h_seq h)"
  "slice 18 8 (header_bytes h n @ x) = put_be 8 (h_playerId h)" "slice 26 4 (header_bytes h n @ x) = put_be 4 n"
  "header_bytes h n ! 30 = h_srcServiceID h" "header_bytes h n ! 31 = h_dstServiceID h"
  by (simp_all add: header_bytes_def slice_simps nth_append del: kMagic_def kVersion_def)

lemma header_of_bytes: "header_of (header_bytes h n @ x) = h\<lparr>h_totalLen := n\<rparr>"
  by (cases h) (simp add: header_of_def header_fields nth_append get_be_put_be)

lemma gate_cand_header:
  "gate_cand dst (header_bytes h n @ x) =
     (if unat n < kHeaderSize \<or> unat n > kMaxMessageSize \<or> (dst \<noteq> kServiceAny \<and> h_dstServiceID h \<noteq> dst) then Skip
      else if unat n > 32 + length x then Wait
      else Accept (h\<lparr>h_totalLen := n\<rparr>, take (unat n - 32) x) (unat n))"
  by (simp add: gate_cand_def header_fields header_of_bytes nth_append get_be_put_be slice_skip Let_def)

lemma seek_at_header: "seek (find_pair 0xC1 0xEA) r (header_bytes h n @ x) = Inr (r, header_bytes h n @ x)"
proof -
  obtain t where "header_bytes h n = 0xC1 # 0xEA # t" using header_bytes_magic by blast
  then have "find_pair 0xC1 0xEA (header_bytes h n @ x) = Some 0" by simp
  then show ?thesis by (simp add: seek_def)
qed

lemma gate_scan_header:
  "gate_scan dst r (header_bytes h n @ x) = (case judge (gate_cand dst) r (header_bytes h n @ x) of
     Inl out \<Rightarrow> out | Inr (r', bs') \<Rightarrow> gate_scan dst r' bs')"
  by (subst scan.simps) (simp add: scan_step_def seek_at_header)

lemma unat_frame_len: "32 + length (body :: bytes) \<le> kMaxMessageSize \<Longrightarrow>
    unat (word_of_nat (32 + length body) :: u32) = 32 + length body"
  by (simp add: unat_of_nat del: of_nat_add)

lemma gate_scan_frame:
  assumes "gate_valid dst m"
  shows "gate_scan dst r (gate_frame m @ rest) = (Got m, rest)"
proof -
  obtain h body where m: "m = (h, body)" by force
  let ?n = "word_of_nat (32 + length body) :: u32"
  from assms m have n: "unat ?n = 32 + length body" "32 + length body \<le> kMaxMessageSize" "h\<lparr>h_totalLen := ?n\<rparr> = h"
    and d: "dst = kServiceAny \<or> h_dstServiceID h = dst"
    by (auto simp: gate_valid_def unat_frame_len simp del: of_nat_add)
  have "gate_cand dst (header_bytes h ?n @ body @ rest) = Accept (h, body) (32 + length body)"
    using n d by (auto simp: gate_cand_header simp del: of_nat_add)
  then have "gate_scan dst r (header_bytes h ?n @ body @ rest) = (Got (h, body), rest)"
    by (simp add: gate_scan_header judge_def del: of_nat_add)
  then show ?thesis by (simp add: gate_frame_def m del: of_nat_add)
qed

lemma gate_scan_partial:
  assumes "gate_valid dst m" and "strict_prefix bs (gate_frame m)"
  shows "gate_scan dst r bs = (More, bs)"
proof (cases "length bs < 32")
  case True
  then show ?thesis by (simp add: scan.simps [of _ _ r bs] scan_step_def seek_def)
next
  case False
  obtain h body where m: "m = (h, body)" by force
  let ?n = "word_of_nat (32 + length body) :: u32"
  from assms(1) m have n: "unat ?n = 32 + length body" "32 + length body \<le> kMaxMessageSize"
    and d: "dst = kServiceAny \<or> h_dstServiceID h = dst"
    by (auto simp: gate_valid_def unat_frame_len simp del: of_nat_add)
  from assms(2) m have sp: "strict_prefix bs (header_bytes h ?n @ body)" by (simp add: gate_frame_def del: of_nat_add)
  then have "prefix (header_bytes h ?n) bs" using False
    using prefix_length_prefix [of "header_bytes h ?n" "header_bytes h ?n @ body" bs]
    by (simp add: strict_prefix_def del: of_nat_add)
  then obtain x where x: "bs = header_bytes h ?n @ x" by (auto simp: prefix_def)
  have "length bs < 32 + length body" using sp by (auto dest: prefix_length_less)
  then have "gate_cand dst bs = Wait" using n d x by (auto simp: gate_cand_header simp del: of_nat_add)
  then show ?thesis by (simp add: x gate_scan_header judge_def del: of_nat_add)
qed

lemma gate_next_loop: "gate_next dst = gate_loop default_header [] dst 0"
  by (simp add: fun_eq_iff gate_next_def DecodeFrame_def)

lemma gate_next_scan:
  assumes "buffer_ok b" and "gate_scan dst 0 (readable b) = (v, rest)"
  shows "\<exists>b'. gate_next dst b = Some (v, b') \<and> buffer_ok b' \<and> readable b' = rest"
  using gate_rx.impl_scan [where b = b and bs = "readable b" and r = 0 and head = default_header and body = "[]" and dst = dst] assms by (auto simp: gate_next_loop sees_def)

interpretation gate: frame_codec readable buffer_ok buffer_append retrieve "gate_next dst" gate_frame "gate_valid dst" for dst
proof
  fix m show "gate_frame m \<noteq> []"
    using header_bytes_magic [of "fst m" "word_of_nat (32 + length (snd m))"]
    by (auto simp: gate_frame_def simp del: of_nat_add)
next
  fix b m r assume "buffer_ok b" "gate_valid dst m" "readable b = gate_frame m @ r"
  then show "\<exists>b'. gate_next dst b = Some (Got m, b') \<and> buffer_ok b' \<and> readable b' = r"
    by (intro gate_next_scan) (simp_all add: gate_scan_frame)
next
  fix b m assume "buffer_ok b" "gate_valid dst m" "strict_prefix (readable b) (gate_frame m)"
  then show "\<exists>b'. gate_next dst b = Some (More, b') \<and> buffer_ok b' \<and> readable b' = readable b"
    by (intro gate_next_scan) (simp_all add: gate_scan_partial)
next
  fix b v b' assume "buffer_ok b" "gate_next dst b = Some (v, b')" "v \<noteq> More"
  then show "length (readable b') < length (readable b)"
    unfolding gate_next_loop by (rule gate_rx.impl_progress)
qed (unfold gate_next_loop, rule gate_rx.impl_total)

lemma EncodeFrame_spec:
  assumes "buffer_ok out"
  shows "\<exists>out'. EncodeFrame out h body = Some out' \<and> buffer_ok out' \<and> readable out' = readable out @ gate_frame (h, body)"
proof -
  let ?n = "word_of_nat (32 + length body) :: u32"
  obtain b1 where b1: "buffer_append out (header_bytes h ?n) = Some b1" "buffer_ok b1"
    "readable b1 = readable out @ header_bytes h ?n"
    using append_spec [OF assms] by blast
  then show ?thesis using append_spec [OF b1(2), of body]
    by (auto simp: EncodeFrame_def gate_frame_def Let_def simp del: of_nat_add)
qed

fun encode_all :: "buffer \<Rightarrow> (Header \<times> bytes) list \<Rightarrow> buffer option" where
  "encode_all out [] = Some out"
| "encode_all out ((h, body) # ms) = do { out' \<leftarrow> EncodeFrame out h body; encode_all out' ms }"

lemma encode_all_spec:
  "buffer_ok out \<Longrightarrow> \<exists>out'. encode_all out ms = Some out' \<and> buffer_ok out' \<and>
     readable out' = readable out @ concat (map gate_frame ms)"
proof (induction ms arbitrary: out)
  case Nil
  then show ?case by simp
next
  case (Cons m ms)
  obtain h body where m: "m = (h, body)" by force
  obtain b1 where b1: "EncodeFrame out h body = Some b1" "buffer_ok b1" "readable b1 = readable out @ gate_frame m"
    using EncodeFrame_spec [OF Cons.prems] m by blast
  then show ?case using Cons.IH [OF b1(2)] m by auto
qed

lemma gate_valid_exists: "\<exists>m. gate_valid dst m"
proof
  show "gate_valid dst (default_header\<lparr>h_totalLen := 32, h_dstServiceID := dst\<rparr>, [])"
    by (simp add: gate_valid_def)
qed

lemma judge_other_service:
  assumes "dst \<noteq> kServiceAny" and "h_dstServiceID h \<noteq> dst"
  shows "gate_scan dst 0 (header_bytes h n @ x) = gate_scan dst 1 (drop 2 (header_bytes h n @ x))"
  using assms by (simp add: gate_scan_header judge_def gate_cand_header kMaxResyncPerCall_def)

lemma gate_scan_resync:
  assumes m: "gate_valid dst m" and g: "0xC1 \<notin> set g" and r: "r < kMaxResyncPerCall"
  shows "gate_scan dst r (g @ gate_frame m @ rest) = (Got m, rest)"
proof -
  obtain t where t: "gate_frame m = 0xC1 # 0xEA # t" "30 \<le> length t"
    using header_bytes_magic [of "fst m" "word_of_nat (32 + length (snd m))"]
      length_header_bytes [of "fst m" "word_of_nat (32 + length (snd m))"]
    by (auto simp: gate_frame_def simp del: of_nat_add length_header_bytes)
  then have "find_pair 0xC1 0xEA (g @ gate_frame m @ rest) = Some (length g)"
    using find_pair_skip [OF g, of "0xEA" "gate_frame m @ rest"] by simp
  then have "seek (find_pair 0xC1 0xEA) r (g @ gate_frame m @ rest) =
      (Inr (if g = [] then r else Suc r, gate_frame m @ rest) :: ((Header \<times> bytes) verdict \<times> bytes) + nat \<times> bytes)"
    using t r by (simp add: seek_def)
  moreover have "seek (find_pair 0xC1 0xEA) r' (gate_frame m @ rest) =
      (Inr (r', gate_frame m @ rest) :: ((Header \<times> bytes) verdict \<times> bytes) + nat \<times> bytes)" for r'
    using seek_at_header by (simp add: gate_frame_def del: of_nat_add)
  ultimately have "gate_scan dst r (g @ gate_frame m @ rest) = gate_scan dst (if g = [] then r else Suc r) (gate_frame m @ rest)"
    by (simp add: scan.simps [where bs = "g @ gate_frame m @ rest"] scan.simps [where bs = "gate_frame m @ rest"] scan_step_def)
  then show ?thesis by (simp add: gate_scan_frame [OF m])
qed

section \<open>Properties\<close>

text \<open>
  C1. The service link is lossless: whatever frames a sender encodes into its buffer, and
  however the network cuts the bytes into chunks, a receive loop that appends each chunk
  and decodes until more data is needed returns exactly the frames that were sent, in
  order, and is left with an empty buffer.
\<close>

theorem gate_stream_is_lossless:
  assumes "\<forall>m \<in> set ms. gate_valid dst m"
  shows "\<exists>out. encode_all new_buffer ms = Some out \<and>
    (\<forall>cs. concat cs = readable out \<longrightarrow>
      (\<exists>b. receive buffer_append (gate_next dst) (\<lambda>b. Suc (readableBytes b)) new_buffer cs = Some (map Got ms, b) \<and>
           readable b = []))"
proof -
  obtain out where out: "encode_all new_buffer ms = Some out" "readable out = concat (map gate_frame ms)"
    using encode_all_spec [of new_buffer ms] by auto
  obtain m0 where m0: "gate_valid dst m0" using gate_valid_exists by blast
  then have "strict_prefix [] (gate_frame m0)"
    using gate.encode_nonempty [OF m0] by (cases "gate_frame m0") auto
  then have "\<exists>b. receive buffer_append (gate_next dst) (\<lambda>b. Suc (readableBytes b)) new_buffer cs = Some (map Got ms, b) \<and>
      buffer_ok b \<and> readable b = []" if "concat cs = readable out" for cs
    using that out(2) by (intro gate.receive_frames [OF new_buffer_ok(1) m0 assms _ m0]) simp_all
  with out(1) show ?thesis by blast
qed

definition sample_frame :: "Header \<times> bytes" where
  "sample_frame = ((MakeHeader 1 100 1 7 42 kChat kGateway)\<lparr>h_totalLen := 35\<rparr>, [1, 2, 3])"

theorem gate_stream_is_lossless_witness:
  "\<exists>out. encode_all new_buffer [sample_frame, sample_frame] = Some out \<and>
    (\<forall>cs. concat cs = readable out \<longrightarrow>
      (\<exists>b. receive buffer_append (gate_next kGateway) (\<lambda>b. Suc (readableBytes b)) new_buffer cs =
           Some (map Got [sample_frame, sample_frame], b) \<and> readable b = []))"
  by (rule gate_stream_is_lossless) (simp add: gate_valid_def sample_frame_def MakeHeader_def default_header_def)

text \<open>
  \<open>DecodeFrame\<close> is total and makes progress on arbitrary bytes: from a well-formed buffer it
  always returns (no assertion fires, no read leaves the readable area), it only consumes a
  prefix of the input, and every return other than \<open>kNeedMore\<close> consumes at least one
  byte, so no input can make a receive loop spin.
\<close>

theorem DecodeFrame_total_and_progressing:
  assumes "buffer_ok b"
  shows "\<exists>st h bo b'. DecodeFrame b head dst body = Some (st, h, bo, b') \<and> buffer_ok b' \<and>
    suffix (readable b') (readable b) \<and> (st \<noteq> kNeedMore \<longrightarrow> length (readable b') < length (readable b))"
proof -
  obtain v b' where "gate_loop head body dst 0 b = Some (v, b')" "buffer_ok b'" "suffix (readable b') (readable b)"
    using gate_rx.impl_total [OF assms, where head = head and body = body and dst = dst and r = 0] by blast
  moreover from this obtain st h bo where "DecodeFrame b head dst body = Some (st, h, bo, b')" "v = verdict_of st (h, bo)"
    by (auto simp: DecodeFrame_def)
  ultimately show ?thesis using gate_rx.impl_progress [OF assms, where head = head and body = body and dst = dst and r = 0 and v = v and b' = b'] by (cases st) auto
qed

theorem DecodeFrame_total_and_progressing_witness:
  "\<exists>st h bo b'. DecodeFrame new_buffer default_header kScene [] = Some (st, h, bo, b') \<and> buffer_ok b' \<and>
    suffix (readable b') [] \<and> (st \<noteq> kNeedMore \<longrightarrow> length (readable b') < length ([] :: bytes))"
  using DecodeFrame_total_and_progressing [OF new_buffer_ok(1)] by simp

text \<open>
  Resynchronisation recovers the next frame: garbage of any length without a first magic
  byte in front of a valid frame is dropped, and the same call returns the frame.
\<close>

theorem DecodeFrame_resynchronises:
  assumes "buffer_ok b" and "readable b = g @ gate_frame m @ rest" and "0xC1 \<notin> set g" and "gate_valid dst m"
  shows "\<exists>b'. gate_next dst b = Some (Got m, b') \<and> buffer_ok b' \<and> readable b' = rest"
  using assms gate_scan_resync [of dst m g 0 rest] by (intro gate_next_scan) (simp_all add: kMaxResyncPerCall_def)

theorem DecodeFrame_resynchronises_witness:
  "\<exists>b b'. readable b = [9, 9, 9] @ gate_frame sample_frame @ [5] \<and>
     gate_next kGateway b = Some (Got sample_frame, b') \<and> readable b' = [5]"
proof -
  obtain b where b: "buffer_ok b" "readable b = [9, 9, 9] @ gate_frame sample_frame @ [5]"
    using append_spec [OF new_buffer_ok(1), of "[9, 9, 9] @ gate_frame sample_frame @ [5]"] by auto
  have "gate_valid kGateway sample_frame"
    by (simp add: gate_valid_def sample_frame_def MakeHeader_def default_header_def)
  from DecodeFrame_resynchronises [OF b _ this] b(2) show ?thesis by fastforce
qed

text \<open>
  A frame for another service is not skipped as a unit: only its two magic bytes are, and the
  search goes on inside it. If its body carries the bytes of a frame addressed to the
  receiver, that embedded frame is returned as a message of the link.
\<close>

theorem foreign_frame_body_is_decoded:
  assumes "buffer_ok b" and "dst \<noteq> kServiceAny" and "h_dstServiceID h \<noteq> dst" and "gate_valid dst m"
    and "readable b = gate_frame (h, gate_frame m) @ rest"
    and "0xC1 \<notin> set (drop 2 (header_bytes h (word_of_nat (32 + length (gate_frame m)))))"
  shows "\<exists>b'. gate_next dst b = Some (Got m, b') \<and> buffer_ok b' \<and> readable b' = rest"
proof -
  let ?hd = "header_bytes h (word_of_nat (32 + length (gate_frame m)))"
  have "gate_scan dst 0 (readable b) = gate_scan dst 1 (drop 2 (?hd @ gate_frame m @ rest))"
    using judge_other_service [OF assms(2,3)] assms(5) by (simp add: gate_frame_def del: of_nat_add)
  also have "\<dots> = (Got m, rest)"
    using gate_scan_resync [OF assms(4,6), of 1 rest] by (simp add: kMaxResyncPerCall_def del: of_nat_add)
  finally show ?thesis by (rule gate_next_scan [OF assms(1)])
qed

theorem foreign_frame_body_is_decoded_witness:
  "\<exists>b b'. readable b = gate_frame (default_header\<lparr>h_dstServiceID := kScene\<rparr>, gate_frame sample_frame) \<and>
     gate_next kGateway b = Some (Got sample_frame, b') \<and> readable b' = []"
proof -
  let ?h = "default_header\<lparr>h_dstServiceID := kScene\<rparr>"
  obtain b where b: "buffer_ok b" "readable b = gate_frame (?h, gate_frame sample_frame) @ []"
    using append_spec [OF new_buffer_ok(1), of "gate_frame (?h, gate_frame sample_frame)"] by auto
  have v: "gate_valid kGateway sample_frame"
    by (simp add: gate_valid_def sample_frame_def MakeHeader_def default_header_def)
  have c: "0xC1 \<notin> set (drop 2 (header_bytes ?h (word_of_nat (32 + length (gate_frame sample_frame)))))"
    by code_simp
  have "h_dstServiceID ?h \<noteq> kGateway" by simp
  from foreign_frame_body_is_decoded [OF b(1) _ this v b(2) c] b(2) show ?thesis by fastforce
qed

text \<open>
  Handshake round trip: unpacking a packed handshake gives it back exactly when it is valid and
  fails otherwise, and a body that unpacks is the packing of its result; a body of any other
  length than 27 is refused.
\<close>

theorem handshake_roundtrip:
  "UnpackBackendHandshake (PackBackendHandshake h) = (if ValidBackendHandshake h then Some h else None) \<and>
   (UnpackBackendHandshake body = Some h \<longrightarrow> PackBackendHandshake h = body \<and> ValidBackendHandshake h)"
proof
  show "UnpackBackendHandshake (PackBackendHandshake h) = (if ValidBackendHandshake h then Some h else None)"
    by (cases h) (simp add: UnpackBackendHandshake_def PackBackendHandshake_def slice_simps get_le_put_le)
next
  show "UnpackBackendHandshake body = Some h \<longrightarrow> PackBackendHandshake h = body \<and> ValidBackendHandshake h"
    by (auto simp: UnpackBackendHandshake_def PackBackendHandshake_def Let_def put_le_slice slice_join slice_join3 slice_all
        simp del: slice_0 split: if_splits)
qed

theorem handshake_roundtrip_witness:
  "UnpackBackendHandshake (PackBackendHandshake \<lparr>hs_protocolVersion = 1, hs_serviceId = 8, hs_zoneId = 1,
      hs_sceneId = 2, hs_sceneIncarnation = 3, hs_targetGatewayId = 1, hs_channelId = 0\<rparr>) =
    Some \<lparr>hs_protocolVersion = 1, hs_serviceId = 8, hs_zoneId = 1,
      hs_sceneId = 2, hs_sceneIncarnation = 3, hs_targetGatewayId = 1, hs_channelId = 0\<rparr>"
  using handshake_roundtrip [of "\<lparr>hs_protocolVersion = 1, hs_serviceId = 8, hs_zoneId = 1,
      hs_sceneId = 2, hs_sceneIncarnation = 3, hs_targetGatewayId = 1, hs_channelId = 0\<rparr>"]
  by (simp add: ValidBackendHandshake_def)

end
