(* ===== verification/ClientProto.thy ===== *)
theory ClientProto
  imports GateProto
begin

text \<open>
  The public client protocol, zone_common/base/clientProto.h and clientProto.cc: the 32-byte client
  header with its role name, the name check, encoder and decoder, and the fixed-width control bodies.
  The decoder is shown to implement the same reference decoder and contract as the service
  protocol; the name check is shown to accept exactly the UTF-8 encodings without control characters.
\<close>

section \<open>Constants and data\<close>

definition kClientMagic :: u16 where [simp]: "kClientMagic = 0xC1EB"
definition kClientVersion :: u8 where [simp]: "kClientVersion = 2"
definition kRoleNameSize :: nat where [simp]: "kRoleNameSize = 12"
definition kClientHeaderSize :: nat where [simp]: "kClientHeaderSize = 32"
definition kMaxClientFrameSize :: nat where [simp]: "kMaxClientFrameSize = 64 * 1024"

text \<open>\<open>ClientKind\<close> is an enumeration over a byte; the decoder casts any byte to it.\<close>

definition kRequest :: u8 where "kRequest = 1"
definition kResponse :: u8 where "kResponse = 2"
definition kPush :: u8 where "kPush = 3"
definition kErrorKind :: u8 where "kErrorKind = 4"
definition kControl :: u8 where "kControl = 5"

record ClientHeader =
  c_kind :: u8
  c_module :: u16
  c_method :: u16
  c_requestId :: u64
  c_totalLen :: u32
  c_roleName :: bytes

definition default_client_header :: ClientHeader where
  "default_client_header = \<lparr>c_kind = kRequest, c_module = 0, c_method = 0, c_requestId = 0, c_totalLen = 0,
     c_roleName = []\<rparr>"

section \<open>Role names\<close>

definition utf8_len :: "u8 \<Rightarrow> nat option" where
  "utf8_len c =
     (if c < 0x80 then Some 1
      else if c \<ge> 0xc2 \<and> c \<le> 0xdf then Some 2
      else if c \<ge> 0xe0 \<and> c \<le> 0xef then Some 3
      else if c \<ge> 0xf0 \<and> c \<le> 0xf4 then Some 4
      else None)"

text \<open>The loop over \<open>name\<close> from position \<open>i\<close>, on the bytes from \<open>i\<close> on.\<close>

function role_name_loop :: "bytes \<Rightarrow> bool" where
  "role_name_loop [] = True"
| "role_name_loop (c # rest) =
     (if c < 0x20 \<or> c = 0x7f then False
      else case utf8_len c of
        None \<Rightarrow> False
      | Some n \<Rightarrow>
          if n > Suc (length rest) then False
          else if \<exists>b \<in> set (take (n - 1) rest). b AND 0xc0 \<noteq> 0x80 then False
          else if n > 1 \<and> (c = 0xe0 \<and> rest ! 0 < 0xa0 \<or> c = 0xed \<and> rest ! 0 \<ge> 0xa0 \<or>
                            c = 0xf0 \<and> rest ! 0 < 0x90 \<or> c = 0xf4 \<and> rest ! 0 \<ge> 0x90) then False
          else role_name_loop (drop (n - 1) rest))"
  by pat_completeness auto
termination by (relation "measure length") auto

definition ValidRoleName :: "bytes \<Rightarrow> bool" where
  "ValidRoleName name = (if length name > kRoleNameSize then False else role_name_loop name)"

section \<open>Encoding and decoding\<close>

definition client_header_bytes :: "ClientHeader \<Rightarrow> u32 \<Rightarrow> bytes" where
  "client_header_bytes h totalLen =
     put_be 2 kClientMagic @ [kClientVersion] @ [c_kind h] @ put_be 2 (c_module h) @ put_be 2 (c_method h) @
     put_be 8 (c_requestId h) @ put_be 4 totalLen @
     c_roleName h @ replicate (kRoleNameSize - length (c_roleName h)) 0"

datatype invalid_argument = invalid_roleName

text \<open>\<open>Inl\<close> is the \<open>std::invalid_argument\<close> thrown for a bad role name.\<close>

definition EncodeClientFrame :: "buffer \<Rightarrow> ClientHeader \<Rightarrow> bytes \<Rightarrow> (invalid_argument + buffer) option" where
  "EncodeClientFrame out h body =
     (if \<not> ValidRoleName (c_roleName h) then Some (Inl invalid_roleName)
      else do {
        let totalLen = (word_of_nat (kClientHeaderSize + length body) :: u32);
        out' \<leftarrow> buffer_append out (client_header_bytes h totalLen);
        map_option Inr (if body \<noteq> [] then buffer_append out' body else Some out')
      })"

definition FindClientMagic :: "buffer \<Rightarrow> nat option" where
  "FindClientMagic buf =
     (if readableBytes buf < 2 then None
      else find_pair (ucast (drop_bit 8 kClientMagic)) (ucast kClientMagic) (take (readableBytes buf) (peek buf)))"

definition client_candidate_len :: "buffer \<Rightarrow> u32" where
  "client_candidate_len buf = get_be (slice 16 4 (peek buf))"

definition ClientHeaderAcceptable :: "buffer \<Rightarrow> bool" where
  "ClientHeaderAcceptable buf \<longleftrightarrow>
     peek buf ! 2 = kClientVersion \<and>
     \<not> (unat (client_candidate_len buf) < kClientHeaderSize \<or> unat (client_candidate_len buf) > kMaxClientFrameSize)"

text \<open>The name field: up to the first zero byte, and whether only zeros follow it.\<close>

definition name_field :: "bytes \<Rightarrow> bytes \<times> bool" where
  "name_field field12 = (let nm = takeWhile (\<lambda>b. b \<noteq> 0) field12 in (nm, \<forall>b \<in> set (drop (length nm) field12). b = 0))"

definition ReadClientHeader :: "ClientHeader \<Rightarrow> u32 \<Rightarrow> bytes \<Rightarrow> buffer \<Rightarrow> (ClientHeader \<times> buffer) option" where
  "ReadClientHeader h totalLen roleName buf = do {
     (_ :: u16, buf) \<leftarrow> readUint16 buf;
     (_ :: u8, buf) \<leftarrow> readUint8 buf;
     (kind, buf) \<leftarrow> readUint8 buf;
     (module, buf) \<leftarrow> readUint16 buf;
     (method, buf) \<leftarrow> readUint16 buf;
     (requestId, buf) \<leftarrow> readUint64 buf;
     (_ :: u32, buf) \<leftarrow> readUint32 buf;
     (_, buf) \<leftarrow> map_option (\<lambda>b'. ((), b')) (retrieve buf kRoleNameSize);
     Some (h\<lparr>c_totalLen := totalLen, c_kind := kind, c_module := module, c_method := method,
       c_requestId := requestId, c_roleName := roleName\<rparr>, buf)
   }"

definition ConsumeClientFrame ::
  "buffer \<Rightarrow> ClientHeader \<Rightarrow> bytes \<Rightarrow> u32 \<Rightarrow> (DecodeStatus \<times> ClientHeader \<times> bytes \<times> buffer) option" where
  "ConsumeClientFrame buf h body totalLen =
     (let (roleName, padded) = name_field (slice 20 kRoleNameSize (peek buf)) in
      if \<not> padded \<or> \<not> ValidRoleName roleName
      then map_option (\<lambda>buf'. (kError, h, body, buf')) (retrieve buf 2)
      else do {
        (h', buf') \<leftarrow> ReadClientHeader h totalLen roleName buf;
        let bodyLen = unat (totalLen - word_of_nat kClientHeaderSize);
        if readableBytes buf' < bodyLen then Some (kNeedMore, h', body, buf')
        else map_option (\<lambda>(body', buf''). (kOk, h', body', buf'')) (readAsString buf' bodyLen)
      })"

function DecodeClientFrame_loop ::
  "nat \<Rightarrow> buffer \<Rightarrow> ClientHeader \<Rightarrow> bytes \<Rightarrow> (DecodeStatus \<times> ClientHeader \<times> bytes \<times> buffer) option" where
  "DecodeClientFrame_loop resync buf h body =
     (case SeekMagic kClientHeaderSize FindClientMagic resync buf of
        None \<Rightarrow> None
      | Some (Inl (st, buf1)) \<Rightarrow> Some (st, h, body, buf1)
      | Some (Inr (resync1, buf1)) \<Rightarrow>
          if \<not> ClientHeaderAcceptable buf1
          then (case retrieve buf1 2 of
              None \<Rightarrow> None
            | Some buf2 \<Rightarrow>
                if Suc resync1 > kMaxResyncPerCall then Some (kError, h, body, buf2)
                else DecodeClientFrame_loop (Suc resync1) buf2 h body)
          else if unat (client_candidate_len buf1) > readableBytes buf1 then Some (kNeedMore, h, body, buf1)
          else ConsumeClientFrame buf1 h body (client_candidate_len buf1))"
  by pat_completeness auto
termination
  by (relation "measure (\<lambda>(r, _). Suc kMaxResyncPerCall - r)") (auto dest!: SeekMagic_counts)

declare DecodeClientFrame_loop.simps [simp del]

definition DecodeClientFrame ::
  "buffer \<Rightarrow> ClientHeader \<Rightarrow> bytes \<Rightarrow> (DecodeStatus \<times> ClientHeader \<times> bytes \<times> buffer) option" where
  "DecodeClientFrame buf h body = DecodeClientFrame_loop 0 buf h body"

definition client_next :: "buffer \<Rightarrow> ((ClientHeader \<times> bytes) verdict \<times> buffer) option" where
  "client_next buf = map_option (\<lambda>(st, h, body, buf'). (verdict_of st (h, body), buf'))
     (DecodeClientFrame buf default_client_header [])"

section \<open>Control bodies\<close>

definition ClientPutU32 :: "bytes \<Rightarrow> u32 \<Rightarrow> bytes" where
  "ClientPutU32 s v = s @ put_le 4 v"

definition ClientPutU64 :: "bytes \<Rightarrow> u64 \<Rightarrow> bytes" where
  "ClientPutU64 s v = s @ put_le 8 v"

definition ClientGetU32 :: "bytes \<Rightarrow> nat \<Rightarrow> u32 option" where
  "ClientGetU32 s off = (if length s < off + 4 then None else Some (get_le (slice off 4 s)))"

definition ClientGetU64 :: "bytes \<Rightarrow> nat \<Rightarrow> u64 option" where
  "ClientGetU64 s off = (if length s < off + 8 then None else Some (get_le (slice off 8 s)))"

definition MakeAuthBody :: "u64 \<Rightarrow> u64 \<Rightarrow> bytes" where
  "MakeAuthBody playerId ticket = ClientPutU64 (ClientPutU64 [] playerId) ticket"

definition ParseAuthBody :: "bytes \<Rightarrow> (u64 \<times> u64) option" where
  "ParseAuthBody body =
     (if length body = 16
      then do { playerId \<leftarrow> ClientGetU64 body 0; ticket \<leftarrow> ClientGetU64 body 8; Some (playerId, ticket) }
      else None)"

definition MakeAuthAckBody :: "u64 \<Rightarrow> u64 \<Rightarrow> u32 \<Rightarrow> u32 \<Rightarrow> u8 \<Rightarrow> bytes" where
  "MakeAuthAckBody playerId sessionId epoch zoneId dstService =
     ClientPutU32 (ClientPutU32 (ClientPutU64 (ClientPutU64 [] playerId) sessionId) epoch) zoneId @ [dstService]"

definition ParseAuthAckBody :: "bytes \<Rightarrow> (u64 \<times> u64 \<times> u32 \<times> u32 \<times> u8) option" where
  "ParseAuthAckBody body =
     (if length body \<noteq> 25 then None
      else do {
        playerId \<leftarrow> ClientGetU64 body 0;
        sessionId \<leftarrow> ClientGetU64 body 8;
        epoch \<leftarrow> ClientGetU32 body 16;
        zoneId \<leftarrow> ClientGetU32 body 20;
        Some (playerId, sessionId, epoch, zoneId, body ! 24)
      })"

definition MakeServiceBody :: "u8 \<Rightarrow> bytes" where
  "MakeServiceBody serviceId = [serviceId]"

definition ParseServiceBody :: "bytes \<Rightarrow> u8 option" where
  "ParseServiceBody body = (if length body \<noteq> 1 then None else Some (body ! 0))"

section \<open>The decoder implements the reference decoder\<close>

definition client_header_of :: "bytes \<Rightarrow> ClientHeader" where
  "client_header_of bs = \<lparr>c_kind = bs ! 3, c_module = get_be (slice 4 2 bs), c_method = get_be (slice 6 2 bs),
     c_requestId = get_be (slice 8 8 bs), c_totalLen = get_be (slice 16 4 bs),
     c_roleName = fst (name_field (slice 20 12 bs))\<rparr>"

definition client_cand :: "bytes \<Rightarrow> (ClientHeader \<times> bytes) candidate" where
  "client_cand bs =
     (let n = unat (get_be (slice 16 4 bs) :: u32); (nm, padded) = name_field (slice 20 12 bs) in
      if \<not> (bs ! 2 = kClientVersion \<and> \<not> (n < kClientHeaderSize \<or> n > kMaxClientFrameSize)) then Skip
      else if n > length bs then Wait
      else if \<not> padded \<or> \<not> ValidRoleName nm then Reject
      else Accept (client_header_of bs, slice 32 (n - 32) bs) n)"

abbreviation client_scan :: "nat \<Rightarrow> bytes \<Rightarrow> (ClientHeader \<times> bytes) verdict \<times> bytes" where
  "client_scan \<equiv> scan (find_pair 0xC1 0xEB) client_cand"

abbreviation client_loop :: "ClientHeader \<Rightarrow> bytes \<Rightarrow> nat \<Rightarrow> buffer \<Rightarrow> ((ClientHeader \<times> bytes) verdict \<times> buffer) option" where
  "client_loop h body r b \<equiv> map_option (\<lambda>(st, h, body, buf'). (verdict_of st (h, body), buf'))
     (DecodeClientFrame_loop r b h body)"

lemma client_reads:
  assumes "sees b bs" and "32 \<le> length bs"
  shows "client_candidate_len b = get_be (slice 16 4 bs)"
    and "slice 20 12 (peek b) = slice 20 12 bs"
    and "ClientHeaderAcceptable b \<longleftrightarrow> client_cand bs \<noteq> Skip"
  using assms
  by (auto simp: sees_def client_candidate_len_def ClientHeaderAcceptable_def client_cand_def slice_peek nth_peek
      Let_def split: prod.splits)

lemma client_magic_bytes: "ucast (drop_bit 8 kClientMagic) = (0xC1 :: u8)" "ucast kClientMagic = (0xEB :: u8)"
  by simp_all

lemma FindClientMagic_sees: "sees b bs \<Longrightarrow> 32 \<le> length bs \<Longrightarrow> FindClientMagic b = find_pair 0xC1 0xEB bs"
  by (auto simp: sees_def FindClientMagic_def client_magic_bytes take_peek simp del: kClientMagic_def)

definition client_parse :: "ClientHeader \<Rightarrow> u32 \<Rightarrow> bytes \<Rightarrow> bytes \<Rightarrow> (ClientHeader \<times> bytes) option" where
  "client_parse h n roleName bs = do {
     (_ :: u16, bs) \<leftarrow> field 2 get_be bs;
     (_ :: u8, bs) \<leftarrow> field 1 hd bs;
     (kind, bs) \<leftarrow> field 1 hd bs;
     (module, bs) \<leftarrow> field 2 get_be bs;
     (method, bs) \<leftarrow> field 2 get_be bs;
     (requestId, bs) \<leftarrow> field 8 get_be bs;
     (_ :: u32, bs) \<leftarrow> field 4 get_be bs;
     (_, bs) \<leftarrow> field kRoleNameSize (\<lambda>_. ()) bs;
     Some (h\<lparr>c_totalLen := n, c_kind := kind, c_module := module, c_method := method,
       c_requestId := requestId, c_roleName := roleName\<rparr>, bs)
   }"

lemma ReadClientHeader_refines: "refines (ReadClientHeader h n nm) (client_parse h n nm)"
  unfolding ReadClientHeader_def [abs_def] client_parse_def [abs_def] by (rule refine_intros)+

lemma client_parse_eq:
  assumes "32 \<le> length bs" and "n = get_be (slice 16 4 bs)" and "nm = fst (name_field (slice 20 12 bs))"
  shows "client_parse h n nm bs = Some (client_header_of bs, drop 32 bs)"
  using assms
  by (cases h) (simp add: client_parse_def field_def client_header_of_def slice_def hd_drop_conv_nth le_diff_conv2,
      simp add: eval_nat_numeral)

lemma client_cand_Accept:
  assumes "client_cand bs = Accept m n"
  shows "n = unat (get_be (slice 16 4 bs) :: u32)" and "32 \<le> n" and "n \<le> length bs"
    and "m = (client_header_of bs, slice 32 (n - 32) bs)"
    and "snd (name_field (slice 20 12 bs))" and "ValidRoleName (fst (name_field (slice 20 12 bs)))"
  using assms by (auto simp: client_cand_def Let_def split: if_splits prod.splits)

lemma client_cand_Reject:
  assumes "client_cand bs = Reject"
  shows "\<not> (snd (name_field (slice 20 12 bs)) \<and> ValidRoleName (fst (name_field (slice 20 12 bs))))"
    and "unat (get_be (slice 16 4 bs) :: u32) \<le> length bs"
  using assms by (auto simp: client_cand_def Let_def split: if_splits prod.splits)

lemma ConsumeClientFrame_accept:
  assumes s: "sees b bs" and acc: "client_cand bs = Accept m n" and len: "32 \<le> length bs"
  shows "\<exists>b'. ConsumeClientFrame b h body (client_candidate_len b) = Some (kOk, fst m, snd m, b') \<and> sees b' (drop n bs)"
proof -
  let ?n = "get_be (slice 16 4 bs) :: u32" and ?nm = "fst (name_field (slice 20 12 bs))"
  from s have ok: "buffer_ok b" and bs: "readable b = bs" by (auto simp: sees_def)
  note n = client_cand_Accept [OF acc]
  have "unat (?n - 32) = n - 32" using n(1,2) by (simp add: unat_sub word_le_nat_alt)
  moreover obtain b1 where b1: "ReadClientHeader h ?n ?nm b = Some (client_header_of bs, b1)" "buffer_ok b1"
    "readable b1 = drop 32 bs"
    using refinesD [OF ReadClientHeader_refines ok, of h ?n ?nm] client_parse_eq [OF len refl refl] bs by auto
  moreover obtain b2 where "readAsString b1 (n - 32) = Some (slice 32 (n - 32) bs, b2)" "sees b2 (drop n bs)"
    using readAsString_spec [OF b1(2), of "n - 32"] b1(3) n(2) by (auto simp: slice_def sees_def)
  ultimately show ?thesis using client_reads [OF s len] len bs n
    by (auto simp: ConsumeClientFrame_def Let_def split: prod.splits)
qed

lemma ConsumeClientFrame_reject:
  assumes s: "sees b bs" and rej: "client_cand bs = Reject" and len: "32 \<le> length bs"
  shows "\<exists>b'. ConsumeClientFrame b h body (client_candidate_len b) = Some (kError, h, body, b') \<and> sees b' (drop 2 bs)"
  using client_cand_Reject(1) [OF rej] client_reads(2) [OF s len] sees_retrieve [OF s, of 2] len
  by (auto simp: ConsumeClientFrame_def Let_def split: prod.splits)

lemma client_step_law:
  assumes s: "sees b bs"
  shows "case scan_step (find_pair 0xC1 0xEB) client_cand r bs of
      Inl (v, rest) \<Rightarrow> \<exists>b'. client_loop h body r b = Some (v, b') \<and> sees b' rest
    | Inr (r', rest) \<Rightarrow> \<exists>b'. client_loop h body r b = client_loop h body r' b' \<and> sees b' rest"
proof (cases rule: SeekMagic_cases [where 'm = "ClientHeader \<times> bytes" and fm = FindClientMagic and a = "0xC1" and c = "0xEB"
      and r = r, OF s, case_names find stop go])
  case find
  then show ?case by (rule FindClientMagic_sees)
next
  case stop
  then show ?thesis by (auto simp: scan_step_def DecodeClientFrame_loop.simps [of r b])
next
  case (go r1 rest b1)
  have rb: "readableBytes b1 = length rest" using go(3) by (auto simp: sees_def)
  note reads = client_reads [OF go(3,4)] and unfold = DecodeClientFrame_loop.simps [of r b]
  obtain b2 where b2: "retrieve b1 2 = Some b2" "sees b2 (drop 2 rest)"
    using sees_retrieve [OF go(3), of 2] go(4) by auto
  show ?thesis
  proof (cases "client_cand rest")
    case Skip
    with go b2 rb reads show ?thesis
      by (auto simp: scan_step_def judge_def unfold split: if_splits)
  next
    case Wait
    then have "length rest < unat (get_be (slice 16 4 rest) :: u32)"
      by (auto simp: client_cand_def Let_def split: if_splits prod.splits)
    with go Wait rb reads show ?thesis by (auto simp: scan_step_def judge_def unfold)
  next
    case Reject
    with go rb reads client_cand_Reject(2) [OF Reject] ConsumeClientFrame_reject [OF go(3) Reject go(4), of h body]
    show ?thesis by (auto simp: scan_step_def judge_def unfold)
  next
    case (Accept m n)
    with go rb reads client_cand_Accept(1,3) [OF Accept] ConsumeClientFrame_accept [OF go(3) Accept go(4), of h body]
    show ?thesis by (auto simp: scan_step_def judge_def unfold)
  qed
qed

interpretation client_rx: resync_loop "find_pair 0xC1 0xEB" client_cand "client_loop h body" for h body
proof
  fix bs m n
  assume "client_cand bs = Accept m n"
  then show "0 < n" by (auto dest: client_cand_Accept(2))
qed (fact client_step_law find_pair_bound)+

section \<open>Frames on the wire\<close>

definition client_frame :: "ClientHeader \<times> bytes \<Rightarrow> bytes" where
  "client_frame m = client_header_bytes (fst m) (word_of_nat (32 + length (snd m))) @ snd m"

definition client_valid :: "ClientHeader \<times> bytes \<Rightarrow> bool" where
  "client_valid m \<longleftrightarrow> 32 + length (snd m) \<le> kMaxClientFrameSize \<and> ValidRoleName (c_roleName (fst m)) \<and>
     c_totalLen (fst m) = word_of_nat (32 + length (snd m))"

lemma role_name_nonzero: "role_name_loop nm \<Longrightarrow> 0 \<notin> set nm"
proof (induction nm rule: role_name_loop.induct)
  case 1
  then show ?case by simp
next
  case (2 c rest)
  then obtain n where n: "utf8_len c = Some n" "\<not> (c < 0x20 \<or> c = 0x7f)" "\<not> n > Suc (length rest)"
    "\<forall>b \<in> set (take (n - 1) rest). b AND 0xc0 = 0x80" "role_name_loop (drop (n - 1) rest)"
    by (auto split: if_splits option.splits)
  with 2 have "0 \<notin> set (drop (n - 1) rest)" by (auto split: if_splits)
  moreover have "0 \<notin> set (take (n - 1) rest)"
  proof
    assume "0 \<in> set (take (n - 1) rest)"
    with n(4) have "(0 :: u8) AND 0xc0 = 0x80" by blast
    then show False by simp
  qed
  ultimately have "0 \<notin> set (take (n - 1) rest @ drop (n - 1) rest)" unfolding set_append by blast
  with n(2) show ?case by (auto simp del: One_nat_def)
qed

lemma name_field_pad:
  assumes "ValidRoleName nm"
  shows "name_field (nm @ replicate k 0) = (nm, True)"
proof -
  have "0 \<notin> set nm" using assms by (auto simp: ValidRoleName_def role_name_nonzero split: if_splits)
  then have "takeWhile (\<lambda>b. b \<noteq> 0) (nm @ replicate k 0) = nm" by (cases k) (auto simp: takeWhile_append)
  then show ?thesis by (simp add: name_field_def)
qed

lemma length_client_header [simp]: "length (c_roleName h) \<le> 12 \<Longrightarrow> length (client_header_bytes h n) = 32"
  by (simp add: client_header_bytes_def)

lemma ValidRoleName_length: "ValidRoleName nm \<Longrightarrow> length nm \<le> 12"
  by (simp add: ValidRoleName_def split: if_splits)

lemma client_magic_wire: "put_be 2 kClientMagic = [0xC1, 0xEB]"
  by code_simp

lemma client_header_magic: "\<exists>t. client_header_bytes h n = 0xC1 # 0xEB # t"
  by (simp add: client_header_bytes_def client_magic_wire del: kClientMagic_def)

lemma client_header_fields:
  assumes "length (c_roleName h) \<le> 12"
  shows "client_header_bytes h n ! 2 = kClientVersion" "client_header_bytes h n ! 3 = c_kind h"
  "slice 4 2 (client_header_bytes h n @ x) = put_be 2 (c_module h)"
  "slice 6 2 (client_header_bytes h n @ x) = put_be 2 (c_method h)"
  "slice 8 8 (client_header_bytes h n @ x) = put_be 8 (c_requestId h)"
  "slice 16 4 (client_header_bytes h n @ x) = put_be 4 n"
  "slice 20 12 (client_header_bytes h n @ x) = c_roleName h @ replicate (12 - length (c_roleName h)) 0"
  using assms
  by (simp_all add: client_header_bytes_def slice_simps nth_append del: kClientMagic_def kClientVersion_def)

lemma client_header_of_bytes:
  "ValidRoleName (c_roleName h) \<Longrightarrow> client_header_of (client_header_bytes h n @ x) = h\<lparr>c_totalLen := n\<rparr>"
  by (cases h) (simp add: client_header_of_def client_header_fields ValidRoleName_length nth_append get_be_put_be
      name_field_pad)

lemma client_cand_header:
  assumes "ValidRoleName (c_roleName h)"
  shows "client_cand (client_header_bytes h n @ x) =
     (if unat n < kClientHeaderSize \<or> unat n > kMaxClientFrameSize then Skip
      else if unat n > 32 + length x then Wait
      else Accept (h\<lparr>c_totalLen := n\<rparr>, take (unat n - 32) x) (unat n))"
  using assms ValidRoleName_length [OF assms]
  by (simp add: client_cand_def client_header_fields client_header_of_bytes nth_append get_be_put_be slice_skip
      Let_def name_field_pad)

lemma seek_at_client_header:
  assumes "ValidRoleName (c_roleName h)"
  shows "seek (find_pair 0xC1 0xEB) r (client_header_bytes h n @ x) = Inr (r, client_header_bytes h n @ x)"
proof -
  obtain t where "client_header_bytes h n = 0xC1 # 0xEB # t" using client_header_magic by blast
  then have "find_pair 0xC1 0xEB (client_header_bytes h n @ x) = Some 0" by simp
  then show ?thesis using ValidRoleName_length [OF assms] by (simp add: seek_def)
qed

lemma client_scan_header:
  "ValidRoleName (c_roleName h) \<Longrightarrow>
   client_scan r (client_header_bytes h n @ x) = (case judge client_cand r (client_header_bytes h n @ x) of
     Inl out \<Rightarrow> out | Inr (r', bs') \<Rightarrow> client_scan r' bs')"
  by (subst scan.simps) (simp add: scan_step_def seek_at_client_header)

lemma unat_client_len: "32 + length (body :: bytes) \<le> kMaxClientFrameSize \<Longrightarrow>
    unat (word_of_nat (32 + length body) :: u32) = 32 + length body"
  by (simp add: unat_of_nat del: of_nat_add)

lemma client_scan_frame:
  assumes "client_valid m"
  shows "client_scan r (client_frame m @ rest) = (Got m, rest)"
proof -
  obtain h body where m: "m = (h, body)" by force
  let ?n = "word_of_nat (32 + length body) :: u32"
  from assms m have n: "unat ?n = 32 + length body" "32 + length body \<le> kMaxClientFrameSize" "h\<lparr>c_totalLen := ?n\<rparr> = h"
    and v: "ValidRoleName (c_roleName h)"
    by (auto simp: client_valid_def unat_client_len simp del: of_nat_add)
  have "client_cand (client_header_bytes h ?n @ body @ rest) = Accept (h, body) (32 + length body)"
    using n v by (auto simp: client_cand_header simp del: of_nat_add)
  then have "client_scan r (client_header_bytes h ?n @ body @ rest) = (Got (h, body), rest)"
    using v ValidRoleName_length [OF v] by (simp add: client_scan_header judge_def del: of_nat_add)
  then show ?thesis by (simp add: client_frame_def m del: of_nat_add)
qed

lemma client_scan_partial:
  assumes "client_valid m" and "strict_prefix bs (client_frame m)"
  shows "client_scan r bs = (More, bs)"
proof (cases "length bs < 32")
  case True
  then show ?thesis by (simp add: scan.simps [of _ _ r bs] scan_step_def seek_def)
next
  case False
  obtain h body where m: "m = (h, body)" by force
  let ?n = "word_of_nat (32 + length body) :: u32"
  from assms(1) m have n: "unat ?n = 32 + length body" "32 + length body \<le> kMaxClientFrameSize"
    and v: "ValidRoleName (c_roleName h)"
    by (auto simp: client_valid_def unat_client_len simp del: of_nat_add)
  note len = length_client_header [OF ValidRoleName_length [OF v]]
  from assms(2) m have sp: "strict_prefix bs (client_header_bytes h ?n @ body)"
    by (simp add: client_frame_def del: of_nat_add)
  then have "prefix (client_header_bytes h ?n) bs" using False len
    prefix_length_prefix [of "client_header_bytes h ?n" "client_header_bytes h ?n @ body" bs]
    by (simp add: strict_prefix_def del: of_nat_add)
  then obtain x where x: "bs = client_header_bytes h ?n @ x" by (auto simp: prefix_def)
  have "length bs < 32 + length body" using prefix_length_less [OF sp] len by (simp del: of_nat_add)
  then have "client_cand bs = Wait" using n v x len by (auto simp: client_cand_header simp del: of_nat_add)
  then show ?thesis using v by (simp add: x client_scan_header judge_def del: of_nat_add)
qed

lemma client_next_loop: "client_next = client_loop default_client_header [] 0"
  by (simp add: fun_eq_iff client_next_def DecodeClientFrame_def)

lemma client_next_scan:
  assumes "buffer_ok b" and "client_scan 0 (readable b) = (v, rest)"
  shows "\<exists>b'. client_next b = Some (v, b') \<and> buffer_ok b' \<and> readable b' = rest"
  using client_rx.impl_scan [where b = b and bs = "readable b" and r = 0 and h = default_client_header and body = "[]"] assms
  by (auto simp: client_next_loop sees_def)

interpretation client: frame_codec readable buffer_ok buffer_append retrieve client_next client_frame client_valid
proof
  fix m show "client_frame m \<noteq> []"
    using client_header_magic [of "fst m" "word_of_nat (32 + length (snd m))"]
    by (auto simp: client_frame_def simp del: of_nat_add)
next
  fix b m r assume "buffer_ok b" "client_valid m" "readable b = client_frame m @ r"
  then show "\<exists>b'. client_next b = Some (Got m, b') \<and> buffer_ok b' \<and> readable b' = r"
    by (intro client_next_scan) (simp_all add: client_scan_frame)
next
  fix b m assume "buffer_ok b" "client_valid m" "strict_prefix (readable b) (client_frame m)"
  then show "\<exists>b'. client_next b = Some (More, b') \<and> buffer_ok b' \<and> readable b' = readable b"
    by (intro client_next_scan) (simp_all add: client_scan_partial)
next
  fix b v b' assume "buffer_ok b" "client_next b = Some (v, b')" "v \<noteq> More"
  then show "length (readable b') < length (readable b)"
    unfolding client_next_loop by (rule client_rx.impl_progress)
qed (unfold client_next_loop, rule client_rx.impl_total)

section \<open>UTF-8\<close>

text \<open>
  The reference: Unicode scalar values, their UTF-8 encoding, and the printable ones in the sense of
  the code (no C0 control, no DEL).
\<close>

definition scalar :: "nat \<Rightarrow> bool" where
  "scalar cp \<longleftrightarrow> cp < 0xD800 \<or> 0xE000 \<le> cp \<and> cp < 0x110000"

definition printable :: "nat \<Rightarrow> bool" where
  "printable cp \<longleftrightarrow> scalar cp \<and> 0x20 \<le> cp \<and> cp \<noteq> 0x7f"

definition utf8 :: "nat \<Rightarrow> nat list" where
  "utf8 cp =
     (if cp < 0x80 then [cp]
      else if cp < 0x800 then [0xC0 + cp div 64, 0x80 + cp mod 64]
      else if cp < 0x10000 then [0xE0 + cp div 4096, 0x80 + cp div 64 mod 64, 0x80 + cp mod 64]
      else [0xF0 + cp div 262144, 0x80 + cp div 4096 mod 64, 0x80 + cp div 64 mod 64, 0x80 + cp mod 64])"

lemma continuation_byte: "(b :: u8) AND 0xc0 = 0x80 \<longleftrightarrow> unat b div 64 = 2"
proof -
  have "list_all (\<lambda>n. ((word_of_nat n :: u8) AND 0xc0 = 0x80) = (n div 64 = 2)) [0..<256]"
    by code_simp
  moreover have "unat b < 256" using unsigned_less [of b] by simp
  ultimately have "((word_of_nat (unat b) :: u8) AND 0xc0 = 0x80) = (unat b div 64 = 2)"
    unfolding list_all_iff set_upt by (metis atLeastLessThan_iff zero_le)
  then show ?thesis by simp
qed

lemma byte_eqs:
  "(c :: u8) = 0x7f \<longleftrightarrow> unat c = 0x7f" "c = 0xe0 \<longleftrightarrow> unat c = 0xe0" "c = 0xed \<longleftrightarrow> unat c = 0xed"
  "c = 0xf0 \<longleftrightarrow> unat c = 0xf0" "c = 0xf4 \<longleftrightarrow> unat c = 0xf4"
  by (simp_all add: word_unat_eq_iff)

lemmas byte_nat = word_less_nat_alt word_le_nat_alt byte_eqs

lemma utf8_len_nat:
  "utf8_len c = (if unat c < 0x80 then Some 1 else if 0xc2 \<le> unat c \<and> unat c \<le> 0xdf then Some 2
     else if 0xe0 \<le> unat c \<and> unat c \<le> 0xef then Some 3 else if 0xf0 \<le> unat c \<and> unat c \<le> 0xf4 then Some 4 else None)"
  by (simp add: utf8_len_def byte_nat)

lemma role_name_step1:
  "unat c < 0x80 \<Longrightarrow> role_name_loop (c # rest) \<longleftrightarrow> 0x20 \<le> unat c \<and> unat c \<noteq> 0x7f \<and> role_name_loop rest"
  by (auto simp: utf8_len_nat byte_nat)

lemma role_name_step2:
  assumes "0xc2 \<le> unat c" and "unat c \<le> 0xdf"
  shows "role_name_loop (c # rest) \<longleftrightarrow> (\<exists>b1 r. rest = b1 # r \<and> unat b1 div 64 = 2 \<and> role_name_loop r)"
  using assms by (cases rest) (auto simp: utf8_len_nat byte_nat continuation_byte)

lemma role_name_step3:
  assumes "0xe0 \<le> unat c" and "unat c \<le> 0xef"
  shows "role_name_loop (c # rest) \<longleftrightarrow>
    (\<exists>b1 b2 r. rest = b1 # b2 # r \<and> unat b1 div 64 = 2 \<and> unat b2 div 64 = 2 \<and>
       (unat c = 0xe0 \<longrightarrow> 0xa0 \<le> unat b1) \<and> (unat c = 0xed \<longrightarrow> unat b1 < 0xa0) \<and> role_name_loop r)"
proof (cases "2 \<le> length rest")
  case True
  then obtain b1 b2 r where "rest = b1 # b2 # r" by (auto simp: numeral_2_eq_2 Suc_le_length_iff)
  with assms show ?thesis by (auto simp: utf8_len_nat byte_nat continuation_byte)
next
  case False
  with assms show ?thesis by (auto simp: utf8_len_nat byte_nat)
qed

lemma role_name_step4:
  assumes "0xf0 \<le> unat c" and "unat c \<le> 0xf4"
  shows "role_name_loop (c # rest) \<longleftrightarrow>
    (\<exists>b1 b2 b3 r. rest = b1 # b2 # b3 # r \<and> unat b1 div 64 = 2 \<and> unat b2 div 64 = 2 \<and> unat b3 div 64 = 2 \<and>
       (unat c = 0xf0 \<longrightarrow> 0x90 \<le> unat b1) \<and> (unat c = 0xf4 \<longrightarrow> unat b1 < 0x90) \<and> role_name_loop r)"
proof (cases "3 \<le> length rest")
  case True
  then obtain b1 b2 b3 r where r: "rest = b1 # b2 # b3 # r" by (auto simp: numeral_3_eq_3 Suc_le_length_iff)
  from assms have "utf8_len c = Some 4" "\<not> (c < 0x20 \<or> c = 0x7f)" "c \<noteq> 0xe0" "c \<noteq> 0xed"
    by (simp_all add: utf8_len_nat byte_nat)
  moreover have "set (take 3 rest) = {b1, b2, b3}" by (simp add: r)
  ultimately show ?thesis by (simp add: r byte_nat continuation_byte not_less not_le conj_commute) blast
next
  case False
  with assms show ?thesis by (auto simp: utf8_len_nat byte_nat)
qed

lemma role_name_step_bad:
  assumes "0x80 \<le> unat c" and "unat c < 0xc2 \<or> 0xf4 < unat c"
  shows "\<not> role_name_loop (c # rest)"
proof -
  have "utf8_len c = None" using assms by (auto simp: utf8_len_nat)
  then show ?thesis by simp
qed

declare role_name_loop.simps(2) [simp del]

lemma div_mod_64: "q < 64 \<Longrightarrow> (p * 64 + q) div 64 = p \<and> (p * 64 + q) mod 64 = (q :: nat)"
  by simp

lemma continuation_value: "b div 64 = 2 \<Longrightarrow> \<exists>q < 64. b = 128 + (q :: nat)"
  by (intro exI [of _ "b - 128"]) linarith

text \<open>Every accepted first character is the encoding of a printable scalar value.\<close>

lemma role_name_head:
  assumes "role_name_loop (c # rest)"
  shows "\<exists>cp r. printable cp \<and> map unat (c # rest) = utf8 cp @ map unat r \<and> role_name_loop r \<and> length r \<le> length rest"
proof -
  consider (one) "unat c < 0x80" | (two) "0xc2 \<le> unat c" "unat c \<le> 0xdf" | (three) "0xe0 \<le> unat c" "unat c \<le> 0xef"
    | (four) "0xf0 \<le> unat c" "unat c \<le> 0xf4" | (bad) "0x80 \<le> unat c" "unat c < 0xc2 \<or> 0xf4 < unat c"
    by linarith
  then show ?thesis
  proof cases
    case one
    with assms have "printable (unat c) \<and> map unat (c # rest) = utf8 (unat c) @ map unat rest \<and> role_name_loop rest"
      by (auto simp: role_name_step1 printable_def scalar_def utf8_def)
    then show ?thesis by blast
  next
    case two
    with assms obtain b1 r where r: "rest = b1 # r" "unat b1 div 64 = 2" "role_name_loop r"
      by (auto simp: role_name_step2)
    then obtain q where q: "q < 64" "unat b1 = 128 + q" using continuation_value by blast
    let ?cp = "(unat c - 192) * 64 + q"
    have "128 \<le> ?cp" "?cp < 2048" using two q by linarith+
    then have "printable ?cp" "utf8 ?cp = [unat c, unat b1]"
      using two q div_mod_64 [OF q(1), of "unat c - 192"] by (auto simp: printable_def scalar_def utf8_def)
    with r show ?thesis by (intro exI [of _ ?cp] exI [of _ r]) simp
  next
    case three
    with assms obtain b1 b2 r where r: "rest = b1 # b2 # r" "unat b1 div 64 = 2" "unat b2 div 64 = 2"
      "unat c = 0xe0 \<longrightarrow> 0xa0 \<le> unat b1" "unat c = 0xed \<longrightarrow> unat b1 < 0xa0" "role_name_loop r"
      by (auto simp: role_name_step3)
    then obtain q1 q2 where q: "q1 < 64" "unat b1 = 128 + q1" "q2 < 64" "unat b2 = 128 + q2"
      using continuation_value by blast
    let ?p = "(unat c - 224) * 64 + q1" let ?cp = "?p * 64 + q2"
    obtain k where k: "unat c = 224 + k" using three(1) nat_le_iff_add by blast
    then have v: "?cp = k * 4096 + q1 * 64 + q2" "k \<le> 15" using three(2) by simp_all
    have w: "k = 0 \<longrightarrow> 32 \<le> q1" "k = 13 \<longrightarrow> q1 < 32" using r(4,5) q(2) k by simp_all
    have b1: "2048 \<le> ?cp" unfolding v(1) using w(1) by (cases "k = 0") auto
    have b2: "?cp < 65536" unfolding v(1) using v(2) q by linarith
    have "?cp < 0xD800 \<or> 0xE000 \<le> ?cp" unfolding v(1) using w(2) q by (cases "k = 13") auto
    note b = b1 b2 this
    have "?cp div 4096 = ?cp div 64 div 64" by (simp add: div_mult2_eq)
    then have "utf8 ?cp = [unat c, unat b1, unat b2]"
      using b three q div_mod_64 [OF q(1), of "unat c - 224"] div_mod_64 [OF q(3), of ?p] by (simp add: utf8_def)
    moreover have "printable ?cp" using b by (auto simp: printable_def scalar_def)
    ultimately show ?thesis using r by (intro exI [of _ ?cp] exI [of _ r]) simp
  next
    case four
    with assms obtain b1 b2 b3 r where r: "rest = b1 # b2 # b3 # r" "unat b1 div 64 = 2" "unat b2 div 64 = 2"
      "unat b3 div 64 = 2" "unat c = 0xf0 \<longrightarrow> 0x90 \<le> unat b1" "unat c = 0xf4 \<longrightarrow> unat b1 < 0x90" "role_name_loop r"
      by (auto simp: role_name_step4)
    then obtain q1 q2 q3 where q: "q1 < 64" "unat b1 = 128 + q1" "q2 < 64" "unat b2 = 128 + q2" "q3 < 64" "unat b3 = 128 + q3"
      using continuation_value by metis
    let ?o = "(unat c - 240) * 64 + q1" let ?p = "?o * 64 + q2" let ?cp = "?p * 64 + q3"
    obtain k where k: "unat c = 240 + k" using four(1) nat_le_iff_add by blast
    then have v: "?cp = k * 262144 + q1 * 4096 + q2 * 64 + q3" "k \<le> 4" using four(2) by simp_all
    have w: "k = 0 \<longrightarrow> 16 \<le> q1" "k = 4 \<longrightarrow> q1 < 16" using r(5,6) q(2) k by simp_all
    have b1: "65536 \<le> ?cp" unfolding v(1) using w(1) by (cases "k = 0") auto
    have "?cp < 0x110000" unfolding v(1) using w(2) v(2) q by (cases "k = 4") auto
    note b = b1 this
    have "?cp div 4096 = ?cp div 64 div 64" "?cp div 262144 = ?cp div 64 div 64 div 64" by (simp_all add: div_mult2_eq)
    then have "utf8 ?cp = [unat c, unat b1, unat b2, unat b3]"
      using b four q div_mod_64 [OF q(1), of "unat c - 240"] div_mod_64 [OF q(3), of ?o] div_mod_64 [OF q(5), of ?p]
      by (simp add: utf8_def)
    moreover have "printable ?cp" using b by (auto simp: printable_def scalar_def)
    ultimately show ?thesis using r by (intro exI [of _ ?cp] exI [of _ r]) simp
  next
    case bad
    with assms role_name_step_bad show ?thesis by blast
  qed
qed

lemma unat_byte: "x < 256 \<Longrightarrow> unat (word_of_nat x :: u8) = x"
  by (simp add: unat_of_nat)

lemma lead_bytes:
  fixes cp :: nat
  shows "cp < 0x800 \<Longrightarrow> 0xC0 + cp div 64 \<le> 0xDF" "0x80 \<le> cp \<Longrightarrow> 0xC2 \<le> 0xC0 + cp div 64"
    "cp < 0x10000 \<Longrightarrow> 0xE0 + cp div 4096 \<le> 0xEF" "cp < 0x110000 \<Longrightarrow> 0xF0 + cp div 262144 \<le> 0xF4"
    "(0x80 + x mod 64) div 64 = (2 :: nat)" "0x80 + x mod 64 < (256 :: nat)"
  by (simp_all add: div_add1_eq)

lemma mod_64_window: "k * 64 + lo \<le> x \<Longrightarrow> x < k * 64 + hi \<Longrightarrow> hi \<le> 64 \<Longrightarrow> lo \<le> x mod 64 \<and> x mod 64 < (hi :: nat)"
proof -
  assume a: "k * 64 + lo \<le> x" "x < k * 64 + hi" "hi \<le> 64"
  then have "x = k * 64 + (x - k * 64)" "lo \<le> x - k * 64" "x - k * 64 < hi" by linarith+
  moreover from this(1) have "x mod 64 = (x - k * 64) mod 64" by (metis mod_mult_self3)
  ultimately show ?thesis using a(3) by simp
qed

lemma role_name_utf8:
  assumes "printable cp"
  shows "role_name_loop (map word_of_nat (utf8 cp) @ r) = role_name_loop r"
proof -
  have cp: "0x20 \<le> cp" "cp \<noteq> 0x7f" "cp < 0xD800 \<or> 0xE000 \<le> cp" "cp < 0x110000"
    using assms by (auto simp: printable_def scalar_def)
  have t: "unat (word_of_nat (0x80 + x mod 64) :: u8) = 0x80 + x mod 64" for x :: nat
    by (rule unat_byte) (simp add: lead_bytes)
  consider (one) "cp < 0x80" | (two) "0x80 \<le> cp" "cp < 0x800" | (three) "0x800 \<le> cp" "cp < 0x10000" | (four) "0x10000 \<le> cp"
    by linarith
  then show ?thesis
  proof cases
    case one
    with cp show ?thesis by (simp add: utf8_def role_name_step1 unat_byte)
  next
    case two
    let ?c = "0xC0 + cp div 64"
    have "0xC2 \<le> ?c" "?c \<le> 0xDF" using two by linarith+
    then show ?thesis using two by (simp add: utf8_def role_name_step2 unat_byte t lead_bytes del: of_nat_add)
  next
    case three
    let ?c = "0xE0 + cp div 4096" and ?b = "0x80 + cp div 64 mod 64"
    have c: "0xE0 \<le> ?c" "?c \<le> 0xEF" using three by linarith+
    have lo: "0xA0 \<le> ?b" if "?c = 0xE0"
      using mod_64_window [of 0 32 "cp div 64" 64] that three by linarith
    have hi: "?b < 0xA0" if "?c = 0xED"
      using mod_64_window [of 13 0 "cp div 64" 32] that cp(3) by linarith
    from lo hi c three show ?thesis by (simp add: utf8_def role_name_step3 unat_byte t lead_bytes del: of_nat_add)
  next
    case four
    let ?c = "0xF0 + cp div 262144" and ?b = "0x80 + cp div 4096 mod 64"
    have c: "0xF0 \<le> ?c" "?c \<le> 0xF4" using four cp(4) by linarith+
    have lo: "0x90 \<le> ?b" if "?c = 0xF0"
      using mod_64_window [of 0 16 "cp div 4096" 64] that four by linarith
    have hi: "?b < 0x90" if "?c = 0xF4"
      using mod_64_window [of 4 0 "cp div 4096" 16] that cp(4) by linarith
    from lo hi c four show ?thesis by (simp add: utf8_def role_name_step4 unat_byte t lead_bytes del: of_nat_add)
  qed
qed

lemma role_name_decodes:
  "role_name_loop nm \<Longrightarrow> \<exists>cps. list_all printable cps \<and> map unat nm = concat (map utf8 cps)"
proof (induction "length nm" arbitrary: nm rule: less_induct)
  case less
  show ?case
  proof (cases nm)
    case Nil
    then show ?thesis by (intro exI [of _ "[]"]) simp
  next
    case (Cons c rest)
    with less.prems obtain cp r where r: "printable cp" "map unat nm = utf8 cp @ map unat r" "role_name_loop r"
      "length r \<le> length rest"
      using role_name_head [of c rest] by auto
    with less.hyps [of r] Cons obtain cps where "list_all printable cps" "map unat r = concat (map utf8 cps)" by auto
    with r show ?thesis by (intro exI [of _ "cp # cps"]) simp
  qed
qed

lemma role_name_encodes: "list_all printable cps \<Longrightarrow> role_name_loop (map word_of_nat (concat (map utf8 cps)))"
  by (induction cps) (auto simp: role_name_utf8)

lemma map_byte_unat: "map word_of_nat (map unat nm) = (nm :: bytes)"
  by (induction nm) auto

lemma client_valid_default: "client_valid (default_client_header\<lparr>c_totalLen := 32\<rparr>, [])"
  by (simp add: client_valid_def default_client_header_def ValidRoleName_def)

lemma EncodeClientFrame_spec:
  assumes "buffer_ok out" and "ValidRoleName (c_roleName h)"
  shows "\<exists>out'. EncodeClientFrame out h body = Some (Inr out') \<and> buffer_ok out' \<and>
    readable out' = readable out @ client_frame (h, body)"
proof -
  let ?n = "word_of_nat (32 + length body) :: u32"
  obtain b1 where b1: "buffer_append out (client_header_bytes h ?n) = Some b1" "buffer_ok b1"
    "readable b1 = readable out @ client_header_bytes h ?n"
    using append_spec [OF assms(1)] by blast
  then show ?thesis using assms(2) append_spec [OF b1(2), of body]
    by (auto simp: EncodeClientFrame_def client_frame_def Let_def simp del: of_nat_add)
qed

section \<open>Properties of the client protocol\<close>


text \<open>
  C3. The client link is lossless: encoding a frame with a valid name appends exactly its wire
  form, and a receive loop fed the wire forms of any list of frames in arbitrary chunks
  returns exactly those frames in order, header fields, role names and bodies included.
\<close>

theorem client_stream_is_lossless:
  assumes "\<forall>m \<in> set ms. client_valid m"
  shows "(\<forall>m \<in> set ms. \<forall>out. buffer_ok out \<longrightarrow>
       (\<exists>out'. EncodeClientFrame out (fst m) (snd m) = Some (Inr out') \<and> buffer_ok out' \<and>
         readable out' = readable out @ client_frame m)) \<and>
     (\<forall>cs. concat cs = concat (map client_frame ms) \<longrightarrow>
       (\<exists>b. receive buffer_append client_next (\<lambda>b. Suc (readableBytes b)) new_buffer cs = Some (map Got ms, b) \<and>
         buffer_ok b \<and> readable b = []))"
proof
  show "\<forall>m \<in> set ms. \<forall>out. buffer_ok out \<longrightarrow>
       (\<exists>out'. EncodeClientFrame out (fst m) (snd m) = Some (Inr out') \<and> buffer_ok out' \<and>
         readable out' = readable out @ client_frame m)"
    using EncodeClientFrame_spec assms by (fastforce simp: client_valid_def)
next
  note m0 = client_valid_default
  have "strict_prefix [] (client_frame (default_client_header\<lparr>c_totalLen := 32\<rparr>, []))"
    using client.encode_nonempty [OF m0] by (cases "client_frame (default_client_header\<lparr>c_totalLen := 32\<rparr>, [])") auto
  then show "\<forall>cs. concat cs = concat (map client_frame ms) \<longrightarrow>
       (\<exists>b. receive buffer_append client_next (\<lambda>b. Suc (readableBytes b)) new_buffer cs = Some (map Got ms, b) \<and>
         buffer_ok b \<and> readable b = [])"
    by (intro allI impI client.receive_frames [OF new_buffer_ok(1) m0 assms _ m0]) simp_all
qed

theorem client_stream_is_lossless_witness:
  "\<exists>b. receive buffer_append client_next (\<lambda>b. Suc (readableBytes b)) new_buffer
      [client_frame (default_client_header\<lparr>c_totalLen := 32\<rparr>, [])] =
      Some (map Got [(default_client_header\<lparr>c_totalLen := 32\<rparr>, [])], b) \<and> buffer_ok b \<and> readable b = []"
  by (rule client_stream_is_lossless [THEN conjunct2, rule_format]) (simp_all add: client_valid_default)

text \<open>
  C2. The public decoder is safe on arbitrary bytes: it always returns, consumes only a prefix, makes
  progress unless it asks for more data, and whatever it returns as a frame has a valid role
  name, a length field that matches its body, and at most 64 KB.
\<close>

theorem DecodeClientFrame_safe:
  assumes "buffer_ok b"
  shows "\<exists>st h bo b'. DecodeClientFrame b h0 body0 = Some (st, h, bo, b') \<and> buffer_ok b' \<and>
    suffix (readable b') (readable b) \<and> (st \<noteq> kNeedMore \<longrightarrow> length (readable b') < length (readable b)) \<and>
    (st = kOk \<longrightarrow> ValidRoleName (c_roleName h) \<and> unat (c_totalLen h) = 32 + length bo \<and> 32 + length bo \<le> kMaxClientFrameSize)"
proof -
  obtain v b' where r: "client_loop h0 body0 0 b = Some (v, b')" "sees b' (snd (client_scan 0 (readable b)))"
    "v = fst (client_scan 0 (readable b))"
    using client_rx.impl_scan [of b "readable b" 0 h0 body0] assms by (auto simp: sees_def)
  then obtain st h bo where d: "DecodeClientFrame b h0 body0 = Some (st, h, bo, b')" "v = verdict_of st (h, bo)"
    by (auto simp: DecodeClientFrame_def)
  have "ValidRoleName (c_roleName h) \<and> unat (c_totalLen h) = 32 + length bo \<and> 32 + length bo \<le> kMaxClientFrameSize"
    if "st = kOk"
  proof -
    from that d(2) r(3) have "client_scan 0 (readable b) = (Got (h, bo), snd (client_scan 0 (readable b)))"
      by (cases "client_scan 0 (readable b)") auto
    then obtain i n where acc: "client_cand (drop i (readable b)) = Accept (h, bo) n" using scan_Got [of "find_pair 0xC1 0xEB" client_cand 0 "readable b"] by blast
    then have "n \<le> kMaxClientFrameSize" by (auto simp: client_cand_def Let_def split: if_splits prod.splits)
    with client_cand_Accept [OF acc] show ?thesis by (auto simp: client_header_of_def)
  qed
  moreover have "st \<noteq> kNeedMore \<longrightarrow> length (readable b') < length (readable b)"
    using client_rx.impl_progress [OF assms r(1)] d(2) by (cases st) auto
  moreover have "suffix (readable b') (readable b)" "buffer_ok b'"
    using r(2) scan_suffix [of _ client_cand 0 "readable b"] by (auto simp: sees_def)
  ultimately show ?thesis using d(1) by blast
qed

theorem DecodeClientFrame_safe_witness:
  "\<exists>st h bo b'. DecodeClientFrame new_buffer default_client_header [] = Some (st, h, bo, b') \<and> buffer_ok b' \<and>
    suffix (readable b') []"
  using DecodeClientFrame_safe [OF new_buffer_ok(1), of default_client_header "[]"] by auto

text \<open>
  The fixed-width control bodies round-trip: what \<open>MakeAuthBody\<close>, \<open>MakeAuthAckBody\<close> and
  \<open>MakeServiceBody\<close> write, the parsers read back field by field.
\<close>

theorem control_bodies_roundtrip:
  "ParseAuthBody (MakeAuthBody p t) = Some (p, t) \<and>
   ParseAuthAckBody (MakeAuthAckBody p s e z d) = Some (p, s, e, z, d) \<and>
   ParseServiceBody (MakeServiceBody d) = Some d"
  by (simp add: ParseAuthBody_def MakeAuthBody_def ParseAuthAckBody_def MakeAuthAckBody_def ParseServiceBody_def
      MakeServiceBody_def ClientPutU64_def ClientPutU32_def ClientGetU64_def ClientGetU32_def slice_simps get_le_put_le
      nth_append)

end
