(* ===== verification/ClientSessions.thy ===== *)
theory ClientSessions
  imports Prelude GateProto
begin

text \<open>
  The gateway's client sessions, gatewayServer/clientSession.h and clientSession.cc: sessions by id,
  the index from player to session, and the per-player epoch counter. The mutex makes every
  operation one step. A connection pointer is a number or absent.
\<close>

section \<open>State and operations\<close>

record ClientSession =
  cs_sessionId :: u64
  cs_epoch :: u32
  cs_playerId :: u64
  cs_dstService :: u8
  cs_sceneId :: u32
  cs_backendChannelId :: u32
  cs_sceneIncarnation :: u64
  cs_sceneConnName :: string
  cs_authed :: bool
  cs_sceneOnlineSubmitted :: bool
  cs_conn :: "nat option"
  cs_createdAtMs :: int
  cs_authedAtMs :: int

record ClientSessionTable =
  sessions :: "(u64, ClientSession) umap"
  playerIndex :: "(u64, u64) umap"
  playerEpoch :: "(u64, u32) umap"
  nextSessionId :: u64

definition empty_sessions :: ClientSessionTable where
  "empty_sessions = \<lparr>sessions = [], playerIndex = [], playerEpoch = [], nextSessionId = 1\<rparr>"

definition session_create :: "ClientSessionTable \<Rightarrow> nat option \<Rightarrow> u8 \<Rightarrow> int \<Rightarrow> u64 \<times> ClientSessionTable" where
  "session_create t conn defaultDstService nowMs =
     (let i = nextSessionId t;
          s = \<lparr>cs_sessionId = i, cs_epoch = 0, cs_playerId = 0, cs_dstService = defaultDstService, cs_sceneId = 0,
               cs_backendChannelId = 0, cs_sceneIncarnation = 0, cs_sceneConnName = '''', cs_authed = False,
               cs_sceneOnlineSubmitted = False, cs_conn = conn, cs_createdAtMs = nowMs, cs_authedAtMs = 0\<rparr>
      in (i, t\<lparr>nextSessionId := i + 1,
               sessions := (if map_of (sessions t) i = None then AList.update i s (sessions t) else sessions t)\<rparr>))"

definition session_get :: "ClientSessionTable \<Rightarrow> u64 \<Rightarrow> ClientSession option" where
  "session_get t i = map_of (sessions t) i"

definition FindByPlayer :: "ClientSessionTable \<Rightarrow> u64 \<Rightarrow> ClientSession option" where
  "FindByPlayer t p =
     (if p = 0 then None
      else case map_of (playerIndex t) p of None \<Rightarrow> None | Some i \<Rightarrow> map_of (sessions t) i)"

text \<open>\<open>playerEpoch_[p]\<close>: zero when the player has none yet.\<close>

definition epoch_of :: "ClientSessionTable \<Rightarrow> u64 \<Rightarrow> u32" where
  "epoch_of t p = (case map_of (playerEpoch t) p of None \<Rightarrow> 0 | Some e \<Rightarrow> e)"

definition clear_scene :: "ClientSession \<Rightarrow> ClientSession" where
  "clear_scene s = s\<lparr>cs_sceneId := 0, cs_backendChannelId := 0, cs_sceneIncarnation := 0, cs_sceneConnName := ''''\<rparr>"

text \<open>The eviction of an older session of the player: the demoted table and the kicked id (0 = none).\<close>

definition evict :: "ClientSessionTable \<Rightarrow> u64 \<Rightarrow> u64 \<Rightarrow> u64 \<times> ClientSessionTable" where
  "evict t sessionId playerId = (case map_of (playerIndex t) playerId of
     None \<Rightarrow> (0, t)
   | Some old \<Rightarrow>
       if old = sessionId then (0, t)
       else (old, t\<lparr>sessions := (case map_of (sessions t) old of
                        None \<Rightarrow> sessions t
                      | Some prev \<Rightarrow> AList.update old (prev\<lparr>cs_authed := False, cs_playerId := 0\<rparr>) (sessions t)),
                    playerIndex := AList.delete playerId (playerIndex t)\<rparr>))"

definition session_bind ::
  "ClientSessionTable \<Rightarrow> u64 \<Rightarrow> u64 \<Rightarrow> u8 \<Rightarrow> int \<Rightarrow> bool \<times> u64 \<times> ClientSessionTable" where
  "session_bind t sessionId playerId dstService nowMs =
     (if playerId = 0 then (False, 0, t)
      else case map_of (sessions t) sessionId of
        None \<Rightarrow> (False, 0, t)
      | Some it \<Rightarrow>
          if epoch_of t playerId = 0xFFFFFFFF then (False, 0, t)
          else
            (let (kicked, t1) = evict t sessionId playerId;
                 epoch = epoch_of t playerId + 1;
                 s0 = it\<lparr>cs_playerId := playerId, cs_dstService := dstService\<rparr>;
                 s1 = (if cs_dstService it \<noteq> dstService then clear_scene s0 else s0);
                 s2 = s1\<lparr>cs_authed := True, cs_epoch := epoch, cs_sceneOnlineSubmitted := False, cs_authedAtMs := nowMs\<rparr>
             in (True, kicked, t1\<lparr>sessions := AList.update sessionId s2 (sessions t1),
                   playerEpoch := AList.update playerId epoch (playerEpoch t1),
                   playerIndex := AList.update playerId sessionId (playerIndex t1)\<rparr>)))"

definition SetDstService :: "ClientSessionTable \<Rightarrow> u64 \<Rightarrow> u8 \<Rightarrow> bool \<times> ClientSessionTable" where
  "SetDstService t sessionId dstService = (case map_of (sessions t) sessionId of
     None \<Rightarrow> (False, t)
   | Some it \<Rightarrow>
       let changed = (cs_dstService it \<noteq> dstService); e = epoch_of t (cs_playerId it) in
       if changed \<and> cs_authed it \<and> e = 0xFFFFFFFF then (False, t)
       else
         (let bump = changed \<and> cs_authed it;
              s0 = (if bump then it\<lparr>cs_epoch := e + 1\<rparr> else it);
              s1 = s0\<lparr>cs_dstService := dstService\<rparr>;
              s2 = (if changed then clear_scene (s1\<lparr>cs_sceneOnlineSubmitted := False\<rparr>) else s1)
          in (True, t\<lparr>sessions := AList.update sessionId s2 (sessions t),
                playerEpoch := (if bump then AList.update (cs_playerId it) (e + 1) (playerEpoch t) else playerEpoch t)\<rparr>)))"

definition SetSceneBinding ::
  "ClientSessionTable \<Rightarrow> u64 \<Rightarrow> u32 \<Rightarrow> u32 \<Rightarrow> u64 \<Rightarrow> string \<Rightarrow> bool \<times> ClientSessionTable" where
  "SetSceneBinding t sessionId sceneId channelId incarnation connName =
     (if sceneId = 0 \<or> incarnation = 0 \<or> connName = [] then (False, t)
      else case map_of (sessions t) sessionId of
        None \<Rightarrow> (False, t)
      | Some s \<Rightarrow>
          if \<not> cs_authed s \<or> cs_dstService s \<noteq> kScene then (False, t)
          else if cs_sceneId s \<noteq> 0 then
            (cs_sceneId s = sceneId \<and> cs_backendChannelId s = channelId \<and> cs_sceneIncarnation s = incarnation \<and>
             cs_sceneConnName s = connName, t)
          else (True, t\<lparr>sessions := AList.update sessionId (s\<lparr>cs_sceneId := sceneId, cs_backendChannelId := channelId,
                  cs_sceneIncarnation := incarnation, cs_sceneConnName := connName\<rparr>) (sessions t)\<rparr>))"

text \<open>
  \<open>submit\<close> is the caller's callback under the lock; the second component of the result is the
  \<open>online\<close> flag it was called with, if it was called.
\<close>

definition submittable :: "ClientSession \<Rightarrow> ClientSession \<Rightarrow> bool" where
  "submittable s e \<longleftrightarrow> \<not> (\<not> cs_authed s \<or> cs_playerId s = 0 \<or> cs_dstService s \<noteq> kScene \<or>
     cs_sceneId s = 0 \<or> cs_sceneIncarnation s = 0 \<or> cs_sceneConnName s = [] \<or>
     cs_playerId s \<noteq> cs_playerId e \<or> cs_epoch s \<noteq> cs_epoch e \<or>
     cs_dstService s \<noteq> cs_dstService e \<or> cs_sceneId s \<noteq> cs_sceneId e \<or>
     cs_backendChannelId s \<noteq> cs_backendChannelId e \<or>
     cs_sceneIncarnation s \<noteq> cs_sceneIncarnation e \<or> cs_sceneConnName s \<noteq> cs_sceneConnName e)"

definition SubmitScene :: "ClientSessionTable \<Rightarrow> ClientSession \<Rightarrow> (bool \<Rightarrow> bool) \<Rightarrow> bool \<times> bool option \<times> ClientSessionTable" where
  "SubmitScene t expected submit = (case map_of (sessions t) (cs_sessionId expected) of
     None \<Rightarrow> (False, None, t)
   | Some s \<Rightarrow>
       if \<not> submittable s expected then (False, None, t)
       else let online = \<not> cs_sceneOnlineSubmitted s in
         if \<not> submit online then (False, Some online, t)
         else (True, Some online, t\<lparr>sessions :=
                AList.update (cs_sessionId expected) (s\<lparr>cs_sceneOnlineSubmitted := True\<rparr>) (sessions t)\<rparr>))"

definition session_erase :: "ClientSessionTable \<Rightarrow> u64 \<Rightarrow> bool \<times> ClientSessionTable" where
  "session_erase t sessionId = (case map_of (sessions t) sessionId of
     None \<Rightarrow> (False, t)
   | Some s \<Rightarrow>
       (True, t\<lparr>playerIndex := (if cs_playerId s \<noteq> 0 \<and> map_of (playerIndex t) (cs_playerId s) = Some sessionId
                              then AList.delete (cs_playerId s) (playerIndex t) else playerIndex t),
                sessions := AList.delete sessionId (sessions t)\<rparr>))"

definition session_size :: "ClientSessionTable \<Rightarrow> nat" where
  "session_size t = length (sessions t)"

definition AuthedSessions :: "ClientSessionTable \<Rightarrow> ClientSession list" where
  "AuthedSessions t = map snd (filter (\<lambda>(_, s). cs_authed s \<and> cs_conn s \<noteq> None) (sessions t))"

section \<open>Invariant\<close>

text \<open>
  Sessions are stored under their own id; an authenticated session has a player, is the one the
  index names for that player and carries the player's current epoch; a session without
  authentication has no player.
\<close>

definition sessions_ok :: "ClientSessionTable \<Rightarrow> bool" where
  "sessions_ok t \<longleftrightarrow>
     (\<forall>i s. map_of (sessions t) i = Some s \<longrightarrow> cs_sessionId s = i \<and>
        (if cs_authed s
         then cs_playerId s \<noteq> 0 \<and> map_of (playerIndex t) (cs_playerId s) = Some i \<and> cs_epoch s = epoch_of t (cs_playerId s)
         else cs_playerId s = 0))"

text \<open>The converse, which push delivery relies on: the index names only sessions of that player.\<close>

definition index_exact :: "ClientSessionTable \<Rightarrow> bool" where
  "index_exact t \<longleftrightarrow> (\<forall>p i. map_of (playerIndex t) p = Some i \<longrightarrow>
     (\<exists>s. map_of (sessions t) i = Some s \<and> cs_authed s \<and> cs_playerId s = p))"

lemma sessions_okD:
  assumes "sessions_ok t" and "map_of (sessions t) i = Some s"
  shows "cs_sessionId s = i" "cs_authed s \<Longrightarrow> cs_playerId s \<noteq> 0"
    "cs_authed s \<Longrightarrow> map_of (playerIndex t) (cs_playerId s) = Some i"
    "cs_authed s \<Longrightarrow> cs_epoch s = epoch_of t (cs_playerId s)" "\<not> cs_authed s \<Longrightarrow> cs_playerId s = 0"
  using assms unfolding sessions_ok_def by presburger+

lemma index_exactD:
  "index_exact t \<Longrightarrow> map_of (playerIndex t) p = Some i \<Longrightarrow> map_of (sessions t) i = Some s \<Longrightarrow> cs_authed s \<and> cs_playerId s = p"
  by (fastforce simp: index_exact_def)

lemma epoch_of_simps [simp]:
  "epoch_of (t\<lparr>sessions := x\<rparr>) p = epoch_of t p" "epoch_of (t\<lparr>playerIndex := y\<rparr>) p = epoch_of t p"
  "epoch_of (t\<lparr>nextSessionId := n\<rparr>) p = epoch_of t p"
  "epoch_of (t\<lparr>sessions := x, playerEpoch := AList.update q e (playerEpoch t)\<rparr>) p = (if p = q then e else epoch_of t p)"
  by (simp_all add: epoch_of_def)

lemma sessions_okI:
  assumes "\<And>i s. map_of (sessions t) i = Some s \<Longrightarrow> cs_sessionId s = i"
    "\<And>i s. map_of (sessions t) i = Some s \<Longrightarrow> cs_authed s \<Longrightarrow> cs_playerId s \<noteq> 0 \<and>
       map_of (playerIndex t) (cs_playerId s) = Some i \<and> cs_epoch s = epoch_of t (cs_playerId s)"
    "\<And>i s. map_of (sessions t) i = Some s \<Longrightarrow> \<not> cs_authed s \<Longrightarrow> cs_playerId s = 0"
  shows "sessions_ok t"
  using assms unfolding sessions_ok_def by auto

lemma empty_sessions_ok: "sessions_ok empty_sessions" "index_exact empty_sessions"
  by (simp_all add: sessions_ok_def index_exact_def empty_sessions_def)

lemma create_ok: "sessions_ok t \<Longrightarrow> sessions_ok (snd (session_create t c d n))"
  by (auto simp: session_create_def Let_def sessions_ok_def)

lemma bind_failure: "session_bind t i p d n = (False, k, t') \<Longrightarrow> k = 0 \<and> t' = t"
  by (auto simp: session_bind_def Let_def split: if_splits option.splits prod.splits)

text \<open>What a successful \<open>Bind\<close> does to the three tables.\<close>

lemma bind_success:
  assumes "session_bind t i p d n = (True, k, t')"
  obtains it s where "p \<noteq> 0" "map_of (sessions t) i = Some it" "epoch_of t p \<noteq> 0xFFFFFFFF"
    "cs_sessionId s = cs_sessionId it" "cs_authed s" "cs_playerId s = p" "cs_epoch s = epoch_of t p + 1"
    "cs_sceneOnlineSubmitted s = False" "cs_dstService s = d"
    "\<And>j. map_of (sessions t') j = (if j = i then Some s else if map_of (playerIndex t) p = Some j
        then map_option (\<lambda>o'. o'\<lparr>cs_authed := False, cs_playerId := 0\<rparr>) (map_of (sessions t) j) else map_of (sessions t) j)"
    "map_of (playerIndex t') = (map_of (playerIndex t))(p \<mapsto> i)"
    "\<And>q. epoch_of t' q = (if q = p then epoch_of t p + 1 else epoch_of t q)"
    "k = (case map_of (playerIndex t) p of None \<Rightarrow> 0 | Some j \<Rightarrow> if j = i then 0 else j)"
proof -
  from assms obtain it where it: "p \<noteq> 0" "map_of (sessions t) i = Some it" "epoch_of t p \<noteq> 0xFFFFFFFF"
    by (auto simp: session_bind_def split: if_splits option.splits)
  define s where "s = (if cs_dstService it \<noteq> d then clear_scene (it\<lparr>cs_playerId := p, cs_dstService := d\<rparr>)
      else it\<lparr>cs_playerId := p, cs_dstService := d\<rparr>)\<lparr>cs_authed := True, cs_epoch := epoch_of t p + 1,
        cs_sceneOnlineSubmitted := False, cs_authedAtMs := n\<rparr>"
  obtain t1 where ev: "evict t i p = (k, t1)" and t': "t' = t1\<lparr>sessions := AList.update i s (sessions t1),
      playerEpoch := AList.update p (epoch_of t p + 1) (playerEpoch t1), playerIndex := AList.update p i (playerIndex t1)\<rparr>"
    using assms it by (auto simp: session_bind_def s_def Let_def split: prod.splits)
  show thesis
  proof (rule that [OF it])
    fix j show "map_of (sessions t') j = (if j = i then Some s else if map_of (playerIndex t) p = Some j
        then map_option (\<lambda>o'. o'\<lparr>cs_authed := False, cs_playerId := 0\<rparr>) (map_of (sessions t) j) else map_of (sessions t) j)"
      using ev t' by (auto simp: evict_def split: option.splits if_splits)
  next
    show "map_of (playerIndex t') = (map_of (playerIndex t))(p \<mapsto> i)"
      using ev t' by (auto simp: evict_def split: option.splits if_splits)
  next
    fix q show "epoch_of t' q = (if q = p then epoch_of t p + 1 else epoch_of t q)"
      using ev t' by (auto simp: evict_def epoch_of_def split: option.splits if_splits)
  next
    show "k = (case map_of (playerIndex t) p of None \<Rightarrow> 0 | Some j \<Rightarrow> if j = i then 0 else j)"
      using ev by (auto simp: evict_def split: option.splits if_splits)
  qed (auto simp: s_def clear_scene_def)
qed

lemma bind_ok:
  assumes ok: "sessions_ok t"
  shows "sessions_ok (snd (snd (session_bind t i p d n)))"
proof -
  obtain r k t' where b: "session_bind t i p d n = (r, k, t')" by (cases "session_bind t i p d n")
  show ?thesis
  proof (cases r)
    case False
    with b bind_failure [of t i p d n k t'] ok show ?thesis by simp
  next
    case True
    with b have "session_bind t i p d n = (True, k, t')" by simp
    then obtain it s where bs: "p \<noteq> 0" "map_of (sessions t) i = Some it"
      "cs_sessionId s = cs_sessionId it" "cs_authed s" "cs_playerId s = p" "cs_epoch s = epoch_of t p + 1"
      and ses: "\<And>j. map_of (sessions t') j = (if j = i then Some s else if map_of (playerIndex t) p = Some j
        then map_option (\<lambda>o'. o'\<lparr>cs_authed := False, cs_playerId := 0\<rparr>) (map_of (sessions t) j) else map_of (sessions t) j)"
      and ix: "map_of (playerIndex t') = (map_of (playerIndex t))(p \<mapsto> i)"
      and ep: "\<And>q. epoch_of t' q = (if q = p then epoch_of t p + 1 else epoch_of t q)"
      by (rule bind_success) blast
    have "sessions_ok t'"
    proof (rule sessions_okI)
      fix j x assume "map_of (sessions t') j = Some x"
      then show "cs_sessionId x = j" using sessions_okD(1) [OF ok] bs by (auto simp: ses split: if_splits)
    next
      fix j x assume x: "map_of (sessions t') j = Some x" "cs_authed x"
      show "cs_playerId x \<noteq> 0 \<and> map_of (playerIndex t') (cs_playerId x) = Some j \<and> cs_epoch x = epoch_of t' (cs_playerId x)"
      proof (cases "j = i")
        case True
        with x bs show ?thesis by (auto simp: ses ix ep)
      next
        case False
        with x have "map_of (sessions t) j = Some x" "map_of (playerIndex t) p \<noteq> Some j"
          by (auto simp: ses split: if_splits)
        with sessions_okD [OF ok this(1)] x(2) show ?thesis by (auto simp: ix ep)
      qed
    next
      fix j x assume "map_of (sessions t') j = Some x" "\<not> cs_authed x"
      then show "cs_playerId x = 0" using sessions_okD(5) [OF ok] bs by (auto simp: ses split: if_splits)
    qed
    with b show ?thesis by simp
  qed
qed

lemma touch_ok:
  assumes "map_of (sessions t) i = Some s" and "cs_sessionId s' = cs_sessionId s" "cs_authed s' = cs_authed s"
    "cs_playerId s' = cs_playerId s" "cs_epoch s' = cs_epoch s"
  shows "sessions_ok t \<Longrightarrow> sessions_ok (t\<lparr>sessions := AList.update i s' (sessions t)\<rparr>)"
    and "index_exact t \<Longrightarrow> index_exact (t\<lparr>sessions := AList.update i s' (sessions t)\<rparr>)"
proof -
  show "sessions_ok t \<Longrightarrow> sessions_ok (t\<lparr>sessions := AList.update i s' (sessions t)\<rparr>)"
    using assms by (auto simp: sessions_ok_def)
  show "index_exact t \<Longrightarrow> index_exact (t\<lparr>sessions := AList.update i s' (sessions t)\<rparr>)"
    using assms index_exactD [of t _ i s] by (auto simp: index_exact_def)
qed

lemma SetSceneBinding_ok:
  "sessions_ok t \<Longrightarrow> sessions_ok (snd (SetSceneBinding t i sc ch inc nm))"
  "index_exact t \<Longrightarrow> index_exact (snd (SetSceneBinding t i sc ch inc nm))"
  by (auto simp: SetSceneBinding_def split: option.splits intro: touch_ok)

lemma SubmitScene_ok:
  "sessions_ok t \<Longrightarrow> sessions_ok (snd (snd (SubmitScene t e f)))"
  "index_exact t \<Longrightarrow> index_exact (snd (snd (SubmitScene t e f)))"
  by (auto simp: SubmitScene_def Let_def split: option.splits intro: touch_ok)

lemma authed_unique:
  assumes "sessions_ok t" and "map_of (sessions t) i = Some s" "cs_authed s" and "map_of (sessions t) j = Some x" "cs_authed x"
    and "cs_playerId s = cs_playerId x"
  shows "i = j"
  using sessions_okD(3) [OF assms(1,2,3)] sessions_okD(3) [OF assms(1,4,5)] assms(6) by simp

lemma erase_ok:
  assumes ok: "sessions_ok t"
  shows "sessions_ok (snd (session_erase t i))"
proof (rule sessions_okI)
  fix j x assume j: "map_of (sessions (snd (session_erase t i))) j = Some x"
  then have x: "map_of (sessions t) j = Some x" "map_of (sessions t) i \<noteq> None \<Longrightarrow> j \<noteq> i"
    by (auto simp: session_erase_def split: option.splits if_splits)
  show "cs_sessionId x = j" using sessions_okD(1) [OF ok x(1)] .
  show "cs_playerId x \<noteq> 0 \<and> map_of (playerIndex (snd (session_erase t i))) (cs_playerId x) = Some j \<and>
      cs_epoch x = epoch_of (snd (session_erase t i)) (cs_playerId x)" if "cs_authed x"
    using sessions_okD [OF ok x(1)] that x(2) by (auto simp: session_erase_def split: option.splits)
  show "cs_playerId x = 0" if "\<not> cs_authed x" using sessions_okD(5) [OF ok x(1) that] .
qed

lemma erase_exact: "index_exact t \<Longrightarrow> sessions_ok t \<Longrightarrow> index_exact (snd (session_erase t i))"
  by (fastforce simp: session_erase_def index_exact_def sessions_ok_def split: option.splits if_splits)

lemma create_exact: "index_exact t \<Longrightarrow> index_exact (snd (session_create t c d n))"
  by (fastforce simp: session_create_def Let_def index_exact_def)

lemma SetDstService_ok:
  assumes ok: "sessions_ok t"
  shows "sessions_ok (snd (SetDstService t i d))" and "index_exact t \<Longrightarrow> index_exact (snd (SetDstService t i d))"
proof -
  show "sessions_ok (snd (SetDstService t i d))"
  proof (cases "map_of (sessions t) i")
    case (Some s)
    have other: "cs_playerId x \<noteq> cs_playerId s" if "map_of (sessions t) j = Some x" "j \<noteq> i" "cs_authed x" "cs_authed s" for j x
      using authed_unique [OF ok that(1,3) Some that(4)] that(2) by auto
    show ?thesis
      using Some sessions_okD [OF ok] other
      by (auto simp: SetDstService_def Let_def clear_scene_def intro!: sessions_okI split: if_splits)
  qed (use ok in \<open>simp add: SetDstService_def\<close>)
  show "index_exact t \<Longrightarrow> index_exact (snd (SetDstService t i d))"
    by (fastforce simp: SetDstService_def Let_def clear_scene_def index_exact_def split: option.splits)
qed

lemma bind_exact:
  assumes ex: "index_exact t" and reauth: "\<And>it. map_of (sessions t) i = Some it \<Longrightarrow> cs_authed it \<Longrightarrow> cs_playerId it = p"
  shows "index_exact (snd (snd (session_bind t i p d n)))"
proof -
  obtain r k t' where b: "session_bind t i p d n = (r, k, t')" by (cases "session_bind t i p d n")
  show ?thesis
  proof (cases r)
    case False
    with b bind_failure [of t i p d n k t'] ex show ?thesis by simp
  next
    case True
    with b have "session_bind t i p d n = (True, k, t')" by simp
    then obtain it s where bs: "map_of (sessions t) i = Some it" "cs_authed s" "cs_playerId s = p"
      and ses: "\<And>j. map_of (sessions t') j = (if j = i then Some s else if map_of (playerIndex t) p = Some j
        then map_option (\<lambda>o'. o'\<lparr>cs_authed := False, cs_playerId := 0\<rparr>) (map_of (sessions t) j) else map_of (sessions t) j)"
      and ix: "map_of (playerIndex t') = (map_of (playerIndex t))(p \<mapsto> i)"
      by (rule bind_success) blast
    have "\<exists>s. map_of (sessions t') j = Some s \<and> cs_authed s \<and> cs_playerId s = q" if "map_of (playerIndex t') q = Some j" for q j
    proof (cases "q = p")
      case True
      with that bs show ?thesis by (auto simp: ix ses)
    next
      case False
      with that have q: "map_of (playerIndex t) q = Some j" by (simp add: ix)
      with ex obtain x where x: "map_of (sessions t) j = Some x" "cs_authed x" "cs_playerId x = q"
        by (auto simp: index_exact_def)
      with reauth False have "j \<noteq> i" by auto
      moreover have "map_of (playerIndex t) p \<noteq> Some j" using index_exactD [OF ex _ x(1)] x(3) False by auto
      ultimately show ?thesis using x by (simp add: ses)
    qed
    with b show ?thesis by (simp add: index_exact_def)
  qed
qed

section \<open>Runs\<close>

datatype session_op = SCreate "nat option" u8 int | SBind u64 u64 u8 int | SSetDst u64 u8
  | SSetScene u64 u32 u32 u64 string | SSubmit ClientSession "bool \<Rightarrow> bool" | SErase u64

fun session_step :: "session_op \<Rightarrow> ClientSessionTable \<Rightarrow> ClientSessionTable" where
  "session_step (SCreate c d n) t = snd (session_create t c d n)"
| "session_step (SBind i p d n) t = snd (snd (session_bind t i p d n))"
| "session_step (SSetDst i d) t = snd (SetDstService t i d)"
| "session_step (SSetScene i sc ch inc nm) t = snd (SetSceneBinding t i sc ch inc nm)"
| "session_step (SSubmit e f) t = snd (snd (SubmitScene t e f))"
| "session_step (SErase i) t = snd (session_erase t i)"

definition session_run :: "session_op list \<Rightarrow> ClientSessionTable \<Rightarrow> ClientSessionTable" where
  "session_run ops t = fold session_step ops t"

lemma session_step_ok: "sessions_ok t \<Longrightarrow> sessions_ok (session_step op t)"
  by (cases op) (simp_all add: create_ok bind_ok SetDstService_ok SetSceneBinding_ok SubmitScene_ok erase_ok)

lemma session_run_ok: "sessions_ok t \<Longrightarrow> sessions_ok (session_run ops t)"
  by (induction ops arbitrary: t) (simp_all add: session_run_def session_step_ok)

lemma epoch_bind:
  assumes "session_bind t i p d n = (True, k, t')"
  shows "epoch_of t p < epoch_of t' p" and "epoch_of t q \<le> epoch_of t' q"
proof -
  obtain e: "epoch_of t p \<noteq> 0xFFFFFFFF" and ep: "\<And>q. epoch_of t' q = (if q = p then epoch_of t p + 1 else epoch_of t q)"
    using assms by (rule bind_success) simp
  show "epoch_of t p < epoch_of t' p" using u32_inc(2) [OF e] by (simp add: ep)
  then show "epoch_of t q \<le> epoch_of t' q" by (cases "q = p") (simp_all add: ep)
qed

lemma epoch_mono_step: "epoch_of t q \<le> epoch_of (session_step op t) q"
proof (cases op)
  case (SBind i p d n)
  obtain r k t' where b: "session_bind t i p d n = (r, k, t')" by (cases "session_bind t i p d n")
  then show ?thesis using SBind bind_failure [of t i p d n k t'] epoch_bind(2) [of t i p d n k t' q] by (cases r) auto
next
  case (SSetDst i d)
  have "epoch_of t p \<noteq> 0xFFFFFFFF \<Longrightarrow> epoch_of t p \<le> epoch_of t p + 1" for p using u32_inc(2) by (rule less_imp_le)
  then show ?thesis by (auto simp: SSetDst SetDstService_def Let_def split: option.splits)
qed (auto simp: session_create_def SetSceneBinding_def SubmitScene_def session_erase_def Let_def split: option.splits)

lemma epoch_mono_run: "epoch_of t q \<le> epoch_of (session_run ops t) q"
proof (induction ops arbitrary: t)
  case (Cons op ops)
  have "epoch_of t q \<le> epoch_of (session_step op t) q" by (rule epoch_mono_step)
  also have "\<dots> \<le> epoch_of (session_run ops (session_step op t)) q" by (rule Cons.IH)
  finally show ?case by (simp add: session_run_def)
qed (simp add: session_run_def)

text \<open>A run in which an authenticated session is never authenticated again as somebody else.\<close>

fun steady :: "ClientSessionTable \<Rightarrow> session_op list \<Rightarrow> bool" where
  "steady t [] = True"
| "steady t (op # ops) = ((case op of
     SBind i p d n \<Rightarrow> (case map_of (sessions t) i of None \<Rightarrow> True | Some it \<Rightarrow> \<not> cs_authed it \<or> cs_playerId it = p)
   | _ \<Rightarrow> True) \<and> steady (session_step op t) ops)"

lemma steady_exact:
  "steady t ops \<Longrightarrow> sessions_ok t \<Longrightarrow> index_exact t \<Longrightarrow> index_exact (session_run ops t)"
proof (induction ops arbitrary: t)
  case (Cons op ops)
  have "index_exact (session_step op t)"
  proof (cases op)
    case (SBind i p d n)
    with Cons.prems bind_exact [of t i p d n] show ?thesis by (auto split: option.splits)
  qed (use Cons.prems in \<open>simp_all add: create_exact SetDstService_ok SetSceneBinding_ok SubmitScene_ok erase_exact\<close>)
  with Cons session_step_ok [of t op] show ?case by (simp add: session_run_def)
qed (simp add: session_run_def)

section \<open>Properties of client sessions\<close>

text \<open>
  C11. At most one session is authenticated per player, whatever the order of logins, service
  changes, scene bindings and closes: in every reachable table two authenticated sessions of the
  same player are the same session, and it carries the newest epoch of the player.
\<close>

theorem one_authenticated_session_per_player:
  assumes "session_get (session_run ops empty_sessions) i = Some s" and "cs_authed s"
    and "session_get (session_run ops empty_sessions) j = Some x" and "cs_authed x" and "cs_playerId s = cs_playerId x"
  shows "i = j \<and> s = x \<and> cs_epoch s = epoch_of (session_run ops empty_sessions) (cs_playerId s)"
proof -
  have ok: "sessions_ok (session_run ops empty_sessions)" by (rule session_run_ok [OF empty_sessions_ok(1)])
  show ?thesis
    using authed_unique [OF ok assms(1) [unfolded session_get_def] assms(2) assms(3) [unfolded session_get_def] assms(4,5)]
      sessions_okD(4) [OF ok assms(1) [unfolded session_get_def] assms(2)] assms(1,3) by simp
qed

theorem one_authenticated_session_per_player_witness:
  "let t = session_run [SCreate None 8 0, SCreate None 8 0, SBind 1 77 8 1, SBind 2 77 8 2] empty_sessions
   in cs_epoch (the (session_get t 2)) = epoch_of t 77"
proof -
  let ?ops = "[SCreate None 8 0, SCreate None 8 0, SBind 1 77 8 1, SBind 2 77 8 2]"
  let ?t = "session_run ?ops empty_sessions"
  have "case session_get ?t 2 of None \<Rightarrow> False | Some s \<Rightarrow> cs_authed s \<and> cs_playerId s = 77" by code_simp
  then obtain s where s: "session_get ?t 2 = Some s" "cs_authed s" "cs_playerId s = 77" by (auto split: option.splits)
  from one_authenticated_session_per_player [OF s(1,2,1,2) refl] s show ?thesis by (simp add: Let_def)
qed

text \<open>
  C36. Epochs only grow: along any run the epoch of a player never decreases, and every successful
  login gives it a strictly larger epoch than any earlier login had; the 32-bit counter is
  refused at its maximum instead of wrapping.
\<close>

theorem login_epoch_strictly_increases:
  assumes "session_bind (session_run ops t) i p d n = (True, k, t')"
  shows "epoch_of t p < epoch_of t' p \<and> (\<exists>s. session_get t' i = Some s \<and> cs_authed s \<and> cs_playerId s = p \<and> cs_epoch s = epoch_of t' p)"
proof
  show "epoch_of t p < epoch_of t' p"
    using epoch_mono_run epoch_bind(1) [OF assms] by (rule le_less_trans)
  show "\<exists>s. session_get t' i = Some s \<and> cs_authed s \<and> cs_playerId s = p \<and> cs_epoch s = epoch_of t' p"
    using assms by (rule bind_success) (simp add: session_get_def)
qed

theorem login_epoch_strictly_increases_witness:
  "\<exists>k t'. session_bind (session_run [SCreate None 8 0] empty_sessions) 1 77 8 5 = (True, k, t') \<and> epoch_of empty_sessions 77 < epoch_of t' 77"
proof -
  have "fst (session_bind (session_run [SCreate None 8 0] empty_sessions) 1 77 8 5)" by code_simp
  then obtain k t' where "session_bind (session_run [SCreate None 8 0] empty_sessions) 1 77 8 5 = (True, k, t')"
    by (metis prod.exhaust_sel)
  with login_epoch_strictly_increases [OF this] show ?thesis by blast
qed

text \<open>
  Push delivery by player: in a run in which no authenticated session is authenticated again as a
  different player, \<open>FindByPlayer\<close> returns the session authenticated as that player and
  nothing else, and it finds it whenever there is one.
\<close>

theorem FindByPlayer_exact:
  assumes "steady empty_sessions ops"
  shows "FindByPlayer (session_run ops empty_sessions) p = Some s \<longleftrightarrow>
    p \<noteq> 0 \<and> cs_authed s \<and> cs_playerId s = p \<and> session_get (session_run ops empty_sessions) (cs_sessionId s) = Some s"
proof -
  let ?t = "session_run ops empty_sessions"
  have ok: "sessions_ok ?t" by (rule session_run_ok [OF empty_sessions_ok(1)])
  have ex: "index_exact ?t" by (rule steady_exact [OF assms empty_sessions_ok])
  show ?thesis
  proof
    assume "FindByPlayer ?t p = Some s"
    then obtain i where i: "p \<noteq> 0" "map_of (playerIndex ?t) p = Some i" "map_of (sessions ?t) i = Some s"
      by (auto simp: FindByPlayer_def split: if_splits option.splits)
    with index_exactD [OF ex i(2,3)] sessions_okD(1) [OF ok i(3)]
    show "p \<noteq> 0 \<and> cs_authed s \<and> cs_playerId s = p \<and> session_get ?t (cs_sessionId s) = Some s"
      by (simp add: session_get_def)
  next
    assume "p \<noteq> 0 \<and> cs_authed s \<and> cs_playerId s = p \<and> session_get ?t (cs_sessionId s) = Some s"
    then show "FindByPlayer ?t p = Some s"
      using sessions_okD(3) [OF ok, of "cs_sessionId s" s] by (auto simp: FindByPlayer_def session_get_def)
  qed
qed

theorem FindByPlayer_exact_witness:
  "\<exists>s. FindByPlayer (session_run [SCreate None 8 0, SBind 1 77 8 1] empty_sessions) 77 = Some s \<and> cs_playerId s = 77"
proof -
  let ?ops = "[SCreate None 8 0, SBind 1 77 8 1]"
  have st: "steady empty_sessions ?ops" by code_simp
  have "case session_get (session_run ?ops empty_sessions) 1 of None \<Rightarrow> False
      | Some s \<Rightarrow> cs_authed s \<and> cs_playerId s = 77 \<and> cs_sessionId s = 1" by code_simp
  then obtain s where "session_get (session_run ?ops empty_sessions) 1 = Some s" "cs_authed s" "cs_playerId s = 77" "cs_sessionId s = 1"
    by (auto split: option.splits)
  with FindByPlayer_exact [OF st, of 77 s] show ?thesis by auto
qed

text \<open>
  Without that restriction the index goes stale: a session that authenticates first as one
  player and then as another stays listed under the first, so a push addressed to the
  first player is delivered to a session that belongs to the second.
\<close>

theorem reauthentication_misdirects_pushes:
  "\<exists>ops s. FindByPlayer (session_run ops empty_sessions) 77 = Some s \<and> cs_authed s \<and> cs_playerId s = 88"
proof -
  let ?t = "session_run [SCreate None 8 0, SBind 1 77 8 1, SBind 1 88 8 2] empty_sessions"
  have "case FindByPlayer ?t 77 of None \<Rightarrow> False | Some s \<Rightarrow> cs_authed s \<and> cs_playerId s = 88" by code_simp
  then show ?thesis by (auto split: option.splits)
qed

text \<open>
  Online precedes business messages, once per binding: a submission is made only for a session
  whose complete binding still equals the expected one, it announces Online exactly if that
  binding has not been announced, a refused submission changes nothing, and after an accepted
  one the same binding is never announced again by a further submission.
\<close>

theorem scene_submission_announces_once:
  assumes "SubmitScene t e f = (r, called, t')"
  shows "(r \<longrightarrow> (\<exists>s. session_get t (cs_sessionId e) = Some s \<and> submittable s e \<and>
             called = Some (\<not> cs_sceneOnlineSubmitted s) \<and> f (\<not> cs_sceneOnlineSubmitted s)) \<and>
           (\<forall>g. fst (snd (SubmitScene t' e g)) = Some False)) \<and>
         (\<not> r \<longrightarrow> t' = t)"
  using assms
  by (auto simp: SubmitScene_def session_get_def submittable_def Let_def split: option.splits if_splits)

theorem scene_submission_announces_once_witness:
  "let t = session_run [SCreate None 8 0, SBind 1 77 8 1, SSetScene 1 3 0 9 ''c''] empty_sessions;
       e = the (session_get t 1)
   in fst (snd (SubmitScene t e (\<lambda>_. True))) = Some True \<and>
      fst (snd (SubmitScene (snd (snd (SubmitScene t e (\<lambda>_. True)))) e (\<lambda>_. True))) = Some False"
proof -
  let ?t = "session_run [SCreate None 8 0, SBind 1 77 8 1, SSetScene 1 3 0 9 ''c''] empty_sessions"
  let ?e = "the (session_get ?t 1)"
  have "fst (SubmitScene ?t ?e (\<lambda>_. True))" "fst (snd (SubmitScene ?t ?e (\<lambda>_. True))) = Some True" by code_simp+
  moreover have "SubmitScene ?t ?e (\<lambda>_. True) = (fst (SubmitScene ?t ?e (\<lambda>_. True)),
      fst (snd (SubmitScene ?t ?e (\<lambda>_. True))), snd (snd (SubmitScene ?t ?e (\<lambda>_. True))))" by simp
  note scene_submission_announces_once [OF this]
  ultimately show ?thesis unfolding Let_def by blast
qed

end
