(* ===== verification/ServiceRegistry.thy ===== *)
theory ServiceRegistry
  imports Prelude GateProto
begin

text \<open>
  The gateway's registry of backend connections, gatewayServer/serviceRegistry.h and
  serviceRegistry.cc: connections are pending until their handshake binds them to a slot of the pool of
  their scene; a restart of a scene process (a new incarnation) retires all slots of the pool. Every
  operation is modelled as one step under the mutex, including the state it leaves behind when
  it refuses.
\<close>

section \<open>State\<close>

record ServiceEndpoint =
  ep_connName :: string
  ep_serviceId :: u8
  ep_zoneId :: u32
  ep_sceneId :: u32
  ep_channelId :: u32
  ep_sceneIncarnation :: u64
  ep_conn :: "nat option"
  ep_registeredAtMs :: int

text \<open>\<open>ServiceInstanceKey\<close> and \<open>BackendKey\<close> have the same three fields.\<close>

record BackendKey =
  bk_serviceId :: u8
  bk_zoneId :: u32
  bk_sceneId :: u32

datatype BackendState = Pending | Ready | Dropped | Disconnected

record BackendConn =
  bc_connName :: string
  bc_conn :: "nat option"
  bc_channelId :: u32
  bc_connectionGeneration :: u64
  bc_sceneIncarnation :: u64
  bc_state :: BackendState
  bc_boundPlayers :: u32
  bc_inflightRequests :: u32
  bc_pendingWriteBytes :: nat

record BackendConnPool =
  bp_key :: BackendKey
  bp_sceneIncarnation :: u64
  bp_channels :: "BackendConn list"
  bp_nextRoundRobin :: u64

record ServiceRegistry =
  byName :: "(string, ServiceEndpoint) umap"
  byService :: "(u8, string) umap"
  byInstance :: "(BackendKey, string) umap"
  backendConnPools :: "(BackendKey, BackendConnPool) umap"
  pendingConn :: "(string, BackendConn) umap"
  connPoolSize :: u32
  nextRoundRobin :: "(BackendKey, u64) umap"

definition empty_slot :: BackendConn where
  "empty_slot = \<lparr>bc_connName = [], bc_conn = None, bc_channelId = 0, bc_connectionGeneration = 0, bc_sceneIncarnation = 0,
     bc_state = Pending, bc_boundPlayers = 0, bc_inflightRequests = 0, bc_pendingWriteBytes = 0\<rparr>"

definition empty_endpoint :: ServiceEndpoint where
  "empty_endpoint = \<lparr>ep_connName = [], ep_serviceId = 0, ep_zoneId = 0, ep_sceneId = 0, ep_channelId = 0,
     ep_sceneIncarnation = 0, ep_conn = None, ep_registeredAtMs = 0\<rparr>"

definition new_registry :: "u32 \<Rightarrow> ServiceRegistry" where
  "new_registry poolSize = \<lparr>byName = [], byService = [], byInstance = [], backendConnPools = [], pendingConn = [],
     connPoolSize = max poolSize 1, nextRoundRobin = []\<rparr>"

section \<open>Registration\<close>

definition AddPending :: "ServiceRegistry \<Rightarrow> string \<Rightarrow> nat option \<Rightarrow> bool \<times> ServiceRegistry" where
  "AddPending r connName conn =
     (if connName = [] then (False, r)
      else if map_of (byName r) connName \<noteq> None \<or> map_of (pendingConn r) connName \<noteq> None then (False, r)
      else (True, r\<lparr>pendingConn := AList.update connName
             (empty_slot\<lparr>bc_connName := connName, bc_conn := conn, bc_state := Pending\<rparr>) (pendingConn r)\<rparr>))"

definition demote :: "ServiceEndpoint \<Rightarrow> ServiceEndpoint" where
  "demote e = e\<lparr>ep_serviceId := 0, ep_zoneId := 0, ep_sceneId := 0, ep_channelId := 0, ep_sceneIncarnation := 0\<rparr>"

text \<open>\<open>backendConnPools_[key]\<close>, filled with \<open>connPoolSize_\<close> numbered slots when it has none.\<close>

definition pool_at :: "ServiceRegistry \<Rightarrow> BackendKey \<Rightarrow> BackendConnPool" where
  "pool_at r key =
     (let pool = (case map_of (backendConnPools r) key of
          None \<Rightarrow> \<lparr>bp_key = \<lparr>bk_serviceId = 0, bk_zoneId = 0, bk_sceneId = 0\<rparr>, bp_sceneIncarnation = 0, bp_channels = [], bp_nextRoundRobin = 0\<rparr>
        | Some p \<Rightarrow> p)
      in if bp_channels pool = []
         then pool\<lparr>bp_key := key,
                bp_channels := map (\<lambda>i. empty_slot\<lparr>bc_channelId := word_of_nat i\<rparr>) [0..<unat (connPoolSize r)]\<rparr>
         else pool)"

text \<open>The loop that retires the slots of an older incarnation; it threads the names and the first
  replaced connection.\<close>

fun retire_slots :: "bool \<Rightarrow> u64 \<Rightarrow> BackendConn list \<Rightarrow> (string, ServiceEndpoint) umap \<Rightarrow> string \<Rightarrow>
    BackendConn list \<times> (string, ServiceEndpoint) umap \<times> string" where
  "retire_slots same inc [] names rep = ([], names, rep)"
| "retire_slots same inc (c # cs) names rep =
     (if bc_state c \<noteq> Ready \<or> bc_connName c = [] \<or> same \<and> bc_sceneIncarnation c = inc
      then (let (cs', out) = retire_slots same inc cs names rep in (c # cs', out))
      else
        (let (names', rep') = (case map_of names (bc_connName c) of
               None \<Rightarrow> (names, rep)
             | Some e \<Rightarrow> (AList.update (bc_connName c) (demote e) names, if rep = [] then bc_connName c else rep));
             c' = empty_slot\<lparr>bc_channelId := bc_channelId c, bc_connectionGeneration := bc_connectionGeneration c + 1\<rparr>;
             (cs', out) = retire_slots same inc cs names' rep'
         in (c' # cs', out)))"

text \<open>The branch for a changed incarnation; \<open>pool\<close> is the pool with its slots initialised.\<close>

definition retire_generation ::
  "ServiceRegistry \<Rightarrow> BackendKey \<Rightarrow> string \<Rightarrow> u64 \<Rightarrow> string \<times> ServiceRegistry" where
  "retire_generation r key connName inc =
     (let pool = pool_at r key;
          r0 = r\<lparr>backendConnPools := AList.update key pool (backendConnPools r)\<rparr>
      in if inc \<noteq> 0 \<and> bp_sceneIncarnation pool \<noteq> 0 \<and> inc \<noteq> bp_sceneIncarnation pool then
           (let same = (\<exists>c \<in> set (bp_channels pool). bc_state c = Ready \<and> bc_connName c = connName \<and> bc_sceneIncarnation c = inc);
                (chans, names, rep) = retire_slots same inc (bp_channels pool) (byName r) [];
                services = (case map_of (byService r) (bk_serviceId key) of
                    None \<Rightarrow> byService r
                  | Some n \<Rightarrow> (case map_of names n of
                      None \<Rightarrow> byService r
                    | Some e \<Rightarrow> if ep_serviceId e = 0 then AList.delete (bk_serviceId key) (byService r) else byService r))
            in (rep, r0\<lparr>byName := names, byInstance := AList.delete key (byInstance r), byService := services,
                  backendConnPools := AList.update key (pool\<lparr>bp_channels := chans, bp_sceneIncarnation := inc\<rparr>) (backendConnPools r)\<rparr>))
         else ([], r0))"

text \<open>Taking over an occupied slot: \<open>None\<close> is the refusal when its old connection has no record.\<close>

definition take_over :: "ServiceRegistry \<Rightarrow> BackendKey \<Rightarrow> BackendConn \<Rightarrow> string \<Rightarrow> string \<Rightarrow> (string \<times> ServiceRegistry) option" where
  "take_over r key slot connName rep =
     (if bc_state slot = Ready \<and> bc_connName slot \<noteq> connName then
        (let stale = bc_connName slot in
         case map_of (byName r) stale of
           None \<Rightarrow> None
         | Some e \<Rightarrow> Some (stale, r\<lparr>byName := AList.update stale (demote e) (byName r),
             byService := (if map_of (byService r) (bk_serviceId key) = Some stale
                           then AList.delete (bk_serviceId key) (byService r) else byService r),
             byInstance := (if map_of (byInstance r) key = Some stale then AList.delete key (byInstance r) else byInstance r)\<rparr>))
      else Some (rep, r))"

text \<open>A record of the connection's own name: it must agree with the handshake, and its slot is cleared.\<close>

definition supersede :: "ServiceRegistry \<Rightarrow> BackendKey \<Rightarrow> u32 \<Rightarrow> u64 \<Rightarrow> string \<Rightarrow> string \<Rightarrow> (string \<times> ServiceRegistry) option" where
  "supersede r key channelId inc connName rep = (case map_of (byName r) connName of
     None \<Rightarrow> Some (rep, r)
   | Some e \<Rightarrow>
       if ep_serviceId e \<noteq> bk_serviceId key \<or> ep_zoneId e \<noteq> bk_zoneId key \<or> ep_sceneId e \<noteq> bk_sceneId key \<or>
          ep_channelId e \<noteq> channelId \<or> ep_sceneIncarnation e \<noteq> inc then None
       else
         (let pool = pool_at r key; i = unat channelId;
              pool' = (if i < length (bp_channels pool) \<and> bc_connName (bp_channels pool ! i) = connName
                       then pool\<lparr>bp_channels := (bp_channels pool)[i := empty_slot\<lparr>bc_channelId := channelId\<rparr>]\<rparr> else pool)
          in Some (connName, r\<lparr>byName := AList.update connName (e\<lparr>ep_serviceId := 0\<rparr>) (byName r),
               backendConnPools := AList.update key pool' (backendConnPools r)\<rparr>)))"

definition install_slot ::
  "ServiceRegistry \<Rightarrow> BackendKey \<Rightarrow> u32 \<Rightarrow> u64 \<Rightarrow> int \<Rightarrow> string \<Rightarrow> nat option \<Rightarrow> ServiceRegistry" where
  "install_slot r key channelId inc nowMs connName conn =
     (let pool = pool_at r key; i = unat channelId; slot = bp_channels pool ! i;
          e = \<lparr>ep_connName = connName, ep_serviceId = bk_serviceId key, ep_zoneId = bk_zoneId key, ep_sceneId = bk_sceneId key,
               ep_channelId = channelId, ep_sceneIncarnation = inc, ep_conn = conn, ep_registeredAtMs = nowMs\<rparr>;
          slot' = slot\<lparr>bc_connName := connName, bc_conn := conn, bc_state := Ready, bc_sceneIncarnation := inc,
               bc_connectionGeneration := bc_connectionGeneration slot + 1\<rparr>
      in r\<lparr>backendConnPools := AList.update key
               (pool\<lparr>bp_channels := (bp_channels pool)[i := slot'], bp_sceneIncarnation := inc\<rparr>) (backendConnPools r),
           byName := AList.update connName e (byName r),
           pendingConn := AList.delete connName (pendingConn r),
           byInstance := AList.update key connName (byInstance r),
           byService := AList.update (bk_serviceId key) connName (byService r)\<rparr>)"

text \<open>\<open>Bind\<close>: the flag, the replaced connection reported through \<open>oldConnName\<close>, and the registry.\<close>

definition registry_bind ::
  "ServiceRegistry \<Rightarrow> string \<Rightarrow> u8 \<Rightarrow> u32 \<Rightarrow> u32 \<Rightarrow> u32 \<Rightarrow> u64 \<Rightarrow> int \<Rightarrow> bool \<times> string \<times> ServiceRegistry" where
  "registry_bind r connName serviceId zoneId sceneId channelId inc nowMs =
     (if serviceId = 0 \<or> channelId \<ge> connPoolSize r then (False, [], r)
      else case map_of (pendingConn r) connName of
        None \<Rightarrow> (False, [], r)
      | Some pending \<Rightarrow>
          (let key = \<lparr>bk_serviceId = serviceId, bk_zoneId = zoneId, bk_sceneId = sceneId\<rparr>;
               (rep0, r1) = retire_generation r key connName inc;
               slot = bp_channels (pool_at r1 key) ! unat channelId
           in case take_over r1 key slot connName rep0 of
                None \<Rightarrow> (False, [], r1)
              | Some (rep1, r2) \<Rightarrow> (case supersede r2 key channelId inc connName rep1 of
                  None \<Rightarrow> (False, [], r2)
                | Some (rep2, r3) \<Rightarrow> (True, rep2, install_slot r3 key channelId inc nowMs connName (bc_conn pending)))))"

definition registry_bind_channel ::
  "ServiceRegistry \<Rightarrow> string \<Rightarrow> u8 \<Rightarrow> u32 \<Rightarrow> u32 \<Rightarrow> u32 \<Rightarrow> int \<Rightarrow> bool \<times> string \<times> ServiceRegistry" where
  "registry_bind_channel r connName serviceId zoneId sceneId channelId nowMs =
     registry_bind r connName serviceId zoneId sceneId channelId 0 nowMs"

definition registry_bind_legacy ::
  "ServiceRegistry \<Rightarrow> string \<Rightarrow> u8 \<Rightarrow> u32 \<Rightarrow> u32 \<Rightarrow> int \<Rightarrow> bool \<times> string \<times> ServiceRegistry" where
  "registry_bind_legacy r connName serviceId zoneId sceneId nowMs =
     registry_bind r connName serviceId zoneId sceneId 0 0 nowMs"

section \<open>Lookups\<close>

definition eligible :: "BackendConnPool \<Rightarrow> BackendConn \<Rightarrow> bool" where
  "eligible pool c \<longleftrightarrow> bc_state c = Ready \<and>
     (bp_sceneIncarnation pool = 0 \<or> bc_sceneIncarnation c = bp_sceneIncarnation pool)"

definition GetPool :: "ServiceRegistry \<Rightarrow> BackendKey \<Rightarrow> ServiceEndpoint list" where
  "GetPool r key = (case map_of (backendConnPools r) key of
     None \<Rightarrow> []
   | Some pool \<Rightarrow> List.map_filter (\<lambda>c. if eligible pool c then map_of (byName r) (bc_connName c) else None) (bp_channels pool))"

definition GetByScene :: "ServiceRegistry \<Rightarrow> BackendKey \<Rightarrow> ServiceEndpoint option" where
  "GetByScene r key = (case map_of (backendConnPools r) key of
     None \<Rightarrow> None
   | Some pool \<Rightarrow>
       (case List.map_filter (\<lambda>c. if eligible pool c then map_of (byName r) (bc_connName c) else None) (bp_channels pool) of
          [] \<Rightarrow> None | e # _ \<Rightarrow> Some e))"

definition SelectByScene :: "ServiceRegistry \<Rightarrow> BackendKey \<Rightarrow> ServiceEndpoint option \<times> ServiceRegistry" where
  "SelectByScene r key = (case map_of (backendConnPools r) key of
     None \<Rightarrow> (None, r)
   | Some pool \<Rightarrow>
       (let ready = filter (\<lambda>c. bc_conn c \<noteq> None \<and> eligible pool c) (bp_channels pool) in
        if ready = [] then (None, r)
        else
          (let nxt = (case map_of (nextRoundRobin r) key of None \<Rightarrow> 0 | Some v \<Rightarrow> v);
               r' = r\<lparr>nextRoundRobin := AList.update key (nxt + 1) (nextRoundRobin r)\<rparr>;
               selected = ready ! unat (nxt mod word_of_nat (length ready))
           in (map_of (byName r) (bc_connName selected), r'))))"

definition GetInstances :: "ServiceRegistry \<Rightarrow> u8 \<Rightarrow> u32 \<Rightarrow> ServiceEndpoint list" where
  "GetInstances r serviceId zoneId = List.map_filter (\<lambda>(key, pool).
     if bk_serviceId key \<noteq> serviceId \<or> bk_zoneId key \<noteq> zoneId then None
     else (case List.map_filter (\<lambda>c. if bc_state c = Ready then map_of (byName r) (bc_connName c) else None) (bp_channels pool) of
             [] \<Rightarrow> None | e # _ \<Rightarrow> Some e)) (backendConnPools r)"

definition GetByService :: "ServiceRegistry \<Rightarrow> u8 \<Rightarrow> ServiceEndpoint option" where
  "GetByService r serviceId = (case map_of (byService r) serviceId of None \<Rightarrow> None | Some n \<Rightarrow> map_of (byName r) n)"

definition GetByName :: "ServiceRegistry \<Rightarrow> string \<Rightarrow> ServiceEndpoint option" where
  "GetByName r connName = (case map_of (byName r) connName of
     Some e \<Rightarrow> Some e
   | None \<Rightarrow> (case map_of (pendingConn r) connName of
       None \<Rightarrow> None | Some p \<Rightarrow> Some (empty_endpoint\<lparr>ep_connName := connName, ep_conn := bc_conn p\<rparr>)))"

definition GetByChannel :: "ServiceRegistry \<Rightarrow> string \<Rightarrow> ServiceEndpoint option" where
  "GetByChannel r connName = GetByName r connName"

section \<open>Removal\<close>

text \<open>The slot of a removed connection is cleared; a pool with no slot of its generation forgets it.\<close>

definition vacate :: "BackendConnPool \<Rightarrow> string \<Rightarrow> u32 \<Rightarrow> BackendConnPool" where
  "vacate pool connName channelId =
     (let i = unat channelId in
      if i < length (bp_channels pool) \<and> bc_connName (bp_channels pool ! i) = connName then
        (let slot' = empty_slot\<lparr>bc_channelId := channelId,
               bc_connectionGeneration := bc_connectionGeneration (bp_channels pool ! i) + 1\<rparr>;
             chans = (bp_channels pool)[i := slot'];
             active = (\<exists>c \<in> set chans. bc_state c = Ready \<and> bc_sceneIncarnation c = bp_sceneIncarnation pool)
         in pool\<lparr>bp_channels := chans, bp_sceneIncarnation := (if active then bp_sceneIncarnation pool else 0)\<rparr>)
      else pool)"

definition endpoint_key :: "ServiceEndpoint \<Rightarrow> BackendKey" where
  "endpoint_key e = \<lparr>bk_serviceId = ep_serviceId e, bk_zoneId = ep_zoneId e, bk_sceneId = ep_sceneId e\<rparr>"

definition RemoveByName :: "ServiceRegistry \<Rightarrow> string \<Rightarrow> ServiceEndpoint option \<times> ServiceRegistry" where
  "RemoveByName r connName = (case map_of (pendingConn r) connName of
     Some p \<Rightarrow> (Some (empty_endpoint\<lparr>ep_connName := connName, ep_conn := bc_conn p\<rparr>),
                r\<lparr>pendingConn := AList.delete connName (pendingConn r)\<rparr>)
   | None \<Rightarrow> (case map_of (byName r) connName of
       None \<Rightarrow> (None, r)
     | Some e \<Rightarrow>
         if ep_serviceId e = 0 then (Some e, r\<lparr>byName := AList.delete connName (byName r)\<rparr>)
         else
           (let key = endpoint_key e;
                names = AList.delete connName (byName r);
                pools = (case map_of (backendConnPools r) key of
                    None \<Rightarrow> backendConnPools r
                  | Some pool \<Rightarrow> AList.update key (vacate pool connName (ep_channelId e)) (backendConnPools r));
                instances = (if map_of (byInstance r) key = Some connName then
                    (case filter (\<lambda>(_, x). ep_serviceId x \<noteq> 0 \<and> endpoint_key x = key) names of
                       [] \<Rightarrow> AList.delete key (byInstance r)
                     | (n, _) # _ \<Rightarrow> if n = [] then AList.delete key (byInstance r) else AList.update key n (byInstance r))
                    else byInstance r);
                services = (if map_of (byService r) (ep_serviceId e) = Some connName then
                    (case filter (\<lambda>(_, x). ep_serviceId x \<noteq> 0 \<and> ep_serviceId x = ep_serviceId e) names of
                       [] \<Rightarrow> AList.delete (ep_serviceId e) (byService r)
                     | (n, _) # _ \<Rightarrow> AList.update (ep_serviceId e) n (byService r))
                    else byService r)
            in (Some e, r\<lparr>backendConnPools := pools, byName := names, byInstance := instances, byService := services\<rparr>))))"

definition registry_size :: "ServiceRegistry \<Rightarrow> nat" where
  "registry_size r = length (byName r) + length (pendingConn r)"

definition ReadyCount :: "ServiceRegistry \<Rightarrow> nat" where
  "ReadyCount r = length (filter (\<lambda>(_, e). ep_serviceId e \<noteq> 0) (byName r))"

section \<open>Invariant\<close>

text \<open>
  A ready slot and the record of its connection describe each other, all ready slots of a pool belong
  to its generation, scenes have a generation and other services none, and a pending connection
  has no record yet.
\<close>

definition slot_ok :: "(string, ServiceEndpoint) umap \<Rightarrow> BackendKey \<Rightarrow> u64 \<Rightarrow> nat \<Rightarrow> BackendConn \<Rightarrow> bool" where
  "slot_ok names k inc i c \<longleftrightarrow> bc_channelId c = word_of_nat i \<and>
     (bc_state c = Ready \<longrightarrow> bc_connName c \<noteq> [] \<and> bc_sceneIncarnation c = inc \<and>
        (bk_serviceId k = kScene \<longleftrightarrow> inc \<noteq> 0) \<and>
        (\<exists>e. map_of names (bc_connName c) = Some e \<and> endpoint_key e = k \<and> ep_channelId e = word_of_nat i \<and>
             ep_sceneIncarnation e = inc))"

definition pool_ok :: "(string, ServiceEndpoint) umap \<Rightarrow> u32 \<Rightarrow> BackendKey \<Rightarrow> BackendConnPool \<Rightarrow> bool" where
  "pool_ok names sz k pl \<longleftrightarrow> bk_serviceId k \<noteq> 0 \<and> length (bp_channels pl) = unat sz \<and>
     (\<forall>i < length (bp_channels pl). slot_ok names k (bp_sceneIncarnation pl) i (bp_channels pl ! i))"

definition holds_slot :: "(BackendKey, BackendConnPool) umap \<Rightarrow> string \<Rightarrow> ServiceEndpoint \<Rightarrow> bool" where
  "holds_slot pools n e \<longleftrightarrow> (\<exists>pl. map_of pools (endpoint_key e) = Some pl \<and> unat (ep_channelId e) < length (bp_channels pl) \<and>
     bc_connName (bp_channels pl ! unat (ep_channelId e)) = n \<and> bc_state (bp_channels pl ! unat (ep_channelId e)) = Ready)"

definition registry_ok :: "ServiceRegistry \<Rightarrow> bool" where
  "registry_ok r \<longleftrightarrow> connPoolSize r \<noteq> 0 \<and>
     (\<forall>n. map_of (pendingConn r) n \<noteq> None \<longrightarrow> n \<noteq> [] \<and> map_of (byName r) n = None) \<and>
     (\<forall>k pl. map_of (backendConnPools r) k = Some pl \<longrightarrow> pool_ok (byName r) (connPoolSize r) k pl) \<and>
     (\<forall>n e. map_of (byName r) n = Some e \<longrightarrow> ep_serviceId e \<noteq> 0 \<longrightarrow> holds_slot (backendConnPools r) n e)"

lemma registry_okD:
  assumes "registry_ok r"
  shows "connPoolSize r \<noteq> 0"
    and "map_of (pendingConn r) n \<noteq> None \<Longrightarrow> n \<noteq> [] \<and> map_of (byName r) n = None"
    and "map_of (backendConnPools r) k = Some pl \<Longrightarrow> pool_ok (byName r) (connPoolSize r) k pl"
    and "map_of (byName r) n = Some e \<Longrightarrow> ep_serviceId e \<noteq> 0 \<Longrightarrow> holds_slot (backendConnPools r) n e"
  using assms unfolding registry_ok_def by blast+

lemma endpoint_key_service: "endpoint_key e = k \<Longrightarrow> ep_serviceId e = bk_serviceId k"
  by (auto simp: endpoint_key_def)

lemma demote_simps [simp]: "ep_serviceId (demote e) = 0" "demote (demote e) = demote e"
  by (simp_all add: demote_def)

lemma fresh_pool_ok:
  assumes "bk_serviceId k \<noteq> 0"
  shows "pool_ok names sz k (p\<lparr>bp_channels := map (\<lambda>i. empty_slot\<lparr>bc_channelId := word_of_nat i\<rparr>) [0..<unat sz]\<rparr>)"
  using assms by (simp add: pool_ok_def slot_ok_def empty_slot_def)

lemma pool_at_eq:
  assumes "registry_ok r" and "map_of (backendConnPools r) k = Some pl"
  shows "pool_at r k = pl"
proof -
  have "length (bp_channels pl) = unat (connPoolSize r)" "connPoolSize r \<noteq> 0"
    using registry_okD(1,3) [OF assms(1)] assms(2) by (auto simp: pool_ok_def)
  then have "bp_channels pl \<noteq> []" by (auto simp: unat_eq_zero)
  with assms(2) show ?thesis by (simp add: pool_at_def)
qed

lemma pool_at_ok:
  assumes "registry_ok r" and "bk_serviceId k \<noteq> 0"
  shows "pool_ok (byName r) (connPoolSize r) k (pool_at r k)"
    and "registry_ok (r\<lparr>backendConnPools := AList.update k (pool_at r k) (backendConnPools r)\<rparr>)"
proof -
  show ok: "pool_ok (byName r) (connPoolSize r) k (pool_at r k)"
  proof (cases "map_of (backendConnPools r) k")
    case None
    let ?p = "\<lparr>bp_key = k, bp_sceneIncarnation = 0, bp_channels = [], bp_nextRoundRobin = 0\<rparr>"
    from None show ?thesis
      using fresh_pool_ok [OF assms(2), of "byName r" "connPoolSize r" ?p] by (simp add: pool_at_def)
  next
    case (Some pl)
    then show ?thesis using registry_okD(3) [OF assms(1)] pool_at_eq [OF assms(1)] by simp
  qed
  have "holds_slot (AList.update k (pool_at r k) (backendConnPools r)) n e"
    if "holds_slot (backendConnPools r) n e" for n e
    using that pool_at_eq [OF assms(1)] by (auto simp: holds_slot_def)
  with ok assms(1) show "registry_ok (r\<lparr>backendConnPools := AList.update k (pool_at r k) (backendConnPools r)\<rparr>)"
    by (auto simp: registry_ok_def)
qed

text \<open>What the retiring loop does when no slot is exempt.\<close>

definition retired_slot :: "BackendConn \<Rightarrow> BackendConn" where
  "retired_slot c = (if bc_state c = Ready
     then empty_slot\<lparr>bc_channelId := bc_channelId c, bc_connectionGeneration := bc_connectionGeneration c + 1\<rparr> else c)"

definition ready_names :: "BackendConn list \<Rightarrow> string set" where
  "ready_names cs = {bc_connName c | c. c \<in> set cs \<and> bc_state c = Ready}"

lemma retire_slots_spec:
  assumes "\<forall>c \<in> set cs. bc_state c = Ready \<longrightarrow> bc_connName c \<noteq> []"
  shows "fst (retire_slots False inc cs names rep) = map retired_slot cs \<and>
    map_of (fst (snd (retire_slots False inc cs names rep))) n =
      (if n \<in> ready_names cs then map_option demote (map_of names n) else map_of names n)"
  using assms
proof (induction cs arbitrary: names rep)
  case Nil
  then show ?case by (simp add: ready_names_def)
next
  case (Cons c cs)
  show ?case
  proof (cases "bc_state c = Ready")
    case False
    with Cons.IH [of names rep] Cons.prems show ?thesis
      by (auto simp: retired_slot_def ready_names_def split: prod.splits)
  next
    case True
    define names' where "names' = (case map_of names (bc_connName c) of None \<Rightarrow> names
      | Some e \<Rightarrow> AList.update (bc_connName c) (demote e) names)"
    define rep' where "rep' = (case map_of names (bc_connName c) of None \<Rightarrow> rep | Some e \<Rightarrow> if rep = [] then bc_connName c else rep)"
    have step: "retire_slots False inc (c # cs) names rep =
        (retired_slot c # fst (retire_slots False inc cs names' rep'), snd (retire_slots False inc cs names' rep'))"
      using True Cons.prems by (auto simp: retired_slot_def names'_def rep'_def split: prod.splits option.splits)
    have rn: "n \<in> ready_names (c # cs) \<longleftrightarrow> n = bc_connName c \<or> n \<in> ready_names cs"
      using True by (auto simp: ready_names_def)
    have "map_of names' n = (if n = bc_connName c then map_option demote (map_of names n) else map_of names n)"
      by (auto simp: names'_def split: option.splits)
    with Cons.IH [of names' rep'] Cons.prems show ?thesis unfolding step rn
      by (auto simp: option.map_comp comp_def)
  qed
qed

lemma retire_generation_unchanged:
  assumes "\<not> (inc \<noteq> 0 \<and> bp_sceneIncarnation (pool_at r k) \<noteq> 0 \<and> inc \<noteq> bp_sceneIncarnation (pool_at r k))"
  shows "retire_generation r k n inc = ([], r\<lparr>backendConnPools := AList.update k (pool_at r k) (backendConnPools r)\<rparr>)"
  using assms unfolding retire_generation_def Let_def by (simp only: if_False)

lemma retire_generation_retires:
  assumes ok: "registry_ok r" and k: "bk_serviceId k \<noteq> 0" and p: "map_of (pendingConn r) n \<noteq> None"
    and ch: "inc \<noteq> 0 \<and> bp_sceneIncarnation (pool_at r k) \<noteq> 0 \<and> inc \<noteq> bp_sceneIncarnation (pool_at r k)"
    and r': "r' = snd (retire_generation r k n inc)"
  shows "map_of (byName r') m = (if m \<in> ready_names (bp_channels (pool_at r k))
      then map_option demote (map_of (byName r) m) else map_of (byName r) m)"
    and "map_of (backendConnPools r') = (map_of (backendConnPools r))(k \<mapsto> (pool_at r k)\<lparr>
      bp_channels := map retired_slot (bp_channels (pool_at r k)), bp_sceneIncarnation := inc\<rparr>)"
    and "pendingConn r' = pendingConn r" and "connPoolSize r' = connPoolSize r"
proof -
  let ?p = "pool_at r k"
  have pok: "pool_ok (byName r) (connPoolSize r) k ?p" by (rule pool_at_ok(1) [OF ok k])
  then have slots: "bc_connName c \<noteq> [] \<and> map_of (byName r) (bc_connName c) \<noteq> None"
    if "c \<in> set (bp_channels ?p)" "bc_state c = Ready" for c
    using that by (auto simp: pool_ok_def slot_ok_def in_set_conv_nth)
  have same: "(\<exists>c \<in> set (bp_channels ?p). bc_state c = Ready \<and> bc_connName c = n \<and> bc_sceneIncarnation c = inc) = False"
    using slots registry_okD(2) [OF ok p] by metis
  note unfolded = r' [unfolded retire_generation_def Let_def same if_P [OF ch]]
  have "fst (retire_slots False inc (bp_channels ?p) (byName r) []) = map retired_slot (bp_channels ?p) \<and>
    map_of (fst (snd (retire_slots False inc (bp_channels ?p) (byName r) []))) m =
      (if m \<in> ready_names (bp_channels ?p) then map_option demote (map_of (byName r) m) else map_of (byName r) m)" for m
    using slots by (intro retire_slots_spec) blast
  with unfolded show "map_of (byName r') m = (if m \<in> ready_names (bp_channels ?p)
      then map_option demote (map_of (byName r) m) else map_of (byName r) m)"
    "map_of (backendConnPools r') = (map_of (backendConnPools r))(k \<mapsto> ?p\<lparr>
      bp_channels := map retired_slot (bp_channels ?p), bp_sceneIncarnation := inc\<rparr>)"
    "pendingConn r' = pendingConn r" "connPoolSize r' = connPoolSize r"
    by (auto split: prod.splits)
qed

lemma retired_slot_state [simp]: "bc_state (retired_slot c) \<noteq> Ready" "bc_channelId (retired_slot c) = bc_channelId c"
  by (simp_all add: retired_slot_def empty_slot_def)

lemma retire_generation_ok:
  assumes ok: "registry_ok r" and k: "bk_serviceId k \<noteq> 0" and p: "map_of (pendingConn r) n \<noteq> None"
    and r': "r' = snd (retire_generation r k n inc)" and gen: "bk_serviceId k = kScene \<longleftrightarrow> inc \<noteq> 0"
  shows "registry_ok r' \<and> pendingConn r' = pendingConn r \<and> connPoolSize r' = connPoolSize r \<and>
    (\<exists>pl. map_of (backendConnPools r') k = Some pl \<and> (\<forall>c \<in> set (bp_channels pl). bc_state c = Ready \<longrightarrow> bc_sceneIncarnation c = inc))"
proof (cases "inc \<noteq> 0 \<and> bp_sceneIncarnation (pool_at r k) \<noteq> 0 \<and> inc \<noteq> bp_sceneIncarnation (pool_at r k)")
  case False
  have "bc_sceneIncarnation c = inc" if "c \<in> set (bp_channels (pool_at r k))" "bc_state c = Ready" for c
    using that pool_at_ok(1) [OF ok k] False gen by (auto simp: pool_ok_def slot_ok_def in_set_conv_nth)
  with pool_at_ok(2) [OF ok k] show ?thesis
    by (simp add: r' retire_generation_unchanged [OF False])
next
  case True
  let ?p = "pool_at r k"
  note eqs = retire_generation_retires [OF ok k p True r']
  have pok: "pool_ok (byName r) (connPoolSize r) k ?p" by (rule pool_at_ok(1) [OF ok k])
  have other: "m \<notin> ready_names (bp_channels ?p)" if "map_of (byName r) m = Some e" "endpoint_key e \<noteq> k" for m e
    using that pok by (auto simp: ready_names_def pool_ok_def slot_ok_def in_set_conv_nth)
  have mine: "m \<in> ready_names (bp_channels ?p)" if "map_of (byName r) m = Some e" "ep_serviceId e \<noteq> 0" "endpoint_key e = k" for m e
    using registry_okD(4) [OF ok that(1,2)] that(3) pool_at_eq [OF ok]
    by (force simp: holds_slot_def ready_names_def)
  have "registry_ok r'" unfolding registry_ok_def
  proof (intro conjI allI impI)
    show "connPoolSize r' \<noteq> 0" using registry_okD(1) [OF ok] eqs(4) by simp
  next
    fix m assume "map_of (pendingConn r') m \<noteq> None"
    then have "m \<noteq> [] \<and> map_of (byName r) m = None" using registry_okD(2) [OF ok] eqs(3) by simp
    then show "m \<noteq> []" "map_of (byName r') m = None" by (auto simp: eqs(1))
  next
    fix k' pl assume pl: "map_of (backendConnPools r') k' = Some pl"
    show "pool_ok (byName r') (connPoolSize r') k' pl"
    proof (cases "k' = k")
      case True
      with pl pok show ?thesis by (auto simp: eqs pool_ok_def slot_ok_def)
    next
      case False
      with pl have "pool_ok (byName r) (connPoolSize r) k' pl" using registry_okD(3) [OF ok] by (simp add: eqs)
      with False other show ?thesis by (fastforce simp: eqs pool_ok_def slot_ok_def)
    qed
  next
    fix m e assume e: "map_of (byName r') m = Some e" "ep_serviceId e \<noteq> 0"
    then have e': "map_of (byName r) m = Some e" "m \<notin> ready_names (bp_channels ?p)"
      by (auto simp: eqs(1) split: if_splits)
    with mine e(2) have "endpoint_key e \<noteq> k" by blast
    then show "holds_slot (backendConnPools r') m e"
      using registry_okD(4) [OF ok e'(1) e(2)] by (simp add: holds_slot_def eqs(2))
  qed
  then show ?thesis by (auto simp: eqs)
qed

lemma channel_inject: "i < unat (sz :: u32) \<Longrightarrow> j < unat sz \<Longrightarrow> (word_of_nat i :: u32) = word_of_nat j \<longleftrightarrow> i = j"
proof -
  assume "i < unat sz" "j < unat sz"
  moreover have "unat sz < 2 ^ 32" by (rule unat_u32_bound)
  ultimately have "i < 2 ^ 32" "j < 2 ^ 32" by linarith+
  then show ?thesis by (simp add: word_unat_eq_iff unat_of_nat)
qed

text \<open>The names after the occupant of a slot has been demoted.\<close>

definition after_demotion :: "ServiceRegistry \<Rightarrow> BackendConn \<Rightarrow> string \<Rightarrow> ServiceEndpoint option" where
  "after_demotion r slot = (if bc_state slot = Ready
     then (map_of (byName r))(bc_connName slot := map_option demote (map_of (byName r) (bc_connName slot)))
     else map_of (byName r))"

lemma take_over_spec:
  assumes "slot_ok (byName r) k inc' j slot" and "map_of (byName r) n = None"
  shows "\<exists>rep' r2. take_over r k slot n rep = Some (rep', r2) \<and> map_of (byName r2) = after_demotion r slot \<and>
    backendConnPools r2 = backendConnPools r \<and> pendingConn r2 = pendingConn r \<and> connPoolSize r2 = connPoolSize r \<and>
    rep' = (if bc_state slot = Ready then bc_connName slot else rep)"
proof (cases "bc_state slot = Ready")
  case True
  then obtain e where e: "map_of (byName r) (bc_connName slot) = Some e" using assms(1) by (auto simp: slot_ok_def)
  with assms(2) have "bc_connName slot \<noteq> n" by auto
  with True e show ?thesis by (simp add: take_over_def after_demotion_def Let_def)
qed (simp add: take_over_def after_demotion_def)

lemma supersede_spec: "map_of (byName r) n = None \<Longrightarrow> supersede r k ch inc n rep = Some (rep, r)"
  by (simp add: supersede_def)

definition new_endpoint :: "BackendKey \<Rightarrow> u32 \<Rightarrow> u64 \<Rightarrow> int \<Rightarrow> string \<Rightarrow> nat option \<Rightarrow> ServiceEndpoint" where
  "new_endpoint k ch inc now n conn = \<lparr>ep_connName = n, ep_serviceId = bk_serviceId k, ep_zoneId = bk_zoneId k,
     ep_sceneId = bk_sceneId k, ep_channelId = ch, ep_sceneIncarnation = inc, ep_conn = conn, ep_registeredAtMs = now\<rparr>"

lemma new_endpoint_simps [simp]:
  "endpoint_key (new_endpoint k ch inc now n conn) = k" "ep_channelId (new_endpoint k ch inc now n conn) = ch"
  "ep_sceneIncarnation (new_endpoint k ch inc now n conn) = inc" "ep_serviceId (new_endpoint k ch inc now n conn) = bk_serviceId k"
  by (simp_all add: new_endpoint_def endpoint_key_def)

text \<open>Every record but the demoted one survives the installation of a fresh name.\<close>

lemma slot_ok_installed:
  assumes "slot_ok names k inc j c" and "map_of names n = None" and "bc_state c = Ready \<Longrightarrow> bc_connName c \<noteq> stale"
    and "map_of names' = (map_of names)(stale := x, n \<mapsto> e')"
  shows "slot_ok names' k inc j c"
  using assms by (auto simp: slot_ok_def)

lemma install_registry_ok:
  assumes ok: "registry_ok r" and pl: "map_of (backendConnPools r) k = Some pl" and i: "i < length (bp_channels pl)"
    and n: "map_of (byName r) n = None" "n \<noteq> []" and gen: "bk_serviceId k = kScene \<longleftrightarrow> inc \<noteq> 0"
    and same: "\<And>c. c \<in> set (bp_channels pl) \<Longrightarrow> bc_state c = Ready \<Longrightarrow> bc_sceneIncarnation c = inc"
    and slot': "bc_connName slot' = n" "bc_state slot' = Ready" "bc_sceneIncarnation slot' = inc" "bc_channelId slot' = word_of_nat i"
    and r3: "map_of (byName r3) = (after_demotion r (bp_channels pl ! i))(n \<mapsto> new_endpoint k (word_of_nat i) inc now n conn)"
      "map_of (pendingConn r3) = (map_of (pendingConn r))(n := None)"
      "map_of (backendConnPools r3) = (map_of (backendConnPools r))(k \<mapsto> pl\<lparr>bp_channels := (bp_channels pl)[i := slot'], bp_sceneIncarnation := inc\<rparr>)"
      "connPoolSize r3 = connPoolSize r"
  shows "registry_ok r3"
proof -
  let ?slot = "bp_channels pl ! i"
  define stale where "stale = (if bc_state ?slot = Ready then bc_connName ?slot else n)"
  have pok: "pool_ok (byName r) (connPoolSize r) k pl" by (rule registry_okD(3) [OF ok pl])
  then have len: "length (bp_channels pl) = unat (connPoolSize r)" by (simp add: pool_ok_def)
  have sok: "slot_ok (byName r) k (bp_sceneIncarnation pl) j (bp_channels pl ! j)" if "j < length (bp_channels pl)" for j
    using pok that by (auto simp: pool_ok_def)
  have ex: "\<exists>x. map_of (byName r3) = (map_of (byName r))(stale := x, n \<mapsto> new_endpoint k (word_of_nat i) inc now n conn) \<and>
      (\<forall>e. x = Some e \<longrightarrow> ep_serviceId e = 0)"
    using n(1) by (auto simp: r3(1) stale_def after_demotion_def)
  have other: "bc_connName c \<noteq> stale"
    if "slot_ok (byName r) k' inc' j c" "bc_state c = Ready" "k' \<noteq> k \<or> j \<noteq> i" "j < unat (connPoolSize r)" for k' inc' j c
    using that sok [OF i] n channel_inject [of i "connPoolSize r" j] i len by (auto simp: stale_def slot_ok_def)
  from ex obtain x where x: "map_of (byName r3) = (map_of (byName r))(stale := x, n \<mapsto> new_endpoint k (word_of_nat i) inc now n conn)"
    "\<And>e. x = Some e \<Longrightarrow> ep_serviceId e = 0" by blast
  note installed = slot_ok_installed [OF _ n(1) _ x(1)]
  show ?thesis unfolding registry_ok_def
  proof (intro conjI allI impI)
    show "connPoolSize r3 \<noteq> 0" using registry_okD(1) [OF ok] r3(4) by simp
  next
    fix m assume "map_of (pendingConn r3) m \<noteq> None"
    then have "m \<noteq> n" "m \<noteq> [] \<and> map_of (byName r) m = None"
      using registry_okD(2) [OF ok] by (auto simp: r3(2) split: if_splits)
    then show "m \<noteq> []" "map_of (byName r3) m = None" by (auto simp: r3(1) after_demotion_def)
  next
    fix k' pl' assume pl': "map_of (backendConnPools r3) k' = Some pl'"
    show "pool_ok (byName r3) (connPoolSize r3) k' pl'"
    proof (cases "k' = k")
      case False
      with pl' have "pool_ok (byName r) (connPoolSize r) k' pl'" using registry_okD(3) [OF ok] by (simp add: r3(3))
      with False other installed show ?thesis by (auto simp: pool_ok_def r3(4))
    next
      case True
      have "slot_ok (byName r3) k inc j ((bp_channels pl)[i := slot'] ! j)" if "j < length (bp_channels pl)" for j
      proof (cases "j = i")
        case True
        then show ?thesis using that slot' gen n(2) x(1) by (simp add: slot_ok_def)
      next
        case False
        with that have "slot_ok (byName r) k inc j (bp_channels pl ! j)"
          using sok [OF that] same [of "bp_channels pl ! j"] by (auto simp: slot_ok_def)
        with False that other len installed show ?thesis by simp
      qed
      with True pl' pok show ?thesis by (auto simp: pool_ok_def r3(3,4))
    qed
  next
    fix m e assume e: "map_of (byName r3) m = Some e" "ep_serviceId e \<noteq> 0"
    show "holds_slot (backendConnPools r3) m e"
    proof (cases "m = n")
      case True
      have "i < 2 ^ 32" using i len unat_u32_bound [of "connPoolSize r"] by simp
      then have "unat (word_of_nat i :: u32) = i" by (simp add: unat_of_nat)
      with True e(1) i slot' show ?thesis by (auto simp: x(1) holds_slot_def r3(3))
    next
      case False
      with e x(2) have m: "map_of (byName r) m = Some e" "m \<noteq> stale" by (auto simp: x(1) split: if_splits)
      obtain q where q: "map_of (backendConnPools r) (endpoint_key e) = Some q" "unat (ep_channelId e) < length (bp_channels q)"
        "bc_connName (bp_channels q ! unat (ep_channelId e)) = m" "bc_state (bp_channels q ! unat (ep_channelId e)) = Ready"
        using registry_okD(4) [OF ok m(1) e(2)] by (auto simp: holds_slot_def)
      show ?thesis
      proof (cases "endpoint_key e = k")
        case True
        with q(1) pl have "q = pl" by simp
        with q m(2) have "unat (ep_channelId e) \<noteq> i" by (auto simp: stale_def)
        with True q \<open>q = pl\<close> show ?thesis by (simp add: holds_slot_def r3(3))
      qed (use q in \<open>simp add: holds_slot_def r3(3)\<close>)
    qed
  qed
qed

lemma bind_registry_ok:
  assumes ok: "registry_ok r" and gen: "sid = kScene \<longleftrightarrow> inc \<noteq> 0"
  shows "registry_ok (snd (snd (registry_bind r n sid z sc ch inc now)))"
    and "sid \<noteq> 0 \<Longrightarrow> ch < connPoolSize r \<Longrightarrow> map_of (pendingConn r) n \<noteq> None \<Longrightarrow>
      fst (registry_bind r n sid z sc ch inc now) \<and>
      map_of (byName (snd (snd (registry_bind r n sid z sc ch inc now)))) n =
        Some (new_endpoint \<lparr>bk_serviceId = sid, bk_zoneId = z, bk_sceneId = sc\<rparr> ch inc now n (bc_conn (the (map_of (pendingConn r) n))))"
proof -
  let ?k = "\<lparr>bk_serviceId = sid, bk_zoneId = z, bk_sceneId = sc\<rparr>" and ?b = "registry_bind r n sid z sc ch inc now"
  have main: "registry_ok (snd (snd ?b)) \<and> fst ?b \<and> map_of (byName (snd (snd ?b))) n = Some (new_endpoint ?k ch inc now n (bc_conn p))"
    if h: "sid \<noteq> 0" "ch < connPoolSize r" and p: "map_of (pendingConn r) n = Some p" for p
  proof -
    obtain rep0 r1 where rg: "retire_generation r ?k n inc = (rep0, r1)" by force
    have k: "bk_serviceId ?k \<noteq> 0" and p': "map_of (pendingConn r) n \<noteq> None" using h p by simp_all
    obtain pl where r1: "registry_ok r1" "pendingConn r1 = pendingConn r" "connPoolSize r1 = connPoolSize r"
      and pl: "map_of (backendConnPools r1) ?k = Some pl"
        "\<And>c. c \<in> set (bp_channels pl) \<Longrightarrow> bc_state c = Ready \<Longrightarrow> bc_sceneIncarnation c = inc"
      using retire_generation_ok [OF ok k p', of r1 inc] rg gen by auto
    have nn: "n \<noteq> []" "map_of (byName r1) n = None" using registry_okD(2) [OF r1(1)] p' r1(2) by auto
    have pok: "pool_ok (byName r1) (connPoolSize r1) ?k pl" by (rule registry_okD(3) [OF r1(1) pl(1)])
    have i: "unat ch < length (bp_channels pl)" using pok h(2) r1(3) by (simp add: pool_ok_def word_less_nat_alt)
    let ?slot = "bp_channels pl ! unat ch"
    have "slot_ok (byName r1) ?k (bp_sceneIncarnation pl) (unat ch) ?slot" using pok i by (simp add: pool_ok_def)
    from take_over_spec [OF this nn(2), of rep0] obtain rep1 r2 where
      to: "take_over r1 ?k ?slot n rep0 = Some (rep1, r2)" and r2: "map_of (byName r2) = after_demotion r1 ?slot"
      "backendConnPools r2 = backendConnPools r1" "pendingConn r2 = pendingConn r1" "connPoolSize r2 = connPoolSize r1" by blast
    have "map_of (byName r2) n = None" using nn(2) by (auto simp: r2(1) after_demotion_def)
    note sup = supersede_spec [OF this]
    let ?r3 = "install_slot r2 ?k ch inc now n (bc_conn p)"
    have at: "pool_at r2 ?k = pl" using pl(1) r2(2) i by (auto simp: pool_at_def)
    have b: "?b = (True, rep1, ?r3)"
      using h p rg to sup pool_at_eq [OF r1(1) pl(1)] by (simp add: registry_bind_def Let_def not_le)
    have names: "map_of (byName ?r3) = (after_demotion r1 ?slot)(n \<mapsto> new_endpoint ?k ch inc now n (bc_conn p))"
      by (simp add: install_slot_def Let_def new_endpoint_def r2)
    have "bc_channelId ?slot = ch" using pok i by (simp add: pool_ok_def slot_ok_def)
    then have "registry_ok ?r3"
      using nn gen pl(2) names
      by (intro install_registry_ok [OF r1(1) pl(1) i, where n = n and inc = inc and now = now and conn = "bc_conn p" and
            slot' = "?slot\<lparr>bc_connName := n, bc_conn := bc_conn p, bc_state := Ready, bc_sceneIncarnation := inc,
               bc_connectionGeneration := bc_connectionGeneration ?slot + 1\<rparr>"])
        (simp_all add: install_slot_def Let_def at r2)
    with b names show ?thesis by simp
  qed
  have refused: "snd (snd ?b) = r" if "\<not> (sid \<noteq> 0 \<and> ch < connPoolSize r \<and> map_of (pendingConn r) n \<noteq> None)"
    using that by (auto simp: registry_bind_def not_less)
  show "registry_ok (snd (snd ?b))"
  proof (cases "sid \<noteq> 0 \<and> ch < connPoolSize r \<and> map_of (pendingConn r) n \<noteq> None")
    case True
    with main show ?thesis by auto
  qed (use refused ok in simp)
  show "sid \<noteq> 0 \<Longrightarrow> ch < connPoolSize r \<Longrightarrow> map_of (pendingConn r) n \<noteq> None \<Longrightarrow> fst ?b \<and>
      map_of (byName (snd (snd ?b))) n = Some (new_endpoint ?k ch inc now n (bc_conn (the (map_of (pendingConn r) n))))"
    using main by auto
qed

lemma AddPending_ok: "registry_ok r \<Longrightarrow> registry_ok (snd (AddPending r n c))"
  by (auto simp: AddPending_def registry_ok_def)

lemma SelectByScene_ok: "registry_ok r \<Longrightarrow> registry_ok (snd (SelectByScene r k))"
  by (auto simp: SelectByScene_def registry_ok_def Let_def split: option.splits)

lemma vacate_ok:
  assumes pok: "pool_ok names sz k pl" and i: "unat ch < length (bp_channels pl)"
    and n: "bc_connName (bp_channels pl ! unat ch) = n" "map_of names n = Some e" "endpoint_key e = k" "ep_channelId e = ch"
  shows "pool_ok (AList.delete n names) sz k (vacate pl n ch)"
    and "bp_channels (vacate pl n ch) = (bp_channels pl)[unat ch := empty_slot\<lparr>bc_channelId := ch,
      bc_connectionGeneration := bc_connectionGeneration (bp_channels pl ! unat ch) + 1\<rparr>]"
proof -
  let ?new = "empty_slot\<lparr>bc_channelId := ch, bc_connectionGeneration := bc_connectionGeneration (bp_channels pl ! unat ch) + 1\<rparr>"
  let ?cs = "(bp_channels pl)[unat ch := ?new]"
  show cs: "bp_channels (vacate pl n ch) = ?cs" using i n(1) by (simp add: vacate_def Let_def)
  have sok: "slot_ok names k (bp_sceneIncarnation pl) j (bp_channels pl ! j)" if "j < length (bp_channels pl)" for j
    using pok that by (simp add: pool_ok_def)
  have inc: "bp_sceneIncarnation (vacate pl n ch) = bp_sceneIncarnation pl"
    if "c \<in> set ?cs" "bc_state c = Ready" "bc_sceneIncarnation c = bp_sceneIncarnation pl" for c
    using that i n(1) by (auto simp: vacate_def Let_def)
  have "slot_ok (AList.delete n names) k (bp_sceneIncarnation (vacate pl n ch)) j (?cs ! j)" if j: "j < length (bp_channels pl)" for j
  proof (cases "j = unat ch")
    case True
    with j show ?thesis by (simp add: slot_ok_def empty_slot_def)
  next
    case False
    have "bc_connName (bp_channels pl ! j) \<noteq> n" if "bc_state (bp_channels pl ! j) = Ready"
    proof
      assume "bc_connName (bp_channels pl ! j) = n"
      with sok [OF j] that n(2,4) have "ch = word_of_nat j" by (auto simp: slot_ok_def)
      moreover have "j < 2 ^ 32" using j pok unat_u32_bound [of sz] by (simp add: pool_ok_def)
      ultimately show False using False by (simp add: unat_of_nat)
    qed
    moreover have "bp_channels pl ! j \<in> set ?cs"
      using False j by (metis length_list_update nth_list_update_neq nth_mem)
    ultimately show ?thesis using sok [OF j] inc [of "bp_channels pl ! j"] False by (auto simp: slot_ok_def)
  qed
  with pok cs show "pool_ok (AList.delete n names) sz k (vacate pl n ch)" by (simp add: pool_ok_def)
qed

lemma pool_ok_delete_other:
  assumes "pool_ok names sz k pl" and "map_of names n = Some e" and "endpoint_key e \<noteq> k"
  shows "pool_ok (AList.delete n names) sz k pl"
  using assms by (fastforce simp: pool_ok_def slot_ok_def)

lemma RemoveByName_ok:
  assumes ok: "registry_ok r"
  shows "registry_ok (snd (RemoveByName r n))"
proof (cases "map_of (pendingConn r) n")
  case (Some p)
  then show ?thesis using ok by (auto simp: RemoveByName_def registry_ok_def)
next
  case None
  show ?thesis
  proof (cases "map_of (byName r) n")
    case None
    with \<open>map_of (pendingConn r) n = None\<close> ok show ?thesis by (simp add: RemoveByName_def)
  next
    case (Some e)
    note rm = \<open>map_of (pendingConn r) n = None\<close> Some
    show ?thesis
    proof (cases "ep_serviceId e = 0")
      case True
      have "pool_ok (AList.delete n (byName r)) (connPoolSize r) k pl" if "map_of (backendConnPools r) k = Some pl" for k pl
        using registry_okD(3) [OF ok that] Some True endpoint_key_service [of e k]
        by (intro pool_ok_delete_other) (auto simp: pool_ok_def)
      with ok rm True show ?thesis by (auto simp: RemoveByName_def registry_ok_def)
    next
      case False
      let ?k = "endpoint_key e" and ?ch = "ep_channelId e"
      obtain pl where pl: "map_of (backendConnPools r) ?k = Some pl" "unat ?ch < length (bp_channels pl)"
        "bc_connName (bp_channels pl ! unat ?ch) = n"
        using registry_okD(4) [OF ok Some False] by (auto simp: holds_slot_def)
      note v = vacate_ok [OF registry_okD(3) [OF ok pl(1)] pl(2,3) Some refl refl]
      define r' where "r' = snd (RemoveByName r n)"
      have r': "byName r' = AList.delete n (byName r)" "pendingConn r' = pendingConn r" "connPoolSize r' = connPoolSize r"
        "map_of (backendConnPools r') = (map_of (backendConnPools r))(?k \<mapsto> vacate pl n ?ch)"
        using rm False pl(1) by (simp_all add: r'_def RemoveByName_def Let_def)
      have "holds_slot (backendConnPools r') m x" if m: "map_of (byName r') m = Some x" "ep_serviceId x \<noteq> 0" for m x
      proof -
        from m(1) have x: "map_of (byName r) m = Some x" "m \<noteq> n" by (auto simp: r'(1) split: if_splits)
        obtain q where q: "map_of (backendConnPools r) (endpoint_key x) = Some q" "unat (ep_channelId x) < length (bp_channels q)"
          "bc_connName (bp_channels q ! unat (ep_channelId x)) = m" "bc_state (bp_channels q ! unat (ep_channelId x)) = Ready"
          using registry_okD(4) [OF ok x(1) m(2)] by (auto simp: holds_slot_def)
        show ?thesis
        proof (cases "endpoint_key x = ?k")
          case True
          with q(1) pl(1) have "q = pl" by simp
          with q(3) pl(3) x(2) have "unat (ep_channelId x) \<noteq> unat ?ch" by auto
          with True q \<open>q = pl\<close> show ?thesis by (simp add: holds_slot_def r'(4) v(2))
        qed (use q in \<open>simp add: holds_slot_def r'(4)\<close>)
      qed
      moreover have "pool_ok (byName r') (connPoolSize r') k q" if "map_of (backendConnPools r') k = Some q" for k q
        using that v(1) registry_okD(3) [OF ok] pool_ok_delete_other [OF _ Some]
        by (auto simp: r' split: if_splits)
      ultimately have "registry_ok r'" using ok by (auto simp: registry_ok_def r'(1,2,3))
      then show ?thesis by (simp add: r'_def)
    qed
  qed
qed

section \<open>Runs\<close>

datatype registry_op = GAdd string "nat option" | GBind string u8 u32 u32 u32 u64 int | GSelect BackendKey | GRemove string

fun registry_step :: "registry_op \<Rightarrow> ServiceRegistry \<Rightarrow> ServiceRegistry" where
  "registry_step (GAdd n c) r = snd (AddPending r n c)"
| "registry_step (GBind n sid z sc ch inc now) r = snd (snd (registry_bind r n sid z sc ch inc now))"
| "registry_step (GSelect k) r = snd (SelectByScene r k)"
| "registry_step (GRemove n) r = snd (RemoveByName r n)"

definition registry_run :: "registry_op list \<Rightarrow> ServiceRegistry \<Rightarrow> ServiceRegistry" where
  "registry_run ops r = fold registry_step ops r"

text \<open>What \<open>ValidBackendHandshake\<close> guarantees of every bind: scenes carry an incarnation, other services none.\<close>

fun op_valid :: "registry_op \<Rightarrow> bool" where
  "op_valid (GBind n sid z sc ch inc now) = (sid = kScene \<longleftrightarrow> inc \<noteq> 0)"
| "op_valid _ = True"

lemma registry_step_ok: "op_valid op \<Longrightarrow> registry_ok r \<Longrightarrow> registry_ok (registry_step op r)"
  by (cases op) (simp_all add: AddPending_ok bind_registry_ok SelectByScene_ok RemoveByName_ok)

lemma new_registry_ok: "registry_ok (new_registry n)"
proof -
  have "(1 :: u32) \<le> max n 1" by simp
  then have "max n 1 \<noteq> 0" by (metis word_le_0_iff zero_neq_one)
  then show ?thesis by (simp add: registry_ok_def new_registry_def)
qed

lemma registry_run_ok: "list_all op_valid ops \<Longrightarrow> registry_ok r \<Longrightarrow> registry_ok (registry_run ops r)"
  by (induction ops arbitrary: r) (simp_all add: registry_run_def registry_step_ok)

lemma GetPool_member:
  assumes "registry_ok r" and "e \<in> set (GetPool r k)"
  shows "endpoint_key e = k" and "\<exists>pl. map_of (backendConnPools r) k = Some pl \<and> ep_sceneIncarnation e = bp_sceneIncarnation pl"
proof -
  from assms(2) obtain pl c where pl: "map_of (backendConnPools r) k = Some pl" and c: "c \<in> set (bp_channels pl)"
    "eligible pl c" "map_of (byName r) (bc_connName c) = Some e"
    by (cases "map_of (backendConnPools r) k") (auto simp: GetPool_def List.map_filter_def split: if_splits)
  moreover from this have "bc_state c = Ready" by (simp add: eligible_def)
  ultimately show "endpoint_key e = k" "\<exists>pl. map_of (backendConnPools r) k = Some pl \<and> ep_sceneIncarnation e = bp_sceneIncarnation pl"
    using registry_okD(3) [OF assms(1) pl] by (auto simp: pool_ok_def slot_ok_def in_set_conv_nth)
qed

section \<open>Round robin\<close>

definition ready_channels :: "ServiceRegistry \<Rightarrow> BackendKey \<Rightarrow> BackendConn list" where
  "ready_channels r k = (case map_of (backendConnPools r) k of None \<Rightarrow> []
     | Some pool \<Rightarrow> filter (\<lambda>c. bc_conn c \<noteq> None \<and> eligible pool c) (bp_channels pool))"

definition round_robin_counter :: "ServiceRegistry \<Rightarrow> BackendKey \<Rightarrow> u64" where
  "round_robin_counter r k = (case map_of (nextRoundRobin r) k of None \<Rightarrow> 0 | Some v \<Rightarrow> v)"

fun select_many :: "nat \<Rightarrow> ServiceRegistry \<Rightarrow> BackendKey \<Rightarrow> ServiceEndpoint option list" where
  "select_many 0 r k = []"
| "select_many (Suc n) r k = (case SelectByScene r k of (e, r') \<Rightarrow> e # select_many n r' k)"

lemma SelectByScene_eq:
  assumes "ready_channels r k \<noteq> []"
  shows "SelectByScene r k = (map_of (byName r) (bc_connName (ready_channels r k !
      unat (round_robin_counter r k mod word_of_nat (length (ready_channels r k))))),
    r\<lparr>nextRoundRobin := AList.update k (round_robin_counter r k + 1) (nextRoundRobin r)\<rparr>)"
  using assms by (auto simp: SelectByScene_def ready_channels_def round_robin_counter_def Let_def split: option.splits)

lemma ready_channels_length: "registry_ok r \<Longrightarrow> length (ready_channels r k) < 2 ^ 32"
  using registry_okD(3) [of r k] unat_u32_bound [of "connPoolSize r"]
  by (auto simp: ready_channels_def pool_ok_def split: option.splits intro: le_less_trans [OF length_filter_le])

lemma select_many_nth:
  assumes "ready_channels r k \<noteq> []" and "length (ready_channels r k) < 2 ^ 32" and "unat (round_robin_counter r k) + n < 2 ^ 64"
  shows "select_many n r k = map (\<lambda>j. map_of (byName r) (bc_connName (ready_channels r k !
      ((unat (round_robin_counter r k) + j) mod length (ready_channels r k))))) [0..<n]"
  using assms
proof (induction n arbitrary: r)
  case 0
  then show ?case by simp
next
  case (Suc n)
  let ?xs = "ready_channels r k" and ?c = "round_robin_counter r k"
  define r' where "r' = r\<lparr>nextRoundRobin := AList.update k (?c + 1) (nextRoundRobin r)\<rparr>"
  have same: "ready_channels r' k = ?xs" "byName r' = byName r" "round_robin_counter r' k = ?c + 1"
    by (simp_all add: r'_def ready_channels_def round_robin_counter_def)
  have c': "unat (?c + 1) = unat ?c + 1" using Suc.prems(3) by (simp add: unat_word_ariths)
  have "unat (word_of_nat (length ?xs) :: u64) = length ?xs" using Suc.prems(2) by (simp add: unat_of_nat)
  then have m: "unat (?c mod word_of_nat (length ?xs)) = unat ?c mod length ?xs" by (simp add: unat_mod)
  have "select_many n r' k = map (\<lambda>j. map_of (byName r) (bc_connName (?xs ! ((unat ?c + 1 + j) mod length ?xs)))) [0..<n]"
    using Suc.IH [of r'] Suc.prems by (simp add: same c')
  then show ?case using SelectByScene_eq [OF Suc.prems(1)] m
    by (simp add: r'_def [symmetric] upt_conv_Cons map_Suc_upt [symmetric] del: upt_Suc map_Suc_upt)
qed

section \<open>Properties of the registry\<close>

text \<open>
  Selection is fair: as many consecutive selections as a scene has connected channels visit
  each of them exactly once, in the order of the pool rotated by the counter, as long as the
  64-bit counter does not wrap in between.
\<close>

theorem round_robin_visits_every_channel:
  assumes "registry_ok r" and "unat (round_robin_counter r k) + length (ready_channels r k) < 2 ^ 64"
  shows "select_many (length (ready_channels r k)) r k =
    rotate (unat (round_robin_counter r k)) (map (\<lambda>c. map_of (byName r) (bc_connName c)) (ready_channels r k))"
proof (cases "ready_channels r k = []")
  case False
  show ?thesis
  proof (rule nth_equalityI)
    fix j assume "j < length (select_many (length (ready_channels r k)) r k)"
    then have "j < length (ready_channels r k)"
      by (simp add: select_many_nth [OF False ready_channels_length [OF assms(1)] assms(2)])
    then show "select_many (length (ready_channels r k)) r k ! j = rotate (unat (round_robin_counter r k))
        (map (\<lambda>c. map_of (byName r) (bc_connName c)) (ready_channels r k)) ! j"
      using False by (simp add: select_many_nth [OF False ready_channels_length [OF assms(1)] assms(2)] nth_rotate)
  qed (simp add: select_many_nth [OF False ready_channels_length [OF assms(1)] assms(2)])
qed simp

theorem round_robin_visits_every_channel_witness:
  "select_many 2 (registry_run [GAdd ''a'' (Some 1), GBind ''a'' kScene 1 2 0 9 5, GAdd ''b'' (Some 2), GBind ''b'' kScene 1 2 1 9 5]
      (new_registry 2)) \<lparr>bk_serviceId = kScene, bk_zoneId = 1, bk_sceneId = 2\<rparr> =
   (let r = registry_run [GAdd ''a'' (Some 1), GBind ''a'' kScene 1 2 0 9 5, GAdd ''b'' (Some 2), GBind ''b'' kScene 1 2 1 9 5] (new_registry 2)
    in [GetByName r ''a'', GetByName r ''b''])"
proof -
  let ?ops = "[GAdd ''a'' (Some 1), GBind ''a'' kScene 1 2 0 9 5, GAdd ''b'' (Some 2), GBind ''b'' kScene 1 2 1 9 5]"
  let ?r = "registry_run ?ops (new_registry 2)" and ?k = "\<lparr>bk_serviceId = kScene, bk_zoneId = 1, bk_sceneId = 2\<rparr>"
  have ok: "registry_ok ?r" by (rule registry_run_ok [OF _ new_registry_ok]) code_simp
  have l: "length (ready_channels ?r ?k) = 2" "round_robin_counter ?r ?k = 0" by code_simp+
  have "map (\<lambda>c. map_of (byName ?r) (bc_connName c)) (ready_channels ?r ?k) = [GetByName ?r ''a'', GetByName ?r ''b'']" by code_simp
  with round_robin_visits_every_channel [OF ok, of ?k] l show ?thesis by (simp add: Let_def)
qed




text \<open>
  A restarted scene process takes over completely: after a successful handshake with an
  incarnation, every endpoint the pool of that scene offers belongs to that incarnation, so
  channels of the old and the new process are never selectable together, and the new connection is
  registered under the identity it reported.
\<close>

theorem restart_retires_old_generation:
  assumes "registry_ok r" and "inc \<noteq> 0" and "ch < connPoolSize r" and "map_of (pendingConn r) n \<noteq> None"
    and "registry_bind r n kScene z sc ch inc now = (ok, old, r')"
  shows "ok \<and> (\<forall>e \<in> set (GetPool r' \<lparr>bk_serviceId = kScene, bk_zoneId = z, bk_sceneId = sc\<rparr>). ep_sceneIncarnation e = inc) \<and>
    (\<exists>e. GetByName r' n = Some e \<and> endpoint_key e = \<lparr>bk_serviceId = kScene, bk_zoneId = z, bk_sceneId = sc\<rparr> \<and>
         ep_channelId e = ch \<and> ep_sceneIncarnation e = inc)"
proof -
  let ?k = "\<lparr>bk_serviceId = kScene, bk_zoneId = z, bk_sceneId = sc\<rparr>"
  have gen: "kScene = kScene \<longleftrightarrow> inc \<noteq> 0" using assms(2) by simp
  note b = bind_registry_ok [OF assms(1) gen, where n = n and z = z and sc = sc and ch = ch and now = now]
  have r': "registry_ok r'" "ok" "map_of (byName r') n = Some (new_endpoint ?k ch inc now n (bc_conn (the (map_of (pendingConn r) n))))"
    using b assms(3,4,5) by auto
  have "holds_slot (backendConnPools r') n (new_endpoint ?k ch inc now n (bc_conn (the (map_of (pendingConn r) n))))"
    using registry_okD(4) [OF r'(1,3)] by simp
  then obtain pl where pl: "map_of (backendConnPools r') ?k = Some pl" "unat ch < length (bp_channels pl)"
    "bc_connName (bp_channels pl ! unat ch) = n" "bc_state (bp_channels pl ! unat ch) = Ready"
    by (auto simp: holds_slot_def)
  then have "bp_sceneIncarnation pl = inc"
    using registry_okD(3) [OF r'(1) pl(1)] r'(3) by (auto simp: pool_ok_def slot_ok_def)
  with pl(1) GetPool_member(2) [OF r'(1)] have "\<forall>e \<in> set (GetPool r' ?k). ep_sceneIncarnation e = inc" by fastforce
  with r' show ?thesis by (auto simp: GetByName_def)
qed

theorem restart_retires_old_generation_witness:
  "let r = registry_run [GAdd ''a'' (Some 1), GBind ''a'' kScene 1 2 0 9 5, GAdd ''b'' (Some 2)] (new_registry 2)
   in fst (registry_bind r ''b'' kScene 1 2 1 10 6)"
proof -
  let ?ops = "[GAdd ''a'' (Some 1), GBind ''a'' kScene 1 2 0 9 5, GAdd ''b'' (Some 2)]"
  let ?r = "registry_run ?ops (new_registry 2)"
  have "registry_ok ?r" by (rule registry_run_ok [OF _ new_registry_ok]) code_simp
  moreover have "1 < connPoolSize ?r" "map_of (pendingConn ?r) ''b'' \<noteq> None" by code_simp+
  ultimately show ?thesis
    using restart_retires_old_generation [of ?r 10 1 "''b''" 1 2 6] by (cases "registry_bind ?r ''b'' kScene 1 2 1 10 6") (simp add: Let_def)
qed

text \<open>
  A restart reports at most one replaced connection: when two channels of the old process are
  connected, both are stripped of their identity by the first handshake of the new process, but only
  one of their names is handed to the caller for closing; the other connection stays open
  without an identity.
\<close>

theorem restart_reports_one_of_two_connections:
  "let r = registry_run [GAdd ''a'' (Some 1), GBind ''a'' kScene 1 2 0 9 5, GAdd ''b'' (Some 2), GBind ''b'' kScene 1 2 1 9 5,
         GAdd ''c'' (Some 3)] (new_registry 2);
       (ok, old, r') = registry_bind r ''c'' kScene 1 2 0 10 6
   in ok \<and> old = ''a'' \<and> map_option ep_serviceId (GetByName r' ''a'') = Some 0 \<and> map_option ep_serviceId (GetByName r' ''b'') = Some 0 \<and>
      map_option ep_serviceId (GetByName r ''b'') = Some kScene"
  by code_simp

end
