(* ===== verification/ReturnRoutes.thy ===== *)
theory ReturnRoutes
  imports Prelude
begin

text \<open>
  The gateway's table of return routes, gatewayServer/returnRoute.h and returnRoute.cc: the gateway
  replaces the request id of a client by a sequence number of its own and remembers here where the
  answer of the backend has to go. All operations of the table are modelled; its mutex makes each
  of them one step.
\<close>

section \<open>State and operations\<close>

record ReturnRoute =
  rr_internalSeq :: u64
  rr_clientSessionId :: u64
  rr_clientRequestId :: u64
  rr_backendServiceId :: u8
  rr_backendZoneId :: u32
  rr_backendSceneId :: u32
  rr_backendChannelId :: u32
  rr_backendSceneIncarnation :: u64
  rr_backendConnName :: string
  rr_playerId :: u64
  rr_module :: u16
  rr_method :: u16
  rr_sessionEpoch :: u32
  rr_createdAtMs :: int

type_synonym ReturnRouteTable = "(u64, ReturnRoute) umap"

definition route_add :: "ReturnRouteTable \<Rightarrow> ReturnRoute \<Rightarrow> nat \<Rightarrow> bool \<times> ReturnRouteTable" where
  "route_add t r maxSize =
     (if rr_internalSeq r = 0 then (False, t)
      else if length t \<ge> maxSize then (False, t)
      else (True, AList.update (rr_internalSeq r) r t))"

definition route_take :: "ReturnRouteTable \<Rightarrow> u64 \<Rightarrow> ReturnRoute option \<times> ReturnRouteTable" where
  "route_take t seq = (case map_of t seq of None \<Rightarrow> (None, t) | Some r \<Rightarrow> (Some r, AList.delete seq t))"

definition route_get :: "ReturnRouteTable \<Rightarrow> u64 \<Rightarrow> ReturnRoute option" where
  "route_get t seq = map_of t seq"

definition EraseBySession :: "ReturnRouteTable \<Rightarrow> u64 \<Rightarrow> nat \<times> ReturnRouteTable" where
  "EraseBySession t sid =
     (let gone = filter (\<lambda>(_, r). rr_clientSessionId r = sid) t
      in (length gone, filter (\<lambda>(_, r). rr_clientSessionId r \<noteq> sid) t))"

definition expired :: "int \<Rightarrow> u32 \<Rightarrow> ReturnRoute \<Rightarrow> bool" where
  "expired nowMs ttlMs r \<longleftrightarrow> nowMs - rr_createdAtMs r > uint ttlMs"

definition Sweep :: "ReturnRouteTable \<Rightarrow> int \<Rightarrow> u32 \<Rightarrow> nat \<times> ReturnRouteTable" where
  "Sweep t nowMs ttlMs =
     (length (filter (\<lambda>(_, r). expired nowMs ttlMs r) t), filter (\<lambda>(_, r). \<not> expired nowMs ttlMs r) t)"

definition SweepExpired :: "ReturnRouteTable \<Rightarrow> int \<Rightarrow> u32 \<Rightarrow> ReturnRoute list \<times> ReturnRouteTable" where
  "SweepExpired t nowMs ttlMs =
     (map snd (filter (\<lambda>(_, r). expired nowMs ttlMs r) t), filter (\<lambda>(_, r). \<not> expired nowMs ttlMs r) t)"

definition route_size :: "ReturnRouteTable \<Rightarrow> nat" where
  "route_size t = length t"

section \<open>Runs\<close>

datatype route_op = RAdd ReturnRoute nat | RTake u64 | REraseBySession u64 | RSweep int u32 | RSweepExpired int u32

fun route_step :: "route_op \<Rightarrow> ReturnRouteTable \<Rightarrow> ReturnRouteTable" where
  "route_step (RAdd r n) t = snd (route_add t r n)"
| "route_step (RTake seq) t = snd (route_take t seq)"
| "route_step (REraseBySession sid) t = snd (EraseBySession t sid)"
| "route_step (RSweep now ttl) t = snd (Sweep t now ttl)"
| "route_step (RSweepExpired now ttl) t = snd (SweepExpired t now ttl)"

definition route_run :: "route_op list \<Rightarrow> ReturnRouteTable \<Rightarrow> ReturnRouteTable" where
  "route_run ops t = fold route_step ops t"

text \<open>No operation of the run registers the sequence number \<open>seq\<close>, respectively none admits more
  than \<open>n\<close> routes.\<close>

fun adds_seq :: "u64 \<Rightarrow> route_op \<Rightarrow> bool" where
  "adds_seq seq (RAdd r n) = (rr_internalSeq r = seq)"
| "adds_seq seq _ = False"

fun within_limit :: "nat \<Rightarrow> route_op \<Rightarrow> bool" where
  "within_limit n (RAdd r m) = (m \<le> n)"
| "within_limit n _ = True"

lemma route_step_ok [inv_intros]: "umap_ok t \<Longrightarrow> umap_ok (route_step op t)"
  by (cases op) (auto simp: route_add_def route_take_def EraseBySession_def Sweep_def SweepExpired_def Let_def
      split: option.splits)

lemma route_run_ok: "umap_ok t \<Longrightarrow> umap_ok (route_run ops t)"
  by (induction ops arbitrary: t) (simp_all add: route_run_def route_step_ok)

lemma route_step_bound: "within_limit n op \<Longrightarrow> length t \<le> n \<Longrightarrow> length (route_step op t) \<le> n"
proof (cases op)
  case (RAdd r m)
  assume "within_limit n op" "length t \<le> n"
  with RAdd length_update_le [of "rr_internalSeq r" r t] show ?thesis by (auto simp: route_add_def)
next
  case (RTake seq)
  assume "length t \<le> n"
  with RTake length_delete_le [of seq t] show ?thesis by (auto simp: route_take_def split: option.splits)
qed (auto simp: EraseBySession_def Sweep_def SweepExpired_def Let_def intro: le_trans [OF length_filter_le])

lemma route_run_bound: "list_all (within_limit n) ops \<Longrightarrow> length t \<le> n \<Longrightarrow> length (route_run ops t) \<le> n"
  by (induction ops arbitrary: t) (simp_all add: route_run_def route_step_bound)

lemma route_step_keeps:
  assumes "umap_ok t" and "\<not> adds_seq seq op" and "map_of t seq = None \<or> map_of t seq = Some r"
  shows "map_of (route_step op t) seq = None \<or> map_of (route_step op t) seq = map_of t seq"
  using assms
  by (cases op) (auto simp: route_add_def route_take_def EraseBySession_def Sweep_def SweepExpired_def Let_def
      map_of_filter_ok split: option.splits)

lemma route_run_keeps:
  assumes "umap_ok t" and "list_all (\<lambda>op. \<not> adds_seq seq op) ops"
  shows "map_of (route_run ops t) seq = None \<or> map_of (route_run ops t) seq = map_of t seq"
  using assms
proof (induction ops arbitrary: t)
  case (Cons op ops)
  have "map_of (route_step op t) seq = None \<or> map_of (route_step op t) seq = map_of t seq"
    using route_step_keeps [of t seq op] Cons.prems by (cases "map_of t seq") auto
  then show ?case using Cons.IH [of "route_step op t"] Cons.prems by (auto simp: route_run_def route_step_ok)
qed (simp add: route_run_def)

section \<open>Properties of the return-route table\<close>

text \<open>
  A request is answered at most once and to its own sender: after a route was registered, and as
  long as its sequence number is not registered again, any lookup or take returns either
  nothing or exactly that route, and once it has been taken every later take fails,
  whatever other operations run in between.
\<close>

theorem return_route_taken_once:
  assumes "umap_ok t" and "route_add t r maxSize = (True, t1)"
    and "list_all (\<lambda>op. \<not> adds_seq (rr_internalSeq r) op) (ops1 @ ops2)"
    and "route_take (route_run ops1 t1) (rr_internalSeq r) = (Some r', t2)"
  shows "r' = r \<and> route_take (route_run ops2 t2) (rr_internalSeq r) = (None, route_run ops2 t2)"
proof -
  let ?q = "rr_internalSeq r" and ?m = "route_run ops1 t1"
  have t1: "umap_ok t1" "map_of t1 ?q = Some r" using assms(1,2) by (auto simp: route_add_def split: if_splits)
  have m: "umap_ok ?m" "map_of ?m ?q = None \<or> map_of ?m ?q = Some r"
    using route_run_ok [OF t1(1)] route_run_keeps [OF t1(1), of ?q ops1] t1(2) assms(3) by auto
  with assms(4) have "r' = r" "umap_ok t2" "map_of t2 ?q = None" by (auto simp: route_take_def split: option.splits)
  with route_run_keeps [of t2 ?q ops2] assms(3) show ?thesis by (simp add: route_take_def)
qed

definition sample_route :: ReturnRoute where
  "sample_route = \<lparr>rr_internalSeq = 9, rr_clientSessionId = 1, rr_clientRequestId = 4, rr_backendServiceId = 8,
     rr_backendZoneId = 1, rr_backendSceneId = 1, rr_backendChannelId = 0, rr_backendSceneIncarnation = 7,
     rr_backendConnName = ''scene'', rr_playerId = 42, rr_module = 5, rr_method = 6, rr_sessionEpoch = 1,
     rr_createdAtMs = 100\<rparr>"

theorem return_route_taken_once_witness:
  "fst (route_take (route_run [RSweep 120 60] [(9, sample_route)]) 9) = Some sample_route \<and>
   fst (route_take (route_run [RTake 9] []) 9) = None"
proof -
  have 1: "route_add [] sample_route 10 = (True, [(9, sample_route)])" by code_simp
  have 2: "list_all (\<lambda>op. \<not> adds_seq (rr_internalSeq sample_route) op) ([RSweep 120 60] @ [RTake 9])" by code_simp
  have 3: "route_take (route_run [RSweep 120 60] [(9, sample_route)]) (rr_internalSeq sample_route) = (Some sample_route, [])"
    by code_simp
  from return_route_taken_once [OF _ 1 2 3] 3 show ?thesis by (simp add: sample_route_def)
qed

text \<open>
  The table is bounded: if no registration asks for a limit above \<open>n\<close>, the table never holds more
  than \<open>n\<close> routes, in any interleaving of its operations.
\<close>

theorem return_routes_bounded:
  assumes "list_all (within_limit n) ops"
  shows "route_size (route_run ops []) \<le> n"
  using route_run_bound [OF assms] by (simp add: route_size_def)

theorem return_routes_bounded_witness:
  "route_size (route_run [RAdd sample_route 1, RAdd (sample_route\<lparr>rr_internalSeq := 10\<rparr>) 1] []) \<le> 1"
  by (rule return_routes_bounded) simp

text \<open>
  A sweep partitions the table: it returns exactly the expired routes, keeps exactly the others
  unchanged, and the two sweeps of the code agree on the count and on the remaining table.
\<close>

theorem sweep_partitions:
  "umap_ok t \<Longrightarrow>
     set (fst (SweepExpired t now ttl)) = {r. expired now ttl r \<and> (\<exists>q. route_get t q = Some r)} \<and>
     (\<forall>q. route_get (snd (SweepExpired t now ttl)) q =
        (case route_get t q of None \<Rightarrow> None | Some r \<Rightarrow> if expired now ttl r then None else Some r)) \<and>
     length (fst (SweepExpired t now ttl)) + route_size (snd (SweepExpired t now ttl)) = route_size t \<and>
     Sweep t now ttl = (length (fst (SweepExpired t now ttl)), snd (SweepExpired t now ttl))"
proof (intro conjI)
  assume ok: "umap_ok t"
  show "set (fst (SweepExpired t now ttl)) = {r. expired now ttl r \<and> (\<exists>q. route_get t q = Some r)}"
    using umap_mem_iff [OF ok] by (force simp: SweepExpired_def route_get_def image_iff)
  show "\<forall>q. route_get (snd (SweepExpired t now ttl)) q =
        (case route_get t q of None \<Rightarrow> None | Some r \<Rightarrow> if expired now ttl r then None else Some r)"
    using ok by (auto simp: SweepExpired_def route_get_def map_of_filter_ok split: option.splits)
  have "length (filter P t) + length (filter (\<lambda>x. \<not> P x) t) = length t" for P
    by (rule sum_length_filter_compl)
  from this [of "\<lambda>(_, r). expired now ttl r"]
  show "length (fst (SweepExpired t now ttl)) + route_size (snd (SweepExpired t now ttl)) = route_size t"
    by (simp add: SweepExpired_def route_size_def case_prod_unfold)
qed (simp add: Sweep_def SweepExpired_def)

theorem sweep_partitions_witness:
  "fst (SweepExpired [(9, sample_route)] 200 60) = [sample_route] \<and>
   length (fst (SweepExpired [(9, sample_route)] 200 60)) + route_size (snd (SweepExpired [(9, sample_route)] 200 60)) = 1"
proof -
  have "fst (SweepExpired [(9, sample_route)] 200 60) = [sample_route]" by code_simp
  with sweep_partitions [of "[(9, sample_route)]" 200 60] show ?thesis by (simp add: umap_ok_def route_size_def)
qed

end
