(* ===== verification/GatewayPlayer.thy ===== *)
theory GatewayPlayer
  imports Prelude
begin

text \<open>
  The player envelope between gateway and scene server and the scene side's index of client
  bindings, zone_common/base/gatewayPlayer.h. The index keeps, per connection, the bindings of its
  players, the reverse map from player to connection, and the newest binding ever accepted per
  player, which survives going offline and acts as a watermark.
\<close>

section \<open>Envelope\<close>

record ClientData =
  cd_playerId :: u64
  cd_clientSession :: u64
  cd_clientEpoch :: u32
  cd_gatewayId :: u32
  cd_sceneId :: u32

definition SameClientBinding :: "ClientData \<Rightarrow> ClientData \<Rightarrow> bool" where
  "SameClientBinding a b \<longleftrightarrow> cd_playerId a = cd_playerId b \<and> cd_clientSession a = cd_clientSession b \<and>
     cd_clientEpoch a = cd_clientEpoch b \<and> cd_gatewayId a = cd_gatewayId b \<and> cd_sceneId a = cd_sceneId b"

definition kEnvelopeSize :: nat where [simp]: "kEnvelopeSize = 32"

definition ValidClientData :: "ClientData \<Rightarrow> bool" where
  "ValidClientData d \<longleftrightarrow> cd_playerId d \<noteq> 0 \<and> cd_clientSession d \<noteq> 0 \<and> cd_clientEpoch d \<noteq> 0 \<and>
     cd_gatewayId d \<noteq> 0 \<and> cd_sceneId d \<noteq> 0"

text \<open>\<open>Put\<close> and \<open>Get\<close> go through a 64-bit value, whatever the width of the field.\<close>

definition Put :: "bytes \<Rightarrow> u64 \<Rightarrow> nat \<Rightarrow> bytes" where
  "Put s v n = s @ put_le n v"

definition Get :: "bytes \<Rightarrow> nat \<Rightarrow> nat \<Rightarrow> u64" where
  "Get s pos n = get_le (slice pos n s)"

definition Pack :: "ClientData \<Rightarrow> bytes \<Rightarrow> bytes" where
  "Pack d payload =
     (let s = Put (Put [] 0x4750 2) 1 2;
          s = Put (Put (Put s (cd_playerId d) 8) (cd_clientSession d) 8) (ucast (cd_clientEpoch d)) 4;
          s = Put (Put s (ucast (cd_gatewayId d)) 4) (ucast (cd_sceneId d)) 4
      in s @ payload)"

definition Unpack :: "bytes \<Rightarrow> (ClientData \<times> bytes) option" where
  "Unpack s =
     (if length s < kEnvelopeSize \<or> Get s 0 2 \<noteq> 0x4750 \<or> Get s 2 2 \<noteq> 1 then None
      else
        (let d = \<lparr>cd_playerId = Get s 4 8, cd_clientSession = Get s 12 8, cd_clientEpoch = ucast (Get s 20 4),
               cd_gatewayId = ucast (Get s 24 4), cd_sceneId = ucast (Get s 28 4)\<rparr>
         in if ValidClientData d then Some (d, drop kEnvelopeSize s) else None))"

section \<open>Index of bindings\<close>

record GatewayClientIndex =
  byConnection :: "(u64, (u64, ClientData) umap) umap"
  connectionByPlayer :: "(u64, u64) umap"
  latest :: "(u64, ClientData) umap"

definition empty_index :: GatewayClientIndex where
  "empty_index = \<lparr>byConnection = [], connectionByPlayer = [], latest = []\<rparr>"

text \<open>\<open>byConnection_[c]\<close>: the entry, created empty when it is missing.\<close>

definition entry :: "('k, ('a, 'b) umap) umap \<Rightarrow> 'k \<Rightarrow> ('a, 'b) umap" where
  "entry m c = (case map_of m c of None \<Rightarrow> [] | Some x \<Rightarrow> x)"

definition install :: "GatewayClientIndex \<Rightarrow> u64 \<Rightarrow> ClientData \<Rightarrow> GatewayClientIndex" where
  "install s connection d =
     (let p = cd_playerId d;
          by1 = (case map_of (connectionByPlayer s) p of
                   None \<Rightarrow> byConnection s
                 | Some c \<Rightarrow> AList.update c (AList.delete p (entry (byConnection s) c)) (byConnection s))
      in \<lparr>byConnection = AList.update connection (AList.update p d (entry by1 connection)) by1,
          connectionByPlayer = AList.update p connection (connectionByPlayer s),
          latest = AList.update p d (latest s)\<rparr>)"

definition Bind_client :: "GatewayClientIndex \<Rightarrow> u64 \<Rightarrow> ClientData \<Rightarrow> bool \<times> GatewayClientIndex" where
  "Bind_client s connection d =
     (if connection = 0 \<or> \<not> ValidClientData d then (False, s)
      else case map_of (latest s) (cd_playerId d) of
        None \<Rightarrow> (True, install s connection d)
      | Some old \<Rightarrow>
          if cd_gatewayId old \<noteq> cd_gatewayId d \<or> cd_sceneId old \<noteq> cd_sceneId d then (False, s)
          else if cd_clientEpoch d < cd_clientEpoch old then (False, s)
          else if cd_clientEpoch d = cd_clientEpoch old then
            (if \<not> SameClientBinding old d then (False, s)
             else (map_of (connectionByPlayer s) (cd_playerId d) = Some connection, s))
          else (True, install s connection d))"

definition Matches :: "GatewayClientIndex \<Rightarrow> u64 \<Rightarrow> ClientData \<Rightarrow> bool" where
  "Matches s connection d = (case map_of (byConnection s) connection of
     None \<Rightarrow> False
   | Some ps \<Rightarrow> (case map_of ps (cd_playerId d) of None \<Rightarrow> False | Some d' \<Rightarrow> SameClientBinding d' d))"

definition Unbind_client :: "GatewayClientIndex \<Rightarrow> u64 \<Rightarrow> ClientData \<Rightarrow> bool \<times> GatewayClientIndex" where
  "Unbind_client s connection d =
     (if \<not> Matches s connection d then (False, s)
      else (True, s\<lparr>byConnection := AList.update connection
                    (AList.delete (cd_playerId d) (entry (byConnection s) connection)) (byConnection s),
                  connectionByPlayer := AList.delete (cd_playerId d) (connectionByPlayer s)\<rparr>))"

definition Close_client :: "GatewayClientIndex \<Rightarrow> u64 \<Rightarrow> ClientData list \<times> GatewayClientIndex" where
  "Close_client s connection = (case map_of (byConnection s) connection of
     None \<Rightarrow> ([], s)
   | Some ps \<Rightarrow> (map snd ps,
       s\<lparr>byConnection := AList.delete connection (byConnection s),
         connectionByPlayer := fold (\<lambda>p. AList.delete (fst p)) ps (connectionByPlayer s)\<rparr>))"

section \<open>Invariant\<close>

abbreviation binding :: "GatewayClientIndex \<Rightarrow> u64 \<Rightarrow> u64 \<Rightarrow> ClientData option" where
  "binding s c p \<equiv> map_of (entry (byConnection s) c) p"

text \<open>
  The reverse map and the per-connection tables describe the same relation, every live binding is
  the newest one of its player, and newest bindings are stored under their own player.
\<close>

definition index_ok :: "GatewayClientIndex \<Rightarrow> bool" where
  "index_ok s \<longleftrightarrow>
     (\<forall>c p. map_of (connectionByPlayer s) p = Some c \<longleftrightarrow> binding s c p \<noteq> None) \<and>
     (\<forall>c p d. binding s c p = Some d \<longrightarrow> map_of (latest s) p = Some d) \<and>
     (\<forall>p d. map_of (latest s) p = Some d \<longrightarrow> cd_playerId d = p \<and> ValidClientData d)"

lemma same_binding_eq: "SameClientBinding a b \<longleftrightarrow> a = b"
  by (cases a; cases b) (auto simp: SameClientBinding_def)

lemma entry_update: "entry (AList.update c x m) c' = (if c' = c then x else entry m c')"
  by (simp add: entry_def)

lemma entry_delete: "entry (AList.delete c m) c' = (if c' = c then [] else entry m c')"
  by (simp add: entry_def)

lemma Matches_binding: "Matches s c d \<longleftrightarrow> binding s c (cd_playerId d) = Some d"
  by (auto simp: Matches_def entry_def same_binding_eq split: option.splits)

lemma map_of_fold_delete:
  "map_of (fold (\<lambda>p. AList.delete (fst p)) ps m) q = (if q \<in> fst ` set ps then None else map_of m q)"
  by (induction ps arbitrary: m) auto

lemma route_binding: "index_ok s \<Longrightarrow> map_of (connectionByPlayer s) p = Some c \<longleftrightarrow> binding s c p \<noteq> None"
  unfolding index_ok_def by blast

lemma binding_none_iff: "index_ok s \<Longrightarrow> binding s c p = None \<longleftrightarrow> map_of (connectionByPlayer s) p \<noteq> Some c"
  using route_binding [of s p c] by blast

lemma binding_install:
  assumes "index_ok s"
  shows "binding (install s c d) c' p =
    (if p = cd_playerId d then (if c' = c then Some d else None) else binding s c' p)"
proof (cases "map_of (connectionByPlayer s) (cd_playerId d)")
  case None
  then have "binding s c' (cd_playerId d) = None" for c' by (simp add: binding_none_iff [OF assms])
  with None show ?thesis by (auto simp: install_def Let_def entry_update)
next
  case (Some c0)
  then have "c' \<noteq> c0 \<Longrightarrow> binding s c' (cd_playerId d) = None" for c'
    by (auto simp: binding_none_iff [OF assms])
  with Some show ?thesis by (auto simp: install_def Let_def entry_update)
qed

lemma install_ok:
  assumes "index_ok s" and "ValidClientData d"
  shows "index_ok (install s c d)"
proof -
  have "map_of (connectionByPlayer (install s c d)) = (map_of (connectionByPlayer s))(cd_playerId d \<mapsto> c)"
    "map_of (latest (install s c d)) = (map_of (latest s))(cd_playerId d \<mapsto> d)"
    by (auto simp: install_def Let_def)
  with assms show ?thesis unfolding index_ok_def binding_install [OF assms(1)]
    by (auto split: if_splits)
qed

lemma Bind_ok: "index_ok s \<Longrightarrow> index_ok (snd (Bind_client s c d))"
  by (auto simp: Bind_client_def install_ok split: option.splits)

lemma Unbind_ok:
  assumes "index_ok s"
  shows "index_ok (snd (Unbind_client s c d))"
proof (cases "Matches s c d")
  case True
  then have "map_of (connectionByPlayer s) (cd_playerId d) = Some c"
    using route_binding [OF assms, of "cd_playerId d" c] by (simp add: Matches_binding)
  then have "c' \<noteq> c \<Longrightarrow> binding s c' (cd_playerId d) = None" for c' by (auto simp: binding_none_iff [OF assms])
  with True assms show ?thesis by (auto simp: Unbind_client_def index_ok_def entry_update)
qed (use assms in \<open>simp add: Unbind_client_def\<close>)

lemma Close_ok:
  assumes "index_ok s"
  shows "index_ok (snd (Close_client s c))"
proof (cases "map_of (byConnection s) c")
  case (Some ps)
  then have "entry (byConnection s) c = ps" by (simp add: entry_def)
  then have "p \<in> fst ` set ps \<longleftrightarrow> map_of (connectionByPlayer s) p = Some c" for p
    by (simp add: route_binding [OF assms] map_of_eq_None_iff)
  then have route: "map_of (connectionByPlayer (snd (Close_client s c))) p =
      (if map_of (connectionByPlayer s) p = Some c then None else map_of (connectionByPlayer s) p)" for p
    using Some by (simp add: Close_client_def map_of_fold_delete)
  have bind: "binding (snd (Close_client s c)) c' p = (if c' = c then None else binding s c' p)" for c' p
    using Some by (simp add: Close_client_def entry_delete)
  have "latest (snd (Close_client s c)) = latest s" using Some by (simp add: Close_client_def)
  moreover have "map_of (connectionByPlayer (snd (Close_client s c))) p = Some c' \<longleftrightarrow>
      binding (snd (Close_client s c)) c' p \<noteq> None" for c' p
    unfolding route bind using route_binding [OF assms, of p c'] by auto
  ultimately show ?thesis using assms unfolding index_ok_def by (simp add: bind)
qed (use assms in \<open>simp add: Close_client_def\<close>)

lemma empty_index_ok: "index_ok empty_index"
  by (simp add: index_ok_def empty_index_def entry_def)

lemmas index_ops_ok = Bind_ok Unbind_ok Close_ok

section \<open>Runs of the index\<close>

datatype index_op = OpBind u64 ClientData | OpUnbind u64 ClientData | OpClose u64

fun index_step :: "index_op \<Rightarrow> GatewayClientIndex \<Rightarrow> GatewayClientIndex" where
  "index_step (OpBind c d) s = snd (Bind_client s c d)"
| "index_step (OpUnbind c d) s = snd (Unbind_client s c d)"
| "index_step (OpClose c) s = snd (Close_client s c)"

definition run_index :: "index_op list \<Rightarrow> GatewayClientIndex \<Rightarrow> GatewayClientIndex" where
  "run_index ops s = fold index_step ops s"

lemma index_step_ok: "index_ok s \<Longrightarrow> index_ok (index_step op s)"
  by (cases op) (simp_all add: index_ops_ok)

lemma run_index_ok: "index_ok s \<Longrightarrow> index_ok (run_index ops s)"
  by (induction ops arbitrary: s) (simp_all add: run_index_def index_step_ok)

text \<open>An epoch of a player is retired when a newer one was accepted, or it was the newest and went offline.\<close>

definition retired :: "GatewayClientIndex \<Rightarrow> u64 \<Rightarrow> u32 \<Rightarrow> bool" where
  "retired s p e \<longleftrightarrow> (\<exists>d. map_of (latest s) p = Some d \<and>
     (e < cd_clientEpoch d \<or> e = cd_clientEpoch d \<and> map_of (connectionByPlayer s) p = None))"

lemma install_maps:
  "map_of (connectionByPlayer (install s c d)) = (map_of (connectionByPlayer s))(cd_playerId d \<mapsto> c)"
  "map_of (latest (install s c d)) = (map_of (latest s))(cd_playerId d \<mapsto> d)"
  by (simp_all add: install_def Let_def)

lemma retired_Bind: "retired s p e \<Longrightarrow> retired (snd (Bind_client s c d)) p e"
  by (fastforce simp: retired_def Bind_client_def install_maps split: option.splits if_splits)

lemma retired_Unbind: "retired s p e \<Longrightarrow> retired (snd (Unbind_client s c d)) p e"
  by (auto simp: retired_def Unbind_client_def)

lemma retired_Close: "retired s p e \<Longrightarrow> retired (snd (Close_client s c)) p e"
  by (auto simp: retired_def Close_client_def map_of_fold_delete split: option.splits)

lemma retired_run: "retired s p e \<Longrightarrow> retired (run_index ops s) p e"
proof (induction ops arbitrary: s)
  case (Cons op ops)
  have "retired (index_step op s) p e" using Cons.prems
    by (cases op) (simp_all add: retired_Bind retired_Unbind retired_Close)
  with Cons.IH show ?case by (simp add: run_index_def)
qed (simp add: run_index_def)

lemma retired_rejected:
  assumes "index_ok s" and "retired s (cd_playerId d) (cd_clientEpoch d)"
  shows "\<not> Matches s c d" and "\<not> fst (Bind_client s c d)"
proof -
  show "\<not> Matches s c d"
  proof
    assume "Matches s c d"
    then have "map_of (latest s) (cd_playerId d) = Some d" "map_of (connectionByPlayer s) (cd_playerId d) = Some c"
      using assms(1) route_binding [OF assms(1), of "cd_playerId d" c] by (auto simp: Matches_binding index_ok_def)
    with assms(2) show False by (auto simp: retired_def)
  qed
  show "\<not> fst (Bind_client s c d)"
    using assms(2) by (auto simp: retired_def Bind_client_def split: if_splits)
qed

lemma envelope_magic:
  "get_le (put_le 2 (0x4750 :: u64)) = (0x4750 :: u64)" "get_le (put_le 2 (1 :: u64)) = (1 :: u64)"
  by code_simp+

lemma put_le_of_slice:
  "get_le (slice off n s) = (v :: u64) \<Longrightarrow> off + n \<le> length s \<Longrightarrow> n \<le> 8 \<Longrightarrow> put_le n v = slice off n s"
  using put_le_slice [where 'a = 64, of off n s] by auto

lemma Unpack_packed:
  assumes "Unpack s = Some (d, payload)"
  shows "Pack d payload = s \<and> ValidClientData d"
proof -
  from assms have len: "32 \<le> length s" and m: "put_le 2 (0x4750 :: u64) = slice 0 2 s" "put_le 2 (1 :: u64) = slice 2 2 s"
    and d: "cd_playerId d = get_le (slice 4 8 s)" "cd_clientSession d = get_le (slice 12 8 s)"
      "cd_clientEpoch d = ucast (get_le (slice 20 4 s) :: u64)" "cd_gatewayId d = ucast (get_le (slice 24 4 s) :: u64)"
      "cd_sceneId d = ucast (get_le (slice 28 4 s) :: u64)"
    and v: "ValidClientData d" and p: "payload = drop 32 s"
    by (auto simp: Unpack_def Get_def Let_def put_le_of_slice simp del: slice_0 split: if_splits)
  have "Pack d payload = slice 0 32 s @ payload"
    using len by (simp add: Pack_def Put_def Let_def m d put_le_slice slice_join slice_join3 put_le_4_ucast del: slice_0)
  with p v show ?thesis by simp
qed

section \<open>Properties of envelopes and bindings\<close>

text \<open>
  The player envelope round-trips: unpacking a packed envelope returns the binding and the
  payload exactly when the binding is valid, and every byte string that unpacks is the
  packing of what was read from it.
\<close>

theorem envelope_roundtrip:
  "Unpack (Pack d payload) = (if ValidClientData d then Some (d, payload) else None) \<and>
   (Unpack s = Some (d, payload) \<longrightarrow> Pack d payload = s \<and> ValidClientData d)"
proof
  show "Unpack (Pack d payload) = (if ValidClientData d then Some (d, payload) else None)"
    by (cases d) (simp add: Unpack_def Pack_def Get_def Put_def Let_def slice_simps get_le_put_le
        get_le_put_le_ucast envelope_magic)
qed (use Unpack_packed in blast)

theorem envelope_roundtrip_witness:
  "Unpack (Pack \<lparr>cd_playerId = 1, cd_clientSession = 2, cd_clientEpoch = 3, cd_gatewayId = 1, cd_sceneId = 1\<rparr> [9]) =
    Some (\<lparr>cd_playerId = 1, cd_clientSession = 2, cd_clientEpoch = 3, cd_gatewayId = 1, cd_sceneId = 1\<rparr>, [9])"
  using envelope_roundtrip [of "\<lparr>cd_playerId = 1, cd_clientSession = 2, cd_clientEpoch = 3, cd_gatewayId = 1, cd_sceneId = 1\<rparr>" "[9]"]
  by (simp add: ValidClientData_def)

text \<open>
  C37. The index never routes a player twice: in every state reached by binding, unbinding and
  closing in any order, at most one connection holds a binding of a player, that binding is the
  newest accepted one, and the reverse map names exactly that connection.
\<close>

theorem one_connection_per_player:
  "index_ok (run_index ops empty_index) \<and>
   (Matches (run_index ops empty_index) c d \<and> Matches (run_index ops empty_index) c' d' \<and> cd_playerId d = cd_playerId d' \<longrightarrow>
      c = c' \<and> d = d' \<and> map_of (latest (run_index ops empty_index)) (cd_playerId d) = Some d \<and>
      map_of (connectionByPlayer (run_index ops empty_index)) (cd_playerId d) = Some c)"
proof -
  let ?s = "run_index ops empty_index"
  have ok: "index_ok ?s" by (rule run_index_ok [OF empty_index_ok])
  have *: "map_of (connectionByPlayer ?s) (cd_playerId d) = Some c \<and> map_of (latest ?s) (cd_playerId d) = Some d"
    if "Matches ?s c d" for c d
    using that ok route_binding [OF ok, of "cd_playerId d" c] by (auto simp: Matches_binding index_ok_def)
  with ok show ?thesis by (metis option.inject)
qed

theorem one_connection_per_player_witness:
  "let d = \<lparr>cd_playerId = 1, cd_clientSession = 2, cd_clientEpoch = 3, cd_gatewayId = 1, cd_sceneId = 1\<rparr>
   in map_of (connectionByPlayer (run_index [OpBind 5 d] empty_index)) 1 = Some 5"
proof -
  let ?d = "\<lparr>cd_playerId = 1, cd_clientSession = 2, cd_clientEpoch = 3, cd_gatewayId = 1, cd_sceneId = 1\<rparr>"
  have "Matches (run_index [OpBind 5 ?d] empty_index) 5 ?d" by code_simp
  with one_connection_per_player [of "[OpBind 5 ?d]" 5 ?d 5 ?d] show ?thesis by (simp add: Let_def)
qed

text \<open>
  C17. Going offline is final for an epoch: after a successful unbind, after the close of the
  connection, or after a newer binding of the same player was accepted, the old binding is never
  matched and never accepted again, whatever operations follow. A replayed or late Online
  message cannot resurrect it.
\<close>

theorem retired_binding_never_returns:
  assumes "index_ok s" and "Matches s c d"
    and "s' = snd (Unbind_client s c d) \<or> s' = snd (Close_client s c) \<or>
         (\<exists>c2 d2. fst (Bind_client s c2 d2) \<and> cd_playerId d2 = cd_playerId d \<and> d2 \<noteq> d \<and> s' = snd (Bind_client s c2 d2))"
  shows "\<not> Matches (run_index ops s') c3 d \<and> \<not> fst (Bind_client (run_index ops s') c3 d)"
proof -
  let ?p = "cd_playerId d" and ?e = "cd_clientEpoch d"
  have l: "map_of (latest s) ?p = Some d" and r: "map_of (connectionByPlayer s) ?p = Some c"
    using assms(1,2) route_binding [OF assms(1), of ?p c] by (auto simp: Matches_binding index_ok_def)
  have "retired (snd (Unbind_client s c d)) ?p ?e"
    using assms(2) l by (simp add: retired_def Unbind_client_def)
  moreover have "retired (snd (Close_client s c)) ?p ?e"
  proof -
    obtain ps where ps: "map_of (byConnection s) c = Some ps" "map_of ps ?p = Some d"
      using assms(2) by (auto simp: Matches_binding entry_def split: option.splits)
    then have "?p \<in> fst ` set ps" by (force dest: map_of_SomeD)
    with ps(1) l show ?thesis by (simp add: retired_def Close_client_def map_of_fold_delete)
  qed
  moreover have "retired (snd (Bind_client s c2 d2)) ?p ?e"
    if "fst (Bind_client s c2 d2)" "cd_playerId d2 = ?p" "d2 \<noteq> d" for c2 d2
    using that l by (auto simp: Bind_client_def retired_def install_maps same_binding_eq split: if_splits)
  ultimately have "retired s' ?p ?e" "index_ok s'" using assms(1,3) index_ops_ok by auto
  then show ?thesis using retired_rejected [OF run_index_ok retired_run] by blast
qed

theorem retired_binding_never_returns_witness:
  "\<exists>s d. Matches s 5 d \<and> \<not> Matches (run_index [OpBind 6 d] (snd (Close_client s 5))) 6 d"
proof -
  let ?d = "\<lparr>cd_playerId = 1, cd_clientSession = 2, cd_clientEpoch = 3, cd_gatewayId = 1, cd_sceneId = 1\<rparr>"
  let ?s = "snd (Bind_client empty_index 5 ?d)"
  have "Matches ?s 5 ?d" by code_simp
  moreover have "index_ok ?s" by (rule Bind_ok [OF empty_index_ok])
  ultimately have "Matches ?s 5 ?d \<and> \<not> Matches (run_index [OpBind 6 ?d] (snd (Close_client ?s 5))) 6 ?d"
    using retired_binding_never_returns [of ?s 5 ?d "snd (Close_client ?s 5)" "[OpBind 6 ?d]" 6] by blast
  then show ?thesis by blast
qed

end
