(* ===== verification/Strings.thy ===== *)
theory Strings
  imports Prelude
begin

text \<open>
  Byte strings the scene server builds: literals, and \<open>std::to_string\<close> of the integer types, with the facts that
  decimal numbers can be read back and contain digits only. The character functions are those of the C
  locale, which the server never changes.
\<close>

definition ascii :: "string \<Rightarrow> bytes" where
  "ascii s = map of_char s"

fun to_string :: "nat \<Rightarrow> bytes" where
  "to_string n = (if n < 10 then [48 + of_nat n] else to_string (n div 10) @ [48 + of_nat (n mod 10)])"

declare to_string.simps [simp del]

definition to_string_int :: "int \<Rightarrow> bytes" where
  "to_string_int i = (if i < 0 then 45 # to_string (nat (- i)) else to_string (nat i))"

definition isdigit :: "u8 \<Rightarrow> bool" where
  "isdigit b \<longleftrightarrow> 48 \<le> b \<and> b \<le> 57"

definition isalpha :: "u8 \<Rightarrow> bool" where
  "isalpha b \<longleftrightarrow> (65 \<le> b \<and> b \<le> 90) \<or> (97 \<le> b \<and> b \<le> 122)"

definition isspace :: "u8 \<Rightarrow> bool" where
  "isspace b \<longleftrightarrow> b = 32 \<or> (9 \<le> b \<and> b \<le> 13)"

definition toupper :: "u8 \<Rightarrow> u8" where
  "toupper b = (if 97 \<le> b \<and> b \<le> 122 then b - 32 else b)"

text \<open>Reading decimal digits back.\<close>

definition digits_value :: "bytes \<Rightarrow> nat" where
  "digits_value ds = foldl (\<lambda>acc b. acc * 10 + (unat b - 48)) 0 ds"

lemma unat_digit: "n < 10 \<Longrightarrow> unat (48 + of_nat n :: u8) = 48 + n"
  by (simp add: unat_word_ariths unat_of_nat)

lemma digits_value_to_string: "digits_value (to_string n) = n"
proof (induction n rule: to_string.induct)
  case (1 n)
  show ?case
  proof (cases "n < 10")
    case True
    then show ?thesis by (simp add: to_string.simps [of n] digits_value_def unat_digit)
  next
    case False
    have "unat (48 + of_nat (n mod 10) :: u8) = 48 + n mod 10" by (rule unat_digit) simp
    with 1 False show ?thesis by (simp add: to_string.simps [of n] digits_value_def)
  qed
qed

lemma to_string_inject [simp]: "to_string m = to_string n \<longleftrightarrow> m = n"
  by (metis digits_value_to_string)

lemma isdigit_digit: "n < 10 \<Longrightarrow> isdigit (48 + of_nat n)"
  using unat_digit [of n] by (simp add: isdigit_def word_le_nat_alt)

lemma to_string_digits: "b \<in> set (to_string n) \<Longrightarrow> isdigit b"
proof (induction n rule: to_string.induct)
  case (1 n)
  then show ?case
    by (cases "n < 10") (auto simp: to_string.simps [of n] intro!: isdigit_digit)
qed

lemma to_string_nonempty [simp]: "to_string n \<noteq> []"
  by (simp add: to_string.simps [of n])

text \<open>Two numbers, each followed by a separator that is no digit, agree when the texts agree.\<close>

lemma number_then_separator:
  assumes "to_string m @ c # xs = to_string n @ c # ys" and "\<not> isdigit c"
  shows "m = n \<and> xs = ys"
proof -
  have *: "takeWhile isdigit (to_string k @ c # zs) = to_string k" for k zs
    using assms(2) to_string_digits by (induction "to_string k") (auto simp: takeWhile_append)
  have "to_string m = to_string n" using * [of m xs] * [of n ys] assms(1) by simp
  with assms(1) show ?thesis by simp
qed

end
