(* ===== verification/GatewayDispatch.thy ===== *)
theory GatewayDispatch
  imports ClientProto ClientSessions ServiceRegistry ReturnRoutes GatewayPlayer Strings
begin

text \<open>
  The gateway's dispatcher, gatewayServer/gatewayDispatcher.h and gatewayDispatcher.cc, which joins the protocols, the sessions, the
  registry of backends and the return routes: it authenticates clients, forwards their requests under its own sequence numbers, and sends
  responses and pushes of the backends back. A connection is a number with a name, the event loop it belongs to, whether it is
  connected, and its traffic guard; a frame in the log of what was sent stands for its encoding. Every callback and every queued submission is one
  step with one reading of the clock. Counters and log lines are left out.
\<close>

section \<open>State\<close>

record DispatcherConfig =
  dc_selfServiceId :: u8
  dc_zoneId :: u32
  dc_gatewayId :: u32
  dc_backendChannels :: u32
  dc_defaultDstService :: u8
  dc_defaultSceneId :: u32
  dc_allowedServices :: "u8 list"
  dc_clientToken :: u64
  dc_maxClientSessions :: nat
  dc_maxPendingRoutes :: nat
  dc_routeTtlMs :: u32
  dc_maxDecodeErrors :: u32
  dc_maxReadBufferBytes :: nat
  dc_maxFramesPerSec :: u32

record TrafficGuard =
  tg_decodeErrors :: u32
  tg_rateWindowMs :: int
  tg_framesInWindow :: u32

record gw_conn =
  cn_name :: string
  cn_connected :: bool
  cn_loop :: nat
  cn_guard :: TrafficGuard

type_synonym gate_message = "Header \<times> bytes"

datatype gw_out = SentClient nat ClientHeader bytes | SentBackend nat "gate_message list" | ForceClosed nat string | Threw invalid_argument

text \<open>A submission queued on the event loop of a backend connection, with what its lambda captured.\<close>

record Submission =
  sb_session :: ClientSession
  sb_endpoint :: ServiceEndpoint
  sb_online :: bool
  sb_businessFrame :: "gate_message list"
  sb_seq :: u64

record GatewayDispatcher =
  gd_cfg :: DispatcherConfig
  gd_sessions :: ClientSessionTable
  gd_services :: ServiceRegistry
  gd_routes :: ReturnRouteTable
  gd_nextSeq :: u64
  gd_conns :: "(nat, gw_conn) umap"
  gd_queues :: "(nat, Submission list) umap"
  gd_log :: "gw_out list"

definition new_dispatcher :: "DispatcherConfig \<Rightarrow> GatewayDispatcher" where
  "new_dispatcher cfg = \<lparr>gd_cfg = cfg, gd_sessions = empty_sessions, gd_services = new_registry (dc_backendChannels cfg),
     gd_routes = [], gd_nextSeq = 1, gd_conns = [], gd_queues = [], gd_log = []\<rparr>"

section \<open>Connections\<close>

definition connected :: "GatewayDispatcher \<Rightarrow> nat \<Rightarrow> bool" where
  "connected s c = (case map_of (gd_conns s) c of None \<Rightarrow> False | Some k \<Rightarrow> cn_connected k)"

definition conn_name :: "GatewayDispatcher \<Rightarrow> nat \<Rightarrow> string" where
  "conn_name s c = (case map_of (gd_conns s) c of None \<Rightarrow> [] | Some k \<Rightarrow> cn_name k)"

definition new_guard :: TrafficGuard where
  "new_guard = \<lparr>tg_decodeErrors = 0, tg_rateWindowMs = 0, tg_framesInWindow = 0\<rparr>"

definition guard_of :: "GatewayDispatcher \<Rightarrow> nat \<Rightarrow> TrafficGuard" where
  "guard_of s c = (case map_of (gd_conns s) c of None \<Rightarrow> new_guard | Some k \<Rightarrow> cn_guard k)"

definition on_conn :: "(gw_conn \<Rightarrow> gw_conn) \<Rightarrow> nat \<Rightarrow> GatewayDispatcher \<Rightarrow> GatewayDispatcher" where
  "on_conn f c s = (case map_of (gd_conns s) c of None \<Rightarrow> s | Some k \<Rightarrow> s\<lparr>gd_conns := AList.update c (f k) (gd_conns s)\<rparr>)"

definition emit :: "gw_out \<Rightarrow> GatewayDispatcher \<Rightarrow> GatewayDispatcher" where
  "emit x s = s\<lparr>gd_log := gd_log s @ [x]\<rparr>"

definition forceClose :: "nat \<Rightarrow> string \<Rightarrow> GatewayDispatcher \<Rightarrow> GatewayDispatcher" where
  "forceClose c reason s =
     (if connected s c then emit (ForceClosed c reason) (on_conn (\<lambda>k. k\<lparr>cn_connected := False\<rparr>) c s) else s)"

definition SendToClient :: "nat \<Rightarrow> u8 \<Rightarrow> u16 \<Rightarrow> u16 \<Rightarrow> u64 \<Rightarrow> bytes \<Rightarrow> bytes \<Rightarrow> GatewayDispatcher \<Rightarrow> GatewayDispatcher" where
  "SendToClient c kind module method requestId body roleName s =
     (if \<not> connected s c then s
      else if \<not> ValidRoleName roleName then emit (Threw invalid_roleName) s
      else emit (SentClient c (default_client_header\<lparr>c_kind := kind, c_module := module, c_method := method, c_requestId := requestId,
             c_roleName := roleName\<rparr>) body) s)"

definition kClientSysModule :: u16 where "kClientSysModule = 1"

definition RejectClient :: "nat \<Rightarrow> u64 \<Rightarrow> u16 \<Rightarrow> string \<Rightarrow> GatewayDispatcher \<Rightarrow> GatewayDispatcher" where
  "RejectClient c requestId method reason = SendToClient c kErrorKind kClientSysModule method requestId (ascii reason) []"

section \<open>Guards\<close>

definition HasMagic :: "buffer \<Rightarrow> u16 \<Rightarrow> bool" where
  "HasMagic b magic = (if readableBytes b < 2 then False else (get_be (take 2 (peek b)) :: u16) = magic)"

definition CheckProtocolMagic :: "nat \<Rightarrow> buffer \<Rightarrow> bool \<Rightarrow> GatewayDispatcher \<Rightarrow> bool \<times> GatewayDispatcher" where
  "CheckProtocolMagic c b clientLink s =
     (let wrongMagic = (if clientLink then kMagic else kClientMagic)
      in if \<not> HasMagic b wrongMagic then (True, s) else (False, forceClose c ''protocol magic mismatch'' s))"

definition CheckReadBuffer :: "nat \<Rightarrow> buffer \<Rightarrow> GatewayDispatcher \<Rightarrow> bool \<times> GatewayDispatcher" where
  "CheckReadBuffer c b s =
     (if readableBytes b > dc_maxReadBufferBytes (gd_cfg s) then (False, forceClose c ''read buffer overflow'' s) else (True, s))"

text \<open>The guard after one more frame, in the window of a second.\<close>

definition count_frame :: "int \<Rightarrow> TrafficGuard \<Rightarrow> TrafficGuard" where
  "count_frame nowMs g =
     (let g = (if tg_rateWindowMs g = 0 \<or> nowMs - tg_rateWindowMs g \<ge> 1000
               then g\<lparr>tg_rateWindowMs := nowMs, tg_framesInWindow := 0\<rparr> else g)
      in g\<lparr>tg_framesInWindow := tg_framesInWindow g + 1\<rparr>)"

definition AllowFrame :: "nat \<Rightarrow> int \<Rightarrow> GatewayDispatcher \<Rightarrow> bool \<times> GatewayDispatcher" where
  "AllowFrame c nowMs s =
     (let g = count_frame nowMs (guard_of s c);
          s = on_conn (\<lambda>k. k\<lparr>cn_guard := g\<rparr>) c s
      in if tg_framesInWindow g > dc_maxFramesPerSec (gd_cfg s) then (False, forceClose c ''client frame rate exceeded'' s) else (True, s))"

text \<open>The count of decoding errors; the flag tells whether the loop goes on.\<close>

definition count_error :: "TrafficGuard \<Rightarrow> TrafficGuard" where
  "count_error g = g\<lparr>tg_decodeErrors := tg_decodeErrors g + 1\<rparr>"

definition decode_error :: "nat \<Rightarrow> string \<Rightarrow> GatewayDispatcher \<Rightarrow> bool \<times> GatewayDispatcher" where
  "decode_error c reason s =
     (let g = count_error (guard_of s c);
          s = on_conn (\<lambda>k. k\<lparr>cn_guard := g\<rparr>) c s
      in if tg_decodeErrors g \<ge> dc_maxDecodeErrors (gd_cfg s) then (False, forceClose c reason s) else (True, s))"

definition IsAllowedService :: "GatewayDispatcher \<Rightarrow> u8 \<Rightarrow> bool" where
  "IsAllowedService s serviceId = list_ex (\<lambda>v. v = serviceId) (dc_allowedServices (gd_cfg s))"

section \<open>Submissions to a scene\<close>

definition LinkTypeOf :: "u8 \<Rightarrow> u8" where
  "LinkTypeOf serviceId =
     (if serviceId = kGateway then kGatewayMsg else if serviceId = kDB then kDBMsg else if serviceId = kChat then kChatMsg
      else if serviceId = kGlobal then kGlobalMsg else kSceneMsg)"

definition GatewayPlayer_kModule :: u16 where "GatewayPlayer_kModule = 200"
definition kOnline :: u16 where "kOnline = 1"
definition kOffline :: u16 where "kOffline = 2"

definition QueueSceneSubmission :: "ClientSession \<Rightarrow> ServiceEndpoint \<Rightarrow> bool \<Rightarrow> gate_message list \<Rightarrow> u64 \<Rightarrow> GatewayDispatcher \<Rightarrow> GatewayDispatcher" where
  "QueueSceneSubmission session ep online businessFrame sq s =
     (case ep_conn ep of
        None \<Rightarrow> s
      | Some c \<Rightarrow>
          let l = (case map_of (gd_conns s) c of None \<Rightarrow> 0 | Some k \<Rightarrow> cn_loop k);
              q = (case map_of (gd_queues s) l of None \<Rightarrow> [] | Some q \<Rightarrow> q);
              sub = \<lparr>sb_session = session, sb_endpoint = ep, sb_online = online, sb_businessFrame = businessFrame, sb_seq = sq\<rparr>
          in s\<lparr>gd_queues := AList.update l (q @ [sub]) (gd_queues s)\<rparr>)"

definition same_endpoint :: "ServiceEndpoint \<Rightarrow> ServiceEndpoint \<Rightarrow> bool" where
  "same_endpoint cur ep \<longleftrightarrow> ep_conn cur = ep_conn ep \<and> ep_serviceId cur = ep_serviceId ep \<and> ep_zoneId cur = ep_zoneId ep
     \<and> ep_sceneId cur = ep_sceneId ep \<and> ep_channelId cur = ep_channelId ep \<and> ep_sceneIncarnation cur = ep_sceneIncarnation ep"

definition endpoint_ready :: "GatewayDispatcher \<Rightarrow> ServiceEndpoint \<Rightarrow> bool" where
  "endpoint_ready s ep \<longleftrightarrow> (case ep_conn ep of None \<Rightarrow> False | Some c \<Rightarrow> connected s c) \<and>
     (case GetByChannel (gd_services s) (ep_connName ep) of None \<Rightarrow> False | Some cur \<Rightarrow> same_endpoint cur ep)"

definition submission_frames :: "GatewayDispatcher \<Rightarrow> Submission \<Rightarrow> bool \<Rightarrow> gate_message list" where
  "submission_frames s sub declareOnline =
     (let ss = sb_session sub; ep = sb_endpoint sub; cfg = gd_cfg s
      in (if \<not> sb_online sub \<or> declareOnline
          then [(MakeHeader (LinkTypeOf (ep_serviceId ep)) GatewayPlayer_kModule (if sb_online sub then kOnline else kOffline) 0
                   (cs_playerId ss) (dc_selfServiceId cfg) (ep_serviceId ep),
                 Pack \<lparr>cd_playerId = cs_playerId ss, cd_clientSession = cs_sessionId ss, cd_clientEpoch = cs_epoch ss,
                       cd_gatewayId = dc_gatewayId cfg, cd_sceneId = ep_sceneId ep\<rparr> [])]
          else []) @ sb_businessFrame sub)"

text \<open>
  The queued lambda. \<open>alive\<close> tells whether the connection survives the send; \<open>flag\<close> is the flag \<open>submit\<close> was called with.
\<close>

definition submitted :: "Submission \<Rightarrow> bool option \<Rightarrow> bool \<Rightarrow> GatewayDispatcher \<Rightarrow> GatewayDispatcher" where
  "submitted sub flag alive s =
     (case (flag, ep_conn (sb_endpoint sub)) of
        (Some declareOnline, Some c) \<Rightarrow>
          if \<not> endpoint_ready s (sb_endpoint sub) \<or> submission_frames s sub declareOnline = [] then s
          else (let s = emit (SentBackend c (submission_frames s sub declareOnline)) s
                in if alive then s else on_conn (\<lambda>k. k\<lparr>cn_connected := False\<rparr>) c s)
      | _ \<Rightarrow> s)"

definition submit_result :: "Submission \<Rightarrow> bool \<Rightarrow> GatewayDispatcher \<Rightarrow> bool \<Rightarrow> bool" where
  "submit_result sub alive s declareOnline \<longleftrightarrow>
     endpoint_ready s (sb_endpoint sub) \<and> (submission_frames s sub declareOnline = [] \<or> alive)"

definition reject_submission :: "Submission \<Rightarrow> GatewayDispatcher \<Rightarrow> GatewayDispatcher" where
  "reject_submission sub s =
     (case route_take (gd_routes s) (sb_seq sub) of
        (None, _) \<Rightarrow> s
      | (Some route, rs) \<Rightarrow>
          let s = s\<lparr>gd_routes := rs\<rparr>
          in case session_get (gd_sessions s) (cs_sessionId (sb_session sub)) of
               None \<Rightarrow> s
             | Some cur \<Rightarrow>
                 (case cs_conn cur of
                    None \<Rightarrow> s
                  | Some c \<Rightarrow> if cs_authed cur \<and> cs_epoch cur = cs_epoch (sb_session sub)
                      then RejectClient c (rr_clientRequestId route) (rr_method route) ''scene submission unavailable or stale binding'' s
                      else s))"

definition run_submission :: "Submission \<Rightarrow> bool \<Rightarrow> GatewayDispatcher \<Rightarrow> GatewayDispatcher" where
  "run_submission sub alive s =
     (case (if sb_online sub then SubmitScene (gd_sessions s) (sb_session sub) (submit_result sub alive s)
            else (submit_result sub alive s False, Some False, gd_sessions s)) of
        (accepted, flag, t) \<Rightarrow>
          let s = submitted sub flag alive (s\<lparr>gd_sessions := t\<rparr>)
          in if \<not> accepted \<and> sb_seq sub \<noteq> 0 then reject_submission sub s else s)"

definition NotifySceneBinding :: "ClientSession \<Rightarrow> bool \<Rightarrow> GatewayDispatcher \<Rightarrow> GatewayDispatcher" where
  "NotifySceneBinding session online s =
     (if \<not> cs_authed session \<or> cs_playerId session = 0 \<or> cs_dstService session \<noteq> kScene then s
      else if cs_sceneId session = 0 \<or> cs_sceneConnName session = [] then s
      else case GetByChannel (gd_services s) (cs_sceneConnName session) of
        None \<Rightarrow> s
      | Some ep \<Rightarrow>
          if ep_conn ep = None \<or> ep_sceneId ep = 0 then s
          else if cs_sceneId session \<noteq> 0 \<and> (ep_serviceId ep \<noteq> cs_dstService session \<or> ep_zoneId ep \<noteq> dc_zoneId (gd_cfg s)
               \<or> ep_sceneId ep \<noteq> cs_sceneId session \<or> ep_channelId ep \<noteq> cs_backendChannelId session
               \<or> ep_sceneIncarnation ep \<noteq> cs_sceneIncarnation session) then s
          else QueueSceneSubmission session ep online [] 0 s)"

section \<open>Frames of clients\<close>

definition kAuth :: u16 where "kAuth = 1"
definition kAuthAck :: u16 where "kAuthAck = 2"
definition kAuthFail :: u16 where "kAuthFail = 3"
definition kBindService :: u16 where "kBindService = 4"
definition kBindServiceAck :: u16 where "kBindServiceAck = 5"
definition kPing :: u16 where "kPing = 6"
definition kPong :: u16 where "kPong = 7"

definition kick :: "u64 \<Rightarrow> GatewayDispatcher \<Rightarrow> GatewayDispatcher" where
  "kick kicked s =
     (if kicked = 0 then s
      else let s = s\<lparr>gd_routes := snd (EraseBySession (gd_routes s) kicked)\<rparr>;
               s = (case session_get (gd_sessions s) kicked of
                      None \<Rightarrow> s
                    | Some old \<Rightarrow> (case cs_conn old of None \<Rightarrow> s | Some c \<Rightarrow> forceClose c ''client session replaced by newer login'' s))
           in s\<lparr>gd_sessions := snd (session_erase (gd_sessions s) kicked)\<rparr>)"

definition handle_auth :: "nat \<Rightarrow> u64 \<Rightarrow> ClientSession \<Rightarrow> ClientHeader \<Rightarrow> bytes \<Rightarrow> int \<Rightarrow> GatewayDispatcher \<Rightarrow> GatewayDispatcher" where
  "handle_auth c sessionId session h body nowMs s =
     (case ParseAuthBody body of
        None \<Rightarrow> RejectClient c (c_requestId h) kAuthFail ''bad auth body'' s
      | Some (playerId, ticket) \<Rightarrow>
          if playerId = 0 then RejectClient c (c_requestId h) kAuthFail ''bad auth body'' s
          else if dc_clientToken (gd_cfg s) \<noteq> 0 \<and> ticket \<noteq> dc_clientToken (gd_cfg s)
          then forceClose c ''bad authentication ticket'' (RejectClient c (c_requestId h) kAuthFail ''bad ticket'' s)
          else let dst = (if cs_dstService session \<noteq> 0 then cs_dstService session else dc_defaultDstService (gd_cfg s))
               in case session_bind (gd_sessions s) sessionId playerId dst nowMs of
                    (False, _, _) \<Rightarrow> s
                  | (True, kicked, t) \<Rightarrow>
                      let s = kick kicked (s\<lparr>gd_sessions := t\<rparr>)
                      in case session_get (gd_sessions s) sessionId of
                           None \<Rightarrow> s
                         | Some cur \<Rightarrow>
                             SendToClient c kControl kClientSysModule kAuthAck (c_requestId h)
                               (MakeAuthAckBody playerId sessionId (cs_epoch cur) (dc_zoneId (gd_cfg s)) (cs_dstService cur)) []
                               (NotifySceneBinding cur True s))"

definition handle_bind_service :: "nat \<Rightarrow> u64 \<Rightarrow> ClientSession \<Rightarrow> ClientHeader \<Rightarrow> bytes \<Rightarrow> GatewayDispatcher \<Rightarrow> GatewayDispatcher" where
  "handle_bind_service c sessionId session h body s =
     (if \<not> cs_authed session then RejectClient c (c_requestId h) kBindService ''not authenticated'' s
      else case ParseServiceBody body of
        None \<Rightarrow> RejectClient c (c_requestId h) kBindService ''service not allowed'' s
      | Some serviceId \<Rightarrow>
          if \<not> IsAllowedService s serviceId then RejectClient c (c_requestId h) kBindService ''service not allowed'' s
          else case SetDstService (gd_sessions s) sessionId serviceId of
            (False, _) \<Rightarrow> RejectClient c (c_requestId h) (c_method h) ''cannot update service binding'' s
          | (True, t) \<Rightarrow>
              let s = s\<lparr>gd_sessions := t\<rparr>;
                  s = (if serviceId \<noteq> cs_dstService session then NotifySceneBinding session False s else s);
                  s = (case session_get (gd_sessions s) sessionId of None \<Rightarrow> s | Some cur \<Rightarrow> NotifySceneBinding cur True s)
              in SendToClient c kControl kClientSysModule kBindServiceAck (c_requestId h) (MakeServiceBody serviceId) [] s)"

definition handle_control :: "nat \<Rightarrow> u64 \<Rightarrow> ClientSession \<Rightarrow> ClientHeader \<Rightarrow> bytes \<Rightarrow> int \<Rightarrow> GatewayDispatcher \<Rightarrow> GatewayDispatcher" where
  "handle_control c sessionId session h body nowMs s =
     (if c_kind h \<noteq> kControl \<or> c_module h \<noteq> kClientSysModule
      then RejectClient c (c_requestId h) (c_method h) ''control kind and module mismatch'' s
      else if c_method h = kAuth then handle_auth c sessionId session h body nowMs s
      else if c_method h = kBindService then handle_bind_service c sessionId session h body s
      else if c_method h = kPing then SendToClient c kControl kClientSysModule kPong (c_requestId h) [] [] s
      else RejectClient c (c_requestId h) (c_method h) ''unknown control method'' s)"

text \<open>The endpoint a session is bound to, when it is still the one the session knows.\<close>

definition bound_endpoint :: "GatewayDispatcher \<Rightarrow> u8 \<Rightarrow> ClientSession \<Rightarrow> ServiceEndpoint option" where
  "bound_endpoint s dst session =
     (case GetByChannel (gd_services s) (cs_sceneConnName session) of
        None \<Rightarrow> None
      | Some ep \<Rightarrow> if ep_conn ep \<noteq> None \<and> ep_serviceId ep = dst \<and> ep_zoneId ep = dc_zoneId (gd_cfg s) \<and> ep_sceneId ep = cs_sceneId session
            \<and> ep_channelId ep = cs_backendChannelId session \<and> ep_sceneIncarnation ep = cs_sceneIncarnation session
          then Some ep else None)"

fun try_instances :: "u8 \<Rightarrow> u32 \<Rightarrow> ServiceEndpoint list \<Rightarrow> ServiceRegistry \<Rightarrow> ServiceEndpoint option \<times> ServiceRegistry" where
  "try_instances dst zone [] r = (None, r)"
| "try_instances dst zone (candidate # rest) r =
     (case SelectByScene r \<lparr>bk_serviceId = dst, bk_zoneId = zone, bk_sceneId = ep_sceneId candidate\<rparr> of
        (Some ep, r) \<Rightarrow> (Some ep, r)
      | (None, r) \<Rightarrow> try_instances dst zone rest r)"

definition choose_scene :: "u8 \<Rightarrow> ClientSession \<Rightarrow> GatewayDispatcher \<Rightarrow> ServiceEndpoint option \<times> GatewayDispatcher" where
  "choose_scene dst session s =
     (let zone = dc_zoneId (gd_cfg s)
      in if dc_defaultSceneId (gd_cfg s) \<noteq> 0
         then (case SelectByScene (gd_services s) \<lparr>bk_serviceId = dst, bk_zoneId = zone, bk_sceneId = dc_defaultSceneId (gd_cfg s)\<rparr> of
                 (ep, r) \<Rightarrow> (ep, s\<lparr>gd_services := r\<rparr>))
         else let instances = GetInstances (gd_services s) dst zone; n = length instances
              in if n = 0 then (None, s)
                 else let start = unat (cs_playerId session) mod n
                      in case try_instances dst zone (map (\<lambda>i. instances ! ((start + i) mod n)) [0..<n]) (gd_services s) of
                           (ep, r) \<Rightarrow> (ep, s\<lparr>gd_services := r\<rparr>))"

text \<open>The endpoint of a request, the session as it is then, and the state.\<close>

definition resolve_endpoint :: "u64 \<Rightarrow> ClientSession \<Rightarrow> u8 \<Rightarrow> GatewayDispatcher \<Rightarrow> ServiceEndpoint option \<times> ClientSession \<times> GatewayDispatcher" where
  "resolve_endpoint sessionId session dst s =
     (if dst \<noteq> kScene then (GetByService (gd_services s) dst, session, s)
      else if cs_sceneId session \<noteq> 0 then (bound_endpoint s dst session, session, s)
      else case choose_scene dst session s of
        (None, s) \<Rightarrow> (None, session, s)
      | (Some ep, s) \<Rightarrow>
          let s = s\<lparr>gd_sessions := snd (SetSceneBinding (gd_sessions s) sessionId (ep_sceneId ep) (ep_channelId ep)
                      (ep_sceneIncarnation ep) (ep_connName ep))\<rparr>
          in case session_get (gd_sessions s) sessionId of
               None \<Rightarrow> (None, session, s)
             | Some cur \<Rightarrow> (bound_endpoint s dst cur, cur, s))"

definition request_service :: "GatewayDispatcher \<Rightarrow> ClientSession \<Rightarrow> ClientHeader \<Rightarrow> u8" where
  "request_service s session h =
     (if c_module h = ServiceModule_kChat then kChat else if c_module h = ServiceModule_kGlobal then kGlobal
      else if cs_dstService session \<noteq> 0 then cs_dstService session else dc_defaultDstService (gd_cfg s))"

text \<open>The body for the backend: \<open>Inl\<close> is the reason of a refusal.\<close>

definition backend_body :: "GatewayDispatcher \<Rightarrow> u8 \<Rightarrow> ClientSession \<Rightarrow> ServiceEndpoint \<Rightarrow> ClientHeader \<Rightarrow> bytes \<Rightarrow> string + bytes" where
  "backend_body s dst session ep h body =
     (let d = \<lparr>cd_playerId = cs_playerId session, cd_clientSession = cs_sessionId session, cd_clientEpoch = cs_epoch session,
               cd_gatewayId = dc_gatewayId (gd_cfg s), cd_sceneId = ep_sceneId ep\<rparr>
      in if dst = kScene \<and> (\<not> ValidClientData d \<or> c_module h = GatewayPlayer_kModule)
         then Inl ''invalid scene binding or reserved gateway route''
         else let bb = (if dst = kScene then Pack d body else body)
              in if dst = kChat \<and> c_module h = ServiceModule_kChat \<and> (c_method h = kPrivateChat \<or> c_method h = kZoneShout)
                 then (if c_method h = kPrivateChat \<and> length body < 8 then Inl ''invalid chat message''
                       else let prefix = (if c_method h = kPrivateChat then 8 else 0)
                            in Inr (take prefix body @ c_roleName h @ replicate (kRoleNameSize - length (c_roleName h)) 0 @ drop prefix body))
                 else Inr bb)"

definition forward_request :: "nat \<Rightarrow> u64 \<Rightarrow> ClientSession \<Rightarrow> u8 \<Rightarrow> ServiceEndpoint \<Rightarrow> ClientHeader \<Rightarrow> bytes \<Rightarrow> int \<Rightarrow> GatewayDispatcher \<Rightarrow> GatewayDispatcher" where
  "forward_request c sessionId session dst ep h body nowMs s =
     (let internalSeq = gd_nextSeq s;
          s = s\<lparr>gd_nextSeq := internalSeq + 1\<rparr>;
          r = \<lparr>rr_internalSeq = internalSeq, rr_clientSessionId = sessionId, rr_clientRequestId = c_requestId h, rr_backendServiceId = dst,
               rr_backendZoneId = ep_zoneId ep, rr_backendSceneId = ep_sceneId ep, rr_backendChannelId = ep_channelId ep,
               rr_backendSceneIncarnation = ep_sceneIncarnation ep, rr_backendConnName = ep_connName ep, rr_playerId = cs_playerId session,
               rr_module = c_module h, rr_method = c_method h, rr_sessionEpoch = cs_epoch session, rr_createdAtMs = nowMs\<rparr>
      in case route_add (gd_routes s) r (dc_maxPendingRoutes (gd_cfg s)) of
           (False, _) \<Rightarrow> RejectClient c (c_requestId h) (c_method h) ''too many pending requests'' s
         | (True, rs) \<Rightarrow>
             let s = s\<lparr>gd_routes := rs\<rparr>
             in case backend_body s dst session ep h body of
                  Inl reason \<Rightarrow> RejectClient c (c_requestId h) (c_method h) reason (s\<lparr>gd_routes := snd (route_take rs internalSeq)\<rparr>)
                | Inr bb \<Rightarrow>
                    let frame = (MakeHeader (LinkTypeOf dst) (c_module h) (c_method h) internalSeq (cs_playerId session)
                                   (dc_selfServiceId (gd_cfg s)) dst, bb)
                    in if dst = kScene then QueueSceneSubmission session ep True [frame] internalSeq s
                       else (case ep_conn ep of
                               None \<Rightarrow> s
                             | Some b \<Rightarrow> if connected s b then emit (SentBackend b [frame]) s else s))"

definition handle_request :: "nat \<Rightarrow> u64 \<Rightarrow> ClientSession \<Rightarrow> ClientHeader \<Rightarrow> bytes \<Rightarrow> int \<Rightarrow> GatewayDispatcher \<Rightarrow> GatewayDispatcher" where
  "handle_request c sessionId session h body nowMs s =
     (let reject = RejectClient c (c_requestId h) (c_method h)
      in if c_kind h \<noteq> kRequest then reject ''only Request kind allowed from client'' s
         else if c_requestId h = 0 then reject ''requestId must be nonzero'' s
         else if \<not> cs_authed session then reject ''not authenticated'' s
         else if c_module h = ServiceModule_kChat \<and> c_roleName h = [] then reject ''chat role name required'' s
         else let dst = request_service s session h
              in if \<not> IsAllowedService s dst then reject ''service not allowed'' s
                 else case resolve_endpoint sessionId session dst s of
                   (None, _, s) \<Rightarrow> reject ''backend service unavailable'' s
                 | (Some ep, session, s) \<Rightarrow>
                     if ep_conn ep = None then reject ''backend service unavailable'' s
                     else forward_request c sessionId session dst ep h body nowMs s)"

definition HandleClientFrame :: "nat \<Rightarrow> u64 \<Rightarrow> ClientHeader \<Rightarrow> bytes \<Rightarrow> int \<Rightarrow> GatewayDispatcher \<Rightarrow> GatewayDispatcher" where
  "HandleClientFrame c sessionId h body nowMs s =
     (case session_get (gd_sessions s) sessionId of
        None \<Rightarrow> s
      | Some session \<Rightarrow>
          if c_kind h = kControl \<or> c_module h = kClientSysModule then handle_control c sessionId session h body nowMs s
          else handle_request c sessionId session h body nowMs s)"

section \<open>Frames of backends\<close>


definition handle_handshake :: "nat \<Rightarrow> Header \<Rightarrow> bytes \<Rightarrow> int \<Rightarrow> GatewayDispatcher \<Rightarrow> GatewayDispatcher" where
  "handle_handshake c h body nowMs s =
     (case UnpackBackendHandshake body of
        None \<Rightarrow> forceClose c ''bad backend handshake body'' s
      | Some hs \<Rightarrow>
          if h_srcServiceID h \<noteq> hs_serviceId hs \<or> h_seq h \<noteq> 0 \<or> h_playerId h \<noteq> 0 \<or> h_retrFlag h \<noteq> 0
          then forceClose c ''invalid backend handshake header'' s
          else if \<not> ValidBackendHandshake hs \<or> hs_targetGatewayId hs \<noteq> dc_gatewayId (gd_cfg s)
              \<or> hs_serviceId hs = kScene \<and> hs_channelId hs \<ge> dc_backendChannels (gd_cfg s)
          then forceClose c ''backend handshake identity mismatch'' s
          else if \<not> IsAllowedService s (hs_serviceId hs) then forceClose c ''backend service not allowed'' s
          else if hs_zoneId hs \<noteq> dc_zoneId (gd_cfg s) then forceClose c ''backend zone mismatch'' s
          else case registry_bind (gd_services s) (conn_name s c) (hs_serviceId hs) (hs_zoneId hs) (hs_sceneId hs) (hs_channelId hs)
                      (hs_sceneIncarnation hs) nowMs of
            (False, _, r) \<Rightarrow> forceClose c ''backend bind failed'' (s\<lparr>gd_services := r\<rparr>)
          | (True, oldConn, r) \<Rightarrow>
              if oldConn = [] then s\<lparr>gd_services := r\<rparr>
              else (case RemoveByName r oldConn of
                      (None, r) \<Rightarrow> s\<lparr>gd_services := r\<rparr>
                    | (Some old, r) \<Rightarrow> (case ep_conn old of
                          None \<Rightarrow> s\<lparr>gd_services := r\<rparr>
                        | Some o' \<Rightarrow> forceClose o' ''stale backend connection replaced'' (s\<lparr>gd_services := r\<rparr>))))"

text \<open>A response: the route was found under its sequence number.\<close>

definition legacy_route :: "ReturnRoute \<Rightarrow> bool" where
  "legacy_route r \<longleftrightarrow> rr_backendConnName r = [] \<and> rr_backendZoneId r = 0 \<and> rr_backendSceneIncarnation r = 0"

definition context_mismatch :: "GatewayDispatcher \<Rightarrow> nat \<Rightarrow> ServiceEndpoint \<Rightarrow> Header \<Rightarrow> ReturnRoute \<Rightarrow> bool" where
  "context_mismatch s c self h r \<longleftrightarrow> rr_backendServiceId r \<noteq> ep_serviceId self \<or> rr_playerId r \<noteq> h_playerId h \<or> rr_module r \<noteq> h_module h
     \<or> rr_method r \<noteq> h_method h
     \<or> \<not> legacy_route r \<and> (rr_backendConnName r \<noteq> conn_name s c \<or> rr_backendZoneId r \<noteq> ep_zoneId self \<or> rr_backendSceneId r \<noteq> ep_sceneId self
        \<or> rr_backendChannelId r \<noteq> ep_channelId self \<or> rr_backendSceneIncarnation r \<noteq> ep_sceneIncarnation self)"

definition other_scene :: "ClientSession \<Rightarrow> ReturnRoute \<Rightarrow> bool" where
  "other_scene cur r \<longleftrightarrow> cs_sceneId cur \<noteq> 0 \<and> (cs_sceneId cur \<noteq> rr_backendSceneId r \<or> cs_backendChannelId cur \<noteq> rr_backendChannelId r
     \<or> cs_sceneIncarnation cur \<noteq> rr_backendSceneIncarnation r \<or> cs_sceneConnName cur \<noteq> rr_backendConnName r)"

definition relay_response :: "nat \<Rightarrow> ServiceEndpoint \<Rightarrow> Header \<Rightarrow> bytes \<Rightarrow> ReturnRoute \<Rightarrow> GatewayDispatcher \<Rightarrow> GatewayDispatcher" where
  "relay_response c self h body r0 s =
     (if context_mismatch s c self h r0 then forceClose c ''backend response context mismatch'' s
      else case route_take (gd_routes s) (h_seq h) of
        (None, _) \<Rightarrow> s
      | (Some r, rs) \<Rightarrow>
          let s = s\<lparr>gd_routes := rs\<rparr>
          in if \<not> legacy_route r0 \<and> ep_serviceId self = kScene \<and> rr_backendConnName r = conn_name s c
                \<and> (case session_get (gd_sessions s) (rr_clientSessionId r) of None \<Rightarrow> False | Some cur \<Rightarrow> other_scene cur r) then s
             else case session_get (gd_sessions s) (rr_clientSessionId r) of
               None \<Rightarrow> s
             | Some ss \<Rightarrow>
                 (case cs_conn ss of
                    None \<Rightarrow> s
                  | Some k \<Rightarrow> if cs_authed ss \<and> cs_epoch ss = rr_sessionEpoch r
                      then SendToClient k kResponse (h_module h) (h_method h) (rr_clientRequestId r) body [] s else s))"

text \<open>A shout to the zone, which every authenticated session is sent.\<close>

fun shout_to :: "ClientSession list \<Rightarrow> Header \<Rightarrow> bytes \<Rightarrow> bytes \<Rightarrow> GatewayDispatcher \<Rightarrow> GatewayDispatcher" where
  "shout_to [] h payload name s = s"
| "shout_to (ss # rest) h payload name s =
     shout_to rest h payload name
       (case (session_get (gd_sessions s) (cs_sessionId ss), cs_conn ss) of
          (Some cur, Some k) \<Rightarrow> if cs_authed cur \<and> cs_epoch cur = cs_epoch ss \<and> cs_conn cur = cs_conn ss
            then SendToClient k kPush (h_module h) (h_method h) 0 payload name s else s
        | _ \<Rightarrow> s)"

definition handle_shout :: "Header \<Rightarrow> bytes \<Rightarrow> GatewayDispatcher \<Rightarrow> GatewayDispatcher" where
  "handle_shout h body s =
     (if length body < 8 + kRoleNameSize + 1 \<or> length body > 8 + kRoleNameSize + 1024 then s
      else case name_field (slice 8 kRoleNameSize body) of (name, padded) \<Rightarrow>
        if name = [] \<or> \<not> padded \<or> \<not> ValidRoleName name then s
        else shout_to (AuthedSessions (gd_sessions s)) h (take 8 body @ drop (8 + kRoleNameSize) body) name s)"

definition IsAllowedScenePush :: "Header \<Rightarrow> u8 \<Rightarrow> bool" where
  "IsAllowedScenePush h serviceId =
     (if serviceId \<noteq> kScene \<or> h_seq h \<noteq> 0 \<or> h_playerId h = 0 then False
      else h_module h = 3 \<and> h_method h = 1 \<or> h_module h = 100 \<and> (h_method h = 7 \<or> h_method h = 8))"

definition handle_push :: "nat \<Rightarrow> ServiceEndpoint \<Rightarrow> Header \<Rightarrow> bytes \<Rightarrow> GatewayDispatcher \<Rightarrow> GatewayDispatcher" where
  "handle_push c self h body s =
     (let push = (\<lambda>k. SendToClient k kPush (h_module h) (h_method h) 0);
          receiver = (case FindByPlayer (gd_sessions s) (h_playerId h) of None \<Rightarrow> None | Some ss \<Rightarrow> cs_conn ss)
      in if IsAllowedScenePush h (ep_serviceId self)
         then (case receiver of None \<Rightarrow> s | Some k \<Rightarrow> push k body [] s)
         else if h_module h = ServiceModule_kChat \<and> ep_serviceId self \<noteq> kChat \<or> h_module h = ServiceModule_kGlobal \<and> ep_serviceId self \<noteq> kGlobal
         then forceClose c ''forged backend push'' s
         else case receiver of
           None \<Rightarrow> s
         | Some k \<Rightarrow>
             if h_module h = ServiceModule_kChat \<and> h_method h = kPrivateChat
             then (if length body < 8 + kRoleNameSize then s
                   else case name_field (slice 8 kRoleNameSize body) of (name, padded) \<Rightarrow>
                     if \<not> padded \<or> \<not> ValidRoleName name then s
                     else push k (take 8 body @ drop (8 + kRoleNameSize) body) name s)
             else push k body [] s)"

definition retired_endpoint :: "GatewayDispatcher \<Rightarrow> nat \<Rightarrow> ServiceEndpoint \<Rightarrow> bool" where
  "retired_endpoint s c self \<longleftrightarrow> ep_sceneId self \<noteq> 0 \<and>
     (case GetByChannel (gd_services s) (conn_name s c) of
        None \<Rightarrow> True
      | Some active \<Rightarrow> ep_sceneIncarnation active \<noteq> ep_sceneIncarnation self \<or> ep_channelId active \<noteq> ep_channelId self)"

text \<open>What follows when the sender is registered as \<open>self\<close>.\<close>

definition handle_business :: "nat \<Rightarrow> ServiceEndpoint \<Rightarrow> Header \<Rightarrow> bytes \<Rightarrow> GatewayDispatcher \<Rightarrow> GatewayDispatcher" where
  "handle_business c self h body s =
     (if retired_endpoint s c self then s
      else if h_srcServiceID h \<noteq> ep_serviceId self \<or> h_dstServiceID h \<noteq> dc_selfServiceId (gd_cfg s) \<or> h_retrFlag h \<noteq> 0
      then forceClose c ''backend identity or retry mismatch'' s
      else case (if h_seq h \<noteq> 0 then route_get (gd_routes s) (h_seq h) else None) of
        Some r \<Rightarrow> relay_response c self h body r s
      | None \<Rightarrow>
          if h_seq h = 0 \<and> h_module h = ServiceModule_kChat \<and> h_method h = kZoneShout \<and> ep_serviceId self = kChat \<and> h_playerId h = 0
          then handle_shout h body s
          else if h_seq h = 0 \<and> h_playerId h \<noteq> 0 then handle_push c self h body s
          else s)"

definition HandleBackendFrame :: "nat \<Rightarrow> Header \<Rightarrow> bytes \<Rightarrow> int \<Rightarrow> GatewayDispatcher \<Rightarrow> GatewayDispatcher" where
  "HandleBackendFrame c h body nowMs s =
     (if h_module h = kSYS \<and> h_method h = kHandshake then handle_handshake c h body nowMs s
      else case GetByName (gd_services s) (conn_name s c) of
        None \<Rightarrow> forceClose c ''unregistered backend business frame'' s
      | Some self \<Rightarrow>
          if ep_serviceId self = 0 then forceClose c ''unregistered backend business frame'' s
          else handle_business c self h body s)"

section \<open>Callbacks\<close>

text \<open>
  The receive loops; the fuel is one more than the number of bytes in the buffer, and \<open>None\<close> would be running out of it
  or an access outside the buffer.
\<close>

fun receive_client :: "nat \<Rightarrow> nat \<Rightarrow> u64 \<Rightarrow> int \<Rightarrow> buffer \<Rightarrow> GatewayDispatcher \<Rightarrow> (buffer \<times> GatewayDispatcher) option" where
  "receive_client 0 c sessionId nowMs b s = None"
| "receive_client (Suc fuel) c sessionId nowMs b s =
     (case client_next b of
        None \<Rightarrow> None
      | Some (More, b) \<Rightarrow> Some (b, s)
      | Some (Bad, b) \<Rightarrow>
          (case decode_error c ''too many client decode errors'' s of
             (False, s) \<Rightarrow> Some (b, s) | (True, s) \<Rightarrow> receive_client fuel c sessionId nowMs b s)
      | Some (Got (h, body), b) \<Rightarrow>
          (case AllowFrame c nowMs s of
             (False, s) \<Rightarrow> Some (b, s)
           | (True, s) \<Rightarrow>
               let s = HandleClientFrame c sessionId h body nowMs s
               in if \<not> connected s c then Some (b, s) else receive_client fuel c sessionId nowMs b s))"

definition OnClientMessage :: "nat \<Rightarrow> u64 \<Rightarrow> int \<Rightarrow> buffer \<Rightarrow> GatewayDispatcher \<Rightarrow> (buffer \<times> GatewayDispatcher) option" where
  "OnClientMessage c sessionId nowMs b s =
     (case CheckProtocolMagic c b True s of
        (False, s) \<Rightarrow> Some (b, s)
      | (True, s) \<Rightarrow> (case CheckReadBuffer c b s of
          (False, s) \<Rightarrow> Some (b, s)
        | (True, s) \<Rightarrow> receive_client (Suc (readableBytes b)) c sessionId nowMs b s))"

fun receive_backend :: "nat \<Rightarrow> nat \<Rightarrow> int \<Rightarrow> buffer \<Rightarrow> GatewayDispatcher \<Rightarrow> (buffer \<times> GatewayDispatcher) option" where
  "receive_backend 0 c nowMs b s = None"
| "receive_backend (Suc fuel) c nowMs b s =
     (case gate_next (dc_selfServiceId (gd_cfg s)) b of
        None \<Rightarrow> None
      | Some (More, b) \<Rightarrow> Some (b, s)
      | Some (Bad, b) \<Rightarrow>
          (case decode_error c ''too many backend decode errors'' s of
             (False, s) \<Rightarrow> Some (b, s) | (True, s) \<Rightarrow> receive_backend fuel c nowMs b s)
      | Some (Got (h, body), b) \<Rightarrow>
          (case AllowFrame c nowMs s of
             (False, s) \<Rightarrow> Some (b, s)
           | (True, s) \<Rightarrow>
               let s = HandleBackendFrame c h body nowMs s
               in if \<not> connected s c then Some (b, s) else receive_backend fuel c nowMs b s))"

definition OnBackendMessage :: "nat \<Rightarrow> int \<Rightarrow> buffer \<Rightarrow> GatewayDispatcher \<Rightarrow> (buffer \<times> GatewayDispatcher) option" where
  "OnBackendMessage c nowMs b s =
     (case CheckProtocolMagic c b False s of
        (False, s) \<Rightarrow> Some (b, s)
      | (True, s) \<Rightarrow> (case CheckReadBuffer c b s of
          (False, s) \<Rightarrow> Some (b, s)
        | (True, s) \<Rightarrow> receive_backend (Suc (readableBytes b)) c nowMs b s))"

definition OnClientConnected :: "nat \<Rightarrow> int \<Rightarrow> GatewayDispatcher \<Rightarrow> u64 \<times> GatewayDispatcher" where
  "OnClientConnected c nowMs s =
     (case session_create (gd_sessions s) (Some c) (dc_defaultDstService (gd_cfg s)) nowMs of (i, t) \<Rightarrow>
        let s = s\<lparr>gd_sessions := t\<rparr>
        in (i, if session_size t > dc_maxClientSessions (gd_cfg s) then forceClose c ''client session limit'' s else s))"

definition OnClientClosed :: "u64 \<Rightarrow> GatewayDispatcher \<Rightarrow> GatewayDispatcher" where
  "OnClientClosed sessionId s =
     (let s = (case session_get (gd_sessions s) sessionId of None \<Rightarrow> s | Some ss \<Rightarrow> NotifySceneBinding ss False s);
          s = s\<lparr>gd_sessions := snd (session_erase (gd_sessions s) sessionId)\<rparr>
      in s\<lparr>gd_routes := snd (EraseBySession (gd_routes s) sessionId)\<rparr>)"

definition OnBackendConnected :: "nat \<Rightarrow> GatewayDispatcher \<Rightarrow> GatewayDispatcher" where
  "OnBackendConnected c s = s\<lparr>gd_services := snd (AddPending (gd_services s) (conn_name s c) (Some c))\<rparr>"

definition OnBackendClosed :: "nat \<Rightarrow> GatewayDispatcher \<Rightarrow> GatewayDispatcher" where
  "OnBackendClosed c s = s\<lparr>gd_services := snd (RemoveByName (gd_services s) (conn_name s c))\<rparr>"

fun time_out :: "ReturnRoute list \<Rightarrow> GatewayDispatcher \<Rightarrow> GatewayDispatcher" where
  "time_out [] s = s"
| "time_out (r # rest) s =
     time_out rest
       (case session_get (gd_sessions s) (rr_clientSessionId r) of
          None \<Rightarrow> s
        | Some ss \<Rightarrow>
            (case cs_conn ss of
               None \<Rightarrow> s
             | Some k \<Rightarrow> if \<not> cs_authed ss \<or> cs_epoch ss \<noteq> rr_sessionEpoch r then s
                 else SendToClient k kErrorKind (rr_module r) (rr_method r) (rr_clientRequestId r) (ascii ''request timeout'') [] s))"

definition SweepRoutes :: "int \<Rightarrow> GatewayDispatcher \<Rightarrow> nat \<times> GatewayDispatcher" where
  "SweepRoutes nowMs s =
     (case SweepExpired (gd_routes s) nowMs (dc_routeTtlMs (gd_cfg s)) of (gone, rs) \<Rightarrow>
        (length gone, time_out gone (s\<lparr>gd_routes := rs\<rparr>)))"

section \<open>What the helpers leave alone\<close>

text \<open>The frames in a log that went to backends, and the responses to clients.\<close>

definition backend_frames :: "gw_out list \<Rightarrow> gate_message list" where
  "backend_frames log = concat (map (\<lambda>x. case x of SentBackend _ fs \<Rightarrow> fs | _ \<Rightarrow> []) log)"

definition is_response :: "gw_out \<Rightarrow> bool" where
  "is_response x = (case x of SentClient _ h _ \<Rightarrow> c_kind h = kResponse | _ \<Rightarrow> False)"

abbreviation responses :: "gw_out list \<Rightarrow> gw_out list" where
  "responses \<equiv> filter is_response"

lemma backend_frames_simps [simp]:
  "backend_frames [] = []" "backend_frames (xs @ ys) = backend_frames xs @ backend_frames ys"
  "backend_frames (SentBackend c fs # xs) = fs @ backend_frames xs" "backend_frames (SentClient c h b # xs) = backend_frames xs"
  "backend_frames (ForceClosed c r # xs) = backend_frames xs" "backend_frames (Threw e # xs) = backend_frames xs"
  by (simp_all add: backend_frames_def)

lemma is_response_simps [simp]:
  "is_response (SentClient c h b) \<longleftrightarrow> c_kind h = kResponse" "\<not> is_response (SentBackend c fs)" "\<not> is_response (ForceClosed c r)"
  "\<not> is_response (Threw e)"
  by (simp_all add: is_response_def)

lemma emit_fields [simp]:
  "gd_cfg (emit x s) = gd_cfg s" "gd_sessions (emit x s) = gd_sessions s" "gd_services (emit x s) = gd_services s"
  "gd_routes (emit x s) = gd_routes s" "gd_nextSeq (emit x s) = gd_nextSeq s" "gd_queues (emit x s) = gd_queues s"
  "gd_conns (emit x s) = gd_conns s" "gd_log (emit x s) = gd_log s @ [x]"
  by (simp_all add: emit_def)

lemma on_conn_fields [simp]:
  "gd_cfg (on_conn f c s) = gd_cfg s" "gd_sessions (on_conn f c s) = gd_sessions s" "gd_services (on_conn f c s) = gd_services s"
  "gd_routes (on_conn f c s) = gd_routes s" "gd_nextSeq (on_conn f c s) = gd_nextSeq s" "gd_queues (on_conn f c s) = gd_queues s"
  "gd_log (on_conn f c s) = gd_log s"
  by (simp_all add: on_conn_def split: option.splits)

text \<open>Closing a connection and sending to a client change the log and the connections only.\<close>

definition quiet :: "GatewayDispatcher \<Rightarrow> GatewayDispatcher \<Rightarrow> bool" where
  "quiet s s' \<longleftrightarrow> gd_cfg s' = gd_cfg s \<and> gd_sessions s' = gd_sessions s \<and> gd_services s' = gd_services s \<and> gd_routes s' = gd_routes s
     \<and> gd_nextSeq s' = gd_nextSeq s \<and> gd_queues s' = gd_queues s \<and> backend_frames (gd_log s') = backend_frames (gd_log s)"

lemma quiet_fields:
  assumes "quiet s s'"
  shows "gd_cfg s' = gd_cfg s" "gd_sessions s' = gd_sessions s" "gd_services s' = gd_services s" "gd_routes s' = gd_routes s"
    "gd_nextSeq s' = gd_nextSeq s" "gd_queues s' = gd_queues s" "backend_frames (gd_log s') = backend_frames (gd_log s)"
  using assms by (simp_all add: quiet_def)

lemma quiet_forceClose: "quiet s (forceClose c r s)"
  by (simp add: quiet_def forceClose_def)

lemma quiet_SendToClient: "quiet s (SendToClient c kind m f q b n s)"
  by (simp add: quiet_def SendToClient_def)

lemma quiet_RejectClient: "quiet s (RejectClient c q m r s)"
  by (simp add: RejectClient_def quiet_SendToClient)

lemmas forceClose_fields [simp] = quiet_fields [OF quiet_forceClose]
lemmas SendToClient_fields [simp] = quiet_fields [OF quiet_SendToClient]
lemmas RejectClient_fields [simp] = quiet_fields [OF quiet_RejectClient]

lemma kinds_distinct [simp]: "kErrorKind \<noteq> kResponse" "kControl \<noteq> kResponse" "kPush \<noteq> kResponse"
  by (simp_all add: kErrorKind_def kControl_def kPush_def kResponse_def)

lemma responses_quiet [simp]:
  "responses (gd_log (forceClose c r s)) = responses (gd_log s)"
  "kind \<noteq> kResponse \<Longrightarrow> responses (gd_log (SendToClient c kind m f q b n s)) = responses (gd_log s)"
  "responses (gd_log (RejectClient c q m reason s)) = responses (gd_log s)"
  by (simp_all add: forceClose_def SendToClient_def RejectClient_def)

text \<open>Queueing a submission changes the queues only.\<close>

definition queued :: "GatewayDispatcher \<Rightarrow> Submission set" where
  "queued s = (\<Union>q \<in> snd ` set (gd_queues s). set q)"

lemma Queue_fields [simp]:
  "gd_cfg (QueueSceneSubmission ss ep on fs q s) = gd_cfg s" "gd_sessions (QueueSceneSubmission ss ep on fs q s) = gd_sessions s"
  "gd_services (QueueSceneSubmission ss ep on fs q s) = gd_services s" "gd_routes (QueueSceneSubmission ss ep on fs q s) = gd_routes s"
  "gd_nextSeq (QueueSceneSubmission ss ep on fs q s) = gd_nextSeq s" "gd_log (QueueSceneSubmission ss ep on fs q s) = gd_log s"
  "gd_conns (QueueSceneSubmission ss ep on fs q s) = gd_conns s"
  by (simp_all add: QueueSceneSubmission_def Let_def split: option.splits)

lemma queued_update: "\<Union> (set ` snd ` set (AList.update l q qs)) \<subseteq> set q \<union> \<Union> (set ` snd ` set qs)"
proof -
  have "set (AList.update l q qs) \<subseteq> insert (l, q) (set qs)" by (induction qs) auto
  then show ?thesis by fastforce
qed

lemma Queue_queued:
  "queued (QueueSceneSubmission ss ep on fs q s) \<subseteq>
     insert \<lparr>sb_session = ss, sb_endpoint = ep, sb_online = on, sb_businessFrame = fs, sb_seq = q\<rparr> (queued s)"
proof -
  have old: "set x \<subseteq> queued s" if "map_of (gd_queues s) l = Some x" for x l
    using map_of_SomeD [OF that] by (force simp: queued_def)
  show ?thesis
    using queued_update old by (fastforce simp: QueueSceneSubmission_def Let_def queued_def split: option.splits)
qed

lemma Notify_cases:
  "NotifySceneBinding ss on s = s \<or> (cs_authed ss \<and> (\<exists>ep. NotifySceneBinding ss on s = QueueSceneSubmission ss ep on [] 0 s))"
  by (auto simp: NotifySceneBinding_def split: option.splits)

lemma Notify_fields [simp]:
  "gd_cfg (NotifySceneBinding ss on s) = gd_cfg s" "gd_sessions (NotifySceneBinding ss on s) = gd_sessions s"
  "gd_services (NotifySceneBinding ss on s) = gd_services s" "gd_routes (NotifySceneBinding ss on s) = gd_routes s"
  "gd_nextSeq (NotifySceneBinding ss on s) = gd_nextSeq s" "gd_log (NotifySceneBinding ss on s) = gd_log s"
  using Notify_cases [of ss on s] by auto

section \<open>Runs\<close>

text \<open>
  A run at the level of frames: the traffic guard of a connection may change and a connection may be closed at any time,
  which is what the receive loops, the peers and the timers do between frames.
\<close>

datatype gw_op = GNew nat string nat | GGuard nat TrafficGuard | GClose nat string | GClientConnected nat int
  | GClientFrame nat u64 ClientHeader bytes int | GClientClosed u64 | GBackendConnected nat | GBackendFrame nat Header bytes int
  | GBackendClosed nat | GRun nat bool | GSweep int

definition run_queue :: "nat \<Rightarrow> bool \<Rightarrow> GatewayDispatcher \<Rightarrow> GatewayDispatcher" where
  "run_queue l alive s = (case map_of (gd_queues s) l of
     Some (sub # q) \<Rightarrow> run_submission sub alive (s\<lparr>gd_queues := AList.update l q (gd_queues s)\<rparr>) | _ \<Rightarrow> s)"

fun gw_step :: "gw_op \<Rightarrow> GatewayDispatcher \<Rightarrow> GatewayDispatcher" where
  "gw_step (GNew c name l) s = (if map_of (gd_conns s) c \<noteq> None then s else
     s\<lparr>gd_conns := AList.update c \<lparr>cn_name = name, cn_connected = True, cn_loop = l, cn_guard = new_guard\<rparr> (gd_conns s)\<rparr>)"
| "gw_step (GGuard c g) s = on_conn (\<lambda>k. k\<lparr>cn_guard := g\<rparr>) c s"
| "gw_step (GClose c reason) s = forceClose c reason s"
| "gw_step (GClientConnected c now) s = snd (OnClientConnected c now s)"
| "gw_step (GClientFrame c sid h body now) s = HandleClientFrame c sid h body now s"
| "gw_step (GClientClosed sid) s = OnClientClosed sid s"
| "gw_step (GBackendConnected c) s = OnBackendConnected c s"
| "gw_step (GBackendFrame c h body now) s = HandleBackendFrame c h body now s"
| "gw_step (GBackendClosed c) s = OnBackendClosed c s"
| "gw_step (GRun l alive) s = run_queue l alive s"
| "gw_step (GSweep now) s = snd (SweepRoutes now s)"

definition gw_run :: "gw_op list \<Rightarrow> GatewayDispatcher \<Rightarrow> GatewayDispatcher" where
  "gw_run ops s = fold gw_step ops s"

lemma gw_run_simps [simp]: "gw_run [] s = s" "gw_run (op # ops) s = gw_run ops (gw_step op s)"
  "gw_run (xs @ ys) s = gw_run ys (gw_run xs s)"
  by (simp_all add: gw_run_def)

section \<open>The receive loops are runs\<close>

lemma AllowFrame_run: "\<exists>ops. snd (AllowFrame c now s) = gw_run ops s \<and> length ops \<le> 2"
  by (rule exI [of _ "if tg_framesInWindow (count_frame now (guard_of s c)) > dc_maxFramesPerSec (gd_cfg s)
        then [GGuard c (count_frame now (guard_of s c)), GClose c ''client frame rate exceeded'']
        else [GGuard c (count_frame now (guard_of s c))]"]) (simp add: AllowFrame_def Let_def)

lemma decode_error_run: "\<exists>ops. snd (decode_error c reason s) = gw_run ops s \<and> length ops \<le> 2"
  by (rule exI [of _ "if tg_decodeErrors (count_error (guard_of s c)) \<ge> dc_maxDecodeErrors (gd_cfg s)
        then [GGuard c (count_error (guard_of s c)), GClose c reason] else [GGuard c (count_error (guard_of s c))]"])
    (simp add: decode_error_def Let_def)

lemma decoders_advance:
  assumes "buffer_ok b"
  shows "\<exists>v b'. client_next b = Some (v, b') \<and> buffer_ok b'" "client_next b = Some (v, b') \<Longrightarrow> v \<noteq> More \<Longrightarrow> length (readable b') < length (readable b)"
    "\<exists>w b'. gate_next dst b = Some (w, b') \<and> buffer_ok b'" "gate_next dst b = Some (w, b') \<Longrightarrow> w \<noteq> More \<Longrightarrow> length (readable b') < length (readable b)"
  using client_rx.impl_total [OF assms, where h = default_client_header and body = "[]" and r = 0]
    client_rx.impl_progress [OF assms, where h = default_client_header and body = "[]" and r = 0]
    gate_rx.impl_total [OF assms, where head = default_header and body = "[]" and dst = dst and r = 0]
    gate_rx.impl_progress [OF assms, where head = default_header and body = "[]" and dst = dst and r = 0]
  unfolding client_next_loop gate_next_loop by blast+

text \<open>The contract of both loops: a decoder that is total and makes progress, and a handler that is a step.\<close>

locale frame_loop =
  fixes decode :: "GatewayDispatcher \<Rightarrow> buffer \<Rightarrow> ('m verdict \<times> buffer) option" and op_of :: "'m \<Rightarrow> gw_op"
    and loop :: "nat \<Rightarrow> buffer \<Rightarrow> GatewayDispatcher \<Rightarrow> (buffer \<times> GatewayDispatcher) option"
    and c :: nat and now :: int and reason :: string
  assumes loop_Suc: "loop (Suc fuel) b s = (case decode s b of
        None \<Rightarrow> None
      | Some (More, b) \<Rightarrow> Some (b, s)
      | Some (Bad, b) \<Rightarrow> (case decode_error c reason s of (False, s) \<Rightarrow> Some (b, s) | (True, s) \<Rightarrow> loop fuel b s)
      | Some (Got m, b) \<Rightarrow>
          (case AllowFrame c now s of
             (False, s) \<Rightarrow> Some (b, s)
           | (True, s) \<Rightarrow> let s = gw_step (op_of m) s in if \<not> connected s c then Some (b, s) else loop fuel b s))"
    and total: "buffer_ok b \<Longrightarrow> \<exists>v b'. decode s b = Some (v, b') \<and> buffer_ok b'"
    and progress: "buffer_ok b \<Longrightarrow> decode s b = Some (v, b') \<Longrightarrow> v \<noteq> More \<Longrightarrow> length (readable b') < length (readable b)"
begin

lemma loop_runs:
  "buffer_ok b \<Longrightarrow> length (readable b) < fuel \<Longrightarrow>
     \<exists>b' ops. loop fuel b s = Some (b', gw_run ops s) \<and> buffer_ok b' \<and> length ops \<le> 3 * length (readable b)"
proof (induction fuel arbitrary: b s)
  case (Suc fuel)
  obtain v b1 where d: "decode s b = Some (v, b1)" "buffer_ok b1" using total [OF Suc.prems(1)] by blast
  have less: "v \<noteq> More \<Longrightarrow> length (readable b1) < length (readable b)" using progress [OF Suc.prems(1) d(1)] .
  have go: "\<exists>b' ops. loop fuel b1 (gw_run pre s) = Some (b', gw_run ops s) \<and> buffer_ok b' \<and> length ops \<le> 3 * length (readable b)"
    if v: "v \<noteq> More" and pre: "length pre \<le> 3" for pre
  proof -
    have "length (readable b1) < fuel" using less [OF v] Suc.prems(2) by simp
    from Suc.IH [OF d(2) this, of "gw_run pre s"] obtain b' ops where "loop fuel b1 (gw_run pre s) = Some (b', gw_run (pre @ ops) s)"
      "buffer_ok b'" "length ops \<le> 3 * length (readable b1)" by auto
    then show ?thesis using less [OF v] pre by (intro exI [of _ b'] exI [of _ "pre @ ops"]) simp
  qed
  show ?case
  proof (cases v)
    case More
    then show ?thesis using d by (intro exI [of _ b1] exI [of _ "[]"]) (simp add: loop_Suc)
  next
    case Bad
    obtain ok s1 where e: "decode_error c reason s = (ok, s1)" by force
    obtain ops where ops: "s1 = gw_run ops s" "length ops \<le> 2" using decode_error_run [of c reason s] e by auto
    have "length ops \<le> 3 * length (readable b)" using ops(2) less Bad by simp
    then show ?thesis using go [of ops] ops Bad d e by (cases ok) (auto simp: loop_Suc)
  next
    case (Got m)
    obtain ok s1 where e: "AllowFrame c now s = (ok, s1)" by force
    obtain ops where ops: "s1 = gw_run ops s" "length ops \<le> 2" using AllowFrame_run [of c now s] e by auto
    have l: "length ops \<le> 3 * length (readable b)" "length (ops @ [op_of m]) \<le> 3 * length (readable b)" using ops(2) less Got by simp_all
    show ?thesis
    proof (cases "ok \<and> connected (gw_step (op_of m) s1) c")
      case True
      then have "loop (Suc fuel) b s = loop fuel b1 (gw_run (ops @ [op_of m]) s)" using Got d e ops(1) by (simp add: loop_Suc Let_def)
      then show ?thesis using go [of "ops @ [op_of m]"] ops(2) Got by simp
    next
      case False
      then have "loop (Suc fuel) b s = Some (b1, gw_run (if ok then ops @ [op_of m] else ops) s)" using Got d e ops(1) by (auto simp: loop_Suc Let_def)
      then show ?thesis using d(2) l by (intro exI [of _ b1] exI [of _ "if ok then ops @ [op_of m] else ops"]) simp
    qed
  qed
qed simp

end

interpretation client_receive: frame_loop "\<lambda>_. client_next" "\<lambda>(h, body). GClientFrame c sessionId h body now"
    "\<lambda>fuel. receive_client fuel c sessionId now" c now "''too many client decode errors''" for c sessionId now
proof
  fix fuel b s
  show "receive_client (Suc fuel) c sessionId now b s = (case client_next b of
        None \<Rightarrow> None
      | Some (More, b) \<Rightarrow> Some (b, s)
      | Some (Bad, b) \<Rightarrow> (case decode_error c ''too many client decode errors'' s of (False, s) \<Rightarrow> Some (b, s)
            | (True, s) \<Rightarrow> receive_client fuel c sessionId now b s)
      | Some (Got m, b) \<Rightarrow>
          (case AllowFrame c now s of
             (False, s) \<Rightarrow> Some (b, s)
           | (True, s) \<Rightarrow> let s = gw_step (case m of (h, body) \<Rightarrow> GClientFrame c sessionId h body now) s
               in if \<not> connected s c then Some (b, s) else receive_client fuel c sessionId now b s))"
    by (auto split: option.splits verdict.splits prod.splits bool.splits)
qed (use decoders_advance in blast)+

interpretation backend_receive: frame_loop "\<lambda>s. gate_next (dc_selfServiceId (gd_cfg s))" "\<lambda>(h, body). GBackendFrame c h body now"
    "\<lambda>fuel. receive_backend fuel c now" c now "''too many backend decode errors''" for c now
proof
  fix fuel b s
  show "receive_backend (Suc fuel) c now b s = (case gate_next (dc_selfServiceId (gd_cfg s)) b of
        None \<Rightarrow> None
      | Some (More, b) \<Rightarrow> Some (b, s)
      | Some (Bad, b) \<Rightarrow> (case decode_error c ''too many backend decode errors'' s of (False, s) \<Rightarrow> Some (b, s)
            | (True, s) \<Rightarrow> receive_backend fuel c now b s)
      | Some (Got m, b) \<Rightarrow>
          (case AllowFrame c now s of
             (False, s) \<Rightarrow> Some (b, s)
           | (True, s) \<Rightarrow> let s = gw_step (case m of (h, body) \<Rightarrow> GBackendFrame c h body now) s
               in if \<not> connected s c then Some (b, s) else receive_backend fuel c now b s))"
    by (auto split: option.splits verdict.splits prod.splits bool.splits)
qed (use decoders_advance in blast)+

lemma guards_run:
  "\<exists>ops. snd (CheckProtocolMagic c b k s) = gw_run ops s \<and> length ops \<le> 1"
  "\<exists>ops. snd (CheckReadBuffer c b s) = gw_run ops s \<and> length ops \<le> 1"
proof -
  show "\<exists>ops. snd (CheckProtocolMagic c b k s) = gw_run ops s \<and> length ops \<le> 1"
    by (rule exI [of _ "if HasMagic b (if k then kMagic else kClientMagic) then [GClose c ''protocol magic mismatch''] else []"])
      (simp add: CheckProtocolMagic_def Let_def)
  show "\<exists>ops. snd (CheckReadBuffer c b s) = gw_run ops s \<and> length ops \<le> 1"
    by (rule exI [of _ "if readableBytes b > dc_maxReadBufferBytes (gd_cfg s) then [GClose c ''read buffer overflow''] else []"])
      (simp add: CheckReadBuffer_def)
qed

lemma guarded_run:
  assumes "buffer_ok b" and loop: "\<And>s. \<exists>b' ops. loop s = Some (b', gw_run ops s) \<and> buffer_ok b' \<and> length ops \<le> n"
  shows "\<exists>b' ops. (case CheckProtocolMagic c b k s of (False, s) \<Rightarrow> Some (b, s)
      | (True, s) \<Rightarrow> (case CheckReadBuffer c b s of (False, s) \<Rightarrow> Some (b, s) | (True, s) \<Rightarrow> loop s)) = Some (b', gw_run ops s)
    \<and> buffer_ok b' \<and> length ops \<le> n + 2"
proof -
  obtain m s1 where m: "CheckProtocolMagic c b k s = (m, s1)" by force
  obtain r s2 where r: "CheckReadBuffer c b s1 = (r, s2)" by force
  obtain o1 where o1: "s1 = gw_run o1 s" "length o1 \<le> 1" using guards_run(1) [of c b k s] m by auto
  obtain o2 where o2: "s2 = gw_run o2 s1" "length o2 \<le> 1" using guards_run(2) [of c b s1] r by auto
  obtain b' o3 where o3: "loop s2 = Some (b', gw_run o3 s2)" "buffer_ok b'" "length o3 \<le> n" using loop by blast
  show ?thesis
  proof (cases m)
    case False
    then show ?thesis using m o1 assms(1) by (intro exI [of _ b] exI [of _ o1]) simp
  next
    case mt: True
    show ?thesis
    proof (cases r)
      case False
      then show ?thesis using m r mt o1 o2 assms(1) by (intro exI [of _ b] exI [of _ "o1 @ o2"]) simp
    next
      case True
      then show ?thesis using m r mt o1 o2 o3 by (intro exI [of _ b'] exI [of _ "o1 @ o2 @ o3"]) simp
    qed
  qed
qed

text \<open>
  C14. The message callbacks return, whatever bytes the peer sends: neither runs out of fuel nor reads outside its buffer, and what they do to the
  dispatcher is a bounded sequence of frame steps, so that what holds of all runs holds after every callback.
\<close>

theorem message_callbacks_return:
  assumes "buffer_ok b"
  shows "(\<exists>b' ops. OnClientMessage c sessionId now b s = Some (b', gw_run ops s) \<and> buffer_ok b' \<and> length ops \<le> 3 * length (readable b) + 2)
    \<and> (\<exists>b' ops. OnBackendMessage c now b s = Some (b', gw_run ops s) \<and> buffer_ok b' \<and> length ops \<le> 3 * length (readable b) + 2)"
  unfolding OnClientMessage_def OnBackendMessage_def using assms
  by (intro conjI guarded_run client_receive.loop_runs backend_receive.loop_runs) simp_all

section \<open>Return routes of the gateway\<close>

text \<open>
  Every route is filed under its own sequence number, which was given out before, and belongs to a session that exists.
\<close>

definition routes_ok :: "GatewayDispatcher \<Rightarrow> bool" where
  "routes_ok s \<longleftrightarrow> umap_ok (gd_routes s) \<and> (\<forall>q r. map_of (gd_routes s) q = Some r \<longrightarrow>
     rr_internalSeq r = q \<and> unat q < unat (gd_nextSeq s) \<and> session_get (gd_sessions s) (rr_clientSessionId r) \<noteq> None)"

lemma routes_ok_quiet: "quiet s s' \<Longrightarrow> routes_ok s' = routes_ok s"
  by (simp add: routes_ok_def quiet_def)

text \<open>The sessions that exist, as far as the routes need them.\<close>

definition keeps_sessions :: "ClientSessionTable \<Rightarrow> ClientSessionTable \<Rightarrow> bool" where
  "keeps_sessions t t' \<longleftrightarrow> (\<forall>i. session_get t i \<noteq> None \<longrightarrow> session_get t' i \<noteq> None)"

lemma keeps_sessionsI [simp]:
  "keeps_sessions t t" "keeps_sessions t (snd (session_create t c d n))" "keeps_sessions t (snd (snd (session_bind t i p d n)))"
  "keeps_sessions t (snd (SetDstService t i d))" "keeps_sessions t (snd (SetSceneBinding t i a b e f))"
  "keeps_sessions t (snd (snd (SubmitScene t ss submit)))"
proof -
  have "keeps_sessions t (snd (evict t i p))" by (auto simp: keeps_sessions_def evict_def session_get_def split: option.splits)
  then show "keeps_sessions t (snd (snd (session_bind t i p d n)))"
    by (auto simp: keeps_sessions_def session_bind_def session_get_def Let_def split: option.splits prod.splits)
qed (auto simp: keeps_sessions_def session_create_def SetDstService_def SetSceneBinding_def SubmitScene_def session_get_def Let_def
    split: option.splits)

lemma routes_ok_sessions:
  "routes_ok s \<Longrightarrow> keeps_sessions (gd_sessions s) t \<Longrightarrow> routes_ok (s\<lparr>gd_sessions := t\<rparr>)"
  unfolding routes_ok_def keeps_sessions_def by fastforce

lemma routes_ok_fields [simp]:
  "routes_ok (s\<lparr>gd_services := r\<rparr>) = routes_ok s" "routes_ok (s\<lparr>gd_queues := q\<rparr>) = routes_ok s" "routes_ok (s\<lparr>gd_conns := cs\<rparr>) = routes_ok s"
  "routes_ok (forceClose c reason s) = routes_ok s" "routes_ok (SendToClient c kind m f rid b n s) = routes_ok s"
  "routes_ok (RejectClient c rid m reason s) = routes_ok s" "routes_ok (QueueSceneSubmission ss ep on fs sq s) = routes_ok s"
  "routes_ok (NotifySceneBinding ss on s) = routes_ok s" "routes_ok (emit x s) = routes_ok s" "routes_ok (on_conn f' c s) = routes_ok s"
  by (simp_all add: routes_ok_def)

text \<open>Removing routes, and removing a session together with its routes.\<close>

lemma routes_ok_take: "routes_ok s \<Longrightarrow> routes_ok (s\<lparr>gd_routes := snd (route_take (gd_routes s) q)\<rparr>)"
  by (auto simp: routes_ok_def route_take_def delete_conv' split: option.splits if_splits)

lemma routes_ok_filter: "routes_ok s \<Longrightarrow> routes_ok (s\<lparr>gd_routes := filter P (gd_routes s)\<rparr>)"
  by (auto simp: routes_ok_def map_of_filter_ok split: option.splits if_splits)

lemma routes_ok_erase:
  assumes "routes_ok s" and s': "gd_routes s' = snd (EraseBySession (gd_routes s) i)" "gd_sessions s' = snd (session_erase (gd_sessions s) i)"
    "gd_nextSeq s' = gd_nextSeq s"
  shows "routes_ok s'"
proof -
  have u: "umap_ok (gd_routes s)" using assms(1) by (simp add: routes_ok_def)
  have "rr_clientSessionId r \<noteq> i" "map_of (gd_routes s) q = Some r" if "map_of (gd_routes s') q = Some r" for q r
    using that u by (auto simp: s' EraseBySession_def map_of_filter_ok split: option.splits if_splits)
  moreover have "session_get (gd_sessions s') j = session_get (gd_sessions s) j" if "j \<noteq> i" for j
    using that by (auto simp: s' session_erase_def session_get_def split: option.splits)
  moreover have "umap_ok (gd_routes s')" using u by (simp add: s' EraseBySession_def Let_def)
  ultimately show ?thesis using assms(1) s'(3) unfolding routes_ok_def by (smt (verit))
qed

lemma kick_ok: "routes_ok s \<Longrightarrow> routes_ok (kick k s)"
proof (cases "k = 0")
  case False
  assume "routes_ok s"
  moreover have "gd_routes (kick k s) = snd (EraseBySession (gd_routes s) k)" "gd_sessions (kick k s) = snd (session_erase (gd_sessions s) k)"
    "gd_nextSeq (kick k s) = gd_nextSeq s"
    using False by (auto simp: kick_def Let_def split: option.splits)
  ultimately show ?thesis by (rule routes_ok_erase)
qed (simp add: kick_def)

lemma kick_nextSeq [simp]: "gd_nextSeq (kick k s) = gd_nextSeq s"
  by (auto simp: kick_def Let_def split: option.splits)

lemma forward_ok:
  assumes ok: "routes_ok s" and sid: "session_get (gd_sessions s) sid \<noteq> None" and n: "gd_nextSeq s \<noteq> 0xFFFFFFFFFFFFFFFF"
  shows "routes_ok (forward_request c sid session dst ep h body now s)"
proof -
  let ?q = "gd_nextSeq s"
  have n1: "unat (?q + 1) = unat ?q + 1" using u64_next_below [OF n] .
  have next': "routes_ok (s\<lparr>gd_nextSeq := ?q + 1\<rparr>)" using ok n1 unfolding routes_ok_def by (auto simp: less_SucI)
  have add: "routes_ok (s\<lparr>gd_nextSeq := ?q + 1, gd_routes := AList.update ?q r (gd_routes s)\<rparr>)"
    if "rr_internalSeq r = ?q" "rr_clientSessionId r = sid" for r
    using ok n1 that sid unfolding routes_ok_def by (auto simp: less_SucI)
  note take = routes_ok_take [OF add, of _ ?q, simplified]
  show ?thesis
    using next' add take by (auto simp: forward_request_def Let_def route_add_def split: sum.splits option.splits)
qed

lemma choose_fields:
  "gd_sessions (snd (choose_scene dst session s)) = gd_sessions s" "gd_routes (snd (choose_scene dst session s)) = gd_routes s"
  "gd_nextSeq (snd (choose_scene dst session s)) = gd_nextSeq s" "gd_log (snd (choose_scene dst session s)) = gd_log s"
  "gd_queues (snd (choose_scene dst session s)) = gd_queues s" "gd_cfg (snd (choose_scene dst session s)) = gd_cfg s"
  by (simp_all add: choose_scene_def Let_def split: prod.splits)

lemma resolve_cases:
  assumes "resolve_endpoint sid session dst s = (ep, cur, s')"
  obtains "s' = s" "cur = session"
  | "cs_sceneId session = 0" "dst = kScene" "s' = snd (choose_scene dst session s)" "cur = session" "ep = None"
  | x :: ServiceEndpoint where "cs_sceneId session = 0" "dst = kScene" "s' = (snd (choose_scene dst session s))\<lparr>gd_sessions :=
        snd (SetSceneBinding (gd_sessions s) sid (ep_sceneId x) (ep_channelId x) (ep_sceneIncarnation x) (ep_connName x))\<rparr>"
      "session_get (gd_sessions s') sid = Some cur \<or> ep = None"
proof (cases "dst \<noteq> kScene \<or> cs_sceneId session \<noteq> 0")
  case True
  then show ?thesis using assms by (intro that(1)) (auto simp: resolve_endpoint_def split: if_splits)
next
  case False
  obtain x s1 where c: "choose_scene dst session s = (x, s1)" by force
  have s1: "gd_sessions s1 = gd_sessions s" using choose_fields(1) [of dst session s] c by simp
  show ?thesis
  proof (cases x)
    case None
    then show ?thesis using False assms c by (intro that(2)) (auto simp: resolve_endpoint_def)
  next
    case (Some e)
    show ?thesis
      using False assms c s1 Some
      by (intro that(3) [of e]) (auto simp: resolve_endpoint_def Let_def split: option.splits)
  qed
qed

lemma resolve_fields:
  assumes "resolve_endpoint sid session dst s = (ep, cur, s')"
  shows "gd_routes s' = gd_routes s" "gd_nextSeq s' = gd_nextSeq s" "gd_log s' = gd_log s" "gd_queues s' = gd_queues s" "gd_cfg s' = gd_cfg s"
    "keeps_sessions (gd_sessions s) (gd_sessions s')"
  by (rule resolve_cases [OF assms]; simp add: choose_fields)+

lemma forward_nextSeq: "gd_nextSeq (forward_request c sid session dst ep h body now s) = gd_nextSeq s + 1"
  by (auto simp: forward_request_def Let_def split: prod.splits sum.splits option.splits bool.splits)

lemma handle_request_cases:
  obtains "quiet s (handle_request c sid session h body now s)" "responses (gd_log (handle_request c sid session h body now s)) = responses (gd_log s)"
  | dst ep cur s' reason where "resolve_endpoint sid session dst s = (ep, cur, s')" "cs_authed session"
      "handle_request c sid session h body now s = RejectClient c (c_requestId h) (c_method h) reason s'"
  | dst ep cur s' where "resolve_endpoint sid session dst s = (Some ep, cur, s')" "cs_authed session" "dst = request_service s session h"
      "handle_request c sid session h body now s = forward_request c sid cur dst ep h body now s'"
proof (cases "c_kind h \<noteq> kRequest \<or> c_requestId h = 0 \<or> \<not> cs_authed session \<or> c_module h = ServiceModule_kChat \<and> c_roleName h = []
    \<or> \<not> IsAllowedService s (request_service s session h)")
  case True
  then show ?thesis using quiet_RejectClient by (intro that(1)) (auto simp: handle_request_def Let_def)
next
  case False
  obtain ep cur s' where r: "resolve_endpoint sid session (request_service s session h) s = (ep, cur, s')" by (metis prod_cases3)
  show ?thesis
  proof (cases "ep = None \<or> ep_conn (the ep) = None")
    case True
    then show ?thesis using False r by (intro that(2) [OF r]) (auto simp: handle_request_def Let_def split: option.splits)
  next
    case ep: False
    then obtain e where e: "ep = Some e" by auto
    show ?thesis using False r ep e by (intro that(3) [of _ e]) (auto simp: handle_request_def Let_def)
  qed
qed

section \<open>Players on whose behalf the gateway speaks\<close>

definition authed_players :: "ClientSessionTable \<Rightarrow> u64 set" where
  "authed_players t = {cs_playerId ss | i ss. session_get t i = Some ss \<and> cs_authed ss}"

lemma authed_playersI: "session_get t i = Some ss \<Longrightarrow> cs_authed ss \<Longrightarrow> cs_playerId ss \<in> authed_players t"
  by (auto simp: authed_players_def)

lemma authed_players_ops:
  "authed_players (snd (session_create t c d n)) \<subseteq> authed_players t" "authed_players (snd (SetDstService t i d)) \<subseteq> authed_players t"
  "authed_players (snd (SetSceneBinding t i a b e f)) \<subseteq> authed_players t" "authed_players (snd (snd (SubmitScene t ss submit))) \<subseteq> authed_players t"
  "authed_players (snd (session_erase t i)) \<subseteq> authed_players t"
  by (auto simp: authed_players_def session_create_def SetDstService_def SetSceneBinding_def SubmitScene_def session_erase_def clear_scene_def
      session_get_def Let_def split: option.splits if_splits)

lemma authed_players_bind: "authed_players (snd (snd (session_bind t i p d n))) \<subseteq> insert p (authed_players t)"
proof (cases "session_bind t i p d n")
  case (fields r k t')
  show ?thesis
  proof (cases r)
    case True
    with fields have "session_bind t i p d n = (True, k, t')" by simp
    then obtain it s where "cs_authed s" "cs_playerId s = p"
      "\<And>j. map_of (sessions t') j = (if j = i then Some s else if map_of (playerIndex t) p = Some j
        then map_option (\<lambda>o'. o'\<lparr>cs_authed := False, cs_playerId := 0\<rparr>) (map_of (sessions t) j) else map_of (sessions t) j)"
      by (rule bind_success) blast
    then show ?thesis unfolding fields authed_players_def session_get_def by (fastforce split: if_splits)
  qed (use fields bind_failure [of t i p d n k t'] in auto)
qed

text \<open>The gateway speaks for the players in \<open>L\<close> only: in the sessions, in the queues, and in what it has sent.\<close>

definition speaks_for :: "DispatcherConfig \<Rightarrow> u64 set \<Rightarrow> GatewayDispatcher \<Rightarrow> bool" where
  "speaks_for cfg L s \<longleftrightarrow> gd_cfg s = cfg \<and> authed_players (gd_sessions s) \<subseteq> L
     \<and> (\<forall>sub \<in> queued s. cs_playerId (sb_session sub) \<in> L \<and> (\<forall>f \<in> set (sb_businessFrame sub). h_playerId (fst f) \<in> L))
     \<and> (\<forall>f \<in> set (backend_frames (gd_log s)). h_playerId (fst f) \<in> L)"

lemma speaks_for_mono: "speaks_for cfg L s \<Longrightarrow> L \<subseteq> M \<Longrightarrow> speaks_for cfg M s"
  unfolding speaks_for_def by blast

lemma queued_fields [simp]:
  "queued (s\<lparr>gd_sessions := t\<rparr>) = queued s" "queued (s\<lparr>gd_services := r\<rparr>) = queued s" "queued (s\<lparr>gd_routes := rs\<rparr>) = queued s"
  "queued (s\<lparr>gd_nextSeq := n\<rparr>) = queued s" "queued (s\<lparr>gd_conns := cs\<rparr>) = queued s" "queued (on_conn f c s) = queued s" "queued (emit x s) = queued s"
  "queued (forceClose c reason s) = queued s" "queued (SendToClient c kind m f' rid b nm s) = queued s" "queued (RejectClient c rid m reason s) = queued s"
  by (simp_all add: queued_def)

lemma speaks_for_fields [simp]:
  "speaks_for cfg L (s\<lparr>gd_services := r\<rparr>) = speaks_for cfg L s" "speaks_for cfg L (s\<lparr>gd_routes := rs\<rparr>) = speaks_for cfg L s"
  "speaks_for cfg L (s\<lparr>gd_nextSeq := n\<rparr>) = speaks_for cfg L s" "speaks_for cfg L (s\<lparr>gd_conns := cs\<rparr>) = speaks_for cfg L s"
  "speaks_for cfg L (on_conn f c s) = speaks_for cfg L s" "speaks_for cfg L (forceClose c reason s) = speaks_for cfg L s"
  "speaks_for cfg L (SendToClient c kind m f' rid b nm s) = speaks_for cfg L s" "speaks_for cfg L (RejectClient c rid m reason s) = speaks_for cfg L s"
  by (simp_all add: speaks_for_def)

lemma speaks_for_sessions:
  "speaks_for cfg L s \<Longrightarrow> authed_players t \<subseteq> L \<union> authed_players (gd_sessions s) \<Longrightarrow> speaks_for cfg L (s\<lparr>gd_sessions := t\<rparr>)"
  unfolding speaks_for_def by auto

lemma speaks_for_Queue:
  assumes "speaks_for cfg L s" "cs_playerId ss \<in> L" "\<forall>f \<in> set fs. h_playerId (fst f) \<in> L"
  shows "speaks_for cfg L (QueueSceneSubmission ss ep on fs sq s)"
  using assms Queue_queued [of ss ep on fs sq s] unfolding speaks_for_def by fastforce

lemma speaks_for_Notify:
  assumes "speaks_for cfg L s" "cs_authed ss \<Longrightarrow> cs_playerId ss \<in> L"
  shows "speaks_for cfg L (NotifySceneBinding ss on s)"
  using Notify_cases [of ss on s] assms speaks_for_Queue [of cfg L s ss "[]"] by auto

lemma speaks_for_session:
  "speaks_for cfg L s \<Longrightarrow> session_get (gd_sessions s) i = Some ss \<Longrightarrow> cs_authed ss \<Longrightarrow> cs_playerId ss \<in> L"
  by (auto simp: speaks_for_def dest: authed_playersI)

lemma speaks_for_kick: "speaks_for cfg L s \<Longrightarrow> speaks_for cfg L (kick k s)"
proof -
  assume s: "speaks_for cfg L s"
  have "speaks_for cfg L (s'\<lparr>gd_sessions := snd (session_erase (gd_sessions s') k)\<rparr>)" if "speaks_for cfg L s'" for s'
    using that authed_players_ops(5) by (intro speaks_for_sessions) blast+
  then show ?thesis using s by (auto simp: kick_def Let_def split: option.splits)
qed

section \<open>Every step, on the routes and on the players\<close>

definition fewer_routes :: "GatewayDispatcher \<Rightarrow> GatewayDispatcher \<Rightarrow> bool" where
  "fewer_routes s s' \<longleftrightarrow> gd_nextSeq s' = gd_nextSeq s \<and> (\<forall>q. map_of (gd_routes s') q = None \<or> map_of (gd_routes s') q = map_of (gd_routes s) q)"

lemma fewer_routes_same: "gd_nextSeq s' = gd_nextSeq s \<Longrightarrow> gd_routes s' = gd_routes s \<Longrightarrow> fewer_routes s s'"
  by (simp add: fewer_routes_def)

lemma fewer_routes_trans: "fewer_routes s s' \<Longrightarrow> fewer_routes s' s'' \<Longrightarrow> fewer_routes s s''"
  unfolding fewer_routes_def by metis

lemma kick_fewer: "routes_ok s \<Longrightarrow> fewer_routes s (kick k s)"
  by (auto simp: fewer_routes_def kick_def Let_def EraseBySession_def routes_ok_def map_of_filter_ok split: option.splits)

lemma fewer_routes_fields [simp]:
  "fewer_routes s s" "fewer_routes s (SendToClient c kind m f rid b nm s') = fewer_routes s s'" "fewer_routes s (RejectClient c rid m reason s') = fewer_routes s s'"
  "fewer_routes s (forceClose c reason s') = fewer_routes s s'" "fewer_routes s (NotifySceneBinding ss on s') = fewer_routes s s'"
  "fewer_routes s (s'\<lparr>gd_sessions := t\<rparr>) = fewer_routes s s'" "fewer_routes s (s'\<lparr>gd_services := r\<rparr>) = fewer_routes s s'"
  "fewer_routes s (s'\<lparr>gd_queues := q\<rparr>) = fewer_routes s s'" "fewer_routes s (s'\<lparr>gd_conns := cs\<rparr>) = fewer_routes s s'"
  "fewer_routes s (on_conn g c s') = fewer_routes s s'" "fewer_routes s (emit x s') = fewer_routes s s'"
  "fewer_routes s (QueueSceneSubmission ss ep on fs sq s') = fewer_routes s s'"
  by (simp_all add: fewer_routes_def)

text \<open>A step that gives out no sequence number and sends no response.\<close>

definition calm :: "GatewayDispatcher \<Rightarrow> GatewayDispatcher \<Rightarrow> bool" where
  "calm s s' \<longleftrightarrow> routes_ok s' \<and> fewer_routes s s' \<and> responses (gd_log s') = responses (gd_log s)"

lemma calm_fields [simp]:
  "calm s s = routes_ok s" "kind \<noteq> kResponse \<Longrightarrow> calm s (SendToClient c kind m f rid b nm s') = calm s s'"
  "calm s (RejectClient c rid m reason s') = calm s s'" "calm s (forceClose c reason s') = calm s s'" "calm s (NotifySceneBinding ss on s') = calm s s'"
  "calm s (s'\<lparr>gd_services := r\<rparr>) = calm s s'" "calm s (s'\<lparr>gd_queues := q\<rparr>) = calm s s'" "calm s (s'\<lparr>gd_conns := cs\<rparr>) = calm s s'"
  "calm s (on_conn g c s') = calm s s'" "calm s (QueueSceneSubmission ss ep on fs sq s') = calm s s'" "calm s (emit (SentBackend c fs) s') = calm s s'"
  by (simp_all add: calm_def)

lemma calm_sessions: "calm s s' \<Longrightarrow> keeps_sessions (gd_sessions s') t \<Longrightarrow> calm s (s'\<lparr>gd_sessions := t\<rparr>)"
  by (simp add: calm_def routes_ok_sessions)

lemma calm_kick: "calm s s' \<Longrightarrow> calm s (kick k s')"
  unfolding calm_def using kick_ok [of s' k] kick_fewer [of s' k] fewer_routes_trans [of s s']
  by (auto simp: kick_def Let_def split: option.splits)

lemma handle_auth_calm:
  assumes "routes_ok s"
  shows "calm s (handle_auth c sid session h body now s)"
proof -
  have "calm s (kick k (s\<lparr>gd_sessions := t\<rparr>))" if "session_bind (gd_sessions s) sid p d now = (r, k, t)" for k t p d r
    using assms keeps_sessionsI(3) [of "gd_sessions s" sid p d now] that by (intro calm_kick calm_sessions) simp_all
  then show ?thesis using assms by (auto simp: handle_auth_def Let_def split: option.splits prod.splits bool.splits)
qed

lemma handle_bind_service_calm:
  assumes "routes_ok s"
  shows "calm s (handle_bind_service c sid session h body s)"
proof -
  have "calm s (s\<lparr>gd_sessions := t\<rparr>)" if "SetDstService (gd_sessions s) sid d = (r, t)" for t d r
    using assms keeps_sessionsI(4) [of "gd_sessions s" sid d] that by (intro calm_sessions) simp_all
  then show ?thesis using assms by (auto simp: handle_bind_service_def Let_def split: option.splits prod.splits bool.splits)
qed

lemma handle_control_calm: "routes_ok s \<Longrightarrow> calm s (handle_control c sid session h body now s)"
  by (simp add: handle_control_def handle_auth_calm handle_bind_service_calm)

lemma reject_submission_calm:
  assumes "calm s s'"
  shows "calm s (reject_submission sub s')"
proof -
  have "calm s (s'\<lparr>gd_routes := rs\<rparr>)" if "route_take (gd_routes s') (sb_seq sub) = (r, rs)" for r rs
  proof -
    have "routes_ok (s'\<lparr>gd_routes := rs\<rparr>)" using routes_ok_take [of s' "sb_seq sub"] assms that by (simp add: calm_def)
    moreover have "fewer_routes s' (s'\<lparr>gd_routes := rs\<rparr>)" using that by (auto simp: fewer_routes_def route_take_def split: option.splits)
    ultimately show ?thesis using assms fewer_routes_trans [of s s'] by (auto simp: calm_def)
  qed
  then show ?thesis using assms by (auto simp: reject_submission_def Let_def split: option.splits prod.splits)
qed

lemma submitted_calm: "calm s s' \<Longrightarrow> calm s (submitted sub flag alive s')"
  by (auto simp: submitted_def Let_def split: option.splits)

lemma run_submission_calm:
  assumes "calm s s'"
  shows "calm s (run_submission sub alive s')"
proof -
  obtain acc flag t where x: "(if sb_online sub then SubmitScene (gd_sessions s') (sb_session sub) (submit_result sub alive s')
            else (submit_result sub alive s' False, Some False, gd_sessions s')) = (acc, flag, t)" by (metis prod_cases3)
  have "keeps_sessions (gd_sessions s') t"
    using x keeps_sessionsI(1,6) by (cases "sb_online sub") (metis snd_conv)+
  then have "calm s (submitted sub flag alive (s'\<lparr>gd_sessions := t\<rparr>))" using assms by (intro submitted_calm calm_sessions)
  then show ?thesis by (simp add: run_submission_def x Let_def reject_submission_calm)
qed

lemma time_out_calm: "calm s s' \<Longrightarrow> calm s (time_out rs s')"
  by (induction rs arbitrary: s') (auto split: option.splits)

lemma filter_fewer: "umap_ok m \<Longrightarrow> \<forall>q. map_of (filter P m) q = None \<or> map_of (filter P m) q = map_of m q"
  by (simp add: map_of_filter_ok split: option.splits)

lemma calm_filter:
  assumes "routes_ok s"
  shows "calm s (s\<lparr>gd_routes := filter P (gd_routes s)\<rparr>)"
proof -
  have "umap_ok (gd_routes s)" using assms by (simp add: routes_ok_def)
  then show ?thesis using routes_ok_filter [OF assms] filter_fewer [of "gd_routes s" P] by (simp add: calm_def fewer_routes_def)
qed

lemma SweepRoutes_calm: "routes_ok s \<Longrightarrow> calm s (snd (SweepRoutes now s))"
  using time_out_calm [OF calm_filter] by (simp add: SweepRoutes_def SweepExpired_def)

lemma OnClientClosed_calm:
  assumes "routes_ok s"
  shows "calm s (OnClientClosed sid s)"
proof -
  let ?s = "OnClientClosed sid s"
  have f: "gd_routes ?s = snd (EraseBySession (gd_routes s) sid)" "gd_sessions ?s = snd (session_erase (gd_sessions s) sid)"
    "gd_nextSeq ?s = gd_nextSeq s" "gd_log ?s = gd_log s"
    by (auto simp: OnClientClosed_def Let_def split: option.splits)
  then have "routes_ok ?s" using routes_ok_erase [OF assms] by blast
  moreover have "umap_ok (gd_routes s)" using assms by (simp add: routes_ok_def)
  then have "fewer_routes s ?s" using f filter_fewer [of "gd_routes s" "\<lambda>(_, r). rr_clientSessionId r \<noteq> sid"] by (simp add: fewer_routes_def EraseBySession_def Let_def)
  ultimately show ?thesis using f by (simp add: calm_def)
qed

lemma handle_handshake_calm: "routes_ok s \<Longrightarrow> calm s (handle_handshake c h body now s)"
  by (auto simp: handle_handshake_def split: option.splits prod.splits bool.splits)

lemma shout_calm: "calm s s' \<Longrightarrow> calm s (shout_to ss h payload nm s')"
  by (induction ss arbitrary: s') (auto split: option.splits)

lemma handle_push_calm: "routes_ok s \<Longrightarrow> calm s (handle_push c self h body s)"
  by (auto simp: handle_push_def Let_def split: option.splits prod.splits)

text \<open>A frame of a backend: either a calm step, or the one response its route has.\<close>

definition answers :: "nat \<Rightarrow> Header \<Rightarrow> bytes \<Rightarrow> ReturnRoute \<Rightarrow> GatewayDispatcher \<Rightarrow> GatewayDispatcher \<Rightarrow> bool" where
  "answers k h body r s s' \<longleftrightarrow> (\<exists>ss. session_get (gd_sessions s) (rr_clientSessionId r) = Some ss \<and> cs_conn ss = Some k \<and> cs_authed ss
      \<and> cs_epoch ss = rr_sessionEpoch r)
     \<and> rr_playerId r = h_playerId h \<and> rr_module r = h_module h \<and> rr_method r = h_method h
     \<and> s' = SendToClient k kResponse (h_module h) (h_method h) (rr_clientRequestId r) body [] (s\<lparr>gd_routes := AList.delete (h_seq h) (gd_routes s)\<rparr>)"

lemma relay_cases:
  assumes ok: "routes_ok s" and r: "route_get (gd_routes s) (h_seq h) = Some r"
  shows "calm s (relay_response c self h body r s) \<or> (\<exists>k. answers k h body r s (relay_response c self h body r s))"
proof (cases "context_mismatch s c self h r")
  case True
  then show ?thesis using ok by (simp add: relay_response_def)
next
  case False
  let ?s = "s\<lparr>gd_routes := AList.delete (h_seq h) (gd_routes s)\<rparr>"
  have take: "route_take (gd_routes s) (h_seq h) = (Some r, AList.delete (h_seq h) (gd_routes s))" using r by (simp add: route_take_def route_get_def)
  have "routes_ok ?s" using routes_ok_take [OF ok, of "h_seq h"] take by simp
  then have calm: "calm s ?s" by (simp add: calm_def fewer_routes_def)
  have same: "rr_playerId r = h_playerId h" "rr_module r = h_module h" "rr_method r = h_method h" using False by (auto simp: context_mismatch_def)
  define drop where "drop \<longleftrightarrow> \<not> legacy_route r \<and> ep_serviceId self = kScene \<and> rr_backendConnName r = conn_name ?s c
     \<and> (case session_get (gd_sessions s) (rr_clientSessionId r) of None \<Rightarrow> False | Some cur \<Rightarrow> other_scene cur r)"
  have eq: "relay_response c self h body r s = (if drop then ?s
      else case session_get (gd_sessions s) (rr_clientSessionId r) of
               None \<Rightarrow> ?s
             | Some ss \<Rightarrow>
                 (case cs_conn ss of
                    None \<Rightarrow> ?s
                  | Some k \<Rightarrow> if cs_authed ss \<and> cs_epoch ss = rr_sessionEpoch r
                      then SendToClient k kResponse (h_module h) (h_method h) (rr_clientRequestId r) body [] ?s else ?s))"
    using False by (simp add: relay_response_def take Let_def drop_def)
  show ?thesis
  proof (cases "\<exists>ss k. session_get (gd_sessions s) (rr_clientSessionId r) = Some ss \<and> cs_conn ss = Some k \<and> cs_authed ss \<and> cs_epoch ss = rr_sessionEpoch r \<and> \<not> drop")
    case True
    then obtain ss k where k: "session_get (gd_sessions s) (rr_clientSessionId r) = Some ss" "cs_conn ss = Some k" "cs_authed ss"
      "cs_epoch ss = rr_sessionEpoch r" "\<not> drop" by blast
    then have "relay_response c self h body r s = SendToClient k kResponse (h_module h) (h_method h) (rr_clientRequestId r) body [] ?s" by (simp add: eq)
    with k same show ?thesis unfolding answers_def by blast
  next
    case False
    then have "relay_response c self h body r s = ?s" unfolding eq by (auto split: option.splits)
    with calm show ?thesis by simp
  qed
qed

lemma handle_shout_calm: "routes_ok s \<Longrightarrow> calm s (handle_shout h body s)"
  using shout_calm by (simp add: handle_shout_def split: prod.splits)

lemma handle_business_cases:
  assumes ok: "routes_ok s"
  shows "calm s (handle_business c self h body s) \<or>
    (\<exists>k r. h_seq h \<noteq> 0 \<and> route_get (gd_routes s) (h_seq h) = Some r \<and> answers k h body r s (handle_business c self h body s))"
proof (cases "if h_seq h \<noteq> 0 then route_get (gd_routes s) (h_seq h) else None")
  case None
  then show ?thesis using ok handle_shout_calm [OF ok] handle_push_calm [OF ok] by (simp add: handle_business_def)
next
  case (Some r)
  then have r: "h_seq h \<noteq> 0" "route_get (gd_routes s) (h_seq h) = Some r" by (auto split: if_splits)
  have "handle_business c self h body s = relay_response c self h body r s \<or> calm s (handle_business c self h body s)"
    using ok r by (simp add: handle_business_def)
  then show ?thesis using relay_cases [OF ok r(2), of c self body] r by auto
qed

lemma backend_frame_cases:
  assumes ok: "routes_ok s"
  obtains (calm) "calm s (HandleBackendFrame c h body now s)"
  | (answer) k r where "h_seq h \<noteq> 0" "route_get (gd_routes s) (h_seq h) = Some r" "answers k h body r s (HandleBackendFrame c h body now s)"
proof -
  have "calm s (HandleBackendFrame c h body now s) \<or> (\<exists>self. HandleBackendFrame c h body now s = handle_business c self h body s)"
    using ok handle_handshake_calm [OF ok] by (auto simp: HandleBackendFrame_def split: option.splits)
  then show ?thesis using handle_business_cases [OF ok] that by metis
qed

lemma answers_step:
  assumes ok: "routes_ok s" and a: "answers k h body r s s'"
  shows "routes_ok s'" "fewer_routes s s'" "map_of (gd_routes s') (h_seq h) = None"
    "gd_log s' = gd_log s @ (if connected s k then [SentClient k (default_client_header\<lparr>c_kind := kResponse, c_module := h_module h,
       c_method := h_method h, c_requestId := rr_clientRequestId r, c_roleName := []\<rparr>) body] else [])"
proof -
  let ?s = "s\<lparr>gd_routes := AList.delete (h_seq h) (gd_routes s)\<rparr>"
  have s': "s' = SendToClient k kResponse (h_module h) (h_method h) (rr_clientRequestId r) body [] ?s" using a by (simp add: answers_def)
  have "?s = s\<lparr>gd_routes := snd (route_take (gd_routes s) (h_seq h))\<rparr> \<or> map_of (gd_routes s) (h_seq h) = None"
    by (simp add: route_take_def split: option.splits)
  then have "routes_ok ?s" using ok routes_ok_take [OF ok, of "h_seq h"] by (auto simp: routes_ok_def)
  then show "routes_ok s'" by (simp add: s')
  show "fewer_routes s s'" "map_of (gd_routes s') (h_seq h) = None" by (simp_all add: s' fewer_routes_def)
  have "ValidRoleName []" by (simp add: ValidRoleName_def)
  then show "gd_log s' = gd_log s @ (if connected s k then [SentClient k (default_client_header\<lparr>c_kind := kResponse, c_module := h_module h,
       c_method := h_method h, c_requestId := rr_clientRequestId r, c_roleName := []\<rparr>) body] else [])"
    by (simp add: s' SendToClient_def connected_def)
qed

lemma client_frame_step:
  fixes c sid h body now
  assumes ok: "routes_ok s" and n: "gd_nextSeq s \<noteq> 0xFFFFFFFFFFFFFFFF"
  defines "s' \<equiv> HandleClientFrame c sid h body now s"
  shows "routes_ok s' \<and> responses (gd_log s') = responses (gd_log s) \<and>
    (fewer_routes s s' \<or> gd_nextSeq s' = gd_nextSeq s + 1 \<and>
      (\<forall>q. q \<noteq> gd_nextSeq s \<longrightarrow> map_of (gd_routes s') q = None \<or> map_of (gd_routes s') q = map_of (gd_routes s) q))"
proof (cases "session_get (gd_sessions s) sid")
  case None
  then show ?thesis using ok by (simp add: s'_def HandleClientFrame_def)
next
  case (Some session)
  show ?thesis
  proof (cases "c_kind h = kControl \<or> c_module h = kClientSysModule")
    case True
    then have "calm s s'" using handle_control_calm [OF ok] Some by (simp add: s'_def HandleClientFrame_def)
    then show ?thesis by (simp add: calm_def)
  next
    case False
    then have s': "s' = handle_request c sid session h body now s" using Some by (simp add: s'_def HandleClientFrame_def)
    show ?thesis
    proof (cases rule: handle_request_cases [of s c sid session h body now])
      case 1
      have "routes_ok s'" using routes_ok_quiet [OF 1(1)] ok s' by simp
      moreover have "fewer_routes s s'" unfolding s' by (rule fewer_routes_same [OF quiet_fields(5,4) [OF 1(1)]])
      ultimately show ?thesis using 1(2) s' by simp
    next
      case (2 dst ep cur s1 reason)
      note f = resolve_fields [OF 2(1)]
      have "routes_ok s1" using ok f unfolding routes_ok_def keeps_sessions_def by fastforce
      then show ?thesis using f unfolding s' 2(3) by (simp add: fewer_routes_def)
    next
      case (3 dst ep cur s1)
      note f = resolve_fields [OF 3(1)]
      have ok1: "routes_ok s1" using ok f unfolding routes_ok_def keeps_sessions_def by fastforce
      have "session_get (gd_sessions s1) sid \<noteq> None" using f(6) Some by (simp add: keeps_sessions_def)
      then have "routes_ok s'" using forward_ok [OF ok1] n f(2) unfolding s' 3(4) by simp
      moreover have "gd_nextSeq s' = gd_nextSeq s + 1" unfolding s' 3(4) using forward_nextSeq f(2) by simp
      moreover have "responses (gd_log s') = responses (gd_log s) \<and> (\<forall>q. q \<noteq> gd_nextSeq s \<longrightarrow> map_of (gd_routes s') q = None \<or> map_of (gd_routes s') q = map_of (gd_routes s) q)"
        unfolding s' 3(4) using f(1-3)
        by (auto simp: forward_request_def Let_def route_add_def route_take_def split: sum.splits option.splits)
      ultimately show ?thesis by blast
    qed
  qed
qed

text \<open>Every step keeps the routes in order, and a sequence number that was given out is never given a route again.\<close>

lemma gw_step_routes:
  assumes ok: "routes_ok s" and n: "gd_nextSeq s \<noteq> 0xFFFFFFFFFFFFFFFF"
  shows "routes_ok (gw_step op s)" "gd_nextSeq (gw_step op s) = gd_nextSeq s \<or> gd_nextSeq (gw_step op s) = gd_nextSeq s + 1"
    "q \<noteq> gd_nextSeq s \<Longrightarrow> map_of (gd_routes (gw_step op s)) q = None \<or> map_of (gd_routes (gw_step op s)) q = map_of (gd_routes s) q"
proof -
  let ?s = "gw_step op s"
  have "routes_ok ?s \<and> (fewer_routes s ?s \<or> gd_nextSeq ?s = gd_nextSeq s + 1 \<and>
      (\<forall>q. q \<noteq> gd_nextSeq s \<longrightarrow> map_of (gd_routes ?s) q = None \<or> map_of (gd_routes ?s) q = map_of (gd_routes s) q))"
  proof (cases op)
    case (GClientFrame c sid h body now)
    then show ?thesis using client_frame_step [OF assms, of c sid h body now] by simp
  next
    case (GBackendFrame c h body now)
    then show ?thesis
      using backend_frame_cases [OF ok, of c h body now] answers_step(1,2) [OF ok] by (metis gw_step.simps(8) calm_def)
  next
    case (GRun l alive)
    have "calm s ?s"
    proof (cases "map_of (gd_queues s) l")
      case (Some q)
      then show ?thesis using ok GRun by (cases q) (simp_all add: run_queue_def run_submission_calm)
    qed (use ok GRun in \<open>simp add: run_queue_def\<close>)
    then show ?thesis by (simp add: calm_def)
  next
    case (GClientConnected c now)
    have "calm s (s\<lparr>gd_sessions := snd (session_create (gd_sessions s) (Some c) d now)\<rparr>)" for d
      using ok by (intro calm_sessions) simp_all
    then have "calm s ?s" using GClientConnected by (auto simp: OnClientConnected_def Let_def split: prod.splits) (metis snd_conv)+
    then show ?thesis by (simp add: calm_def)
  next
    case (GClientClosed sid)
    then show ?thesis using OnClientClosed_calm [OF ok] by (simp add: calm_def)
  next
    case (GSweep now)
    then show ?thesis using SweepRoutes_calm [OF ok] by (simp add: calm_def)
  qed (use ok in \<open>simp_all add: OnBackendConnected_def OnBackendClosed_def\<close>)
  then show "routes_ok ?s" "gd_nextSeq ?s = gd_nextSeq s \<or> gd_nextSeq ?s = gd_nextSeq s + 1"
    "q \<noteq> gd_nextSeq s \<Longrightarrow> map_of (gd_routes ?s) q = None \<or> map_of (gd_routes ?s) q = map_of (gd_routes s) q"
    by (auto simp: fewer_routes_def)
qed

lemma new_dispatcher_ok: "routes_ok (new_dispatcher cfg)"
  by (simp add: new_dispatcher_def routes_ok_def)

lemma gw_run_routes:
  assumes "routes_ok s" "unat (gd_nextSeq s) + length ops < 2 ^ 64 - 1"
  shows "routes_ok (gw_run ops s) \<and> unat (gd_nextSeq s) \<le> unat (gd_nextSeq (gw_run ops s))
    \<and> unat (gd_nextSeq (gw_run ops s)) \<le> unat (gd_nextSeq s) + length ops
    \<and> (\<forall>q. unat q < unat (gd_nextSeq s) \<longrightarrow> map_of (gd_routes s) q = None \<longrightarrow> map_of (gd_routes (gw_run ops s)) q = None)"
  using assms
proof (induction ops arbitrary: s)
  case (Cons op ops)
  let ?s = "gw_step op s"
  have n: "gd_nextSeq s \<noteq> 0xFFFFFFFFFFFFFFFF" using Cons.prems(2) by auto
  note st = gw_step_routes [OF Cons.prems(1) n, where op = op]
  have le: "unat (gd_nextSeq s) \<le> unat (gd_nextSeq ?s)" "unat (gd_nextSeq ?s) \<le> unat (gd_nextSeq s) + 1"
    using st(2) u64_next_below [OF n] by auto
  have gone: "map_of (gd_routes ?s) q = None" if "unat q < unat (gd_nextSeq s)" "map_of (gd_routes s) q = None" for q
  proof -
    have "q \<noteq> gd_nextSeq s" using that(1) by auto
    then show ?thesis using st(3) [where q = q] that(2) by auto
  qed
  have "unat (gd_nextSeq ?s) + length ops < 2 ^ 64 - 1" using le Cons.prems(2) by simp
  from Cons.IH [OF st(1) this] show ?case using le gone by (auto intro: less_le_trans)
qed simp


section \<open>Who the gateway speaks for\<close>

definition log_in :: "DispatcherConfig \<Rightarrow> gw_op \<Rightarrow> u64 set" where
  "log_in cfg op = (case op of
     GClientFrame _ _ h body _ \<Rightarrow>
       (if c_kind h = kControl \<and> c_method h = kAuth
        then (case ParseAuthBody body of
                None \<Rightarrow> {} | Some (p, ticket) \<Rightarrow> if dc_clientToken cfg \<noteq> 0 \<and> ticket \<noteq> dc_clientToken cfg then {} else {p})
        else {})
   | _ \<Rightarrow> {})"

lemma log_inE:
  assumes "p \<in> log_in cfg op"
  obtains c sid ch auth now ticket where "op = GClientFrame c sid ch auth now" "c_kind ch = kControl" "c_method ch = kAuth"
    "ParseAuthBody auth = Some (p, ticket)" "dc_clientToken cfg \<noteq> 0 \<Longrightarrow> ticket = dc_clientToken cfg"
  using assms by (cases op) (auto simp: log_in_def split: if_splits option.splits)

lemma handle_auth_speaks:
  assumes s: "speaks_for cfg L s" and p: "\<And>p ticket. ParseAuthBody body = Some (p, ticket) \<Longrightarrow> dc_clientToken cfg = 0 \<or> ticket = dc_clientToken cfg \<Longrightarrow> p \<in> L"
  shows "speaks_for cfg L (handle_auth c sid session h body now s)"
proof -
  have cfg: "gd_cfg s = cfg" using s by (simp add: speaks_for_def)
  have bind: "speaks_for cfg L (kick k (s\<lparr>gd_sessions := t\<rparr>))" if "session_bind (gd_sessions s) sid p d now = (r, k, t)" "p \<in> L" for k t p d r
    using authed_players_bind [of "gd_sessions s" sid p d now] that by (intro speaks_for_kick speaks_for_sessions [OF s]) auto
  have told: "speaks_for cfg L (NotifySceneBinding cur on s')" if "speaks_for cfg L s'" "session_get (gd_sessions s') i = Some cur" for cur on s' i
    using that speaks_for_session by (intro speaks_for_Notify) blast+
  show ?thesis
    using s p cfg bind told by (auto simp: handle_auth_def Let_def split: option.splits prod.splits bool.splits)
qed

lemma handle_bind_service_speaks:
  assumes s: "speaks_for cfg L s" and ss: "session_get (gd_sessions s) sid = Some session"
  shows "speaks_for cfg L (handle_bind_service c sid session h body s)"
proof -
  have set: "speaks_for cfg L (s\<lparr>gd_sessions := t\<rparr>)" if "SetDstService (gd_sessions s) sid d = (r, t)" for t d r
    using authed_players_ops(2) [of "gd_sessions s" sid d] that by (intro speaks_for_sessions [OF s]) auto
  have old: "speaks_for cfg L (NotifySceneBinding session on s')" if "speaks_for cfg L s'" for on s'
    using that speaks_for_session [OF s ss] by (intro speaks_for_Notify) blast+
  have cur: "speaks_for cfg L (NotifySceneBinding cur on s')" if "speaks_for cfg L s'" "session_get (gd_sessions s') i = Some cur" for cur on s' i
    using that speaks_for_session by (intro speaks_for_Notify) blast+
  show ?thesis
    using s set old cur by (auto simp: handle_bind_service_def Let_def split: option.splits prod.splits bool.splits)
qed

lemma SetSceneBinding_get:
  "session_get (snd (SetSceneBinding t i a b e f)) j = Some x \<Longrightarrow> \<exists>y. session_get t j = Some y \<and> cs_playerId x = cs_playerId y \<and> cs_authed x = cs_authed y"
  by (auto simp: SetSceneBinding_def session_get_def split: option.splits if_splits)

lemma choose_speaks: "speaks_for cfg L s \<Longrightarrow> speaks_for cfg L (snd (choose_scene dst session s))"
  by (simp add: speaks_for_def choose_fields queued_def)

lemma resolve_speaks:
  assumes s: "speaks_for cfg L s" and ss: "session_get (gd_sessions s) sid = Some session" "cs_authed session"
    and r: "resolve_endpoint sid session dst s = (ep, cur, s')"
  shows "speaks_for cfg L s'" "ep \<noteq> None \<Longrightarrow> cs_playerId cur \<in> L"
proof -
  have L: "cs_playerId session \<in> L" using speaks_for_session [OF s ss] .
  have "speaks_for cfg L s' \<and> (ep \<noteq> None \<longrightarrow> cs_playerId cur \<in> L)"
  proof (cases rule: resolve_cases [OF r])
    case (3 x)
    let ?t = "snd (SetSceneBinding (gd_sessions s) sid (ep_sceneId x) (ep_channelId x) (ep_sceneIncarnation x) (ep_connName x))"
    have "speaks_for cfg L s'" unfolding 3(3)
      using authed_players_ops(3) by (intro speaks_for_sessions choose_speaks s) (fastforce simp: choose_fields)
    moreover have "cs_playerId cur \<in> L" if "ep \<noteq> None"
      using 3(3,4) that SetSceneBinding_get [of "gd_sessions s" sid "ep_sceneId x" "ep_channelId x" "ep_sceneIncarnation x" "ep_connName x" sid cur]
        ss L by auto
    ultimately show ?thesis by blast
  qed (use s L choose_speaks in auto)
  then show "speaks_for cfg L s'" "ep \<noteq> None \<Longrightarrow> cs_playerId cur \<in> L" by blast+
qed

lemma speaks_for_emit:
  "speaks_for cfg L s \<Longrightarrow> \<forall>f \<in> set fs. h_playerId (fst f) \<in> L \<Longrightarrow> speaks_for cfg L (emit (SentBackend c fs) s)"
  unfolding speaks_for_def by auto

lemma forward_speaks:
  assumes s: "speaks_for cfg L s" and p: "cs_playerId cur \<in> L"
  shows "speaks_for cfg L (forward_request c sid cur dst ep h body now s)"
proof -
  have "h_playerId (MakeHeader l m f q (cs_playerId cur) x y) \<in> L" for l m f q x y using p by (simp add: MakeHeader_def)
  then have q: "speaks_for cfg L (QueueSceneSubmission cur ep True [(MakeHeader l m f q (cs_playerId cur) x y, bb)] sq s')"
    and e: "speaks_for cfg L (emit (SentBackend k [(MakeHeader l m f q (cs_playerId cur) x y, bb)]) s')"
    if "speaks_for cfg L s'" for l m f q x y bb sq s' k
    using that p by (simp_all add: speaks_for_Queue speaks_for_emit)
  show ?thesis
    using s by (simp add: forward_request_def Let_def q e split: prod.splits bool.splits sum.splits option.splits)
qed

lemma client_frame_speaks:
  assumes s: "speaks_for cfg L s" and p: "log_in cfg (GClientFrame c sid h body now) \<subseteq> L"
  shows "speaks_for cfg L (HandleClientFrame c sid h body now s)"
proof (cases "session_get (gd_sessions s) sid")
  case None
  then show ?thesis using s by (simp add: HandleClientFrame_def)
next
  case (Some session)
  show ?thesis
  proof (cases "c_kind h = kControl \<or> c_module h = kClientSysModule")
    case True
    have "speaks_for cfg L (handle_auth c sid session h body now s)" if "c_kind h = kControl" "c_method h = kAuth"
      using p that by (intro handle_auth_speaks [OF s]) (auto simp: log_in_def split: if_splits)
    then have "speaks_for cfg L (handle_control c sid session h body now s)"
      using s handle_bind_service_speaks [OF s Some] by (simp add: handle_control_def)
    then show ?thesis using True Some by (simp add: HandleClientFrame_def)
  next
    case False
    then have eq: "HandleClientFrame c sid h body now s = handle_request c sid session h body now s" using Some by (simp add: HandleClientFrame_def)
    show ?thesis unfolding eq
    proof (cases rule: handle_request_cases [of s c sid session h body now])
      case 1
      then show "speaks_for cfg L (handle_request c sid session h body now s)"
        using s quiet_fields [OF 1(1)] by (simp add: speaks_for_def queued_def)
    next
      case (2 dst ep cur s1 reason)
      then show "speaks_for cfg L (handle_request c sid session h body now s)" using resolve_speaks(1) [OF s Some 2(2,1)] by simp
    next
      case (3 dst ep cur s1)
      show "speaks_for cfg L (handle_request c sid session h body now s)"
        unfolding 3(4) using resolve_speaks [OF s Some 3(2,1)] by (intro forward_speaks) simp_all
    qed
  qed
qed

lemma speaks_for_submission:
  assumes s: "speaks_for cfg L s" and sub: "cs_playerId (sb_session sub) \<in> L" "\<forall>f \<in> set (sb_businessFrame sub). h_playerId (fst f) \<in> L"
  shows "speaks_for cfg L (run_submission sub alive s)"
proof -
  have fr: "\<forall>f \<in> set (submission_frames s' sub d). h_playerId (fst f) \<in> L" for s' d
    using sub by (auto simp: submission_frames_def Let_def MakeHeader_def)
  obtain acc flag t where x: "(if sb_online sub then SubmitScene (gd_sessions s) (sb_session sub) (submit_result sub alive s)
            else (submit_result sub alive s False, Some False, gd_sessions s)) = (acc, flag, t)" by (metis prod_cases3)
  have "authed_players t \<subseteq> L \<union> authed_players (gd_sessions s)"
    using x authed_players_ops(4) [of "gd_sessions s" "sb_session sub" "submit_result sub alive s"] by (cases "sb_online sub") auto
  then have s1: "speaks_for cfg L (s\<lparr>gd_sessions := t\<rparr>)" by (rule speaks_for_sessions [OF s])
  have "speaks_for cfg L (submitted sub flag alive (s\<lparr>gd_sessions := t\<rparr>))"
    using s1 speaks_for_emit [OF s1 fr] by (auto simp: submitted_def Let_def split: option.splits)
  then show ?thesis by (auto simp: run_submission_def x Let_def reject_submission_def split: option.splits prod.splits)
qed

lemma shout_speaks: "speaks_for cfg L s \<Longrightarrow> speaks_for cfg L (shout_to ss h payload nm s)"
  by (induction ss arbitrary: s) (auto split: option.splits)

lemma time_out_speaks: "speaks_for cfg L s \<Longrightarrow> speaks_for cfg L (time_out rs s)"
  by (induction rs arbitrary: s) (auto split: option.splits)

lemma backend_frame_speaks:
  assumes "speaks_for cfg L s"
  shows "speaks_for cfg L (HandleBackendFrame c h body now s)"
proof -
  have hs: "speaks_for cfg L (handle_handshake c h body now s)"
    using assms by (auto simp: handle_handshake_def split: option.splits prod.splits bool.splits)
  have relay: "speaks_for cfg L (relay_response c self h body r s)" for self r
    using assms by (auto simp: relay_response_def Let_def split: option.splits prod.splits)
  have shout: "speaks_for cfg L (handle_shout h body s)" using assms shout_speaks by (simp add: handle_shout_def split: prod.splits)
  have push: "speaks_for cfg L (handle_push c self h body s)" for self
    using assms by (auto simp: handle_push_def Let_def split: option.splits prod.splits)
  have "speaks_for cfg L (handle_business c self h body s)" for self
    using assms relay shout push by (simp add: handle_business_def split: option.splits)
  then show ?thesis using assms hs by (simp add: HandleBackendFrame_def split: option.splits)
qed

lemma queued_sub: "map_of (gd_queues s) l = Some q \<Longrightarrow> x \<in> set q \<Longrightarrow> x \<in> queued s"
  using map_of_SomeD [of "gd_queues s" l q] by (force simp: queued_def)

lemma queued_pop:
  assumes "map_of (gd_queues s) l = Some (sub # q)"
  shows "queued (s\<lparr>gd_queues := AList.update l q (gd_queues s)\<rparr>) \<subseteq> queued s"
proof -
  have "set q \<subseteq> queued s" using queued_sub [OF assms] by auto
  then show ?thesis using queued_update [of l q "gd_queues s"] by (simp add: queued_def subset_iff) blast
qed

lemma gw_step_speaks:
  assumes s: "speaks_for cfg L s"
  shows "speaks_for cfg (L \<union> log_in cfg op) (gw_step op s)"
proof -
  let ?L = "L \<union> log_in cfg op"
  have s': "speaks_for cfg ?L s" using speaks_for_mono [OF s] by blast
  show ?thesis
  proof (cases op)
    case (GClientFrame c sid h body now)
    then show ?thesis using client_frame_speaks [OF s'] by simp
  next
    case (GRun l alive)
    show ?thesis
    proof (cases "map_of (gd_queues s) l")
      case (Some q)
      show ?thesis
      proof (cases q)
        case (Cons sub q')
        let ?s = "s\<lparr>gd_queues := AList.update l q' (gd_queues s)\<rparr>"
        have "queued ?s \<subseteq> queued s"
          using queued_pop Some Cons by simp
        then have "speaks_for cfg ?L ?s" using s' unfolding speaks_for_def by auto
        moreover have "sub \<in> queued s" using queued_sub [OF Some] Cons by simp
        ultimately have "speaks_for cfg ?L (run_submission sub alive ?s)"
          using s' by (intro speaks_for_submission) (auto simp: speaks_for_def)
        then show ?thesis using GRun Some Cons by (simp add: run_queue_def)
      qed (use s' GRun Some in \<open>simp add: run_queue_def\<close>)
    qed (use s' GRun in \<open>simp add: run_queue_def\<close>)
  next
    case (GClientConnected c now)
    have "speaks_for cfg ?L (s\<lparr>gd_sessions := snd (session_create (gd_sessions s) (Some c) d now)\<rparr>)" for d
      using authed_players_ops(1) by (intro speaks_for_sessions [OF s']) blast
    then show ?thesis using GClientConnected by (simp add: OnClientConnected_def Let_def split_beta)
  next
    case (GClientClosed sid)
    have "speaks_for cfg ?L (case session_get (gd_sessions s) sid of None \<Rightarrow> s | Some ss \<Rightarrow> NotifySceneBinding ss False s)"
      using s' speaks_for_session [OF s'] by (auto split: option.splits intro!: speaks_for_Notify)
    then show ?thesis using GClientClosed authed_players_ops(5) by (auto simp: OnClientClosed_def Let_def intro!: speaks_for_sessions)
  next
    case (GSweep now)
    then show ?thesis using s' by (simp add: SweepRoutes_def SweepExpired_def time_out_speaks)
  next
    case (GBackendFrame c h body now)
    then show ?thesis using backend_frame_speaks [OF s'] by simp
  qed (use s' in \<open>simp_all add: OnBackendConnected_def OnBackendClosed_def\<close>)
qed

lemma gw_run_speaks: "speaks_for cfg L s \<Longrightarrow> speaks_for cfg (L \<union> (\<Union>op \<in> set ops. log_in cfg op)) (gw_run ops s)"
proof (induction ops arbitrary: s L)
  case (Cons op ops)
  from Cons.IH [OF gw_step_speaks [OF Cons.prems]] show ?case by (simp add: Un_assoc)
qed simp

lemma new_dispatcher_speaks: "speaks_for cfg {} (new_dispatcher cfg)"
  by (simp add: speaks_for_def new_dispatcher_def queued_def authed_players_def session_get_def empty_sessions_def)

text \<open>
  C5. Nobody can be impersonated towards the backends. Every frame the gateway has ever sent to a backend, be it a request, an announcement that
  a player is online or one that it went offline, names a player that logged in before: some client sent the control frame that
  authenticates it as that player, with the ticket the configuration demands.
\<close>

theorem backend_frames_are_authenticated:
  assumes "(h, body) \<in> set (backend_frames (gd_log (gw_run ops (new_dispatcher cfg))))"
  shows "\<exists>c sid ch auth now ticket. GClientFrame c sid ch auth now \<in> set ops \<and> c_kind ch = kControl \<and> c_method ch = kAuth
    \<and> ParseAuthBody auth = Some (h_playerId h, ticket) \<and> (dc_clientToken cfg \<noteq> 0 \<longrightarrow> ticket = dc_clientToken cfg)"
proof -
  have "h_playerId h \<in> (\<Union>op \<in> set ops. log_in cfg op)"
    using gw_run_speaks [OF new_dispatcher_speaks, of cfg ops] assms by (fastforce simp: speaks_for_def)
  then obtain op where op: "op \<in> set ops" "h_playerId h \<in> log_in cfg op" by blast
  from op(2) show ?thesis by (rule log_inE) (use op(1) in blast)
qed

section \<open>Client requests of the AOI module\<close>

text \<open>
  C38. The scene server expects the clients' requests to send the view again under module 100 (\<open>Module::AOI\<close>), which is also the
  module of the chat service. No request of that module ever reaches a scene: nothing is queued for one, and what is sent goes to the chat service.
\<close>

theorem aoi_requests_go_to_chat:
  fixes c sid body now s
  assumes "c_kind h = kRequest" and "c_module h = 100"
  defines "s' \<equiv> HandleClientFrame c sid h body now s"
  shows "gd_queues s' = gd_queues s \<and> (\<exists>sent. backend_frames (gd_log s') = backend_frames (gd_log s) @ sent \<and> (\<forall>f \<in> set sent. h_dstServiceID (fst f) = kChat))"
proof (cases "session_get (gd_sessions s) sid")
  case None
  then show ?thesis by (simp add: s'_def HandleClientFrame_def)
next
  case (Some session)
  then have s': "s' = handle_request c sid session h body now s"
    using assms(1,2) by (simp add: s'_def HandleClientFrame_def kRequest_def kControl_def kClientSysModule_def)
  have dst: "request_service s session h = kChat" using assms(2) by (simp add: request_service_def ServiceModule_kChat_def)
  show ?thesis
  proof (cases rule: handle_request_cases [of s c sid session h body now])
    case 1
    then show ?thesis unfolding s' using quiet_fields(6,7) [OF 1(1)] by simp
  next
    case (2 dst ep cur s1 reason)
    then show ?thesis unfolding s' using resolve_fields(3,4) [OF 2(1)] by simp
  next
    case (3 d ep cur s1)
    have d: "d = kChat" using 3(3) dst by simp
    have "gd_queues s' = gd_queues s1 \<and> (\<exists>sent. backend_frames (gd_log s') = backend_frames (gd_log s1) @ sent \<and> (\<forall>f \<in> set sent. h_dstServiceID (fst f) = kChat))"
      unfolding s' 3(4) d by (simp add: forward_request_def Let_def MakeHeader_def split: prod.splits bool.splits sum.splits option.splits)
    then show ?thesis using resolve_fields(3,4) [OF 3(1)] by simp
  qed
qed

section \<open>A run, and the properties on it\<close>

text \<open>A client logs in as player 42 and sends a request to the global service, which answers it.\<close>

definition demo_cfg :: DispatcherConfig where
  "demo_cfg = \<lparr>dc_selfServiceId = kGateway, dc_zoneId = 1, dc_gatewayId = 1, dc_backendChannels = 1, dc_defaultDstService = kScene, dc_defaultSceneId = 0,
     dc_allowedServices = [kScene, kChat, kGlobal], dc_clientToken = 7, dc_maxClientSessions = 10, dc_maxPendingRoutes = 10, dc_routeTtlMs = 1000,
     dc_maxDecodeErrors = 3, dc_maxReadBufferBytes = 4096, dc_maxFramesPerSec = 100\<rparr>"

definition demo_ops :: "gw_op list" where
  "demo_ops = [GNew 1 ''client'' 0, GNew 2 ''global'' 0, GClientConnected 1 0, GBackendConnected 2,
     GBackendFrame 2 (MakeHeader 3 kSYS kHandshake 0 0 kGlobal kGateway)
       (PackBackendHandshake \<lparr>hs_protocolVersion = kProtocolVersion, hs_serviceId = kGlobal, hs_zoneId = 1, hs_sceneId = 0, hs_sceneIncarnation = 0,
          hs_targetGatewayId = 1, hs_channelId = 0\<rparr>) 1,
     GClientFrame 1 1 (default_client_header\<lparr>c_kind := kControl, c_module := kClientSysModule, c_method := kAuth\<rparr>) (MakeAuthBody 42 7) 2,
     GClientFrame 1 1 (default_client_header\<lparr>c_kind := kRequest, c_module := ServiceModule_kGlobal, c_method := 9, c_requestId := 5\<rparr>) [1] 3]"

definition demo_answer :: Header where
  "demo_answer = MakeHeader 3 ServiceModule_kGlobal 9 1 42 kGlobal kGateway"

abbreviation demo_run :: GatewayDispatcher where
  "demo_run \<equiv> gw_run demo_ops (new_dispatcher demo_cfg)"

lemma message_callbacks_return_witness:
  "(\<exists>b' ops. OnClientMessage 1 1 4 new_buffer demo_run = Some (b', gw_run ops demo_run) \<and> buffer_ok b' \<and> length ops \<le> 3 * length (readable new_buffer) + 2)
    \<and> (\<exists>b' ops. OnBackendMessage 1 4 new_buffer demo_run = Some (b', gw_run ops demo_run) \<and> buffer_ok b' \<and> length ops \<le> 3 * length (readable new_buffer) + 2)"
  by (rule message_callbacks_return [OF new_buffer_ok(1)])


lemma backend_frames_are_authenticated_witness:
  "\<exists>c sid ch auth now ticket. GClientFrame c sid ch auth now \<in> set demo_ops \<and> c_kind ch = kControl \<and> c_method ch = kAuth
    \<and> ParseAuthBody auth = Some (42, ticket) \<and> (dc_clientToken demo_cfg \<noteq> 0 \<longrightarrow> ticket = dc_clientToken demo_cfg)"
proof -
  have "(MakeHeader 3 ServiceModule_kGlobal 9 1 42 kGateway kGlobal, [1]) \<in> set (backend_frames (gd_log demo_run))" by code_simp
  from backend_frames_are_authenticated [OF this] show ?thesis by (simp add: MakeHeader_def)
qed

definition aoi_resync :: ClientHeader where
  "aoi_resync = default_client_header\<lparr>c_kind := kRequest, c_module := 100, c_method := 9, c_requestId := 6\<rparr>"

lemma aoi_requests_go_to_chat_witness:
  "gd_queues (HandleClientFrame 1 1 aoi_resync [] 4 demo_run) = gd_queues demo_run"
  using aoi_requests_go_to_chat [of aoi_resync 1 1 "[]" 4 demo_run] by (simp add: aoi_resync_def)

end
