(* ===== verification/ServiceApp.thy ===== *)
theory ServiceApp
  imports ClientProto Strings
begin

text \<open>
  The chat server and the global server, zone_common/base/serviceApp.h and serviceApp.cc: a network thread with one link per gateway, a logic thread
  that answers requests, and the two bounded queues between them. A turn of the logic thread and a turn of the network thread are steps; what the operating
  system answers to \<open>poll\<close>, \<open>recv\<close> and \<open>send\<close> is an argument. The command line is an argument after its numbers were parsed; opening the
  sockets, the signal handlers and the messages on stderr are left out.
\<close>

section \<open>Queues between the threads\<close>

record Message =
  sm_header :: Header
  sm_body :: bytes
  sm_gateway :: nat

definition Queue_kCapacity :: nat where "Queue_kCapacity = 4096"

definition Queue_Put :: "Message \<Rightarrow> Message list \<Rightarrow> bool \<times> Message list" where
  "Queue_Put m items = (if length items \<ge> Queue_kCapacity then (False, items) else (True, items @ [m]))"

definition Queue_PutBatch :: "Message list \<Rightarrow> Message list \<Rightarrow> bool \<times> Message list" where
  "Queue_PutBatch batch items = (if length batch > size_sub Queue_kCapacity (length items) then (False, items) else (True, items @ batch))"

definition Queue_TryGet :: "Message list \<Rightarrow> (Message \<times> Message list) option" where
  "Queue_TryGet items = (case items of [] \<Rightarrow> None | m # rest \<Rightarrow> Some (m, rest))"

section \<open>Chat bodies\<close>

text \<open>The loop over \<open>text\<close> from position \<open>i\<close>, on the bytes from \<open>i\<close> on.\<close>

function chat_text_loop :: "bytes \<Rightarrow> bool" where
  "chat_text_loop [] = True"
| "chat_text_loop (c # rest) =
     (if c < 0x20 \<or> c = 0x7f then False
      else let n = (if c < 0x80 then 1 else if c \<ge> 0xc2 \<and> c \<le> 0xdf then 2 else if c \<ge> 0xe0 \<and> c \<le> 0xef then 3
                    else if c \<ge> 0xf0 \<and> c \<le> 0xf4 then 4 else 0)
           in if n = 0 then False
              else if n > Suc (length rest) then False
              else if \<exists>b \<in> set (take (n - 1) rest). b AND 0xc0 \<noteq> 0x80 then False
              else if n > 1 \<and> (c = 0xe0 \<and> rest ! 0 < 0xa0 \<or> c = 0xed \<and> rest ! 0 \<ge> 0xa0 \<or>
                                c = 0xf0 \<and> rest ! 0 < 0x90 \<or> c = 0xf4 \<and> rest ! 0 \<ge> 0x90) then False
              else chat_text_loop (drop (n - 1) rest))"
  by pat_completeness auto
termination by (relation "measure length") auto

definition ValidChatText :: "bytes \<Rightarrow> bool" where
  "ValidChatText text = (if text = [] \<or> length text > 1024 then False else chat_text_loop text)"

definition ChatBody :: "u64 \<Rightarrow> bytes \<Rightarrow> bytes \<Rightarrow> bytes" where
  "ChatBody playerId name text' =
     (if name = [] \<or> \<not> ValidRoleName name then []
      else put_be 8 playerId @ name @ replicate (kRoleNameSize - length name) 0 @ text')"

definition ParseChatBody :: "bytes \<Rightarrow> (u64 \<times> bytes \<times> bytes) option" where
  "ParseChatBody body =
     (if length body < 8 + kRoleNameSize then None
      else case name_field (slice 8 kRoleNameSize body) of (name, padded) \<Rightarrow>
        if \<not> padded then None
        else if name = [] \<or> \<not> ValidRoleName name then None
        else Some (get_be (take 8 body), name, drop (8 + kRoleNameSize) body))"

section \<open>The logic thread\<close>

record Service =
  sv_id :: u8
  sv_gateways :: nat
  sv_toLogic :: "Message list"
  sv_toNet :: "Message list"
  sv_running :: bool

definition link_type :: "u8 \<Rightarrow> u8" where
  "link_type i = (if i = kChat then kChatMsg else kGlobalMsg)"

definition answer :: "u8 \<Rightarrow> Message \<Rightarrow> bytes \<Rightarrow> Message" where
  "answer i m body = (let h = sm_header m in
     \<lparr>sm_header = MakeHeader (link_type i) (h_module h) (h_method h) (h_seq h) (h_playerId h) i kGateway, sm_body = body, sm_gateway = sm_gateway m\<rparr>)"

definition reply :: "Message \<Rightarrow> bytes \<Rightarrow> Service \<Rightarrow> Service" where
  "reply m body s =
     (case Queue_Put (answer (sv_id s) m body) (sv_toNet s) of
        (True, q) \<Rightarrow> s\<lparr>sv_toNet := q\<rparr>
      | (False, _) \<Rightarrow> s\<lparr>sv_running := False\<rparr>)"

definition push_to :: "u8 \<Rightarrow> Message \<Rightarrow> u64 \<Rightarrow> bytes \<Rightarrow> nat \<Rightarrow> Message" where
  "push_to i m target body g = (let h = sm_header m in
     \<lparr>sm_header = MakeHeader (link_type i) (h_module h) (h_method h) 0 target i kGateway, sm_body = body, sm_gateway = g\<rparr>)"

text \<open>The response and one push for every gateway, or the refusal when the queue is full.\<close>

definition spread :: "Message \<Rightarrow> u64 \<Rightarrow> bytes \<Rightarrow> Service \<Rightarrow> Service" where
  "spread m target pushBody s =
     (case Queue_PutBatch (answer (sv_id s) m (ascii ''accepted'') # map (push_to (sv_id s) m target pushBody) [0..<sv_gateways s]) (sv_toNet s) of
        (True, q) \<Rightarrow> s\<lparr>sv_toNet := q\<rparr>
      | (False, _) \<Rightarrow> reply m (ascii ''chat queue full'') s)"

definition handle_message :: "Message \<Rightarrow> Service \<Rightarrow> Service" where
  "handle_message m s =
     (let h = sm_header m
      in if h_seq h = 0 \<or> h_playerId h = 0 then s
         else if sv_id s = kChat \<and> h_module h = ServiceModule_kChat \<and> h_method h = kPrivateChat
         then (case ParseChatBody (sm_body m) of
                 None \<Rightarrow> reply m (ascii ''invalid chat message'') s
               | Some (target, name, text') \<Rightarrow>
                   if target = 0 \<or> target = h_playerId h \<or> name = [] \<or> \<not> ValidChatText text' then reply m (ascii ''invalid chat message'') s
                   else spread m target (ChatBody (h_playerId h) name text') s)
         else if sv_id s = kChat \<and> h_module h = ServiceModule_kChat \<and> h_method h = kZoneShout
         then (case ParseChatBody (replicate 8 0 @ sm_body m) of
                 None \<Rightarrow> reply m (ascii ''invalid chat message'') s
               | Some (_, name, text') \<Rightarrow>
                   if \<not> ValidChatText text' then reply m (ascii ''invalid chat message'') s
                   else spread m 0 (ChatBody (h_playerId h) name text') s)
         else if sv_id s = kChat \<and> h_module h = ServiceModule_kChat \<and> h_method h = kAdminBroadcast
         then reply m (ascii ''admin broadcast unavailable'') s
         else if sv_id s = kGlobal \<and> h_module h = ServiceModule_kGlobal \<and> h_method h = kGlobalPing then reply m (sm_body m) s
         else reply m (ascii ''unsupported method'') s)"

text \<open>One turn of \<open>Logic\<close>.\<close>

definition logic_turn :: "Service \<Rightarrow> Service" where
  "logic_turn s =
     (if \<not> sv_running s then s
      else case Queue_TryGet (sv_toLogic s) of
        None \<Rightarrow> s
      | Some (m, rest) \<Rightarrow> handle_message m (s\<lparr>sv_toLogic := rest\<rparr>))"

section \<open>The network thread\<close>

record Link =
  lk_input :: buffer
  lk_output :: buffer

datatype send_result = Sent nat | SendInterrupted | SendAgain | SendFailed
datatype recv_result = Received bytes | RecvClosed | RecvAgain | RecvFailed

text \<open>What \<open>poll\<close> reports for a link, and what \<open>send\<close> and \<open>recv\<close> answer then. A list of answers that ends stands for a socket that would block.\<close>

record link_event =
  le_error :: bool
  le_writable :: bool
  le_sends :: "send_result list"
  le_readable :: bool
  le_recv :: recv_result

text \<open>The flag tells whether the link is still good; \<open>None\<close> is an access outside the buffer. \<open>send\<close> takes at most what it is offered.\<close>

fun WritePending :: "send_result list \<Rightarrow> buffer \<Rightarrow> (bool \<times> buffer) option" where
  "WritePending [] out = Some (True, out)"
| "WritePending (r # rs) out =
     (if readableBytes out = 0 then Some (True, out)
      else case r of
        Sent n \<Rightarrow> if n > 0 then Option.bind (retrieve out (min n (readableBytes out))) (WritePending rs) else Some (False, out)
      | SendInterrupted \<Rightarrow> WritePending rs out
      | SendAgain \<Rightarrow> Some (True, out)
      | SendFailed \<Rightarrow> Some (False, out))"

fun drain_out :: "Message list \<Rightarrow> Link list \<Rightarrow> (bool \<times> Link list) option" where
  "drain_out [] links = Some (True, links)"
| "drain_out (m # ms) links =
     (if sm_gateway m \<ge> length links then None
      else let lk = links ! sm_gateway m
           in if readableBytes (lk_output lk) + length (sm_body m) + kHeaderSize > 4 * 1024 * 1024 then Some (False, links)
              else case EncodeFrame (lk_output lk) (sm_header m) (sm_body m) of
                None \<Rightarrow> None
              | Some out \<Rightarrow> drain_out ms (links[sm_gateway m := lk\<lparr>lk_output := out\<rparr>]))"

text \<open>The loop that decodes what a link has received; the fuel is one more than the number of bytes.\<close>

fun decode_requests :: "nat \<Rightarrow> u8 \<Rightarrow> nat \<Rightarrow> buffer \<Rightarrow> Message list \<Rightarrow> (bool \<times> buffer \<times> Message list) option" where
  "decode_requests 0 i g b q = None"
| "decode_requests (Suc fuel) i g b q =
     (case gate_next i b of
        None \<Rightarrow> None
      | Some (More, b) \<Rightarrow> Some (True, b, q)
      | Some (Bad, b) \<Rightarrow> Some (False, b, q)
      | Some (Got (h, body), b) \<Rightarrow>
          if h_srcServiceID h \<noteq> kGateway \<or> h_seq h = 0 \<or> h_playerId h = 0 then Some (False, b, q)
          else (case Queue_Put \<lparr>sm_header = h, sm_body = body, sm_gateway = g\<rparr> q of
                  (False, _) \<Rightarrow> Some (False, b, q)
                | (True, q) \<Rightarrow> decode_requests fuel i g b q))"

definition link_turn :: "u8 \<Rightarrow> nat \<Rightarrow> link_event \<Rightarrow> Link \<Rightarrow> Message list \<Rightarrow> (bool \<times> Link \<times> Message list) option" where
  "link_turn i g ev lk q =
     (if le_error ev then Some (False, lk, q)
      else Option.bind (if le_writable ev then WritePending (le_sends ev) (lk_output lk) else Some (True, lk_output lk))
        (\<lambda>(ok, out). let lk = lk\<lparr>lk_output := out\<rparr> in
           if \<not> ok \<or> \<not> le_readable ev then Some (ok, lk, q)
           else case le_recv ev of
             RecvClosed \<Rightarrow> Some (False, lk, q)
           | RecvAgain \<Rightarrow> Some (True, lk, q)
           | RecvFailed \<Rightarrow> Some (False, lk, q)
           | Received bs \<Rightarrow> Option.bind (buffer_append (lk_input lk) bs) (\<lambda>inp.
               if readableBytes inp > 1024 * 1024 then Some (False, lk\<lparr>lk_input := inp\<rparr>, q)
               else map_option (\<lambda>(ok, inp, q). (ok, lk\<lparr>lk_input := inp\<rparr>, q))
                      (decode_requests (Suc (readableBytes inp)) i g inp q))))"

text \<open>The loop over the links; it ends at the first one that failed.\<close>

fun links_turn :: "u8 \<Rightarrow> nat \<Rightarrow> link_event list \<Rightarrow> Link list \<Rightarrow> Message list \<Rightarrow> (bool \<times> Link list \<times> Message list) option" where
  "links_turn i g (ev # evs) (lk # lks) q =
     (case link_turn i g ev lk q of
        None \<Rightarrow> None
      | Some (False, lk, q) \<Rightarrow> Some (False, lk # lks, q)
      | Some (True, lk, q) \<Rightarrow> map_option (\<lambda>(ok, lks, q). (ok, lk # lks, q)) (links_turn i (Suc g) evs lks q))"
| "links_turn i g _ lks q = Some (True, lks, q)"

text \<open>One turn of the loop of \<open>RunService\<close>; the flag is \<open>ok\<close>. The queue to the logic thread is taken as it is when the turn begins.\<close>

definition net_turn :: "link_event list \<Rightarrow> Service \<times> Link list \<Rightarrow> (bool \<times> Service \<times> Link list) option" where
  "net_turn evs = (\<lambda>(s, links).
     Option.bind (drain_out (sv_toNet s) links) (\<lambda>(ok, links).
       let s = s\<lparr>sv_toNet := []\<rparr>
       in if \<not> ok then Some (False, s, links)
          else map_option (\<lambda>(ok, links, q). (ok, s\<lparr>sv_toLogic := q\<rparr>, links)) (links_turn (sv_id s) 0 evs links (sv_toLogic s))))"

section \<open>Start\<close>

text \<open>A gateway of the command line: its number, address and port, and the zone.\<close>

record gateway_arg =
  ga_id :: nat
  ga_addr :: string
  ga_port :: nat
  ga_zone :: nat

fun check_gateways :: "gateway_arg list \<Rightarrow> nat \<Rightarrow> gateway_arg list \<Rightarrow> nat option" where
  "check_gateways seen zone [] = Some zone"
| "check_gateways seen zone (a # as) =
     (if ga_id a = 0 \<or> ga_id a > 0xFFFFFFFF then None
      else if ga_port a = 0 \<or> ga_port a > 65535 then None
      else if ga_zone a = 0 \<or> ga_zone a > 0xFFFFFFFF \<or> zone \<noteq> 0 \<and> ga_zone a \<noteq> zone then None
      else if list_ex (\<lambda>b. ga_id a = ga_id b \<or> ga_addr a = ga_addr b \<and> ga_port a = ga_port b) seen then None
      else check_gateways (seen @ [a]) (ga_zone a) as)"

definition service_handshake :: "u8 \<Rightarrow> nat \<Rightarrow> gateway_arg \<Rightarrow> Header \<times> bytes" where
  "service_handshake i zone a =
     (MakeHeader (link_type i) kSYS kHandshake 0 0 i kGateway,
      PackBackendHandshake \<lparr>hs_protocolVersion = kProtocolVersion, hs_serviceId = i, hs_zoneId = of_nat zone, hs_sceneId = 0,
        hs_sceneIncarnation = 0, hs_targetGatewayId = of_nat (ga_id a), hs_channelId = 0\<rparr>)"

definition new_link :: "u8 \<Rightarrow> nat \<Rightarrow> gateway_arg \<Rightarrow> Link option" where
  "new_link i zone a = (case service_handshake i zone a of (h, body) \<Rightarrow>
     map_option (\<lambda>out. \<lparr>lk_input = new_buffer, lk_output = out\<rparr>) (EncodeFrame new_buffer h body))"

text \<open>\<open>None\<close> is a refused command line.\<close>

definition start_service :: "u8 \<Rightarrow> gateway_arg list \<Rightarrow> (Service \<times> Link list) option" where
  "start_service i args =
     (if args = [] \<or> i \<noteq> kChat \<and> length args \<noteq> 1 \<or> length args + 1 > Queue_kCapacity then None
      else case check_gateways [] 0 args of
        None \<Rightarrow> None
      | Some zone \<Rightarrow>
          map_option (\<lambda>links. (\<lparr>sv_id = i, sv_gateways = length args, sv_toLogic = [], sv_toNet = [], sv_running = True\<rparr>, links))
            (those (map (new_link i zone) args)))"

section \<open>The text check\<close>

definition lead_len :: "u8 \<Rightarrow> nat" where
  "lead_len c = (if c < 0x80 then 1 else if c \<ge> 0xc2 \<and> c \<le> 0xdf then 2 else if c \<ge> 0xe0 \<and> c \<le> 0xef then 3
                 else if c \<ge> 0xf0 \<and> c \<le> 0xf4 then 4 else 0)"

lemma utf8_len_lead: "utf8_len c = (if lead_len c = 0 then None else Some (lead_len c))"
  by (simp add: utf8_len_def lead_len_def)

lemmas chat_text_step = chat_text_loop.simps(2) [folded lead_len_def, unfolded Let_def]

lemma chat_text_loop_eq: "chat_text_loop t = role_name_loop t"
proof (induction "length t" arbitrary: t rule: less_induct)
  case less
  show ?case
  proof (cases t)
    case Nil
    then show ?thesis by simp
  next
    case (Cons c rest)
    then have "chat_text_loop (drop (lead_len c - 1) rest) = role_name_loop (drop (lead_len c - 1) rest)"
      by (intro less.hyps) simp
    then show ?thesis
      unfolding Cons chat_text_step [of c rest] role_name_loop.simps(2) [of c rest] utf8_len_lead
      by (cases "lead_len c = 0") (simp_all only: if_True if_False simp_thms option.case if_cancel)
  qed
qed

declare chat_text_loop.simps(2) [simp del]

lemma role_name_loop_iff: "role_name_loop t \<longleftrightarrow> (\<exists>cps. list_all printable cps \<and> map unat t = concat (map utf8 cps))"
  by (metis role_name_decodes role_name_encodes map_byte_unat)

lemma ValidChatText_iff:
  "ValidChatText t \<longleftrightarrow> t \<noteq> [] \<and> length t \<le> 1024 \<and> (\<exists>cps. list_all printable cps \<and> map unat t = concat (map utf8 cps))"
  by (auto simp: ValidChatText_def chat_text_loop_eq role_name_loop_iff)

section \<open>The body codec\<close>

lemma length_ChatBody: "n \<noteq> [] \<Longrightarrow> ValidRoleName n \<Longrightarrow> length (ChatBody p n t) = 20 + length t"
  using ValidRoleName_length [of n] by (simp add: ChatBody_def kRoleNameSize_def)

lemma ParseChatBody_ChatBody:
  assumes "n \<noteq> []" and "ValidRoleName n"
  shows "ParseChatBody (ChatBody p n t) = Some (p, n, t)"
  using assms ValidRoleName_length [OF assms(2)]
  by (simp add: ParseChatBody_def ChatBody_def kRoleNameSize_def slice_simps name_field_pad get_be_put_be)

lemma name_field_zeros:
  assumes "name_field f = (n, True)"
  shows "f = n @ replicate (length f - length n) 0"
proof -
  from assms have n: "n = takeWhile (\<lambda>b. b \<noteq> 0) f" and z: "\<forall>b \<in> set (drop (length n) f). b = 0"
    by (auto simp: name_field_def Let_def)
  have "drop (length n) f = replicate (length f - length n) 0"
    using z replicate_length_same [of "drop (length n) f" 0] by simp
  moreover have "f = n @ drop (length n) f" unfolding n by (metis dropWhile_eq_drop takeWhile_dropWhile_id)
  ultimately show ?thesis by simp
qed

lemma ParseChatBody_inv:
  assumes "ParseChatBody body = Some (p, n, t)"
  shows "n \<noteq> [] \<and> ValidRoleName n \<and> body = ChatBody p n t"
proof -
  from assms have len: "20 \<le> length body" and f: "name_field (slice 8 12 body) = (n, True)" and v: "n \<noteq> []" "ValidRoleName n"
    and p: "p = get_be (take 8 body)" and t: "t = drop 20 body"
    by (auto simp: ParseChatBody_def split: if_splits prod.splits)
  have "put_be 8 p = take 8 body" using len put_be_get_be [of "take 8 body", where 'a = 64] by (simp add: p)
  moreover have "slice 8 12 body = n @ replicate (12 - length n) 0" using name_field_zeros [OF f] len by simp
  moreover have "body = take 8 body @ slice 8 12 body @ drop 20 body"
    using append_take_drop_id [of 8 body] append_take_drop_id [of 12 "drop 8 body"] by (simp add: slice_def)
  ultimately show ?thesis using v by (simp add: ChatBody_def t)
qed

lemma ParseChatBody_iff: "ParseChatBody body = Some (p, n, t) \<longleftrightarrow> n \<noteq> [] \<and> ValidRoleName n \<and> body = ChatBody p n t"
  using ParseChatBody_inv ParseChatBody_ChatBody by blast


section \<open>The queue contract\<close>

text \<open>What the two threads rely on: a queue keeps what it took, in order, up to its capacity, a batch goes in whole or not at all.\<close>

locale bounded_queue =
  fixes put :: "'m \<Rightarrow> 'm list \<Rightarrow> bool \<times> 'm list" and batch :: "'m list \<Rightarrow> 'm list \<Rightarrow> bool \<times> 'm list"
    and get :: "'m list \<Rightarrow> ('m \<times> 'm list) option" and capacity :: nat
  assumes batch_law: "length q \<le> capacity \<Longrightarrow> batch ms q = (if length q + length ms \<le> capacity then (True, q @ ms) else (False, q))"
    and put_law: "length q \<le> capacity \<Longrightarrow> put m q = batch [m] q"
    and get_law: "get q = (if q = [] then None else Some (hd q, tl q))"
begin

lemma put_bounded: "length q \<le> capacity \<Longrightarrow> length (snd (put m q)) \<le> capacity"
  by (simp add: put_law batch_law)

lemma batch_bounded: "length q \<le> capacity \<Longrightarrow> length (snd (batch ms q)) \<le> capacity"
  by (simp add: batch_law)

lemma get_put_empty: "0 < capacity \<Longrightarrow> put m [] = (True, q) \<Longrightarrow> get q = Some (m, [])"
  by (auto simp: put_law batch_law get_law split: if_splits)

lemma put_kept: "length q \<le> capacity \<Longrightarrow> put m q = (ok, q') \<Longrightarrow> q' = q @ (if ok then [m] else [])"
  by (auto simp: put_law batch_law split: if_splits)

lemma batch_kept: "length q \<le> capacity \<Longrightarrow> batch ms q = (ok, q') \<Longrightarrow> q' = q @ (if ok then ms else [])"
  by (auto simp: batch_law split: if_splits)

end

interpretation queue: bounded_queue Queue_Put Queue_PutBatch Queue_TryGet Queue_kCapacity
proof
  fix q ms :: "Message list" and m :: Message assume "length q \<le> Queue_kCapacity"
  then show "Queue_PutBatch ms q = (if length q + length ms \<le> Queue_kCapacity then (True, q @ ms) else (False, q))"
    and "Queue_Put m q = Queue_PutBatch [m] q"
    by (auto simp: Queue_PutBatch_def Queue_Put_def)
next
  fix q :: "Message list" show "Queue_TryGet q = (if q = [] then None else Some (hd q, tl q))" by (simp add: Queue_TryGet_def split: list.splits)
qed


section \<open>What the logic thread does with a request\<close>

definition queues_ok :: "Service \<Rightarrow> bool" where
  "queues_ok s \<longleftrightarrow> length (sv_toLogic s) \<le> Queue_kCapacity \<and> length (sv_toNet s) \<le> Queue_kCapacity"

text \<open>An answer carries the sequence number of the request, a push carries none.\<close>

definition is_answer :: "Message \<Rightarrow> bool" where "is_answer m \<longleftrightarrow> h_seq (sm_header m) \<noteq> 0"

definition request_key :: "Message \<Rightarrow> u16 \<times> u16 \<times> u64 \<times> u64 \<times> nat" where
  "request_key m = (h_module (sm_header m), h_method (sm_header m), h_seq (sm_header m), h_playerId (sm_header m), sm_gateway m)"

definition well_formed :: "Message \<Rightarrow> bool" where
  "well_formed m \<longleftrightarrow> h_seq (sm_header m) \<noteq> 0 \<and> h_playerId (sm_header m) \<noteq> 0"

lemma answer_facts [simp]:
  "request_key (answer i m body) = request_key m" "is_answer (answer i m body) \<longleftrightarrow> is_answer m" "\<not> is_answer (push_to i m p body g)"
  "sm_body (answer i m body) = body"
  by (simp_all add: answer_def push_to_def request_key_def is_answer_def MakeHeader_def default_header_def Let_def)

text \<open>The effect of one handler: nothing but the queue to the network and the flag changes; the request gets one answer, before the pushes it causes, or the service
  stops.\<close>

definition answered :: "Message \<Rightarrow> Service \<Rightarrow> Service \<Rightarrow> bool" where
  "answered m s s' \<longleftrightarrow> (\<exists>pushes body. \<not> (\<exists>x \<in> set pushes. is_answer x) \<and> length (sv_toNet s') \<le> Queue_kCapacity \<and>
     (s' = s\<lparr>sv_toNet := sv_toNet s @ answer (sv_id s) m body # pushes\<rparr> \<or> s' = s\<lparr>sv_running := False\<rparr>))"

lemma answered_stop: "length (sv_toNet s) \<le> Queue_kCapacity \<Longrightarrow> answered m s (s\<lparr>sv_running := False\<rparr>)"
  by (auto simp: answered_def intro!: exI [of _ "[] :: Message list"])

lemma answered_queued:
  assumes "length (sv_toNet s) + Suc (length pushes) \<le> Queue_kCapacity" and "\<not> (\<exists>x \<in> set pushes. is_answer x)"
  shows "answered m s (s\<lparr>sv_toNet := sv_toNet s @ answer (sv_id s) m body # pushes\<rparr>)"
  unfolding answered_def using assms by (intro exI [of _ pushes] exI [of _ body]) simp

lemma reply_answered: "length (sv_toNet s) \<le> Queue_kCapacity \<Longrightarrow> answered m s (reply m body s)"
  using answered_queued [of s "[]"] by (simp add: reply_def queue.put_law queue.batch_law answered_stop)

lemma spread_answered: "length (sv_toNet s) \<le> Queue_kCapacity \<Longrightarrow> answered m s (spread m target body s)"
  using answered_queued [of s "map (push_to (sv_id s) m target body) [0..<sv_gateways s]"]
  by (auto simp: spread_def queue.batch_law reply_answered)

lemma handle_answered:
  assumes "well_formed m" and "length (sv_toNet s) \<le> Queue_kCapacity"
  shows "answered m s (handle_message m s)"
  using assms by (auto simp: handle_message_def well_formed_def Let_def reply_answered spread_answered split: option.splits prod.splits)

section \<open>Runs of the two threads\<close>

text \<open>
  The threads share the two queues and the flag only, and each operation on a queue holds its lock: every interleaving is a sequence of these steps. The two
  extra lists record what the network thread has put into the first queue and what it has taken out of the second.
\<close>

datatype svc_op = SvcRequest Message | SvcLogic | SvcTake

fun svc_step :: "svc_op \<Rightarrow> Message list \<times> Service \<times> Message list \<Rightarrow> Message list \<times> Service \<times> Message list" where
  "svc_step (SvcRequest m) (accepted, s, taken) =
     (if \<not> sv_running s then (accepted, s, taken)
      else if h_seq (sm_header m) = 0 \<or> h_playerId (sm_header m) = 0 then (accepted, s\<lparr>sv_running := False\<rparr>, taken)
      else case Queue_Put m (sv_toLogic s) of
        (False, _) \<Rightarrow> (accepted, s\<lparr>sv_running := False\<rparr>, taken)
      | (True, q) \<Rightarrow> (accepted @ [m], s\<lparr>sv_toLogic := q\<rparr>, taken))"
| "svc_step SvcLogic (accepted, s, taken) = (accepted, logic_turn s, taken)"
| "svc_step SvcTake (accepted, s, taken) =
     (if \<not> sv_running s then (accepted, s, taken)
      else case Queue_TryGet (sv_toNet s) of
        None \<Rightarrow> (accepted, s, taken)
      | Some (m, q) \<Rightarrow> (accepted, s\<lparr>sv_toNet := q\<rparr>, taken @ [m]))"

abbreviation svc_run :: "svc_op list \<Rightarrow> Message list \<times> Service \<times> Message list \<Rightarrow> Message list \<times> Service \<times> Message list" where
  "svc_run \<equiv> fold svc_step"

definition ledger_ok :: "Message list \<Rightarrow> Service \<Rightarrow> Message list \<Rightarrow> Message list \<Rightarrow> bool" where
  "ledger_ok accepted s taken lost \<longleftrightarrow> queues_ok s \<and> (\<forall>m \<in> set (sv_toLogic s). well_formed m) \<and> length lost \<le> 1 \<and> (sv_running s \<longrightarrow> lost = []) \<and>
     map request_key accepted = map request_key (filter is_answer (taken @ sv_toNet s) @ lost @ sv_toLogic s)"

lemma ledger_request:
  assumes "ledger_ok accepted s taken lost" and "svc_step (SvcRequest m) (accepted, s, taken) = (accepted', s', taken')"
  shows "ledger_ok accepted' s' taken' lost"
proof -
  from assms(1) have q: "length (sv_toLogic s) \<le> Queue_kCapacity" by (simp add: ledger_ok_def queues_ok_def)
  show ?thesis
  proof (cases "sv_running s \<and> well_formed m \<and> length (sv_toLogic s) < Queue_kCapacity")
    case True
    then have "Queue_Put m (sv_toLogic s) = (True, sv_toLogic s @ [m])" using q by (simp add: Queue_Put_def)
    with True assms show ?thesis by (auto simp: ledger_ok_def queues_ok_def well_formed_def)
  next
    case False
    then have "accepted' = accepted" "taken' = taken" "s' = s \<or> s' = s\<lparr>sv_running := False\<rparr>"
      using assms(2) by (auto simp: well_formed_def Queue_Put_def split: if_splits)
    with assms(1) show ?thesis by (auto simp: ledger_ok_def queues_ok_def)
  qed
qed

lemma ledger_take:
  assumes "ledger_ok accepted s taken lost" and "svc_step SvcTake (accepted, s, taken) = (accepted', s', taken')"
  shows "ledger_ok accepted' s' taken' lost"
  using assms by (cases "sv_toNet s") (auto simp: ledger_ok_def queues_ok_def Queue_TryGet_def split: if_splits)

lemma ledger_logic:
  assumes "ledger_ok accepted s taken lost"
  shows "\<exists>lost'. ledger_ok accepted (logic_turn s) taken lost'"
proof (cases "sv_running s \<and> sv_toLogic s \<noteq> []")
  case True
  then obtain m rest where m: "sv_toLogic s = m # rest" by (auto simp: neq_Nil_conv)
  let ?s = "s\<lparr>sv_toLogic := rest\<rparr>"
  from assms m True have w: "well_formed m" and n: "length (sv_toNet ?s) \<le> Queue_kCapacity" and lost: "lost = []"
    by (auto simp: ledger_ok_def queues_ok_def)
  then obtain pushes body where p: "\<not> (\<exists>x \<in> set pushes. is_answer x)" "length (sv_toNet (handle_message m ?s)) \<le> Queue_kCapacity"
    and e: "handle_message m ?s = ?s\<lparr>sv_toNet := sv_toNet s @ answer (sv_id s) m body # pushes\<rparr> \<or> handle_message m ?s = ?s\<lparr>sv_running := False\<rparr>"
    using handle_answered [OF w n] by (auto simp: answered_def)
  have t: "logic_turn s = handle_message m ?s" using True m by (simp add: logic_turn_def Queue_TryGet_def)
  from e show ?thesis
  proof
    assume a: "handle_message m ?s = ?s\<lparr>sv_toNet := sv_toNet s @ answer (sv_id s) m body # pushes\<rparr>"
    have "filter is_answer pushes = []" using p(1) by (simp add: filter_empty_conv)
    moreover have "is_answer m" using w by (simp add: is_answer_def well_formed_def)
    ultimately have "ledger_ok accepted (logic_turn s) taken []"
      using assms a p(2) True by (simp add: t ledger_ok_def queues_ok_def m)
    then show ?thesis ..
  next
    assume a: "handle_message m ?s = ?s\<lparr>sv_running := False\<rparr>"
    have "ledger_ok accepted (logic_turn s) taken [m]" using assms a True lost by (simp add: t ledger_ok_def queues_ok_def m)
    then show ?thesis ..
  qed
next
  case False
  then have "logic_turn s = s" by (auto simp: logic_turn_def Queue_TryGet_def)
  with assms show ?thesis by auto
qed

lemma ledger_run:
  "ledger_ok accepted s taken lost \<Longrightarrow> svc_run ops (accepted, s, taken) = (accepted', s', taken') \<Longrightarrow> \<exists>lost'. ledger_ok accepted' s' taken' lost'"
proof (induction ops arbitrary: accepted s taken lost)
  case Nil
  then show ?case by auto
next
  case (Cons op ops)
  obtain a1 s1 t1 where st: "svc_step op (accepted, s, taken) = (a1, s1, t1)" by (metis prod_cases3)
  then have "\<exists>lost'. ledger_ok a1 s1 t1 lost'"
  proof (cases op)
    case (SvcRequest m)
    show ?thesis using ledger_request [OF Cons.prems(1) st [unfolded SvcRequest]] by blast
  next
    case SvcLogic
    then show ?thesis using ledger_logic [OF Cons.prems(1)] st by simp
  next
    case SvcTake
    show ?thesis using ledger_take [OF Cons.prems(1) st [unfolded SvcTake]] by blast
  qed
  with Cons.IH [of a1 s1 t1] Cons.prems(2) st show ?case by auto
qed

section \<open>The network thread\<close>

definition link_ok :: "Link \<Rightarrow> bool" where
  "link_ok lk \<longleftrightarrow> buffer_ok (lk_input lk) \<and> buffer_ok (lk_output lk) \<and> length (readable (lk_output lk)) \<le> 4 * 1024 * 1024"

text \<open>The bytes the messages for one gateway make.\<close>

definition frames_for :: "nat \<Rightarrow> Message list \<Rightarrow> bytes" where
  "frames_for g ms = concat (map (\<lambda>m. gate_frame (sm_header m, sm_body m)) (filter (\<lambda>m. sm_gateway m = g) ms))"

lemma WritePending_total:
  "buffer_ok out \<Longrightarrow> \<exists>ok out'. WritePending rs out = Some (ok, out') \<and> buffer_ok out' \<and> suffix (readable out') (readable out)"
proof (induction rs out rule: WritePending.induct)
  case (1 out)
  then show ?case by (intro exI [of _ True]) simp
next
  case (2 r rs out)
  show ?case
  proof (cases r)
    case (Sent n)
    let ?n = "min n (readableBytes out)"
    obtain b where b: "retrieve out ?n = Some b" "buffer_ok b" "readable b = drop ?n (readable out)"
      using retrieve_spec [OF "2.prems", of ?n] "2.prems" by auto
    show ?thesis
    proof (cases "readableBytes out = 0 \<or> n = 0")
      case False
      then obtain ok out' where o': "WritePending rs b = Some (ok, out')" "buffer_ok out'" "suffix (readable out') (readable b)"
        using "2.IH"(1) [OF _ Sent _ b(1,2)] by auto
      have "suffix (readable out') (readable out)" using o'(3) suffix_drop [of ?n "readable out"] unfolding b(3) by (rule suffix_order.trans)
      with False o'(1,2) b(1) Sent show ?thesis by auto
    qed (use "2.prems" Sent in auto)
  qed (use 2 in auto)
qed

lemma drain_out_spec:
  assumes "\<forall>lk \<in> set links. link_ok lk" and "\<forall>m \<in> set ms. sm_gateway m < length links"
  shows "\<exists>ok links'. drain_out ms links = Some (ok, links') \<and> length links' = length links \<and> (\<forall>lk \<in> set links'. link_ok lk) \<and>
    (\<forall>g < length links. lk_input (links' ! g) = lk_input (links ! g)) \<and>
    (ok \<longrightarrow> (\<forall>g < length links. readable (lk_output (links' ! g)) = readable (lk_output (links ! g)) @ frames_for g ms))"
  using assms
proof (induction ms arbitrary: links)
  case Nil
  then show ?case by (intro exI [of _ True]) (simp add: frames_for_def)
next
  case (Cons m ms)
  let ?g = "sm_gateway m"
  have g: "?g < length links" and lk: "link_ok (links ! ?g)" using Cons.prems by auto
  obtain out where out: "EncodeFrame (lk_output (links ! ?g)) (sm_header m) (sm_body m) = Some out" "buffer_ok out"
    "readable out = readable (lk_output (links ! ?g)) @ gate_frame (sm_header m, sm_body m)"
    using EncodeFrame_spec [of "lk_output (links ! ?g)" "sm_header m" "sm_body m"] lk by (auto simp: link_ok_def)
  show ?case
  proof (cases "readableBytes (lk_output (links ! ?g)) + length (sm_body m) + kHeaderSize > 4 * 1024 * 1024")
    case True
    with g Cons.prems show ?thesis by (intro exI [of _ False] exI [of _ links]) (simp add: Let_def)
  next
    case False
    let ?lk = "(links ! ?g)\<lparr>lk_output := out\<rparr>" and ?links = "links[?g := (links ! ?g)\<lparr>lk_output := out\<rparr>]"
    have "link_ok ?lk" using False lk out by (auto simp: link_ok_def gate_frame_def)
    then have "\<forall>lk \<in> set ?links. link_ok lk" using Cons.prems(1) by (auto dest: set_update_subset_insert [THEN subsetD])
    then obtain ok links' where l': "drain_out ms ?links = Some (ok, links')" "length links' = length links" "\<forall>lk \<in> set links'. link_ok lk"
      "\<forall>g < length links. lk_input (links' ! g) = lk_input (?links ! g)"
      "ok \<longrightarrow> (\<forall>g < length links. readable (lk_output (links' ! g)) = readable (lk_output (?links ! g)) @ frames_for g ms)"
      using Cons.IH [of ?links] Cons.prems(2) by auto
    have "drain_out (m # ms) links = Some (ok, links')" using g False out(1) l'(1) by (simp add: Let_def)
    moreover have "\<forall>g < length links. lk_input (links' ! g) = lk_input (links ! g)" using l'(4) g by (auto simp: nth_list_update)
    moreover have "ok \<longrightarrow> (\<forall>g < length links. readable (lk_output (links' ! g)) = readable (lk_output (links ! g)) @ frames_for g (m # ms))"
      using l'(5) g out(3) by (auto simp: nth_list_update frames_for_def)
    ultimately show ?thesis using l'(2,3) by blast
  qed
qed

lemma gate_next_total:
  assumes "buffer_ok b"
  shows "\<exists>v b'. gate_next dst b = Some (v, b') \<and> buffer_ok b' \<and> (v \<noteq> More \<longrightarrow> length (readable b') < length (readable b))"
  using gate_rx.impl_total [OF assms, where head = default_header and body = "[]" and dst = dst and r = 0]
    gate_rx.impl_progress [OF assms, where head = default_header and body = "[]" and dst = dst and r = 0]
  unfolding gate_next_loop by blast

text \<open>What the network thread may put into the queue.\<close>

definition request_from :: "nat \<Rightarrow> Message \<Rightarrow> bool" where
  "request_from g m \<longleftrightarrow> well_formed m \<and> h_srcServiceID (sm_header m) = kGateway \<and> sm_gateway m = g"

lemma decode_requests_total:
  assumes "buffer_ok b" and "length q \<le> Queue_kCapacity" and "length (readable b) < fuel"
  shows "\<exists>ok b' new. decode_requests fuel i g b q = Some (ok, b', q @ new) \<and> buffer_ok b' \<and> length (q @ new) \<le> Queue_kCapacity \<and>
    (\<forall>m \<in> set new. request_from g m)"
  using assms
proof (induction fuel arbitrary: b q)
  case 0
  then show ?case by simp
next
  case (Suc fuel)
  obtain v b1 where v: "gate_next i b = Some (v, b1)" "buffer_ok b1" "v \<noteq> More \<longrightarrow> length (readable b1) < length (readable b)"
    using gate_next_total [OF Suc.prems(1)] by blast
  show ?case
  proof (cases v)
    case (Got hb)
    obtain h body where hb: "hb = (h, body)" by force
    let ?m = "\<lparr>sm_header = h, sm_body = body, sm_gateway = g\<rparr>"
    show ?thesis
    proof (cases "request_from g ?m \<and> length q < Queue_kCapacity")
      case True
      then have "Queue_Put ?m q = (True, q @ [?m])" by (simp add: Queue_Put_def)
      moreover obtain ok b' new where "decode_requests fuel i g b1 (q @ [?m]) = Some (ok, b', (q @ [?m]) @ new)" "buffer_ok b'"
        "length ((q @ [?m]) @ new) \<le> Queue_kCapacity" "\<forall>m \<in> set new. request_from g m"
        using Suc.IH [OF v(2), of "q @ [?m]"] True v(3) Got Suc.prems(3) by auto
      ultimately show ?thesis using v(1) Got hb True
        by (intro exI [of _ ok] exI [of _ b'] exI [of _ "?m # new"]) (auto simp: request_from_def well_formed_def)
    next
      case False
      then have "decode_requests (Suc fuel) i g b q = Some (False, b1, q)"
        using v(1) Got hb Suc.prems(2) by (auto simp: request_from_def well_formed_def Queue_Put_def)
      then show ?thesis using v(2) Suc.prems(2) by (intro exI [of _ False] exI [of _ b1] exI [of _ "[]"]) simp
    qed
  next
    case More
    with v Suc.prems(2) show ?thesis by (intro exI [of _ True] exI [of _ b1] exI [of _ "[]"]) simp
  next
    case Bad
    with v Suc.prems(2) show ?thesis by (intro exI [of _ False] exI [of _ b1] exI [of _ "[]"]) simp
  qed
qed

text \<open>Frames that arrive become requests, in order; the rest of the bytes waits.\<close>

lemma decode_requests_frames:
  assumes "\<forall>m \<in> set ms. gate_valid i m \<and> request_from g \<lparr>sm_header = fst m, sm_body = snd m, sm_gateway = g\<rparr>"
    and "length q + length ms \<le> Queue_kCapacity" and "buffer_ok b" and "readable b = concat (map gate_frame ms) @ tail"
    and "gate_valid i next'" and "strict_prefix tail (gate_frame next')" and "length ms < fuel"
  shows "\<exists>b'. decode_requests fuel i g b q = Some (True, b', q @ map (\<lambda>m. \<lparr>sm_header = fst m, sm_body = snd m, sm_gateway = g\<rparr>) ms) \<and>
    buffer_ok b' \<and> readable b' = tail"
  using assms
proof (induction ms arbitrary: fuel b q)
  case Nil
  then obtain f where "fuel = Suc f" by (cases fuel) auto
  moreover obtain b' where "gate_next i b = Some (More, b')" "buffer_ok b'" "readable b' = tail"
    using gate_next_scan [of b i More tail] Nil gate_scan_partial [of i next' tail 0] by auto
  ultimately show ?case by simp
next
  case (Cons m ms)
  let ?m = "\<lparr>sm_header = fst m, sm_body = snd m, sm_gateway = g\<rparr>"
  from Cons.prems(7) obtain f where f: "fuel = Suc f" "length ms < f" by (cases fuel) auto
  obtain b1 where b1: "gate_next i b = Some (Got m, b1)" "buffer_ok b1" "readable b1 = concat (map gate_frame ms) @ tail"
    using gate_next_scan [of b i "Got m" "concat (map gate_frame ms) @ tail"] Cons.prems gate_scan_frame [of i m 0] by auto
  have "\<exists>b'. decode_requests f i g b1 (q @ [?m]) = Some (True, b', (q @ [?m]) @ map (\<lambda>m. \<lparr>sm_header = fst m, sm_body = snd m, sm_gateway = g\<rparr>) ms) \<and>
    buffer_ok b' \<and> readable b' = tail"
    using Cons.prems b1 f by (intro Cons.IH) auto
  moreover have "Queue_Put ?m q = (True, q @ [?m])" using Cons.prems(2) by (simp add: Queue_Put_def)
  moreover have "request_from g ?m" using Cons.prems(1) by simp
  ultimately show ?case using b1(1) f(1) by (auto simp: request_from_def well_formed_def split: prod.splits)
qed

lemma link_turn_total:
  assumes "link_ok lk" and "length q \<le> Queue_kCapacity"
  shows "\<exists>ok lk' new. link_turn i g ev lk q = Some (ok, lk', q @ new) \<and> link_ok lk' \<and> length (q @ new) \<le> Queue_kCapacity \<and>
    (\<forall>m \<in> set new. request_from g m)"
proof (cases "le_error ev")
  case True
  with assms show ?thesis by (intro exI [of _ False] exI [of _ lk] exI [of _ "[]"]) (simp add: link_turn_def)
next
  case False
  let ?w = "if le_writable ev then WritePending (le_sends ev) (lk_output lk) else Some (True, lk_output lk)"
  have lk: "buffer_ok (lk_input lk)" "buffer_ok (lk_output lk)" "length (readable (lk_output lk)) \<le> 4 * 1024 * 1024"
    using assms(1) by (simp_all add: link_ok_def)
  obtain ok out where w: "?w = Some (ok, out)" "buffer_ok out" "suffix (readable out) (readable (lk_output lk))"
    using WritePending_total [OF lk(2), of "le_sends ev"] lk(2) by (cases "le_writable ev") auto
  let ?lk = "lk\<lparr>lk_output := out\<rparr>"
  have out: "link_ok (?lk\<lparr>lk_input := inp\<rparr>)" "link_ok ?lk" if "buffer_ok inp" for inp
    using that w(2) suffix_length_le [OF w(3)] lk by (auto simp: link_ok_def)
  have stay: "link_turn i g ev lk q = Some (b, ?lk, q) \<Longrightarrow> ?thesis" for b
    using out(2) lk(1) assms(2) by (intro exI [of _ b] exI [of _ ?lk] exI [of _ "[]"]) simp
  show ?thesis
  proof (cases "ok \<and> le_readable ev")
    case False
    then show ?thesis using w(1) \<open>\<not> le_error ev\<close> by (intro stay [of ok]) (auto simp: link_turn_def)
  next
    case True
    show ?thesis
    proof (cases "le_recv ev")
      case (Received bs)
      obtain inp where inp: "buffer_append (lk_input lk) bs = Some inp" "buffer_ok inp" using append_spec [OF lk(1)] by blast
      obtain ok' inp' new where d: "decode_requests (Suc (readableBytes inp)) i g inp q = Some (ok', inp', q @ new)" "buffer_ok inp'"
        "length (q @ new) \<le> Queue_kCapacity" "\<forall>m \<in> set new. request_from g m"
        using decode_requests_total [OF inp(2) assms(2), of "Suc (readableBytes inp)" i g] inp(2) by auto
      show ?thesis
      proof (cases "readableBytes inp > 1024 * 1024")
        case big: True
        have "link_turn i g ev lk q = Some (False, ?lk\<lparr>lk_input := inp\<rparr>, q @ [])"
          using False True w(1) Received inp(1) big by (simp add: link_turn_def)
        then show ?thesis using out(1) [OF inp(2)] assms(2) by fastforce
      next
        case small: False
        have "link_turn i g ev lk q = Some (ok', ?lk\<lparr>lk_input := inp'\<rparr>, q @ new)"
          using False True w(1) Received inp(1) d(1) small by (simp add: link_turn_def)
        then show ?thesis using out(1) [OF d(2)] d(3,4) by blast
      qed
    next
      case RecvClosed
      show ?thesis using False True w(1) RecvClosed by (intro stay [of False]) (simp add: link_turn_def)
    next
      case RecvAgain
      show ?thesis using False True w(1) RecvAgain by (intro stay [of True]) (simp add: link_turn_def)
    next
      case RecvFailed
      show ?thesis using False True w(1) RecvFailed by (intro stay [of False]) (simp add: link_turn_def)
    qed
  qed
qed

lemma links_turn_total:
  assumes "\<forall>lk \<in> set lks. link_ok lk" and "length q \<le> Queue_kCapacity"
  shows "\<exists>ok lks' new. links_turn i g evs lks q = Some (ok, lks', q @ new) \<and> length lks' = length lks \<and> (\<forall>lk \<in> set lks'. link_ok lk) \<and>
    length (q @ new) \<le> Queue_kCapacity \<and> (\<forall>m \<in> set new. well_formed m \<and> sm_gateway m < g + length lks)"
  using assms
proof (induction i g evs lks q rule: links_turn.induct)
  case (1 i g ev evs lk lks q)
  obtain ok lk' new where t: "link_turn i g ev lk q = Some (ok, lk', q @ new)" "link_ok lk'" "length (q @ new) \<le> Queue_kCapacity"
    "\<forall>m \<in> set new. request_from g m"
    using link_turn_total [of lk q i g ev] "1.prems" by auto
  show ?case
  proof (cases ok)
    case False
    then show ?thesis using t "1.prems"(1)
      by (intro exI [of _ False] exI [of _ "lk' # lks"] exI [of _ new]) (auto simp: request_from_def)
  next
    case True
    obtain ok2 lks' new2 where l: "links_turn i (Suc g) evs lks (q @ new) = Some (ok2, lks', (q @ new) @ new2)" "length lks' = length lks"
      "\<forall>lk \<in> set lks'. link_ok lk" "length ((q @ new) @ new2) \<le> Queue_kCapacity" "\<forall>m \<in> set new2. well_formed m \<and> sm_gateway m < Suc g + length lks"
      using "1.IH" [OF t(1) refl] True "1.prems"(1) t(3) by fastforce
    then show ?thesis using t True
      by (intro exI [of _ ok2] exI [of _ "lk' # lks'"] exI [of _ "new @ new2"]) (auto simp: request_from_def)
  qed
qed (auto intro: exI [of _ "[]"])

section \<open>The whole service\<close>

definition service_ok :: "Service \<times> Link list \<Rightarrow> bool" where
  "service_ok = (\<lambda>(s, links). queues_ok s \<and> length links = sv_gateways s \<and> (\<forall>lk \<in> set links. link_ok lk) \<and>
     (\<forall>m \<in> set (sv_toLogic s). well_formed m \<and> sm_gateway m < sv_gateways s) \<and> (\<forall>m \<in> set (sv_toNet s). sm_gateway m < sv_gateways s))"

datatype svc_turn = NetTurn "link_event list" | LogicTurn

text \<open>Both loops, turn by turn: the loops end when the flag is cleared, which a failed turn of the network thread does.\<close>

definition turn_step :: "svc_turn \<Rightarrow> Service \<times> Link list \<Rightarrow> (Service \<times> Link list) option" where
  "turn_step t = (\<lambda>(s, links).
     if \<not> sv_running s then Some (s, links)
     else case t of
       LogicTurn \<Rightarrow> Some (logic_turn s, links)
     | NetTurn evs \<Rightarrow> map_option (\<lambda>(ok, s, links). (if ok then s else s\<lparr>sv_running := False\<rparr>, links)) (net_turn evs (s, links)))"

fun turns_run :: "svc_turn list \<Rightarrow> Service \<times> Link list \<Rightarrow> (Service \<times> Link list) option" where
  "turns_run [] x = Some x"
| "turns_run (t # ts) x = Option.bind (turn_step t x) (turns_run ts)"

lemma queue_gateways [simp]: "sm_gateway (answer i m body) = sm_gateway m" "sm_gateway (push_to i m p body g) = g"
  by (simp_all add: answer_def push_to_def Let_def)

text \<open>A handler touches nothing but the outgoing queue and the flag, and names only gateways there are.\<close>

definition handler_frame :: "Message \<Rightarrow> Service \<Rightarrow> Service \<Rightarrow> bool" where
  "handler_frame m s s' \<longleftrightarrow> sv_toLogic s' = sv_toLogic s \<and> sv_gateways s' = sv_gateways s \<and> sv_id s' = sv_id s \<and> length (sv_toNet s') \<le> Queue_kCapacity \<and>
     (\<forall>x \<in> set (sv_toNet s'). x \<in> set (sv_toNet s) \<or> sm_gateway x = sm_gateway m \<or> sm_gateway x < sv_gateways s)"

lemma reply_frame: "length (sv_toNet s) \<le> Queue_kCapacity \<Longrightarrow> handler_frame m s (reply m body s)"
  by (auto simp: reply_def handler_frame_def queue.put_law queue.batch_law)

lemma spread_frame: "length (sv_toNet s) \<le> Queue_kCapacity \<Longrightarrow> handler_frame m s (spread m target body s)"
  using reply_frame [of s m] by (auto simp: spread_def queue.batch_law) (auto simp: handler_frame_def)

lemma handle_frame:
  assumes "length (sv_toNet s) \<le> Queue_kCapacity"
  shows "handler_frame m s (handle_message m s)"
proof -
  have "handler_frame m s s" using assms by (simp add: handler_frame_def)
  then show ?thesis
    using assms by (auto simp: handle_message_def Let_def reply_frame spread_frame split: option.splits prod.splits)
qed

lemma logic_turn_ok:
  assumes "service_ok (s, links)"
  shows "service_ok (logic_turn s, links)"
proof (cases "sv_running s \<and> sv_toLogic s \<noteq> []")
  case True
  then obtain m rest where m: "sv_toLogic s = m # rest" by (auto simp: neq_Nil_conv)
  have t: "logic_turn s = handle_message m (s\<lparr>sv_toLogic := rest\<rparr>)" using True m by (simp add: logic_turn_def Queue_TryGet_def)
  have "handler_frame m (s\<lparr>sv_toLogic := rest\<rparr>) (logic_turn s)"
    unfolding t using assms by (intro handle_frame) (simp add: service_ok_def queues_ok_def)
  with assms m show ?thesis by (fastforce simp: service_ok_def queues_ok_def handler_frame_def)
next
  case False
  then have "logic_turn s = s" by (auto simp: logic_turn_def Queue_TryGet_def)
  with assms show ?thesis by simp
qed

lemma net_turn_ok:
  assumes "service_ok (s, links)"
  shows "\<exists>ok x. net_turn evs (s, links) = Some (ok, x) \<and> service_ok x"
proof -
  obtain ok links1 where d: "drain_out (sv_toNet s) links = Some (ok, links1)" "length links1 = length links" "\<forall>lk \<in> set links1. link_ok lk"
    using drain_out_spec [of links "sv_toNet s"] assms by (auto simp: service_ok_def)
  show ?thesis
  proof (cases ok)
    case False
    with d assms show ?thesis by (auto simp: net_turn_def service_ok_def queues_ok_def)
  next
    case True
    obtain ok2 links2 new where l: "links_turn (sv_id s) 0 evs links1 (sv_toLogic s) = Some (ok2, links2, sv_toLogic s @ new)"
      "length links2 = length links1" "\<forall>lk \<in> set links2. link_ok lk" "length (sv_toLogic s @ new) \<le> Queue_kCapacity"
      "\<forall>m \<in> set new. well_formed m \<and> sm_gateway m < 0 + length links1"
      using links_turn_total [OF d(3), of "sv_toLogic s" "sv_id s" 0 evs] assms by (auto simp: service_ok_def queues_ok_def)
    with True d assms show ?thesis by (auto simp: net_turn_def service_ok_def queues_ok_def)
  qed
qed

lemma turns_run_ok: "service_ok x \<Longrightarrow> \<exists>y. turns_run ts x = Some y \<and> service_ok y"
proof (induction ts arbitrary: x)
  case Nil
  then show ?case by simp
next
  case (Cons t ts)
  obtain s links where x: "x = (s, links)" by force
  have "\<exists>y. turn_step t x = Some y \<and> service_ok y"
  proof (cases t)
    case (NetTurn evs)
    obtain ok s1 links1 where n: "net_turn evs (s, links) = Some (ok, s1, links1)" "service_ok (s1, links1)"
      using net_turn_ok [of s links evs] Cons.prems x by auto
    then have "service_ok (s1\<lparr>sv_running := False\<rparr>, links1)" by (simp add: service_ok_def queues_ok_def)
    with n NetTurn x Cons.prems show ?thesis by (auto simp: turn_step_def)
  next
    case LogicTurn
    then show ?thesis using logic_turn_ok [of s links] Cons.prems x by (auto simp: turn_step_def)
  qed
  with Cons.IH show ?case by auto
qed

section \<open>The start of a service\<close>

lemma handshake_length: "length (snd (service_handshake i zone a)) = 27"
  by (simp add: service_handshake_def PackBackendHandshake_def)

lemma new_link_spec:
  "\<exists>lk. new_link i zone a = Some lk \<and> link_ok lk \<and> lk_input lk = new_buffer \<and> readable (lk_output lk) = gate_frame (service_handshake i zone a)"
proof -
  obtain h body where h: "service_handshake i zone a = (h, body)" by force
  have "length body = 27" using handshake_length [of i zone a] h by simp
  moreover obtain out where "EncodeFrame new_buffer h body = Some out" "buffer_ok out" "readable out = gate_frame (h, body)"
    using EncodeFrame_spec [of new_buffer h body] by auto
  ultimately show ?thesis by (auto simp: new_link_def h link_ok_def gate_frame_def)
qed

lemma those_all: "\<forall>a \<in> set as. \<exists>b. f a = Some b \<Longrightarrow> those (map f as) = Some (map (\<lambda>a. the (f a)) as)"
  by (induction as) auto

lemma start_links: "those (map (new_link i zone) args) = Some (map (\<lambda>a. the (new_link i zone a)) args)"
  using new_link_spec by (intro those_all) blast

lemma start_ok: "start_service i args = Some x \<Longrightarrow> service_ok x"
proof -
  have "link_ok (the (new_link i zone a))" for zone a using new_link_spec [of i zone a] by auto
  then show "start_service i args = Some x \<Longrightarrow> service_ok x"
    by (auto simp: start_service_def start_links service_ok_def queues_ok_def split: if_splits option.splits)
qed

lemma check_gateways_step:
  assumes "check_gateways seen zone (a # as) = Some z"
  shows "0 < ga_id a \<and> ga_id a \<le> 0xFFFFFFFF \<and> 0 < ga_zone a \<and> ga_zone a \<le> 0xFFFFFFFF" "zone = 0 \<or> ga_zone a = zone"
    "ga_id a \<notin> ga_id ` set seen" "check_gateways (seen @ [a]) (ga_zone a) as = Some z"
  using assms by (auto simp: list_ex_iff split: if_splits)

lemma check_gateways_spec:
  "check_gateways seen zone as = Some z \<Longrightarrow>
    (\<forall>a \<in> set as. ga_zone a = z \<and> 0 < z \<and> z \<le> 0xFFFFFFFF \<and> 0 < ga_id a \<and> ga_id a \<le> 0xFFFFFFFF) \<and> (zone = 0 \<or> z = zone) \<and>
    distinct (map ga_id as) \<and> (\<forall>a \<in> set as. ga_id a \<notin> ga_id ` set seen)"
proof (induction as arbitrary: seen zone)
  case Nil
  then show ?case by simp
next
  case (Cons a as)
  note st = check_gateways_step [OF Cons.prems]
  note ih = Cons.IH [OF st(4)]
  have z: "z = ga_zone a" using ih st(1) by auto
  have "ga_id a \<notin> ga_id ` set as" using ih by auto
  then show ?case using ih st(1-3) z by (simp del: check_gateways.simps)
qed

section \<open>Properties\<close>

definition chat_request :: "u64 \<Rightarrow> u64 \<Rightarrow> bytes \<Rightarrow> nat \<Rightarrow> Message" where
  "chat_request sn player body g =
     \<lparr>sm_header = MakeHeader kChatMsg ServiceModule_kChat kPrivateChat sn player kGateway kChat, sm_body = body, sm_gateway = g\<rparr>"

definition idle_service :: "u8 \<Rightarrow> nat \<Rightarrow> Service" where
  "idle_service i n = \<lparr>sv_id = i, sv_gateways = n, sv_toLogic = [], sv_toNet = [], sv_running = True\<rparr>"

text \<open>
  C7. A service answers every request it took exactly once and in the order it took them, whatever the interleaving of its two threads: while it runs, the answers sent or
  queued, followed by the requests still waiting, are the accepted requests, each answer with the module, method, sequence number, player and
  gateway of its request. At most one request has lost its answer, and then the service has stopped and its links close.
\<close>

theorem service_answers_each_request_once:
  assumes "sv_toLogic s0 = []" and "sv_toNet s0 = []" and "sv_running s0"
    and "svc_run ops ([], s0, []) = (accepted, s, taken)"
  shows "\<exists>lost. map request_key accepted = map request_key (filter is_answer (taken @ sv_toNet s) @ lost @ sv_toLogic s) \<and>
    length lost \<le> 1 \<and> (sv_running s \<longrightarrow> lost = [])"
proof -
  have "ledger_ok [] s0 [] []" using assms(1-3) by (simp add: ledger_ok_def queues_ok_def)
  from ledger_run [OF this assms(4)] show ?thesis by (auto simp: ledger_ok_def)
qed

theorem service_answers_each_request_once_witness:
  "\<exists>accepted s taken lost. svc_run [SvcRequest (chat_request 5 7 [] 0), SvcLogic, SvcTake] ([], idle_service kChat 1, []) = (accepted, s, taken) \<and>
     length accepted = 1 \<and> length taken = 1 \<and> sv_running s \<and>
     map request_key accepted = map request_key (filter is_answer (taken @ sv_toNet s) @ lost @ sv_toLogic s) \<and> lost = []"
proof -
  obtain accepted s taken where r: "svc_run [SvcRequest (chat_request 5 7 [] 0), SvcLogic, SvcTake] ([], idle_service kChat 1, []) = (accepted, s, taken)"
    by (metis prod_cases3)
  moreover have "length accepted = 1 \<and> length taken = 1 \<and> sv_running s"
    using r by (auto simp: chat_request_def idle_service_def MakeHeader_def default_header_def Queue_Put_def Queue_kCapacity_def logic_turn_def
        Queue_TryGet_def handle_message_def reply_def Let_def ParseChatBody_def ServiceModule_kChat_def kPrivateChat_def)
  ultimately show ?thesis using service_answers_each_request_once [OF _ _ _ r] by (auto simp: idle_service_def)
qed

text \<open>
  C16. A private chat message reaches the queue for every gateway or for none. It is accepted exactly when its body is the encoding of a target other than nobody and the sender, a valid
  sender name and a valid text, and the queue has room for the answer and one push for each gateway; then the answer comes first and every push carries the sender, the name and the text.
  Otherwise no push is queued.
\<close>

theorem private_chat_all_or_none:
  assumes "well_formed m" and "sv_id s = kChat" and "h_module (sm_header m) = ServiceModule_kChat" and "h_method (sm_header m) = kPrivateChat"
    and "length (sv_toNet s) \<le> Queue_kCapacity"
  shows "(\<forall>target name t. sm_body m = ChatBody target name t \<and> name \<noteq> [] \<and> ValidRoleName name \<and> ValidChatText t \<and> target \<noteq> 0 \<and>
            target \<noteq> h_playerId (sm_header m) \<and> length (sv_toNet s) + Suc (sv_gateways s) \<le> Queue_kCapacity \<longrightarrow>
            handle_message m s = s\<lparr>sv_toNet := sv_toNet s @ answer kChat m (ascii ''accepted'') #
              map (push_to kChat m target (ChatBody (h_playerId (sm_header m)) name t)) [0..<sv_gateways s]\<rparr>) \<and>
    ((\<nexists>target name t. sm_body m = ChatBody target name t \<and> name \<noteq> [] \<and> ValidRoleName name \<and> ValidChatText t \<and> target \<noteq> 0 \<and>
            target \<noteq> h_playerId (sm_header m) \<and> length (sv_toNet s) + Suc (sv_gateways s) \<le> Queue_kCapacity) \<longrightarrow>
       filter (\<lambda>x. \<not> is_answer x) (sv_toNet (handle_message m s)) = filter (\<lambda>x. \<not> is_answer x) (sv_toNet s))"
proof -
  have refused: "filter (\<lambda>x. \<not> is_answer x) (sv_toNet (reply m b s)) = filter (\<lambda>x. \<not> is_answer x) (sv_toNet s)" for b
    using assms(1,5) by (auto simp: reply_def queue.put_law queue.batch_law is_answer_def [of m] well_formed_def)
  show ?thesis
  proof (cases "ParseChatBody (sm_body m)")
    case None
    then have "\<not> (sm_body m = ChatBody p n t \<and> n \<noteq> [] \<and> ValidRoleName n)" for p n t using ParseChatBody_ChatBody [of n p t] by auto
    moreover have "handle_message m s = reply m (ascii ''invalid chat message'') s"
      using None assms by (simp add: handle_message_def well_formed_def)
    ultimately show ?thesis using refused by auto
  next
    case (Some parsed)
    then obtain p n t where q: "ParseChatBody (sm_body m) = Some (p, n, t)" by (cases parsed) auto
    then have b: "sm_body m = ChatBody p n t" "n \<noteq> []" "ValidRoleName n" using ParseChatBody_inv by blast+
    have u: "p' = p \<and> n' = n \<and> t' = t" if "sm_body m = ChatBody p' n' t'" "n' \<noteq> []" "ValidRoleName n'" for p' n' t'
      using ParseChatBody_ChatBody [OF that(2,3), of p' t'] q that(1) by simp
    have h: "handle_message m s = (if p = 0 \<or> p = h_playerId (sm_header m) \<or> n = [] \<or> \<not> ValidChatText t then reply m (ascii ''invalid chat message'') s
        else spread m p (ChatBody (h_playerId (sm_header m)) n t) s)"
      using q assms by (simp add: handle_message_def well_formed_def)
    show ?thesis
    proof (cases "p = 0 \<or> p = h_playerId (sm_header m) \<or> \<not> ValidChatText t \<or> Queue_kCapacity < length (sv_toNet s) + Suc (sv_gateways s)")
      case True
      then have "\<exists>b. handle_message m s = reply m b s" using assms(5) unfolding h by (auto simp: spread_def queue.batch_law)
      then have r: "filter (\<lambda>x. \<not> is_answer x) (sv_toNet (handle_message m s)) = filter (\<lambda>x. \<not> is_answer x) (sv_toNet s)"
        using refused by auto
      have "\<not> (sm_body m = ChatBody p' n' t' \<and> n' \<noteq> [] \<and> ValidRoleName n' \<and> ValidChatText t' \<and> p' \<noteq> 0 \<and>
            p' \<noteq> h_playerId (sm_header m) \<and> length (sv_toNet s) + Suc (sv_gateways s) \<le> Queue_kCapacity)" for p' n' t'
        using True u [of p' n' t'] by auto
      with r show ?thesis by blast
    next
      case False
      then have e: "handle_message m s = s\<lparr>sv_toNet := sv_toNet s @ answer kChat m (ascii ''accepted'') #
              map (push_to kChat m p (ChatBody (h_playerId (sm_header m)) n t)) [0..<sv_gateways s]\<rparr>"
        using assms(2,5) b(2) unfolding h by (simp add: spread_def queue.batch_law)
      have "handle_message m s = s\<lparr>sv_toNet := sv_toNet s @ answer kChat m (ascii ''accepted'') #
              map (push_to kChat m p' (ChatBody (h_playerId (sm_header m)) n' t')) [0..<sv_gateways s]\<rparr>"
        if "sm_body m = ChatBody p' n' t'" "n' \<noteq> []" "ValidRoleName n'" for p' n' t'
        using u [OF that] e by simp
      moreover have "sm_body m = ChatBody p n t \<and> n \<noteq> [] \<and> ValidRoleName n \<and> ValidChatText t \<and> p \<noteq> 0 \<and>
            p \<noteq> h_playerId (sm_header m) \<and> length (sv_toNet s) + Suc (sv_gateways s) \<le> Queue_kCapacity"
        using False b by simp
      ultimately show ?thesis by blast
    qed
  qed
qed

lemma sample_names:
  "ValidRoleName (ascii ''Bo'')" "ValidChatText (ascii ''hi'')" "ascii ''Bo'' \<noteq> []"
proof -
  have n: "ascii ''Bo'' = [66, 111]" and t: "ascii ''hi'' = [104, 105]" by (simp_all add: ascii_def)
  show "ValidRoleName (ascii ''Bo'')" by (simp add: ValidRoleName_def n role_name_step1)
  show "ValidChatText (ascii ''hi'')" by (simp add: ValidChatText_def chat_text_loop_eq t role_name_step1)
  show "ascii ''Bo'' \<noteq> []" by (simp add: ascii_def)
qed

theorem private_chat_all_or_none_witness:
  "handle_message (chat_request 5 7 (ChatBody 9 (ascii ''Bo'') (ascii ''hi'')) 1) (idle_service kChat 2) =
     (idle_service kChat 2)\<lparr>sv_toNet := answer kChat (chat_request 5 7 (ChatBody 9 (ascii ''Bo'') (ascii ''hi'')) 1) (ascii ''accepted'') #
       map (push_to kChat (chat_request 5 7 (ChatBody 9 (ascii ''Bo'') (ascii ''hi'')) 1) 9 (ChatBody 7 (ascii ''Bo'') (ascii ''hi''))) [0..<2]\<rparr>"
proof -
  let ?m = "chat_request 5 7 (ChatBody 9 (ascii ''Bo'') (ascii ''hi'')) 1"
  have m: "well_formed ?m" "h_module (sm_header ?m) = ServiceModule_kChat" "h_method (sm_header ?m) = kPrivateChat" "h_playerId (sm_header ?m) = 7"
    "sm_body ?m = ChatBody 9 (ascii ''Bo'') (ascii ''hi'')"
    by (simp_all add: chat_request_def well_formed_def MakeHeader_def default_header_def)
  have s: "sv_id (idle_service kChat 2) = kChat" "length (sv_toNet (idle_service kChat 2)) \<le> Queue_kCapacity" "sv_toNet (idle_service kChat 2) = []"
    "sv_gateways (idle_service kChat 2) = 2"
    by (simp_all add: idle_service_def)
  show ?thesis
    using private_chat_all_or_none [OF m(1) s(1) m(2,3) s(2), THEN conjunct1, rule_format, of 9 "ascii ''Bo''" "ascii ''hi''"] m(4,5) s(3,4) sample_names
    by (simp add: Queue_kCapacity_def)
qed

text \<open>
  C15. The service never reads or writes outside a buffer or a table, and keeps its bounds: from a start with any command line, whatever the sockets report and
  deliver, every turn of either thread has a result, the queues stay within their capacity, no link holds more than four megabytes to send, and every queued
  message names a gateway there is.
\<close>

theorem service_turns_never_fault:
  assumes "start_service i args = Some x"
  shows "\<exists>y. turns_run ts x = Some y \<and> service_ok y"
  by (rule turns_run_ok [OF start_ok [OF assms]])

definition sample_gateway :: gateway_arg where
  "sample_gateway = \<lparr>ga_id = 1, ga_addr = ''10.0.0.1'', ga_port = 9000, ga_zone = 1\<rparr>"

definition noisy_link :: link_event where
  "noisy_link = \<lparr>le_error = False, le_writable = True, le_sends = [Sent 10], le_readable = True, le_recv = Received [0xC1, 0xEA, 0, 1]\<rparr>"

lemma sample_start: "\<exists>x. start_service kChat [sample_gateway] = Some x"
  unfolding start_service_def start_links by (simp add: sample_gateway_def Queue_kCapacity_def)

theorem service_turns_never_fault_witness:
  "\<exists>x y. start_service kChat [sample_gateway] = Some x \<and> turns_run [NetTurn [noisy_link], LogicTurn, NetTurn []] x = Some y \<and> service_ok y"
proof -
  obtain x where x: "start_service kChat [sample_gateway] = Some x" using sample_start by blast
  from service_turns_never_fault [OF x] x show ?thesis by blast
qed

text \<open>
  The chat body is an exact code: a body parses to a player, a name and a text exactly when the name is valid and not empty and the body is
  what \<open>ChatBody\<close> makes of them; so a parsed body is the only one with its meaning.
\<close>

theorem chat_body_exact:
  "ParseChatBody body = Some (p, n, t) \<longleftrightarrow> n \<noteq> [] \<and> ValidRoleName n \<and> body = ChatBody p n t"
  by (rule ParseChatBody_iff)

text \<open>
  The text check is exact: a text is accepted when it has one to 1024 bytes and is the UTF-8 encoding of scalar values other than control characters.
\<close>

theorem chat_text_exact:
  "ValidChatText t \<longleftrightarrow> t \<noteq> [] \<and> length t \<le> 1024 \<and> (\<exists>cps. list_all printable cps \<and> map unat t = concat (map utf8 cps))"
  by (rule ValidChatText_iff)

text \<open>
  What the logic thread answers goes to the gateway it names, in order: a turn that succeeds appends to the output of each link the frames of the messages for it, and the
  links' input is as it was.
\<close>

theorem queue_drains_to_its_gateways:
  assumes "service_ok (s, links)" and "drain_out (sv_toNet s) links = Some (True, links')" and "g < sv_gateways s"
  shows "readable (lk_output (links' ! g)) = readable (lk_output (links ! g)) @ frames_for g (sv_toNet s) \<and> lk_input (links' ! g) = lk_input (links ! g)"
  using drain_out_spec [of links "sv_toNet s"] assms by (auto simp: service_ok_def)

text \<open>
  The bytes of a gateway become requests in order: whole frames addressed to the service with a sequence number and a player are queued one by one for
  that link, and an unfinished frame stays in the buffer.
\<close>

theorem requests_enter_in_order:
  assumes "\<forall>m \<in> set ms. gate_valid i m \<and> request_from g \<lparr>sm_header = fst m, sm_body = snd m, sm_gateway = g\<rparr>"
    and "length q + length ms \<le> Queue_kCapacity" and "buffer_ok b" and "readable b = concat (map gate_frame ms) @ tail"
    and "gate_valid i next'" and "strict_prefix tail (gate_frame next')"
  shows "\<exists>b'. decode_requests (Suc (readableBytes b)) i g b q = Some (True, b', q @ map (\<lambda>m. \<lparr>sm_header = fst m, sm_body = snd m, sm_gateway = g\<rparr>) ms) \<and>
    buffer_ok b' \<and> readable b' = tail"
proof -
  have "length ms \<le> length (concat (map gate_frame ms))"
    by (induction ms) (simp_all add: gate_frame_def)
  then have "length ms < Suc (readableBytes b)" using assms(3,4) by simp
  from decode_requests_frames [OF assms this] show ?thesis .
qed

text \<open>
  The first frame of every link is a handshake its gateway accepts: it decodes at the gateway to a header without player and sequence number and a body that unpacks to a valid handshake, with the
  service, the zone and that gateway's number; and the gateways of a command line that is accepted have different numbers.
\<close>

theorem links_open_with_valid_handshake:
  assumes "start_service i args = Some (s, links)" and "k < length args" and "i \<noteq> 0" and "i \<noteq> kScene"
  shows "distinct (map ga_id args) \<and> (\<exists>h hs b'. gate_next kGateway (lk_output (links ! k)) =
      Some (Got (h, PackBackendHandshake hs), b') \<and> readable b' = [] \<and> ValidBackendHandshake hs \<and> hs_serviceId hs = i \<and>
      hs_targetGatewayId hs = of_nat (ga_id (args ! k)) \<and> hs_zoneId hs = of_nat (ga_zone (args ! k)) \<and>
      h_srcServiceID h = i \<and> h_module h = kSYS \<and> h_method h = kHandshake \<and> h_seq h = 0 \<and> h_playerId h = 0)"
proof -
  from assms(1) obtain zone where z: "check_gateways [] 0 args = Some zone" and l: "links = map (\<lambda>a. the (new_link i zone a)) args"
    by (auto simp: start_service_def start_links split: if_splits option.splits)
  let ?a = "args ! k"
  note spec = check_gateways_spec [OF z]
  have a: "ga_zone ?a = zone" "0 < zone" "zone \<le> 0xFFFFFFFF" "0 < ga_id ?a" "ga_id ?a \<le> 0xFFFFFFFF" using spec nth_mem [OF assms(2)] by blast+
  obtain h0 body where f: "service_handshake i zone ?a = (h0, body)" by force
  let ?h = "h0\<lparr>h_totalLen := word_of_nat (32 + length body)\<rparr>"
  obtain hs where hs: "body = PackBackendHandshake hs" "hs_serviceId hs = i" "hs_zoneId hs = of_nat zone" "hs_targetGatewayId hs = of_nat (ga_id ?a)"
    "hs_sceneId hs = 0" "hs_sceneIncarnation hs = 0" "hs_channelId hs = 0" "hs_protocolVersion hs = kProtocolVersion"
    using f by (auto simp: service_handshake_def)
  have h0: "h_srcServiceID h0 = i" "h_module h0 = kSYS" "h_method h0 = kHandshake" "h_seq h0 = 0" "h_playerId h0 = 0" "h_dstServiceID h0 = kGateway"
    using f by (auto simp: service_handshake_def MakeHeader_def default_header_def)
  have "(of_nat zone :: u32) \<noteq> 0" "(of_nat (ga_id ?a) :: u32) \<noteq> 0"
    using a by (auto simp: word_of_nat_eq_0_iff dest: nat_dvd_not_less [rotated])
  then have v: "ValidBackendHandshake hs" using hs assms(3,4) by (simp add: ValidBackendHandshake_def)
  have len: "length body = 27" using handshake_length [of i zone ?a] f by simp
  have gv: "gate_valid kGateway (?h, body)" using len h0 by (simp add: gate_valid_def)
  obtain lk where lk: "new_link i zone ?a = Some lk" "link_ok lk" "readable (lk_output lk) = gate_frame (h0, body)"
    using new_link_spec [of i zone ?a] f by auto
  have "gate_frame (h0, body) = gate_frame (?h, body)" by (simp add: gate_frame_def header_bytes_def)
  then have "gate_scan kGateway 0 (readable (lk_output lk)) = (Got (?h, body), [])"
    using gate_scan_frame [OF gv, of 0 "[]"] lk(3) by simp
  then obtain b' where "gate_next kGateway (lk_output lk) = Some (Got (?h, body), b')" "readable b' = []"
    using gate_next_scan [of "lk_output lk" kGateway] lk(2) by (auto simp: link_ok_def)
  moreover have "links ! k = lk" using l lk(1) assms(2) by simp
  ultimately show ?thesis using spec hs v h0 a(1) by (intro conjI exI [of _ ?h] exI [of _ hs] exI [of _ b']) simp_all
qed

theorem links_open_with_valid_handshake_witness:
  "\<exists>s links h hs b'. start_service kChat [sample_gateway] = Some (s, links) \<and>
     gate_next kGateway (lk_output (links ! 0)) = Some (Got (h, PackBackendHandshake hs), b') \<and> ValidBackendHandshake hs \<and> hs_targetGatewayId hs = 1"
proof -
  obtain s links where x: "start_service kChat [sample_gateway] = Some (s, links)" using sample_start by auto
  from links_open_with_valid_handshake [OF x, of 0] x show ?thesis by (fastforce simp: sample_gateway_def)
qed

end
