(* ===== verification/Messages.thy ===== *)
theory Messages
  imports GatewayPlayer
begin

text \<open>
  The message every thread of the scene server exchanges, sceneServer/src-cpp/common/msg.h, with the
  outcome of a hand-over, common/msgBus.h. The diagnostics fields of \<open>Msg\<close> are left out: no code that is modelled
  reads them.
\<close>

section \<open>Message types\<close>

definition MSGTYPE_NONE :: u16 where "MSGTYPE_NONE = 0"
definition MSGTYPE_DB_TASK_MYSQL :: u16 where "MSGTYPE_DB_TASK_MYSQL = 7"
definition MSGTYPE_DB_RESULT_MYSQL :: u16 where "MSGTYPE_DB_RESULT_MYSQL = 8"
definition MSGTYPE_DB_TASK_REDIS :: u16 where "MSGTYPE_DB_TASK_REDIS = 11"
definition MSGTYPE_DB_RESULT_REDIS :: u16 where "MSGTYPE_DB_RESULT_REDIS = 12"
definition MSGTYPE_DB_CONTROL_MYSQL :: u16 where "MSGTYPE_DB_CONTROL_MYSQL = 13"
definition MSGTYPE_DB_CONTROL_REDIS :: u16 where "MSGTYPE_DB_CONTROL_REDIS = 14"
definition MSGTYPE_DB_STATUS :: u16 where "MSGTYPE_DB_STATUS = 15"

lemmas msgtype_defs = MSGTYPE_NONE_def MSGTYPE_DB_TASK_MYSQL_def MSGTYPE_DB_RESULT_MYSQL_def
  MSGTYPE_DB_TASK_REDIS_def MSGTYPE_DB_RESULT_REDIS_def MSGTYPE_DB_CONTROL_MYSQL_def
  MSGTYPE_DB_CONTROL_REDIS_def MSGTYPE_DB_STATUS_def

definition IsDbTask :: "u16 \<Rightarrow> bool" where
  "IsDbTask t \<longleftrightarrow> t = MSGTYPE_DB_TASK_MYSQL \<or> t = MSGTYPE_DB_TASK_REDIS"

definition IsDbResult :: "u16 \<Rightarrow> bool" where
  "IsDbResult t \<longleftrightarrow> t = MSGTYPE_DB_RESULT_MYSQL \<or> t = MSGTYPE_DB_RESULT_REDIS"

section \<open>Messages\<close>

record MsgHead =
  mh_taskId :: u64
  mh_dbControl :: u8
  mh_clientBinding :: ClientData
  mh_hasClientBinding :: bool
  mh_msgType :: u16
  mh_Module :: u16
  mh_Method :: u16
  mh_seq :: u64
  mh_session :: u64
  mh_playerId :: u64
  mh_srcWorkerId :: u32
  mh_serviceSenderWorkerId :: u32
  mh_epoch :: u32
  mh_ctx :: u64
  mh_dbShard :: u16

record Msg =
  msg_head :: MsgHead
  msg_body :: bytes

definition no_client :: ClientData where
  "no_client = \<lparr>cd_playerId = 0, cd_clientSession = 0, cd_clientEpoch = 0, cd_gatewayId = 0, cd_sceneId = 0\<rparr>"

definition empty_head :: MsgHead where
  "empty_head = \<lparr>mh_taskId = 0, mh_dbControl = 0, mh_clientBinding = no_client, mh_hasClientBinding = False,
     mh_msgType = MSGTYPE_NONE, mh_Module = 0, mh_Method = 0, mh_seq = 0, mh_session = 0, mh_playerId = 0,
     mh_srcWorkerId = 0, mh_serviceSenderWorkerId = 0xFFFFFFFF, mh_epoch = 0, mh_ctx = 0, mh_dbShard = 0\<rparr>"

definition empty_msg :: Msg where
  "empty_msg = \<lparr>msg_head = empty_head, msg_body = []\<rparr>"

datatype DispatchResult = kAccepted | kBackpressure | kTargetStopped | kInvalidTarget | kInvalidMessage

definition IsAccepted :: "DispatchResult \<Rightarrow> bool" where
  "IsAccepted r \<longleftrightarrow> r = kAccepted"

lemma IsAccepted_simps [simp]:
  "IsAccepted kAccepted" "\<not> IsAccepted kBackpressure" "\<not> IsAccepted kTargetStopped"
  "\<not> IsAccepted kInvalidTarget" "\<not> IsAccepted kInvalidMessage"
  by (simp_all add: IsAccepted_def)

section \<open>Packing\<close>

definition PutU16 :: "bytes \<Rightarrow> u16 \<Rightarrow> bytes" where "PutU16 s v = s @ put_le 2 v"
definition PutU32 :: "bytes \<Rightarrow> u32 \<Rightarrow> bytes" where "PutU32 s v = s @ put_le 4 v"
definition PutI64 :: "bytes \<Rightarrow> 64 word \<Rightarrow> bytes" where "PutI64 s v = s @ put_le 8 v"

text \<open>The readers take a pointer; the caller guarantees the bytes exist.\<close>

definition GetU16 :: "bytes \<Rightarrow> u16" where "GetU16 p = get_le (take 2 p)"
definition GetU32 :: "bytes \<Rightarrow> u32" where "GetU32 p = get_le (take 4 p)"
definition GetI64 :: "bytes \<Rightarrow> 64 word" where "GetI64 p = get_le (take 8 p)"

lemma put_get [codec_simps]:
  "GetU16 (drop (length s) (PutU16 s a @ r)) = a"
  "GetU32 (drop (length s) (PutU32 s b @ r)) = b"
  "GetI64 (drop (length s) (PutI64 s c @ r)) = c"
  by (simp_all add: PutU16_def PutU32_def PutI64_def GetU16_def GetU32_def GetI64_def get_put_fields)

end
