(* ===== verification/TimerThread.thy ===== *)
theory TimerThread
  imports Messages "HOL-Library.Multiset"
begin

text \<open>
  The timer thread of the scene server, sceneServer/src-cpp/timer/TimerThread.h and TimerThread.cc: a wheel of slots that hold the
  numbers of timers, the table of live timers, the index from the caller's number to the live ones, and the queue of commands. Readings of the
  clock are arguments, in nanoseconds; a message that falls due is appended to a log of what was handed to the bus, whose
  answer the thread ignores. The log of dropped commands and the sleep until the next tick, which only delays an iteration, are left out.
\<close>

section \<open>State\<close>

definition MSGTYPE_TIMER_FIRE :: u16 where "MSGTYPE_TIMER_FIRE = 6"

datatype TimerKind = ADD | CANCEL

record TimerOp =
  to_kind :: TimerKind
  to_timerId :: u64
  to_ownerWorkerId :: u64
  to_intervalMs :: u64
  to_repeat :: bool
  to_Module :: u16
  to_Method :: u16
  to_playerId :: u64
  to_session :: u64
  to_seq :: u64
  to_epoch :: u32

record TimerItem =
  ti_internalId :: u64
  ti_userTimerId :: u64
  ti_ownerWorkerId :: u64
  ti_intervalMs :: u64
  ti_repeat :: bool
  ti_Module :: u16
  ti_Method :: u16
  ti_playerId :: u64
  ti_session :: u64
  ti_seq :: u64
  ti_epoch :: u32

record LiveTimer =
  lt_leftRound :: u64
  lt_item :: TimerItem

definition kWheelSlots :: u32 where "kWheelSlots = 256"
definition kMinTickMs :: u64 where "kMinTickMs = 1"
definition kMaxTickMs :: u64 where "kMaxTickMs = 1000"
definition kMaxCatchupTicks :: int where "kMaxCatchupTicks = 5"
definition kMaxCommandsPerTick :: nat where "kMaxCommandsPerTick = 1024"
definition kMaxPendingCommands :: nat where "kMaxPendingCommands = 65536"

record TimerThread =
  tt_tick :: u64
  tt_wheelSlots :: u32
  tt_slots :: "u64 list list"
  tt_live :: "(u64, LiveTimer) umap"
  tt_byUser :: "(u64, u64 list) umap"
  tt_nextInternalId :: u64
  tt_curSlot :: u32
  tt_nowMs :: u64
  tt_advanced :: int
  tt_skipped :: int
  tt_queue :: "TimerOp list"
  tt_running :: bool
  tt_stop :: bool
  tt_liveCount :: nat
  tt_fired :: u64
  tt_sent :: "(u32 \<times> Msg) list"

definition new_timer_thread :: "u64 \<Rightarrow> u32 \<Rightarrow> TimerThread" where
  "new_timer_thread tickMs wheelSlots =
     (let n = (if wheelSlots > 1 then wheelSlots else kWheelSlots)
      in \<lparr>tt_tick = max kMinTickMs (min kMaxTickMs tickMs), tt_wheelSlots = n, tt_slots = replicate (unat n) [], tt_live = [], tt_byUser = [],
          tt_nextInternalId = 1, tt_curSlot = 0, tt_nowMs = 0, tt_advanced = 0, tt_skipped = 0, tt_queue = [], tt_running = False,
          tt_stop = False, tt_liveCount = 0, tt_fired = 0, tt_sent = []\<rparr>)"

section \<open>The wheel\<close>

definition wheel_clearAll :: "TimerThread \<Rightarrow> TimerThread" where
  "wheel_clearAll s = s\<lparr>tt_slots := map (\<lambda>_. []) (tt_slots s), tt_live := [], tt_byUser := [], tt_nextInternalId := 1, tt_liveCount := 0,
     tt_advanced := 0, tt_skipped := 0\<rparr>"

definition ids_of :: "TimerThread \<Rightarrow> u64 \<Rightarrow> u64 list" where
  "ids_of s u = (case map_of (tt_byUser s) u of None \<Rightarrow> [] | Some ids \<Rightarrow> ids)"

text \<open>\<open>insert\<close>: the number of ticks, rounded up, as whole turns and a slot.\<close>

definition total_ticks :: "u64 \<Rightarrow> u64 \<Rightarrow> u64" where
  "total_ticks tick firstDelayMs = (let delay = (if firstDelayMs < tick then tick else firstDelayMs) in (delay + tick - 1) div tick)"

definition wheel_insert :: "TimerItem \<Rightarrow> u64 \<Rightarrow> TimerThread \<Rightarrow> TimerThread" where
  "wheel_insert item firstDelayMs s =
     (let slots = (if length (tt_slots s) \<noteq> unat (tt_wheelSlots s)
                   then take (unat (tt_wheelSlots s)) (tt_slots s) @ replicate (unat (tt_wheelSlots s) - length (tt_slots s)) [] else tt_slots s);
          totalTicks = total_ticks (tt_tick s) firstDelayMs;
          slotSpan = ucast (tt_wheelSlots s);
          leftRound = totalTicks div slotSpan;
          inSlot = totalTicks mod slotSpan;
          slot = (ucast ((ucast (tt_curSlot s) + inSlot) mod slotSpan) :: u32);
          i = ti_internalId item
      in s\<lparr>tt_slots := slots[unat slot := slots ! unat slot @ [i]],
           tt_live := AList.update i \<lparr>lt_leftRound = leftRound, lt_item = item\<rparr> (tt_live s)\<rparr>)"

definition doAdd :: "TimerOp \<Rightarrow> TimerThread \<Rightarrow> TimerThread" where
  "doAdd op s =
     (let i = tt_nextInternalId s;
          interval = (if to_intervalMs op < tt_tick s then tt_tick s else to_intervalMs op);
          item = \<lparr>ti_internalId = i, ti_userTimerId = to_timerId op, ti_ownerWorkerId = to_ownerWorkerId op, ti_intervalMs = interval,
                  ti_repeat = to_repeat op, ti_Module = to_Module op, ti_Method = to_Method op, ti_playerId = to_playerId op,
                  ti_session = to_session op, ti_seq = to_seq op, ti_epoch = to_epoch op\<rparr>;
          u = to_timerId op
      in wheel_insert item interval
           (s\<lparr>tt_nextInternalId := i + 1, tt_byUser := AList.update u (ids_of s u @ [i]) (tt_byUser s)\<rparr>))"

definition doCancel :: "u64 \<Rightarrow> TimerThread \<Rightarrow> TimerThread" where
  "doCancel u s =
     (case map_of (tt_byUser s) u of
        None \<Rightarrow> s
      | Some ids \<Rightarrow> s\<lparr>tt_byUser := AList.delete u (tt_byUser s), tt_live := fold AList.delete ids (tt_live s)\<rparr>)"

text \<open>\<open>collect\<close>: what is kept in the slot, the table of live timers, and what falls due.\<close>

fun collect_bucket :: "u64 list \<Rightarrow> (u64, LiveTimer) umap \<Rightarrow> u64 list \<times> (u64, LiveTimer) umap \<times> TimerItem list" where
  "collect_bucket [] l = ([], l, [])"
| "collect_bucket (i # b) l =
     (case map_of l i of
        None \<Rightarrow> collect_bucket b l
      | Some lt \<Rightarrow>
          if lt_leftRound lt > 0
          then (case collect_bucket b (AList.update i (lt\<lparr>lt_leftRound := lt_leftRound lt - 1\<rparr>) l) of (keep, l, due) \<Rightarrow> (i # keep, l, due))
          else (case collect_bucket b (AList.delete i l) of (keep, l, due) \<Rightarrow> (keep, l, lt_item lt # due)))"

definition wheel_collect :: "u32 \<Rightarrow> TimerThread \<Rightarrow> TimerItem list \<times> TimerThread" where
  "wheel_collect slot s =
     (if unat slot \<ge> length (tt_slots s) then ([], s)
      else if tt_slots s ! unat slot = [] then ([], s)
      else case collect_bucket (tt_slots s ! unat slot) (tt_live s) of
        (keep, l, due) \<Rightarrow> (due, s\<lparr>tt_slots := (tt_slots s)[unat slot := keep], tt_live := l\<rparr>))"

definition fire_msg :: "TimerItem \<Rightarrow> Msg" where
  "fire_msg item = \<lparr>msg_head = empty_head\<lparr>mh_msgType := MSGTYPE_TIMER_FIRE, mh_Module := ti_Module item, mh_Method := ti_Method item,
     mh_seq := ti_seq item, mh_session := ti_session item, mh_playerId := ti_playerId item, mh_srcWorkerId := ucast (ti_ownerWorkerId item),
     mh_epoch := ti_epoch item, mh_ctx := ti_userTimerId item\<rparr>, msg_body = []\<rparr>"

definition fire :: "TimerItem \<Rightarrow> TimerThread \<Rightarrow> TimerThread" where
  "fire item s =
     (let s = s\<lparr>tt_fired := tt_fired s + 1\<rparr>;
          u = ti_userTimerId item;
          s = (if ti_repeat item
               then let newId = tt_nextInternalId s
                    in wheel_insert (item\<lparr>ti_internalId := newId\<rparr>) (ti_intervalMs item)
                         (s\<lparr>tt_nextInternalId := newId + 1, tt_byUser := AList.update u (ids_of s u @ [newId]) (tt_byUser s)\<rparr>)
               else case map_of (tt_byUser s) u of
                 None \<Rightarrow> s
               | Some ids \<Rightarrow>
                   let ids = filter (\<lambda>j. j \<noteq> ti_internalId item) ids
                   in s\<lparr>tt_byUser := (if ids = [] then AList.delete u (tt_byUser s) else AList.update u ids (tt_byUser s))\<rparr>)
      in s\<lparr>tt_sent := tt_sent s @ [(ucast (ti_ownerWorkerId item), fire_msg item)]\<rparr>)"

text \<open>One turn of the loop that advances the wheel.\<close>

definition wheel_tick :: "TimerThread \<Rightarrow> TimerThread" where
  "wheel_tick s =
     (let s = s\<lparr>tt_curSlot := (tt_curSlot s + 1) mod tt_wheelSlots s, tt_nowMs := tt_nowMs s + tt_tick s, tt_advanced := tt_advanced s + 1\<rparr>
      in case wheel_collect (tt_curSlot s) s of (due, s) \<Rightarrow> fold fire due s)"

section \<open>The thread\<close>

definition addTimer :: "TimerOp \<Rightarrow> TimerThread \<Rightarrow> bool \<times> TimerThread" where
  "addTimer op s =
     (if tt_stop s \<or> \<not> tt_running s then (False, s)
      else if to_timerId op = 0 then (False, s)
      else if length (tt_queue s) \<ge> kMaxPendingCommands then (False, s)
      else (True, s\<lparr>tt_queue := tt_queue s @ [op]\<rparr>))"

definition cancel_op :: "u64 \<Rightarrow> TimerOp" where
  "cancel_op timerId = \<lparr>to_kind = CANCEL, to_timerId = timerId, to_ownerWorkerId = 0, to_intervalMs = 0, to_repeat = False, to_Module = 0,
     to_Method = 0, to_playerId = 0, to_session = 0, to_seq = 0, to_epoch = 0\<rparr>"

definition cancelTimer :: "u64 \<Rightarrow> TimerThread \<Rightarrow> bool \<times> TimerThread" where
  "cancelTimer timerId s =
     (if tt_stop s \<or> \<not> tt_running s then (False, s)
      else if timerId = 0 then (False, s)
      else if length (tt_queue s) \<ge> kMaxPendingCommands then (False, s)
      else (True, s\<lparr>tt_queue := tt_queue s @ [cancel_op timerId]\<rparr>))"

text \<open>\<open>start\<close>; \<open>spawned\<close> tells whether the thread could be created.\<close>

definition timer_start :: "bool \<Rightarrow> TimerThread \<Rightarrow> bool \<times> TimerThread" where
  "timer_start spawned s =
     (if tt_running s then (True, s)
      else let s = (wheel_clearAll (s\<lparr>tt_stop := False\<rparr>))\<lparr>tt_nowMs := 0, tt_curSlot := 0\<rparr>
           in (spawned, s\<lparr>tt_running := spawned\<rparr>))"

definition timer_stop :: "TimerThread \<Rightarrow> TimerThread" where
  "timer_stop s = s\<lparr>tt_stop := True\<rparr>"

definition run_op :: "TimerOp \<Rightarrow> TimerThread \<Rightarrow> TimerThread" where
  "run_op op s = (case to_kind op of ADD \<Rightarrow> doAdd op s | CANCEL \<Rightarrow> doCancel (to_timerId op) s)"

text \<open>\<open>processOps\<close>; \<open>late n\<close> tells whether the deadline has passed after the n-th command.\<close>

fun processOps_loop :: "nat \<Rightarrow> (nat \<Rightarrow> bool) \<Rightarrow> nat \<Rightarrow> TimerThread \<Rightarrow> TimerThread" where
  "processOps_loop 0 late n s = s"
| "processOps_loop (Suc k) late n s =
     (case tt_queue s of
        [] \<Rightarrow> s
      | op # q \<Rightarrow>
          let s = run_op op (s\<lparr>tt_queue := q\<rparr>)
          in if late (Suc n) then s else processOps_loop k late (Suc n) s)"

definition processOps :: "(nat \<Rightarrow> bool) \<Rightarrow> TimerThread \<Rightarrow> TimerThread" where
  "processOps late = processOps_loop kMaxCommandsPerTick late 0"

text \<open>The advance of one iteration; \<open>stopped i\<close> tells whether the stop flag is seen before the i-th slot.\<close>

fun advance_loop :: "nat \<Rightarrow> (nat \<Rightarrow> bool) \<Rightarrow> nat \<Rightarrow> TimerThread \<Rightarrow> TimerThread" where
  "advance_loop 0 stopped i s = s"
| "advance_loop (Suc k) stopped i s = (if stopped i then s else advance_loop k stopped (Suc i) (wheel_tick s))"

definition advance_wheel :: "int \<Rightarrow> (nat \<Rightarrow> bool) \<Rightarrow> TimerThread \<Rightarrow> TimerThread" where
  "advance_wheel elapsedNs stopped s =
     (let elapsedTicks = elapsedNs div 1000000 div uint (tt_tick s);
          advanceTicks = max 0 (elapsedTicks - tt_skipped s - tt_advanced s);
          s = (if advanceTicks > kMaxCatchupTicks then s\<lparr>tt_skipped := tt_skipped s + (advanceTicks - kMaxCatchupTicks)\<rparr> else s);
          advanceTicks = min advanceTicks kMaxCatchupTicks;
          s = advance_loop (nat advanceTicks) stopped 0 s
      in s\<lparr>tt_liveCount := length (tt_live s)\<rparr>)"

text \<open>One iteration of \<open>run\<close>, and its end.\<close>

definition run_once :: "(nat \<Rightarrow> bool) \<Rightarrow> int \<Rightarrow> (nat \<Rightarrow> bool) \<Rightarrow> TimerThread \<Rightarrow> TimerThread" where
  "run_once late elapsedNs stopped s = (let s = processOps late s in if tt_stop s then s else advance_wheel elapsedNs stopped s)"

definition run_end :: "TimerThread \<Rightarrow> TimerThread" where
  "run_end s = (wheel_clearAll s)\<lparr>tt_running := False\<rparr>"

section \<open>How far away a timer is\<close>

text \<open>The ticks until the slot \<open>k\<close> is scanned, and until the timer with number \<open>i\<close> falls due.\<close>

definition dist :: "TimerThread \<Rightarrow> nat \<Rightarrow> nat" where
  "dist s k = (let n = unat (tt_wheelSlots s) in (k + n - unat (tt_curSlot s) - 1) mod n + 1)"

definition due_in :: "TimerThread \<Rightarrow> u64 \<Rightarrow> TimerItem \<Rightarrow> nat \<Rightarrow> bool" where
  "due_in s i item r \<longleftrightarrow> (\<exists>lt k. map_of (tt_live s) i = Some lt \<and> lt_item lt = item \<and> k < length (tt_slots s) \<and> i \<in> set (tt_slots s ! k)
     \<and> r = dist s k + unat (tt_wheelSlots s) * unat (lt_leftRound lt))"

text \<open>
  The number of ticks after which a new timer with this interval fires. When the interval is a whole number of turns
  this is one turn more than the number of ticks in it.
\<close>

definition due_ticks :: "TimerThread \<Rightarrow> u64 \<Rightarrow> nat" where
  "due_ticks s interval = (let n = unat (tt_wheelSlots s); t = (max (unat interval) (unat (tt_tick s)) + unat (tt_tick s) - 1) div unat (tt_tick s)
     in if t mod n = 0 then t + n else t)"

definition sane_interval :: "TimerThread \<Rightarrow> u64 \<Rightarrow> bool" where
  "sane_interval s interval \<longleftrightarrow> unat interval + unat (tt_tick s) \<le> 2 ^ 64"

definition wheel_ok :: "TimerThread \<Rightarrow> bool" where
  "wheel_ok s \<longleftrightarrow> 1 \<le> unat (tt_tick s) \<and> unat (tt_tick s) \<le> 1000 \<and> 1 < unat (tt_wheelSlots s) \<and> length (tt_slots s) = unat (tt_wheelSlots s)
     \<and> unat (tt_curSlot s) < unat (tt_wheelSlots s) \<and> umap_ok (tt_live s) \<and> umap_ok (tt_byUser s) \<and> distinct (concat (tt_slots s))
     \<and> (\<forall>i \<in> set (concat (tt_slots s)). unat i < unat (tt_nextInternalId s))
     \<and> (\<forall>i lt. map_of (tt_live s) i = Some lt \<longrightarrow> i \<in> set (concat (tt_slots s)) \<and> ti_internalId (lt_item lt) = i
          \<and> i \<in> set (ids_of s (ti_userTimerId (lt_item lt))) \<and> unat (tt_tick s) \<le> unat (ti_intervalMs (lt_item lt))
          \<and> sane_interval s (ti_intervalMs (lt_item lt)))
     \<and> (\<forall>u. \<forall>i \<in> set (ids_of s u). unat i < unat (tt_nextInternalId s)
          \<and> (\<forall>lt. map_of (tt_live s) i = Some lt \<longrightarrow> ti_userTimerId (lt_item lt) = u))"

section \<open>Inserting\<close>

lemma unat_round_up:
  fixes x y :: u64
  assumes "1 \<le> unat y" "unat x + unat y \<le> 2 ^ 64"
  shows "unat (x + y - 1) = unat x + unat y - 1"
proof -
  have "1 \<le> y" using assms(1) by (simp add: word_le_nat_alt)
  then have y: "unat (y - 1) = unat y - 1" by (simp add: unat_sub)
  have "unat (x + (y - 1)) = (unat x + unat (y - 1)) mod 2 ^ 64" by (simp only: unat_word_ariths) simp
  also have "\<dots> = unat x + unat y - 1" using assms y by simp
  finally show ?thesis by (simp only: add_diff_eq)
qed

lemma total_ticks_unat:
  assumes "wheel_ok s" "sane_interval s iv"
  shows "unat (total_ticks (tt_tick s) iv) = (max (unat iv) (unat (tt_tick s)) + unat (tt_tick s) - 1) div unat (tt_tick s)"
proof -
  let ?d = "if iv < tt_tick s then tt_tick s else iv"
  have t: "1 \<le> unat (tt_tick s)" "unat (tt_tick s) \<le> 1000" using assms(1) by (simp_all add: wheel_ok_def)
  have d: "unat ?d = max (unat iv) (unat (tt_tick s))" by (simp add: word_less_nat_alt max_def)
  have "unat ?d + unat (tt_tick s) \<le> 2 ^ 64" using assms(2) t unfolding d by (simp add: sane_interval_def max_def)
  then have "unat (?d + tt_tick s - 1) = max (unat iv) (unat (tt_tick s)) + unat (tt_tick s) - 1"
    using unat_round_up [of "tt_tick s" ?d] t(1) d by simp
  then show ?thesis by (simp only: total_ticks_def Let_def unat_div)
qed

lemma insert_slot:
  assumes ok: "wheel_ok s" and iv: "sane_interval s iv"
  defines "t \<equiv> total_ticks (tt_tick s) iv" and "n \<equiv> unat (tt_wheelSlots s)"
  shows "unat (ucast ((ucast (tt_curSlot s) + t mod ucast (tt_wheelSlots s)) mod ucast (tt_wheelSlots s) :: u64) :: u32) = (unat (tt_curSlot s) + unat t mod n) mod n"
    "unat (t div ucast (tt_wheelSlots s) :: u64) = unat t div n"
proof -
  have n: "1 < n" "n < 2 ^ 32" "unat (tt_curSlot s) < n"
    using ok unat_u32_bound [of "tt_wheelSlots s"] by (simp_all add: wheel_ok_def n_def)
  have un: "unat (ucast (tt_wheelSlots s) :: u64) = n" "unat (ucast (tt_curSlot s) :: u64) = unat (tt_curSlot s)"
    using unat_u32_bound [of "tt_wheelSlots s"] unat_u32_bound [of "tt_curSlot s"] by (simp_all add: n_def unsigned_ucast_eq take_bit_nat_eq_self)
  show "unat (t div ucast (tt_wheelSlots s) :: u64) = unat t div n" by (simp add: unat_div un)
  have "unat t mod n < n" using n by simp
  then have c: "unat t mod n < 2 ^ 32" using n(2) by (rule less_trans)
  have "unat (tt_curSlot s) < 2 ^ 32" using n(3,2) by (rule less_trans)
  then have "unat (tt_curSlot s) + unat t mod n < 2 ^ 32 + 2 ^ 32" using c by (rule add_strict_mono)
  also have "\<dots> \<le> 2 ^ 64" by simp
  finally have lt: "unat (tt_curSlot s) + unat t mod n < 2 ^ 64" .
  have "unat (ucast (tt_curSlot s) + t mod ucast (tt_wheelSlots s) :: u64) = unat (tt_curSlot s) + unat t mod n"
    using lt by (simp only: unat_word_ariths un unat_mod) simp
  then have *: "unat ((ucast (tt_curSlot s) + t mod ucast (tt_wheelSlots s)) mod ucast (tt_wheelSlots s) :: u64) = (unat (tt_curSlot s) + unat t mod n) mod n"
    by (simp add: unat_mod un)
  have "(unat (tt_curSlot s) + unat t mod n) mod n < 2 ^ 32" using n by (meson mod_less_divisor less_trans zero_less_one)
  with * show "unat (ucast ((ucast (tt_curSlot s) + t mod ucast (tt_wheelSlots s)) mod ucast (tt_wheelSlots s) :: u64) :: u32) = (unat (tt_curSlot s) + unat t mod n) mod n"
    by (simp add: unsigned_ucast_eq take_bit_nat_eq_self)
qed

lemma slot_distance:
  fixes c m n :: nat
  assumes "c < n" "m < n"
  shows "((c + m) mod n + n - c - 1) mod n = (if m = 0 then n - 1 else m - 1)"
proof (cases "c + m < n")
  case True
  then have k: "(c + m) mod n = c + m" by simp
  show ?thesis
  proof (cases "m = 0")
    case False
    then have "c + m + n - c - 1 = m - 1 + n" by simp
    then show ?thesis using False assms(2) unfolding k by (simp only: mod_add_self2) simp
  qed (use assms in simp)
next
  case False
  then have k: "(c + m) mod n = c + m - n" using assms by (simp add: mod_if)
  have "m \<noteq> 0" "c + m - n + n - c - 1 = m - 1" using False assms by simp_all
  then show ?thesis using assms(2) unfolding k by simp
qed

lemma dist_slot:
  assumes "wheel_ok s"
  defines "n \<equiv> unat (tt_wheelSlots s)"
  shows "dist s ((unat (tt_curSlot s) + t mod n) mod n) + n * (t div n) = (if t mod n = 0 then t + n else t)"
proof -
  have n: "1 < n" "unat (tt_curSlot s) < n" "t mod n < n" using assms(1) by (simp_all add: wheel_ok_def n_def)
  have "dist s ((unat (tt_curSlot s) + t mod n) mod n) = (if t mod n = 0 then n else t mod n)"
    using slot_distance [OF n(2,3)] n by (simp add: dist_def n_def Let_def)
  moreover have "t mod n + n * (t div n) = t" by (rule mod_mult_div_eq)
  ultimately show ?thesis by (metis add.commute add_0)
qed

text \<open>\<open>doAdd\<close> and the renewal of a repeating timer do the same.\<close>

definition put_timer :: "TimerItem \<Rightarrow> TimerThread \<Rightarrow> TimerThread" where
  "put_timer item s = wheel_insert (item\<lparr>ti_internalId := tt_nextInternalId s\<rparr>) (ti_intervalMs item)
     (s\<lparr>tt_nextInternalId := tt_nextInternalId s + 1,
        tt_byUser := AList.update (ti_userTimerId item) (ids_of s (ti_userTimerId item) @ [tt_nextInternalId s]) (tt_byUser s)\<rparr>)"

definition op_item :: "TimerOp \<Rightarrow> TimerThread \<Rightarrow> TimerItem" where
  "op_item op s = \<lparr>ti_internalId = tt_nextInternalId s, ti_userTimerId = to_timerId op, ti_ownerWorkerId = to_ownerWorkerId op,
     ti_intervalMs = (if to_intervalMs op < tt_tick s then tt_tick s else to_intervalMs op), ti_repeat = to_repeat op,
     ti_Module = to_Module op, ti_Method = to_Method op, ti_playerId = to_playerId op, ti_session = to_session op, ti_seq = to_seq op,
     ti_epoch = to_epoch op\<rparr>"

lemma doAdd_put: "doAdd op s = put_timer (op_item op s) s"
  by (simp add: doAdd_def put_timer_def op_item_def Let_def)

lemma concat_append_slot: "k < length xs \<Longrightarrow> mset (concat (xs[k := xs ! k @ [i]])) = mset (i # concat xs)"
proof (induction xs arbitrary: k)
  case (Cons x xs)
  then show ?case by (cases k) auto
qed simp

lemma concat_filter_slot:
  "distinct (concat xs) \<Longrightarrow> distinct (concat (xs[k := filter P (xs ! k)]))"
  "set (concat (xs[k := filter P (xs ! k)])) \<subseteq> set (concat xs)"
proof (induction xs arbitrary: k)
  case (Cons x xs)
  { case 1 with Cons.IH show ?case by (cases k) fastforce+ }
  { case 2 with Cons.IH show ?case by (cases k) fastforce+ }
qed simp_all

lemma slot_unique:
  "distinct (concat xs) \<Longrightarrow> k < length xs \<Longrightarrow> k' < length xs \<Longrightarrow> i \<in> set (xs ! k) \<Longrightarrow> i \<in> set (xs ! k') \<Longrightarrow> k = k'"
proof (induction xs arbitrary: k k')
  case (Cons x xs)
  have "i \<in> set (concat xs)" if "m < length xs" "i \<in> set (xs ! m)" for m using that by (auto intro: nth_mem)
  with Cons show ?case by (cases k; cases k') auto
qed simp

lemma in_concat_slot: "i \<in> set (concat xs) \<Longrightarrow> \<exists>k < length xs. i \<in> set (xs ! k)"
  by (metis UN_E in_set_conv_nth set_concat)

lemma due_in_unique:
  assumes "wheel_ok s" "due_in s i it r" "due_in s i it' r'"
  shows "it = it' \<and> r = r'"
proof -
  have "distinct (concat (tt_slots s))" using assms(1) by (simp add: wheel_ok_def)
  then show ?thesis using assms(2,3) slot_unique unfolding due_in_def by (metis option.inject)
qed

lemma put_timer_fields [simp]:
  "tt_tick (put_timer item s) = tt_tick s" "tt_wheelSlots (put_timer item s) = tt_wheelSlots s" "tt_curSlot (put_timer item s) = tt_curSlot s"
  "tt_sent (put_timer item s) = tt_sent s" "tt_nextInternalId (put_timer item s) = tt_nextInternalId s + 1"
  "tt_advanced (put_timer item s) = tt_advanced s" "tt_skipped (put_timer item s) = tt_skipped s" "tt_queue (put_timer item s) = tt_queue s"
  by (simp_all add: put_timer_def wheel_insert_def Let_def)

lemma ids_of_put: "ids_of (put_timer item s) u = (if u = ti_userTimerId item then ids_of s u @ [tt_nextInternalId s] else ids_of s u)"
  by (simp add: put_timer_def wheel_insert_def Let_def ids_of_def)

lemma put_timer_ok:
  assumes ok: "wheel_ok s" and iv: "sane_interval s (ti_intervalMs item)" and tick: "unat (tt_tick s) \<le> unat (ti_intervalMs item)"
    and room: "unat (tt_nextInternalId s) + 1 < 2 ^ 64"
  defines "i \<equiv> tt_nextInternalId s" and "s' \<equiv> put_timer item s"
  shows "wheel_ok s'" "due_in s' i (item\<lparr>ti_internalId := i\<rparr>) (due_ticks s (ti_intervalMs item))"
    "j \<noteq> i \<Longrightarrow> due_in s' j it r \<longleftrightarrow> due_in s j it r" "\<not> due_in s i it r"
proof -
  let ?iv = "ti_intervalMs item" and ?n = "unat (tt_wheelSlots s)"
  let ?t = "total_ticks (tt_tick s) ?iv"
  define k where "k = (unat (tt_curSlot s) + unat ?t mod ?n) mod ?n"
  define lr where "lr = (?t div ucast (tt_wheelSlots s) :: u64)"
  have len: "length (tt_slots s) = ?n" "1 < ?n" using ok by (simp_all add: wheel_ok_def)
  then have k: "k < length (tt_slots s)" by (simp add: k_def)
  have slots: "tt_slots s' = (tt_slots s)[k := tt_slots s ! k @ [i]]"
    and live: "tt_live s' = AList.update i \<lparr>lt_leftRound = lr, lt_item = item\<lparr>ti_internalId := i\<rparr>\<rparr> (tt_live s)"
    and user: "tt_byUser s' = AList.update (ti_userTimerId item) (ids_of s (ti_userTimerId item) @ [i]) (tt_byUser s)"
    using insert_slot [OF ok iv] len by (simp_all add: s'_def put_timer_def wheel_insert_def Let_def k_def lr_def i_def)
  have ms: "mset (concat (tt_slots s')) = mset (i # concat (tt_slots s))" unfolding slots by (rule concat_append_slot [OF k])
  then have set: "set (concat (tt_slots s')) = insert i (set (concat (tt_slots s)))" by (metis list.simps(15) set_mset_mset)
  have new: "i \<notin> set (concat (tt_slots s))" using ok unfolding wheel_ok_def i_def by blast
  then have dis: "distinct (concat (tt_slots s'))" using ok mset_eq_imp_distinct_iff [OF ms] by (simp add: wheel_ok_def del: set_concat)
  have nxt: "unat (tt_nextInternalId s') = unat i + 1" using room by (simp add: s'_def i_def unat_word_ariths)
  have dead: "map_of (tt_live s) i = None" using ok new unfolding wheel_ok_def by (metis not_Some_eq)
  have same: "tt_tick s' = tt_tick s" "tt_wheelSlots s' = tt_wheelSlots s" "tt_curSlot s' = tt_curSlot s" by (simp_all add: s'_def)
  show "wheel_ok s'"
    unfolding wheel_ok_def
  proof (intro conjI allI impI ballI)
    fix j assume "j \<in> set (concat (tt_slots s'))"
    then show "unat j < unat (tt_nextInternalId s')" using ok nxt unfolding set wheel_ok_def by (auto simp: i_def less_Suc_eq)
  next
    fix u j assume j: "j \<in> set (ids_of s' u)"
    have old: "unat j < unat i \<and> (\<forall>lt. map_of (tt_live s) j = Some lt \<longrightarrow> ti_userTimerId (lt_item lt) = u)" if "j \<noteq> i \<or> u \<noteq> ti_userTimerId item"
    proof -
      have "j \<in> set (ids_of s u)" using j that unfolding s'_def ids_of_put by (auto simp: i_def split: if_splits)
      then show ?thesis using ok unfolding wheel_ok_def i_def by blast
    qed
    show "unat j < unat (tt_nextInternalId s')" using old nxt by fastforce
    fix lt assume "map_of (tt_live s') j = Some lt"
    then show "ti_userTimerId (lt_item lt) = u" using old live by (cases "j = i"; cases "u = ti_userTimerId item") auto
  next
    fix j lt assume l: "map_of (tt_live s') j = Some lt"
    have old: "j \<in> set (concat (tt_slots s)) \<and> ti_internalId (lt_item lt) = j \<and> j \<in> set (ids_of s (ti_userTimerId (lt_item lt)))
      \<and> unat (tt_tick s) \<le> unat (ti_intervalMs (lt_item lt)) \<and> sane_interval s (ti_intervalMs (lt_item lt))" if "j \<noteq> i"
      using l that ok unfolding live wheel_ok_def by simp
    show "j \<in> set (concat (tt_slots s'))" using old unfolding set by blast
    show "ti_internalId (lt_item lt) = j" using old l live by (cases "j = i") auto
    show "j \<in> set (ids_of s' (ti_userTimerId (lt_item lt)))" using old l live unfolding s'_def ids_of_put by (cases "j = i") (auto simp: i_def)
    show "unat (tt_tick s') \<le> unat (ti_intervalMs (lt_item lt))" using old l live tick same by (cases "j = i") auto
    show "sane_interval s' (ti_intervalMs (lt_item lt))" using old l live iv same by (cases "j = i") (auto simp: sane_interval_def)
  qed (use ok dis same slots live user in \<open>auto simp: wheel_ok_def\<close>)
  have d: "dist s' m = dist s m" for m by (simp add: dist_def same)
  have "dist s k + ?n * unat lr = due_ticks s ?iv"
    using dist_slot [OF ok, of "unat ?t"] insert_slot(2) [OF ok iv] total_ticks_unat [OF ok iv]
    by (simp add: k_def lr_def due_ticks_def Let_def)
  then show "due_in s' i (item\<lparr>ti_internalId := i\<rparr>) (due_ticks s ?iv)"
    unfolding due_in_def live slots d same using k by (intro exI [of _ "\<lparr>lt_leftRound = lr, lt_item = item\<lparr>ti_internalId := i\<rparr>\<rparr>"] exI [of _ k]) simp
  show "\<not> due_in s i it r" using dead by (simp add: due_in_def)
  assume j: "j \<noteq> i"
  have "j \<in> set (tt_slots s' ! m) \<longleftrightarrow> j \<in> set (tt_slots s ! m)" if "m < length (tt_slots s)" for m
    using j that k unfolding slots by (cases "m = k") auto
  then show "due_in s' j it r \<longleftrightarrow> due_in s j it r"
    unfolding due_in_def d same using j live slots by auto
qed

section \<open>A tick\<close>

lemma collect_bucket_spec:
  assumes "distinct b" "collect_bucket b l = (keep, l', due)"
  shows "keep = filter (\<lambda>i. \<exists>lt. map_of l i = Some lt \<and> lt_leftRound lt > 0) b"
    "due = map (\<lambda>i. lt_item (the (map_of l i))) (filter (\<lambda>i. \<exists>lt. map_of l i = Some lt \<and> lt_leftRound lt = 0) b)"
    "map_of l' = (\<lambda>i. if i \<in> set b then (case map_of l i of None \<Rightarrow> None
        | Some lt \<Rightarrow> if lt_leftRound lt > 0 then Some (lt\<lparr>lt_leftRound := lt_leftRound lt - 1\<rparr>) else None) else map_of l i)"
    "umap_ok l \<Longrightarrow> umap_ok l'"
proof -
  have "keep = filter (\<lambda>i. \<exists>lt. map_of l i = Some lt \<and> lt_leftRound lt > 0) b
    \<and> due = map (\<lambda>i. lt_item (the (map_of l i))) (filter (\<lambda>i. \<exists>lt. map_of l i = Some lt \<and> lt_leftRound lt = 0) b)
    \<and> map_of l' = (\<lambda>i. if i \<in> set b then (case map_of l i of None \<Rightarrow> None
        | Some lt \<Rightarrow> if lt_leftRound lt > 0 then Some (lt\<lparr>lt_leftRound := lt_leftRound lt - 1\<rparr>) else None) else map_of l i)
    \<and> (umap_ok l \<longrightarrow> umap_ok l')"
    using assms
  proof (induction b arbitrary: l keep due)
    case (Cons i b)
    have i: "i \<notin> set b" and b: "distinct b" using Cons.prems(1) by simp_all
    have other: "map_of m j = map_of l j" if "j \<in> set b" "map_of m = (map_of l)(i := x)" for m j x using that i by auto
    show ?case
    proof (cases "map_of l i")
      case None
      then have "collect_bucket b l = (keep, l', due)" using Cons.prems(2) by simp
      with Cons.IH [OF b this] None show ?thesis by (auto simp: fun_eq_iff)
    next
      case (Some lt)
      show ?thesis
      proof (cases "lt_leftRound lt > 0")
        case True
        let ?l = "AList.update i (lt\<lparr>lt_leftRound := lt_leftRound lt - 1\<rparr>) l"
        obtain kp where c: "collect_bucket b ?l = (kp, l', due)" and kp: "keep = i # kp"
          using Cons.prems(2) Some True by (auto split: prod.splits)
        have "filter (\<lambda>j. \<exists>lt. map_of ?l j = Some lt \<and> P lt) b = filter (\<lambda>j. \<exists>lt. map_of l j = Some lt \<and> P lt) b" for P
          using i by (intro filter_cong) auto
        moreover have "map (\<lambda>j. lt_item (the (map_of ?l j))) (filter P b) = map (\<lambda>j. lt_item (the (map_of l j))) (filter P b)" for P
          using i by (intro map_cong) auto
        ultimately show ?thesis using Cons.IH [OF b c] kp Some True i by (auto simp: fun_eq_iff)
      next
        case False
        then have z: "lt_leftRound lt = 0" using word_neq_0_conv by blast
        let ?l = "AList.delete i l"
        obtain du where c: "collect_bucket b ?l = (keep, l', du)" and du: "due = lt_item lt # du"
          using Cons.prems(2) Some False by (auto split: prod.splits)
        have "filter (\<lambda>j. \<exists>lt. map_of ?l j = Some lt \<and> P lt) b = filter (\<lambda>j. \<exists>lt. map_of l j = Some lt \<and> P lt) b" for P
          using i by (intro filter_cong) auto
        moreover have "map (\<lambda>j. lt_item (the (map_of ?l j))) (filter P b) = map (\<lambda>j. lt_item (the (map_of l j))) (filter P b)" for P
          using i by (intro map_cong) auto
        ultimately show ?thesis using Cons.IH [OF b c] du Some z i by (auto simp: fun_eq_iff)
      qed
    qed
  qed (auto simp: fun_eq_iff)
  then show "keep = filter (\<lambda>i. \<exists>lt. map_of l i = Some lt \<and> lt_leftRound lt > 0) b"
    "due = map (\<lambda>i. lt_item (the (map_of l i))) (filter (\<lambda>i. \<exists>lt. map_of l i = Some lt \<and> lt_leftRound lt = 0) b)"
    "map_of l' = (\<lambda>i. if i \<in> set b then (case map_of l i of None \<Rightarrow> None
        | Some lt \<Rightarrow> if lt_leftRound lt > 0 then Some (lt\<lparr>lt_leftRound := lt_leftRound lt - 1\<rparr>) else None) else map_of l i)"
    "umap_ok l \<Longrightarrow> umap_ok l'"
    by blast+
qed

text \<open>The state after the wheel has moved and the slot has been collected, before anything fires.\<close>

definition moved :: "TimerThread \<Rightarrow> TimerThread" where
  "moved s = s\<lparr>tt_curSlot := (tt_curSlot s + 1) mod tt_wheelSlots s, tt_nowMs := tt_nowMs s + tt_tick s, tt_advanced := tt_advanced s + 1\<rparr>"

lemma moved_fields [simp]: "tt_slots (moved s) = tt_slots s" "tt_live (moved s) = tt_live s"
  by (simp_all add: moved_def)

definition collected :: "TimerThread \<Rightarrow> TimerItem list \<times> TimerThread" where
  "collected s = wheel_collect (tt_curSlot (moved s)) (moved s)"

lemma wheel_tick_eq: "wheel_tick s = (case collected s of (due, s') \<Rightarrow> fold fire due s')"
  by (simp add: wheel_tick_def collected_def moved_def Let_def)

lemma cur_slot_next:
  assumes "wheel_ok s"
  shows "unat ((tt_curSlot s + 1) mod tt_wheelSlots s) = (unat (tt_curSlot s) + 1) mod unat (tt_wheelSlots s)"
proof -
  have "unat (tt_curSlot s) < unat (tt_wheelSlots s)" using assms by (simp add: wheel_ok_def)
  then have "unat (tt_curSlot s + 1) = unat (tt_curSlot s) + 1"
    using unat_u32_bound [of "tt_wheelSlots s"] by (simp add: unat_word_ariths)
  then show ?thesis by (simp add: unat_mod)
qed

lemma dist_next:
  fixes c k n :: nat
  assumes "c < n" "k < n" "1 < n"
  defines "c' \<equiv> (c + 1) mod n"
  shows "(k + n - c - 1) mod n + 1 = (if k = c' then 1 else (k + n - c' - 1) mod n + 2)" "(c' + n - c' - 1) mod n + 1 = n"
proof -
  have c': "c' = (if c + 1 = n then 0 else c + 1)" using assms(1) by (auto simp: c'_def)
  have *: "(k + n - c - 1) mod n = (if k \<le> c then k + n - c - 1 else k - c - 1)"
  proof (cases "k \<le> c")
    case False
    then have "k + n - c - 1 = k - c - 1 + n" by simp
    then show ?thesis using False assms(2) by (simp only: mod_add_self2) simp
  qed (use assms in simp)
  have **: "(k + n - c' - 1) mod n = (if k \<le> c' then k + n - c' - 1 else k - c' - 1)"
  proof (cases "k \<le> c'")
    case False
    then have "k + n - c' - 1 = k - c' - 1 + n" by simp
    then show ?thesis using False assms(2) by (simp only: mod_add_self2) simp
  qed (use assms c' in auto)
  show "(k + n - c - 1) mod n + 1 = (if k = c' then 1 else (k + n - c' - 1) mod n + 2)"
    unfolding * ** using assms(1-3) c' by (cases "c + 1 = n") (simp_all split: if_splits, linarith+)
  show "(c' + n - c' - 1) mod n + 1 = n" using assms(3) by simp
qed

lemma dist_moved:
  assumes ok: "wheel_ok s" and k: "k < unat (tt_wheelSlots s)"
  shows "dist s k = (if k = unat (tt_curSlot (moved s)) then 1 else dist (moved s) k + 1)"
    "dist (moved s) (unat (tt_curSlot (moved s))) = unat (tt_wheelSlots s)"
proof -
  have c: "unat (tt_curSlot s) < unat (tt_wheelSlots s)" "1 < unat (tt_wheelSlots s)" using ok by (simp_all add: wheel_ok_def)
  show "dist s k = (if k = unat (tt_curSlot (moved s)) then 1 else dist (moved s) k + 1)"
    using dist_next(1) [OF c(1) k c(2)] cur_slot_next [OF ok] by (simp add: dist_def moved_def Let_def)
  show "dist (moved s) (unat (tt_curSlot (moved s))) = unat (tt_wheelSlots s)"
    using dist_next(2) [OF c(1) k c(2)] cur_slot_next [OF ok] by (simp add: dist_def moved_def Let_def)
qed

lemma collected_spec:
  assumes ok: "wheel_ok s" and c: "collected s = (due, s1)"
  shows "wheel_ok s1" "tt_sent s1 = tt_sent s" "tt_nextInternalId s1 = tt_nextInternalId s" "tt_byUser s1 = tt_byUser s"
    "tt_tick s1 = tt_tick s" "tt_wheelSlots s1 = tt_wheelSlots s" "due_in s1 i it r \<longleftrightarrow> due_in s i it (r + 1) \<and> 1 \<le> r"
    "set due = {it. \<exists>i. due_in s i it 1}" "distinct (map ti_internalId due)" "tt_queue s1 = tt_queue s"
    "tt_advanced s1 = tt_advanced s + 1" "tt_skipped s1 = tt_skipped s" "tt_stop s1 = tt_stop s"
proof -
  define q where "q = unat (tt_curSlot (moved s))"
  let ?n = "unat (tt_wheelSlots s)" and ?b = "tt_slots s ! q"
  have n: "1 < ?n" "length (tt_slots s) = ?n" using ok by (simp_all add: wheel_ok_def)
  have q: "q < ?n" using n cur_slot_next [OF ok] by (simp add: q_def moved_def)
  obtain keep l where cb: "collect_bucket ?b (tt_live s) = (keep, l, due)"
    and s1: "s1 = (moved s)\<lparr>tt_slots := (tt_slots s)[q := keep], tt_live := l\<rparr>"
  proof (cases "?b = []")
    case True
    have "(tt_slots s)[q := []] = tt_slots s" using True list_update_id [of "tt_slots s" q] by simp
    moreover have "due = []" "s1 = moved s" using c q n True by (simp_all add: collected_def wheel_collect_def q_def [symmetric])
    moreover have "(moved s)\<lparr>tt_slots := tt_slots s, tt_live := tt_live s\<rparr> = moved s" by (simp add: moved_def)
    ultimately show ?thesis using that [of "[]" "tt_live s"] True by simp
  next
    case False
    then show ?thesis using that c q n by (simp add: collected_def wheel_collect_def q_def [symmetric] split: prod.splits)
  qed
  show simple: "tt_sent s1 = tt_sent s" "tt_nextInternalId s1 = tt_nextInternalId s" "tt_byUser s1 = tt_byUser s" "tt_tick s1 = tt_tick s"
    "tt_wheelSlots s1 = tt_wheelSlots s" "tt_queue s1 = tt_queue s" "tt_advanced s1 = tt_advanced s + 1" "tt_skipped s1 = tt_skipped s"
    "tt_stop s1 = tt_stop s"
    by (simp_all add: s1 moved_def)
  have dis: "distinct (concat (tt_slots s))" using ok by (simp add: wheel_ok_def)
  then have db: "distinct ?b" using q n by (simp add: distinct_concat_iff)
  note spec = collect_bucket_spec [OF db cb]
  have slots1: "tt_slots s1 = (tt_slots s)[q := keep]" and live1: "tt_live s1 = l" by (simp_all add: s1)
  have keep: "keep = filter (\<lambda>i. \<exists>lt. map_of (tt_live s) i = Some lt \<and> lt_leftRound lt > 0) ?b" by (rule spec(1))
  have sub: "set (concat (tt_slots s1)) \<subseteq> set (concat (tt_slots s))" "distinct (concat (tt_slots s1))"
    unfolding slots1 keep by (rule concat_filter_slot(2), rule concat_filter_slot(1) [OF dis])
  have old: "\<exists>lt. map_of (tt_live s) i = Some lt \<and> lt_item lt = lt_item lt1" if "map_of l i = Some lt1" for i lt1
    using that unfolding spec(3) by (auto split: if_splits option.splits)
  have cur1: "unat (tt_curSlot s1) = q" by (simp add: s1 q_def)
  have in_slot: "\<exists>k < ?n. i \<in> set (tt_slots s ! k)" if "map_of (tt_live s) i = Some lt" for i lt
  proof -
    have "i \<in> set (concat (tt_slots s))" using ok that unfolding wheel_ok_def by blast
    then show ?thesis using in_concat_slot n by metis
  qed
  have dist1: "dist s1 k = dist (moved s) k" for k by (simp add: dist_def s1 moved_def)
  note d = dist_moved [OF ok, folded q_def]
  have minus: "unat (x - 1) = unat x - 1" if "0 < x" for x :: u64 using that by (simp add: unat_minus_one word_gt_0)
  show due: "due_in s1 i it r \<longleftrightarrow> due_in s i it (r + 1) \<and> 1 \<le> r" for i it r
  proof
    assume "due_in s1 i it r"
    then obtain lt1 k where lt1: "map_of l i = Some lt1" "lt_item lt1 = it" "k < ?n" "i \<in> set ((tt_slots s)[q := keep] ! k)"
      "r = dist (moved s) k + ?n * unat (lt_leftRound lt1)" using n by (auto simp: due_in_def live1 slots1 dist1 simple)
    have pos: "1 \<le> r" using lt1(5) by (simp add: dist_def Let_def)
    have "due_in s i it (r + 1)"
    proof (cases "k = q")
      case True
      then have "i \<in> set keep" using lt1(4) q n by simp
      then obtain lt where lt: "map_of (tt_live s) i = Some lt" "0 < lt_leftRound lt" "i \<in> set ?b" unfolding keep by auto
      then have "lt1 = lt\<lparr>lt_leftRound := lt_leftRound lt - 1\<rparr>" using lt1(1) unfolding spec(3) by simp
      then have "r + 1 = dist s q + ?n * unat (lt_leftRound lt)" "it = lt_item lt"
        using lt1(2,5) d(1) [OF q] d(2) [OF q] True lt(2) minus [OF lt(2)] by (simp_all add: word_less_nat_alt algebra_simps)
      then show ?thesis using lt q n by (auto simp: due_in_def)
    next
      case False
      then have k: "i \<in> set (tt_slots s ! k)" using lt1(4) by simp
      then have "i \<notin> set ?b" using False slot_unique [OF dis, of k q i] lt1(3) q n by auto
      then have "map_of (tt_live s) i = Some lt1" using lt1(1) unfolding spec(3) by simp
      then show ?thesis using k lt1(2,3,5) d(1) [OF lt1(3)] False n by (auto simp: due_in_def)
    qed
    with pos show "due_in s i it (r + 1) \<and> 1 \<le> r" by blast
  next
    assume "due_in s i it (r + 1) \<and> 1 \<le> r"
    then obtain lt k where lt: "map_of (tt_live s) i = Some lt" "lt_item lt = it" "k < ?n" "i \<in> set (tt_slots s ! k)"
      "r + 1 = dist s k + ?n * unat (lt_leftRound lt)" and r: "1 \<le> r" using n by (auto simp: due_in_def)
    show "due_in s1 i it r"
    proof (cases "k = q")
      case True
      then have left: "0 < lt_leftRound lt" using lt(5) r d(1) [OF q] by (auto simp: word_less_nat_alt)
      then have "map_of l i = Some (lt\<lparr>lt_leftRound := lt_leftRound lt - 1\<rparr>)" "i \<in> set keep"
        using lt(1,4) True unfolding spec(3) keep by auto
      moreover have "r = dist (moved s) q + ?n * unat (lt_leftRound lt - 1)"
        using lt(5) True d(1) [OF q] d(2) [OF q] minus [OF left] left by (cases "unat (lt_leftRound lt)") (auto simp: word_less_nat_alt)
      ultimately show ?thesis using lt(2) q n unfolding due_in_def live1 slots1 dist1 simple
        by (intro exI [of _ "lt\<lparr>lt_leftRound := lt_leftRound lt - 1\<rparr>"] exI [of _ q]) simp
    next
      case False
      then have "i \<notin> set ?b" using lt(3,4) slot_unique [OF dis, of k q i] q n by auto
      then have "map_of l i = Some lt" using lt(1) unfolding spec(3) by simp
      then show ?thesis using lt False n d(1) [OF lt(3)] unfolding due_in_def live1 slots1 dist1 simple
        by (intro exI [of _ lt] exI [of _ k]) simp
    qed
  qed
  show "wheel_ok s1"
    unfolding wheel_ok_def
  proof (intro conjI allI impI ballI)
    fix u i assume "i \<in> set (ids_of s1 u)"
    then have i: "i \<in> set (ids_of s u)" by (simp add: ids_of_def simple)
    then show "unat i < unat (tt_nextInternalId s1)" using ok unfolding wheel_ok_def simple by blast
    fix lt1 assume "map_of (tt_live s1) i = Some lt1"
    then show "ti_userTimerId (lt_item lt1) = u" using old [of i lt1] i ok unfolding live1 wheel_ok_def by metis
  next
    fix i assume "i \<in> set (concat (tt_slots s1))"
    then show "unat i < unat (tt_nextInternalId s1)" using ok sub(1) unfolding wheel_ok_def simple by blast
  next
    fix i lt1 assume l: "map_of (tt_live s1) i = Some lt1"
    then obtain lt where lt: "map_of (tt_live s) i = Some lt" "lt_item lt = lt_item lt1" using old live1 by metis
    obtain k where k: "k < ?n" "i \<in> set (tt_slots s ! k)" using in_slot [OF lt(1)] by blast
    have "i \<in> set ((tt_slots s)[q := keep] ! k)"
    proof (cases "k = q")
      case True
      then have "i \<in> set ?b" using k by simp
      then have "i \<in> set keep" using l lt(1) unfolding live1 spec(3) keep by (auto split: if_splits)
      then show ?thesis using True q n by simp
    qed (use k in simp)
    then show "i \<in> set (concat (tt_slots s1))" unfolding slots1 set_concat using k(1) n by (metis UN_I length_list_update nth_mem)
    have all: "ti_internalId (lt_item lt) = i \<and> i \<in> set (ids_of s (ti_userTimerId (lt_item lt)))
      \<and> unat (tt_tick s) \<le> unat (ti_intervalMs (lt_item lt)) \<and> sane_interval s (ti_intervalMs (lt_item lt))"
      using ok lt(1) unfolding wheel_ok_def by blast
    show "ti_internalId (lt_item lt1) = i" "i \<in> set (ids_of s1 (ti_userTimerId (lt_item lt1)))"
      "unat (tt_tick s1) \<le> unat (ti_intervalMs (lt_item lt1))" "sane_interval s1 (ti_intervalMs (lt_item lt1))"
      using all lt(2) by (simp_all add: ids_of_def simple sane_interval_def)
  qed (use ok q cur1 sub spec(4) simple slots1 live1 in \<open>auto simp: wheel_ok_def\<close>)
  have one: "due_in s i it 1 \<longleftrightarrow> (\<exists>lt. map_of (tt_live s) i = Some lt \<and> lt_item lt = it \<and> lt_leftRound lt = 0 \<and> i \<in> set ?b)" for i it
  proof
    assume "due_in s i it 1"
    then obtain lt k where lt: "map_of (tt_live s) i = Some lt" "lt_item lt = it" "k < ?n" "i \<in> set (tt_slots s ! k)"
      "1 = dist s k + ?n * unat (lt_leftRound lt)" using n by (auto simp: due_in_def)
    have "k = q" using lt(5) d(1) [OF lt(3)] by (auto simp: dist_def Let_def split: if_splits)
    moreover have "unat (lt_leftRound lt) = 0" using lt(5) d(1) [OF lt(3)] n by (auto split: if_splits simp: dist_def Let_def)
    ultimately show "\<exists>lt. map_of (tt_live s) i = Some lt \<and> lt_item lt = it \<and> lt_leftRound lt = 0 \<and> i \<in> set ?b"
      using lt by (auto simp: unat_eq_zero)
  next
    assume "\<exists>lt. map_of (tt_live s) i = Some lt \<and> lt_item lt = it \<and> lt_leftRound lt = 0 \<and> i \<in> set ?b"
    then show "due_in s i it 1" using q n d(1) [OF q] unfolding due_in_def by force
  qed
  show "set due = {it. \<exists>i. due_in s i it 1}" unfolding spec(2) one by force
  have "map ti_internalId due = filter (\<lambda>i. \<exists>lt. map_of (tt_live s) i = Some lt \<and> lt_leftRound lt = 0) ?b"
    unfolding spec(2) using ok by (auto simp: comp_def wheel_ok_def intro!: map_idI)
  then show "distinct (map ti_internalId due)" using db by simp
qed

text \<open>What is collected can fire: it is out of the table, under an old number, with an interval the wheel can hold.\<close>

definition fireable :: "TimerThread \<Rightarrow> TimerItem \<Rightarrow> bool" where
  "fireable s item \<longleftrightarrow> map_of (tt_live s) (ti_internalId item) = None \<and> unat (ti_internalId item) < unat (tt_nextInternalId s)
     \<and> unat (tt_tick s) \<le> unat (ti_intervalMs item) \<and> sane_interval s (ti_intervalMs item)"

lemma due_in_live: "wheel_ok s \<Longrightarrow> due_in s i it r \<Longrightarrow> \<exists>lt. map_of (tt_live s) i = Some lt \<and> lt_item lt = it \<and> ti_internalId it = i"
  unfolding due_in_def wheel_ok_def by blast

lemma live_due_in:
  assumes "wheel_ok s" "map_of (tt_live s) i = Some lt"
  shows "\<exists>r. due_in s i (lt_item lt) r"
proof -
  have "i \<in> set (concat (tt_slots s))" using assms unfolding wheel_ok_def by blast
  from in_concat_slot [OF this] obtain k where "k < length (tt_slots s)" "i \<in> set (tt_slots s ! k)" by blast
  then show ?thesis using assms(2) unfolding due_in_def by blast
qed

lemma collected_fireable:
  assumes ok: "wheel_ok s" and c: "collected s = (due, s1)" and it: "it \<in> set due"
  shows "fireable s1 it"
proof -
  note spec = collected_spec [OF ok c]
  obtain i where i: "due_in s i it 1" using it spec(8) by blast
  obtain lt where lt: "map_of (tt_live s) i = Some lt" "lt_item lt = it" "ti_internalId it = i" using due_in_live [OF ok i] by blast
  have "map_of (tt_live s1) i = None"
  proof (rule ccontr)
    assume "map_of (tt_live s1) i \<noteq> None"
    then obtain lt1 where "map_of (tt_live s1) i = Some lt1" by auto
    then obtain r where "due_in s1 i (lt_item lt1) r" using live_due_in [OF spec(1)] by blast
    then have "due_in s i (lt_item lt1) (r + 1)" "1 \<le> r" using spec(7) by blast+
    then show False using due_in_unique [OF ok i] by fastforce
  qed
  moreover have "i \<in> set (concat (tt_slots s))" "unat (tt_tick s) \<le> unat (ti_intervalMs it)" "sane_interval s (ti_intervalMs it)"
    using ok lt unfolding wheel_ok_def by blast+
  moreover have "unat i < unat (tt_nextInternalId s)" using ok calculation(2) unfolding wheel_ok_def by blast
  ultimately show ?thesis using lt spec by (simp add: fireable_def sane_interval_def)
qed

lemma wheel_ok_cong:
  "wheel_ok s \<Longrightarrow> tt_tick s' = tt_tick s \<Longrightarrow> tt_wheelSlots s' = tt_wheelSlots s \<Longrightarrow> tt_slots s' = tt_slots s \<Longrightarrow> tt_live s' = tt_live s
     \<Longrightarrow> tt_byUser s' = tt_byUser s \<Longrightarrow> tt_nextInternalId s' = tt_nextInternalId s \<Longrightarrow> tt_curSlot s' = tt_curSlot s \<Longrightarrow> wheel_ok s'"
  by (simp add: wheel_ok_def sane_interval_def ids_of_def)

lemma due_in_cong:
  "tt_wheelSlots s' = tt_wheelSlots s \<Longrightarrow> tt_slots s' = tt_slots s \<Longrightarrow> tt_live s' = tt_live s \<Longrightarrow> tt_curSlot s' = tt_curSlot s
     \<Longrightarrow> due_in s' i it r = due_in s i it r"
  by (simp add: due_in_def dist_def)

definition drop_index :: "TimerItem \<Rightarrow> TimerThread \<Rightarrow> TimerThread" where
  "drop_index item s = (case map_of (tt_byUser s) (ti_userTimerId item) of
     None \<Rightarrow> s
   | Some ids \<Rightarrow> (let ids = filter (\<lambda>j. j \<noteq> ti_internalId item) ids
       in s\<lparr>tt_byUser := (if ids = [] then AList.delete (ti_userTimerId item) (tt_byUser s) else AList.update (ti_userTimerId item) ids (tt_byUser s))\<rparr>))"

lemma drop_index_ok:
  assumes ok: "wheel_ok s" and dead: "map_of (tt_live s) (ti_internalId item) = None"
  shows "wheel_ok (drop_index item s)"
proof -
  have f: "tt_tick (drop_index item s) = tt_tick s" "tt_wheelSlots (drop_index item s) = tt_wheelSlots s" "tt_slots (drop_index item s) = tt_slots s"
    "tt_live (drop_index item s) = tt_live s" "tt_nextInternalId (drop_index item s) = tt_nextInternalId s" "tt_curSlot (drop_index item s) = tt_curSlot s"
    "umap_ok (tt_byUser s) \<Longrightarrow> umap_ok (tt_byUser (drop_index item s))"
    by (simp_all add: drop_index_def Let_def split: option.splits)
  have ids: "j \<in> set (ids_of (drop_index item s) u)" if "j \<in> set (ids_of s u)" "j \<noteq> ti_internalId item" for j u
    using that by (auto simp: drop_index_def ids_of_def Let_def filter_empty_conv split: option.splits if_splits)
  show ?thesis
    unfolding wheel_ok_def
  proof (intro conjI allI impI ballI)
    fix u i assume "i \<in> set (ids_of (drop_index item s) u)"
    then have i: "i \<in> set (ids_of s u)" by (auto simp: drop_index_def ids_of_def Let_def split: option.splits if_splits)
    then show "unat i < unat (tt_nextInternalId (drop_index item s))" using ok f unfolding wheel_ok_def by metis
    fix lt assume "map_of (tt_live (drop_index item s)) i = Some lt"
    then show "ti_userTimerId (lt_item lt) = u" using i ok f unfolding wheel_ok_def by metis
  next
    fix i assume "i \<in> set (concat (tt_slots (drop_index item s)))"
    then show "unat i < unat (tt_nextInternalId (drop_index item s))" using ok f unfolding wheel_ok_def by metis
  next
    fix i lt assume "map_of (tt_live (drop_index item s)) i = Some lt"
    then have l: "map_of (tt_live s) i = Some lt" "i \<noteq> ti_internalId item" using f dead by auto
    have "i \<in> set (concat (tt_slots s)) \<and> ti_internalId (lt_item lt) = i \<and> i \<in> set (ids_of s (ti_userTimerId (lt_item lt)))
      \<and> unat (tt_tick s) \<le> unat (ti_intervalMs (lt_item lt)) \<and> sane_interval s (ti_intervalMs (lt_item lt))"
      using ok l(1) unfolding wheel_ok_def by blast
    then show "i \<in> set (concat (tt_slots (drop_index item s)))" "ti_internalId (lt_item lt) = i"
      "i \<in> set (ids_of (drop_index item s) (ti_userTimerId (lt_item lt)))"
      "unat (tt_tick (drop_index item s)) \<le> unat (ti_intervalMs (lt_item lt))" "sane_interval (drop_index item s) (ti_intervalMs (lt_item lt))"
      using ids l(2) f by (auto simp: sane_interval_def)
  qed (use ok f in \<open>simp_all add: wheel_ok_def\<close>)
qed

lemma fire_cases:
  "fire item s = (let s' = (if ti_repeat item then put_timer item s else drop_index item s)
     in s'\<lparr>tt_fired := tt_fired s + 1, tt_sent := tt_sent s @ [(ucast (ti_ownerWorkerId item), fire_msg item)]\<rparr>)"
  by (simp add: fire_def put_timer_def drop_index_def wheel_insert_def ids_of_def Let_def split: option.splits)

lemma fire_fields [simp]:
  "tt_tick (fire item s) = tt_tick s" "tt_wheelSlots (fire item s) = tt_wheelSlots s" "tt_curSlot (fire item s) = tt_curSlot s"
  "tt_advanced (fire item s) = tt_advanced s" "tt_skipped (fire item s) = tt_skipped s" "tt_queue (fire item s) = tt_queue s"
  "tt_sent (fire item s) = tt_sent s @ [(ucast (ti_ownerWorkerId item), fire_msg item)]"
  by (simp_all add: fire_cases Let_def drop_index_def split: option.splits)

lemma due_ticks_cong: "tt_tick s' = tt_tick s \<Longrightarrow> tt_wheelSlots s' = tt_wheelSlots s \<Longrightarrow> due_ticks s' iv = due_ticks s iv"
  by (simp add: due_ticks_def)

lemma fire_step:
  assumes ok: "wheel_ok s" and item: "fireable s item" and room: "unat (tt_nextInternalId s) + 1 < 2 ^ 64"
  shows "wheel_ok (fire item s)"
    "due_in (fire item s) i it r \<longleftrightarrow> due_in s i it r
       \<or> ti_repeat item \<and> i = tt_nextInternalId s \<and> it = item\<lparr>ti_internalId := i\<rparr> \<and> r = due_ticks s (ti_intervalMs item)"
    "unat (tt_nextInternalId s) \<le> unat (tt_nextInternalId (fire item s))"
    "unat (tt_nextInternalId (fire item s)) \<le> unat (tt_nextInternalId s) + 1"
    "fireable s it \<Longrightarrow> fireable (fire item s) it"
proof -
  let ?s = "if ti_repeat item then put_timer item s else drop_index item s"
  have iv: "sane_interval s (ti_intervalMs item)" "unat (tt_tick s) \<le> unat (ti_intervalMs item)" and dead: "map_of (tt_live s) (ti_internalId item) = None"
    using item by (simp_all add: fireable_def)
  note put = put_timer_ok [OF ok iv room]
  have drop: "tt_live (drop_index item s) = tt_live s" "tt_slots (drop_index item s) = tt_slots s" "tt_wheelSlots (drop_index item s) = tt_wheelSlots s"
    "tt_curSlot (drop_index item s) = tt_curSlot s" "tt_nextInternalId (drop_index item s) = tt_nextInternalId s" "tt_tick (drop_index item s) = tt_tick s"
    by (simp_all add: drop_index_def Let_def split: option.splits)
  have s: "wheel_ok ?s" using put(1) drop_index_ok [OF ok dead] by simp
  have eq: "tt_tick (fire item s) = tt_tick ?s" "tt_wheelSlots (fire item s) = tt_wheelSlots ?s" "tt_slots (fire item s) = tt_slots ?s"
    "tt_live (fire item s) = tt_live ?s" "tt_byUser (fire item s) = tt_byUser ?s" "tt_nextInternalId (fire item s) = tt_nextInternalId ?s"
    "tt_curSlot (fire item s) = tt_curSlot ?s"
    by (simp_all add: fire_cases Let_def)
  show "wheel_ok (fire item s)" by (rule wheel_ok_cong [OF s eq])
  have "due_in (fire item s) i it r = due_in ?s i it r" by (rule due_in_cong) (use eq in auto)
  also have "\<dots> \<longleftrightarrow> due_in s i it r \<or> ti_repeat item \<and> i = tt_nextInternalId s \<and> it = item\<lparr>ti_internalId := i\<rparr> \<and> r = due_ticks s (ti_intervalMs item)"
  proof (cases "ti_repeat item")
    case True
    show ?thesis
    proof (cases "i = tt_nextInternalId s")
      case new: True
      have "due_in (put_timer item s) i it r \<longleftrightarrow> it = item\<lparr>ti_internalId := i\<rparr> \<and> r = due_ticks s (ti_intervalMs item)"
        using put(2) due_in_unique [OF put(1) put(2)] new by blast
      then show ?thesis using True new put(4) by simp
    next
      case False
      then show ?thesis using True put(3) [OF False] by simp
    qed
  next
    case False
    then show ?thesis using drop by (simp add: due_in_cong [of "drop_index item s" s])
  qed
  finally show "due_in (fire item s) i it r \<longleftrightarrow> due_in s i it r
       \<or> ti_repeat item \<and> i = tt_nextInternalId s \<and> it = item\<lparr>ti_internalId := i\<rparr> \<and> r = due_ticks s (ti_intervalMs item)" .
  show n: "unat (tt_nextInternalId s) \<le> unat (tt_nextInternalId (fire item s))" "unat (tt_nextInternalId (fire item s)) \<le> unat (tt_nextInternalId s) + 1"
    using room drop by (simp_all add: eq unat_word_ariths)
  assume it: "fireable s it"
  have "map_of (tt_live (put_timer item s)) (ti_internalId it) = None"
    using it by (auto simp: fireable_def put_timer_def wheel_insert_def Let_def)
  then show "fireable (fire item s) it"
    using it n drop unfolding fireable_def by (auto simp: eq sane_interval_def)
qed

text \<open>Firing a list of timers, as far as one caller's number is concerned.\<close>

lemma fire_list:
  assumes "wheel_ok s" "\<forall>item \<in> set due. fireable s item" "unat (tt_nextInternalId s) + length due < 2 ^ 64"
  shows "wheel_ok (fold fire due s)" "\<And>it. fireable s it \<Longrightarrow> fireable (fold fire due s) it"
    "tt_sent (fold fire due s) = tt_sent s @ map (\<lambda>it. (ucast (ti_ownerWorkerId it), fire_msg it)) due"
    "unat (tt_nextInternalId s) \<le> unat (tt_nextInternalId (fold fire due s))"
    "unat (tt_nextInternalId (fold fire due s)) \<le> unat (tt_nextInternalId s) + length due"
    "\<And>i it r. \<forall>item \<in> set due. ti_userTimerId item \<noteq> ti_userTimerId it \<Longrightarrow> due_in (fold fire due s) i it r \<longleftrightarrow> due_in s i it r"
proof -
  have "wheel_ok (fold fire due s) \<and> (\<forall>it. fireable s it \<longrightarrow> fireable (fold fire due s) it)
    \<and> tt_sent (fold fire due s) = tt_sent s @ map (\<lambda>it. (ucast (ti_ownerWorkerId it), fire_msg it)) due
    \<and> unat (tt_nextInternalId s) \<le> unat (tt_nextInternalId (fold fire due s))
    \<and> unat (tt_nextInternalId (fold fire due s)) \<le> unat (tt_nextInternalId s) + length due
    \<and> (\<forall>i it r. (\<forall>item \<in> set due. ti_userTimerId item \<noteq> ti_userTimerId it) \<longrightarrow> due_in (fold fire due s) i it r \<longleftrightarrow> due_in s i it r)"
    using assms
  proof (induction due arbitrary: s)
    case (Cons item due)
    have room: "unat (tt_nextInternalId s) + 1 < 2 ^ 64" using Cons.prems(3) by simp
    have item: "fireable s item" using Cons.prems(2) by simp
    note step = fire_step [OF Cons.prems(1) item room]
    have "wheel_ok (fire item s)" "\<forall>it \<in> set due. fireable (fire item s) it"
      "unat (tt_nextInternalId (fire item s)) + length due < 2 ^ 64"
      using step(1,4,5) Cons.prems(2,3) by auto
    note IH = Cons.IH [OF this]
    have keep: "due_in (fire item s) i it r \<longleftrightarrow> due_in s i it r" if "ti_userTimerId item \<noteq> ti_userTimerId it" for i it r
      using step(2) [of i it r] that by auto
    show ?case using IH keep step(3-5) by auto
  qed simp
  then show "wheel_ok (fold fire due s)" "\<And>it. fireable s it \<Longrightarrow> fireable (fold fire due s) it"
    "tt_sent (fold fire due s) = tt_sent s @ map (\<lambda>it. (ucast (ti_ownerWorkerId it), fire_msg it)) due"
    "unat (tt_nextInternalId s) \<le> unat (tt_nextInternalId (fold fire due s))"
    "unat (tt_nextInternalId (fold fire due s)) \<le> unat (tt_nextInternalId s) + length due"
    "\<And>i it r. \<forall>item \<in> set due. ti_userTimerId item \<noteq> ti_userTimerId it \<Longrightarrow> due_in (fold fire due s) i it r \<longleftrightarrow> due_in s i it r"
    by blast+
qed

lemma fold_delete: "map_of (fold AList.delete ids m) k = (if k \<in> set ids then None else map_of m k)"
  by (induction ids arbitrary: m) auto

lemma fold_delete_ok: "umap_ok m \<Longrightarrow> umap_ok (fold AList.delete ids m)"
  by (induction ids arbitrary: m) auto

lemma cancel_fields:
  "tt_tick (doCancel u s) = tt_tick s" "tt_wheelSlots (doCancel u s) = tt_wheelSlots s" "tt_slots (doCancel u s) = tt_slots s"
  "tt_nextInternalId (doCancel u s) = tt_nextInternalId s" "tt_curSlot (doCancel u s) = tt_curSlot s" "tt_sent (doCancel u s) = tt_sent s"
  "ids_of (doCancel u s) v = (if v = u then [] else ids_of s v)"
  "map_of (tt_live (doCancel u s)) i = (if i \<in> set (ids_of s u) then None else map_of (tt_live s) i)"
  "umap_ok (tt_live s) \<Longrightarrow> umap_ok (tt_live (doCancel u s))" "umap_ok (tt_byUser s) \<Longrightarrow> umap_ok (tt_byUser (doCancel u s))"
  by (simp_all add: doCancel_def ids_of_def fold_delete fold_delete_ok split: option.splits)

lemma cancel_ok:
  assumes ok: "wheel_ok s"
  shows "wheel_ok (doCancel u s)" "due_in (doCancel u s) i it r \<longleftrightarrow> due_in s i it r \<and> ti_userTimerId it \<noteq> u"
proof -
  have live: "i \<in> set (ids_of s u) \<longleftrightarrow> ti_userTimerId (lt_item lt) = u" if "map_of (tt_live s) i = Some lt" for i lt
    using ok that unfolding wheel_ok_def by blast
  show "wheel_ok (doCancel u s)"
    unfolding wheel_ok_def
  proof (intro conjI allI impI ballI)
    fix i assume "i \<in> set (concat (tt_slots (doCancel u s)))"
    then show "unat i < unat (tt_nextInternalId (doCancel u s))" using ok unfolding wheel_ok_def cancel_fields by blast
  next
    fix i lt assume "map_of (tt_live (doCancel u s)) i = Some lt"
    then have l: "map_of (tt_live s) i = Some lt" "i \<notin> set (ids_of s u)" by (simp_all add: cancel_fields split: if_splits)
    have "i \<in> set (concat (tt_slots s)) \<and> ti_internalId (lt_item lt) = i \<and> i \<in> set (ids_of s (ti_userTimerId (lt_item lt)))
      \<and> unat (tt_tick s) \<le> unat (ti_intervalMs (lt_item lt)) \<and> sane_interval s (ti_intervalMs (lt_item lt))"
      using ok l(1) unfolding wheel_ok_def by blast
    then show "i \<in> set (concat (tt_slots (doCancel u s)))" "ti_internalId (lt_item lt) = i"
      "i \<in> set (ids_of (doCancel u s) (ti_userTimerId (lt_item lt)))" "unat (tt_tick (doCancel u s)) \<le> unat (ti_intervalMs (lt_item lt))"
      "sane_interval (doCancel u s) (ti_intervalMs (lt_item lt))"
      using l live by (auto simp: cancel_fields sane_interval_def)
  next
    fix v i assume "i \<in> set (ids_of (doCancel u s) v)"
    then have i: "i \<in> set (ids_of s v)" by (simp add: cancel_fields split: if_splits)
    then show "unat i < unat (tt_nextInternalId (doCancel u s))" using ok unfolding wheel_ok_def cancel_fields by blast
    fix lt assume "map_of (tt_live (doCancel u s)) i = Some lt"
    then have "map_of (tt_live s) i = Some lt" by (simp add: cancel_fields split: if_splits)
    then show "ti_userTimerId (lt_item lt) = v" using i ok unfolding wheel_ok_def by blast
  qed (use ok in \<open>simp_all add: wheel_ok_def cancel_fields\<close>)
  show "due_in (doCancel u s) i it r \<longleftrightarrow> due_in s i it r \<and> ti_userTimerId it \<noteq> u"
    using live unfolding due_in_def dist_def cancel_fields by auto
qed

section \<open>Runs of the wheel\<close>

datatype wheel_op = WAdd TimerOp | WCancel u64 | WTick

fun wheel_step :: "wheel_op \<Rightarrow> TimerThread \<Rightarrow> TimerThread" where
  "wheel_step (WAdd op) s = doAdd op s"
| "wheel_step (WCancel u) s = doCancel u s"
| "wheel_step WTick s = wheel_tick s"

definition wheel_run :: "wheel_op list \<Rightarrow> TimerThread \<Rightarrow> TimerThread" where
  "wheel_run ops s = fold wheel_step ops s"

definition ticks :: "wheel_op list \<Rightarrow> nat" where
  "ticks ops = length (filter (\<lambda>op. op = WTick) ops)"

definition op_user :: "wheel_op \<Rightarrow> u64 set" where
  "op_user op = (case op of WAdd a \<Rightarrow> {to_timerId a} | WCancel u \<Rightarrow> {u} | WTick \<Rightarrow> {})"

text \<open>
  The numbers do not run out: a step gives out at most one number more than there are numbers in the slots. And the intervals are not within a second of
  the largest 64-bit number, where the rounding to ticks wraps around.
\<close>

fun roomy :: "wheel_op list \<Rightarrow> TimerThread \<Rightarrow> bool" where
  "roomy [] s = True"
| "roomy (op # ops) s \<longleftrightarrow> unat (tt_nextInternalId s) + length (concat (tt_slots s)) + 1 < 2 ^ 64
     \<and> (case op of WAdd a \<Rightarrow> unat (to_intervalMs a) + 1000 \<le> 2 ^ 64 | _ \<Rightarrow> True) \<and> roomy ops (wheel_step op s)"

text \<open>The messages a log holds for one number of a caller.\<close>

definition fires_of :: "u64 \<Rightarrow> (u32 \<times> Msg) list \<Rightarrow> (u32 \<times> Msg) list" where
  "fires_of u log = filter (\<lambda>m. mh_ctx (msg_head (snd m)) = u) log"

lemma fires_of_simps [simp]:
  "fires_of u [] = []" "fires_of u (xs @ ys) = fires_of u xs @ fires_of u ys"
  "fires_of u ((w, fire_msg it) # xs) = (if ti_userTimerId it = u then (w, fire_msg it) # fires_of u xs else fires_of u xs)"
  by (simp_all add: fires_of_def fire_msg_def)

text \<open>No timer of this number, and exactly one, which falls due in \<open>r\<close> ticks.\<close>

definition idle :: "u64 \<Rightarrow> TimerThread \<Rightarrow> bool" where
  "idle u s \<longleftrightarrow> (\<forall>i it r. due_in s i it r \<longrightarrow> ti_userTimerId it \<noteq> u)"

definition waits :: "u64 \<Rightarrow> u64 \<Rightarrow> TimerItem \<Rightarrow> nat \<Rightarrow> TimerThread \<Rightarrow> bool" where
  "waits u i it r s \<longleftrightarrow> due_in s i it r \<and> ti_userTimerId it = u \<and> (\<forall>j it' r'. due_in s j it' r' \<and> ti_userTimerId it' = u \<longrightarrow> j = i)"

lemma fires_of_other: "\<forall>it \<in> set due. ti_userTimerId it \<noteq> u \<Longrightarrow> fires_of u (map (\<lambda>it. (ucast (ti_ownerWorkerId it), fire_msg it)) due) = []"
  by (induction due) auto

lemma due_positive: "due_in s i it r \<Longrightarrow> 1 \<le> r"
  by (auto simp: due_in_def dist_def Let_def)

lemma wheel_tick_spec:
  assumes ok: "wheel_ok s" and room: "unat (tt_nextInternalId s) + length (concat (tt_slots s)) < 2 ^ 64"
  shows "wheel_ok (wheel_tick s)" "tt_tick (wheel_tick s) = tt_tick s" "tt_wheelSlots (wheel_tick s) = tt_wheelSlots s"
    "idle u s \<Longrightarrow> idle u (wheel_tick s) \<and> fires_of u (tt_sent (wheel_tick s)) = fires_of u (tt_sent s)"
    "waits u i it r s \<Longrightarrow> r \<noteq> 1 \<Longrightarrow> waits u i it (r - 1) (wheel_tick s) \<and> fires_of u (tt_sent (wheel_tick s)) = fires_of u (tt_sent s)"
    "waits u i it 1 s \<Longrightarrow> fires_of u (tt_sent (wheel_tick s)) = fires_of u (tt_sent s) @ [(ucast (ti_ownerWorkerId it), fire_msg it)]
       \<and> (if ti_repeat it then \<exists>i'. waits u i' (it\<lparr>ti_internalId := i'\<rparr>) (due_ticks s (ti_intervalMs it)) (wheel_tick s) else idle u (wheel_tick s))"
proof -
  obtain due s1 where c: "collected s = (due, s1)" by fastforce
  have eq: "wheel_tick s = fold fire due s1" by (simp add: wheel_tick_eq c)
  note spec = collected_spec [OF ok c]
  have fireable: "\<forall>it \<in> set due. fireable s1 it" using collected_fireable [OF ok c] by blast
  have "set (map ti_internalId due) \<subseteq> set (concat (tt_slots s))"
    using due_in_live [OF ok] ok spec(8) unfolding wheel_ok_def by fastforce
  then have "card (set (map ti_internalId due)) \<le> card (set (concat (tt_slots s)))" by (rule card_mono [OF finite_set])
  then have "length due \<le> length (concat (tt_slots s))" using distinct_card [OF spec(9)] card_length [of "concat (tt_slots s)"] by simp
  then have len: "unat (tt_nextInternalId s1) + length due < 2 ^ 64" using room spec(3) by simp
  note all = fire_list [OF spec(1) fireable len]
  show "wheel_ok (wheel_tick s)" unfolding eq by (rule all(1))
  have const: "tt_tick (fold fire xs x) = tt_tick x \<and> tt_wheelSlots (fold fire xs x) = tt_wheelSlots x" for xs x
    by (induction xs arbitrary: x) simp_all
  then show same: "tt_tick (wheel_tick s) = tt_tick s" "tt_wheelSlots (wheel_tick s) = tt_wheelSlots s" unfolding eq using spec by simp_all
  have sent: "fires_of u (tt_sent (wheel_tick s)) = fires_of u (tt_sent s) @ fires_of u (map (\<lambda>it. (ucast (ti_ownerWorkerId it), fire_msg it)) due)"
    unfolding eq all(3) using spec(2) by simp
  have other: "fires_of u (tt_sent (wheel_tick s)) = fires_of u (tt_sent s)
      \<and> (\<forall>i it r. ti_userTimerId it = u \<longrightarrow> due_in (wheel_tick s) i it r \<longleftrightarrow> due_in s i it (r + 1) \<and> 1 \<le> r)"
    if "\<forall>it \<in> set due. ti_userTimerId it \<noteq> u"
  proof -
    have "due_in (wheel_tick s) i it r \<longleftrightarrow> due_in s1 i it r" if "ti_userTimerId it = u" for i it r
      unfolding eq using \<open>\<forall>it \<in> set due. ti_userTimerId it \<noteq> u\<close> that by (intro all(6)) simp
    then show ?thesis using sent fires_of_other [OF that] spec(7) by simp
  qed
  { assume idle: "idle u s"
    then have "\<forall>it \<in> set due. ti_userTimerId it \<noteq> u" using spec(8) by (auto simp: idle_def)
    from other [OF this] idle show "idle u (wheel_tick s) \<and> fires_of u (tt_sent (wheel_tick s)) = fires_of u (tt_sent s)"
      unfolding idle_def by blast }
  { assume w: "waits u i it r s" and r: "r \<noteq> 1"
    have "\<forall>it \<in> set due. ti_userTimerId it \<noteq> u"
    proof (intro ballI notI)
      fix x assume "x \<in> set due" and x: "ti_userTimerId x = u"
      then obtain j where j: "due_in s j x 1" using spec(8) by blast
      then have "j = i" using w x unfolding waits_def by blast
      then show False using due_in_unique [OF ok, of i x 1 it r] j w r unfolding waits_def by blast
    qed
    note oth = other [OF this]
    have "1 \<le> r" using w due_positive unfolding waits_def by blast
    then have r1: "r - 1 + 1 = r" "1 \<le> r - 1" using r by simp_all
    have "due_in (wheel_tick s) i it (r - 1)" using oth r1 w unfolding waits_def by simp
    moreover have "j = i" if "due_in (wheel_tick s) j it' r'" "ti_userTimerId it' = u" for j it' r'
      using that oth w unfolding waits_def by blast
    ultimately show "waits u i it (r - 1) (wheel_tick s) \<and> fires_of u (tt_sent (wheel_tick s)) = fires_of u (tt_sent s)"
      using oth w unfolding waits_def by blast }
  assume w: "waits u i it 1 s"
  then have "it \<in> set due" using spec(8) by (auto simp: waits_def)
  then obtain xs ys where due: "due = xs @ it # ys" by (meson split_list)
  have u: "ti_userTimerId it = u" and i: "ti_internalId it = i" using w due_in_live [OF ok] by (auto simp: waits_def)
  have others: "ti_userTimerId x \<noteq> u" if x: "x \<in> set xs \<union> set ys" for x
  proof
    assume "ti_userTimerId x = u"
    moreover obtain j where "due_in s j x 1" using x spec(8) due by auto
    ultimately have "due_in s i x 1" using w by (auto simp: waits_def)
    then have "ti_internalId x = ti_internalId it" using due_in_live [OF ok] i by blast
    moreover have "ti_internalId x \<in> ti_internalId ` set xs \<union> ti_internalId ` set ys" using x by blast
    ultimately show False using spec(9) unfolding due by auto
  qed
  have f: "fires_of u (tt_sent (wheel_tick s)) = fires_of u (tt_sent s) @ [(ucast (ti_ownerWorkerId it), fire_msg it)]"
    using sent fires_of_other others unfolding due by (simp add: u)
  have l: "length due = length xs + length ys + 1" by (simp add: due)
  let ?s2 = "fold fire xs s1"
  have fx: "\<forall>y \<in> set xs. fireable s1 y" and lx: "unat (tt_nextInternalId s1) + length xs < 2 ^ 64" using fireable len l by (auto simp: due)
  note bx = fire_list [OF spec(1) fx lx]
  have fi: "fireable ?s2 it" using fireable due by (intro bx(2)) simp
  have li: "unat (tt_nextInternalId ?s2) + 1 < 2 ^ 64 - length ys" using bx(5) len l by linarith
  then have li1: "unat (tt_nextInternalId ?s2) + 1 < 2 ^ 64" by linarith
  note step = fire_step [OF bx(1) fi li1]
  have fy: "\<forall>y \<in> set ys. fireable (fire it ?s2) y" using fireable due bx(2) step(5) by simp
  have ly: "unat (tt_nextInternalId (fire it ?s2)) + length ys < 2 ^ 64" using step(4) li by linarith
  note rest = fire_list [OF step(1) fy ly]
  have tick: "wheel_tick s = fold fire ys (fire it ?s2)" by (simp add: eq due)
  have d: "due_ticks ?s2 iv = due_ticks s iv" for iv using const spec by (intro due_ticks_cong) simp_all
  have now: "due_in (wheel_tick s) j x r \<longleftrightarrow> ti_repeat it \<and> j = tt_nextInternalId ?s2 \<and> x = it\<lparr>ti_internalId := j\<rparr> \<and> r = due_ticks s (ti_intervalMs it)"
    if x: "ti_userTimerId x = u" for j x r
  proof -
    have "due_in (wheel_tick s) j x r \<longleftrightarrow> due_in (fire it ?s2) j x r" unfolding tick using others x by (intro rest(6)) auto
    moreover have "due_in ?s2 j x r \<longleftrightarrow> due_in s1 j x r" using others x by (intro bx(6)) auto
    moreover have "\<not> due_in s1 j x r"
    proof
      assume "due_in s1 j x r"
      then have "due_in s j x (r + 1)" "1 \<le> r" using spec(7) by blast+
      moreover from this have "j = i" using w x by (auto simp: waits_def)
      ultimately show False using due_in_unique [OF ok, of i x "r + 1" it 1] w by (auto simp: waits_def)
    qed
    ultimately show ?thesis using step(2) [of j x r] d by simp
  qed
  show "fires_of u (tt_sent (wheel_tick s)) = fires_of u (tt_sent s) @ [(ucast (ti_ownerWorkerId it), fire_msg it)]
       \<and> (if ti_repeat it then \<exists>i'. waits u i' (it\<lparr>ti_internalId := i'\<rparr>) (due_ticks s (ti_intervalMs it)) (wheel_tick s) else idle u (wheel_tick s))"
  proof (cases "ti_repeat it")
    case True
    then have "waits u (tt_nextInternalId ?s2) (it\<lparr>ti_internalId := tt_nextInternalId ?s2\<rparr>) (due_ticks s (ti_intervalMs it)) (wheel_tick s)"
      using now u by (auto simp: waits_def)
    then show ?thesis using f True by auto
  next
    case False
    then show ?thesis using f now by (auto simp: idle_def)
  qed
qed

lemma fire_msg_id [simp]: "fire_msg (it\<lparr>ti_internalId := i\<rparr>) = fire_msg it"
  by (simp add: fire_msg_def)

lemma add_spec:
  assumes ok: "wheel_ok s" and room: "unat (tt_nextInternalId s) + 1 < 2 ^ 64" and iv: "unat (to_intervalMs op) + 1000 \<le> 2 ^ 64"
  shows "wheel_ok (doAdd op s)" "tt_sent (doAdd op s) = tt_sent s" "tt_tick (doAdd op s) = tt_tick s" "tt_wheelSlots (doAdd op s) = tt_wheelSlots s"
    "ti_userTimerId it \<noteq> to_timerId op \<Longrightarrow> due_in (doAdd op s) i it r \<longleftrightarrow> due_in s i it r"
    "idle (to_timerId op) s \<Longrightarrow> waits (to_timerId op) (tt_nextInternalId s) (op_item op s) (due_ticks s (to_intervalMs op)) (doAdd op s)"
proof -
  have t: "1 \<le> unat (tt_tick s)" "unat (tt_tick s) \<le> 1000" using ok by (simp_all add: wheel_ok_def)
  have item: "unat (ti_intervalMs (op_item op s)) = max (unat (to_intervalMs op)) (unat (tt_tick s))" "ti_userTimerId (op_item op s) = to_timerId op"
    by (simp_all add: op_item_def word_less_nat_alt max_def)
  have sane: "sane_interval s (ti_intervalMs (op_item op s))" using iv t by (simp add: sane_interval_def item max_def)
  have tick: "unat (tt_tick s) \<le> unat (ti_intervalMs (op_item op s))" by (simp add: item)
  note put = put_timer_ok [OF ok sane tick room, folded doAdd_put]
  show "wheel_ok (doAdd op s)" "tt_sent (doAdd op s) = tt_sent s" "tt_tick (doAdd op s) = tt_tick s" "tt_wheelSlots (doAdd op s) = tt_wheelSlots s"
    using put(1) by (simp_all add: doAdd_put)
  have same: "(op_item op s)\<lparr>ti_internalId := tt_nextInternalId s\<rparr> = op_item op s" by (simp add: op_item_def)
  have d: "due_ticks s (ti_intervalMs (op_item op s)) = due_ticks s (to_intervalMs op)" by (simp add: due_ticks_def item)
  have new: "due_in (doAdd op s) (tt_nextInternalId s) it r \<longleftrightarrow> it = op_item op s \<and> r = due_ticks s (to_intervalMs op)" for it r
    using put(2) due_in_unique [OF put(1) put(2)] unfolding same d by blast
  { assume "ti_userTimerId it \<noteq> to_timerId op"
    then show "due_in (doAdd op s) i it r \<longleftrightarrow> due_in s i it r"
      using new put(3) put(4) item(2) by (cases "i = tt_nextInternalId s") auto }
  assume "idle (to_timerId op) s"
  then show "waits (to_timerId op) (tt_nextInternalId s) (op_item op s) (due_ticks s (to_intervalMs op)) (doAdd op s)"
    using new put(3) item(2) unfolding waits_def idle_def by metis
qed

text \<open>One step, as far as a number is concerned that it does not mention.\<close>

lemma wheel_step_spec:
  assumes ok: "wheel_ok s" and room: "roomy [op] s"
  shows "wheel_ok (wheel_step op s)" "tt_tick (wheel_step op s) = tt_tick s" "tt_wheelSlots (wheel_step op s) = tt_wheelSlots s"
    "op \<noteq> WTick \<Longrightarrow> tt_sent (wheel_step op s) = tt_sent s"
    "u \<notin> op_user op \<Longrightarrow> op \<noteq> WTick \<Longrightarrow> ti_userTimerId it = u \<Longrightarrow> due_in (wheel_step op s) i it r \<longleftrightarrow> due_in s i it r"
proof -
  have r: "unat (tt_nextInternalId s) + 1 < 2 ^ 64" "unat (tt_nextInternalId s) + length (concat (tt_slots s)) < 2 ^ 64" using room by simp_all
  have all: "wheel_ok (wheel_step op s) \<and> tt_tick (wheel_step op s) = tt_tick s \<and> tt_wheelSlots (wheel_step op s) = tt_wheelSlots s
    \<and> (op \<noteq> WTick \<longrightarrow> tt_sent (wheel_step op s) = tt_sent s)
    \<and> (u \<notin> op_user op \<longrightarrow> op \<noteq> WTick \<longrightarrow> ti_userTimerId it = u \<longrightarrow> due_in (wheel_step op s) i it r = due_in s i it r)"
  proof (cases op)
    case (WAdd a)
    then have "unat (to_intervalMs a) + 1000 \<le> 2 ^ 64" using room by simp
    from add_spec [OF ok r(1) this] show ?thesis using WAdd by (auto simp: op_user_def)
  next
    case (WCancel v)
    then show ?thesis using cancel_ok [OF ok, of v] by (auto simp: op_user_def cancel_fields)
  next
    case WTick
    then show ?thesis using wheel_tick_spec(1-3) [OF ok r(2)] by simp
  qed
  then show "wheel_ok (wheel_step op s)" "tt_tick (wheel_step op s) = tt_tick s" "tt_wheelSlots (wheel_step op s) = tt_wheelSlots s"
    "op \<noteq> WTick \<Longrightarrow> tt_sent (wheel_step op s) = tt_sent s"
    "u \<notin> op_user op \<Longrightarrow> op \<noteq> WTick \<Longrightarrow> ti_userTimerId it = u \<Longrightarrow> due_in (wheel_step op s) i it r \<longleftrightarrow> due_in s i it r"
    by blast+
qed

lemma idle_step:
  assumes ok: "wheel_ok s" and room: "roomy [op] s" and idle: "idle u s" and other: "\<And>a. op = WAdd a \<Longrightarrow> to_timerId a \<noteq> u"
  shows "idle u (wheel_step op s)" "fires_of u (tt_sent (wheel_step op s)) = fires_of u (tt_sent s)"
proof -
  have "idle u (wheel_step op s) \<and> fires_of u (tt_sent (wheel_step op s)) = fires_of u (tt_sent s)"
  proof (cases op)
    case WTick
    have "unat (tt_nextInternalId s) + length (concat (tt_slots s)) < 2 ^ 64" using room by simp
    from wheel_tick_spec(4) [OF ok this idle] show ?thesis using WTick by simp
  next
    case (WCancel v)
    show ?thesis using cancel_ok(2) [OF ok] idle unfolding idle_def WCancel wheel_step.simps cancel_fields by blast
  next
    case (WAdd a)
    then have u: "u \<notin> op_user op" "op \<noteq> WTick" using other by (auto simp: op_user_def)
    show ?thesis
      using wheel_step_spec(4) [OF ok room u(2)] wheel_step_spec(5) [OF ok room u] idle unfolding idle_def by metis
  qed
  then show "idle u (wheel_step op s)" "fires_of u (tt_sent (wheel_step op s)) = fires_of u (tt_sent s)" by blast+
qed

lemma waits_step:
  assumes ok: "wheel_ok s" and room: "roomy [op] s" and w: "waits u i it r s" and other: "u \<notin> op_user op" "op \<noteq> WTick"
  shows "waits u i it r (wheel_step op s)"
  using w wheel_step_spec(5) [OF ok room other] unfolding waits_def by metis

lemma run_cons [simp]: "wheel_run [] s = s" "wheel_run (op # ops) s = wheel_run ops (wheel_step op s)"
  "wheel_run (xs @ ys) s = wheel_run ys (wheel_run xs s)"
  by (simp_all add: wheel_run_def)

lemma no_add: "\<forall>op \<in> set ops. u \<notin> op_user op \<Longrightarrow> \<forall>a. WAdd a \<in> set ops \<longrightarrow> to_timerId a \<noteq> u"
proof (intro allI impI)
  fix a assume "\<forall>op \<in> set ops. u \<notin> op_user op" "WAdd a \<in> set ops"
  then have "u \<notin> op_user (WAdd a)" by blast
  then show "to_timerId a \<noteq> u" by (simp add: op_user_def)
qed

lemma ticks_cons [simp]: "ticks [] = 0" "ticks (op # ops) = (if op = WTick then 1 else 0) + ticks ops"
  by (simp_all add: ticks_def)

lemma roomy_append [simp]: "roomy (xs @ ys) s \<longleftrightarrow> roomy xs s \<and> roomy ys (wheel_run xs s)"
  by (induction xs arbitrary: s) auto

lemma roomy_first: "roomy (op # ops) s \<longleftrightarrow> roomy [op] s \<and> roomy ops (wheel_step op s)"
  by auto

lemma run_idle:
  "wheel_ok s \<Longrightarrow> roomy ops s \<Longrightarrow> idle u s \<Longrightarrow> \<forall>a. WAdd a \<in> set ops \<longrightarrow> to_timerId a \<noteq> u
     \<Longrightarrow> wheel_ok (wheel_run ops s) \<and> idle u (wheel_run ops s) \<and> fires_of u (tt_sent (wheel_run ops s)) = fires_of u (tt_sent s)
       \<and> tt_tick (wheel_run ops s) = tt_tick s \<and> tt_wheelSlots (wheel_run ops s) = tt_wheelSlots s"
proof (induction ops arbitrary: s)
  case (Cons op ops)
  have r: "roomy [op] s" "roomy ops (wheel_step op s)" using Cons.prems(2) roomy_first by blast+
  have other: "\<And>a. op = WAdd a \<Longrightarrow> to_timerId a \<noteq> u" using Cons.prems(4) by auto
  note st = wheel_step_spec [OF Cons.prems(1) r(1)] and id = idle_step [OF Cons.prems(1) r(1) Cons.prems(3) other]
  show ?case using Cons.IH [OF st(1) r(2) id(1)] Cons.prems(4) st id by auto
qed simp

lemma wheel_run_ok: "wheel_ok s \<Longrightarrow> roomy ops s \<Longrightarrow> wheel_ok (wheel_run ops s)"
proof (induction ops arbitrary: s)
  case (Cons op ops)
  have "roomy [op] s" "roomy ops (wheel_step op s)" using Cons.prems(2) roomy_first by blast+
  then show ?case using Cons.IH wheel_step_spec(1) [OF Cons.prems(1)] by simp
qed simp

text \<open>How often a timer that falls due in \<open>r\<close> ticks, and every \<open>d\<close> ticks from then on if it repeats, has fired after \<open>k\<close> ticks.\<close>

definition firings :: "bool \<Rightarrow> nat \<Rightarrow> nat \<Rightarrow> nat \<Rightarrow> nat" where
  "firings rep d r k = (if k < r then 0 else if rep then (k - r) div d + 1 else 1)"

lemma firings_0 [simp]: "1 \<le> r \<Longrightarrow> firings rep d r 0 = 0"
  by (simp add: firings_def)

lemma firings_later: "1 < r \<Longrightarrow> firings rep d r (Suc k) = firings rep d (r - 1) k"
  by (auto simp: firings_def)

lemma firings_now: "1 \<le> d \<Longrightarrow> firings rep d (Suc 0) (Suc k) = Suc (if rep then firings rep d d k else 0)"
  by (auto simp: firings_def div_eq_0_iff le_div_geq)

lemma due_ticks_pos: "wheel_ok s \<Longrightarrow> 1 \<le> due_ticks s iv"
  by (auto simp: due_ticks_def wheel_ok_def Let_def Suc_le_eq intro: gr0I)

lemma run_waits:
  assumes "wheel_ok s" "roomy ops s" "waits u i it r s" "d = due_ticks s (ti_intervalMs it)" "\<forall>op \<in> set ops. u \<notin> op_user op"
  shows "fires_of u (tt_sent (wheel_run ops s))
    = fires_of u (tt_sent s) @ replicate (firings (ti_repeat it) d r (ticks ops)) (ucast (ti_ownerWorkerId it), fire_msg it)"
  using assms
proof (induction ops arbitrary: s i it r)
  case Nil
  then have "1 \<le> r" using due_positive by (auto simp: waits_def)
  then show ?case by simp
next
  case (Cons op ops)
  have rm: "roomy [op] s" "roomy ops (wheel_step op s)" using Cons.prems(2) roomy_first by blast+
  note st = wheel_step_spec [OF Cons.prems(1) rm(1)]
  have d: "d = due_ticks (wheel_step op s) (ti_intervalMs it)" using Cons.prems(4) due_ticks_cong [OF st(2,3)] by simp
  have r: "1 \<le> r" using Cons.prems(3) due_positive by (auto simp: waits_def)
  have u: "u \<notin> op_user op" "\<forall>op \<in> set ops. u \<notin> op_user op" using Cons.prems(5) by simp_all
  show ?case
  proof (cases "op = WTick")
    case False
    note w = waits_step [OF Cons.prems(1) rm(1) Cons.prems(3) u(1) False]
    show ?thesis using Cons.IH [OF st(1) rm(2) w d u(2)] st(4) False by simp
  next
    case True
    have room: "unat (tt_nextInternalId s) + length (concat (tt_slots s)) < 2 ^ 64" using rm(1) by simp
    note tick = wheel_tick_spec [OF Cons.prems(1) room]
    have rm': "roomy ops (wheel_tick s)" and ok': "wheel_ok (wheel_tick s)" using rm(2) st(1) True by simp_all
    show ?thesis
    proof (cases "r = 1")
      case False
      then have "1 < r" using r by simp
      moreover note w = tick(5) [OF Cons.prems(3) False]
      ultimately show ?thesis using Cons.IH [OF ok' rm' conjunct1 [OF w] _ u(2)] d True by (simp add: firings_later)
    next
      case now: True
      then have w1: "waits u i it 1 s" using Cons.prems(3) by simp
      note w = tick(6) [OF w1]
      have pos: "1 \<le> d" using Cons.prems(1,4) due_ticks_pos by simp
      show ?thesis
      proof (cases "ti_repeat it")
        case rep: True
        then obtain i' where w2: "waits u i' (it\<lparr>ti_internalId := i'\<rparr>) d (wheel_tick s)" using w Cons.prems(4) by auto
        have d': "d = due_ticks (wheel_tick s) (ti_intervalMs (it\<lparr>ti_internalId := i'\<rparr>))" using d True by simp
        show ?thesis using Cons.IH [OF ok' rm' w2 d' u(2)] w True now rep pos by (simp add: firings_now)
      next
        case once: False
        then have idle: "idle u (wheel_tick s)" using w by simp
        have "\<forall>a. WAdd a \<in> set ops \<longrightarrow> to_timerId a \<noteq> u" using u(2) by (rule no_add)
        note run = run_idle [OF ok' rm' idle this]
        then show ?thesis using w True now once pos by (simp add: firings_now)
      qed
    qed
  qed
qed

lemma new_wheel_ok: "wheel_ok (new_timer_thread tickMs n)" "idle u (new_timer_thread tickMs n)" "tt_sent (new_timer_thread tickMs n) = []"
proof -
  have "unat (max 1 (min 1000 tickMs)) \<ge> 1" "unat (max 1 (min 1000 tickMs)) \<le> 1000"
    by (simp_all add: max_def min_def word_le_nat_alt)
  moreover have "1 < unat (if n > 1 then n else 256)" by (simp add: word_less_nat_alt)
  ultimately show "wheel_ok (new_timer_thread tickMs n)"
    unfolding new_timer_thread_def kMinTickMs_def kMaxTickMs_def kWheelSlots_def Let_def
    by (auto simp: wheel_ok_def ids_of_def)
qed (simp_all add: new_timer_thread_def Let_def idle_def due_in_def)

lemma fires_scheduled:
  assumes "s = wheel_run (before @ WAdd op # after) (new_timer_thread tickMs n)" and "roomy (before @ WAdd op # after) (new_timer_thread tickMs n)"
    and "\<forall>o' \<in> set (before @ after). to_timerId op \<notin> op_user o'" and "d = due_ticks (new_timer_thread tickMs n) (to_intervalMs op)"
  shows "fires_of (to_timerId op) (tt_sent s)
    = replicate (if to_repeat op then ticks after div d else min 1 (ticks after div d)) (ucast (to_ownerWorkerId op), fire_msg (op_item op s))"
proof -
  let ?u = "to_timerId op" and ?s0 = "new_timer_thread tickMs n"
  define s1 where "s1 = wheel_run before ?s0"
  have rb: "roomy before ?s0" and ra: "roomy (WAdd op # after) s1" using assms(2) by (simp_all add: s1_def)
  have "\<forall>a. WAdd a \<in> set before \<longrightarrow> to_timerId a \<noteq> ?u" using assms(3) by (intro no_add) simp
  from run_idle [OF new_wheel_ok(1) rb new_wheel_ok(2) this]
  have s1: "wheel_ok s1" "idle ?u s1" "fires_of ?u (tt_sent s1) = []" "tt_tick s1 = tt_tick ?s0" "tt_wheelSlots s1 = tt_wheelSlots ?s0"
    using new_wheel_ok(3) by (simp_all add: s1_def)
  have room: "unat (tt_nextInternalId s1) + 1 < 2 ^ 64" "unat (to_intervalMs op) + 1000 \<le> 2 ^ 64" using ra by simp_all
  note add = add_spec [OF s1(1) room]
  have d: "d = due_ticks s1 (to_intervalMs op)" using assms(4) due_ticks_cong [OF s1(4,5)] by simp
  have iv: "unat (ti_intervalMs (op_item op s1)) = max (unat (to_intervalMs op)) (unat (tt_tick s1))" by (simp add: op_item_def word_less_nat_alt max_def)
  have d': "d = due_ticks (doAdd op s1) (ti_intervalMs (op_item op s1))" using d add(3,4) iv by (simp add: due_ticks_def)
  have pos: "1 \<le> d" using d due_ticks_pos [OF s1(1)] by simp
  have "fires_of ?u (tt_sent s) = replicate (firings (to_repeat op) d d (ticks after)) (ucast (to_ownerWorkerId op), fire_msg (op_item op s1))"
    using run_waits [OF add(1) _ add(6) [OF s1(2), folded d] d'] ra assms(3) s1(3) add(2) by (simp add: assms(1) s1_def [symmetric] op_item_def)
  moreover have "firings rep d d k = (if rep then k div d else min 1 (k div d))" for rep k
    using pos by (auto simp: firings_def div_eq_0_iff le_div_geq min_def)
  moreover have "fire_msg (op_item op s1) = fire_msg (op_item op s)" by (simp add: fire_msg_def op_item_def)
  ultimately show ?thesis by simp
qed

text \<open>
  C13. A timer fires on schedule and at no other time. Take any run of the wheel from its start, and a timer added in it under a number nothing else in the
  run mentions. With \<open>d\<close> the ticks its interval is rounded to, its message has been handed to the worker that owns it once
  when \<open>d\<close> ticks have passed since, and, if it repeats, once more after every \<open>d\<close> further ticks, whatever other timers do.
\<close>

theorem timer_fires_on_schedule:
  assumes "s = wheel_run (before @ WAdd op # after) (new_timer_thread tickMs n)" and "roomy (before @ WAdd op # after) (new_timer_thread tickMs n)"
    and "\<forall>o' \<in> set (before @ after). to_timerId op \<notin> op_user o'" and "d = due_ticks (new_timer_thread tickMs n) (to_intervalMs op)"
  shows "fires_of (to_timerId op) (tt_sent s)
    = replicate (if to_repeat op then ticks after div d else min 1 (ticks after div d)) (ucast (to_ownerWorkerId op), fire_msg (op_item op s))"
  by (rule fires_scheduled [OF assms])

text \<open>C27. A timer that was cancelled is silent: no message under its number is sent until the number is used again, whatever else happens.\<close>

theorem cancelled_timer_is_silent:
  assumes "roomy (before @ WCancel u # after) (new_timer_thread tickMs n)" and "\<forall>a. WAdd a \<in> set after \<longrightarrow> to_timerId a \<noteq> u"
  shows "fires_of u (tt_sent (wheel_run (before @ WCancel u # after) (new_timer_thread tickMs n)))
    = fires_of u (tt_sent (wheel_run before (new_timer_thread tickMs n)))"
proof -
  let ?s0 = "new_timer_thread tickMs n"
  define s where "s = wheel_run before ?s0"
  have r: "roomy before ?s0" "roomy (WCancel u # after) s" using assms(1) by (simp_all add: s_def)
  have ok: "wheel_ok s" using wheel_run_ok [OF new_wheel_ok(1) r(1)] by (simp add: s_def)
  have c: "wheel_ok (doCancel u s)" "idle u (doCancel u s)" "tt_sent (doCancel u s) = tt_sent s"
    using cancel_ok [OF ok, of u] by (auto simp: idle_def cancel_fields)
  show ?thesis using run_idle [OF c(1) _ c(2) assms(2)] r(2) c(3) by (simp add: s_def)
qed

section \<open>The index of a repeating timer\<close>

lemma fire_ids:
  "length (ids_of (fire item s) u) = length (ids_of s u) + (if ti_userTimerId item = u then 1 else 0)" if "ti_userTimerId item = u \<Longrightarrow> ti_repeat item"
  using that by (auto simp: fire_def wheel_insert_def ids_of_def Let_def split: option.splits)

lemma fold_fire_ids:
  "\<forall>item \<in> set due. ti_userTimerId item = u \<longrightarrow> ti_repeat item \<Longrightarrow>
     length (ids_of (fold fire due s) u) = length (ids_of s u) + length (filter (\<lambda>it. ti_userTimerId it = u) due)"
proof (induction due arbitrary: s)
  case (Cons item due)
  have "ti_userTimerId item = u \<Longrightarrow> ti_repeat item" using Cons.prems by simp
  from fire_ids [OF this, where s = s] show ?case using Cons by simp
qed simp

lemma length_fires_map:
  "length (fires_of u (map (\<lambda>it. (ucast (ti_ownerWorkerId it), fire_msg it)) due)) = length (filter (\<lambda>it. ti_userTimerId it = u) due)"
  by (induction due) auto

lemma fold_fire_sent: "tt_sent (fold fire due s) = tt_sent s @ map (\<lambda>it. (ucast (ti_ownerWorkerId it), fire_msg it)) due"
  by (induction due arbitrary: s) simp_all

text \<open>Every live timer of this number repeats.\<close>

definition all_repeat :: "u64 \<Rightarrow> TimerThread \<Rightarrow> bool" where
  "all_repeat u s \<longleftrightarrow> (\<forall>i it r. due_in s i it r \<longrightarrow> ti_userTimerId it = u \<longrightarrow> ti_repeat it)"

lemma tick_ids:
  assumes ok: "wheel_ok s" and rep: "all_repeat u s"
  shows "length (ids_of (wheel_tick s) u) + length (fires_of u (tt_sent s)) = length (ids_of s u) + length (fires_of u (tt_sent (wheel_tick s)))"
proof -
  obtain due s1 where c: "collected s = (due, s1)" by fastforce
  note spec = collected_spec [OF ok c]
  have "\<forall>item \<in> set due. ti_userTimerId item = u \<longrightarrow> ti_repeat item" using rep spec(8) unfolding all_repeat_def by blast
  from fold_fire_ids [OF this, where s = s1] show ?thesis
    using spec(2,4) by (simp add: wheel_tick_eq c fold_fire_sent length_fires_map ids_of_def)
qed

lemma waits_repeat: "wheel_ok s \<Longrightarrow> waits u i it r s \<Longrightarrow> ti_repeat it \<Longrightarrow> all_repeat u s"
  using due_in_unique unfolding waits_def all_repeat_def by metis

lemma other_ids: "u \<notin> op_user op \<Longrightarrow> op \<noteq> WTick \<Longrightarrow> ids_of (wheel_step op s) u = ids_of s u"
  by (cases op) (auto simp: op_user_def cancel_fields doAdd_put ids_of_put op_item_def)

lemma run_ids:
  assumes "wheel_ok s" "roomy ops s" "waits u i it r s" "ti_repeat it" "\<forall>op \<in> set ops. u \<notin> op_user op"
  shows "length (ids_of (wheel_run ops s) u) + length (fires_of u (tt_sent s)) = length (ids_of s u) + length (fires_of u (tt_sent (wheel_run ops s)))"
  using assms
proof (induction ops arbitrary: s i it r)
  case (Cons op ops)
  have rm: "roomy [op] s" "roomy ops (wheel_step op s)" using Cons.prems(2) roomy_first by blast+
  note st = wheel_step_spec [OF Cons.prems(1) rm(1)]
  have u: "u \<notin> op_user op" "\<forall>op \<in> set ops. u \<notin> op_user op" using Cons.prems(5) by simp_all
  show ?case
  proof (cases "op = WTick")
    case False
    note w = waits_step [OF Cons.prems(1) rm(1) Cons.prems(3) u(1) False]
    show ?thesis using Cons.IH [OF st(1) rm(2) w Cons.prems(4) u(2)] st(4) False other_ids [OF u(1) False] by simp
  next
    case True
    have room: "unat (tt_nextInternalId s) + length (concat (tt_slots s)) < 2 ^ 64" using rm(1) by simp
    note tick = wheel_tick_spec [OF Cons.prems(1) room] and ids = tick_ids [OF Cons.prems(1) waits_repeat [OF Cons.prems(1,3,4)]]
    have rm': "roomy ops (wheel_tick s)" and ok': "wheel_ok (wheel_tick s)" using rm(2) st(1) True by simp_all
    have "\<exists>i' it' r'. waits u i' it' r' (wheel_tick s) \<and> ti_repeat it'"
    proof (cases "r = 1")
      case False
      from tick(5) [OF Cons.prems(3) this] show ?thesis using Cons.prems(4) by blast
    next
      case now: True
      then have "waits u i it 1 s" using Cons.prems(3) by simp
      from tick(6) [OF this] obtain i' where "waits u i' (it\<lparr>ti_internalId := i'\<rparr>) (due_ticks s (ti_intervalMs it)) (wheel_tick s)"
        using Cons.prems(4) by auto
      then show ?thesis using Cons.prems(4) by fastforce
    qed
    then obtain i' it' r' where w: "waits u i' it' r' (wheel_tick s)" "ti_repeat it'" by blast
    show ?thesis using Cons.IH [OF ok' rm' w u(2)] ids True by simp
  qed
qed simp

text \<open>
  The index of a repeating timer grows without bound: each time it fires the index gains an entry and never loses one, although a
  single timer of this number is alive.
\<close>

theorem repeating_timer_leaks:
  assumes "s = wheel_run (before @ WAdd op # after) (new_timer_thread tickMs n)" and "roomy (before @ WAdd op # after) (new_timer_thread tickMs n)"
    and "\<forall>o' \<in> set (before @ after). to_timerId op \<notin> op_user o'" and "d = due_ticks (new_timer_thread tickMs n) (to_intervalMs op)" and "to_repeat op"
  shows "length (ids_of s (to_timerId op)) = 1 + ticks after div d"
proof -
  let ?u = "to_timerId op" and ?s0 = "new_timer_thread tickMs n"
  define s1 where "s1 = wheel_run before ?s0"
  have rb: "roomy before ?s0" and ra: "roomy (WAdd op # after) s1" using assms(2) by (simp_all add: s1_def)
  have na: "\<forall>a. WAdd a \<in> set before \<longrightarrow> to_timerId a \<noteq> ?u" using assms(3) by (intro no_add) simp
  from run_idle [OF new_wheel_ok(1) rb new_wheel_ok(2) na]
  have s1: "wheel_ok s1" "idle ?u s1" "fires_of ?u (tt_sent s1) = []" using new_wheel_ok(3) by (simp_all add: s1_def)
  have "ids_of s1 ?u = []"
  proof -
    have "ids_of (wheel_run ops x) ?u = []" if "\<forall>o' \<in> set ops. ?u \<notin> op_user o'" "roomy ops x" "wheel_ok x" "idle ?u x" "ids_of x ?u = []" for ops x
      using that
    proof (induction ops arbitrary: x)
      case (Cons o' ops)
      have rm: "roomy [o'] x" "roomy ops (wheel_step o' x)" using Cons.prems(2) roomy_first by blast+
      have "\<And>a. o' = WAdd a \<Longrightarrow> to_timerId a \<noteq> ?u" using Cons.prems(1) by (auto simp: op_user_def)
      note id = idle_step [OF Cons.prems(3) rm(1) Cons.prems(4) this]
      have "ids_of (wheel_step o' x) ?u = []"
      proof (cases "o' = WTick")
        case True
        have "all_repeat ?u x" using Cons.prems(4) by (auto simp: all_repeat_def idle_def)
        from tick_ids [OF Cons.prems(3) this] show ?thesis using True id(2) Cons.prems(5) by simp
      next
        case False
        then show ?thesis using other_ids [of ?u o' x] Cons.prems(1,5) by simp
      qed
      then show ?case using Cons.IH [OF _ rm(2) wheel_step_spec(1) [OF Cons.prems(3) rm(1)] id(1)] Cons.prems(1) by simp
    qed simp
    moreover have "ids_of ?s0 ?u = []" by (simp add: new_timer_thread_def Let_def ids_of_def)
    ultimately show ?thesis using assms(3) rb new_wheel_ok by (simp add: s1_def)
  qed
  then have one: "length (ids_of (doAdd op s1) ?u) = 1" by (simp add: doAdd_put ids_of_put op_item_def)
  have room: "unat (tt_nextInternalId s1) + 1 < 2 ^ 64" "unat (to_intervalMs op) + 1000 \<le> 2 ^ 64" using ra by simp_all
  note add = add_spec [OF s1(1) room]
  have "ti_repeat (op_item op s1)" using assms(5) by (simp add: op_item_def)
  from run_ids [OF add(1) _ add(6) [OF s1(2)] this] have "length (ids_of s ?u) = 1 + length (fires_of ?u (tt_sent s))"
    using ra assms(3) one add(2) s1(3) by (simp add: assms(1) s1_def [symmetric])
  then show ?thesis using fires_scheduled [OF assms(1-4)] assms(5) by simp
qed

text \<open>
  C40. A timer whose interval is exactly one turn of the wheel (12.8 seconds with the default of 256 slots and 50 milliseconds) fires
  only after two turns.
\<close>

theorem whole_turn_fires_late:
  assumes "1 \<le> tickMs" and "tickMs \<le> 1000" and "1 < n" and "to_intervalMs op = tickMs * ucast n" and "\<not> to_repeat op"
    and "roomy (WAdd op # replicate k WTick) (new_timer_thread tickMs n)"
  shows "fires_of (to_timerId op) (tt_sent (wheel_run (WAdd op # replicate k WTick) (new_timer_thread tickMs n))) = [] \<longleftrightarrow> k < 2 * unat n"
proof -
  let ?s0 = "new_timer_thread tickMs n" and ?N = "unat n" and ?t = "unat tickMs"
  have t: "1 \<le> ?t" "?t \<le> 1000" and N: "1 < ?N" "?N < 2 ^ 32" using assms(1-3) unat_u32_bound [of n] by (simp_all add: word_le_nat_alt word_less_nat_alt)
  have s0: "unat (tt_tick ?s0) = ?t" "unat (tt_wheelSlots ?s0) = ?N"
    using assms(1-3) by (simp_all add: new_timer_thread_def Let_def kMinTickMs_def kMaxTickMs_def max_def min_def)
  have "?t * ?N \<le> 1000 * 2 ^ 32" using t N by (intro mult_mono) simp_all
  then have iv: "unat (to_intervalMs op) = ?t * ?N"
  proof -
    have "unat (ucast n :: u64) = ?N" using N by (simp add: unsigned_ucast_eq take_bit_nat_eq_self)
    then show ?thesis using assms(4) \<open>?t * ?N \<le> 1000 * 2 ^ 32\<close> by (simp add: unat_word_ariths)
  qed
  have m: "max (?t * ?N) ?t = ?t * ?N" using N by (simp add: max_def)
  have "(?t * ?N + ?t - 1) div ?t = ?N" using t(1) by (intro div_nat_eqI) (simp_all add: algebra_simps)
  then have d: "due_ticks ?s0 (to_intervalMs op) = 2 * ?N" by (simp add: due_ticks_def s0 iv m Let_def)
  have k: "ticks (replicate k WTick) = k" by (induction k) simp_all
  have "\<forall>o' \<in> set ([] @ replicate k WTick). to_timerId op \<notin> op_user o'" by (simp add: op_user_def)
  from fires_scheduled [OF refl _ this refl, of tickMs n] assms(5,6) d k
  have "fires_of (to_timerId op) (tt_sent (wheel_run (WAdd op # replicate k WTick) ?s0))
    = replicate (min 1 (k div (2 * ?N))) (ucast (to_ownerWorkerId op), fire_msg (op_item op (wheel_run (WAdd op # replicate k WTick) ?s0)))"
    by simp
  then show ?thesis using N by (auto simp: min_def div_eq_0_iff)
qed

section \<open>Iterations of the thread\<close>

text \<open>The state without the queue of commands and the two counts only the thread's loop uses.\<close>

definition core :: "TimerThread \<Rightarrow> TimerThread" where
  "core s = s\<lparr>tt_queue := [], tt_skipped := 0, tt_liveCount := 0\<rparr>"

lemma core_insert: "wheel_insert it d (core s) = core (wheel_insert it d s)"
  by (simp add: wheel_insert_def core_def Let_def)

lemma core_fire: "fire it (core s) = core (fire it s)"
  by (auto simp: fire_def wheel_insert_def core_def ids_of_def Let_def split: option.splits)

lemma core_fold_fire: "fold fire due (core s) = core (fold fire due s)"
  by (induction due arbitrary: s) (simp_all add: core_fire)

lemma core_tick: "wheel_tick (core s) = core (wheel_tick s)"
proof -
  obtain due s1 where c: "collected s = (due, s1)" by fastforce
  have "collected (core s) = (due, core s1)"
    using c by (auto simp: collected_def moved_def wheel_collect_def core_def Let_def split: prod.splits if_splits)
  then show ?thesis using c by (simp add: wheel_tick_eq core_fold_fire)
qed

lemma core_step: "wheel_step op (core s) = core (wheel_step op s)"
proof (cases op)
  case (WAdd a)
  then show ?thesis by (simp add: doAdd_def wheel_insert_def core_def ids_of_def Let_def)
next
  case (WCancel u)
  then show ?thesis by (simp add: doCancel_def core_def split: option.splits)
qed (simp add: core_tick)

lemma core_run: "wheel_run ops (core s) = core (wheel_run ops s)"
  by (induction ops arbitrary: s) (simp_all add: core_step)

lemma core_core [simp]: "core (s\<lparr>tt_queue := q\<rparr>) = core s" "core (s\<lparr>tt_skipped := k\<rparr>) = core s" "core (s\<lparr>tt_liveCount := n\<rparr>) = core s"
  by (simp_all add: core_def)

lemma core_run_cong: "core s = core s' \<Longrightarrow> core (wheel_run ops s) = core (wheel_run ops s')"
  by (metis core_run)

definition command :: "TimerOp \<Rightarrow> wheel_op" where
  "command op = (case to_kind op of ADD \<Rightarrow> WAdd op | CANCEL \<Rightarrow> WCancel (to_timerId op))"

lemma run_op_command: "run_op op s = wheel_step (command op) s"
  by (simp add: run_op_def command_def split: TimerKind.splits)

lemma step_queue [simp]: "tt_queue (wheel_step (command op) s) = tt_queue s" "tt_skipped (wheel_step (command op) s) = tt_skipped s"
  "tt_advanced (wheel_step (command op) s) = tt_advanced s" "tt_tick (wheel_step (command op) s) = tt_tick s"
  "tt_stop (wheel_step (command op) s) = tt_stop s"
  by (simp_all add: command_def doAdd_def wheel_insert_def doCancel_def Let_def split: TimerKind.splits option.splits)

lemma processOps_run:
  "\<exists>cmds. tt_queue s = cmds @ tt_queue (processOps_loop k late n s) \<and> length cmds \<le> k
     \<and> core (processOps_loop k late n s) = core (wheel_run (map command cmds) s)
     \<and> tt_skipped (processOps_loop k late n s) = tt_skipped s \<and> tt_advanced (processOps_loop k late n s) = tt_advanced s
     \<and> tt_tick (processOps_loop k late n s) = tt_tick s"
proof (induction k arbitrary: n s)
  case (Suc k)
  show ?case
  proof (cases "tt_queue s")
    case Nil
    then show ?thesis by (intro exI [of _ "[]"]) simp
  next
    case (Cons op q)
    let ?s = "wheel_step (command op) (s\<lparr>tt_queue := q\<rparr>)"
    have q: "tt_queue ?s = q" "tt_skipped ?s = tt_skipped s" "tt_advanced ?s = tt_advanced s" "tt_tick ?s = tt_tick s" by simp_all
    have c: "core ?s = core (wheel_step (command op) s)" by (metis core_core(1) core_step)
    show ?thesis
    proof (cases "late (Suc n)")
      case True
      then show ?thesis using Cons q c by (intro exI [of _ "[op]"]) (simp add: run_op_command)
    next
      case False
      obtain cmds where "tt_queue ?s = cmds @ tt_queue (processOps_loop k late (Suc n) ?s)" "length cmds \<le> k"
        "core (processOps_loop k late (Suc n) ?s) = core (wheel_run (map command cmds) ?s)"
        "tt_skipped (processOps_loop k late (Suc n) ?s) = tt_skipped ?s" "tt_advanced (processOps_loop k late (Suc n) ?s) = tt_advanced ?s"
        "tt_tick (processOps_loop k late (Suc n) ?s) = tt_tick ?s"
        using Suc.IH [of ?s "Suc n"] by blast
      moreover have "core (wheel_run (map command cmds) ?s) = core (wheel_run (map command (op # cmds)) s)"
        using core_run_cong [OF c] by simp
      ultimately show ?thesis using Cons q False by (intro exI [of _ "op # cmds"]) (simp add: run_op_command)
    qed
  qed
qed simp

lemma tick_fields: "tt_queue (wheel_tick s) = tt_queue s" "tt_skipped (wheel_tick s) = tt_skipped s" "tt_advanced (wheel_tick s) = tt_advanced s + 1"
  "tt_tick (wheel_tick s) = tt_tick s"
proof -
  have f: "tt_queue (fold fire due x) = tt_queue x \<and> tt_skipped (fold fire due x) = tt_skipped x \<and> tt_advanced (fold fire due x) = tt_advanced x
    \<and> tt_tick (fold fire due x) = tt_tick x" for due x
    by (induction due arbitrary: x) simp_all
  show "tt_queue (wheel_tick s) = tt_queue s" "tt_skipped (wheel_tick s) = tt_skipped s" "tt_advanced (wheel_tick s) = tt_advanced s + 1"
    "tt_tick (wheel_tick s) = tt_tick s"
    using f by (auto simp: wheel_tick_def wheel_collect_def Let_def split: prod.splits)
qed

lemma advance_loop_run:
  "\<exists>m \<le> k. core (advance_loop k stopped i s) = core (wheel_run (replicate m WTick) s) \<and> tt_queue (advance_loop k stopped i s) = tt_queue s
     \<and> tt_skipped (advance_loop k stopped i s) = tt_skipped s \<and> tt_advanced (advance_loop k stopped i s) = tt_advanced s + int m
     \<and> tt_tick (advance_loop k stopped i s) = tt_tick s"
proof (induction k arbitrary: i s)
  case (Suc k)
  show ?case
  proof (cases "stopped i")
    case True
    then show ?thesis by (intro exI [of _ 0]) simp
  next
    case False
    obtain m where "m \<le> k" "core (advance_loop k stopped (Suc i) (wheel_tick s)) = core (wheel_run (replicate m WTick) (wheel_tick s))"
      "tt_queue (advance_loop k stopped (Suc i) (wheel_tick s)) = tt_queue (wheel_tick s)"
      "tt_skipped (advance_loop k stopped (Suc i) (wheel_tick s)) = tt_skipped (wheel_tick s)"
      "tt_advanced (advance_loop k stopped (Suc i) (wheel_tick s)) = tt_advanced (wheel_tick s) + int m"
      "tt_tick (advance_loop k stopped (Suc i) (wheel_tick s)) = tt_tick (wheel_tick s)"
      using Suc.IH [of "Suc i" "wheel_tick s"] by blast
    then show ?thesis using False tick_fields [of s] by (intro exI [of _ "Suc m"]) simp
  qed
qed simp

lemma advance_wheel_run:
  defines "E e s \<equiv> e div 1000000 div uint (tt_tick s)"
  shows "\<exists>m \<le> 5. core (advance_wheel e stopped s) = core (wheel_run (replicate m WTick) s) \<and> tt_queue (advance_wheel e stopped s) = tt_queue s
     \<and> tt_advanced (advance_wheel e stopped s) = tt_advanced s + int m \<and> tt_tick (advance_wheel e stopped s) = tt_tick s
     \<and> tt_skipped s \<le> tt_skipped (advance_wheel e stopped s)
     \<and> tt_advanced (advance_wheel e stopped s) + tt_skipped (advance_wheel e stopped s) \<le> max (tt_advanced s + tt_skipped s) (E e s)"
proof -
  define a where "a = max 0 (E e s - tt_skipped s - tt_advanced s)"
  define s1 where "s1 = (if a > 5 then s\<lparr>tt_skipped := tt_skipped s + (a - 5)\<rparr> else s)"
  have eq: "advance_wheel e stopped s = (advance_loop (nat (min a 5)) stopped 0 s1)\<lparr>tt_liveCount := length (tt_live (advance_loop (nat (min a 5)) stopped 0 s1))\<rparr>"
    by (simp add: advance_wheel_def kMaxCatchupTicks_def Let_def E_def a_def s1_def)
  obtain m where m: "m \<le> nat (min a 5)" "core (advance_loop (nat (min a 5)) stopped 0 s1) = core (wheel_run (replicate m WTick) s1)"
    "tt_queue (advance_loop (nat (min a 5)) stopped 0 s1) = tt_queue s1" "tt_skipped (advance_loop (nat (min a 5)) stopped 0 s1) = tt_skipped s1"
    "tt_advanced (advance_loop (nat (min a 5)) stopped 0 s1) = tt_advanced s1 + int m" "tt_tick (advance_loop (nat (min a 5)) stopped 0 s1) = tt_tick s1"
    using advance_loop_run by blast
  have c: "core s1 = core s" by (simp add: s1_def)
  have "core (advance_wheel e stopped s) = core (advance_loop (nat (min a 5)) stopped 0 s1)" unfolding eq by (rule core_core(3))
  then have "core (advance_wheel e stopped s) = core (wheel_run (replicate m WTick) s)" using m(2) core_run_cong [OF c] by metis
  moreover have "tt_queue s1 = tt_queue s" "tt_advanced s1 = tt_advanced s" "tt_tick s1 = tt_tick s" "tt_skipped s1 = tt_skipped s + max 0 (a - 5)"
    by (simp_all add: s1_def)
  moreover have "int m \<le> min a 5" using m(1) by (simp add: a_def le_nat_iff)
  moreover have "m \<le> 5" using m(1) by simp
  moreover have "tt_advanced (advance_wheel e stopped s) = tt_advanced s1 + int m" "tt_skipped (advance_wheel e stopped s) = tt_skipped s1"
    "tt_queue (advance_wheel e stopped s) = tt_queue s1" "tt_tick (advance_wheel e stopped s) = tt_tick s1"
    using m by (simp_all add: eq)
  moreover have "tt_advanced s + int m + (tt_skipped s + max 0 (a - 5)) \<le> max (tt_advanced s + tt_skipped s) (E e s)" if "int m \<le> min a 5"
    using that unfolding a_def by linarith
  ultimately show ?thesis by (intro exI [of _ m]) simp
qed

text \<open>
  An iteration of the thread is a run of the wheel: it takes some of the waiting commands, in their order and at most 1024, carries them out, and then
  advances the wheel by at most five ticks. What holds of all runs of the wheel holds of the thread.
\<close>

theorem iteration_is_wheel_run:
  "\<exists>cmds m. tt_queue s = cmds @ tt_queue (run_once late e stopped s) \<and> length cmds \<le> 1024 \<and> m \<le> 5
     \<and> core (run_once late e stopped s) = core (wheel_run (map command cmds @ replicate m WTick) s)"
proof -
  let ?p = "processOps late s"
  obtain cmds where c: "tt_queue s = cmds @ tt_queue ?p" "length cmds \<le> 1024" "core ?p = core (wheel_run (map command cmds) s)"
    using processOps_run [of s kMaxCommandsPerTick late 0] unfolding processOps_def kMaxCommandsPerTick_def by blast
  show ?thesis
  proof (cases "tt_stop ?p")
    case True
    then show ?thesis using c by (intro exI [of _ cmds] exI [of _ 0]) (simp add: run_once_def Let_def)
  next
    case False
    obtain m where m: "m \<le> 5" "core (advance_wheel e stopped ?p) = core (wheel_run (replicate m WTick) ?p)"
      "tt_queue (advance_wheel e stopped ?p) = tt_queue ?p" using advance_wheel_run by blast
    have "core (wheel_run (replicate m WTick) ?p) = core (wheel_run (map command cmds @ replicate m WTick) s)"
      using core_run_cong [OF c(3)] by simp
    then show ?thesis using c m False by (intro exI [of _ cmds] exI [of _ m]) (simp add: run_once_def Let_def)
  qed
qed

definition run_iterations :: "((nat \<Rightarrow> bool) \<times> int \<times> (nat \<Rightarrow> bool)) list \<Rightarrow> TimerThread \<Rightarrow> TimerThread" where
  "run_iterations its s = fold (\<lambda>(late, e, stopped). run_once late e stopped) its s"

lemma run_once_clock:
  "tt_tick (run_once late e stopped s) = tt_tick s \<and> tt_skipped s \<le> tt_skipped (run_once late e stopped s)
     \<and> tt_advanced (run_once late e stopped s) + tt_skipped (run_once late e stopped s)
         \<le> max (tt_advanced s + tt_skipped s) (e div 1000000 div uint (tt_tick s))"
proof -
  have p: "tt_tick (processOps late s) = tt_tick s" "tt_skipped (processOps late s) = tt_skipped s" "tt_advanced (processOps late s) = tt_advanced s"
    using processOps_run [of s kMaxCommandsPerTick late 0] unfolding processOps_def by auto
  show ?thesis using advance_wheel_run [of e stopped "processOps late s"] p by (auto simp: run_once_def Let_def)
qed

lemma run_iterations_clock:
  "tt_advanced s + tt_skipped s \<le> E \<Longrightarrow> \<forall>(l, e, st) \<in> set its. e div 1000000 div uint (tt_tick s) \<le> E
     \<Longrightarrow> tt_tick (run_iterations its s) = tt_tick s \<and> tt_skipped s \<le> tt_skipped (run_iterations its s)
       \<and> tt_advanced (run_iterations its s) + tt_skipped (run_iterations its s) \<le> E"
proof (induction its arbitrary: s)
  case (Cons it its)
  obtain l e st where it: "it = (l, e, st)" by (cases it) auto
  note c = run_once_clock [of l e st s]
  have "tt_advanced (run_once l e st s) + tt_skipped (run_once l e st s) \<le> E" using c Cons.prems it by fastforce
  from Cons.IH [OF this] Cons.prems(2) c it show ?case by (fastforce simp: run_iterations_def)
qed (simp add: run_iterations_def)

text \<open>
  C39. The wheel is never ahead of the clock, so no timer fires early; but ticks that were skipped in one iteration, because the thread was more than
  five ticks behind, are never made up: from then on the wheel stays behind the clock by them, however often the thread runs.
\<close>

theorem skipped_ticks_are_never_made_up:
  assumes "s1 = run_iterations its1 (snd (timer_start True (new_timer_thread tickMs n)))" and "s2 = run_iterations its2 s1"
    and "\<forall>(late, e, stopped) \<in> set (its1 @ its2). e \<le> now" and "0 \<le> now"
  shows "0 \<le> tt_skipped s1 \<and> (tt_advanced s2 + tt_skipped s1) * uint (tt_tick s2) * 1000000 \<le> now"
proof -
  let ?s0 = "snd (timer_start True (new_timer_thread tickMs n))"
  define t where "t = uint (tt_tick ?s0)"
  have "1 \<le> max 1 (min 1000 tickMs)" by simp
  then have t: "0 < t" by (simp add: t_def timer_start_def new_timer_thread_def wheel_clearAll_def kMinTickMs_def kMaxTickMs_def Let_def word_le_def)
  let ?E = "now div 1000000 div t"
  have s0: "tt_advanced ?s0 = 0" "tt_skipped ?s0 = 0" by (simp_all add: timer_start_def new_timer_thread_def wheel_clearAll_def Let_def)
  have le: "e div 1000000 div t \<le> ?E" if "e \<le> now" for e using that t by (intro zdiv_mono1) simp_all
  have bound: "e div 1000000 div t \<le> ?E" if "(l, e, st) \<in> set its1 \<union> set its2" for l e st
    using bspec [OF assms(3), of "(l, e, st)"] that by (intro le) simp
  have E0: "0 \<le> ?E" using assms(4) t by (simp add: pos_imp_zdiv_nonneg_iff)
  have c1: "tt_tick s1 = tt_tick ?s0 \<and> tt_skipped ?s0 \<le> tt_skipped s1 \<and> tt_advanced s1 + tt_skipped s1 \<le> ?E"
    unfolding assms(1) using s0 E0 bound by (intro run_iterations_clock) (auto simp: t_def)
  have c2: "tt_tick s2 = tt_tick s1 \<and> tt_skipped s1 \<le> tt_skipped s2 \<and> tt_advanced s2 + tt_skipped s2 \<le> ?E"
    unfolding assms(2) using c1 bound by (intro run_iterations_clock) (auto simp: t_def)
  have "(tt_advanced s2 + tt_skipped s1) * t \<le> ?E * t" using c2 t by (intro mult_right_mono) simp_all
  also have "\<dots> \<le> now div 1000000" using pos_mod_sign [OF t, of "now div 1000000"] div_mult_mod_eq [of "now div 1000000" t] by linarith
  finally have "(tt_advanced s2 + tt_skipped s1) * t * 1000000 \<le> now div 1000000 * 1000000" by simp
  also have "\<dots> \<le> now" by simp
  finally show ?thesis using c1 c2 s0 by (simp add: t_def)
qed

section \<open>The properties on a run\<close>

definition demo_timer :: "u64 \<Rightarrow> u64 \<Rightarrow> bool \<Rightarrow> TimerOp" where
  "demo_timer u interval rep = (cancel_op u)\<lparr>to_kind := ADD, to_ownerWorkerId := 1, to_intervalMs := interval, to_repeat := rep\<rparr>"

text \<open>A stronger form of \<open>roomy\<close> that is quick to evaluate.\<close>

fun modest :: "wheel_op list \<Rightarrow> TimerThread \<Rightarrow> bool" where
  "modest [] s = True"
| "modest (op # ops) s \<longleftrightarrow> tt_nextInternalId s < 0xFFFF \<and> length (concat (tt_slots s)) < 100
     \<and> (case op of WAdd a \<Rightarrow> to_intervalMs a < 0xFFFF | _ \<Rightarrow> True) \<and> modest ops (wheel_step op s)"

lemma modest_roomy: "modest ops s \<Longrightarrow> roomy ops s"
  by (induction ops arbitrary: s) (auto simp: word_less_nat_alt split: wheel_op.splits)

definition demo_after :: "wheel_op list" where
  "demo_after = [WTick, WAdd (demo_timer 8 50 True), WTick, WCancel 8, WTick, WTick, WTick]"

lemma timer_fires_on_schedule_witness:
  "length (fires_of 7 (tt_sent (wheel_run ([WTick] @ WAdd (demo_timer 7 100 True) # demo_after) (new_timer_thread 50 4)))) = 2"
proof -
  have r: "roomy ([WTick] @ WAdd (demo_timer 7 100 True) # demo_after) (new_timer_thread 50 4)" by (rule modest_roomy, code_simp)
  have u: "\<forall>o' \<in> set ([WTick] @ demo_after). to_timerId (demo_timer 7 100 True) \<notin> op_user o'"
    by (simp add: demo_after_def demo_timer_def cancel_op_def op_user_def)
  have d: "ticks demo_after div due_ticks (new_timer_thread 50 4) (to_intervalMs (demo_timer 7 100 True)) = 2" by code_simp
  have op: "to_timerId (demo_timer 7 100 True) = 7" "to_repeat (demo_timer 7 100 True)" by (simp_all add: demo_timer_def cancel_op_def)
  from timer_fires_on_schedule [OF refl r u refl] show ?thesis unfolding op(1) d using op(2) by simp
qed

lemma cancelled_timer_is_silent_witness:
  "fires_of 7 (tt_sent (wheel_run ([WAdd (demo_timer 7 100 True), WTick, WTick] @ WCancel 7 # demo_after) (new_timer_thread 50 4)))
    = fires_of 7 (tt_sent (wheel_run [WAdd (demo_timer 7 100 True), WTick, WTick] (new_timer_thread 50 4)))"
proof (rule cancelled_timer_is_silent)
  show "roomy ([WAdd (demo_timer 7 100 True), WTick, WTick] @ WCancel 7 # demo_after) (new_timer_thread 50 4)" by (rule modest_roomy, code_simp)
  show "\<forall>a. WAdd a \<in> set demo_after \<longrightarrow> to_timerId a \<noteq> 7" by (simp add: demo_after_def demo_timer_def cancel_op_def)
qed

lemma repeating_timer_leaks_witness:
  "length (ids_of (wheel_run ([WTick] @ WAdd (demo_timer 7 100 True) # demo_after) (new_timer_thread 50 4)) 7) = 3"
proof -
  have r: "roomy ([WTick] @ WAdd (demo_timer 7 100 True) # demo_after) (new_timer_thread 50 4)" by (rule modest_roomy, code_simp)
  have u: "\<forall>o' \<in> set ([WTick] @ demo_after). to_timerId (demo_timer 7 100 True) \<notin> op_user o'"
    by (simp add: demo_after_def demo_timer_def cancel_op_def op_user_def)
  have d: "ticks demo_after div due_ticks (new_timer_thread 50 4) (to_intervalMs (demo_timer 7 100 True)) = 2" by code_simp
  have op: "to_timerId (demo_timer 7 100 True) = 7" "to_repeat (demo_timer 7 100 True)" by (simp_all add: demo_timer_def cancel_op_def)
  from repeating_timer_leaks [OF refl r u refl op(2)] show ?thesis unfolding op(1) d by simp
qed

lemma whole_turn_fires_late_witness:
  "fires_of 7 (tt_sent (wheel_run (WAdd (demo_timer 7 200 False) # replicate 5 WTick) (new_timer_thread 50 4))) = []"
proof -
  have r: "roomy (WAdd (demo_timer 7 200 False) # replicate 5 WTick) (new_timer_thread 50 4)" by (rule modest_roomy, code_simp)
  have op: "to_timerId (demo_timer 7 200 False) = 7" "\<not> to_repeat (demo_timer 7 200 False)" "to_intervalMs (demo_timer 7 200 False) = 50 * ucast (4 :: u32)"
    by (simp_all add: demo_timer_def cancel_op_def)
  from whole_turn_fires_late [OF _ _ _ op(3,2) r] show ?thesis unfolding op(1) by simp
qed

lemma skipped_ticks_are_never_made_up_witness:
  "let it = (\<lambda>e. (\<lambda>_. False, e, \<lambda>_. False)); s0 = snd (timer_start True (new_timer_thread 50 4));
     s1 = run_iterations [it 1000000000] s0; s2 = run_iterations [it 2000000000, it 2000000000] s1
   in tt_skipped s1 = 15 \<and> (tt_advanced s2 + tt_skipped s1) * uint (tt_tick s2) * 1000000 \<le> 2000000000"
proof -
  let ?it = "\<lambda>e. ((\<lambda>_. False) :: nat \<Rightarrow> bool, e :: int, (\<lambda>_. False) :: nat \<Rightarrow> bool)" and ?s0 = "snd (timer_start True (new_timer_thread 50 4))"
  have "\<forall>(late, e, stopped) \<in> set ([?it 1000000000] @ [?it 2000000000, ?it 2000000000]). e \<le> 2000000000" by simp
  from skipped_ticks_are_never_made_up [OF refl refl this, of 50 4] 
  have "(tt_advanced (run_iterations [?it 2000000000, ?it 2000000000] (run_iterations [?it 1000000000] ?s0))
      + tt_skipped (run_iterations [?it 1000000000] ?s0)) * uint (tt_tick (run_iterations [?it 2000000000, ?it 2000000000] (run_iterations [?it 1000000000] ?s0)))
      * 1000000 \<le> 2000000000" by simp
  moreover have "tt_skipped (run_iterations [?it 1000000000] ?s0) = 15" by code_simp
  ultimately show ?thesis unfolding Let_def by blast
qed

end
