(* ===== verification/Hash.thy ===== *)
theory Hash
  imports Prelude
begin

text \<open>
  Thread affinity of actors and sessions, sceneServer/src-cpp/common/hash.h. The routing rule of the
  scene server is a pure function of the id; this theory gives the contract of such a rule as a
  locale (\<open>sharding\<close>), proves what a client gets from it, and instantiates it with the two rules
  of the file. \<open>SplitMix64\<close> is shown to be injective.
\<close>

section \<open>The hash functions\<close>

definition SplitMix64 :: "u64 \<Rightarrow> u64" where
  "SplitMix64 x0 =
     (let x1 = x0 + 0x9E3779B97F4A7C15;
          x2 = (x1 XOR drop_bit 30 x1) * 0xBF58476D1CE4E5B9;
          x3 = (x2 XOR drop_bit 27 x2) * 0x94D049BB133111EB
      in x3 XOR drop_bit 31 x3)"

definition WorkerForActor :: "u64 \<Rightarrow> u64 \<Rightarrow> u32" where
  "WorkerForActor actorId numWorkers =
     (if numWorkers = 0 then 0 else ucast (SplitMix64 actorId mod numWorkers))"

definition WorkerForSession :: "u64 \<Rightarrow> u64 \<Rightarrow> u32" where
  "WorkerForSession session numWorkers =
     (if numWorkers = 0 then 0
      else ucast (SplitMix64 (session XOR 0xD1B54A32D192ED03) mod numWorkers))"

section \<open>Injectivity of the mixing function\<close>

lemma xorshift_inj:
  fixes x y :: "'a::len word"
  assumes eq: "x XOR drop_bit n x = y XOR drop_bit n y" and n: "0 < n"
  shows "x = y"
proof (rule bit_word_eqI)
  fix k assume "k < LENGTH('a)"
  show "bit x k = bit y k"
  proof (induction "LENGTH('a) - k" arbitrary: k rule: less_induct)
    case less
    have "bit (x XOR drop_bit n x) k = bit (y XOR drop_bit n y) k" using eq by simp
    then have *: "(bit x k \<noteq> bit x (n + k)) = (bit y k \<noteq> bit y (n + k))"
      by (simp add: bit_xor_iff bit_drop_bit_eq)
    show ?case
    proof (cases "n + k < LENGTH('a)")
      case True
      then have "LENGTH('a) - (n + k) < LENGTH('a) - k" using n by simp
      then have "bit x (n + k) = bit y (n + k)" by (rule less)
      with * show ?thesis by blast
    next
      case False
      then have "\<not> bit x (n + k)" "\<not> bit y (n + k)" by (auto dest: bit_imp_le_length)
      with * show ?thesis by simp
    qed
  qed
qed

lemma odd_mult_inj:
  fixes x y c d :: "'a::len word"
  assumes "x * c = y * c" and "c * d = 1"
  shows "x = y"
proof -
  have "x * (c * d) = y * (c * d)" using assms(1) by (simp add: mult.assoc [symmetric])
  with assms(2) show ?thesis by simp
qed

lemma mix_constant1_inj:
  "x * 0xBF58476D1CE4E5B9 = y * 0xBF58476D1CE4E5B9 \<Longrightarrow> x = (y :: u64)"
  by (erule odd_mult_inj [where d = "0x96DE1B173F119089"]) simp

lemma mix_constant2_inj:
  "x * 0x94D049BB133111EB = y * 0x94D049BB133111EB \<Longrightarrow> x = (y :: u64)"
  by (erule odd_mult_inj [where d = "0x319642B2D24D8EC3"]) simp

lemma SplitMix64_inj_aux:
  assumes "SplitMix64 x = SplitMix64 y"
  shows "x = y"
proof -
  let ?a = "\<lambda>x :: u64. x + 0x9E3779B97F4A7C15"
  let ?b = "\<lambda>x. (?a x XOR drop_bit 30 (?a x)) * 0xBF58476D1CE4E5B9"
  let ?c = "\<lambda>x. (?b x XOR drop_bit 27 (?b x)) * 0x94D049BB133111EB"
  from assms have "?c x XOR drop_bit 31 (?c x) = ?c y XOR drop_bit 31 (?c y)"
    by (simp add: SplitMix64_def Let_def)
  then have "?c x = ?c y" by (rule xorshift_inj) simp
  then have "?b x XOR drop_bit 27 (?b x) = ?b y XOR drop_bit 27 (?b y)" by (rule mix_constant2_inj)
  then have "?b x = ?b y" by (rule xorshift_inj) simp
  then have "?a x XOR drop_bit 30 (?a x) = ?a y XOR drop_bit 30 (?a y)" by (rule mix_constant1_inj)
  then have "?a x = ?a y" by (rule xorshift_inj) simp
  then show ?thesis by simp
qed

section \<open>The sharding contract\<close>

text \<open>
  A sharding rule maps every key to one of \<open>n\<close> queues. Its clients rely on two facts: the queue
  exists, and the choice depends on the key alone, so that a producer that pushes each message to
  the queue of its key keeps the messages of one key together and in order.
\<close>

definition queue_of :: "('k \<Rightarrow> u64 \<Rightarrow> 'w::len word) \<Rightarrow> ('m \<Rightarrow> 'k) \<Rightarrow> u64 \<Rightarrow> 'w word \<Rightarrow> 'm list \<Rightarrow> 'm list" where
  "queue_of shard key n w ms = filter (\<lambda>m. shard (key m) n = w) ms"

locale sharding =
  fixes shard :: "'k \<Rightarrow> u64 \<Rightarrow> 'w::len word"
  assumes in_range: "n \<noteq> 0 \<Longrightarrow> unat (shard k n) < unat n"
begin

lemma single: "shard k 1 = 0"
  using in_range [of 1 k] by (simp add: unat_eq_zero)

lemma same_key_in_order:
  "filter (\<lambda>m. key m = k) (queue_of shard key n (shard k n) ms) = filter (\<lambda>m. key m = k) ms"
  by (auto simp: queue_of_def intro: filter_cong)

lemma no_other_queue:
  "w \<noteq> shard k n \<Longrightarrow> filter (\<lambda>m. key m = k) (queue_of shard key n w ms) = []"
  by (auto simp: queue_of_def filter_empty_conv)

lemma delivered_once:
  assumes "n \<noteq> 0" and "m \<in> set ms"
  shows "\<exists>!w. m \<in> set (queue_of shard key n w ms)" and "unat (shard (key m) n) < unat n"
  using assms in_range by (auto simp: queue_of_def)

end

lemma unat_ucast_mod_less: "n \<noteq> 0 \<Longrightarrow> unat (ucast (x mod n :: u64) :: u32) < unat n"
proof -
  assume "n \<noteq> 0"
  then have "x mod n < n" by (simp add: word_mod_less_divisor word_gt_0)
  then have "unat (x mod n) < unat n" by (simp add: word_less_nat_alt)
  moreover have "unat (ucast (x mod n) :: u32) \<le> unat (x mod n)"
    by (simp add: unsigned_ucast_eq)
  ultimately show ?thesis by linarith
qed

interpretation actor: sharding WorkerForActor
  by unfold_locales (simp add: WorkerForActor_def unat_ucast_mod_less)

interpretation session: sharding WorkerForSession
  by unfold_locales (simp add: WorkerForSession_def unat_ucast_mod_less)

section \<open>Properties of the routing rule\<close>

text \<open>
  The mixing function is injective, hence a permutation of the 64-bit ids: no two actors
  ever share a hash value, so ids that collide on a worker do so only by the final modulus.
\<close>

theorem SplitMix64_injective: "inj SplitMix64"
  by (rule injI) (rule SplitMix64_inj_aux)

text \<open>
  Actor affinity: for a positive number of workers, all messages of one actor go to one
  existing worker queue, arrive there in the order in which they were sent, and no other
  queue receives any of them.
\<close>

theorem actor_messages_in_one_queue_in_order:
  assumes "n \<noteq> 0"
  shows "unat (WorkerForActor k n) < unat n \<and>
    filter (\<lambda>m. key m = k) (queue_of WorkerForActor key n (WorkerForActor k n) ms) = filter (\<lambda>m. key m = k) ms \<and>
    (\<forall>w. w \<noteq> WorkerForActor k n \<longrightarrow> filter (\<lambda>m. key m = k) (queue_of WorkerForActor key n w ms) = [])"
  using actor.in_range [OF assms] actor.same_key_in_order actor.no_other_queue by blast

theorem actor_messages_in_one_queue_in_order_witness:
  "unat (WorkerForActor 7 4) < 4 \<and>
    filter (\<lambda>m. fst m = 7) (queue_of WorkerForActor fst 4 (WorkerForActor 7 4) [(7, 1 :: nat), (8, 2), (7, 3)]) = [(7, 1), (7, 3)]"
  using actor_messages_in_one_queue_in_order [of 4 7 fst "[(7, 1 :: nat), (8, 2), (7, 3)]"] by simp

end
