(* ===== verification/RedisKey.thy ===== *)
theory RedisKey
  imports Hash Strings
begin

text \<open>
  The key namespace of the Redis instances a zone shares, sceneServer/src-cpp/db/redisKey.h and redisKey.cc: key
  builders, ownership, sharding and the check a command passes before it is sent. A command is the list of its
  arguments; a refused command is \<open>Inl\<close> of the text, an accepted one \<open>Inr\<close> of its shard. Of the tables
  of command names every name is kept.
\<close>

section \<open>Keys\<close>

record RedisNamespace =
  ns_zoneId :: u32
  ns_sceneId :: u32

definition HashKey :: "bytes \<Rightarrow> u64" where
  "HashKey s = SplitMix64 (foldl (\<lambda>h c. (h XOR ucast c) * 0x100000001B3) 0xCBF29CE484222325 s)"

definition ns_Valid :: "RedisNamespace \<Rightarrow> bool" where
  "ns_Valid ns \<longleftrightarrow> ns_zoneId ns \<noteq> 0"

definition ZonePrefix :: "RedisNamespace \<Rightarrow> bytes" where
  "ZonePrefix ns = ascii ''zone:'' @ to_string (unat (ns_zoneId ns)) @ ascii '':''"

definition ScenePrefix :: "RedisNamespace \<Rightarrow> bytes" where
  "ScenePrefix ns = (if ns_sceneId ns = 0 then ZonePrefix ns
     else ZonePrefix ns @ ascii ''scene:'' @ to_string (unat (ns_sceneId ns)) @ ascii '':'')"

definition ZoneKey :: "RedisNamespace \<Rightarrow> bytes \<Rightarrow> bytes" where
  "ZoneKey ns name = ZonePrefix ns @ name"

definition SceneKey :: "RedisNamespace \<Rightarrow> bytes \<Rightarrow> bytes" where
  "SceneKey ns name = ScenePrefix ns @ name"

definition PlayerKey :: "RedisNamespace \<Rightarrow> u64 \<Rightarrow> bytes \<Rightarrow> bytes" where
  "PlayerKey ns playerId name = ZonePrefix ns @ ascii ''player:'' @ to_string (unat playerId) @ ascii '':'' @ name"

definition Owns :: "RedisNamespace \<Rightarrow> bytes \<Rightarrow> bool" where
  "Owns ns key \<longleftrightarrow> ns_Valid ns \<and> (let prefix = ZonePrefix ns
     in length key \<ge> length prefix \<and> take (length prefix) key = prefix)"

definition RedisShardOf :: "bytes \<Rightarrow> nat \<Rightarrow> nat" where
  "RedisShardOf key shardCount = (if shardCount \<le> 1 then 0 else unat (HashKey key) mod shardCount)"

section \<open>Commands\<close>

datatype RedisKeyShape = kNoKey | kSingleKey | kAllArgsAreKeys | kMsetPairs | kEvalKeys

definition ToUpper :: "bytes \<Rightarrow> bytes" where
  "ToUpper s = map toupper s"

definition no_key_commands :: "string list" where
  "no_key_commands = [''PING'', ''ECHO'', ''INFO'', ''TIME'', ''DBSIZE'', ''FLUSHALL'', ''FLUSHDB'', ''SELECT'',
     ''AUTH'', ''CLIENT'', ''COMMAND'', ''CONFIG'', ''LASTSAVE'', ''SAVE'', ''BGSAVE'',
     ''ROLE'', ''WAIT'', ''RANDOMKEY'', ''UNWATCH'', ''DISCARD'', ''MULTI'', ''EXEC'',
     ''PUBLISH'', ''PUBSUB'', ''SUBSCRIBE'', ''UNSUBSCRIBE'', ''PSUBSCRIBE'', ''PUNSUBSCRIBE'']"

definition IsNoKeyCommand :: "bytes \<Rightarrow> bool" where
  "IsNoKeyCommand cmd = list_ex (\<lambda>c. cmd = ascii c) no_key_commands"

definition IsAllArgsKeysCommand :: "bytes \<Rightarrow> bool" where
  "IsAllArgsKeysCommand cmd = list_ex (\<lambda>c. cmd = ascii c)
     [''DEL'', ''UNLINK'', ''EXISTS'', ''MGET'', ''WATCH'', ''TOUCH'', ''PFCOUNT'', ''SDIFF'', ''SINTER'', ''SUNION'']"

definition IsMsetCommand :: "bytes \<Rightarrow> bool" where
  "IsMsetCommand cmd \<longleftrightarrow> cmd = ascii ''MSET'' \<or> cmd = ascii ''MSETNX''"

definition IsEvalCommand :: "bytes \<Rightarrow> bool" where
  "IsEvalCommand cmd \<longleftrightarrow> cmd = ascii ''EVAL'' \<or> cmd = ascii ''EVALSHA'' \<or> cmd = ascii ''EVAL_RO'' \<or> cmd = ascii ''EVALSHA_RO''"

definition RedisCommandKeyShape :: "bytes \<Rightarrow> RedisKeyShape" where
  "RedisCommandKeyShape command =
     (let cmd = ToUpper command
      in if IsNoKeyCommand cmd then kNoKey
         else if IsAllArgsKeysCommand cmd then kAllArgsAreKeys
         else if IsMsetCommand cmd then kMsetPairs
         else if IsEvalCommand cmd then kEvalKeys
         else kSingleKey)"

text \<open>\<open>std::strtol\<close> with base 10 on a C string: blanks, a sign, digits; the value is clamped to \<open>long\<close>.\<close>

definition strtol :: "bytes \<Rightarrow> int" where
  "strtol s =
     (let t = dropWhile isspace s;
          neg = (t \<noteq> [] \<and> hd t = 45);
          u = (if t \<noteq> [] \<and> (hd t = 45 \<or> hd t = 43) then tl t else t);
          v = int (digits_value (takeWhile isdigit u))
      in if neg then max (- v) (- 0x8000000000000000) else min v 0x7FFFFFFFFFFFFFFF)"

text \<open>A text with a quoted argument; 39 is the quote.\<close>

definition quoted :: "string \<Rightarrow> bytes \<Rightarrow> string \<Rightarrow> bytes" where
  "quoted a s b = ascii a @ 39 # s @ 39 # ascii b"

fun odd_positions :: "'a list \<Rightarrow> 'a list" where
  "odd_positions (x # y # xs) = x # odd_positions xs"
| "odd_positions _ = []"

text \<open>The switch that collects the keys.\<close>

definition command_keys :: "bytes list \<Rightarrow> bytes + bytes list" where
  "command_keys args =
     (case RedisCommandKeyShape (args ! 0) of
        kNoKey \<Rightarrow> Inr []
      | kSingleKey \<Rightarrow>
          if length args < 2 then Inl (quoted ''redis command '' (args ! 0) '' requires a key'') else Inr [args ! 1]
      | kAllArgsAreKeys \<Rightarrow>
          if length args < 2 then Inl (quoted ''redis command '' (args ! 0) '' requires at least one key'') else Inr (drop 1 args)
      | kMsetPairs \<Rightarrow>
          if length args < 3 \<or> (length args - 1) mod 2 \<noteq> 0
          then Inl (quoted ''redis command '' (args ! 0) '' requires key/value pairs'') else Inr (odd_positions (drop 1 args))
      | kEvalKeys \<Rightarrow>
          if length args < 3 then Inl (quoted ''redis command '' (args ! 0) '' requires numkeys'')
          else let numKeys = strtol (args ! 2)
          in if numKeys < 0 \<or> numKeys > int (length args - 3)
             then Inl (quoted ''redis command '' (args ! 0) '' has invalid numkeys'')
             else Inr (take (nat numKeys) (drop 3 args)))"

text \<open>The loop over the collected keys; \<open>first\<close> is the first key with its shard, once there is one.\<close>

fun check_keys :: "RedisNamespace \<Rightarrow> nat \<Rightarrow> (bytes \<times> nat) option \<Rightarrow> bytes list \<Rightarrow> bytes + nat" where
  "check_keys ns shardCount first [] = Inr (case first of None \<Rightarrow> 0 | Some (_, shard) \<Rightarrow> shard)"
| "check_keys ns shardCount first (key # keys) =
     (if key = [] then Inl (ascii ''redis key must not be empty'')
      else if \<not> Owns ns key then Inl (quoted ''redis key outside namespace: '' key '' (use db.key.zone/scene/player)'')
      else let s = RedisShardOf key shardCount
      in case first of
           None \<Rightarrow> check_keys ns shardCount (Some (key, s)) keys
         | Some (key0, shard) \<Rightarrow>
             if s \<noteq> shard then Inl (quoted ''redis multi-key command crosses shards: '' key0 '' vs '' @ 39 # key @ [39])
             else check_keys ns shardCount first keys)"

definition ValidateRedisCommand :: "bytes list \<Rightarrow> RedisNamespace \<Rightarrow> nat \<Rightarrow> bytes + nat" where
  "ValidateRedisCommand args ns shardCount =
     (if args = [] \<or> args ! 0 = [] then Inl (ascii ''empty redis command'')
      else let shardCount = (if shardCount = 0 then 1 else shardCount)
      in case command_keys args of
           Inl err \<Rightarrow> Inl err
         | Inr keys \<Rightarrow>
             if keys = [] then Inr (RedisShardOf (if length args > 1 then args ! 1 else args ! 0) shardCount)
             else if \<not> ns_Valid ns then Inl (ascii ''redis namespace not configured (zoneId == 0)'')
             else check_keys ns shardCount None keys)"

section \<open>Zones are separated\<close>

lemma Owns_iff: "Owns ns key \<longleftrightarrow> ns_Valid ns \<and> (\<exists>name. key = ZoneKey ns name)"
proof -
  have "take (length p) key = p \<and> length p \<le> length key \<longleftrightarrow> (\<exists>name. key = p @ name)" for p :: bytes
    by (metis append_eq_conv_conj append_take_drop_id le_add1 length_append)
  then show ?thesis by (auto simp: Owns_def Let_def ZoneKey_def)
qed

lemma not_isdigit_colon: "\<not> isdigit 58"
  by (simp add: isdigit_def)

lemma zone_key_zone: "ZoneKey ns a = ZoneKey ns' b \<Longrightarrow> ns_zoneId ns = ns_zoneId ns' \<and> a = b"
  using number_then_separator [OF _ not_isdigit_colon, of "unat (ns_zoneId ns)" a "unat (ns_zoneId ns')" b]
  by (auto simp: ZoneKey_def ZonePrefix_def ascii_def word_unat_eq_iff)

lemma Owns_zone: "Owns ns key \<Longrightarrow> Owns ns' key \<Longrightarrow> ns_zoneId ns = ns_zoneId ns'"
  unfolding Owns_iff using zone_key_zone by metis

lemma builders_owned:
  "ns_Valid ns \<Longrightarrow> Owns ns (ZoneKey ns name)" "ns_Valid ns \<Longrightarrow> Owns ns (SceneKey ns name)" "ns_Valid ns \<Longrightarrow> Owns ns (PlayerKey ns p name)"
  by (auto simp: Owns_iff ZoneKey_def SceneKey_def ScenePrefix_def PlayerKey_def)

lemma player_key_inject: "PlayerKey ns p a = PlayerKey ns p' b \<longleftrightarrow> p = p' \<and> a = b"
  using number_then_separator [OF _ not_isdigit_colon, of "unat p" a "unat p'" b]
  by (auto simp: PlayerKey_def ascii_def word_unat_eq_iff)

lemma RedisShardOf_bound: "RedisShardOf key n < max 1 n"
  by (simp add: RedisShardOf_def max_def)

lemma check_keys_sound:
  "check_keys ns n first keys = Inr shard \<Longrightarrow> (\<forall>key \<in> set keys. Owns ns key \<and> RedisShardOf key n = shard)
     \<and> (case first of None \<Rightarrow> keys = [] \<longrightarrow> shard = 0 | Some (_, s) \<Rightarrow> s = shard)"
proof (induction keys arbitrary: first)
  case (Cons key keys)
  show ?case
  proof (cases first)
    case None
    with Cons.IH [of "Some (key, RedisShardOf key n)"] Cons.prems show ?thesis by (simp add: Let_def split: if_splits)
  next
    case (Some f)
    obtain k0 s where f: "f = (k0, s)" by force
    with Cons.IH [of first] Cons.prems Some show ?thesis by (simp add: Let_def split: if_splits)
  qed
qed (simp split: option.splits prod.splits)


definition zone1 :: RedisNamespace where "zone1 = \<lparr>ns_zoneId = 1, ns_sceneId = 2\<rparr>"
definition zone2 :: RedisNamespace where "zone2 = \<lparr>ns_zoneId = 2, ns_sceneId = 0\<rparr>"


text \<open>
  The check does not confine a command with several keys that is missing in the table: \<open>RENAME\<close> of an own key to
  a key of another zone is accepted, because only the first argument is looked at.
\<close>

theorem rename_escapes_the_zone:
  "ValidateRedisCommand [ascii ''RENAME'', ZoneKey zone1 (ascii ''a''), ZoneKey zone2 (ascii ''b'')] zone1 1 = Inr 0
   \<and> Owns zone2 (ZoneKey zone2 (ascii ''b'')) \<and> \<not> Owns zone1 (ZoneKey zone2 (ascii ''b''))"
  by code_simp

end
