(* ===== verification/SceneMap.thy ===== *)
theory SceneMap
  imports Strings
begin

text \<open>
  The map of a scene, sceneServer/src-cpp/service/aoi/map.h and map.cc: its size, the blocked rectangles and the loader. What
  the loader reads through the file and the YAML parser is an argument: no file, the error of the parser, or the
  entries the loader asks for. A refused map is \<open>Inl\<close> of the error text. Coordinates are 32-bit words,
  read as signed numbers where the code has \<open>int32_t\<close>.
\<close>

section \<open>Maps\<close>

record BlockEntity =
  be_pos_x :: u32
  be_pos_y :: u32
  be_length :: u32
  be_width :: u32

record SceneMap =
  sm_min_x :: u32
  sm_min_y :: u32
  sm_length :: u32
  sm_width :: u32
  sm_cellSize :: u32
  sm_blocks :: "BlockEntity list"

definition empty_map :: SceneMap where
  "empty_map = \<lparr>sm_min_x = 0, sm_min_y = 0, sm_length = 0, sm_width = 0, sm_cellSize = 0, sm_blocks = []\<rparr>"

definition getCols :: "SceneMap \<Rightarrow> u32" where
  "getCols m = (if sm_cellSize m = 0 then 0
     else sm_length m div sm_cellSize m + (if sm_length m mod sm_cellSize m \<noteq> 0 then 1 else 0))"

definition getRows :: "SceneMap \<Rightarrow> u32" where
  "getRows m = (if sm_cellSize m = 0 then 0
     else sm_width m div sm_cellSize m + (if sm_width m mod sm_cellSize m \<noteq> 0 then 1 else 0))"

definition map_contains :: "SceneMap \<Rightarrow> u32 \<Rightarrow> u32 \<Rightarrow> bool" where
  "map_contains m x y \<longleftrightarrow> sint x \<ge> 0 \<and> sint y \<ge> 0 \<and> x < sm_length m \<and> y < sm_width m"

definition in_block :: "u32 \<Rightarrow> u32 \<Rightarrow> BlockEntity \<Rightarrow> bool" where
  "in_block x y block =
     (let dx = sint x * 2 - uint (be_pos_x block) * 2; dy = sint y * 2 - uint (be_pos_y block) * 2
      in dx \<ge> - uint (be_length block) \<and> dx \<le> uint (be_length block) \<and> dy \<ge> - uint (be_width block) \<and> dy \<le> uint (be_width block))"

definition DstIsBlock :: "SceneMap \<Rightarrow> u32 \<Rightarrow> u32 \<Rightarrow> bool" where
  "DstIsBlock m x y \<longleftrightarrow> \<not> map_contains m x y \<or> list_ex (in_block x y) (sm_blocks m)"

section \<open>Loading\<close>

definition Trim :: "bytes \<Rightarrow> bytes" where
  "Trim text = rev (dropWhile isspace (rev (dropWhile isspace text)))"

text \<open>\<open>std::from_chars\<close> for \<open>uint32_t\<close> over a whole text: digits only, and no larger than the type.\<close>

definition from_chars :: "bytes \<Rightarrow> u32 option" where
  "from_chars part =
     (let ds = takeWhile isdigit part
      in if ds = [] \<or> int (digits_value ds) \<ge> 2 ^ 32 \<or> ds \<noteq> part then None else Some (of_nat (digits_value ds)))"

lemma tl_dropWhile_shorter: "x \<in> set xs \<Longrightarrow> length (dropWhile P xs) - Suc 0 < length xs"
  using length_dropWhile_le [of P xs] by (cases xs) auto

function ParseTuple_loop :: "bytes \<Rightarrow> nat \<Rightarrow> u32 list \<Rightarrow> u32 list option" where
  "ParseTuple_loop text count vs =
     (let part = Trim (takeWhile (\<lambda>b. b \<noteq> 44) text); rest = dropWhile (\<lambda>b. b \<noteq> 44) text
      in case from_chars part of
           None \<Rightarrow> None
         | Some value \<Rightarrow>
             let vs = vs @ [value]
             in if length vs > count then None
                else if rest = [] then (if length vs = count then Some vs else None)
                else ParseTuple_loop (tl rest) count vs)"
  by pat_completeness auto
termination
  by (relation "measure (\<lambda>(t, count, vs). length t)") (auto intro: tl_dropWhile_shorter)

declare ParseTuple_loop.simps [simp del]

definition ParseTuple :: "bytes \<Rightarrow> nat \<Rightarrow> u32 list option" where
  "ParseTuple text count = ParseTuple_loop text count []"

record MapConfig =
  mc_map_size :: bytes
  mc_block_text :: bytes
  mc_block_area :: "bytes list"
  mc_unused :: "bytes list"

definition bad_block :: "SceneMap \<Rightarrow> u32 list \<Rightarrow> bool" where
  "bad_block m v =
     (let x2 = uint (v ! 0) * 2; y2 = uint (v ! 1) * 2
      in v ! 2 = 0 \<or> v ! 3 = 0 \<or> x2 - uint (v ! 2) < 0 \<or> y2 - uint (v ! 3) < 0
         \<or> x2 + uint (v ! 2) \<ge> uint (sm_length m) * 2 \<or> y2 + uint (v ! 3) \<ge> uint (sm_width m) * 2)"

text \<open>The loop over the blocked areas, with the names seen so far.\<close>

fun load_blocks :: "bytes list \<Rightarrow> bytes list \<Rightarrow> SceneMap \<Rightarrow> bytes + SceneMap" where
  "load_blocks [] names m = Inr m"
| "load_blocks (item # items) names m =
     (let name = Trim (takeWhile (\<lambda>b. b \<noteq> 58) item); named = (58 \<in> set item);
          text = (if named then tl (dropWhile (\<lambda>b. b \<noteq> 58) item) else item)
      in if named \<and> (name = [] \<or> name \<in> set names) then Inl (ascii ''empty or duplicate block name'')
         else case ParseTuple text 4 of
           None \<Rightarrow> Inl (ascii ''block must be centerX,centerY,length,width: '' @ item)
         | Some v \<Rightarrow>
             if bad_block m v
             then Inl (ascii ''block dimensions must be positive and its closed rectangle must lie inside map: '' @ item)
             else load_blocks items (if named then name # names else names)
               (m\<lparr>sm_blocks := sm_blocks m @ [\<lparr>be_pos_x = v ! 0, be_pos_y = v ! 1, be_length = v ! 2, be_width = v ! 3\<rparr>]\<rparr>))"

definition load_config :: "u32 \<Rightarrow> MapConfig \<Rightarrow> bytes + SceneMap" where
  "load_config cellSize c =
     (case ParseTuple (mc_map_size c) 2 of
        None \<Rightarrow> Inl (ascii ''MapConfig.map_size must be length,width'')
      | Some v \<Rightarrow>
          if v ! 0 = 0 \<or> v ! 1 = 0 \<or> v ! 0 > 0x7FFFFFFF \<or> v ! 1 > 0x7FFFFFFF
          then Inl (ascii ''map dimensions must be in [1, INT32_MAX]'')
          else let m = empty_map\<lparr>sm_length := v ! 0, sm_width := v ! 1, sm_cellSize := cellSize\<rparr>
          in if uint (getCols m) * uint (getRows m) > 0xFFFFFFFF
             then Inl (ascii ''grid cell count exceeds uint32_t cell index range'')
             else if mc_block_text c \<noteq> [] then Inl (ascii ''MapConfig.block_area must be a list'')
             else (case load_blocks (mc_block_area c) [] m of
                     Inl e \<Rightarrow> Inl e
                   | Inr m \<Rightarrow>
                       if mc_unused c \<noteq> [] then Inl (ascii ''unknown/unused map config key: '' @ hd (mc_unused c)) else Inr m))"

definition Map_Load :: "bytes \<Rightarrow> u32 \<Rightarrow> (bytes + MapConfig) option \<Rightarrow> bytes + SceneMap" where
  "Map_Load path cellSize source =
     map_sum (\<lambda>reason. path @ ascii '': '' @ reason) id
       (if cellSize = 0 \<or> cellSize > 0x7FFFFFFF then Inl (ascii ''cellSize must be in [1, INT32_MAX]'')
        else case source of
          None \<Rightarrow> Inl (ascii ''cannot open map file'')
        | Some (Inl err) \<Rightarrow> Inl err
        | Some (Inr config) \<Rightarrow> load_config cellSize config)"

section \<open>What a loaded map guarantees\<close>

definition block_ok :: "SceneMap \<Rightarrow> BlockEntity \<Rightarrow> bool" where
  "block_ok m b \<longleftrightarrow> be_length b \<noteq> 0 \<and> be_width b \<noteq> 0
     \<and> uint (be_length b) \<le> uint (be_pos_x b) * 2 \<and> uint (be_pos_x b) * 2 + uint (be_length b) < uint (sm_length m) * 2
     \<and> uint (be_width b) \<le> uint (be_pos_y b) * 2 \<and> uint (be_pos_y b) * 2 + uint (be_width b) < uint (sm_width m) * 2"

definition map_ok :: "SceneMap \<Rightarrow> bool" where
  "map_ok m \<longleftrightarrow> sm_min_x m = 0 \<and> sm_min_y m = 0 \<and> 0 < uint (sm_length m) \<and> uint (sm_length m) \<le> 0x7FFFFFFF
     \<and> 0 < uint (sm_width m) \<and> uint (sm_width m) \<le> 0x7FFFFFFF \<and> 0 < uint (sm_cellSize m) \<and> uint (sm_cellSize m) \<le> 0x7FFFFFFF
     \<and> uint (getCols m) * uint (getRows m) \<le> 0xFFFFFFFF \<and> list_all (block_ok m) (sm_blocks m)"

lemma cells_of_blocks [simp]: "getCols (m\<lparr>sm_blocks := b\<rparr>) = getCols m" "getRows (m\<lparr>sm_blocks := b\<rparr>) = getRows m"
  by (simp_all add: getCols_def getRows_def)

lemma map_sum_Inr [simp]: "map_sum f id x = Inr m \<longleftrightarrow> x = Inr m"
  by (cases x) auto

lemma load_blocks_ok: "map_ok m \<Longrightarrow> load_blocks items names m = Inr m' \<Longrightarrow> map_ok m'"
proof (induction items arbitrary: names m)
  case (Cons item items)
  from Cons.prems(2) obtain v names' where v: "\<not> bad_block m v"
    and m': "load_blocks items names' (m\<lparr>sm_blocks := sm_blocks m @
      [\<lparr>be_pos_x = v ! 0, be_pos_y = v ! 1, be_length = v ! 2, be_width = v ! 3\<rparr>]\<rparr>) = Inr m'"
    by (auto simp: Let_def split: if_splits option.splits)
  have "block_ok m \<lparr>be_pos_x = v ! 0, be_pos_y = v ! 1, be_length = v ! 2, be_width = v ! 3\<rparr>"
    using v by (auto simp: bad_block_def block_ok_def Let_def)
  then have "map_ok (m\<lparr>sm_blocks := sm_blocks m @
      [\<lparr>be_pos_x = v ! 0, be_pos_y = v ! 1, be_length = v ! 2, be_width = v ! 3\<rparr>]\<rparr>)"
    using Cons.prems(1) by (auto simp: map_ok_def block_ok_def list_all_iff)
  from Cons.IH [OF this m'] show ?case .
qed simp

lemma uint_positive: "(w :: u32) \<noteq> 0 \<Longrightarrow> 0 < uint w"
  using uint_ge_0 [of w] by (auto simp: less_le uint_0_iff)

lemma Map_Load_ok:
  assumes "Map_Load path cellSize source = Inr m"
  shows "map_ok m"
proof -
  from assms obtain c where c: "cellSize \<noteq> 0" "cellSize \<le> 0x7FFFFFFF" "load_config cellSize c = Inr m"
    by (auto simp: Map_Load_def not_less split: if_splits option.splits sum.splits)
  then obtain v where v: "v ! 0 \<noteq> 0" "v ! 1 \<noteq> 0" "v ! 0 \<le> 0x7FFFFFFF" "v ! 1 \<le> 0x7FFFFFFF"
    and m: "load_blocks (mc_block_area c) [] (empty_map\<lparr>sm_length := v ! 0, sm_width := v ! 1, sm_cellSize := cellSize\<rparr>) = Inr m"
    and n: "uint (getCols (empty_map\<lparr>sm_length := v ! 0, sm_width := v ! 1, sm_cellSize := cellSize\<rparr>))
        * uint (getRows (empty_map\<lparr>sm_length := v ! 0, sm_width := v ! 1, sm_cellSize := cellSize\<rparr>)) \<le> 0xFFFFFFFF"
    by (auto simp: load_config_def Let_def split: if_splits option.splits sum.splits)
  have "map_ok (empty_map\<lparr>sm_length := v ! 0, sm_width := v ! 1, sm_cellSize := cellSize\<rparr>)"
    using c(1,2) v n by (auto simp: map_ok_def empty_map_def uint_positive word_le_def)
  from load_blocks_ok [OF this m] show ?thesis .
qed

end
