(* ===== verification/AoiGrid.thy ===== *)
theory AoiGrid
  imports SceneMap
begin

text \<open>
  The grid of the area of interest, sceneServer/src-cpp/service/aoi/aoiGrid.h, aoiGrid.cc and the entity types of
  aoiTypes.h: cells with the entities in them and the observers that watch them. Cell indices are 32-bit words; the
  \<open>int32_t\<close> arithmetic of the code is that of 32-bit words read as signed numbers, which is what the hardware
  does where the C++ standard leaves an overflow undefined; \<open>grid_ok\<close> excludes the overflow.
\<close>

section \<open>Entities\<close>

datatype EntityKind = kPlayer | kMonster | kNpc | kDrop | kInvalidEntity

datatype AoiMsgKind = kEntry | kMove | kLeave | kInvalidMsg

record AoiEntity =
  ae_entityId :: u64
  ae_kind :: EntityKind
  ae_businessId :: u64
  ae_x :: u32
  ae_y :: u32
  ae_dir :: u32
  ae_cellIdx :: u32
  ae_entityGeneration :: u32
  ae_actorEpoch :: u32
  ae_spatialVersion :: u64
  ae_ownerWorker :: u32
  ae_ownerSeq :: u64

record AoiEvent =
  av_msgKind :: AoiMsgKind
  av_entityKind :: EntityKind
  av_eId :: u64
  av_businessId :: u64
  av_target_x :: u32
  av_target_y :: u32
  av_target_dir :: u32
  av_entityGeneration :: u32
  av_actorEpoch :: u32
  av_spatialVersion :: u64
  av_ownerThreadId :: u32
  av_ownerSeq :: u64

definition updateEntity :: "AoiEvent \<Rightarrow> u32 \<Rightarrow> AoiEntity \<Rightarrow> AoiEntity" where
  "updateEntity ev cellIdx ent = ent\<lparr>ae_entityId := av_eId ev, ae_kind := av_entityKind ev, ae_businessId := av_businessId ev,
     ae_x := av_target_x ev, ae_y := av_target_y ev, ae_dir := av_target_dir ev, ae_cellIdx := cellIdx,
     ae_actorEpoch := av_actorEpoch ev, ae_spatialVersion := av_spatialVersion ev,
     ae_entityGeneration := av_entityGeneration ev, ae_ownerWorker := av_ownerThreadId ev, ae_ownerSeq := av_ownerSeq ev\<rparr>"

section \<open>Grid\<close>

record AoiCell =
  ac_entys :: "u64 list"
  ac_watchers :: "u64 list"

record AoiGrid =
  ag_minX :: u32
  ag_minY :: u32
  ag_cols :: u32
  ag_rows :: u32
  ag_cellSize :: u32
  ag_r :: u32
  ag_cells :: "AoiCell list"

definition new_grid :: "u32 \<Rightarrow> u32 \<Rightarrow> u32 \<Rightarrow> u32 \<Rightarrow> u32 \<Rightarrow> u32 \<Rightarrow> AoiGrid" where
  "new_grid minX minY cols rows cellSize viewRadiusCells =
     \<lparr>ag_minX = minX, ag_minY = minY, ag_cols = cols, ag_rows = rows, ag_cellSize = cellSize, ag_r = viewRadiusCells,
      ag_cells = (if cols > 0 \<and> rows > 0 then replicate (unat cols * unat rows) \<lparr>ac_entys = [], ac_watchers = []\<rparr> else [])\<rparr>"

definition TryCellOf :: "AoiGrid \<Rightarrow> u32 \<Rightarrow> u32 \<Rightarrow> u32 option" where
  "TryCellOf g x y =
     (if ag_cellSize g = 0 \<or> ag_cols g = 0 \<or> ag_rows g = 0 then None
      else let x64 = uint x; y64 = uint y; minX64 = uint (ag_minX g); minY64 = uint (ag_minY g);
               spanX = uint (ag_cols g) * uint (ag_cellSize g); spanY = uint (ag_rows g) * uint (ag_cellSize g)
      in if x64 < minX64 \<or> x64 \<ge> minX64 + spanX \<or> y64 < minY64 \<or> y64 \<ge> minY64 + spanY then None
         else let col = word_of_int ((x64 - minX64) div uint (ag_cellSize g));
                  row = word_of_int ((y64 - minY64) div uint (ag_cellSize g))
              in Some (row * ag_cols g + col))"

definition clip_low :: "u32 \<Rightarrow> u32" where
  "clip_low v = (if sint v < 0 then 0 else v)"

definition clip_high :: "u32 \<Rightarrow> u32 \<Rightarrow> u32" where
  "clip_high v n = (if sint v \<ge> sint n then n - 1 else v)"

definition getWatchCellIdx :: "AoiGrid \<Rightarrow> u32 \<Rightarrow> u32 \<Rightarrow> u32 list" where
  "getWatchCellIdx g x y =
     (case TryCellOf g x y of
        None \<Rightarrow> []
      | Some idx \<Rightarrow>
          let centerCol = idx mod ag_cols g; centerRow = idx div ag_cols g;
              col0 = clip_low (centerCol - ag_r g); col1 = clip_high (centerCol + ag_r g) (ag_cols g);
              row0 = clip_low (centerRow - ag_r g); row1 = clip_high (centerRow + ag_r g) (ag_rows g)
          in concat (map (\<lambda>j. map (\<lambda>i. word_of_int j * ag_cols g + word_of_int i) [sint col0 .. sint col1]) [sint row0 .. sint row1]))"

definition signed_distance :: "u32 \<Rightarrow> u32 \<Rightarrow> u32" where
  "signed_distance a b = (if sint a > sint b then a - b else b - a)"

definition visible :: "AoiGrid \<Rightarrow> u32 \<Rightarrow> u32 \<Rightarrow> bool" where
  "visible g cellA cellB =
     (if unat cellA \<ge> length (ag_cells g) \<or> unat cellB \<ge> length (ag_cells g) then False
      else let dx = signed_distance (cellA mod ag_cols g) (cellB mod ag_cols g);
               dy = signed_distance (cellA div ag_cols g) (cellB div ag_cols g)
           in sint dx \<le> sint (ag_r g) \<and> sint dy \<le> sint (ag_r g))"

definition on_cell :: "u32 \<Rightarrow> (AoiCell \<Rightarrow> AoiCell) \<Rightarrow> AoiGrid \<Rightarrow> AoiGrid" where
  "on_cell cell f g = (if unat cell \<ge> length (ag_cells g) then g
     else g\<lparr>ag_cells := (ag_cells g)[unat cell := f (ag_cells g ! unat cell)]\<rparr>)"

definition addEntity :: "u64 \<Rightarrow> u32 \<Rightarrow> AoiGrid \<Rightarrow> AoiGrid" where
  "addEntity entityId cell = on_cell cell (\<lambda>c. c\<lparr>ac_entys := ac_entys c @ [entityId]\<rparr>)"

definition removeEntity :: "u64 \<Rightarrow> u32 \<Rightarrow> AoiGrid \<Rightarrow> AoiGrid" where
  "removeEntity entityId cell = on_cell cell (\<lambda>c. c\<lparr>ac_entys := filter (\<lambda>e. e \<noteq> entityId) (ac_entys c)\<rparr>)"

definition addWatcher :: "u64 \<Rightarrow> u32 \<Rightarrow> AoiGrid \<Rightarrow> AoiGrid" where
  "addWatcher observerId cell = on_cell cell (\<lambda>c. c\<lparr>ac_watchers := ac_watchers c @ [observerId]\<rparr>)"

definition removeWatcher :: "u64 \<Rightarrow> u32 \<Rightarrow> AoiGrid \<Rightarrow> AoiGrid" where
  "removeWatcher observerId cell = on_cell cell (\<lambda>c. c\<lparr>ac_watchers := filter (\<lambda>e. e \<noteq> observerId) (ac_watchers c)\<rparr>)"

definition cell_entities :: "AoiGrid \<Rightarrow> u32 \<Rightarrow> u64 list" where
  "cell_entities g cell = (if unat cell \<ge> length (ag_cells g) then [] else ac_entys (ag_cells g ! unat cell))"

definition cell_watchers :: "AoiGrid \<Rightarrow> u32 \<Rightarrow> u64 list" where
  "cell_watchers g cell = (if unat cell \<ge> length (ag_cells g) then [] else ac_watchers (ag_cells g ! unat cell))"

section \<open>Cells by row and column\<close>

text \<open>The counts the map loader guarantees, and a radius that keeps the signed arithmetic in range.\<close>

definition grid_ok :: "AoiGrid \<Rightarrow> bool" where
  "grid_ok g \<longleftrightarrow> uint (ag_cols g) + uint (ag_r g) < 2 ^ 31 \<and> uint (ag_rows g) + uint (ag_r g) < 2 ^ 31
     \<and> uint (ag_cols g) * uint (ag_rows g) < 2 ^ 32 \<and> length (ag_cells g) = unat (ag_cols g) * unat (ag_rows g)"

lemma sint_word_of_int_range: "- (2 ^ 31) \<le> k \<Longrightarrow> k < 2 ^ 31 \<Longrightarrow> sint (word_of_int k :: u32) = k"
  by (simp add: signed_of_int signed_take_bit_int_eq_self)

lemma sint_arith:
  fixes a b :: u32
  assumes "uint a < 2 ^ 31" "uint b < 2 ^ 31"
  shows "sint a = uint a" "sint (a - b) = uint a - uint b" "uint a + uint b < 2 ^ 31 \<Longrightarrow> sint (a + b) = uint a + uint b"
proof -
  have b: "0 \<le> uint a" "0 \<le> uint b" by simp_all
  then have r: "- (2 ^ 31) \<le> uint a" "- (2 ^ 31) \<le> uint a - uint b" "uint a - uint b < 2 ^ 31" "- (2 ^ 31) \<le> uint a + uint b"
    using assms by linarith+
  show "sint a = uint a" using sint_word_of_int_range [OF r(1) assms(1)] by simp
  show "sint (a - b) = uint a - uint b" using sint_word_of_int_range [OF r(2,3)] by simp
  show "uint a + uint b < 2 ^ 31 \<Longrightarrow> sint (a + b) = uint a + uint b" using sint_word_of_int_range [OF r(4)] by simp
qed

lemma sint_distance:
  "uint (a :: u32) < 2 ^ 31 \<Longrightarrow> uint b < 2 ^ 31 \<Longrightarrow> sint (signed_distance a b) = \<bar>uint a - uint b\<bar>"
  using sint_arith [of a b] sint_arith [of b a] by (auto simp: signed_distance_def)

lemma uint_cell_index:
  fixes c :: u32
  assumes "0 \<le> j" "0 \<le> i" "i < uint c" "j < n" "uint c * n < 2 ^ 32"
  shows "uint (word_of_int j * c + word_of_int i) = j * uint c + i"
proof -
  have "j * uint c + i < (j + 1) * uint c" using assms(3) by (simp add: algebra_simps)
  also have "\<dots> \<le> n * uint c" using assms by (intro mult_right_mono) auto
  finally have "j * uint c + i < 2 ^ 32" using assms(5) by (simp add: mult.commute)
  moreover have "0 \<le> j * uint c + i" using assms by simp
  moreover have "word_of_int j * c + word_of_int i = word_of_int (j * uint c + i)" by simp
  ultimately show ?thesis by (simp only: uint_word_of_int_eq take_bit_int_eq_self)
    (simp add: take_bit_int_eq_self)
qed

lemma cell_below:
  fixes c :: u32
  assumes "grid_ok g"
  shows "unat c < length (ag_cells g) \<longleftrightarrow> uint c < uint (ag_cols g) * uint (ag_rows g)"
proof -
  have "unat c < length (ag_cells g) \<longleftrightarrow> int (unat c) < int (unat (ag_cols g) * unat (ag_rows g))"
    using assms by (simp only: grid_ok_def of_nat_less_iff)
  then show ?thesis by simp
qed

lemma div_below: "(a :: int) < c * n \<Longrightarrow> 0 < c \<Longrightarrow> a div c < n"
proof -
  assume a: "a < c * n" "0 < c"
  have "c * (a div c) \<le> a" using mult_div_mod_eq [of c a] pos_mod_sign [OF a(2), of a] by linarith
  with a(1) have "c * (a div c) < c * n" by linarith
  with a(2) show ?thesis by (simp add: mult_less_cancel_left_pos)
qed

lemma div_below_iff: "0 < c \<Longrightarrow> (a :: int) < c * n \<longleftrightarrow> a div c < n"
proof -
  assume c: "0 < c"
  have "a < c * n" if "a div c < n"
  proof -
    have "a < c * (a div c + 1)" using mult_div_mod_eq [of c a] pos_mod_bound [OF c, of a] by (simp only: distrib_left)
    also have "\<dots> \<le> c * n" using that c by (intro mult_left_mono) auto
    finally show ?thesis .
  qed
  with c show ?thesis using div_below by blast
qed

lemma grid_small:
  assumes "grid_ok g"
  shows "uint (ag_cols g) < 2 ^ 31" "uint (ag_rows g) < 2 ^ 31" "uint (ag_r g) < 2 ^ 31"
proof -
  have "0 \<le> uint (ag_cols g)" "0 \<le> uint (ag_rows g)" "0 \<le> uint (ag_r g)" by simp_all
  then show "uint (ag_cols g) < 2 ^ 31" "uint (ag_rows g) < 2 ^ 31" "uint (ag_r g) < 2 ^ 31"
    using assms unfolding grid_ok_def by linarith+
qed

lemma visible_iff:
  assumes g: "grid_ok g" and c: "ag_cols g \<noteq> 0"
  shows "visible g a b \<longleftrightarrow> uint a < uint (ag_cols g) * uint (ag_rows g) \<and> uint b < uint (ag_cols g) * uint (ag_rows g)
    \<and> \<bar>uint a mod uint (ag_cols g) - uint b mod uint (ag_cols g)\<bar> \<le> uint (ag_r g)
    \<and> \<bar>uint a div uint (ag_cols g) - uint b div uint (ag_cols g)\<bar> \<le> uint (ag_r g)"
proof (cases "uint a < uint (ag_cols g) * uint (ag_rows g) \<and> uint b < uint (ag_cols g) * uint (ag_rows g)")
  case True
  let ?C = "uint (ag_cols g)"
  have C: "0 < ?C" using c by (rule uint_positive)
  have lim: "?C < 2 ^ 31" "uint (ag_rows g) < 2 ^ 31" "uint (ag_r g) < 2 ^ 31"
    by (rule grid_small [OF g])+
  have small: "uint (x mod ag_cols g) < 2 ^ 31" "uint (x div ag_cols g) < 2 ^ 31" if "uint x < ?C * uint (ag_rows g)" for x
    using lim div_below [OF that C] pos_mod_bound [OF C, of "uint x"] by (simp_all add: uint_mod_distrib uint_div_distrib)
  have "\<not> length (ag_cells g) \<le> unat a" "\<not> length (ag_cells g) \<le> unat b" using True cell_below [OF g] by (simp_all add: not_le)
  then show ?thesis
    using True small sint_arith(1) [OF lim(3) lim(3)]
    by (simp add: visible_def sint_distance uint_mod_distrib uint_div_distrib)
next
  case False
  then show ?thesis using cell_below [OF g] by (auto simp: visible_def not_le)
qed

lemma TryCellOf_cell:
  assumes g: "grid_ok g" and c: "TryCellOf g x y = Some c"
  shows "0 < uint (ag_cols g)" "uint c < uint (ag_cols g) * uint (ag_rows g)"
    "uint c mod uint (ag_cols g) = (uint x - uint (ag_minX g)) div uint (ag_cellSize g)"
    "uint c div uint (ag_cols g) = (uint y - uint (ag_minY g)) div uint (ag_cellSize g)"
proof -
  let ?C = "uint (ag_cols g)" and ?R = "uint (ag_rows g)" and ?S = "uint (ag_cellSize g)"
  let ?i = "(uint x - uint (ag_minX g)) div ?S" and ?j = "(uint y - uint (ag_minY g)) div ?S"
  have nz: "ag_cols g \<noteq> 0" "ag_cellSize g \<noteq> 0" and eq: "c = word_of_int ?j * ag_cols g + word_of_int ?i"
    and in_x: "0 \<le> uint x - uint (ag_minX g)" "uint x - uint (ag_minX g) < ?S * ?C"
    and in_y: "0 \<le> uint y - uint (ag_minY g)" "uint y - uint (ag_minY g) < ?S * ?R"
    using c by (auto simp: TryCellOf_def Let_def mult.commute split: if_splits)
  have S: "0 < ?S" and C: "0 < ?C" using nz by (auto intro: uint_positive)
  have i: "0 \<le> ?i" "?i < ?C" using in_x S div_below by (simp_all add: pos_imp_zdiv_nonneg_iff)
  have j: "0 \<le> ?j" "?j < ?R" using in_y S div_below by (simp_all add: pos_imp_zdiv_nonneg_iff)
  have u: "uint c = ?j * ?C + ?i" unfolding eq using g by (intro uint_cell_index [OF j(1) i j(2)]) (simp add: grid_ok_def)
  have "?j * ?C + ?i < (?j + 1) * ?C" using i(2) by (simp add: algebra_simps)
  also have "\<dots> \<le> ?R * ?C" using j(2) C by (intro mult_right_mono) auto
  finally show "uint c < ?C * ?R" by (simp add: u mult.commute)
  show "0 < ?C" by (fact C)
  show "uint c mod ?C = ?i" "uint c div ?C = ?j" using i C by (simp_all add: u)
qed

lemma watch_range:
  fixes v r n :: u32
  assumes "uint v < uint n" "uint n + uint r < 2 ^ 31"
  shows "sint (clip_low (v - r)) \<le> k \<and> k \<le> sint (clip_high (v + r) n) \<longleftrightarrow> 0 \<le> k \<and> k < uint n \<and> \<bar>uint v - k\<bar> \<le> uint r"
proof -
  have nn: "0 \<le> uint v" "0 \<le> uint n" "0 \<le> uint r" by simp_all
  then have lim: "uint v < 2 ^ 31" "uint r < 2 ^ 31" "uint n < 2 ^ 31" "uint v + uint r < 2 ^ 31" "uint (1 :: u32) < 2 ^ 31"
    using assms by (simp_all, linarith+)
  have "sint (n - 1) = uint n - 1" using sint_arith(2) [OF lim(3) lim(5)] by simp
  moreover have "sint (v - r) = uint v - uint r" "sint (v + r) = uint v + uint r" "sint n = uint n"
    using sint_arith [OF lim(1,2)] lim(4) sint_arith(1) [OF lim(3,3)] by simp_all
  ultimately show ?thesis using nn assms(1) by (auto simp: clip_low_def clip_high_def)
qed

section \<open>Watching and seeing\<close>

lemma distinct_concat_map:
  "distinct js \<Longrightarrow> (\<And>j. j \<in> set js \<Longrightarrow> distinct (f j)) \<Longrightarrow>
   (\<And>j k x. j \<in> set js \<Longrightarrow> k \<in> set js \<Longrightarrow> x \<in> set (f j) \<Longrightarrow> x \<in> set (f k) \<Longrightarrow> j = k) \<Longrightarrow> distinct (concat (map f js))"
proof (induction js)
  case (Cons a js)
  have "distinct (concat (map f js))" by (rule Cons.IH) (use Cons.prems in auto)
  moreover have "x \<notin> set (f j)" if "x \<in> set (f a)" "j \<in> set js" for x j
    using that Cons.prems(1) Cons.prems(3) [of a j x] by auto
  ultimately show ?case using Cons.prems(2) [of a] by auto
qed simp

text \<open>The cells a position watches, by row and column.\<close>

lemma getWatchCellIdx_eq:
  assumes g: "grid_ok g" and c: "TryCellOf g x y = Some c"
  obtains js cs where "getWatchCellIdx g x y = concat (map (\<lambda>j. map (\<lambda>i. word_of_int j * ag_cols g + word_of_int i) cs) js)"
    "distinct js" "distinct cs"
    "\<And>j. j \<in> set js \<longleftrightarrow> 0 \<le> j \<and> j < uint (ag_rows g) \<and> \<bar>uint c div uint (ag_cols g) - j\<bar> \<le> uint (ag_r g)"
    "\<And>i. i \<in> set cs \<longleftrightarrow> 0 \<le> i \<and> i < uint (ag_cols g) \<and> \<bar>uint c mod uint (ag_cols g) - i\<bar> \<le> uint (ag_r g)"
proof
  let ?C = "ag_cols g" and ?R = "ag_rows g" and ?r = "ag_r g"
  note cell = TryCellOf_cell [OF g c]
  have row: "uint (c div ?C) < uint ?R" and col: "uint (c mod ?C) < uint ?C"
    using div_below [OF cell(2,1)] pos_mod_bound [OF cell(1), of "uint c"] by (simp_all add: uint_div_distrib uint_mod_distrib)
  have lim: "uint ?C + uint ?r < 2 ^ 31" "uint ?R + uint ?r < 2 ^ 31" using g by (simp_all add: grid_ok_def)
  let ?js = "[sint (clip_low (c div ?C - ?r)) .. sint (clip_high (c div ?C + ?r) ?R)]"
  let ?cs = "[sint (clip_low (c mod ?C - ?r)) .. sint (clip_high (c mod ?C + ?r) ?C)]"
  show "getWatchCellIdx g x y = concat (map (\<lambda>j. map (\<lambda>i. word_of_int j * ?C + word_of_int i) ?cs) ?js)"
    by (simp add: getWatchCellIdx_def c Let_def)
  show "j \<in> set ?js \<longleftrightarrow> 0 \<le> j \<and> j < uint ?R \<and> \<bar>uint c div uint ?C - j\<bar> \<le> uint ?r" for j
    using watch_range [OF row lim(2), of j] by (simp add: uint_div_distrib)
  show "i \<in> set ?cs \<longleftrightarrow> 0 \<le> i \<and> i < uint ?C \<and> \<bar>uint c mod uint ?C - i\<bar> \<le> uint ?r" for i
    using watch_range [OF col lim(1), of i] by (simp add: uint_mod_distrib)
qed simp_all

lemma watch_visible:
  assumes g: "grid_ok g" and c: "TryCellOf g x y = Some c"
  shows "(d \<in> set (getWatchCellIdx g x y) \<longleftrightarrow> visible g c d) \<and> distinct (getWatchCellIdx g x y)"
proof -
  let ?C = "uint (ag_cols g)" and ?R = "uint (ag_rows g)" and ?r = "uint (ag_r g)"
  note cell = TryCellOf_cell [OF g c]
  have nz: "ag_cols g \<noteq> 0" using cell(1) by auto
  obtain js cs where w: "getWatchCellIdx g x y = concat (map (\<lambda>j. map (\<lambda>i. word_of_int j * ag_cols g + word_of_int i) cs) js)"
    and dist: "distinct js" "distinct cs"
    and js: "\<And>j. j \<in> set js \<longleftrightarrow> 0 \<le> j \<and> j < ?R \<and> \<bar>uint c div ?C - j\<bar> \<le> ?r"
    and cs: "\<And>i. i \<in> set cs \<longleftrightarrow> 0 \<le> i \<and> i < ?C \<and> \<bar>uint c mod ?C - i\<bar> \<le> ?r"
    by (rule getWatchCellIdx_eq [OF g c]) blast
  let ?cell = "\<lambda>j i. word_of_int j * ag_cols g + word_of_int i :: u32"
  have u: "uint (?cell j i) = j * ?C + i" if "j \<in> set js" "i \<in> set cs" for j i
    using that g js cs by (intro uint_cell_index [where n = ?R]) (auto simp: grid_ok_def)
  have rc: "uint (?cell j i) div ?C = j" "uint (?cell j i) mod ?C = i" if "j \<in> set js" "i \<in> set cs" for j i
    using that cs [of i] by (simp_all add: u)
  have "d \<in> set (getWatchCellIdx g x y) \<longleftrightarrow> uint d div ?C \<in> set js \<and> uint d mod ?C \<in> set cs"
  proof
    assume "d \<in> set (getWatchCellIdx g x y)"
    then obtain j i where "d = ?cell j i" "j \<in> set js" "i \<in> set cs" by (auto simp: w)
    with rc show "uint d div ?C \<in> set js \<and> uint d mod ?C \<in> set cs" by simp
  next
    assume a: "uint d div ?C \<in> set js \<and> uint d mod ?C \<in> set cs"
    then have "uint (?cell (uint d div ?C) (uint d mod ?C)) = uint d" by (simp add: u)
    then have "d = ?cell (uint d div ?C) (uint d mod ?C)" by (simp only: word_uint_eq_iff)
    with a show "d \<in> set (getWatchCellIdx g x y)" unfolding w by (auto simp: image_iff)
  qed
  moreover have "uint d < ?C * ?R \<longleftrightarrow> uint d div ?C < ?R"
    by (rule div_below_iff [OF cell(1)])
  ultimately have "d \<in> set (getWatchCellIdx g x y) \<longleftrightarrow> visible g c d"
    using cell(1,2) visible_iff [OF g nz, of c d] by (auto simp: js cs pos_imp_zdiv_nonneg_iff)
  moreover have "distinct (getWatchCellIdx g x y)"
    unfolding w
  proof (rule distinct_concat_map [OF dist(1)])
    show "distinct (map (?cell j) cs)" if "j \<in> set js" for j
      using dist(2) rc(2) [OF that] by (auto simp: distinct_map inj_on_def) (metis)
    show "j = k" if "j \<in> set js" "k \<in> set js" "z \<in> set (map (?cell j) cs)" "z \<in> set (map (?cell k) cs)" for j k z
      using that rc(1) by (auto) metis
  qed
  ultimately show ?thesis by blast
qed

text \<open>
  C33. Watching and seeing agree: the cells an observer at a position subscribes to are exactly the cells that are visible from
  its own cell, and no cell is subscribed to twice, at the borders and corners of the map as in its middle.
\<close>

theorem watched_cells_are_the_visible_cells:
  assumes "grid_ok g" and "TryCellOf g x y = Some c"
  shows "(d \<in> set (getWatchCellIdx g x y) \<longleftrightarrow> visible g c d) \<and> distinct (getWatchCellIdx g x y)"
  using assms by (rule watch_visible)

definition demo_grid :: AoiGrid where
  "demo_grid = new_grid 0 0 3 2 100 1"

theorem watched_cells_are_the_visible_cells_witness:
  "getWatchCellIdx demo_grid 250 0 = [1, 2, 4, 5] \<and> visible demo_grid 2 4 \<and> \<not> visible demo_grid 2 3"
proof -
  have g: "grid_ok demo_grid" by (simp add: grid_ok_def demo_grid_def new_grid_def)
  have c: "TryCellOf demo_grid 250 0 = Some 2" by code_simp
  have w: "getWatchCellIdx demo_grid 250 0 = [1, 2, 4, 5]" by code_simp
  from watched_cells_are_the_visible_cells [OF g c, of 4] watched_cells_are_the_visible_cells [OF g c, of 3] w show ?thesis by simp
qed

section \<open>The grid of a loaded map\<close>

text \<open>The grid a replica builds for a map, and the radius that keeps its arithmetic in range.\<close>

definition grid_of :: "SceneMap \<Rightarrow> u32 \<Rightarrow> AoiGrid" where
  "grid_of m viewRadiusCells = new_grid (sm_min_x m) (sm_min_y m) (getCols m) (getRows m) (sm_cellSize m) viewRadiusCells"

lemma uint_count:
  fixes len size :: u32
  assumes "size \<noteq> 0" "uint len \<le> 0x7FFFFFFF"
  shows "uint (len div size + (if len mod size \<noteq> 0 then 1 else 0)) = uint len div uint size + (if uint len mod uint size \<noteq> 0 then 1 else 0)"
proof -
  have "uint len div uint size \<le> uint len" using zdiv_mono2 [of "uint len" 1 "uint size"] uint_positive [OF assms(1)] by simp
  then have "uint len div uint size + 1 < 2 ^ 32" using assms(2) by simp
  moreover have "len mod size = 0 \<longleftrightarrow> uint len mod uint size = 0" by (simp add: word_uint_eq_iff uint_mod_distrib)
  moreover have "0 \<le> uint len div uint size" using uint_positive [OF assms(1)] by (simp add: pos_imp_zdiv_nonneg_iff)
  ultimately show ?thesis by (simp add: uint_word_ariths uint_div_distrib mod_pos_pos_trivial)
qed

lemma count_covers: "0 < s \<Longrightarrow> (l :: int) \<le> (l div s + (if l mod s \<noteq> 0 then 1 else 0)) * s"
proof -
  assume s: "0 < s"
  have "l \<le> s * (l div s) + s" "l mod s = 0 \<Longrightarrow> l \<le> s * (l div s)"
    using mult_div_mod_eq [of s l] pos_mod_bound [OF s, of l] by linarith+
  then show ?thesis by (auto simp: algebra_simps)
qed

lemma map_cells:
  assumes "map_ok m"
  shows "uint (sm_length m) \<le> uint (getCols m) * uint (sm_cellSize m)" "uint (sm_width m) \<le> uint (getRows m) * uint (sm_cellSize m)"
proof -
  have s: "sm_cellSize m \<noteq> 0" "0 < uint (sm_cellSize m)" "uint (sm_length m) \<le> 0x7FFFFFFF" "uint (sm_width m) \<le> 0x7FFFFFFF"
    using assms by (auto simp: map_ok_def)
  show "uint (sm_length m) \<le> uint (getCols m) * uint (sm_cellSize m)"
    using count_covers [OF s(2), of "uint (sm_length m)"] uint_count [OF s(1,3)] s(1) by (simp add: getCols_def)
  show "uint (sm_width m) \<le> uint (getRows m) * uint (sm_cellSize m)"
    using count_covers [OF s(2), of "uint (sm_width m)"] uint_count [OF s(1,4)] s(1) by (simp add: getRows_def)
qed

lemma grid_of_ok:
  assumes "map_ok m" "uint (getCols m) + uint r < 2 ^ 31" "uint (getRows m) + uint r < 2 ^ 31"
  shows "grid_ok (grid_of m r)"
  using assms by (auto simp: grid_ok_def grid_of_def new_grid_def map_ok_def word_gt_0)

text \<open>
  Every position of a loaded map has a cell: wherever \<open>contains\<close> accepts a position, the grid built for the map
  gives a cell index, it denotes one of the allocated cells, and the position's own cell is among the cells it watches.
\<close>

theorem loaded_map_is_covered:
  assumes "Map_Load path cellSize source = Inr m" and "map_contains m x y"
    and "uint (getCols m) + uint r < 2 ^ 31" "uint (getRows m) + uint r < 2 ^ 31"
  shows "\<exists>c. TryCellOf (grid_of m r) x y = Some c \<and> unat c < length (ag_cells (grid_of m r)) \<and> c \<in> set (getWatchCellIdx (grid_of m r) x y)"
proof -
  let ?g = "grid_of m r"
  have m: "map_ok m" using assms(1) by (rule Map_Load_ok)
  have g: "grid_ok ?g" using m assms(3,4) by (rule grid_of_ok)
  have x: "uint x < uint (sm_length m)" "uint y < uint (sm_width m)" using assms(2) by (auto simp: map_contains_def word_less_def)
  have in_grid: "uint x < uint (getCols m) * uint (sm_cellSize m)" "uint y < uint (getRows m) * uint (sm_cellSize m)"
    using x map_cells [OF m] by linarith+
  moreover have nz: "sm_cellSize m \<noteq> 0" "getCols m \<noteq> 0" "getRows m \<noteq> 0"
  proof -
    show "sm_cellSize m \<noteq> 0" using m by (auto simp: map_ok_def)
    show "getCols m \<noteq> 0" "getRows m \<noteq> 0" using in_grid by (auto simp: not_less)
  qed
  moreover have "sm_min_x m = 0" "sm_min_y m = 0" using m by (auto simp: map_ok_def)
  ultimately have "TryCellOf ?g x y \<noteq> None" by (simp add: TryCellOf_def grid_of_def new_grid_def Let_def not_le)
  then obtain c where c: "TryCellOf ?g x y = Some c" by blast
  have below: "uint c < uint (ag_cols ?g) * uint (ag_rows ?g)" using TryCellOf_cell(2) [OF g c] .
  have "visible ?g c c" using visible_iff [OF g, of c c] below nz(2) by (simp add: grid_of_def new_grid_def)
  then have "c \<in> set (getWatchCellIdx ?g x y)" using watch_visible [OF g c, of c] by blast
  with c below cell_below [OF g, of c] show ?thesis by blast
qed

definition demo_config :: MapConfig where
  "demo_config = \<lparr>mc_map_size = ascii ''250, 120'', mc_block_text = [], mc_block_area = [ascii ''block_1: 100,50,20,10''], mc_unused = []\<rparr>"

theorem loaded_map_is_covered_witness:
  "\<exists>m c. Map_Load (ascii ''m'') 100 (Some (Inr demo_config)) = Inr m \<and> TryCellOf (grid_of m 1) 249 119 = Some c
     \<and> c \<in> set (getWatchCellIdx (grid_of m 1) 249 119) \<and> DstIsBlock m 110 55 \<and> \<not> DstIsBlock m 111 55"
proof -
  have "case Map_Load (ascii ''m'') 100 (Some (Inr demo_config)) of Inl _ \<Rightarrow> False
    | Inr m \<Rightarrow> map_contains m 249 119 \<and> getCols m = 3 \<and> getRows m = 2 \<and> DstIsBlock m 110 55 \<and> \<not> DstIsBlock m 111 55"
    by code_simp
  then obtain m where m: "Map_Load (ascii ''m'') 100 (Some (Inr demo_config)) = Inr m" "map_contains m 249 119" "getCols m = 3"
    "getRows m = 2" "DstIsBlock m 110 55" "\<not> DstIsBlock m 111 55" by (auto split: sum.splits)
  have "uint (getCols m) + uint (1 :: u32) < 2 ^ 31" "uint (getRows m) + uint (1 :: u32) < 2 ^ 31" by (simp_all add: m)
  from loaded_map_is_covered [OF m(1,2) this] m show ?thesis by blast
qed

section \<open>Configuration\<close>

text \<open>
  \<open>AoiConfig\<close>, config/aoiConfig.h. The parsed YAML file is an argument: the text of a key, if the file has it, and whether
  some key has a prefix.
\<close>

record AoiConfig =
  cf_tickMs :: u32
  cf_aoiKind :: bytes
  cf_cellSize :: u32
  cf_viewRange :: u32

definition default_aoi_config :: AoiConfig where
  "default_aoi_config = \<lparr>cf_tickMs = 50, cf_aoiKind = ascii ''nineGrid'', cf_cellSize = 50, cf_viewRange = 50\<rparr>"

definition viewRadiusCells :: "AoiConfig \<Rightarrow> u32" where
  "viewRadiusCells c = (if cf_cellSize c = 0 then 0
     else cf_viewRange c div cf_cellSize c + (if cf_viewRange c mod cf_cellSize c \<noteq> 0 then 1 else 0))"

definition aoi_Validate :: "AoiConfig \<Rightarrow> bytes option" where
  "aoi_Validate c =
     (if cf_aoiKind c \<noteq> ascii ''nineGrid'' then Some (ascii ''SceneServer.aoi.aoiKind only supports nineGrid'')
      else if cf_tickMs c = 0 then Some (ascii ''SceneServer.aoi.tickMs must be > 0'')
      else if cf_cellSize c = 0 \<or> cf_cellSize c > 0x7FFFFFFF
      then Some (ascii ''SceneServer.aoi.nineGrid.cellSize must be in [1, INT32_MAX]'')
      else if cf_viewRange c > 0x7FFFFFFF then Some (ascii ''SceneServer.aoi.nineGrid.viewRange must be <= INT32_MAX'')
      else None)"

record yaml_view =
  yv_get :: "string \<Rightarrow> bytes option"
  yv_prefix :: "string \<Rightarrow> bool"

definition readUInt :: "yaml_view \<Rightarrow> string \<Rightarrow> u32 \<Rightarrow> bytes + u32" where
  "readUInt yaml key current =
     (case yv_get yaml key of
        None \<Rightarrow> Inr current
      | Some t \<Rightarrow> (case from_chars t of
            None \<Rightarrow> Inl (ascii key @ ascii '' must be an unsigned 32-bit integer, got '' @ 39 # t @ [39])
          | Some v \<Rightarrow> Inr v))"

definition aoi_Load :: "yaml_view \<Rightarrow> AoiConfig \<Rightarrow> bytes + AoiConfig" where
  "aoi_Load yaml cfg =
     (let kind = (case yv_get yaml ''SceneServer.aoi.aoiKind'' of None \<Rightarrow> cf_aoiKind cfg | Some t \<Rightarrow> t)
      in case readUInt yaml ''SceneServer.aoi.tickMs'' (cf_tickMs cfg) of Inl e \<Rightarrow> Inl e
      | Inr tick \<Rightarrow> (case readUInt yaml ''SceneServer.aoi.nineGrid.cellSize'' (cf_cellSize cfg) of Inl e \<Rightarrow> Inl e
      | Inr cell \<Rightarrow> (case readUInt yaml ''SceneServer.aoi.nineGrid.viewRange'' (cf_viewRange cfg) of Inl e \<Rightarrow> Inl e
      | Inr reach \<Rightarrow> (case readUInt yaml ''SceneServer.aoi.nineGrid.cellPerLogicThread'' 0 of Inl e \<Rightarrow> Inl e
      | Inr per \<Rightarrow>
          if per \<noteq> 0
          then Inl (ascii ''SceneServer.aoi.nineGrid.cellPerLogicThread must be 0 (full-scene replica per worker)'')
          else if yv_get yaml ''SceneServer.aoi.crossLinkedList'' \<noteq> None \<or> yv_prefix yaml ''SceneServer.aoi.crossLinkedList.''
          then Inl (ascii ''SceneServer.aoi.crossLinkedList is not supported'')
          else let c = \<lparr>cf_tickMs = tick, cf_aoiKind = kind, cf_cellSize = cell, cf_viewRange = reach\<rparr>
               in (case aoi_Validate c of Some e \<Rightarrow> Inl e | None \<Rightarrow> Inr c)))))"

definition widest_config :: AoiConfig where
  "widest_config = default_aoi_config\<lparr>cf_cellSize := 1, cf_viewRange := 0x7FFFFFFF\<rparr>"

text \<open>
  The radius the configuration check admits is too large for the signed arithmetic of the grid: with the view
  range \<open>INT32_MAX\<close> and cells of size 1 the configuration is valid, a cell sees itself, and yet a position of the second
  column watches no cell at all, because the right border wraps to a negative number.
\<close>

theorem accepted_view_range_blinds_observer:
  "aoi_Validate widest_config = None
   \<and> (let g = new_grid 0 0 2 1 (cf_cellSize widest_config) (viewRadiusCells widest_config)
      in TryCellOf g 1 0 = Some 1 \<and> visible g 1 1 \<and> getWatchCellIdx g 1 0 = [])"
  by code_simp

end
