(* ===== verification/AoiReplica.thy ===== *)
theory AoiReplica
  imports AoiGrid
begin

text \<open>
  The replica of the scene that every logic thread keeps, sceneServer/src-cpp/service/aoi/aoiReplica.h and aoiReplica.cc: the entities
  of all owners, the grid that indexes them, the tombstones of departed entities and the sequence number up to which a
  snapshot of each owner has been taken over. The set of dirty observers that the operations add to is
  passed along with the replica. The clock of the tombstones is an argument; diagnostics are left out.
\<close>

section \<open>State\<close>

datatype AoiSource = kLocal | kRemote

datatype ApplyResult = kIgnored | kApplied | kNewGeneration | kBadSource | kOutOfBounds | kInvalid | kNeedSnapshot

record Tombstone =
  tb_generation :: u32
  tb_version :: u64
  tb_ownerSeq :: u64
  tb_ownerWorker :: u32
  tb_atMs :: int

record AoiOwnerSnapshot =
  os_seq :: u64
  os_ownerWokerId :: u32
  os_ents :: "AoiEntity list"

record AoiReplica =
  ar_wId :: u32
  ar_map :: SceneMap
  ar_grid :: AoiGrid
  ar_ents :: "(u64, AoiEntity) umap"
  ar_tombstones :: "(u64, Tombstone) umap"
  ar_ownerSnapshotSeq :: "(u32, u64) umap"

type_synonym replica_state = "AoiReplica \<times> u64 set"

definition new_replica :: "u32 \<Rightarrow> AoiConfig \<Rightarrow> SceneMap \<Rightarrow> AoiReplica" where
  "new_replica selfWorkerId config m = \<lparr>ar_wId = selfWorkerId, ar_map = m, ar_grid = grid_of m (viewRadiusCells config),
     ar_ents = [], ar_tombstones = [], ar_ownerSnapshotSeq = []\<rparr>"

definition ValidEntityKind :: "EntityKind \<Rightarrow> bool" where
  "ValidEntityKind kind \<longleftrightarrow> kind = kPlayer \<or> kind = kMonster \<or> kind = kNpc \<or> kind = kDrop"

definition empty_entity :: AoiEntity where
  "empty_entity = \<lparr>ae_entityId = 0, ae_kind = kPlayer, ae_businessId = 0, ae_x = 0, ae_y = 0, ae_dir = 0, ae_cellIdx = 0,
     ae_entityGeneration = 0, ae_actorEpoch = 0, ae_spatialVersion = 0, ae_ownerWorker = 0, ae_ownerSeq = 0\<rparr>"

definition initTombstone :: "int \<Rightarrow> AoiEvent \<Rightarrow> Tombstone" where
  "initTombstone now ev = \<lparr>tb_generation = av_entityGeneration ev, tb_version = av_spatialVersion ev, tb_ownerSeq = av_ownerSeq ev,
     tb_ownerWorker = av_ownerThreadId ev, tb_atMs = now\<rparr>"

definition findById :: "AoiReplica \<Rightarrow> u64 \<Rightarrow> AoiEntity option" where
  "findById r i = map_of (ar_ents r) i"

definition replica_addWatcher :: "u64 \<Rightarrow> u32 \<Rightarrow> AoiReplica \<Rightarrow> AoiReplica" where
  "replica_addWatcher observerId cell r = r\<lparr>ar_grid := addWatcher observerId cell (ar_grid r)\<rparr>"

definition replica_removeWatcher :: "u64 \<Rightarrow> u32 \<Rightarrow> AoiReplica \<Rightarrow> AoiReplica" where
  "replica_removeWatcher observerId cell r = r\<lparr>ar_grid := removeWatcher observerId cell (ar_grid r)\<rparr>"

definition ForEachOwned :: "AoiReplica \<Rightarrow> AoiEntity list" where
  "ForEachOwned r = filter (\<lambda>e. ae_ownerWorker e = ar_wId r) (map snd (ar_ents r))"

section \<open>Queries\<close>

fun visible_in_cell :: "AoiReplica \<Rightarrow> u64 \<Rightarrow> bool \<Rightarrow> u32 \<Rightarrow> u64 list \<Rightarrow> u64 set \<times> AoiEntity list \<Rightarrow> u64 set \<times> AoiEntity list" where
  "visible_in_cell r observerId includeSelf idx [] s = s"
| "visible_in_cell r observerId includeSelf idx (eId # es) (seen, out) =
     visible_in_cell r observerId includeSelf idx es
       (if (\<not> includeSelf \<and> eId = observerId) \<or> eId \<in> seen then (seen, out)
        else (insert eId seen,
              case findById r eId of None \<Rightarrow> out | Some ent \<Rightarrow> if ae_cellIdx ent = idx then out @ [ent] else out))"

definition getVisibleEntity :: "AoiReplica \<Rightarrow> u64 \<Rightarrow> bool \<Rightarrow> AoiEntity list option" where
  "getVisibleEntity r observerId includeSelf =
     (case findById r observerId of
        None \<Rightarrow> None
      | Some ob \<Rightarrow> Some (snd (fold (\<lambda>idx. visible_in_cell r observerId includeSelf idx (cell_entities (ar_grid r) idx))
          (getWatchCellIdx (ar_grid r) (ae_x ob) (ae_y ob)) ({}, []))))"

section \<open>Events of the own thread\<close>

definition watch_all :: "u64 \<Rightarrow> u32 list \<Rightarrow> AoiGrid \<Rightarrow> AoiGrid" where
  "watch_all i cs = fold (addWatcher i) cs"

definition unwatch_all :: "u64 \<Rightarrow> u32 list \<Rightarrow> AoiGrid \<Rightarrow> AoiGrid" where
  "unwatch_all i cs = fold (removeWatcher i) cs"

definition marked :: "AoiGrid \<Rightarrow> u32 \<Rightarrow> u64 set \<Rightarrow> u64 set" where
  "marked g cell dirty = dirty \<union> set (cell_watchers g cell)"

definition put_entity :: "AoiEvent \<Rightarrow> u32 \<Rightarrow> AoiEntity \<Rightarrow> AoiReplica \<Rightarrow> AoiReplica" where
  "put_entity ev cellIdx ent r = r\<lparr>ar_ents := AList.update (av_eId ev) (updateEntity ev cellIdx ent) (ar_ents r)\<rparr>"

definition onLocalEntry :: "AoiEvent \<Rightarrow> u32 \<Rightarrow> replica_state \<Rightarrow> replica_state" where
  "onLocalEntry ev cellIdx = (\<lambda>(r, dirty).
     let (r, dirty) =
       (case findById r (av_eId ev) of
          None \<Rightarrow> (put_entity ev cellIdx empty_entity r, dirty)
        | Some ent \<Rightarrow>
            let g = removeEntity (ae_entityId ent) (ae_cellIdx ent)
                      (unwatch_all (av_eId ev) (getWatchCellIdx (ar_grid r) (ae_x ent) (ae_y ent)) (ar_grid r))
            in (put_entity ev cellIdx ent (r\<lparr>ar_grid := g\<rparr>), marked g (ae_cellIdx ent) dirty));
         g = addEntity (av_eId ev) cellIdx
               (watch_all (av_eId ev) (getWatchCellIdx (ar_grid r) (av_target_x ev) (av_target_y ev)) (ar_grid r))
     in (r\<lparr>ar_grid := g\<rparr>, marked g cellIdx dirty))"

definition onLocalMove :: "AoiEvent \<Rightarrow> u32 \<Rightarrow> replica_state \<Rightarrow> replica_state" where
  "onLocalMove ev cellIdx = (\<lambda>(r, dirty).
     case findById r (av_eId ev) of
       None \<Rightarrow> (r, dirty)
     | Some ent \<Rightarrow>
         if cellIdx \<noteq> ae_cellIdx ent
         then let g = removeEntity (av_eId ev) (ae_cellIdx ent)
                        (unwatch_all (av_eId ev) (getWatchCellIdx (ar_grid r) (ae_x ent) (ae_y ent)) (ar_grid r));
                  dirty = marked g (ae_cellIdx ent) dirty;
                  g = addEntity (av_eId ev) cellIdx
                        (watch_all (av_eId ev) (getWatchCellIdx g (av_target_x ev) (av_target_y ev)) g)
              in (put_entity ev cellIdx ent (r\<lparr>ar_grid := g\<rparr>), marked g cellIdx dirty)
         else (put_entity ev cellIdx ent r, marked (ar_grid r) cellIdx dirty))"

definition onLocalLeave :: "int \<Rightarrow> AoiEvent \<Rightarrow> replica_state \<Rightarrow> replica_state" where
  "onLocalLeave now ev = (\<lambda>(r, dirty).
     let buried = r\<lparr>ar_tombstones := AList.update (av_eId ev) (initTombstone now ev) (ar_tombstones r)\<rparr>
     in case findById r (av_eId ev) of
       None \<Rightarrow> (buried, dirty)
     | Some ent \<Rightarrow>
         let dirty = marked (ar_grid r) (ae_cellIdx ent) dirty;
             g = unwatch_all (av_eId ev) (getWatchCellIdx (ar_grid r) (ae_x ent) (ae_y ent)) (ar_grid r);
             g = removeWatcher (av_eId ev) (ae_cellIdx ent) (removeEntity (av_eId ev) (ae_cellIdx ent) g)
         in (buried\<lparr>ar_grid := g, ar_ents := AList.delete (av_eId ev) (ar_ents r)\<rparr>, dirty))"

definition processLocalAoiMsg :: "int \<Rightarrow> AoiEvent \<Rightarrow> u32 \<Rightarrow> replica_state \<Rightarrow> replica_state" where
  "processLocalAoiMsg now ev cellIdx s =
     (case av_msgKind ev of
        kEntry \<Rightarrow> onLocalEntry ev cellIdx s
      | kMove \<Rightarrow> onLocalMove ev cellIdx s
      | kLeave \<Rightarrow> onLocalLeave now ev s
      | kInvalidMsg \<Rightarrow> s)"

section \<open>Events of other threads\<close>

definition onRemoteEntry :: "AoiEvent \<Rightarrow> u32 \<Rightarrow> replica_state \<Rightarrow> replica_state" where
  "onRemoteEntry ev cellIdx = (\<lambda>(r, dirty).
     let (r, dirty) =
       (case findById r (av_eId ev) of
          None \<Rightarrow> (put_entity ev cellIdx empty_entity r, dirty)
        | Some ent \<Rightarrow>
            (put_entity ev cellIdx ent (r\<lparr>ar_grid := removeEntity (ae_entityId ent) (ae_cellIdx ent) (ar_grid r)\<rparr>),
             marked (ar_grid r) (ae_cellIdx ent) dirty));
         g = addEntity (av_eId ev) cellIdx (ar_grid r)
     in (r\<lparr>ar_grid := g\<rparr>, marked g cellIdx dirty))"

definition onRemoteMove :: "AoiEvent \<Rightarrow> u32 \<Rightarrow> replica_state \<Rightarrow> replica_state" where
  "onRemoteMove ev cellIdx = (\<lambda>(r, dirty).
     case findById r (av_eId ev) of
       None \<Rightarrow> (r, dirty)
     | Some ent \<Rightarrow>
         if cellIdx \<noteq> ae_cellIdx ent
         then let dirty = marked (ar_grid r) (ae_cellIdx ent) dirty;
                  g = addEntity (av_eId ev) cellIdx (removeEntity (ae_entityId ent) (ae_cellIdx ent) (ar_grid r))
              in (put_entity ev cellIdx ent (r\<lparr>ar_grid := g\<rparr>), marked g cellIdx dirty)
         else (put_entity ev cellIdx ent r, marked (ar_grid r) cellIdx dirty))"

definition onRemoteLeave :: "int \<Rightarrow> AoiEvent \<Rightarrow> replica_state \<Rightarrow> replica_state" where
  "onRemoteLeave now ev = (\<lambda>(r, dirty).
     let buried = r\<lparr>ar_tombstones := AList.update (av_eId ev) (initTombstone now ev) (ar_tombstones r)\<rparr>
     in case findById r (av_eId ev) of
       None \<Rightarrow> (buried, dirty)
     | Some ent \<Rightarrow>
         (buried\<lparr>ar_grid := removeEntity (av_eId ev) (ae_cellIdx ent) (ar_grid r), ar_ents := AList.delete (av_eId ev) (ar_ents r)\<rparr>,
          marked (ar_grid r) (ae_cellIdx ent) dirty))"

definition processRemoteAoiMsg :: "int \<Rightarrow> AoiEvent \<Rightarrow> u32 \<Rightarrow> replica_state \<Rightarrow> replica_state" where
  "processRemoteAoiMsg now ev cellIdx s =
     (case av_msgKind ev of
        kEntry \<Rightarrow> onRemoteEntry ev cellIdx s
      | kMove \<Rightarrow> onRemoteMove ev cellIdx s
      | kLeave \<Rightarrow> onRemoteLeave now ev s
      | kInvalidMsg \<Rightarrow> s)"

section \<open>Applying an event\<close>

text \<open>
  The checks of \<open>Apply\<close>, in their order; the cell of the target when all of them pass. The first check of
  the code, that the source is one of the two, cannot fail here.
\<close>

definition target_cell :: "AoiReplica \<Rightarrow> u32 \<Rightarrow> u32 \<Rightarrow> u32 option" where
  "target_cell r x y = (if x \<ge> sm_length (ar_map r) \<or> y \<ge> sm_width (ar_map r) then None else TryCellOf (ar_grid r) x y)"

definition stale_event :: "AoiEvent \<Rightarrow> AoiEntity \<Rightarrow> bool" where
  "stale_event ev old \<longleftrightarrow> av_entityGeneration ev < ae_entityGeneration old
     \<or> av_entityGeneration ev = ae_entityGeneration old \<and> av_spatialVersion ev \<le> ae_spatialVersion old"

definition other_identity :: "AoiEvent \<Rightarrow> AoiEntity \<Rightarrow> bool" where
  "other_identity ev old \<longleftrightarrow> av_entityGeneration ev = ae_entityGeneration old
     \<and> (av_entityKind ev \<noteq> ae_kind old \<or> av_businessId ev \<noteq> ae_businessId old)"

definition check_event :: "AoiReplica \<Rightarrow> AoiEvent \<Rightarrow> AoiSource \<Rightarrow> ApplyResult + u32" where
  "check_event r ev src =
     (let e = findById r (av_eId ev); t = map_of (ar_tombstones r) (av_eId ev)
      in if (src = kLocal) \<noteq> (av_ownerThreadId ev = ar_wId r) then Inl kBadSource
         else if av_msgKind ev = kInvalidMsg \<or> av_eId ev = 0 \<or> \<not> ValidEntityKind (av_entityKind ev) then Inl kInvalid
         else if src = kRemote \<and> (case map_of (ar_ownerSnapshotSeq r) (av_ownerThreadId ev) of
                                    None \<Rightarrow> False | Some water \<Rightarrow> av_ownerSeq ev \<le> water) then Inl kIgnored
         else if (case e of None \<Rightarrow> False | Some old \<Rightarrow> ae_ownerWorker old \<noteq> av_ownerThreadId ev)
               \<or> (case t of None \<Rightarrow> False | Some tomb \<Rightarrow> tb_ownerWorker tomb \<noteq> av_ownerThreadId ev) then Inl kBadSource
         else if (case t of None \<Rightarrow> False | Some tomb \<Rightarrow> tb_generation tomb \<ge> av_entityGeneration ev) then Inl kIgnored
         else if (case e of None \<Rightarrow> False | Some old \<Rightarrow> stale_event ev old) then Inl kIgnored
         else if (case e of None \<Rightarrow> False | Some old \<Rightarrow> other_identity ev old) then Inl kInvalid
         else case (if av_msgKind ev = kLeave then Some 0 else target_cell r (av_target_x ev) (av_target_y ev)) of
                None \<Rightarrow> Inl kOutOfBounds
              | Some cellIdx \<Rightarrow>
                  if av_msgKind ev = kMove \<and> (case e of None \<Rightarrow> True
                                                | Some old \<Rightarrow> av_entityGeneration ev \<noteq> ae_entityGeneration old)
                  then Inl kNeedSnapshot else Inr cellIdx)"

definition Apply :: "int \<Rightarrow> AoiEvent \<Rightarrow> AoiSource \<Rightarrow> replica_state \<Rightarrow> ApplyResult \<times> replica_state" where
  "Apply now ev src s =
     (case check_event (fst s) ev src of
        Inl res \<Rightarrow> (res, s)
      | Inr cellIdx \<Rightarrow> (kApplied, if src = kLocal then processLocalAoiMsg now ev cellIdx s else processRemoteAoiMsg now ev cellIdx s))"

section \<open>Snapshots of an owner\<close>

definition older_than :: "AoiOwnerSnapshot \<Rightarrow> AoiEntity \<Rightarrow> AoiEntity \<Rightarrow> bool" where
  "older_than snap old ent \<longleftrightarrow> ae_ownerSeq old \<le> os_seq snap \<and>
     (ae_entityGeneration old > ae_entityGeneration ent \<or>
      ae_entityGeneration old = ae_entityGeneration ent \<and>
        (ae_spatialVersion old > ae_spatialVersion ent \<or> ae_kind old \<noteq> ae_kind ent \<or> ae_businessId old \<noteq> ae_businessId ent))"

definition check_snapshot_entity :: "AoiReplica \<Rightarrow> AoiOwnerSnapshot \<Rightarrow> (u64, AoiEntity) umap \<Rightarrow> AoiEntity \<Rightarrow> ApplyResult + AoiEntity" where
  "check_snapshot_entity r snap incoming ent =
     (let old = findById r (ae_entityId ent); tomb = map_of (ar_tombstones r) (ae_entityId ent)
      in if ae_entityId ent = 0 \<or> \<not> ValidEntityKind (ae_kind ent) \<or> ae_ownerWorker ent \<noteq> os_ownerWokerId snap
            \<or> ae_ownerSeq ent > os_seq snap \<or> map_of incoming (ae_entityId ent) \<noteq> None then Inl kInvalid
         else case target_cell r (ae_x ent) (ae_y ent) of
           None \<Rightarrow> Inl kOutOfBounds
         | Some cellIdx \<Rightarrow>
             if (case old of None \<Rightarrow> False | Some o' \<Rightarrow> ae_ownerWorker o' \<noteq> os_ownerWokerId snap)
                \<or> (case tomb of None \<Rightarrow> False | Some t \<Rightarrow> tb_ownerWorker t \<noteq> os_ownerWokerId snap) then Inl kBadSource
             else if (case old of None \<Rightarrow> False | Some o' \<Rightarrow> older_than snap o' ent) then Inl kInvalid
             else if (case tomb of None \<Rightarrow> False
                      | Some t \<Rightarrow> tb_ownerSeq t \<le> os_seq snap \<and> tb_generation t \<ge> ae_entityGeneration ent) then Inl kInvalid
             else Inr (ent\<lparr>ae_cellIdx := cellIdx\<rparr>))"

fun check_snapshot :: "AoiReplica \<Rightarrow> AoiOwnerSnapshot \<Rightarrow> AoiEntity list \<Rightarrow> (u64, AoiEntity) umap \<Rightarrow> ApplyResult + (u64, AoiEntity) umap" where
  "check_snapshot r snap [] incoming = Inr incoming"
| "check_snapshot r snap (ent # ents) incoming =
     (case check_snapshot_entity r snap incoming ent of
        Inl res \<Rightarrow> Inl res
      | Inr normalized \<Rightarrow> check_snapshot r snap ents (AList.update (ae_entityId ent) normalized incoming))"

text \<open>The loop that drops the entities the snapshot no longer has, and the loop that takes over those it has.\<close>

fun drop_missing :: "AoiOwnerSnapshot \<Rightarrow> (u64, AoiEntity) umap \<Rightarrow> (u64, AoiEntity) umap \<Rightarrow> AoiGrid \<times> u64 set
    \<Rightarrow> (u64, AoiEntity) umap \<times> AoiGrid \<times> u64 set" where
  "drop_missing snap incoming [] (g, dirty) = ([], g, dirty)"
| "drop_missing snap incoming ((i, ent) # es) (g, dirty) =
     (if ae_ownerWorker ent = os_ownerWokerId snap \<and> ae_ownerSeq ent \<le> os_seq snap \<and> map_of incoming (ae_entityId ent) = None
      then drop_missing snap incoming es (removeEntity (ae_entityId ent) (ae_cellIdx ent) g, marked g (ae_cellIdx ent) dirty)
      else case drop_missing snap incoming es (g, dirty) of (es, s) \<Rightarrow> ((i, ent) # es, s))"

definition absorb :: "AoiReplica \<Rightarrow> AoiOwnerSnapshot \<Rightarrow> AoiEntity \<Rightarrow> (u64, AoiEntity) umap \<times> AoiGrid \<times> u64 set
    \<Rightarrow> (u64, AoiEntity) umap \<times> AoiGrid \<times> u64 set" where
  "absorb r snap ent = (\<lambda>(ents, g, dirty).
     let old = map_of ents (ae_entityId ent); tomb = map_of (ar_tombstones r) (ae_entityId ent)
     in if (case old of None \<Rightarrow> False | Some o' \<Rightarrow> ae_ownerSeq o' > os_seq snap)
           \<or> (case tomb of None \<Rightarrow> False | Some t \<Rightarrow> tb_ownerSeq t > os_seq snap) then (ents, g, dirty)
        else let (g, dirty) = (case old of None \<Rightarrow> (g, dirty)
                    | Some o' \<Rightarrow> (removeEntity (ae_entityId ent) (ae_cellIdx o') g, marked g (ae_cellIdx o') dirty));
                 g = addEntity (ae_entityId ent) (ae_cellIdx ent) g
             in (AList.update (ae_entityId ent) ent ents, g, marked g (ae_cellIdx ent) dirty))"

definition ApplyOwnerSnapshot :: "AoiOwnerSnapshot \<Rightarrow> replica_state \<Rightarrow> ApplyResult \<times> replica_state" where
  "ApplyOwnerSnapshot snap = (\<lambda>(r, dirty).
     if os_ownerWokerId snap = ar_wId r then (kBadSource, (r, dirty))
     else if (case map_of (ar_ownerSnapshotSeq r) (os_ownerWokerId snap) of None \<Rightarrow> False | Some water \<Rightarrow> os_seq snap \<le> water)
     then (kIgnored, (r, dirty))
     else case check_snapshot r snap (os_ents snap) [] of
       Inl res \<Rightarrow> (res, (r, dirty))
     | Inr incoming \<Rightarrow>
         (case fold (absorb r snap) (map snd incoming) (drop_missing snap incoming (ar_ents r) (ar_grid r, dirty)) of
            (ents, g, dirty) \<Rightarrow>
              (kApplied, (r\<lparr>ar_ents := ents, ar_grid := g,
                           ar_ownerSnapshotSeq := AList.update (os_ownerWokerId snap) (os_seq snap) (ar_ownerSnapshotSeq r)\<rparr>, dirty))))"

section \<open>Runs\<close>

datatype replica_op = REvent int AoiEvent AoiSource | RSnapshot AoiOwnerSnapshot

fun replica_step :: "replica_op \<Rightarrow> replica_state \<Rightarrow> replica_state" where
  "replica_step (REvent now ev src) s = snd (Apply now ev src s)"
| "replica_step (RSnapshot snap) s = snd (ApplyOwnerSnapshot snap s)"

definition replica_run :: "replica_op list \<Rightarrow> replica_state \<Rightarrow> replica_state" where
  "replica_run = fold replica_step"

section \<open>The grid as an index\<close>

text \<open>An update of one cell changes neither the shape of the grid nor the other cells.\<close>

lemma on_cell_shape [simp]:
  "ag_minX (on_cell c f g) = ag_minX g" "ag_minY (on_cell c f g) = ag_minY g" "ag_cols (on_cell c f g) = ag_cols g"
  "ag_rows (on_cell c f g) = ag_rows g" "ag_cellSize (on_cell c f g) = ag_cellSize g" "ag_r (on_cell c f g) = ag_r g"
  "length (ag_cells (on_cell c f g)) = length (ag_cells g)"
  by (simp_all add: on_cell_def)

definition same_shape :: "AoiGrid \<Rightarrow> AoiGrid \<Rightarrow> bool" where
  "same_shape g h \<longleftrightarrow> ag_minX g = ag_minX h \<and> ag_minY g = ag_minY h \<and> ag_cols g = ag_cols h \<and> ag_rows g = ag_rows h
     \<and> ag_cellSize g = ag_cellSize h \<and> ag_r g = ag_r h \<and> length (ag_cells g) = length (ag_cells h)"

lemma same_shape_geometry:
  assumes "same_shape g h"
  shows "TryCellOf g = TryCellOf h" "getWatchCellIdx g = getWatchCellIdx h" "visible g = visible h" "grid_ok g = grid_ok h"
proof -
  note s = assms [unfolded same_shape_def]
  show t: "TryCellOf g = TryCellOf h" using s by (intro ext) (simp add: TryCellOf_def Let_def)
  show "getWatchCellIdx g = getWatchCellIdx h" using s t by (intro ext) (simp add: getWatchCellIdx_def Let_def cong: option.case_cong)
  show "visible g = visible h" using s by (intro ext) (simp add: visible_def Let_def)
  show "grid_ok g = grid_ok h" using s by (simp add: grid_ok_def)
qed

lemma same_shape_refl [simp]: "same_shape g g"
  by (simp add: same_shape_def)

lemma same_shape_trans [trans]: "same_shape f g \<Longrightarrow> same_shape g h \<Longrightarrow> same_shape f h"
  by (simp add: same_shape_def)

lemma cell_updates:
  "same_shape (addEntity i c g) g" "same_shape (removeEntity i c g) g" "same_shape (addWatcher i c g) g" "same_shape (removeWatcher i c g) g"
  "cell_entities (addEntity i c g) d = (if d = c \<and> unat c < length (ag_cells g) then cell_entities g d @ [i] else cell_entities g d)"
  "cell_entities (removeEntity i c g) d = (if d = c then filter (\<lambda>e. e \<noteq> i) (cell_entities g d) else cell_entities g d)"
  "cell_entities (addWatcher i c g) = cell_entities g" "cell_entities (removeWatcher i c g) = cell_entities g"
  "cell_watchers (addEntity i c g) = cell_watchers g" "cell_watchers (removeEntity i c g) = cell_watchers g"
  "cell_watchers (addWatcher i c g) d = (if d = c \<and> unat c < length (ag_cells g) then cell_watchers g d @ [i] else cell_watchers g d)"
  "cell_watchers (removeWatcher i c g) d = (if d = c then filter (\<lambda>e. e \<noteq> i) (cell_watchers g d) else cell_watchers g d)"
  by (auto simp: addEntity_def removeEntity_def addWatcher_def removeWatcher_def same_shape_def cell_entities_def cell_watchers_def
      on_cell_def nth_list_update word_unat_eq_iff fun_eq_iff not_le)

lemma unwatch_all_updates:
  "same_shape (unwatch_all i cs g) g \<and> cell_entities (unwatch_all i cs g) = cell_entities g
   \<and> set (cell_watchers (unwatch_all i cs g) d) = set (cell_watchers g d) - (if d \<in> set cs then {i} else {})"
proof (induction cs arbitrary: g)
  case (Cons c cs)
  have "same_shape (unwatch_all i cs (removeWatcher i c g)) g"
    using Cons.IH [of "removeWatcher i c g"] cell_updates(4) same_shape_trans by blast
  then show ?case using Cons.IH [of "removeWatcher i c g"] by (auto simp: unwatch_all_def cell_updates)
qed (simp add: unwatch_all_def)

lemma watch_all_updates:
  "same_shape (watch_all i cs g) g \<and> cell_entities (watch_all i cs g) = cell_entities g
   \<and> ((\<forall>c \<in> set cs. unat c < length (ag_cells g)) \<longrightarrow>
        set (cell_watchers (watch_all i cs g) d) = set (cell_watchers g d) \<union> (if d \<in> set cs then {i} else {}))"
proof (induction cs arbitrary: g)
  case (Cons c cs)
  have "same_shape (watch_all i cs (addWatcher i c g)) g"
    using Cons.IH [of "addWatcher i c g"] cell_updates(3) same_shape_trans by blast
  moreover have "length (ag_cells (addWatcher i c g)) = length (ag_cells g)" by (simp add: addWatcher_def)
  ultimately show ?case using Cons.IH [of "addWatcher i c g"] by (auto simp: watch_all_def cell_updates)
qed (simp add: watch_all_def)

text \<open>
  The grid \<open>g\<close> of thread \<open>w\<close> indexes the entities \<open>m\<close>: each entity is listed once, in the cell of its position, and
  the watchers are the thread's own entities, in the cells they can see.
\<close>

definition placed :: "AoiGrid \<Rightarrow> u64 \<Rightarrow> AoiEntity \<Rightarrow> bool" where
  "placed g i e \<longleftrightarrow> ae_entityId e = i \<and> TryCellOf g (ae_x e) (ae_y e) = Some (ae_cellIdx e)"

definition indexes :: "u32 \<Rightarrow> (u64 \<rightharpoonup> AoiEntity) \<Rightarrow> AoiGrid \<Rightarrow> bool" where
  "indexes w m g \<longleftrightarrow> grid_ok g \<and> (\<forall>i e. m i = Some e \<longrightarrow> placed g i e) \<and> (\<forall>c. distinct (cell_entities g c))
     \<and> (\<forall>c i. i \<in> set (cell_entities g c) \<longleftrightarrow> (\<exists>e. m i = Some e \<and> ae_cellIdx e = c))
     \<and> (\<forall>c i. i \<in> set (cell_watchers g c) \<longleftrightarrow> (\<exists>e. m i = Some e \<and> ae_ownerWorker e = w \<and> visible g (ae_cellIdx e) c))"

lemma indexesD:
  assumes "indexes w m g"
  shows "grid_ok g" "m i = Some e \<Longrightarrow> placed g i e" "distinct (cell_entities g c)"
    "i \<in> set (cell_entities g c) \<longleftrightarrow> (\<exists>e. m i = Some e \<and> ae_cellIdx e = c)"
    "i \<in> set (cell_watchers g c) \<longleftrightarrow> (\<exists>e. m i = Some e \<and> ae_ownerWorker e = w \<and> visible g (ae_cellIdx e) c)"
  using assms by (auto simp: indexes_def)

lemma placed_watch:
  assumes "grid_ok g" "placed g i e"
  shows "d \<in> set (getWatchCellIdx g (ae_x e) (ae_y e)) \<longleftrightarrow> visible g (ae_cellIdx e) d" "distinct (getWatchCellIdx g (ae_x e) (ae_y e))"
  using watch_visible [OF assms(1)] assms(2) by (auto simp: placed_def)

lemma placed_in_range:
  assumes "grid_ok g" "placed g i e"
  shows "unat (ae_cellIdx e) < length (ag_cells g)" "visible g (ae_cellIdx e) (ae_cellIdx e)"
proof -
  note c = TryCellOf_cell [OF assms(1), of "ae_x e" "ae_y e" "ae_cellIdx e"]
  have t: "TryCellOf g (ae_x e) (ae_y e) = Some (ae_cellIdx e)" using assms(2) by (simp add: placed_def)
  show "unat (ae_cellIdx e) < length (ag_cells g)" using c(2) [OF t] cell_below [OF assms(1)] by blast
  show "visible g (ae_cellIdx e) (ae_cellIdx e)" using c(1,2) [OF t] visible_iff [OF assms(1)] by fastforce
qed

lemma visible_in_range: "visible g c d \<Longrightarrow> unat d < length (ag_cells g)"
  by (auto simp: visible_def split: if_splits)

text \<open>What the three kinds of change do to the index: an entity is taken out, put in, or changed in its cell.\<close>

definition unplace :: "u32 \<Rightarrow> u64 \<Rightarrow> AoiEntity \<Rightarrow> AoiGrid \<Rightarrow> AoiGrid" where
  "unplace w i e g = removeEntity i (ae_cellIdx e)
     (if ae_ownerWorker e = w then unwatch_all i (getWatchCellIdx g (ae_x e) (ae_y e)) g else g)"

definition emplace :: "u32 \<Rightarrow> u64 \<Rightarrow> AoiEntity \<Rightarrow> AoiGrid \<Rightarrow> AoiGrid" where
  "emplace w i e g = addEntity i (ae_cellIdx e)
     (if ae_ownerWorker e = w then watch_all i (getWatchCellIdx g (ae_x e) (ae_y e)) g else g)"

lemma unplace_index:
  assumes m: "indexes w m g" and e: "m i = Some e"
  shows "indexes w (m(i := None)) (unplace w i e g)" "same_shape (unplace w i e g) g"
    "set (cell_watchers (unplace w i e g) c) = set (cell_watchers g c) - {i}"
proof -
  let ?h = "if ae_ownerWorker e = w then unwatch_all i (getWatchCellIdx g (ae_x e) (ae_y e)) g else g"
  note d = indexesD [OF m]
  have p: "placed g i e" using d(2) e by blast
  have h: "same_shape ?h g" "cell_entities ?h = cell_entities g" using unwatch_all_updates by auto
  show s: "same_shape (unplace w i e g) g" unfolding unplace_def using h(1) cell_updates(2) same_shape_trans by blast
  note geo = same_shape_geometry [OF s]
  have ws: "set (cell_watchers (unplace w i e g) c) = set (cell_watchers g c) - {i}" for c
  proof (cases "ae_ownerWorker e = w")
    case True
    have "i \<in> set (cell_watchers g c) \<longrightarrow> c \<in> set (getWatchCellIdx g (ae_x e) (ae_y e))"
      using d(5) [of i c] e placed_watch [OF d(1) p] by auto
    then show ?thesis using True unwatch_all_updates by (auto simp: unplace_def cell_updates)
  next
    case False
    then show ?thesis using d(5) [of i c] e by (auto simp: unplace_def cell_updates)
  qed
  then show "set (cell_watchers (unplace w i e g) c) = set (cell_watchers g c) - {i}" .
  have es: "cell_entities (unplace w i e g) c = filter (\<lambda>k. k \<noteq> i) (cell_entities g c)" for c
  proof (cases "c = ae_cellIdx e")
    case False
    then have "i \<notin> set (cell_entities g c)" using d(4) [of i c] e by auto
    then show ?thesis using False h(2) by (simp add: unplace_def cell_updates) (metis (mono_tags, lifting) filter_True)
  qed (simp add: unplace_def cell_updates h)
  show "indexes w (m(i := None)) (unplace w i e g)"
    unfolding indexes_def geo ws es placed_def using d [unfolded placed_def] by auto
qed

lemma emplace_index:
  assumes m: "indexes w m g" and n: "m i = None" and p: "placed g i e"
  shows "indexes w (m(i \<mapsto> e)) (emplace w i e g)" "same_shape (emplace w i e g) g"
    "set (cell_watchers (emplace w i e g) c) = set (cell_watchers g c) \<union> (if ae_ownerWorker e = w \<and> visible g (ae_cellIdx e) c then {i} else {})"
proof -
  let ?h = "if ae_ownerWorker e = w then watch_all i (getWatchCellIdx g (ae_x e) (ae_y e)) g else g"
  note d = indexesD [OF m]
  have h: "same_shape ?h g" "cell_entities ?h = cell_entities g" using watch_all_updates by auto
  show s: "same_shape (emplace w i e g) g" unfolding emplace_def using h(1) cell_updates(1) same_shape_trans by blast
  note geo = same_shape_geometry [OF s]
  have "\<forall>c \<in> set (getWatchCellIdx g (ae_x e) (ae_y e)). unat c < length (ag_cells g)"
    using placed_watch [OF d(1) p] visible_in_range by blast
  then have ws: "set (cell_watchers (emplace w i e g) c) = set (cell_watchers g c)
      \<union> (if ae_ownerWorker e = w \<and> visible g (ae_cellIdx e) c then {i} else {})" for c
    using watch_all_updates placed_watch [OF d(1) p] by (auto simp: emplace_def cell_updates)
  then show "set (cell_watchers (emplace w i e g) c) = set (cell_watchers g c)
      \<union> (if ae_ownerWorker e = w \<and> visible g (ae_cellIdx e) c then {i} else {})" .
  have "length (ag_cells ?h) = length (ag_cells g)" using h(1) by (simp add: same_shape_def)
  then have es: "cell_entities (emplace w i e g) c = cell_entities g c @ (if c = ae_cellIdx e then [i] else [])" for c
    using h(2) placed_in_range(1) [OF d(1) p] by (auto simp: emplace_def cell_updates)
  have "i \<notin> set (cell_entities g c)" "i \<notin> set (cell_watchers g c)" for c using d(4,5) n by auto
  then show "indexes w (m(i \<mapsto> e)) (emplace w i e g)"
    unfolding indexes_def geo ws es placed_def using d [unfolded placed_def] p [unfolded placed_def] by auto
qed

lemma update_index:
  assumes m: "indexes w m g" and e: "m i = Some e" and p: "placed g i e'"
    and same: "ae_cellIdx e' = ae_cellIdx e" "ae_ownerWorker e' = ae_ownerWorker e"
  shows "indexes w (m(i \<mapsto> e')) g"
  unfolding indexes_def using indexesD [OF m] e p same by auto

section \<open>What observers see\<close>

text \<open>The entities in the cells visible from an observer's cell.\<close>

definition view :: "(u64 \<rightharpoonup> AoiEntity) \<Rightarrow> AoiGrid \<Rightarrow> u64 \<Rightarrow> AoiEntity set" where
  "view m g ob = {e. \<exists>oe i. m ob = Some oe \<and> m i = Some e \<and> visible g (ae_cellIdx oe) (ae_cellIdx e)}"

definition local_observer :: "u32 \<Rightarrow> (u64 \<rightharpoonup> AoiEntity) \<Rightarrow> u64 \<Rightarrow> bool" where
  "local_observer w m ob \<longleftrightarrow> (\<exists>e. m ob = Some e \<and> ae_ownerWorker e = w)"

text \<open>
  A change of entity \<open>i\<close> that keeps the index and marks whoever watches the cell it leaves and the cell it is in.
\<close>

definition changes :: "u32 \<Rightarrow> u64 \<Rightarrow> (u64 \<rightharpoonup> AoiEntity) \<times> AoiGrid \<times> u64 set \<Rightarrow> (u64 \<rightharpoonup> AoiEntity) \<times> AoiGrid \<times> u64 set \<Rightarrow> bool" where
  "changes w i = (\<lambda>(m, g, d) (m', g', d'). indexes w m' g' \<and> same_shape g' g \<and> m' = m(i := m' i) \<and> d \<subseteq> d'
     \<and> (\<forall>e. m i = Some e \<longrightarrow> set (cell_watchers g (ae_cellIdx e)) - {i} \<subseteq> d')
     \<and> (\<forall>e. m' i = Some e \<longrightarrow> set (cell_watchers g' (ae_cellIdx e)) \<subseteq> d'))"

lemma changes_marks:
  assumes m: "indexes w m g" and ch: "changes w i (m, g, d) (m', g', d')"
    and ob: "local_observer w m' ob" and new: "view m g ob \<noteq> view m' g' ob"
  shows "ob \<in> d'"
proof (rule ccontr)
  assume n: "ob \<notin> d'"
  have m': "indexes w m' g'" and s: "same_shape g' g" and eq: "m' = m(i := m' i)"
    and old: "\<And>e. m i = Some e \<Longrightarrow> set (cell_watchers g (ae_cellIdx e)) - {i} \<subseteq> d'"
    and cur: "\<And>e. m' i = Some e \<Longrightarrow> set (cell_watchers g' (ae_cellIdx e)) \<subseteq> d'"
    using ch by (auto simp: changes_def)
  note geo = same_shape_geometry [OF s]
  obtain oe where oe: "m' ob = Some oe" "ae_ownerWorker oe = w" using ob by (auto simp: local_observer_def)
  have unseen: "\<not> visible g (ae_cellIdx oe) (ae_cellIdx e)" if "m' i = Some e" for e
    using cur [OF that] n oe indexesD(5) [OF m', of ob "ae_cellIdx e"] geo by auto
  have oi: "ob \<noteq> i"
    using unseen oe placed_in_range(2) [OF indexesD(1) [OF m'] indexesD(2) [OF m' oe(1)]] geo by auto
  then have mo: "m ob = Some oe" using oe(1) eq by (metis fun_upd_other)
  have "\<not> visible g (ae_cellIdx oe) (ae_cellIdx e)" if "m i = Some e" for e
    using old [OF that] n oi mo oe(2) indexesD(5) [OF m, of ob "ae_cellIdx e"] by auto
  moreover have "m k = m' k" if "k \<noteq> i" for k using that eq by (metis fun_upd_other)
  ultimately have "view m g ob = view m' g' ob"
    unfolding view_def geo using unseen oe(1) mo by (intro Collect_cong) (metis option.inject)
  with new show False ..
qed

text \<open>The ways in which the operations change an entity.\<close>

lemma changes_refl: "indexes w m g \<Longrightarrow> m i = None \<Longrightarrow> changes w i (m, g, d) (m, g, d)"
  using fun_upd_triv [of m i] by (simp add: changes_def)

lemma changes_leave:
  assumes "indexes w m g" "m i = Some e"
  shows "changes w i (m, g, d) (m(i := None), unplace w i e g, marked g (ae_cellIdx e) d)"
  using unplace_index [OF assms] assms by (auto simp: changes_def marked_def)

lemma changes_enter:
  assumes "indexes w m g" "m i = None" "placed g i e"
  shows "changes w i (m, g, d) (m(i \<mapsto> e), emplace w i e g, marked (emplace w i e g) (ae_cellIdx e) d)"
  using emplace_index [OF assms] assms by (auto simp: changes_def marked_def)

lemma changes_stay:
  assumes "indexes w m g" "m i = Some e" "placed g i e'" "ae_cellIdx e' = ae_cellIdx e" "ae_ownerWorker e' = ae_ownerWorker e"
  shows "changes w i (m, g, d) (m(i \<mapsto> e'), g, marked g (ae_cellIdx e') d)"
  using update_index [OF assms] assms by (auto simp: changes_def marked_def)

lemma changes_reseat:
  assumes m: "indexes w m g" and e: "m i = Some e" and p: "placed g i e'"
  defines "h \<equiv> unplace w i e g"
  shows "changes w i (m, g, d) (m(i \<mapsto> e'), emplace w i e' h, marked (emplace w i e' h) (ae_cellIdx e') (marked h (ae_cellIdx e) d))"
proof -
  note u = unplace_index [OF m e, folded h_def]
  have "placed h i e'" using p same_shape_geometry [OF u(2)] by (simp add: placed_def)
  note em = emplace_index [OF u(1) _ this]
  have "same_shape (emplace w i e' h) g" using em(2) u(2) same_shape_trans by auto
  then show ?thesis using em u(3) e by (auto simp: changes_def marked_def)
qed

section \<open>The handlers\<close>

lemma updateEntity_placed:
  "ae_entityId (updateEntity ev c e) = av_eId ev" "ae_cellIdx (updateEntity ev c e) = c" "ae_ownerWorker (updateEntity ev c e) = av_ownerThreadId ev"
  "ae_x (updateEntity ev c e) = av_target_x ev" "ae_y (updateEntity ev c e) = av_target_y ev"
  "ae_entityGeneration (updateEntity ev c e) = av_entityGeneration ev" "ae_spatialVersion (updateEntity ev c e) = av_spatialVersion ev"
  "ae_ownerSeq (updateEntity ev c e) = av_ownerSeq ev"
  by (simp_all add: updateEntity_def)

lemma removeWatcher_idle: "i \<notin> set (cell_watchers g c) \<Longrightarrow> removeWatcher i c g = g"
proof -
  assume "i \<notin> set (cell_watchers g c)"
  then have "unat c < length (ag_cells g) \<Longrightarrow> filter (\<lambda>e. e \<noteq> i) (ac_watchers (ag_cells g ! unat c)) = ac_watchers (ag_cells g ! unat c)"
    by (auto simp: cell_watchers_def not_le intro!: filter_True split: if_splits)
  then show ?thesis by (simp add: removeWatcher_def on_cell_def)
qed

lemma marked_unplace: "ae_ownerWorker e \<noteq> w \<Longrightarrow> marked (unplace w i e g) c d = marked g c d"
  by (simp add: marked_def unplace_def cell_updates)

definition core :: "replica_state \<Rightarrow> (u64 \<rightharpoonup> AoiEntity) \<times> AoiGrid \<times> u64 set" where
  "core s = (map_of (ar_ents (fst s)), ar_grid (fst s), snd s)"

text \<open>What the handlers may rely on after the checks: the event is of its entity's owner.\<close>

definition owned :: "AoiReplica \<Rightarrow> AoiEvent \<Rightarrow> bool" where
  "owned r ev \<longleftrightarrow> (\<forall>e. findById r (av_eId ev) = Some e \<longrightarrow> ae_ownerWorker e = av_ownerThreadId ev)"

lemma processLocal_changes:
  assumes m: "indexes (ar_wId r) (map_of (ar_ents r)) (ar_grid r)" and own: "av_ownerThreadId ev = ar_wId r" "owned r ev"
    and cell: "av_msgKind ev \<noteq> kLeave \<Longrightarrow> TryCellOf (ar_grid r) (av_target_x ev) (av_target_y ev) = Some cellIdx"
    and known: "av_msgKind ev = kMove \<Longrightarrow> findById r (av_eId ev) \<noteq> None"
    and kind: "av_msgKind ev \<noteq> kInvalidMsg"
  shows "changes (ar_wId r) (av_eId ev) (core (r, d)) (core (processLocalAoiMsg now ev cellIdx (r, d)))"
proof -
  let ?w = "ar_wId r" and ?m = "map_of (ar_ents r)" and ?g = "ar_grid r" and ?i = "av_eId ev"
  have p: "placed ?g ?i (updateEntity ev cellIdx e)" if "av_msgKind ev \<noteq> kLeave" for e
    using cell [OF that] by (simp add: placed_def updateEntity_placed)
  have o': "ae_ownerWorker (updateEntity ev cellIdx e) = ?w" for e by (simp add: updateEntity_placed own)
  show ?thesis
  proof (cases "?m ?i")
    case None
    then show ?thesis
      using changes_enter [OF m None p] changes_refl [OF m None] known kind
      by (cases "av_msgKind ev") (auto simp: processLocalAoiMsg_def core_def onLocalEntry_def onLocalLeave_def findById_def put_entity_def
          Let_def emplace_def updateEntity_placed own)
  next
    case (Some e)
    have e: "ae_ownerWorker e = ?w" "ae_entityId e = ?i"
      using own Some indexesD(2) [OF m Some] by (auto simp: owned_def findById_def placed_def)
    have geo: "getWatchCellIdx (unplace ?w ?i e ?g) = getWatchCellIdx ?g"
      using same_shape_geometry [OF unplace_index(2) [OF m Some]] by simp
    have "removeWatcher ?i (ae_cellIdx e) (unplace ?w ?i e ?g) = unplace ?w ?i e ?g"
      using unplace_index(3) [OF m Some] by (intro removeWatcher_idle) auto
    then show ?thesis
      using changes_reseat [OF m Some p [of e], where d = d] changes_stay [OF m Some p [of e], where d = d] changes_leave [OF m Some, where d = d] kind geo e
      by (cases "av_msgKind ev") (auto simp: processLocalAoiMsg_def core_def onLocalEntry_def onLocalMove_def onLocalLeave_def findById_def
          put_entity_def Let_def emplace_def unplace_def updateEntity_placed own Some)
  qed
qed

lemma processRemote_changes:
  assumes m: "indexes (ar_wId r) (map_of (ar_ents r)) (ar_grid r)" and own: "av_ownerThreadId ev \<noteq> ar_wId r" "owned r ev"
    and cell: "av_msgKind ev \<noteq> kLeave \<Longrightarrow> TryCellOf (ar_grid r) (av_target_x ev) (av_target_y ev) = Some cellIdx"
    and known: "av_msgKind ev = kMove \<Longrightarrow> findById r (av_eId ev) \<noteq> None"
    and kind: "av_msgKind ev \<noteq> kInvalidMsg"
  shows "changes (ar_wId r) (av_eId ev) (core (r, d)) (core (processRemoteAoiMsg now ev cellIdx (r, d)))"
proof -
  let ?w = "ar_wId r" and ?m = "map_of (ar_ents r)" and ?g = "ar_grid r" and ?i = "av_eId ev"
  have p: "placed ?g ?i (updateEntity ev cellIdx e)" if "av_msgKind ev \<noteq> kLeave" for e
    using cell [OF that] by (simp add: placed_def updateEntity_placed)
  show ?thesis
  proof (cases "?m ?i")
    case None
    then show ?thesis
      using changes_enter [OF m None p] changes_refl [OF m None] known kind own(1)
      by (cases "av_msgKind ev") (auto simp: processRemoteAoiMsg_def core_def onRemoteEntry_def onRemoteLeave_def findById_def put_entity_def
          Let_def emplace_def updateEntity_placed)
  next
    case (Some e)
    have e: "ae_ownerWorker e \<noteq> ?w" "ae_ownerWorker e = av_ownerThreadId ev" "ae_entityId e = ?i"
      using own Some indexesD(2) [OF m Some] by (auto simp: owned_def findById_def placed_def)
    show ?thesis
      using changes_reseat [OF m Some p [of e], where d = d] changes_stay [OF m Some p [of e], where d = d] changes_leave [OF m Some, where d = d] kind e own(1)
        marked_unplace [OF e(1), of ?i ?g]
      by (cases "av_msgKind ev") (auto simp: processRemoteAoiMsg_def core_def onRemoteEntry_def onRemoteMove_def onRemoteLeave_def findById_def
          put_entity_def Let_def emplace_def unplace_def updateEntity_placed Some)
  qed
qed

section \<open>The invariant\<close>

text \<open>
  The entities are indexed by the grid, and an entity that is present is of a later generation than the departure
  that its tombstone records.
\<close>

definition replica_ok :: "AoiReplica \<Rightarrow> bool" where
  "replica_ok r \<longleftrightarrow> umap_ok (ar_ents r) \<and> indexes (ar_wId r) (map_of (ar_ents r)) (ar_grid r)
     \<and> (\<forall>i t e. map_of (ar_tombstones r) i = Some t \<longrightarrow> map_of (ar_ents r) i = Some e \<longrightarrow> tb_generation t < ae_entityGeneration e)"

lemma check_event_Inr:
  assumes "check_event r ev src = Inr cellIdx"
  shows "(src = kLocal) = (av_ownerThreadId ev = ar_wId r)" "owned r ev" "av_msgKind ev \<noteq> kInvalidMsg"
    "av_msgKind ev \<noteq> kLeave \<Longrightarrow> TryCellOf (ar_grid r) (av_target_x ev) (av_target_y ev) = Some cellIdx"
    "av_msgKind ev = kMove \<Longrightarrow> findById r (av_eId ev) \<noteq> None"
    "map_of (ar_tombstones r) (av_eId ev) = Some t \<Longrightarrow> tb_generation t < av_entityGeneration ev"
    "findById r (av_eId ev) = Some e \<Longrightarrow> \<not> stale_event ev e"
  using assms by (auto simp: check_event_def Let_def owned_def target_cell_def not_le split: if_splits option.splits)

text \<open>What the handlers do to the entities and the tombstones.\<close>

lemma updateEntity_any: "NO_MATCH empty_entity e \<Longrightarrow> updateEntity ev cellIdx e = updateEntity ev cellIdx empty_entity"
  by (simp add: updateEntity_def empty_entity_def)

definition buried :: "int \<Rightarrow> AoiEvent \<Rightarrow> AoiReplica \<Rightarrow> AoiReplica" where
  "buried now ev r = r\<lparr>ar_tombstones := AList.update (av_eId ev) (initTombstone now ev) (ar_tombstones r),
     ar_ents := (if findById r (av_eId ev) = None then ar_ents r else AList.delete (av_eId ev) (ar_ents r))\<rparr>"

lemma handler_tables:
  "\<exists>g. fst (onLocalEntry ev c (r, d)) = put_entity ev c empty_entity (r\<lparr>ar_grid := g\<rparr>)"
  "\<exists>g. fst (onRemoteEntry ev c (r, d)) = put_entity ev c empty_entity (r\<lparr>ar_grid := g\<rparr>)"
  "findById r (av_eId ev) \<noteq> None \<Longrightarrow> \<exists>g. fst (onLocalMove ev c (r, d)) = put_entity ev c empty_entity (r\<lparr>ar_grid := g\<rparr>)"
  "findById r (av_eId ev) \<noteq> None \<Longrightarrow> \<exists>g. fst (onRemoteMove ev c (r, d)) = put_entity ev c empty_entity (r\<lparr>ar_grid := g\<rparr>)"
  "\<exists>g. fst (onLocalLeave now ev (r, d)) = (buried now ev r)\<lparr>ar_grid := g\<rparr>"
  "\<exists>g. fst (onRemoteLeave now ev (r, d)) = (buried now ev r)\<lparr>ar_grid := g\<rparr>"
proof -
  note defs = Let_def put_entity_def updateEntity_any buried_def
  show "\<exists>g. fst (onLocalEntry ev c (r, d)) = put_entity ev c empty_entity (r\<lparr>ar_grid := g\<rparr>)"
    by (rule exI [of _ "ar_grid (fst (onLocalEntry ev c (r, d)))"]) (auto simp: onLocalEntry_def defs split: option.splits)
  show "\<exists>g. fst (onRemoteEntry ev c (r, d)) = put_entity ev c empty_entity (r\<lparr>ar_grid := g\<rparr>)"
    by (rule exI [of _ "ar_grid (fst (onRemoteEntry ev c (r, d)))"]) (auto simp: onRemoteEntry_def defs split: option.splits)
  show "\<exists>g. fst (onLocalMove ev c (r, d)) = put_entity ev c empty_entity (r\<lparr>ar_grid := g\<rparr>)" if "findById r (av_eId ev) \<noteq> None"
    using that by (intro exI [of _ "ar_grid (fst (onLocalMove ev c (r, d)))"]) (auto simp: onLocalMove_def defs)
  show "\<exists>g. fst (onRemoteMove ev c (r, d)) = put_entity ev c empty_entity (r\<lparr>ar_grid := g\<rparr>)" if "findById r (av_eId ev) \<noteq> None"
    using that by (intro exI [of _ "ar_grid (fst (onRemoteMove ev c (r, d)))"]) (auto simp: onRemoteMove_def defs)
  show "\<exists>g. fst (onLocalLeave now ev (r, d)) = (buried now ev r)\<lparr>ar_grid := g\<rparr>"
    by (rule exI [of _ "ar_grid (fst (onLocalLeave now ev (r, d)))"]) (auto simp: onLocalLeave_def defs split: option.splits)
  show "\<exists>g. fst (onRemoteLeave now ev (r, d)) = (buried now ev r)\<lparr>ar_grid := g\<rparr>"
    by (rule exI [of _ "ar_grid (fst (onRemoteLeave now ev (r, d)))"]) (auto simp: onRemoteLeave_def defs split: option.splits)
qed

lemma process_tables:
  assumes "av_msgKind ev \<noteq> kInvalidMsg" "av_msgKind ev = kMove \<longrightarrow> findById r (av_eId ev) \<noteq> None"
    and s: "s = (if src = kLocal then processLocalAoiMsg now ev cellIdx (r, d) else processRemoteAoiMsg now ev cellIdx (r, d))"
  obtains g where "fst s = (if av_msgKind ev = kLeave then (buried now ev r)\<lparr>ar_grid := g\<rparr>
    else put_entity ev cellIdx empty_entity (r\<lparr>ar_grid := g\<rparr>))"
  using handler_tables(1-4) [where ev = ev and c = cellIdx and r = r and d = d]
    handler_tables(5,6) [where ev = ev and r = r and d = d and now = now] assms
  by (cases "av_msgKind ev"; cases src) (auto simp: processLocalAoiMsg_def processRemoteAoiMsg_def)

lemma Apply_cases:
  obtains (refused) res where "res \<noteq> kApplied" "Apply now ev src s = (res, s)"
  | (applied) cellIdx where "check_event (fst s) ev src = Inr cellIdx"
      "Apply now ev src s = (kApplied, if src = kLocal then processLocalAoiMsg now ev cellIdx s else processRemoteAoiMsg now ev cellIdx s)"
proof (cases "check_event (fst s) ev src")
  case (Inl res)
  then have "res \<noteq> kApplied" by (auto simp: check_event_def Let_def split: if_splits option.splits)
  with Inl show ?thesis by (intro refused) (auto simp: Apply_def)
next
  case (Inr c)
  then show ?thesis by (intro applied) (auto simp: Apply_def)
qed

lemma Apply_tables:
  assumes chk: "check_event r ev src = Inr c"
  obtains g where "fst (snd (Apply now ev src (r, d))) = (if av_msgKind ev = kLeave then (buried now ev r)\<lparr>ar_grid := g\<rparr>
    else put_entity ev c empty_entity (r\<lparr>ar_grid := g\<rparr>))"
proof -
  have s: "snd (Apply now ev src (r, d)) = (if src = kLocal then processLocalAoiMsg now ev c (r, d) else processRemoteAoiMsg now ev c (r, d))"
    by (simp add: Apply_def chk)
  have "av_msgKind ev = kMove \<longrightarrow> findById r (av_eId ev) \<noteq> None" using check_event_Inr(5) [OF chk] by blast
  from process_tables [OF check_event_Inr(3) [OF chk] this s] that show ?thesis by blast
qed

lemma replica_entity:
  assumes "replica_ok r" "findById r i = Some e"
  shows "placed (ar_grid r) i e" "ae_entityId e = i"
proof -
  show "placed (ar_grid r) i e" using assms indexesD(2) by (auto simp: replica_ok_def findById_def)
  then show "ae_entityId e = i" by (simp add: placed_def)
qed

lemma Apply_ok:
  assumes r: "replica_ok r"
  shows "replica_ok (fst (snd (Apply now ev src (r, d))))" "ar_wId (fst (snd (Apply now ev src (r, d)))) = ar_wId r"
    "ar_map (fst (snd (Apply now ev src (r, d)))) = ar_map r"
    "snd (Apply now ev src (r, d)) \<noteq> (r, d) \<Longrightarrow> changes (ar_wId r) (av_eId ev) (core (r, d)) (core (snd (Apply now ev src (r, d))))"
proof -
  let ?s = "snd (Apply now ev src (r, d))"
  have "replica_ok (fst ?s) \<and> ar_wId (fst ?s) = ar_wId r \<and> ar_map (fst ?s) = ar_map r
    \<and> (?s \<noteq> (r, d) \<longrightarrow> changes (ar_wId r) (av_eId ev) (core (r, d)) (core ?s))"
  proof (cases rule: Apply_cases [of now ev src "(r, d)"])
    case (refused res)
    then show ?thesis using r by simp
  next
    case (applied c)
    have chk: "check_event r ev src = Inr c" using applied(1) by simp
    note k = check_event_Inr [OF chk]
    have m: "indexes (ar_wId r) (map_of (ar_ents r)) (ar_grid r)" using r by (simp add: replica_ok_def)
    have ch: "changes (ar_wId r) (av_eId ev) (core (r, d)) (core ?s)"
      using processLocal_changes [OF m _ k(2,4,5,3), where d = d and now = now]
        processRemote_changes [OF m _ k(2,4,5,3), where d = d and now = now] k(1) applied(2) by auto
    obtain g where t: "fst ?s = (if av_msgKind ev = kLeave then (buried now ev r)\<lparr>ar_grid := g\<rparr>
        else put_entity ev c empty_entity (r\<lparr>ar_grid := g\<rparr>))"
      by (rule Apply_tables [OF chk])
    have "indexes (ar_wId r) (map_of (ar_ents (fst ?s))) (ar_grid (fst ?s))" using ch by (auto simp: changes_def core_def)
    moreover have "umap_ok (ar_ents (fst ?s))"
      using r unfolding t by (auto simp: replica_ok_def buried_def put_entity_def)
    moreover have "\<forall>i u e. map_of (ar_tombstones (fst ?s)) i = Some u \<longrightarrow> map_of (ar_ents (fst ?s)) i = Some e
        \<longrightarrow> tb_generation u < ae_entityGeneration e"
      using r k(6) unfolding t by (auto simp: replica_ok_def updateEntity_placed findById_def buried_def put_entity_def split: if_splits)
    moreover have "ar_wId (fst ?s) = ar_wId r" "ar_map (fst ?s) = ar_map r" unfolding t by (auto simp: buried_def put_entity_def)
    ultimately show ?thesis using ch by (auto simp: replica_ok_def)
  qed
  then show "replica_ok (fst ?s)" "ar_wId (fst ?s) = ar_wId r" "ar_map (fst ?s) = ar_map r"
    "?s \<noteq> (r, d) \<Longrightarrow> changes (ar_wId r) (av_eId ev) (core (r, d)) (core ?s)" by auto
qed

section \<open>Taking over a snapshot\<close>

text \<open>
  A sequence of changes of entities of other threads: the thread's own observers stay, and those whose view changes are
  marked.
\<close>

definition follows :: "u32 \<Rightarrow> (u64 \<rightharpoonup> AoiEntity) \<times> AoiGrid \<times> u64 set \<Rightarrow> (u64 \<rightharpoonup> AoiEntity) \<times> AoiGrid \<times> u64 set \<Rightarrow> bool" where
  "follows w = (\<lambda>(m, g, d) (m', g', d'). indexes w m' g' \<and> same_shape g' g \<and> d \<subseteq> d' \<and> local_observer w m' = local_observer w m
     \<and> (\<forall>ob. local_observer w m ob \<longrightarrow> view m g ob \<noteq> view m' g' ob \<longrightarrow> ob \<in> d'))"

lemma follows_refl: "indexes w m g \<Longrightarrow> follows w (m, g, d) (m, g, d)"
  by (simp add: follows_def)

lemma follows_trans: "follows w s s' \<Longrightarrow> follows w s' s'' \<Longrightarrow> follows w s s''"
  unfolding follows_def using same_shape_trans by (fastforce split: prod.splits)

lemma changes_follow:
  assumes m: "indexes w m g" and ch: "changes w i (m, g, d) (m', g', d')"
    and remote: "\<And>e. m i = Some e \<or> m' i = Some e \<Longrightarrow> ae_ownerWorker e \<noteq> w"
  shows "follows w (m, g, d) (m', g', d')"
proof -
  have "m' k = m k" if "k \<noteq> i" for k using ch that unfolding changes_def by (auto) (metis fun_upd_other)
  then have "local_observer w m' k = local_observer w m k" for k
    using remote by (cases "k = i") (auto simp: local_observer_def)
  then have "local_observer w m' = local_observer w m" by blast
  then show ?thesis using changes_marks [OF m ch] ch by (auto simp: follows_def changes_def)
qed

definition missing :: "AoiOwnerSnapshot \<Rightarrow> (u64, AoiEntity) umap \<Rightarrow> AoiEntity \<Rightarrow> bool" where
  "missing snap incoming ent \<longleftrightarrow> ae_ownerWorker ent = os_ownerWokerId snap \<and> ae_ownerSeq ent \<le> os_seq snap
     \<and> map_of incoming (ae_entityId ent) = None"

lemma drop_missing_filter: "fst (drop_missing snap incoming es (g, d)) = filter (\<lambda>p. \<not> missing snap incoming (snd p)) es"
  by (induction es arbitrary: g d) (auto simp: missing_def split_beta)

lemma unplace_remote: "ae_ownerWorker e \<noteq> w \<Longrightarrow> unplace w i e g = removeEntity i (ae_cellIdx e) g"
  by (simp add: unplace_def)

lemma emplace_remote: "ae_ownerWorker e \<noteq> w \<Longrightarrow> emplace w i e g = addEntity i (ae_cellIdx e) g"
  by (simp add: emplace_def)

lemma drop_missing_follows:
  assumes "indexes w (map_of (ps @ es)) g" "umap_ok (ps @ es)" "os_ownerWokerId snap \<noteq> w"
    and "drop_missing snap incoming es (g, d) = (es', g', d')"
  shows "follows w (map_of (ps @ es), g, d) (map_of (ps @ es'), g', d')"
  using assms
proof (induction es arbitrary: ps g d es')
  case Nil
  then show ?case by (simp add: follows_refl)
next
  case (Cons p es)
  obtain i e where p: "p = (i, e)" by force
  have u: "umap_ok (ps @ es)" using Cons.prems(2) by (simp add: umap_ok_def)
  have fresh: "map_of (ps @ es) i = None" and here: "map_of (ps @ p # es) i = Some e"
    using Cons.prems(2) by (auto simp: umap_ok_def p map_of_eq_None_iff map_add_Some_iff)
  have id: "ae_entityId e = i" using indexesD(2) [OF Cons.prems(1) here] by (simp add: placed_def)
  show ?case
  proof (cases "missing snap incoming e")
    case True
    then have w: "ae_ownerWorker e \<noteq> w" using Cons.prems(3) by (simp add: missing_def)
    have less: "(map_of (ps @ p # es))(i := None) = map_of (ps @ es)"
      using fresh by (auto simp: p map_add_def fun_eq_iff split: option.splits)
    let ?g = "removeEntity i (ae_cellIdx e) g" and ?d = "marked g (ae_cellIdx e) d"
    have ch: "changes w i (map_of (ps @ p # es), g, d) (map_of (ps @ es), ?g, ?d)"
      using changes_leave [OF Cons.prems(1) here] less unplace_remote [OF w] by metis
    then have first: "follows w (map_of (ps @ p # es), g, d) (map_of (ps @ es), ?g, ?d)"
      using here fresh w by (intro changes_follow [OF Cons.prems(1) ch]) auto
    have "indexes w (map_of (ps @ es)) ?g" using ch by (simp add: changes_def)
    moreover have "drop_missing snap incoming es (?g, ?d) = (es', g', d')"
      using Cons.prems(4) True id by (simp add: p missing_def)
    ultimately show ?thesis using Cons.IH [OF _ u Cons.prems(3)] first follows_trans by blast
  next
    case False
    then obtain es1 where "es' = p # es1" "drop_missing snap incoming es (g, d) = (es1, g', d')"
      using Cons.prems(4) by (auto simp: p missing_def split: prod.splits if_splits)
    then show ?thesis using Cons.IH [of "ps @ [p]" g d es1] Cons.prems(1-3) by simp
  qed
qed

text \<open>Entities that the replica has heard of more recently than the snapshot are left alone.\<close>

definition newer :: "AoiReplica \<Rightarrow> AoiOwnerSnapshot \<Rightarrow> AoiEntity option \<Rightarrow> u64 \<Rightarrow> bool" where
  "newer r snap old i \<longleftrightarrow> (case old of None \<Rightarrow> False | Some e \<Rightarrow> ae_ownerSeq e > os_seq snap)
     \<or> (case map_of (ar_tombstones r) i of None \<Rightarrow> False | Some t \<Rightarrow> tb_ownerSeq t > os_seq snap)"

lemma absorb_ents:
  "map_of (fst (absorb r snap e (ents, g, d))) =
     (if newer r snap (map_of ents (ae_entityId e)) (ae_entityId e) then map_of ents else (map_of ents)(ae_entityId e \<mapsto> e))"
  "umap_ok ents \<Longrightarrow> umap_ok (fst (absorb r snap e (ents, g, d)))"
  by (auto simp: absorb_def newer_def Let_def split_beta split: option.splits)

lemma absorb_follows:
  assumes m: "indexes w (map_of ents) g" and p: "placed g (ae_entityId e) e" and w: "ae_ownerWorker e \<noteq> w"
    and old: "\<And>x. map_of ents (ae_entityId e) = Some x \<Longrightarrow> ae_ownerWorker x \<noteq> w"
    and s: "absorb r snap e (ents, g, d) = (ents', g', d')"
  shows "follows w (map_of ents, g, d) (map_of ents', g', d')"
proof (cases "newer r snap (map_of ents (ae_entityId e)) (ae_entityId e)")
  case True
  then have "(ents', g', d') = (ents, g, d)" using s by (auto simp: absorb_def newer_def)
  then show ?thesis using follows_refl [OF m] by simp
next
  case False
  let ?i = "ae_entityId e"
  have ch: "changes w ?i (map_of ents, g, d) (map_of ents', g', d')"
  proof (cases "map_of ents ?i")
    case None
    then show ?thesis using changes_enter [OF m None p, of d] False s emplace_remote [OF w, of ?i g]
      by (auto simp: absorb_def newer_def Let_def)
  next
    case (Some x)
    have ow: "ae_ownerWorker x \<noteq> w" using old Some by blast
    show ?thesis using changes_reseat [OF m Some p, of d] False s Some unplace_remote [OF ow, of ?i g] emplace_remote [OF w, of ?i]
        marked_unplace [OF ow, of ?i g]
      by (auto simp: absorb_def newer_def Let_def)
  qed
  have "map_of ents' ?i = Some e" using absorb_ents(1) [where r = r and snap = snap and e = e and ents = ents and g = g and d = d] False s by simp
  then show ?thesis using old w by (intro changes_follow [OF m ch]) auto
qed

definition snapshot_entity :: "AoiReplica \<Rightarrow> AoiOwnerSnapshot \<Rightarrow> AoiEntity \<Rightarrow> bool" where
  "snapshot_entity r snap e \<longleftrightarrow> ae_ownerWorker e = os_ownerWokerId snap \<and> ae_ownerSeq e \<le> os_seq snap
     \<and> TryCellOf (ar_grid r) (ae_x e) (ae_y e) = Some (ae_cellIdx e)
     \<and> (\<forall>x. findById r (ae_entityId e) = Some x \<longrightarrow> ae_ownerWorker x = os_ownerWokerId snap)
     \<and> (\<forall>t. map_of (ar_tombstones r) (ae_entityId e) = Some t \<longrightarrow> tb_ownerSeq t \<le> os_seq snap \<longrightarrow> tb_generation t < ae_entityGeneration e)"

lemma check_snapshot_entity_Inr:
  assumes "check_snapshot_entity r snap incoming ent = Inr e"
  shows "snapshot_entity r snap e" "map_of incoming (ae_entityId ent) = None" "ae_entityId e = ae_entityId ent"
    "e = ent\<lparr>ae_cellIdx := ae_cellIdx e\<rparr>"
  using assms
  by (auto simp: check_snapshot_entity_def snapshot_entity_def Let_def target_cell_def not_le split: if_splits option.splits)

definition incoming_ok :: "AoiReplica \<Rightarrow> AoiOwnerSnapshot \<Rightarrow> (u64, AoiEntity) umap \<Rightarrow> bool" where
  "incoming_ok r snap incoming \<longleftrightarrow> umap_ok incoming \<and> (\<forall>(i, e) \<in> set incoming. ae_entityId e = i \<and> snapshot_entity r snap e)"

lemma check_snapshot_Inr:
  assumes "check_snapshot r snap ents inc = Inr incoming" "incoming_ok r snap inc"
  shows "incoming_ok r snap incoming \<and>
    (map_of incoming i = Some e \<longleftrightarrow> map_of inc i = Some e \<or>
      (\<exists>ent \<in> set ents. ae_entityId ent = i \<and> target_cell r (ae_x ent) (ae_y ent) = Some (ae_cellIdx e) \<and> e = ent\<lparr>ae_cellIdx := ae_cellIdx e\<rparr>))"
  using assms
proof (induction ents arbitrary: inc)
  case (Cons ent ents)
  from Cons.prems obtain n where n: "check_snapshot_entity r snap inc ent = Inr n"
    and rest: "check_snapshot r snap ents (AList.update (ae_entityId ent) n inc) = Inr incoming" by (auto split: sum.splits)
  note k = check_snapshot_entity_Inr [OF n]
  have set: "set (AList.update (ae_entityId ent) n inc) \<subseteq> insert (ae_entityId ent, n) (set inc)"
    by (induction inc) auto
  have ok: "incoming_ok r snap (AList.update (ae_entityId ent) n inc)"
    using Cons.prems(2) k set unfolding incoming_ok_def by (auto dest!: subsetD)
  have cell: "target_cell r (ae_x ent) (ae_y ent) = Some (ae_cellIdx n)"
    using n by (auto simp: check_snapshot_entity_def Let_def split: if_splits option.splits)
  have mine: "(ae_entityId ent = i \<and> n = e) \<longleftrightarrow>
      ae_entityId ent = i \<and> target_cell r (ae_x ent) (ae_y ent) = Some (ae_cellIdx e) \<and> e = ent\<lparr>ae_cellIdx := ae_cellIdx e\<rparr>"
    using cell k(4) by auto
  show ?case
    using Cons.IH [OF rest ok] k(2) mine by (auto split: if_splits)
qed simp

lemma absorb_all:
  assumes "incoming_ok r snap inc" "os_ownerWokerId snap \<noteq> ar_wId r"
    and "indexes (ar_wId r) (map_of ents) g" "umap_ok ents" "same_shape g (ar_grid r)"
    and "\<forall>i \<in> fst ` set inc. \<forall>x. map_of ents i = Some x \<longrightarrow> ae_ownerWorker x \<noteq> ar_wId r"
    and "fold (absorb r snap) (map snd inc) (ents, g, d) = (ents', g', d')"
  shows "follows (ar_wId r) (map_of ents, g, d) (map_of ents', g', d') \<and> umap_ok ents' \<and>
    map_of ents' i = (case map_of inc i of None \<Rightarrow> map_of ents i
      | Some e \<Rightarrow> if newer r snap (map_of ents i) i then map_of ents i else Some e)"
  using assms
proof (induction inc arbitrary: ents g d)
  case Nil
  then show ?case by (simp add: follows_refl)
next
  case (Cons p inc)
  obtain j e where p: "p = (j, e)" by force
  obtain ents1 g1 d1 where a: "absorb r snap e (ents, g, d) = (ents1, g1, d1)" by (metis prod_cases3)
  have e: "ae_entityId e = j" "snapshot_entity r snap e" and inc: "incoming_ok r snap inc" and fresh: "map_of inc j = None"
    using Cons.prems(1) by (auto simp: incoming_ok_def p umap_ok_def map_of_eq_None_iff)
  have w: "ae_ownerWorker e \<noteq> ar_wId r" using e(2) Cons.prems(2) by (simp add: snapshot_entity_def)
  have pl: "placed g (ae_entityId e) e"
    using e(2) same_shape_geometry(1) [OF Cons.prems(5)] by (simp add: placed_def snapshot_entity_def)
  have f: "follows (ar_wId r) (map_of ents, g, d) (map_of ents1, g1, d1)"
    using Cons.prems(6) e(1) by (intro absorb_follows [OF Cons.prems(3) pl w _ a]) (auto simp: p)
  have m1: "map_of ents1 = (if newer r snap (map_of ents j) j then map_of ents else (map_of ents)(j \<mapsto> e))" and u1: "umap_ok ents1"
    using absorb_ents [where r = r and snap = snap and e = e and ents = ents and g = g and d = d] a e(1) Cons.prems(4) by auto
  have i1: "indexes (ar_wId r) (map_of ents1) g1" and s1: "same_shape g1 (ar_grid r)"
    using f Cons.prems(5) same_shape_trans by (auto simp: follows_def)
  have remote: "\<forall>k \<in> fst ` set inc. \<forall>x. map_of ents1 k = Some x \<longrightarrow> ae_ownerWorker x \<noteq> ar_wId r"
    using Cons.prems(6) w m1 by (auto simp: p split: if_splits)
  have rest: "fold (absorb r snap) (map snd inc) (ents1, g1, d1) = (ents', g', d')" using Cons.prems(7) a by (simp add: p)
  note ih = Cons.IH [OF inc Cons.prems(2) i1 u1 s1 remote rest]
  then show ?case using f fresh m1 follows_trans [OF f] by (auto simp: p split: option.splits)
qed

lemma ApplyOwnerSnapshot_cases:
  obtains (refused) res where "res \<noteq> kApplied" "ApplyOwnerSnapshot snap (r, d) = (res, r, d)"
  | (applied) incoming ents g d' where "os_ownerWokerId snap \<noteq> ar_wId r" "check_snapshot r snap (os_ents snap) [] = Inr incoming"
      "fold (absorb r snap) (map snd incoming) (drop_missing snap incoming (ar_ents r) (ar_grid r, d)) = (ents, g, d')"
      "ApplyOwnerSnapshot snap (r, d) = (kApplied, r\<lparr>ar_ents := ents, ar_grid := g,
         ar_ownerSnapshotSeq := AList.update (os_ownerWokerId snap) (os_seq snap) (ar_ownerSnapshotSeq r)\<rparr>, d')"
proof -
  have refusal: "res \<noteq> kApplied" if "check_snapshot r snap ents inc = Inl res" for res ents inc
    using that by (induction ents arbitrary: inc) (auto simp: check_snapshot_entity_def Let_def split: sum.splits if_splits option.splits)
  show ?thesis
  proof (cases "os_ownerWokerId snap = ar_wId r \<or> (case map_of (ar_ownerSnapshotSeq r) (os_ownerWokerId snap) of None \<Rightarrow> False
      | Some water \<Rightarrow> os_seq snap \<le> water)")
    case True
    then show ?thesis by (intro refused [of "if os_ownerWokerId snap = ar_wId r then kBadSource else kIgnored"]) (auto simp: ApplyOwnerSnapshot_def)
  next
    case False
    then show ?thesis
    proof (cases "check_snapshot r snap (os_ents snap) []")
      case (Inl res)
      with False refusal [OF Inl] show ?thesis by (intro refused) (auto simp: ApplyOwnerSnapshot_def)
    next
      case (Inr incoming)
      obtain ents g d' where "fold (absorb r snap) (map snd incoming) (drop_missing snap incoming (ar_ents r) (ar_grid r, d)) = (ents, g, d')"
        by (metis prod_cases3)
      with False Inr show ?thesis by (intro applied) (auto simp: ApplyOwnerSnapshot_def)
    qed
  qed
qed

text \<open>An accepted snapshot: the entities afterwards.\<close>

lemma accepted_snapshot:
  assumes r: "replica_ok r" and w: "os_ownerWokerId snap \<noteq> ar_wId r" and chk: "check_snapshot r snap (os_ents snap) [] = Inr incoming"
    and f: "fold (absorb r snap) (map snd incoming) (drop_missing snap incoming (ar_ents r) (ar_grid r, d)) = (ents, g, d')"
  shows "follows (ar_wId r) (core (r, d)) (map_of ents, g, d')" "umap_ok ents" "incoming_ok r snap incoming"
    "map_of ents i = (case map_of incoming i of
        None \<Rightarrow> (case map_of (ar_ents r) i of None \<Rightarrow> None | Some e \<Rightarrow> if missing snap incoming e then None else Some e)
      | Some e \<Rightarrow> if newer r snap (map_of (ar_ents r) i) i then map_of (ar_ents r) i else Some e)"
proof -
  have m: "indexes (ar_wId r) (map_of (ar_ents r)) (ar_grid r)" and u: "umap_ok (ar_ents r)" using r by (auto simp: replica_ok_def)
  show inc: "incoming_ok r snap incoming" using check_snapshot_Inr [OF chk] by (simp add: incoming_ok_def)
  obtain es1 g1 d1 where dm: "drop_missing snap incoming (ar_ents r) (ar_grid r, d) = (es1, g1, d1)" by (metis prod_cases3)
  have es1: "es1 = filter (\<lambda>p. \<not> missing snap incoming (snd p)) (ar_ents r)"
    using drop_missing_filter [of snap incoming "ar_ents r" "ar_grid r" d] dm by simp
  have f1: "follows (ar_wId r) (core (r, d)) (map_of es1, g1, d1)"
    using drop_missing_follows [of "ar_wId r" "[]", OF _ _ w dm] m u by (simp add: core_def)
  have map1: "map_of es1 i = (case map_of (ar_ents r) i of None \<Rightarrow> None | Some e \<Rightarrow> if missing snap incoming e then None else Some e)" for i
    by (simp add: es1 map_of_filter_ok [OF u] split: option.splits)
  have remote: "ae_ownerWorker x \<noteq> ar_wId r" if k: "k \<in> fst ` set incoming" "map_of es1 k = Some x" for k x
  proof -
    obtain e where "(k, e) \<in> set incoming" using k(1) by auto
    then have "ae_entityId e = k" "snapshot_entity r snap e" using inc by (auto simp: incoming_ok_def)
    then show ?thesis using k(2) w by (auto simp: map1 snapshot_entity_def findById_def split: option.splits if_splits)
  qed
  have "indexes (ar_wId r) (map_of es1) g1" "same_shape g1 (ar_grid r)" "umap_ok es1"
    using f1 u by (auto simp: follows_def core_def es1)
  note a = absorb_all [OF inc w this(1,3,2) _ f [unfolded dm]]
  then have a: "follows (ar_wId r) (map_of es1, g1, d1) (map_of ents, g, d')" "umap_ok ents"
    "map_of ents i = (case map_of incoming i of None \<Rightarrow> map_of es1 i
      | Some e \<Rightarrow> if newer r snap (map_of es1 i) i then map_of es1 i else Some e)" for i
    using remote by blast+
  show "follows (ar_wId r) (core (r, d)) (map_of ents, g, d')" "umap_ok ents" using a(1,2) follows_trans [OF f1] by blast+
  have keep: "map_of es1 i = map_of (ar_ents r) i" if "map_of incoming i = Some e" for e
  proof -
    have "\<not> missing snap incoming x" if "map_of (ar_ents r) i = Some x" for x
      using indexesD(2) [OF m that] \<open>map_of incoming i = Some e\<close> by (simp add: missing_def placed_def)
    then show ?thesis by (auto simp: map1 split: option.splits)
  qed
  show "map_of ents i = (case map_of incoming i of
        None \<Rightarrow> (case map_of (ar_ents r) i of None \<Rightarrow> None | Some e \<Rightarrow> if missing snap incoming e then None else Some e)
      | Some e \<Rightarrow> if newer r snap (map_of (ar_ents r) i) i then map_of (ar_ents r) i else Some e)"
    using a(3) keep map1 by (auto split: option.splits)
qed

lemma snapshot_ok:
  fixes snap d
  assumes r: "replica_ok r"
  defines "s \<equiv> snd (ApplyOwnerSnapshot snap (r, d))"
  shows "replica_ok (fst s)" "ar_wId (fst s) = ar_wId r" "ar_map (fst s) = ar_map r" "ar_tombstones (fst s) = ar_tombstones r"
    "follows (ar_wId r) (core (r, d)) (core s)"
proof -
  have "replica_ok (fst s) \<and> ar_wId (fst s) = ar_wId r \<and> ar_map (fst s) = ar_map r \<and> ar_tombstones (fst s) = ar_tombstones r
    \<and> follows (ar_wId r) (core (r, d)) (core s)"
  proof (cases rule: ApplyOwnerSnapshot_cases [of snap r d])
    case (refused res)
    then show ?thesis using r follows_refl by (simp add: s_def replica_ok_def core_def)
  next
    case (applied incoming ents g d')
    note a = accepted_snapshot [OF r applied(1-3)]
    have gen: "tb_generation t < ae_entityGeneration e" if t: "map_of (ar_tombstones r) i = Some t" and e: "map_of ents i = Some e" for i t e
    proof (cases "map_of (ar_ents r) i = Some e")
      case True
      then show ?thesis using r t by (auto simp: replica_ok_def)
    next
      case False
      then obtain x where x: "map_of incoming i = Some x" "\<not> newer r snap (map_of (ar_ents r) i) i" "e = x"
        using e a(4) [of i] by (auto split: option.splits if_splits)
      then have "ae_entityId x = i" "snapshot_entity r snap x" using a(3) map_of_SomeD [OF x(1)] by (auto simp: incoming_ok_def)
      with x t show ?thesis by (auto simp: snapshot_entity_def newer_def not_less split: option.splits)
    qed
    have "indexes (ar_wId r) (map_of ents) g" using a(1) by (simp add: follows_def core_def)
    then show ?thesis using a(1,2) gen applied(4) by (auto simp: s_def replica_ok_def core_def)
  qed
  then show "replica_ok (fst s)" "ar_wId (fst s) = ar_wId r" "ar_map (fst s) = ar_map r" "ar_tombstones (fst s) = ar_tombstones r"
    "follows (ar_wId r) (core (r, d)) (core s)" by auto
qed

section \<open>Reachable replicas\<close>

definition radius_fits :: "SceneMap \<Rightarrow> AoiConfig \<Rightarrow> bool" where
  "radius_fits m cfg \<longleftrightarrow> uint (getCols m) + uint (viewRadiusCells cfg) < 2 ^ 31 \<and> uint (getRows m) + uint (viewRadiusCells cfg) < 2 ^ 31"

definition replica_of :: "u32 \<Rightarrow> AoiConfig \<Rightarrow> SceneMap \<Rightarrow> AoiReplica \<Rightarrow> bool" where
  "replica_of w cfg m r \<longleftrightarrow> replica_ok r \<and> ar_wId r = w \<and> ar_map r = m \<and> same_shape (ar_grid r) (grid_of m (viewRadiusCells cfg))"

lemma new_replica_ok:
  assumes "map_ok m" "radius_fits m cfg"
  shows "replica_of w cfg m (new_replica w cfg m)"
proof -
  have "grid_ok (grid_of m (viewRadiusCells cfg))" using assms grid_of_ok by (simp add: radius_fits_def)
  moreover have "cell_entities (grid_of m v) c = []" "cell_watchers (grid_of m v) c = []" for c v
    by (simp_all add: cell_entities_def cell_watchers_def grid_of_def new_grid_def)
  ultimately show ?thesis by (simp add: replica_of_def replica_ok_def new_replica_def indexes_def)
qed

lemma changes_shape: "changes w i (core s) (core s') \<Longrightarrow> same_shape (ar_grid (fst s')) (ar_grid (fst s))"
  by (simp add: changes_def core_def)

lemma follows_shape: "follows w (core s) (core s') \<Longrightarrow> same_shape (ar_grid (fst s')) (ar_grid (fst s))"
  by (simp add: follows_def core_def)

lemma replica_step_ok:
  assumes "replica_of w cfg m (fst s)"
  shows "replica_of w cfg m (fst (replica_step op s))"
proof -
  obtain r d where s: "s = (r, d)" by force
  have r: "replica_ok r" using assms by (simp add: replica_of_def s)
  have "same_shape (ar_grid (fst (replica_step op s))) (ar_grid r)"
  proof (cases op)
    case (REvent now ev src)
    then show ?thesis using Apply_ok(4) [OF r, of now ev src d] changes_shape [of _ _ "(r, d)"] by (cases "snd (Apply now ev src (r, d)) = (r, d)") (auto simp: s)
  next
    case (RSnapshot snap)
    then show ?thesis using snapshot_ok(5) [OF r, where snap = snap and d = d] follows_shape [of _ "(r, d)"] by (auto simp: s)
  qed
  then have "same_shape (ar_grid (fst (replica_step op s))) (grid_of m (viewRadiusCells cfg))"
    using assms same_shape_trans by (auto simp: replica_of_def s)
  then show ?thesis
    using assms Apply_ok(1-3) [OF r] snapshot_ok(1-3) [OF r] by (cases op) (auto simp: replica_of_def s)
qed

lemma replica_run_ok: "replica_of w cfg m (fst s) \<Longrightarrow> replica_of w cfg m (fst (replica_run ops s))"
  unfolding replica_run_def by (induction ops arbitrary: s) (auto simp: replica_step_ok)

lemma loaded_replica:
  assumes "Map_Load path cellSize source = Inr m" "radius_fits m cfg"
  shows "replica_of w cfg m (fst (replica_run ops (new_replica w cfg m, d)))"
  using new_replica_ok [OF Map_Load_ok [OF assms(1)] assms(2)] by (intro replica_run_ok) simp

section \<open>The query\<close>

lemma visible_in_cell_eq:
  assumes "\<And>i. i \<in> set es \<Longrightarrow> \<exists>e. findById r i = Some e \<and> ae_cellIdx e = idx" "distinct es" "set es \<inter> seen = {}"
  shows "visible_in_cell r ob incl idx es (seen, out) =
    (seen \<union> set (filter (\<lambda>i. incl \<or> i \<noteq> ob) es), out @ map (\<lambda>i. the (findById r i)) (filter (\<lambda>i. incl \<or> i \<noteq> ob) es))"
  using assms
proof (induction es arbitrary: seen out)
  case (Cons i es)
  from Cons.prems(1) [of i] obtain e where "findById r i = Some e" "ae_cellIdx e = idx" by auto
  then show ?case using Cons.prems Cons.IH by auto
qed simp

lemma visible_cells_eq:
  assumes m: "indexes w (map_of (ar_ents r)) (ar_grid r)" and "distinct cs"
    and "\<And>i c. c \<in> set cs \<Longrightarrow> i \<in> set (cell_entities (ar_grid r) c) \<Longrightarrow> i \<notin> seen"
  shows "snd (fold (\<lambda>idx. visible_in_cell r ob incl idx (cell_entities (ar_grid r) idx)) cs (seen, out)) =
    out @ map (\<lambda>i. the (findById r i)) (filter (\<lambda>i. incl \<or> i \<noteq> ob) (concat (map (cell_entities (ar_grid r)) cs)))"
  using assms(2,3)
proof (induction cs arbitrary: seen out)
  case (Cons c cs)
  note d = indexesD [OF m]
  have v: "visible_in_cell r ob incl c (cell_entities (ar_grid r) c) (seen, out) =
    (seen \<union> set (filter (\<lambda>i. incl \<or> i \<noteq> ob) (cell_entities (ar_grid r) c)),
     out @ map (\<lambda>i. the (findById r i)) (filter (\<lambda>i. incl \<or> i \<noteq> ob) (cell_entities (ar_grid r) c)))"
  proof (rule visible_in_cell_eq)
    show "set (cell_entities (ar_grid r) c) \<inter> seen = {}" using Cons.prems(2) by fastforce
  qed (use d(3) in \<open>auto simp: d(4) findById_def\<close>)
  have "i \<notin> seen \<union> set (filter (\<lambda>i. incl \<or> i \<noteq> ob) (cell_entities (ar_grid r) c))"
    if "c' \<in> set cs" "i \<in> set (cell_entities (ar_grid r) c')" for i c'
    using that Cons.prems d(4) [of i c] d(4) [of i c'] by auto
  then show ?case using Cons.IH Cons.prems(1) by (simp add: v)
qed simp

lemma getVisibleEntity_eq:
  assumes r: "replica_ok r" and ob: "findById r ob = Some oe"
  obtains out where "getVisibleEntity r ob incl = Some out" "distinct (map ae_entityId out)"
    "set out = {e \<in> view (map_of (ar_ents r)) (ar_grid r) ob. incl \<or> ae_entityId e \<noteq> ob}"
proof -
  let ?m = "map_of (ar_ents r)" and ?g = "ar_grid r"
  have m: "indexes (ar_wId r) ?m ?g" using r by (simp add: replica_ok_def)
  note d = indexesD [OF m]
  have p: "placed ?g ob oe" using d(2) ob by (simp add: findById_def)
  note watch = placed_watch [OF d(1) p]
  let ?cs = "getWatchCellIdx ?g (ae_x oe) (ae_y oe)"
  let ?is = "filter (\<lambda>i. incl \<or> i \<noteq> ob) (concat (map (cell_entities ?g) ?cs))"
  let ?out = "map (\<lambda>i. the (findById r i)) ?is"
  have mem: "i \<in> set ?is \<longleftrightarrow> (incl \<or> i \<noteq> ob) \<and> (\<exists>e. ?m i = Some e \<and> visible ?g (ae_cellIdx oe) (ae_cellIdx e))" for i
    using watch(1) by (auto simp: d(4))
  have "distinct (concat (map (cell_entities ?g) ?cs))"
    using watch(2) d(3) by (intro distinct_concat_map) (auto simp: d(4))
  then have dist: "distinct ?is" by simp
  have id: "ae_entityId e = i" if "?m i = Some e" for i e using d(2) that by (auto simp: placed_def)
  have ids: "ae_entityId (the (findById r i)) = i" if "i \<in> set ?is" for i
    using that mem [of i] d(2) [of i] by (auto simp: findById_def placed_def)
  then have "map ae_entityId ?out = ?is" by (auto intro!: map_idI simp: o_def)
  show ?thesis
  proof
    show "getVisibleEntity r ob incl = Some ?out"
      using visible_cells_eq [OF m watch(2), of "{}" ob incl "[]"] by (simp add: getVisibleEntity_def ob)
    show "distinct (map ae_entityId ?out)" unfolding \<open>map ae_entityId ?out = ?is\<close> by (rule dist)
    show "set ?out = {e \<in> view ?m ?g ob. incl \<or> ae_entityId e \<noteq> ob}"
    proof (intro equalityI subsetI)
      fix e assume "e \<in> set ?out"
      then obtain i where i: "i \<in> set ?is" "e = the (findById r i)" by (auto simp only: set_map image_iff)
      then show "e \<in> {e \<in> view ?m ?g ob. incl \<or> ae_entityId e \<noteq> ob}"
        using mem [of i] ids [of i] ob by (auto simp: view_def findById_def)
    next
      fix e assume e: "e \<in> {e \<in> view ?m ?g ob. incl \<or> ae_entityId e \<noteq> ob}"
      then obtain i where i: "?m i = Some e" "visible ?g (ae_cellIdx oe) (ae_cellIdx e)" using ob by (auto simp: view_def findById_def)
      then have "i \<in> set ?is" using e mem [of i] id by auto
      moreover have "e = the (findById r i)" using i(1) by (simp add: findById_def)
      ultimately show "e \<in> set ?out" by (simp only: set_map) blast
    qed
  qed
qed

section \<open>Properties of the replica\<close>

text \<open>In view of each other: the cells of the two positions are at most the view radius apart, in both directions.\<close>

definition in_view :: "SceneMap \<Rightarrow> AoiConfig \<Rightarrow> AoiEntity \<Rightarrow> AoiEntity \<Rightarrow> bool" where
  "in_view m cfg a b \<longleftrightarrow>
     \<bar>uint (ae_x a) div uint (sm_cellSize m) - uint (ae_x b) div uint (sm_cellSize m)\<bar> \<le> uint (viewRadiusCells cfg) \<and>
     \<bar>uint (ae_y a) div uint (sm_cellSize m) - uint (ae_y b) div uint (sm_cellSize m)\<bar> \<le> uint (viewRadiusCells cfg)"

lemma visible_in_view:
  assumes r: "replica_of w cfg m r" and m: "map_ok m" and a: "findById r i = Some a" and b: "findById r j = Some b"
  shows "visible (ar_grid r) (ae_cellIdx a) (ae_cellIdx b) \<longleftrightarrow> in_view m cfg a b"
proof -
  let ?g = "ar_grid r"
  have ix: "indexes w (map_of (ar_ents r)) ?g" and s: "same_shape ?g (grid_of m (viewRadiusCells cfg))"
    using r by (auto simp: replica_of_def replica_ok_def)
  note d = indexesD [OF ix]
  have pa: "TryCellOf ?g (ae_x a) (ae_y a) = Some (ae_cellIdx a)" and pb: "TryCellOf ?g (ae_x b) (ae_y b) = Some (ae_cellIdx b)"
    using d(2) [of i a] d(2) [of j b] a b by (simp_all add: findById_def placed_def)
  note ca = TryCellOf_cell [OF d(1) pa] and cb = TryCellOf_cell [OF d(1) pb]
  have "ag_minX ?g = 0" "ag_minY ?g = 0" "ag_cellSize ?g = sm_cellSize m" "ag_r ?g = viewRadiusCells cfg"
    using s m by (auto simp: same_shape_def grid_of_def new_grid_def map_ok_def)
  moreover have "ag_cols ?g \<noteq> 0" using ca(1) by auto
  ultimately show ?thesis using visible_iff [OF d(1), of "ae_cellIdx a" "ae_cellIdx b"] ca cb by (auto simp: in_view_def)
qed

text \<open>
  C19. The visible entities are exactly right. In every state a replica can reach, whatever events and snapshots it was given, the
  query for an observer returns each entity at most once, and it returns an entity precisely when the replica knows
  it and its position is within the view radius of the observer's position, counted in cells; the observer itself only when asked for.
\<close>

theorem visible_entities_exact:
  assumes "Map_Load path cellSize source = Inr m" and "radius_fits m cfg"
    and r: "r = fst (replica_run ops (new_replica w cfg m, {}))" and ob: "findById r ob = Some oe"
  shows "\<exists>out. getVisibleEntity r ob incl = Some out \<and> distinct (map ae_entityId out) \<and>
    (e \<in> set out \<longleftrightarrow> findById r (ae_entityId e) = Some e \<and> in_view m cfg oe e \<and> (incl \<or> ae_entityId e \<noteq> ob))"
proof -
  have ro: "replica_of w cfg m r" using loaded_replica [OF assms(1,2)] r by simp
  then have ok: "replica_ok r" by (simp add: replica_of_def)
  have id: "map_of (ar_ents r) i = Some e \<Longrightarrow> ae_entityId e = i" for i e
    using replica_entity(2) [OF ok] by (simp add: findById_def)
  obtain out where out: "getVisibleEntity r ob incl = Some out" "distinct (map ae_entityId out)"
    "set out = {e \<in> view (map_of (ar_ents r)) (ar_grid r) ob. incl \<or> ae_entityId e \<noteq> ob}"
    by (rule getVisibleEntity_eq [OF ok ob])
  have "e \<in> set out \<longleftrightarrow> findById r (ae_entityId e) = Some e \<and> visible (ar_grid r) (ae_cellIdx oe) (ae_cellIdx e)
      \<and> (incl \<or> ae_entityId e \<noteq> ob)"
    using ob id by (auto simp: out(3) view_def findById_def)
  moreover have "findById r (ae_entityId e) = Some e \<Longrightarrow> visible (ar_grid r) (ae_cellIdx oe) (ae_cellIdx e) = in_view m cfg oe e"
    by (rule visible_in_view [OF ro Map_Load_ok [OF assms(1)] ob])
  ultimately show ?thesis using out(1,2) by blast
qed

definition demo_map :: SceneMap where
  "demo_map = (case Map_Load (ascii ''m'') 100 (Some (Inr demo_config)) of Inr m \<Rightarrow> m | Inl _ \<Rightarrow> empty_map)"

definition demo_event :: "AoiMsgKind \<Rightarrow> u64 \<Rightarrow> u32 \<Rightarrow> u32 \<Rightarrow> u32 \<Rightarrow> u64 \<Rightarrow> AoiEvent" where
  "demo_event kind i owner x gen n = \<lparr>av_msgKind = kind, av_entityKind = kPlayer, av_eId = i, av_businessId = i, av_target_x = x,
     av_target_y = 10, av_target_dir = 0, av_entityGeneration = gen, av_actorEpoch = 1, av_spatialVersion = n,
     av_ownerThreadId = owner, av_ownerSeq = n\<rparr>"

text \<open>A player of thread 1 in the first cell, and one of thread 2 in the third cell of the same row.\<close>

definition demo_ops :: "replica_op list" where
  "demo_ops = [REvent 0 (demo_event kEntry 7 1 10 1 1) kLocal, REvent 0 (demo_event kEntry 9 2 210 1 1) kRemote]"

lemma demo_map_loads: "Map_Load (ascii ''m'') 100 (Some (Inr demo_config)) = Inr demo_map"
proof -
  have "case Map_Load (ascii ''m'') 100 (Some (Inr demo_config)) of Inl _ \<Rightarrow> False | Inr _ \<Rightarrow> True" by code_simp
  then show ?thesis by (auto simp: demo_map_def split: sum.splits)
qed

lemma demo_map_fits: "radius_fits demo_map default_aoi_config"
  unfolding radius_fits_def by code_simp

theorem visible_entities_exact_witness:
  "\<exists>out. getVisibleEntity (fst (replica_run demo_ops (new_replica 1 default_aoi_config demo_map, {}))) 7 True = Some out
     \<and> distinct (map ae_entityId out)"
proof -
  have "findById (fst (replica_run demo_ops (new_replica 1 default_aoi_config demo_map, {}))) 7 \<noteq> None" by code_simp
  then show ?thesis using visible_entities_exact [OF demo_map_loads demo_map_fits refl] by blast
qed

text \<open>What the query shows an observer; nothing when the observer is not in the scene.\<close>

definition seen_by :: "AoiReplica \<Rightarrow> u64 \<Rightarrow> bool \<Rightarrow> AoiEntity set" where
  "seen_by r ob incl = (case getVisibleEntity r ob incl of None \<Rightarrow> {} | Some out \<Rightarrow> set out)"

lemma seen_by_view:
  assumes "replica_ok r"
  shows "seen_by r ob incl = {e \<in> view (map_of (ar_ents r)) (ar_grid r) ob. incl \<or> ae_entityId e \<noteq> ob}"
proof (cases "findById r ob")
  case None
  then show ?thesis by (simp add: seen_by_def getVisibleEntity_def view_def findById_def)
next
  case (Some oe)
  obtain out where "getVisibleEntity r ob incl = Some out"
    "set out = {e \<in> view (map_of (ar_ents r)) (ar_grid r) ob. incl \<or> ae_entityId e \<noteq> ob}"
    by (rule getVisibleEntity_eq [OF assms Some])
  then show ?thesis by (simp add: seen_by_def)
qed

lemma step_marks:
  assumes ok: "replica_ok r" and s': "s' = replica_step op (r, d)"
    and ob: "findById (fst s') ob = Some oe" "ae_ownerWorker oe = ar_wId r"
    and new: "seen_by r ob incl \<noteq> seen_by (fst s') ob incl"
  shows "ob \<in> snd s'"
proof -
  let ?w = "ar_wId r"
  have ok': "replica_ok (fst s')" using Apply_ok(1) [OF ok] snapshot_ok(1) [OF ok] by (cases op) (auto simp: s')
  have m: "indexes ?w (map_of (ar_ents r)) (ar_grid r)" using ok by (simp add: replica_ok_def)
  have lo: "local_observer ?w (map_of (ar_ents (fst s'))) ob" using ob by (auto simp: local_observer_def findById_def)
  have v: "view (map_of (ar_ents r)) (ar_grid r) ob \<noteq> view (map_of (ar_ents (fst s'))) (ar_grid (fst s')) ob"
    using new seen_by_view [OF ok] seen_by_view [OF ok'] by auto
  show ?thesis
  proof (cases op)
    case (REvent now ev src)
    then have e: "s' = snd (Apply now ev src (r, d))" by (simp add: s')
    then have "s' \<noteq> (r, d)" using v by auto
    then have "changes ?w (av_eId ev) (core (r, d)) (core s')" using Apply_ok(4) [OF ok] e by auto
    then show ?thesis using changes_marks [OF m _ lo v] by (auto simp: core_def)
  next
    case (RSnapshot snap)
    then have "follows ?w (core (r, d)) (core s')" using snapshot_ok(5) [OF ok] by (simp add: s')
    then show ?thesis using lo v by (auto simp: follows_def core_def)
  qed
qed

text \<open>
  C21. No view goes stale. Whenever an event or a snapshot changes what the query shows one of the thread's own observers, be
  it that an entity came into view, left it or changed in any field, that observer is among the marked ones.
\<close>

theorem changed_view_is_marked:
  assumes "Map_Load path cellSize source = Inr m" and "radius_fits m cfg"
    and s: "s = replica_run ops (new_replica w cfg m, {})" and s': "s' = replica_step op s"
    and ob: "findById (fst s') ob = Some oe" "ae_ownerWorker oe = w"
    and new: "seen_by (fst s) ob incl \<noteq> seen_by (fst s') ob incl"
  shows "ob \<in> snd s'"
proof -
  have "replica_of w cfg m (fst s)" using loaded_replica [OF assms(1,2)] s by simp
  then have "replica_ok (fst s)" "ar_wId (fst s) = w" by (auto simp: replica_of_def)
  with step_marks [of "fst s" s' op "snd s" ob oe incl] s' ob new show ?thesis by simp
qed

theorem changed_view_is_marked_witness:
  "7 \<in> snd (replica_step (REvent 0 (demo_event kMove 9 2 110 1 2) kRemote)
     (replica_run demo_ops (new_replica 1 default_aoi_config demo_map, {})))"
proof -
  let ?s = "replica_run demo_ops (new_replica 1 default_aoi_config demo_map, {})"
  let ?s' = "replica_step (REvent 0 (demo_event kMove 9 2 110 1 2) kRemote) ?s"
  have "case findById (fst ?s') 7 of None \<Rightarrow> False | Some oe \<Rightarrow> ae_ownerWorker oe = 1" by code_simp
  then obtain oe where oe: "findById (fst ?s') 7 = Some oe" "ae_ownerWorker oe = 1" by (auto split: option.splits)
  have "card (seen_by (fst ?s) 7 False) = 0" "card (seen_by (fst ?s') 7 False) = 1" by code_simp+
  then have "seen_by (fst ?s) 7 False \<noteq> seen_by (fst ?s') 7 False" by (metis zero_neq_one)
  then show ?thesis by (rule changed_view_is_marked [OF demo_map_loads demo_map_fits refl refl oe])
qed

text \<open>Tombstones are never removed, and never replaced by those of earlier generations.\<close>

lemma tombstone_step:
  assumes "replica_ok (fst s)" "map_of (ar_tombstones (fst s)) i = Some t"
  shows "\<exists>t'. map_of (ar_tombstones (fst (replica_step op s))) i = Some t' \<and> tb_generation t \<le> tb_generation t'"
proof -
  obtain r d where s: "s = (r, d)" by force
  show ?thesis
  proof (cases op)
    case (RSnapshot snap)
    then show ?thesis using assms snapshot_ok(4) [of r snap d] by (auto simp: s)
  next
    case (REvent now ev src)
    show ?thesis
    proof (cases rule: Apply_cases [of now ev src "(r, d)"])
      case (refused res)
      then show ?thesis using assms REvent by (auto simp: s)
    next
      case (applied c)
      have chk: "check_event r ev src = Inr c" using applied(1) by simp
      note k = check_event_Inr [OF chk]
      obtain g where "fst (snd (Apply now ev src (r, d))) = (if av_msgKind ev = kLeave then (buried now ev r)\<lparr>ar_grid := g\<rparr>
          else put_entity ev c empty_entity (r\<lparr>ar_grid := g\<rparr>))"
        by (rule Apply_tables [OF chk])
      then show ?thesis using assms REvent k(6) [of t]
        by (auto simp: s buried_def put_entity_def initTombstone_def dest: less_imp_le)
    qed
  qed
qed

lemma tombstone_run:
  assumes "replica_of w cfg m (fst s)" "map_of (ar_tombstones (fst s)) i = Some t"
  shows "\<exists>t'. map_of (ar_tombstones (fst (replica_run ops s))) i = Some t' \<and> tb_generation t \<le> tb_generation t'"
  using assms
proof (induction ops arbitrary: s t)
  case Nil
  then show ?case by (simp add: replica_run_def)
next
  case (Cons op ops)
  obtain t1 where t1: "map_of (ar_tombstones (fst (replica_step op s))) i = Some t1" "tb_generation t \<le> tb_generation t1"
    using tombstone_step [of s i t op] Cons.prems by (auto simp: replica_of_def)
  from Cons.IH [OF replica_step_ok [OF Cons.prems(1)] t1(1)] t1(2) show ?case by (force simp: replica_run_def)
qed

text \<open>
  C22. An entity that left does not come back. Once the departure of an entity was applied, no later event or snapshot, however
  late or out of order it arrives, brings the entity back in the generation that left or an earlier one.
\<close>

theorem departed_entity_stays_away:
  assumes "Map_Load path cellSize source = Inr m" and "radius_fits m cfg"
    and left: "Apply now ev src (replica_run before (new_replica w cfg m, {})) = (kApplied, s)" "av_msgKind ev = kLeave"
    and again: "findById (fst (replica_run later s)) (av_eId ev) = Some e"
  shows "av_entityGeneration ev < ae_entityGeneration e"
proof -
  let ?s0 = "replica_run before (new_replica w cfg m, {})"
  obtain r d where s0: "?s0 = (r, d)" by force
  have ro: "replica_of w cfg m (fst ?s0)" by (rule loaded_replica [OF assms(1,2)])
  have "replica_step (REvent now ev src) ?s0 = s" using left by simp
  then have rs: "replica_of w cfg m (fst s)" using replica_step_ok [OF ro] by metis
  obtain c where c: "check_event r ev src = Inr c"
    using left(1) by (cases rule: Apply_cases [of now ev src "?s0"]) (auto simp: s0)
  have "snd (Apply now ev src (r, d)) = s" using left(1) s0 by simp
  then obtain g where "fst s = (buried now ev r)\<lparr>ar_grid := g\<rparr>"
    using Apply_tables [OF c, of now d] left(2) by metis
  then have "map_of (ar_tombstones (fst s)) (av_eId ev) = Some (initTombstone now ev)" by (simp add: buried_def)
  from tombstone_run [OF rs this, of later] obtain t where
    t: "map_of (ar_tombstones (fst (replica_run later s))) (av_eId ev) = Some t" "av_entityGeneration ev \<le> tb_generation t"
    by (auto simp: initTombstone_def)
  have "replica_ok (fst (replica_run later s))" using replica_run_ok [OF rs] by (simp add: replica_of_def)
  then have "tb_generation t < ae_entityGeneration e" using t(1) again unfolding replica_ok_def findById_def by blast
  with t(2) show ?thesis by simp
qed

theorem departed_entity_stays_away_witness:
  "\<exists>s e. Apply 0 (demo_event kLeave 9 2 0 1 3) kRemote (replica_run demo_ops (new_replica 1 default_aoi_config demo_map, {})) = (kApplied, s)
     \<and> findById (fst (replica_run [REvent 0 (demo_event kEntry 9 2 30 1 2) kRemote, REvent 0 (demo_event kEntry 9 2 30 2 4) kRemote] s)) 9 = Some e
     \<and> 1 < ae_entityGeneration e"
proof -
  let ?ev = "demo_event kLeave 9 2 0 1 3" and ?s0 = "replica_run demo_ops (new_replica 1 default_aoi_config demo_map, {})"
  let ?later = "[REvent 0 (demo_event kEntry 9 2 30 1 2) kRemote, REvent 0 (demo_event kEntry 9 2 30 2 4) kRemote]"
  have "fst (Apply 0 ?ev kRemote ?s0) = kApplied" by code_simp
  then obtain s where s: "Apply 0 ?ev kRemote ?s0 = (kApplied, s)" by (cases "Apply 0 ?ev kRemote ?s0") auto
  have "findById (fst (replica_run ?later (snd (Apply 0 ?ev kRemote ?s0)))) 9 \<noteq> None" by code_simp
  then have "findById (fst (replica_run ?later s)) 9 \<noteq> None" by (simp only: s snd_conv not_False_eq_True)
  moreover have id: "av_eId ?ev = 9" "av_entityGeneration ?ev = 1" by (simp_all add: demo_event_def)
  ultimately obtain e where e: "findById (fst (replica_run ?later s)) (av_eId ?ev) = Some e" by auto
  have "av_entityGeneration ?ev < ae_entityGeneration e"
    by (rule departed_entity_stays_away [OF demo_map_loads demo_map_fits s _ e]) (simp add: demo_event_def)
  with s e show ?thesis unfolding id by blast
qed

text \<open>The entities of a snapshot that was taken of a replica of the same map.\<close>

lemma owned_entities:
  assumes "replica_ok r"
  shows "e \<in> set (ForEachOwned r) \<longleftrightarrow> findById r (ae_entityId e) = Some e \<and> ae_ownerWorker e = ar_wId r"
proof -
  have u: "umap_ok (ar_ents r)" using assms by (simp add: replica_ok_def)
  have id: "ae_entityId x = i" if "(i, x) \<in> set (ar_ents r)" for i x
    using that umap_mem_iff [OF u] replica_entity(2) [OF assms] by (simp add: findById_def)
  have "e \<in> snd ` set (ar_ents r) \<longleftrightarrow> (ae_entityId e, e) \<in> set (ar_ents r)"
  proof
    assume "e \<in> snd ` set (ar_ents r)"
    then obtain i where i: "(i, e) \<in> set (ar_ents r)" by auto
    with id [OF i] show "(ae_entityId e, e) \<in> set (ar_ents r)" by simp
  next
    assume "(ae_entityId e, e) \<in> set (ar_ents r)"
    then show "e \<in> snd ` set (ar_ents r)" by (rule image_eqI [rotated]) simp
  qed
  then show ?thesis using umap_mem_iff [OF u] by (simp add: ForEachOwned_def findById_def)
qed

lemma check_snapshot_inside:
  "check_snapshot r snap ents inc = Inr incoming \<Longrightarrow> ent \<in> set ents \<Longrightarrow> target_cell r (ae_x ent) (ae_y ent) \<noteq> None"
  by (induction ents arbitrary: inc) (auto simp: check_snapshot_entity_def Let_def split: sum.splits if_splits option.splits)

lemma snapshot_of_owner:
  assumes ro: "replica_ok ro" and same: "TryCellOf (ar_grid r) = TryCellOf (ar_grid ro)"
    and chk: "check_snapshot r snap (ForEachOwned ro) [] = Inr incoming"
  shows "map_of incoming i = Some e \<longleftrightarrow> findById ro i = Some e \<and> ae_ownerWorker e = ar_wId ro"
proof -
  have cell: "target_cell r (ae_x x) (ae_y x) = Some c \<longleftrightarrow> c = ae_cellIdx x" if x: "x \<in> set (ForEachOwned ro)" for x c
  proof -
    have "placed (ar_grid ro) (ae_entityId x) x"
      using x owned_entities [OF ro] replica_entity(1) [OF ro] by blast
    then show ?thesis using check_snapshot_inside [OF chk x] by (auto simp: target_cell_def placed_def same split: if_splits)
  qed
  have "map_of incoming i = Some e \<longleftrightarrow> (\<exists>x \<in> set (ForEachOwned ro). ae_entityId x = i \<and>
      target_cell r (ae_x x) (ae_y x) = Some (ae_cellIdx e) \<and> e = x\<lparr>ae_cellIdx := ae_cellIdx e\<rparr>)"
    using check_snapshot_Inr [OF chk, of i e] by (simp add: incoming_ok_def)
  also have "\<dots> \<longleftrightarrow> (\<exists>x \<in> set (ForEachOwned ro). ae_entityId x = i \<and> e = x)"
    using cell by (intro bex_cong refl) auto
  also have "\<dots> \<longleftrightarrow> findById ro i = Some e \<and> ae_ownerWorker e = ar_wId ro"
  proof -
    show ?thesis using owned_entities [OF ro] replica_entity(2) [OF ro] by blast
  qed
  finally show ?thesis .
qed

text \<open>
  C20. Replicas converge. When a thread accepts the snapshot of all entities that another thread owns, and has heard nothing of an entity that
  is newer than the snapshot, then the two replicas agree about that entity as far as the owner is concerned, in all its fields: if it was
  missed it is there, and if it had gone it is gone.
\<close>

theorem replicas_converge:
  assumes "Map_Load path cellSize source = Inr m" and "radius_fits m cfg"
    and own: "ro = fst (replica_run ops1 (new_replica w1 cfg m, {}))"
    and mine: "s = replica_run ops2 (new_replica w2 cfg m, {})"
    and snap: "snap = \<lparr>os_seq = n, os_ownerWokerId = w1, os_ents = ForEachOwned ro\<rparr>"
    and acc: "ApplyOwnerSnapshot snap s = (kApplied, s')"
    and known: "\<And>x. findById (fst s) i = Some x \<Longrightarrow> ae_ownerSeq x \<le> n" "\<And>t. map_of (ar_tombstones (fst s)) i = Some t \<Longrightarrow> tb_ownerSeq t \<le> n"
  shows "findById (fst s') i = Some e \<and> ae_ownerWorker e = w1 \<longleftrightarrow> findById ro i = Some e \<and> ae_ownerWorker e = w1"
proof -
  obtain r d where rd: "s = (r, d)" by force
  have o1: "replica_of w1 cfg m ro" using loaded_replica [OF assms(1,2)] own by simp
  have o2: "replica_of w2 cfg m r" using loaded_replica [OF assms(1,2), of w2 ops2 "{}"] mine rd by (metis fst_conv)
  have ok: "replica_ok r" "replica_ok ro" and wid: "ar_wId ro = w1" using o1 o2 by (auto simp: replica_of_def)
  obtain incoming ents g d' where a: "os_ownerWokerId snap \<noteq> ar_wId r" "check_snapshot r snap (os_ents snap) [] = Inr incoming"
      "fold (absorb r snap) (map snd incoming) (drop_missing snap incoming (ar_ents r) (ar_grid r, d)) = (ents, g, d')"
      "ar_ents (fst s') = ents"
    using acc by (cases rule: ApplyOwnerSnapshot_cases [of snap r d]) (auto simp: rd)
  have old: "\<not> newer r snap (map_of (ar_ents r) i) i"
    using known by (auto simp: newer_def rd snap findById_def not_less split: option.splits)
  have "TryCellOf (ar_grid r) = TryCellOf (ar_grid ro)" using o1 o2 same_shape_geometry(1) by (metis replica_of_def)
  then have inc: "map_of incoming i = Some e \<longleftrightarrow> findById ro i = Some e \<and> ae_ownerWorker e = w1" for e
    using snapshot_of_owner [OF ok(2)] a(2) wid by (simp add: snap)
  have gone: "ae_ownerWorker x = w1 \<longleftrightarrow> missing snap incoming x" if "map_of (ar_ents r) i = Some x" "map_of incoming i = None" for x
    using that known(1) [of x] replica_entity(2) [OF ok(1), of i x] by (auto simp: missing_def snap rd findById_def)
  show ?thesis
    using accepted_snapshot(4) [OF ok(1) a(1-3), of i] inc gone old a(4) by (auto simp: findById_def split: option.splits if_splits)
qed

theorem replicas_converge_witness:
  "\<exists>s'. ApplyOwnerSnapshot \<lparr>os_seq = 5, os_ownerWokerId = 2, os_ents = ForEachOwned (fst (replica_run
       [REvent 0 (demo_event kEntry 8 2 60 1 4) kLocal] (new_replica 2 default_aoi_config demo_map, {})))\<rparr>
       (replica_run demo_ops (new_replica 1 default_aoi_config demo_map, {})) = (kApplied, s')
     \<and> \<not> (\<exists>e. findById (fst s') 9 = Some e \<and> ae_ownerWorker e = 2)"
proof -
  let ?ro = "fst (replica_run [REvent 0 (demo_event kEntry 8 2 60 1 4) kLocal] (new_replica 2 default_aoi_config demo_map, {}))"
  let ?snap = "\<lparr>os_seq = 5, os_ownerWokerId = 2, os_ents = ForEachOwned ?ro\<rparr>"
  let ?s = "replica_run demo_ops (new_replica 1 default_aoi_config demo_map, {})"
  have "fst (ApplyOwnerSnapshot ?snap ?s) = kApplied" by code_simp
  then obtain s' where s': "ApplyOwnerSnapshot ?snap ?s = (kApplied, s')" by (cases "ApplyOwnerSnapshot ?snap ?s") auto
  have gone: "findById ?ro 9 = None" by code_simp
  have tomb: "map_of (ar_tombstones (fst ?s)) 9 = None" by code_simp
  have "case findById (fst ?s) 9 of None \<Rightarrow> True | Some x \<Rightarrow> ae_ownerSeq x \<le> 5" by code_simp
  then have seq: "ae_ownerSeq x \<le> 5" if "findById (fst ?s) 9 = Some x" for x using that by simp
  have "findById (fst s') 9 = Some e \<and> ae_ownerWorker e = 2 \<longleftrightarrow> findById ?ro 9 = Some e \<and> ae_ownerWorker e = 2" for e
    by (rule replicas_converge [OF demo_map_loads demo_map_fits refl refl refl s']) (use seq tomb in auto)
  with gone s' show ?thesis by auto
qed

end
