(* ===== verification/AoiWire.thy ===== *)
theory AoiWire
  imports AoiReplica Messages
begin

text \<open>
  The messages that carry events and snapshots between logic threads, sceneServer/src-cpp/service/aoi/aoiWire.h. The
  reader's position is modelled by the bytes that are left; a failed read, like every refusal of a decoder, is \<open>None\<close>.
\<close>

section \<open>Fields\<close>

definition aoi_kVersion :: u16 where "aoi_kVersion = 1"
definition kEventBytes :: nat where "kEventBytes = 62"
definition kMaxSnapshotEntities :: int where "kMaxSnapshotEntities = 65536"

definition msg_code :: "AoiMsgKind \<Rightarrow> u16" where
  "msg_code k = (case k of kEntry \<Rightarrow> 1 | kMove \<Rightarrow> 2 | kLeave \<Rightarrow> 3 | kInvalidMsg \<Rightarrow> 255)"

definition entity_code :: "EntityKind \<Rightarrow> u16" where
  "entity_code k = (case k of kPlayer \<Rightarrow> 1 | kMonster \<Rightarrow> 2 | kNpc \<Rightarrow> 3 | kDrop \<Rightarrow> 4 | kInvalidEntity \<Rightarrow> 255)"

text \<open>The casts of \<open>ReadEvent\<close>, on the values it lets through.\<close>

definition msg_of_code :: "u64 \<Rightarrow> AoiMsgKind option" where
  "msg_of_code v = (if v < 1 \<or> v > 3 then None else Some (if v = 1 then kEntry else if v = 2 then kMove else kLeave))"

definition entity_of_code :: "u64 \<Rightarrow> EntityKind option" where
  "entity_of_code v = (if v < 1 \<or> v > 4 then None
     else Some (if v = 1 then kPlayer else if v = 2 then kMonster else if v = 3 then kNpc else kDrop))"

definition U64 :: "bytes \<Rightarrow> u64 \<Rightarrow> bytes" where
  "U64 s v = s @ put_le 8 v"

definition reader_read :: "nat \<Rightarrow> bytes \<Rightarrow> (u64 \<times> bytes) option" where
  "reader_read n body = (if n > length body then None else Some (get_le (take n body), drop n body))"

section \<open>Events\<close>

definition ValidEvent :: "AoiEvent \<Rightarrow> bool" where
  "ValidEvent e \<longleftrightarrow> av_eId e \<noteq> 0 \<and> ValidEntityKind (av_entityKind e)
     \<and> (av_msgKind e = kEntry \<or> av_msgKind e = kMove \<or> av_msgKind e = kLeave)"

definition WriteEvent :: "bytes \<Rightarrow> AoiEvent \<Rightarrow> bytes" where
  "WriteEvent s e =
     (let s = PutU16 s (msg_code (av_msgKind e)); s = PutU16 s (entity_code (av_entityKind e));
          s = U64 s (av_eId e); s = U64 s (av_businessId e);
          s = PutU32 s (av_target_x e); s = PutU32 s (av_target_y e); s = PutU32 s (av_target_dir e);
          s = PutU32 s (av_entityGeneration e); s = PutU32 s (av_actorEpoch e);
          s = U64 s (av_spatialVersion e); s = PutU32 s (av_ownerThreadId e)
      in U64 s (av_ownerSeq e))"

definition ReadEvent :: "bytes \<Rightarrow> (AoiEvent \<times> bytes) option" where
  "ReadEvent r = do {
     (v, r) \<leftarrow> reader_read 2 r;
     msgKind \<leftarrow> msg_of_code v;
     (v, r) \<leftarrow> reader_read 2 r;
     entityKind \<leftarrow> entity_of_code v;
     (eId, r) \<leftarrow> reader_read 8 r;
     (businessId, r) \<leftarrow> reader_read 8 r;
     (x, r) \<leftarrow> reader_read 4 r;
     (y, r) \<leftarrow> reader_read 4 r;
     (dir, r) \<leftarrow> reader_read 4 r;
     (generation, r) \<leftarrow> reader_read 4 r;
     (epoch, r) \<leftarrow> reader_read 4 r;
     (version, r) \<leftarrow> reader_read 8 r;
     (owner, r) \<leftarrow> reader_read 4 r;
     (ownerSeq, r) \<leftarrow> reader_read 8 r;
     let e = \<lparr>av_msgKind = msgKind, av_entityKind = entityKind, av_eId = eId, av_businessId = businessId, av_target_x = ucast x,
              av_target_y = ucast y, av_target_dir = ucast dir, av_entityGeneration = ucast generation, av_actorEpoch = ucast epoch,
              av_spatialVersion = version, av_ownerThreadId = ucast owner, av_ownerSeq = ownerSeq\<rparr>
     in if ValidEvent e then Some (e, r) else None }"

definition EncodeEvent :: "AoiEvent \<Rightarrow> bytes option" where
  "EncodeEvent e = (if \<not> ValidEvent e then None else Some (WriteEvent (PutU16 [] aoi_kVersion) e))"

definition DecodeEvent :: "bytes \<Rightarrow> AoiEvent option" where
  "DecodeEvent s = do {
     (version, r) \<leftarrow> reader_read 2 s;
     if version \<noteq> ucast aoi_kVersion then None
     else do { (e, r) \<leftarrow> ReadEvent r; if r \<noteq> [] then None else Some e } }"

definition AOI_ENTRY :: u16 where "AOI_ENTRY = 1"
definition AOI_MOVE :: u16 where "AOI_MOVE = 2"
definition AOI_LEAVE :: u16 where "AOI_LEAVE = 3"

definition EventMethod :: "AoiMsgKind \<Rightarrow> u16" where
  "EventMethod kind = (case kind of kEntry \<Rightarrow> AOI_ENTRY | kMove \<Rightarrow> AOI_MOVE | kLeave \<Rightarrow> AOI_LEAVE | kInvalidMsg \<Rightarrow> 0)"

section \<open>Snapshots\<close>

definition SnapshotEvent :: "AoiEntity \<Rightarrow> AoiEvent" where
  "SnapshotEvent e = \<lparr>av_msgKind = kEntry, av_entityKind = ae_kind e, av_eId = ae_entityId e, av_businessId = ae_businessId e,
     av_target_x = ae_x e, av_target_y = ae_y e, av_target_dir = ae_dir e, av_entityGeneration = ae_entityGeneration e,
     av_actorEpoch = ae_actorEpoch e, av_spatialVersion = ae_spatialVersion e, av_ownerThreadId = ae_ownerWorker e,
     av_ownerSeq = ae_ownerSeq e\<rparr>"

definition snapshot_event_ok :: "u32 \<Rightarrow> u64 \<Rightarrow> u64 set \<Rightarrow> AoiEvent \<Rightarrow> bool" where
  "snapshot_event_ok owner sq seen e \<longleftrightarrow> av_ownerThreadId e = owner \<and> av_ownerSeq e \<le> sq \<and> av_eId e \<notin> seen"

fun encode_entities :: "u32 \<Rightarrow> u64 \<Rightarrow> AoiEntity list \<Rightarrow> u64 set \<Rightarrow> bytes \<Rightarrow> bytes option" where
  "encode_entities owner sq [] seen s = Some s"
| "encode_entities owner sq (ent # ents) seen s =
     (let e = SnapshotEvent ent
      in if \<not> ValidEvent e \<or> \<not> snapshot_event_ok owner sq seen e then None
         else encode_entities owner sq ents (insert (av_eId e) seen) (WriteEvent s e))"

definition EncodeSnapshot :: "AoiOwnerSnapshot \<Rightarrow> bytes option" where
  "EncodeSnapshot snap =
     (if int (length (os_ents snap)) > kMaxSnapshotEntities then None
      else let s = PutU16 [] aoi_kVersion; s = PutU32 s (os_ownerWokerId snap); s = U64 s (os_seq snap);
               s = PutU32 s (of_nat (length (os_ents snap)))
           in encode_entities (os_ownerWokerId snap) (os_seq snap) (os_ents snap) {} s)"

fun decode_entities :: "u32 \<Rightarrow> u64 \<Rightarrow> nat \<Rightarrow> u64 set \<Rightarrow> bytes \<Rightarrow> (AoiEntity list \<times> bytes) option" where
  "decode_entities owner sq 0 seen r = Some ([], r)"
| "decode_entities owner sq (Suc n) seen r =
     (case ReadEvent r of
        None \<Rightarrow> None
      | Some (e, r) \<Rightarrow>
          if av_msgKind e \<noteq> kEntry \<or> \<not> snapshot_event_ok owner sq seen e then None
          else map_option (\<lambda>(ents, r). (updateEntity e 0 empty_entity # ents, r)) (decode_entities owner sq n (insert (av_eId e) seen) r))"

definition DecodeSnapshot :: "bytes \<Rightarrow> AoiOwnerSnapshot option" where
  "DecodeSnapshot s = do {
     (v, r) \<leftarrow> reader_read 2 s;
     if v \<noteq> ucast aoi_kVersion then None
     else do {
       (owner, r) \<leftarrow> reader_read 4 r;
       (sq, r) \<leftarrow> reader_read 8 r;
       (count, r) \<leftarrow> reader_read 4 r;
       if uint count > kMaxSnapshotEntities \<or> int (length r) \<noteq> uint count * int (kEventBytes - 2) then None
       else do {
         (ents, r) \<leftarrow> decode_entities (ucast owner) sq (unat count) {} r;
         Some \<lparr>os_seq = sq, os_ownerWokerId = ucast owner, os_ents = ents\<rparr> } } }"

definition SnapshotRequest :: bytes where
  "SnapshotRequest = PutU16 [] aoi_kVersion"

definition ValidSnapshotRequest :: "bytes \<Rightarrow> bool" where
  "ValidSnapshotRequest s \<longleftrightarrow> length s = 2 \<and> GetU16 s = aoi_kVersion"

section \<open>Fields come back\<close>

lemma get_le_put_le_wide:
  assumes "LENGTH('a) \<le> 8 * n" "8 * n \<le> LENGTH('b)"
  shows "get_le (put_le n (x :: 'a::len word)) = (ucast x :: 'b::len word)"
proof (rule bit_word_eqI)
  fix k assume k: "k < LENGTH('b)"
  have m: "8 * (k div 8) + k mod 8 = k" by simp
  show "bit (get_le (put_le n x) :: 'b word) k = bit (ucast x :: 'b word) k"
  proof (cases "k div 8 < n")
    case True
    then show ?thesis using k m by (auto simp: bit_get_le nth_put_le bit_ucast_iff bit_drop_bit_eq dest: bit_imp_le_length)
  next
    case False
    then have "LENGTH('a) \<le> k" using assms by linarith
    then show ?thesis using False by (auto simp: bit_get_le bit_ucast_iff dest: bit_imp_le_length)
  qed
qed

lemma put_le_get_le_wide:
  assumes "length bs = n" "LENGTH('a) = 8 * n" "8 * n \<le> LENGTH('b)"
  shows "put_le n (ucast (get_le bs :: 'b::len word) :: 'a::len word) = bs"
proof -
  have "ucast (get_le bs :: 'b word) = (get_le bs :: 'a word)"
  proof (rule bit_word_eqI)
    fix k assume "k < LENGTH('a)"
    then show "bit (ucast (get_le bs :: 'b word) :: 'a word) k = bit (get_le bs :: 'a word) k"
      using assms by (simp add: bit_ucast_iff bit_get_le)
  qed
  then show ?thesis using put_le_get_le [where 'a = 'a, of bs] assms by simp
qed

lemma read_fields [codec_simps]:
  "reader_read 2 (put_le 2 (a :: u16) @ r) = Some (ucast a, r)"
  "reader_read 4 (put_le 4 (b :: u32) @ r) = Some (ucast b, r)"
  "reader_read 8 (put_le 8 (c :: u64) @ r) = Some (c, r)"
  by (simp_all add: reader_read_def get_le_put_le_wide get_le_put_le)

lemma codes [simp]:
  "msg_of_code (ucast (msg_code k)) = (if k = kInvalidMsg then None else Some k)"
  "entity_of_code (ucast (entity_code j)) = (if j = kInvalidEntity then None else Some j)"
  by (cases k; simp add: msg_of_code_def msg_code_def) (cases j; simp add: entity_of_code_def entity_code_def)

lemma ucast_back [simp]: "ucast (ucast (x :: u32) :: u64) = x"
  by (rule bit_word_eqI) (auto simp: bit_ucast_iff)

lemma WriteEvent_append: "WriteEvent s e = s @ WriteEvent [] e"
  by (simp add: WriteEvent_def Let_def PutU16_def PutU32_def U64_def)

lemma ReadEvent_WriteEvent:
  assumes "ValidEvent e"
  shows "ReadEvent (WriteEvent [] e @ r) = Some (e, r)"
proof -
  have "av_msgKind e \<noteq> kInvalidMsg" "av_entityKind e \<noteq> kInvalidEntity" using assms by (auto simp: ValidEvent_def ValidEntityKind_def)
  then show ?thesis using assms
    by (cases e) (simp add: WriteEvent_def ReadEvent_def Let_def PutU16_def PutU32_def U64_def codec_simps)
qed

lemma length_WriteEvent: "length (WriteEvent [] e) = kEventBytes - 2"
  by (simp add: WriteEvent_def Let_def PutU16_def PutU32_def U64_def kEventBytes_def)

text \<open>And a successful read tells what was read.\<close>

lemma reader_readD:
  "reader_read 2 p = Some (v, r) \<Longrightarrow> p = put_le 2 (ucast v :: u16) @ r"
  "reader_read 4 p = Some (v, r) \<Longrightarrow> p = put_le 4 (ucast v :: u32) @ r"
  "reader_read 8 p = Some (v, r) \<Longrightarrow> p = put_le 8 v @ r"
  using put_le_get_le_wide [where 'a = 16 and 'b = 64 and bs = "take 2 p" and n = 2]
    put_le_get_le_wide [where 'a = 32 and 'b = 64 and bs = "take 4 p" and n = 4] put_le_get_le_wide [where 'a = 64 and 'b = 64 and bs = "take 8 p" and n = 8]
  by (auto simp: reader_read_def min_def split: if_splits)

lemma small_codes:
  fixes v :: u64
  assumes "v \<le> 4"
  shows "v = 0 \<or> v = 1 \<or> v = 2 \<or> v = 3 \<or> v = 4"
proof -
  have "unat v \<le> 4" using assms by (simp add: word_le_nat_alt)
  then have "unat v = 0 \<or> unat v = 1 \<or> unat v = 2 \<or> unat v = 3 \<or> unat v = 4" by auto
  then show ?thesis by (simp add: word_unat_eq_iff)
qed

lemma codesD:
  "msg_of_code v = Some k \<Longrightarrow> msg_code k = ucast v" "entity_of_code v = Some j \<Longrightarrow> entity_code j = ucast v"
proof -
  assume a: "msg_of_code v = Some k"
  then have "v \<le> 3" by (auto simp: msg_of_code_def not_less split: if_splits)
  then have "v \<le> 4" by (rule order_trans) simp
  with a show "msg_code k = ucast v"
    using small_codes [of v] by (auto simp: msg_of_code_def msg_code_def split: if_splits)
next
  assume a: "entity_of_code v = Some j"
  then have "v \<le> 4" by (auto simp: entity_of_code_def not_less split: if_splits)
  with a show "entity_code j = ucast v"
    using small_codes [of v] by (auto simp: entity_of_code_def entity_code_def split: if_splits)
qed

lemma ReadEventD:
  assumes "ReadEvent p = Some (e, r)"
  shows "ValidEvent e" "p = WriteEvent [] e @ r"
proof -
  show "ValidEvent e" using assms by (auto simp: ReadEvent_def bind_eq_Some_conv Let_def split: if_splits)
  show "p = WriteEvent [] e @ r"
    using assms by (clarsimp simp: ReadEvent_def bind_eq_Some_conv Let_def split: if_splits dest!: reader_readD codesD)
      (simp add: WriteEvent_def PutU16_def PutU32_def U64_def)
qed

text \<open>
  C29. The event codec is exact in both directions: the bytes that are decoded as an event are those it is encoded to, and no others.
  In particular every event that is sent arrives unchanged, and a message that is truncated, carries trailing bytes or has an unknown
  kind is refused.
\<close>

theorem event_codec_exact: "DecodeEvent s = Some e \<longleftrightarrow> EncodeEvent e = Some s"
proof
  assume "EncodeEvent e = Some s"
  then have "ValidEvent e" "s = put_le 2 aoi_kVersion @ WriteEvent [] e"
    using WriteEvent_append [of "PutU16 [] aoi_kVersion" e] by (auto simp: EncodeEvent_def PutU16_def split: if_splits)
  then show "DecodeEvent s = Some e" using ReadEvent_WriteEvent [of e "[]"] by (simp add: DecodeEvent_def codec_simps)
next
  assume "DecodeEvent s = Some e"
  then obtain v r where r: "reader_read 2 s = Some (v, r)" "v = ucast aoi_kVersion" "ReadEvent r = Some (e, [])"
    by (auto simp: DecodeEvent_def bind_eq_Some_conv split: if_splits)
  have "s = put_le 2 aoi_kVersion @ r" using reader_readD(1) [OF r(1)] r(2) by (simp add: aoi_kVersion_def)
  with ReadEventD [OF r(3)] show "EncodeEvent e = Some s"
    using WriteEvent_append [of "PutU16 [] aoi_kVersion" e] by (simp add: EncodeEvent_def PutU16_def)
qed

section \<open>Snapshots come back\<close>

definition wire_entity :: "AoiEntity \<Rightarrow> AoiEntity" where
  "wire_entity e = e\<lparr>ae_cellIdx := 0\<rparr>"

lemma updateEntity_SnapshotEvent: "updateEntity (SnapshotEvent e) 0 empty_entity = wire_entity e"
  by (cases e) (simp add: updateEntity_def SnapshotEvent_def wire_entity_def empty_entity_def)

lemma encode_entities_Some:
  assumes "encode_entities owner sq ents seen s = Some out"
  shows "out = s @ concat (map (\<lambda>e. WriteEvent [] (SnapshotEvent e)) ents)"
    "decode_entities owner sq (length ents) seen (concat (map (\<lambda>e. WriteEvent [] (SnapshotEvent e)) ents)) = Some (map wire_entity ents, [])"
proof -
  have "out = s @ concat (map (\<lambda>e. WriteEvent [] (SnapshotEvent e)) ents) \<and>
    decode_entities owner sq (length ents) seen (concat (map (\<lambda>e. WriteEvent [] (SnapshotEvent e)) ents)) = Some (map wire_entity ents, [])"
    using assms
  proof (induction ents arbitrary: seen s)
    case (Cons e ents)
    have v: "ValidEvent (SnapshotEvent e)" "snapshot_event_ok owner sq seen (SnapshotEvent e)"
      and rest: "encode_entities owner sq ents (insert (av_eId (SnapshotEvent e)) seen) (WriteEvent s (SnapshotEvent e)) = Some out"
      using Cons.prems by (auto simp: Let_def split: if_splits)
    have "av_msgKind (SnapshotEvent e) = kEntry" by (simp add: SnapshotEvent_def)
    then show ?case
      using Cons.IH [OF rest] v ReadEvent_WriteEvent [OF v(1)] WriteEvent_append [of s "SnapshotEvent e"]
      by (simp add: updateEntity_SnapshotEvent)
  qed simp
  then show "out = s @ concat (map (\<lambda>e. WriteEvent [] (SnapshotEvent e)) ents)"
    "decode_entities owner sq (length ents) seen (concat (map (\<lambda>e. WriteEvent [] (SnapshotEvent e)) ents)) = Some (map wire_entity ents, [])"
    by auto
qed

lemma snapshot_decoded:
  assumes "EncodeSnapshot snap = Some out"
  shows "DecodeSnapshot out = Some (snap\<lparr>os_ents := map wire_entity (os_ents snap)\<rparr>)"
proof -
  let ?n = "length (os_ents snap)" and ?body = "concat (map (\<lambda>e. WriteEvent [] (SnapshotEvent e)) (os_ents snap))"
  let ?head = "PutU32 (U64 (PutU32 (PutU16 [] aoi_kVersion) (os_ownerWokerId snap)) (os_seq snap)) (of_nat ?n)"
  have n: "?n \<le> 65536" and enc: "encode_entities (os_ownerWokerId snap) (os_seq snap) (os_ents snap) {} ?head = Some out"
    using assms by (auto simp: EncodeSnapshot_def kMaxSnapshotEntities_def Let_def split: if_splits)
  have un: "unat (of_nat ?n :: u32) = ?n" using n by (simp add: unat_of_nat take_bit_nat_eq_self)
  have c: "unat (ucast (of_nat ?n :: u32) :: u64) = ?n" using un n by (simp add: unsigned_ucast_eq take_bit_nat_eq_self)
  then have ci: "uint (ucast (of_nat ?n :: u32) :: u64) = int ?n" by (metis uint_nat)
  have len: "length ?body = ?n * (kEventBytes - 2)"
    by (induction "os_ents snap") (simp_all add: length_WriteEvent length_concat o_def sum_list_triv)
  have "out = put_le 2 aoi_kVersion @ put_le 4 (os_ownerWokerId snap) @ put_le 8 (os_seq snap) @ put_le 4 (of_nat ?n :: u32) @ ?body"
    using encode_entities_Some(1) [OF enc] by (simp add: PutU16_def PutU32_def U64_def)
  then show ?thesis
    using encode_entities_Some(2) [OF enc] n by (simp add: DecodeSnapshot_def codec_simps c ci len kMaxSnapshotEntities_def)
qed

text \<open>
  An encoded snapshot is decoded to the same snapshot, entity by entity and in the same order; only the cell indices, which the
  receiver computes anew, are not carried over.
\<close>

theorem snapshot_roundtrip:
  assumes "EncodeSnapshot snap = Some out"
  shows "DecodeSnapshot out = Some (snap\<lparr>os_ents := map wire_entity (os_ents snap)\<rparr>)"
  using assms by (rule snapshot_decoded)

definition demo_snapshot :: AoiOwnerSnapshot where
  "demo_snapshot = \<lparr>os_seq = 7, os_ownerWokerId = 2, os_ents =
     [\<lparr>ae_entityId = 9, ae_kind = kPlayer, ae_businessId = 10000000042, ae_x = 210, ae_y = 10, ae_dir = 90, ae_cellIdx = 2,
       ae_entityGeneration = 1, ae_actorEpoch = 3, ae_spatialVersion = 5, ae_ownerWorker = 2, ae_ownerSeq = 7\<rparr>]\<rparr>"

theorem snapshot_roundtrip_witness:
  "\<exists>out. EncodeSnapshot demo_snapshot = Some out \<and> length out = 78
     \<and> DecodeSnapshot out = Some (demo_snapshot\<lparr>os_ents := map wire_entity (os_ents demo_snapshot)\<rparr>)"
proof -
  have "map_option length (EncodeSnapshot demo_snapshot) = Some 78" by code_simp
  then obtain out where "EncodeSnapshot demo_snapshot = Some out" "length out = 78" by auto
  with snapshot_roundtrip [of demo_snapshot out] show ?thesis by blast
qed

end
