(* ===== verification/AoiViewSet.thy ===== *)
theory AoiViewSet
  imports AoiGrid
begin

text \<open>
  What each client has been sent, sceneServer/src-cpp/service/aoi/aoiViewSet.h and aoiViewSet.cc: for every observer of the thread
  the states of the entities in the frames that were accepted (the baseline of the next frame), the entities still to be sent, the
  sequence number of the next frame, and the snapshot that is being sent in parts. The counter of failed sends, which nothing reads, is left out.
\<close>

section \<open>State\<close>

record SentEntityState =
  se_kind :: EntityKind
  se_businessId :: u64
  se_entityGeneration :: u32
  se_spatialVersion :: u64
  se_x :: u32
  se_y :: u32
  se_dir :: u32

type_synonym ViewBaseline = "(u64, SentEntityState) umap"

record ObserverSnapshot =
  ob_committedState :: ViewBaseline
  ob_pendings :: "u64 set"
  ob_clientViewEpoch :: u32
  ob_nextViewSeq :: u64
  ob_needResync :: bool
  ob_resyncRevision :: u32

record ViewSendToken =
  vt_observerId :: u64
  vt_clientViewEpoch :: u32
  vt_nextViewSeq :: u64

record AcceptedPush =
  ap_kind :: AoiMsgKind
  ap_targetId :: u64
  ap_state :: SentEntityState

record ViewSnapshotToken =
  st_observerId :: u64
  st_clientViewEpoch :: u32
  st_viewSeq :: u64
  st_resyncRevision :: u32
  st_snapshotId :: u64
  st_partCount :: u32

record SnapshotTask =
  sk_token :: ViewSnapshotToken
  sk_baseline :: ViewBaseline
  sk_acceptedParts :: "bool list"
  sk_acceptedCount :: u32

record AoiViewSet =
  vs_views :: "(u64, ObserverSnapshot) umap"
  vs_snapshotTasks :: "(u64, SnapshotTask) umap"
  vs_nextSnapshotId :: u64

definition empty_views :: AoiViewSet where
  "empty_views = \<lparr>vs_views = [], vs_snapshotTasks = [], vs_nextSnapshotId = 1\<rparr>"

definition fresh_observer :: "u32 \<Rightarrow> ObserverSnapshot" where
  "fresh_observer epoch = \<lparr>ob_committedState = [], ob_pendings = {}, ob_clientViewEpoch = epoch, ob_nextViewSeq = 1,
     ob_needResync = True, ob_resyncRevision = 0\<rparr>"

definition valid_kind :: "EntityKind \<Rightarrow> bool" where
  "valid_kind kind \<longleftrightarrow> kind = kPlayer \<or> kind = kMonster \<or> kind = kNpc \<or> kind = kDrop"

section \<open>Observers\<close>

definition put_observer :: "u64 \<Rightarrow> ObserverSnapshot \<Rightarrow> AoiViewSet \<Rightarrow> AoiViewSet" where
  "put_observer ob x v = v\<lparr>vs_views := AList.update ob x (vs_views v)\<rparr>"

definition drop_task :: "u64 \<Rightarrow> AoiViewSet \<Rightarrow> AoiViewSet" where
  "drop_task ob v = v\<lparr>vs_snapshotTasks := AList.delete ob (vs_snapshotTasks v)\<rparr>"

definition findObserver :: "AoiViewSet \<Rightarrow> u64 \<Rightarrow> ObserverSnapshot option" where
  "findObserver v ob = map_of (vs_views v) ob"

definition registryObserver :: "u64 \<Rightarrow> u32 \<Rightarrow> AoiViewSet \<Rightarrow> bool \<times> AoiViewSet" where
  "registryObserver ob clientViewEpoch v =
     (if (case findObserver v ob of None \<Rightarrow> False | Some x \<Rightarrow> ob_clientViewEpoch x \<ge> clientViewEpoch) then (False, v)
      else (True, drop_task ob (put_observer ob (fresh_observer clientViewEpoch) v)))"

definition initObserverSnapshot :: "u32 \<Rightarrow> ObserverSnapshot \<Rightarrow> ObserverSnapshot" where
  "initObserverSnapshot newViewEpoch x = x\<lparr>ob_committedState := [], ob_pendings := {}, ob_clientViewEpoch := newViewEpoch,
     ob_nextViewSeq := 1, ob_needResync := True, ob_resyncRevision := 0\<rparr>"

definition resetObserver :: "u64 \<Rightarrow> u32 \<Rightarrow> u32 \<Rightarrow> AoiViewSet \<Rightarrow> bool \<times> AoiViewSet" where
  "resetObserver ob expectedOldViewEpoch newViewEpoch v =
     (case findObserver v ob of
        None \<Rightarrow> (False, v)
      | Some x \<Rightarrow>
          if ob_clientViewEpoch x \<noteq> expectedOldViewEpoch \<or> ob_clientViewEpoch x \<ge> newViewEpoch then (False, v)
          else (True, drop_task ob (put_observer ob (initObserverSnapshot newViewEpoch x) v)))"

definition removeObserver :: "u64 \<Rightarrow> u32 \<Rightarrow> AoiViewSet \<Rightarrow> bool \<times> AoiViewSet" where
  "removeObserver ob expectedViewEpoch v =
     (case findObserver v ob of
        None \<Rightarrow> (False, v)
      | Some x \<Rightarrow> if ob_clientViewEpoch x \<noteq> expectedViewEpoch then (False, v)
          else (True, drop_task ob (v\<lparr>vs_views := AList.delete ob (vs_views v)\<rparr>)))"

definition initObserverState :: "ObserverSnapshot \<Rightarrow> u64 \<Rightarrow> ViewSendToken" where
  "initObserverState x eid = \<lparr>vt_observerId = eid, vt_clientViewEpoch = ob_clientViewEpoch x, vt_nextViewSeq = ob_nextViewSeq x\<rparr>"

definition prepareSend :: "AoiViewSet \<Rightarrow> u64 \<Rightarrow> ViewSendToken option" where
  "prepareSend v eid =
     (case findObserver v eid of
        None \<Rightarrow> None
      | Some x \<Rightarrow> if map_of (vs_snapshotTasks v) eid \<noteq> None then None else Some (initObserverState x eid))"

definition findSentState :: "AoiViewSet \<Rightarrow> u64 \<Rightarrow> u64 \<Rightarrow> SentEntityState option" where
  "findSentState v ob target = (case findObserver v ob of None \<Rightarrow> None | Some x \<Rightarrow> map_of (ob_committedState x) target)"

section \<open>Frames\<close>

definition processEntry :: "AcceptedPush \<Rightarrow> ViewBaseline \<Rightarrow> ViewBaseline option" where
  "processEntry push b =
     (let st = ap_state push
      in if ap_kind push \<noteq> kEntry then None
         else case map_of b (ap_targetId push) of
           None \<Rightarrow> Some (AList.update (ap_targetId push) st b)
         | Some old \<Rightarrow>
             if se_kind st \<noteq> se_kind old \<or> se_businessId st \<noteq> se_businessId old
                \<or> se_entityGeneration st < se_entityGeneration old
                \<or> (se_entityGeneration st = se_entityGeneration old \<and> se_spatialVersion st < se_spatialVersion old) then None
             else Some (AList.update (ap_targetId push) st b))"

definition processMove :: "AcceptedPush \<Rightarrow> ViewBaseline \<Rightarrow> ViewBaseline option" where
  "processMove push b =
     (let st = ap_state push
      in if ap_kind push \<noteq> kMove then None
         else case map_of b (ap_targetId push) of
           None \<Rightarrow> None
         | Some old \<Rightarrow>
             if se_kind st \<noteq> se_kind old \<or> se_businessId st \<noteq> se_businessId old
                \<or> se_entityGeneration st \<noteq> se_entityGeneration old \<or> se_spatialVersion st < se_spatialVersion old then None
             else Some (AList.update (ap_targetId push) st b))"

definition processLeave :: "AcceptedPush \<Rightarrow> ViewBaseline \<Rightarrow> ViewBaseline option" where
  "processLeave push b =
     (let st = ap_state push
      in if ap_kind push \<noteq> kLeave then None
         else case map_of b (ap_targetId push) of
           None \<Rightarrow> Some b
         | Some old \<Rightarrow>
             if se_entityGeneration st < se_entityGeneration old then Some b
             else if se_entityGeneration st \<noteq> se_entityGeneration old \<or> se_kind st \<noteq> se_kind old \<or> se_businessId st \<noteq> se_businessId old then None
             else Some (AList.delete (ap_targetId push) b))"

definition process_push :: "AcceptedPush \<Rightarrow> ViewBaseline \<Rightarrow> ViewBaseline option" where
  "process_push push b =
     (if ap_targetId push = 0 \<or> \<not> valid_kind (se_kind (ap_state push)) then None
      else case ap_kind push of
        kEntry \<Rightarrow> processEntry push b
      | kMove \<Rightarrow> processMove push b
      | kLeave \<Rightarrow> processLeave push b
      | kInvalidMsg \<Rightarrow> None)"

fun process_items :: "AcceptedPush list \<Rightarrow> ViewBaseline \<times> u64 set \<Rightarrow> (ViewBaseline \<times> u64 set) option" where
  "process_items [] s = Some s"
| "process_items (push # items) (b, pendings) =
     (case process_push push b of None \<Rightarrow> None | Some b \<Rightarrow> process_items items (b, pendings - {ap_targetId push}))"

definition token_current :: "u64 \<Rightarrow> ViewSendToken \<Rightarrow> ObserverSnapshot \<Rightarrow> bool" where
  "token_current ob token x \<longleftrightarrow> vt_observerId token = ob \<and> vt_clientViewEpoch token = ob_clientViewEpoch x
     \<and> vt_nextViewSeq token = ob_nextViewSeq x"

definition commitAccepted :: "u64 \<Rightarrow> ViewSendToken \<Rightarrow> AcceptedPush list \<Rightarrow> AoiViewSet \<Rightarrow> bool \<times> AoiViewSet" where
  "commitAccepted ob token items v =
     (if map_of (vs_snapshotTasks v) ob \<noteq> None then (False, v)
      else case findObserver v ob of
        None \<Rightarrow> (False, v)
      | Some x \<Rightarrow>
          if \<not> token_current ob token x then (False, v)
          else if items = [] then (True, v)
          else if ob_nextViewSeq x = 0xFFFFFFFFFFFFFFFF then (False, v)
          else case process_items items (ob_committedState x, ob_pendings x) of
            None \<Rightarrow> (False, v)
          | Some (b, p) \<Rightarrow> (True, put_observer ob (x\<lparr>ob_committedState := b, ob_pendings := p, ob_nextViewSeq := ob_nextViewSeq x + 1\<rparr>) v))"

definition markPending :: "u64 \<Rightarrow> u64 \<Rightarrow> ViewSendToken \<Rightarrow> AoiViewSet \<Rightarrow> bool \<times> AoiViewSet" where
  "markPending ob target token v =
     (case findObserver v ob of
        None \<Rightarrow> (False, v)
      | Some x \<Rightarrow> if \<not> token_current ob token x then (False, v)
          else (True, put_observer ob (x\<lparr>ob_pendings := insert target (ob_pendings x)\<rparr>) v))"

definition clearResolvedPending :: "u64 \<Rightarrow> u64 \<Rightarrow> AoiViewSet \<Rightarrow> bool \<times> AoiViewSet" where
  "clearResolvedPending ob target v =
     (case findObserver v ob of
        None \<Rightarrow> (False, v)
      | Some x \<Rightarrow> if target \<notin> ob_pendings x then (False, v)
          else (True, put_observer ob (x\<lparr>ob_pendings := ob_pendings x - {target}\<rparr>) v))"

definition hasPending :: "AoiViewSet \<Rightarrow> u64 \<Rightarrow> bool" where
  "hasPending v ob = (case findObserver v ob of None \<Rightarrow> False | Some x \<Rightarrow> ob_pendings x \<noteq> {})"

definition needResync :: "AoiViewSet \<Rightarrow> u64 \<Rightarrow> bool" where
  "needResync v ob = (case findObserver v ob of None \<Rightarrow> False | Some x \<Rightarrow> ob_needResync x)"

definition committedBaseline :: "AoiViewSet \<Rightarrow> u64 \<Rightarrow> ViewBaseline option" where
  "committedBaseline v ob = map_option ob_committedState (findObserver v ob)"

definition forEachObserver :: "AoiViewSet \<Rightarrow> u64 list" where
  "forEachObserver v = map fst (vs_views v)"

definition markNeedResync :: "u64 \<Rightarrow> u32 \<Rightarrow> AoiViewSet \<Rightarrow> bool \<times> AoiViewSet" where
  "markNeedResync ob clientEpoch v =
     (case findObserver v ob of
        None \<Rightarrow> (False, v)
      | Some x \<Rightarrow>
          if clientEpoch \<noteq> ob_clientViewEpoch x \<or> ob_resyncRevision x = 0xFFFFFFFF then (False, v)
          else (True, drop_task ob (put_observer ob (x\<lparr>ob_needResync := True, ob_resyncRevision := ob_resyncRevision x + 1\<rparr>) v)))"

section \<open>Snapshots in parts\<close>

definition findSnapshotTask :: "AoiViewSet \<Rightarrow> ViewSnapshotToken \<Rightarrow> SnapshotTask option" where
  "findSnapshotTask v token =
     (case (findObserver v (st_observerId token), map_of (vs_snapshotTasks v) (st_observerId token)) of
        (Some x, Some task) \<Rightarrow>
          let saved = sk_token task
          in if \<not> ob_needResync x \<or> ob_clientViewEpoch x \<noteq> st_clientViewEpoch token
                \<or> ob_resyncRevision x \<noteq> st_resyncRevision token \<or> ob_nextViewSeq x \<noteq> st_viewSeq token
                \<or> st_snapshotId saved \<noteq> st_snapshotId token \<or> st_clientViewEpoch saved \<noteq> st_clientViewEpoch token
                \<or> st_resyncRevision saved \<noteq> st_resyncRevision token \<or> st_viewSeq saved \<noteq> st_viewSeq token
                \<or> st_partCount saved \<noteq> st_partCount token then None
             else Some task
      | _ \<Rightarrow> None)"

definition beginSnapshot :: "u64 \<Rightarrow> ViewBaseline \<Rightarrow> u32 \<Rightarrow> AoiViewSet \<Rightarrow> ViewSnapshotToken option \<times> AoiViewSet" where
  "beginSnapshot ob frozenBaseline partCount v =
     (case findObserver v ob of
        None \<Rightarrow> (None, v)
      | Some x \<Rightarrow>
          if \<not> ob_needResync x \<or> partCount = 0 \<or> map_of (vs_snapshotTasks v) ob \<noteq> None
             \<or> vs_nextSnapshotId v = 0xFFFFFFFFFFFFFFFF \<or> ob_nextViewSeq x = 0xFFFFFFFFFFFFFFFF then (None, v)
          else if list_ex (\<lambda>(i, st). i = 0 \<or> \<not> valid_kind (se_kind st)) frozenBaseline then (None, v)
          else let token = \<lparr>st_observerId = ob, st_clientViewEpoch = ob_clientViewEpoch x, st_viewSeq = ob_nextViewSeq x,
                     st_resyncRevision = ob_resyncRevision x, st_snapshotId = vs_nextSnapshotId v, st_partCount = partCount\<rparr>;
                   task = \<lparr>sk_token = token, sk_baseline = frozenBaseline, sk_acceptedParts = replicate (unat partCount) False,
                     sk_acceptedCount = 0\<rparr>
               in (Some token, v\<lparr>vs_snapshotTasks := AList.update ob task (vs_snapshotTasks v), vs_nextSnapshotId := vs_nextSnapshotId v + 1\<rparr>))"

definition markSnapshotPartAccepted :: "ViewSnapshotToken \<Rightarrow> u32 \<Rightarrow> AoiViewSet \<Rightarrow> bool \<times> AoiViewSet" where
  "markSnapshotPartAccepted token partIndex v =
     (case findSnapshotTask v token of
        None \<Rightarrow> (False, v)
      | Some task \<Rightarrow>
          if unat partIndex \<ge> length (sk_acceptedParts task) then (False, v)
          else if sk_acceptedParts task ! unat partIndex then (True, v)
          else (True, v\<lparr>vs_snapshotTasks := AList.update (st_observerId token)
                 (task\<lparr>sk_acceptedParts := (sk_acceptedParts task)[unat partIndex := True], sk_acceptedCount := sk_acceptedCount task + 1\<rparr>)
                 (vs_snapshotTasks v)\<rparr>))"

definition commitSnapshot :: "ViewSnapshotToken \<Rightarrow> AoiViewSet \<Rightarrow> bool \<times> AoiViewSet" where
  "commitSnapshot token v =
     (case (findSnapshotTask v token, findObserver v (st_observerId token)) of
        (Some task, Some x) \<Rightarrow>
          if sk_acceptedCount task \<noteq> st_partCount token then (False, v)
          else (True, drop_task (st_observerId token) (put_observer (st_observerId token)
                 (x\<lparr>ob_committedState := sk_baseline task, ob_pendings := {}, ob_nextViewSeq := ob_nextViewSeq x + 1, ob_needResync := False\<rparr>) v))
      | _ \<Rightarrow> (False, v))"

definition abortSnapshot :: "ViewSnapshotToken \<Rightarrow> AoiViewSet \<Rightarrow> bool \<times> AoiViewSet" where
  "abortSnapshot token v = (if findSnapshotTask v token = None then (False, v) else (True, drop_task (st_observerId token) v))"

definition references_any :: "AoiViewSet \<Rightarrow> u64 \<Rightarrow> bool" where
  "references_any v target \<longleftrightarrow>
     list_ex (\<lambda>(_, x). map_of (ob_committedState x) target \<noteq> None \<or> target \<in> ob_pendings x) (vs_views v)
     \<or> list_ex (\<lambda>(_, task). map_of (sk_baseline task) target \<noteq> None) (vs_snapshotTasks v)"

definition sent_in :: "u64 \<Rightarrow> u32 \<Rightarrow> ViewBaseline \<Rightarrow> bool" where
  "sent_in target generation b = (case map_of b target of None \<Rightarrow> False | Some st \<Rightarrow> se_entityGeneration st = generation)"

definition references_generation :: "AoiViewSet \<Rightarrow> u64 \<Rightarrow> u32 \<Rightarrow> bool" where
  "references_generation v target generation \<longleftrightarrow>
     list_ex (\<lambda>(_, x). target \<in> ob_pendings x \<or> sent_in target generation (ob_committedState x)) (vs_views v)
     \<or> list_ex (\<lambda>(_, task). sent_in target generation (sk_baseline task)) (vs_snapshotTasks v)"

section \<open>Runs\<close>

datatype view_op =
    VRegister u64 u32 | VReset u64 u32 u32 | VRemove u64 u32 | VCommit u64 ViewSendToken "AcceptedPush list"
  | VPending u64 u64 ViewSendToken | VClear u64 u64 | VResync u64 u32 | VBegin u64 ViewBaseline u32
  | VPart ViewSnapshotToken u32 | VCommitSnapshot ViewSnapshotToken | VAbort ViewSnapshotToken

fun view_step :: "view_op \<Rightarrow> AoiViewSet \<Rightarrow> AoiViewSet" where
  "view_step (VRegister ob epoch) v = snd (registryObserver ob epoch v)"
| "view_step (VReset ob old new) v = snd (resetObserver ob old new v)"
| "view_step (VRemove ob epoch) v = snd (removeObserver ob epoch v)"
| "view_step (VCommit ob token items) v = snd (commitAccepted ob token items v)"
| "view_step (VPending ob target token) v = snd (markPending ob target token v)"
| "view_step (VClear ob target) v = snd (clearResolvedPending ob target v)"
| "view_step (VResync ob epoch) v = snd (markNeedResync ob epoch v)"
| "view_step (VBegin ob frozen parts) v = snd (beginSnapshot ob frozen parts v)"
| "view_step (VPart token part) v = snd (markSnapshotPartAccepted token part v)"
| "view_step (VCommitSnapshot token) v = snd (commitSnapshot token v)"
| "view_step (VAbort token) v = snd (abortSnapshot token v)"

definition view_run :: "view_op list \<Rightarrow> AoiViewSet \<Rightarrow> AoiViewSet" where
  "view_run = fold view_step"

section \<open>The invariant\<close>

text \<open>
  Every snapshot that is being sent belongs to an observer that waits for it, in the observer's current epoch, resync revision and
  sequence number, and its count of accepted parts is right.
\<close>

definition task_ok :: "AoiViewSet \<Rightarrow> u64 \<Rightarrow> SnapshotTask \<Rightarrow> bool" where
  "task_ok v ob t \<longleftrightarrow> (let k = sk_token t in st_observerId k = ob \<and> length (sk_acceptedParts t) = unat (st_partCount k)
     \<and> unat (sk_acceptedCount t) = length (filter id (sk_acceptedParts t)) \<and> unat (st_snapshotId k) < unat (vs_nextSnapshotId v)
     \<and> (\<exists>x. findObserver v ob = Some x \<and> ob_needResync x \<and> ob_clientViewEpoch x = st_clientViewEpoch k
          \<and> ob_resyncRevision x = st_resyncRevision k \<and> ob_nextViewSeq x = st_viewSeq k \<and> ob_nextViewSeq x \<noteq> 0xFFFFFFFFFFFFFFFF))"

definition views_ok :: "AoiViewSet \<Rightarrow> bool" where
  "views_ok v \<longleftrightarrow> (\<forall>ob t. map_of (vs_snapshotTasks v) ob = Some t \<longrightarrow> task_ok v ob t)"

lemma findObserver_put [simp]:
  "findObserver (put_observer ob x v) i = (if i = ob then Some x else findObserver v i)"
  "vs_snapshotTasks (put_observer ob x v) = vs_snapshotTasks v" "vs_nextSnapshotId (put_observer ob x v) = vs_nextSnapshotId v"
  by (simp_all add: findObserver_def put_observer_def)

lemma drop_task_simps [simp]:
  "map_of (vs_snapshotTasks (drop_task ob v)) i = (if i = ob then None else map_of (vs_snapshotTasks v) i)"
  "findObserver (drop_task ob v) = findObserver v" "vs_nextSnapshotId (drop_task ob v) = vs_nextSnapshotId v"
  "vs_views (drop_task ob v) = vs_views v"
  by (simp_all add: drop_task_def findObserver_def fun_eq_iff)

lemma task_ok_cong:
  "task_ok v ob t \<Longrightarrow> findObserver v' ob = findObserver v ob \<Longrightarrow> vs_nextSnapshotId v' = vs_nextSnapshotId v \<Longrightarrow> task_ok v' ob t"
  by (simp add: task_ok_def)

lemma findSnapshotTask_Some:
  assumes "findSnapshotTask v token = Some t" "views_ok v"
  shows "map_of (vs_snapshotTasks v) (st_observerId token) = Some t" "sk_token t = token" "task_ok v (st_observerId token) t"
proof -
  show m: "map_of (vs_snapshotTasks v) (st_observerId token) = Some t"
    using assms by (auto simp: findSnapshotTask_def Let_def split: option.splits if_splits)
  then show ok: "task_ok v (st_observerId token) t" using assms(2) by (simp add: views_ok_def)
  have "st_observerId (sk_token t) = st_observerId token" using ok by (simp add: task_ok_def Let_def)
  then show "sk_token t = token"
    using assms(1) by (cases "sk_token t"; cases token) (auto simp: findSnapshotTask_def Let_def split: option.splits if_splits)
qed

lemma findSnapshotTask_current:
  "views_ok v \<Longrightarrow> map_of (vs_snapshotTasks v) ob = Some t \<Longrightarrow> findSnapshotTask v (sk_token t) = Some t"
  by (fastforce simp: views_ok_def task_ok_def findSnapshotTask_def Let_def)

lemma filter_set_True:
  "i < length xs \<Longrightarrow> \<not> xs ! i \<Longrightarrow> length (filter id (xs[i := True])) = Suc (length (filter id xs))"
proof (induction xs arbitrary: i)
  case (Cons x xs)
  then show ?case by (cases i) auto
qed simp

lemma filter_below: "i < length xs \<Longrightarrow> \<not> xs ! i \<Longrightarrow> length (filter id xs) < length xs"
  by (metis eq_id_iff length_filter_less nth_mem)

text \<open>Where the snapshots in progress come from.\<close>

lemma task_step:
  assumes ok: "views_ok v" and t: "map_of (vs_snapshotTasks (view_step op v)) ob = Some t"
  shows "map_of (vs_snapshotTasks v) ob = Some t
    \<or> (\<exists>parts. op = VBegin ob (sk_baseline t) parts \<and> st_partCount (sk_token t) = parts \<and> sk_acceptedParts t = replicate (unat parts) False
         \<and> st_snapshotId (sk_token t) = vs_nextSnapshotId v)
    \<or> (\<exists>t0 i. map_of (vs_snapshotTasks v) ob = Some t0 \<and> op = VPart (sk_token t0) i \<and> unat i < length (sk_acceptedParts t0)
         \<and> t = t0\<lparr>sk_acceptedParts := (sk_acceptedParts t0)[unat i := True], sk_acceptedCount := sk_acceptedCount t0 + 1\<rparr>)"
proof (cases op)
  case (VBegin b frozen parts)
  then show ?thesis using t by (auto simp: beginSnapshot_def Let_def split: option.splits if_splits)
next
  case (VPart token i)
  show ?thesis
  proof (cases "findSnapshotTask v token")
    case None
    then show ?thesis using t VPart by (auto simp: markSnapshotPartAccepted_def)
  next
    case (Some t0)
    note f = findSnapshotTask_Some [OF Some ok]
    show ?thesis using t VPart Some f by (auto simp: markSnapshotPartAccepted_def not_le split: if_splits)
  qed
qed (use t in \<open>auto simp: registryObserver_def resetObserver_def removeObserver_def commitAccepted_def markPending_def clearResolvedPending_def
    markNeedResync_def commitSnapshot_def abortSnapshot_def split: option.splits if_splits prod.splits\<close>)

lemma begin_ok:
  assumes "views_ok v"
  shows "views_ok (snd (beginSnapshot ob frozen parts v))" "unat (vs_nextSnapshotId v) \<le> unat (vs_nextSnapshotId (snd (beginSnapshot ob frozen parts v)))"
  using assms u64_next_below [of "vs_nextSnapshotId v"]
  by (auto simp: beginSnapshot_def views_ok_def Let_def findObserver_def task_ok_def intro: less_SucI split: option.splits)

lemma views_ok_mono:
  assumes ok: "views_ok v" and n: "vs_nextSnapshotId v' = vs_nextSnapshotId v"
    and t: "\<And>i t. map_of (vs_snapshotTasks v') i = Some t \<Longrightarrow> map_of (vs_snapshotTasks v) i = Some t \<and> findObserver v' i = findObserver v i"
  shows "views_ok v'"
  unfolding views_ok_def
proof (intro allI impI)
  fix i t assume "map_of (vs_snapshotTasks v') i = Some t"
  with t have "map_of (vs_snapshotTasks v) i = Some t" "findObserver v' i = findObserver v i" by auto
  with ok n show "task_ok v' i t" using task_ok_cong [of v i t v'] by (simp add: views_ok_def)
qed

lemma part_ok:
  assumes ok: "views_ok v"
  shows "views_ok (snd (markSnapshotPartAccepted token i v))"
proof (cases "findSnapshotTask v token")
  case None
  then show ?thesis using ok by (simp add: markSnapshotPartAccepted_def)
next
  case (Some t)
  note f = findSnapshotTask_Some [OF Some ok]
  show ?thesis
  proof (cases "unat i < length (sk_acceptedParts t) \<and> \<not> sk_acceptedParts t ! unat i")
    case True
    let ?t = "t\<lparr>sk_acceptedParts := (sk_acceptedParts t)[unat i := True], sk_acceptedCount := sk_acceptedCount t + 1\<rparr>"
    have "unat (sk_acceptedCount t) < unat (st_partCount (sk_token t))"
      using f(3) filter_below [of "unat i" "sk_acceptedParts t"] True by (auto simp: task_ok_def Let_def)
    then have "unat (sk_acceptedCount t + 1) = unat (sk_acceptedCount t) + 1"
      using unat_u32_bound [of "st_partCount (sk_token t)"] by (intro u32_inc(1)) auto
    then have "task_ok v (st_observerId token) ?t"
      using f(3) True filter_set_True [of "unat i" "sk_acceptedParts t"] by (auto simp: task_ok_def Let_def)
    then show ?thesis
      using ok True Some by (auto simp: markSnapshotPartAccepted_def views_ok_def task_ok_def Let_def findObserver_def)
  next
    case False
    then show ?thesis using ok Some by (auto simp: markSnapshotPartAccepted_def)
  qed
qed

lemma view_step_ok:
  assumes ok: "views_ok v"
  shows "views_ok (view_step op v)" "unat (vs_nextSnapshotId v) \<le> unat (vs_nextSnapshotId (view_step op v))"
proof -
  have drop: "views_ok (drop_task ob (put_observer ob x v))" for ob x
    by (rule views_ok_mono [OF ok]) (auto split: if_splits)
  have pend: "views_ok (put_observer ob (x\<lparr>ob_pendings := p\<rparr>) v)" if x: "findObserver v ob = Some x" for ob x p
    unfolding views_ok_def
  proof (intro allI impI)
    fix i t assume "map_of (vs_snapshotTasks (put_observer ob (x\<lparr>ob_pendings := p\<rparr>) v)) i = Some t"
    then have "task_ok v i t" using ok by (simp add: views_ok_def)
    then show "task_ok (put_observer ob (x\<lparr>ob_pendings := p\<rparr>) v) i t" using x by (cases "i = ob") (auto simp: task_ok_def Let_def)
  qed
  have gone: "views_ok (drop_task ob (v\<lparr>vs_views := AList.delete ob (vs_views v)\<rparr>))" "views_ok (drop_task ob v)" for ob
    by (rule views_ok_mono [OF ok]; auto simp: findObserver_def split: if_splits)+
  have com: "views_ok (put_observer ob x v)" if "map_of (vs_snapshotTasks v) ob = None" for ob x
    by (rule views_ok_mono [OF ok]) (use that in \<open>auto split: if_splits\<close>)
  show "views_ok (view_step op v)"
    using ok begin_ok(1) [OF ok] part_ok [OF ok] drop pend gone com
    by (cases op) (auto simp: registryObserver_def resetObserver_def removeObserver_def commitAccepted_def markPending_def
        clearResolvedPending_def markNeedResync_def commitSnapshot_def abortSnapshot_def split: option.split)
  show "unat (vs_nextSnapshotId v) \<le> unat (vs_nextSnapshotId (view_step op v))"
    using begin_ok(2) [OF ok]
    by (cases op) (auto simp: registryObserver_def resetObserver_def removeObserver_def commitAccepted_def markPending_def
        clearResolvedPending_def markNeedResync_def commitSnapshot_def abortSnapshot_def markSnapshotPartAccepted_def split: option.split)
qed

lemma view_run_ok: "views_ok v \<Longrightarrow> views_ok (view_run ops v)"
  unfolding view_run_def by (induction ops arbitrary: v) (simp_all add: view_step_ok(1))

lemma empty_views_ok: "views_ok empty_views"
  by (simp add: views_ok_def empty_views_def)

section \<open>Snapshots arrive whole\<close>

text \<open>What the operations so far say about the snapshots in progress.\<close>

definition recorded :: "view_op list \<Rightarrow> AoiViewSet \<Rightarrow> bool" where
  "recorded ops v \<longleftrightarrow> (\<forall>ob t. map_of (vs_snapshotTasks v) ob = Some t \<longrightarrow>
     VBegin ob (sk_baseline t) (st_partCount (sk_token t)) \<in> set ops
     \<and> (\<forall>i. unat i < length (sk_acceptedParts t) \<longrightarrow> sk_acceptedParts t ! unat i \<longrightarrow> VPart (sk_token t) i \<in> set ops))"

lemma recorded_step:
  assumes ok: "views_ok v" and r: "recorded ops v"
  shows "recorded (op # ops) (view_step op v)"
  unfolding recorded_def
proof (intro allI impI)
  fix ob t assume t: "map_of (vs_snapshotTasks (view_step op v)) ob = Some t"
  have old: "VBegin ob (sk_baseline t0) (st_partCount (sk_token t0)) \<in> set ops"
    "unat i < length (sk_acceptedParts t0) \<Longrightarrow> sk_acceptedParts t0 ! unat i \<Longrightarrow> VPart (sk_token t0) i \<in> set ops"
    if "map_of (vs_snapshotTasks v) ob = Some t0" for t0 i using r that by (auto simp: recorded_def)
  from task_step [OF ok t] show "VBegin ob (sk_baseline t) (st_partCount (sk_token t)) \<in> set (op # ops) \<and>
      (\<forall>i. unat i < length (sk_acceptedParts t) \<longrightarrow> sk_acceptedParts t ! unat i \<longrightarrow> VPart (sk_token t) i \<in> set (op # ops))"
  proof (elim disjE exE conjE)
    fix t0 i assume t0: "map_of (vs_snapshotTasks v) ob = Some t0" "op = VPart (sk_token t0) i"
      "t = t0\<lparr>sk_acceptedParts := (sk_acceptedParts t0)[unat i := True], sk_acceptedCount := sk_acceptedCount t0 + 1\<rparr>"
    have "VPart (sk_token t0) j \<in> set (op # ops)"
      if "unat j < length (sk_acceptedParts t0)" "(sk_acceptedParts t0)[unat i := True] ! unat j" for j
      using that t0(2) old(2) [OF t0(1), of j] by (cases "j = i") (auto simp: nth_list_update word_unat_eq_iff)
    then show ?thesis using old(1) [OF t0(1)] t0(3) by simp
  qed (use old in auto)
qed

lemma recorded_run: "recorded (rev ops) (view_run ops empty_views) \<and> views_ok (view_run ops empty_views)"
proof (induction ops rule: rev_induct)
  case Nil
  then show ?case by (simp add: recorded_def view_run_def empty_views_def views_ok_def)
next
  case (snoc op ops)
  then show ?case
    using recorded_step [of "view_run ops empty_views" "rev ops" op] view_step_ok(1) [of "view_run ops empty_views" op] by (simp add: view_run_def)
qed

text \<open>
  C28. A client's baseline is replaced by a snapshot only as a whole. Whatever operations came before, when a snapshot is committed then every one of
  its parts had been accepted for that very snapshot, the new baseline is the one that was frozen when the snapshot was begun, nothing
  is pending, the client is in step again, and the frame has used up exactly one sequence number.
\<close>

theorem snapshot_commits_whole:
  assumes "commitSnapshot token (view_run ops empty_views) = (True, v')"
  shows "(\<forall>i. unat i < unat (st_partCount token) \<longrightarrow> VPart token i \<in> set ops) \<and>
    (\<exists>x frozen. findObserver v' (st_observerId token) = Some x \<and> VBegin (st_observerId token) frozen (st_partCount token) \<in> set ops
       \<and> ob_committedState x = frozen \<and> ob_pendings x = {} \<and> \<not> ob_needResync x \<and> unat (ob_nextViewSeq x) = unat (st_viewSeq token) + 1)"
proof -
  let ?v = "view_run ops empty_views"
  have r: "recorded (rev ops) ?v" and ok: "views_ok ?v" using recorded_run by auto
  obtain t x where t: "findSnapshotTask ?v token = Some t" and x: "findObserver ?v (st_observerId token) = Some x"
    and n: "sk_acceptedCount t = st_partCount token"
    and v': "v' = drop_task (st_observerId token) (put_observer (st_observerId token)
      (x\<lparr>ob_committedState := sk_baseline t, ob_pendings := {}, ob_nextViewSeq := ob_nextViewSeq x + 1, ob_needResync := False\<rparr>) ?v)"
    using assms by (auto simp: commitSnapshot_def split: option.splits if_splits)
  note f = findSnapshotTask_Some [OF t ok]
  have len: "length (sk_acceptedParts t) = unat (st_partCount token)" "length (filter id (sk_acceptedParts t)) = unat (st_partCount token)"
    and seq: "ob_nextViewSeq x = st_viewSeq token" "ob_nextViewSeq x \<noteq> 0xFFFFFFFFFFFFFFFF"
    using f(2,3) n x by (auto simp: task_ok_def Let_def)
  have "sk_acceptedParts t ! k" if "k < unat (st_partCount token)" for k
    using that len filter_below [of k "sk_acceptedParts t"] by force
  then have "VPart token i \<in> set ops" if "unat i < unat (st_partCount token)" for i
    using r f(1,2) that len(1) by (auto simp: recorded_def)
  moreover have "VBegin (st_observerId token) (sk_baseline t) (st_partCount token) \<in> set ops"
    using r f(1,2) by (auto simp: recorded_def)
  ultimately show ?thesis using v' seq u64_next_below [of "ob_nextViewSeq x"] by auto
qed

definition demo_state :: "u64 \<Rightarrow> SentEntityState" where
  "demo_state n = \<lparr>se_kind = kPlayer, se_businessId = 42, se_entityGeneration = 1, se_spatialVersion = n, se_x = 10, se_y = 20, se_dir = 0\<rparr>"

definition demo_token :: ViewSnapshotToken where
  "demo_token = \<lparr>st_observerId = 7, st_clientViewEpoch = 3, st_viewSeq = 1, st_resyncRevision = 0, st_snapshotId = 1, st_partCount = 2\<rparr>"

definition demo_sending :: "view_op list" where
  "demo_sending = [VRegister 7 3, VBegin 7 [(9, demo_state 5)] 2, VPart demo_token 1, VPart demo_token 1, VPart demo_token 0]"

theorem snapshot_commits_whole_witness:
  "\<not> fst (commitSnapshot demo_token (view_run (butlast demo_sending) empty_views)) \<and>
   (\<exists>v'. commitSnapshot demo_token (view_run demo_sending empty_views) = (True, v') \<and> VPart demo_token 0 \<in> set demo_sending)"
proof -
  have "fst (commitSnapshot demo_token (view_run demo_sending empty_views))" by code_simp
  then obtain v' where v': "commitSnapshot demo_token (view_run demo_sending empty_views) = (True, v')"
    by (cases "commitSnapshot demo_token (view_run demo_sending empty_views)") auto
  have "unat (0 :: u32) < unat (st_partCount demo_token)" by (simp add: demo_token_def)
  with snapshot_commits_whole [OF v'] have "VPart demo_token 0 \<in> set demo_sending" by blast
  moreover have "\<not> fst (commitSnapshot demo_token (view_run (butlast demo_sending) empty_views))" by code_simp
  ultimately show ?thesis using v' by blast
qed

section \<open>Snapshots that were given up\<close>

definition snapshot_token :: "AoiViewSet \<Rightarrow> u64 \<Rightarrow> nat option" where
  "snapshot_token v ob = map_option (\<lambda>t. unat (st_snapshotId (sk_token t))) (map_of (vs_snapshotTasks v) ob)"

interpretation snapshot_ids: token_source view_step snapshot_token "\<lambda>v. unat (vs_nextSnapshotId v)" "\<lambda>op v. views_ok v"
proof
  fix op v assume ok: "views_ok v"
  show "unat (vs_nextSnapshotId v) \<le> unat (vs_nextSnapshotId (view_step op v))" using view_step_ok(2) [OF ok] .
  fix ob n assume "snapshot_token (view_step op v) ob = Some n"
  then obtain t where t: "map_of (vs_snapshotTasks (view_step op v)) ob = Some t" "n = unat (st_snapshotId (sk_token t))"
    by (auto simp: snapshot_token_def)
  have "task_ok (view_step op v) ob t" using view_step_ok(1) [OF ok] t(1) by (simp add: views_ok_def)
  then have "n < unat (vs_nextSnapshotId (view_step op v))" by (simp add: task_ok_def Let_def t(2))
  then show "snapshot_token v ob = Some n \<or> unat (vs_nextSnapshotId v) \<le> n \<and> n < unat (vs_nextSnapshotId (view_step op v))"
    using task_step [OF ok t(1)] t(2) by (auto simp: snapshot_token_def)
qed

lemma view_runs: "snapshot_ids.run ops v = view_run ops v"
  unfolding view_run_def by (induction ops arbitrary: v) auto

lemma safe_views: "views_ok v \<Longrightarrow> snapshot_ids.safe_run ops v"
  by (induction ops arbitrary: v) (auto simp: view_step_ok(1))

text \<open>
  A snapshot that was given up stays given up: once it was committed, aborted or replaced, or its observer was reset, removed or asked for
  a new one, no later operation makes its token valid again, so that its late parts and its commit change nothing.
\<close>

theorem abandoned_snapshot_never_commits:
  assumes v: "v = view_run ops empty_views" and issued: "unat (st_snapshotId token) < unat (vs_nextSnapshotId v)"
    and gone: "snapshot_token v (st_observerId token) \<noteq> Some (unat (st_snapshotId token))"
  shows "commitSnapshot token (view_run later v) = (False, view_run later v)
    \<and> markSnapshotPartAccepted token i (view_run later v) = (False, view_run later v)"
proof -
  have ok: "views_ok v" using view_run_ok [OF empty_views_ok] v by simp
  let ?w = "view_run later v"
  have okw: "views_ok ?w" using view_run_ok [OF ok] .
  have "snapshot_token ?w (st_observerId token) \<noteq> Some (unat (st_snapshotId token))"
    using snapshot_ids.retired_stays_retired [OF safe_views [OF ok] issued gone] by (simp add: view_runs)
  moreover have "snapshot_token ?w (st_observerId token) = Some (unat (st_snapshotId token))" if "findSnapshotTask ?w token = Some t" for t
    using findSnapshotTask_Some(1,2) [OF that okw] by (simp add: snapshot_token_def)
  ultimately have "findSnapshotTask ?w token = None" by (meson not_Some_eq)
  then show ?thesis by (simp add: commitSnapshot_def markSnapshotPartAccepted_def)
qed

theorem abandoned_snapshot_never_commits_witness:
  "commitSnapshot demo_token (view_run [VBegin 7 [] 1] (view_run (demo_sending @ [VResync 7 3]) empty_views)) =
     (False, view_run [VBegin 7 [] 1] (view_run (demo_sending @ [VResync 7 3]) empty_views))"
proof -
  let ?v = "view_run (demo_sending @ [VResync 7 3]) empty_views"
  have "unat (st_snapshotId demo_token) < unat (vs_nextSnapshotId ?v)" by code_simp
  moreover have "snapshot_token ?v (st_observerId demo_token) \<noteq> Some (unat (st_snapshotId demo_token))" by code_simp
  ultimately show ?thesis using abandoned_snapshot_never_commits [OF refl] by blast
qed

end
