(* ===== verification/Actions.thy ===== *)
theory Actions
  imports Prelude
begin

text \<open>
  Code that changes a state and may throw: an action takes the state and returns its outcome, a value or the
  exception, with the state at that moment, so that what a throwing operation leaves behind is part of the model.
\<close>

datatype exn = LogicError | OverflowError | InvalidArgument | OutOfRange | OtherError

type_synonym ('s, 'a) act = "'s \<Rightarrow> (exn + 'a) \<times> 's"

definition act_return :: "'a \<Rightarrow> ('s, 'a) act" where
  "act_return a s = (Inr a, s)"

definition act_throw :: "exn \<Rightarrow> ('s, 'a) act" where
  "act_throw e s = (Inl e, s)"

definition act_modify :: "('s \<Rightarrow> 's) \<Rightarrow> ('s, unit) act" where
  "act_modify f s = (Inr (), f s)"

definition act_bind :: "('s, 'a) act \<Rightarrow> ('a \<Rightarrow> ('s, 'b) act) \<Rightarrow> ('s, 'b) act" where
  "act_bind m k s = (case m s of (Inl e, s') \<Rightarrow> (Inl e, s') | (Inr a, s') \<Rightarrow> k a s')"

definition act_then :: "('s, 'a) act \<Rightarrow> ('s, 'b) act \<Rightarrow> ('s, 'b) act" where
  "act_then m n = act_bind m (\<lambda>_. n)"

text \<open>\<open>catch (...)\<close> with a handler that sees the exception.\<close>

definition act_catch :: "('s, 'a) act \<Rightarrow> (exn \<Rightarrow> ('s, 'a) act) \<Rightarrow> ('s, 'a) act" where
  "act_catch m h s = (case m s of (Inl e, s') \<Rightarrow> h e s' | (Inr a, s') \<Rightarrow> (Inr a, s'))"

lemmas act_simps = act_return_def act_throw_def act_modify_def act_bind_def act_then_def

text \<open>
  The outcomes of an action satisfy \<open>Q\<close> (a value) or \<open>E\<close> (an exception): the rules of a Hoare logic for actions.
\<close>

definition act_ensures :: "('s, 'a) act \<Rightarrow> 's \<Rightarrow> ('a \<Rightarrow> 's \<Rightarrow> bool) \<Rightarrow> (exn \<Rightarrow> 's \<Rightarrow> bool) \<Rightarrow> bool" where
  "act_ensures m s Q E \<longleftrightarrow> (case m s of (Inl e, s') \<Rightarrow> E e s' | (Inr a, s') \<Rightarrow> Q a s')"

named_theorems act_intros \<open>one rule per action combinator\<close>

lemma ensures_return [act_intros]: "Q a s \<Longrightarrow> act_ensures (act_return a) s Q E"
  by (simp add: act_ensures_def act_return_def)

lemma ensures_throw [act_intros]: "E e s \<Longrightarrow> act_ensures (act_throw e) s Q E"
  by (simp add: act_ensures_def act_throw_def)

lemma ensures_bind:
  "act_ensures m s (\<lambda>a s'. act_ensures (k a) s' Q E) E \<Longrightarrow> act_ensures (act_bind m k) s Q E"
  by (auto simp: act_ensures_def act_bind_def split: prod.splits sum.splits)

lemma ensures_catch:
  "act_ensures m s Q (\<lambda>e s'. act_ensures (h e) s' Q E) \<Longrightarrow> act_ensures (act_catch m h) s Q E"
  by (auto simp: act_ensures_def act_catch_def split: prod.splits sum.splits)

lemma ensures_weaken:
  "act_ensures m s Q E \<Longrightarrow> (\<And>a s'. Q a s' \<Longrightarrow> Q' a s') \<Longrightarrow> (\<And>e s'. E e s' \<Longrightarrow> E' e s') \<Longrightarrow> act_ensures m s Q' E'"
  by (auto simp: act_ensures_def split: prod.splits sum.splits)

lemma ensures_if [act_intros]:
  "(b \<Longrightarrow> act_ensures m s Q E) \<Longrightarrow> (\<not> b \<Longrightarrow> act_ensures n s Q E) \<Longrightarrow> act_ensures (if b then m else n) s Q E"
  by simp

lemma ensures_result: "act_ensures m s Q E \<Longrightarrow> m s = (Inr a, s') \<Longrightarrow> Q a s'"
  by (simp add: act_ensures_def)

lemma ensures_exception: "act_ensures m s Q E \<Longrightarrow> m s = (Inl e, s') \<Longrightarrow> E e s'"
  by (simp add: act_ensures_def)

end
