(* ===== verification/Bag.thy ===== *)
theory Bag
  imports Prelude "HOL-Library.Multiset"
begin

text \<open>
  The bag of a player, sceneServer/src-cpp/player/item.h, bag.h and bag.cc: stacks keyed by item id,
  each with a 16-bit count and the slot it was given. A bag belongs to one player actor and has no
  lock; every operation is one function. \<open>size_t\<close> capacities are natural numbers, which the code
  bounds by 65536.
\<close>

section \<open>State and operations\<close>

record ItemStack =
  is_itemId :: u32
  is_count :: u16
  is_slot :: u16

record Bag =
  bag_capacity :: nat
  bag_nextSlot :: u32
  bag_items :: "(u32, ItemStack) umap"

definition kSlotRange :: nat where
  "kSlotRange = 65536"

text \<open>The constructor throws \<open>std::invalid_argument\<close> (\<open>None\<close>) beyond the range of a slot.\<close>

definition new_bag :: "nat \<Rightarrow> Bag option" where
  "new_bag capacity =
     (let c = (if capacity = 0 then 1 else capacity)
      in if c > kSlotRange then None
         else Some \<lparr>bag_capacity = c, bag_nextSlot = 0, bag_items = []\<rparr>)"

definition view :: "Bag \<Rightarrow> ItemStack list" where
  "view b = sort_key is_slot (map snd (bag_items b))"

definition bag_addItem :: "u32 \<Rightarrow> u16 \<Rightarrow> Bag \<Rightarrow> bool \<times> Bag" where
  "bag_addItem itemId num b =
     (if itemId = 0 \<or> num = 0 then (False, b)
      else case map_of (bag_items b) itemId of
        Some st \<Rightarrow>
          if (ucast (is_count st) :: u32) + ucast num > 0xFFFF then (False, b)
          else (True, b\<lparr>bag_items := AList.update itemId (st\<lparr>is_count := is_count st + num\<rparr>) (bag_items b)\<rparr>)
      | None \<Rightarrow>
          if length (bag_items b) \<ge> bag_capacity b \<or> bag_nextSlot b \<ge> 65536 then (False, b)
          else (True, b\<lparr>bag_items := AList.update itemId
                          \<lparr>is_itemId = itemId, is_count = num, is_slot = ucast (bag_nextSlot b)\<rparr>
                          (bag_items b),
                        bag_nextSlot := bag_nextSlot b + 1\<rparr>))"

definition bag_reduceItem :: "u32 \<Rightarrow> u16 \<Rightarrow> Bag \<Rightarrow> bool \<times> Bag" where
  "bag_reduceItem itemId num b =
     (if itemId = 0 \<or> num = 0 then (False, b)
      else case map_of (bag_items b) itemId of
        None \<Rightarrow> (False, b)
      | Some st \<Rightarrow>
          if is_count st < num then (False, b)
          else let st' = st\<lparr>is_count := is_count st - num\<rparr>
               in (True, b\<lparr>bag_items := (if is_count st' = 0 then AList.delete itemId (bag_items b)
                                         else AList.update itemId st' (bag_items b))\<rparr>))"

definition countOf :: "Bag \<Rightarrow> u32 \<Rightarrow> u16" where
  "countOf b itemId = (case map_of (bag_items b) itemId of None \<Rightarrow> 0 | Some st \<Rightarrow> is_count st)"

definition bag_clear :: "Bag \<Rightarrow> Bag" where
  "bag_clear b = b\<lparr>bag_items := [], bag_nextSlot := 0\<rparr>"

definition bag_used :: "Bag \<Rightarrow> nat" where
  "bag_used b = length (bag_items b)"

text \<open>The loop of \<open>restore\<close> over the stored stacks, with the two containers it fills.\<close>

fun restore_loop :: "u32 \<Rightarrow> ItemStack list \<Rightarrow> u16 list \<Rightarrow> (u32, ItemStack) umap
    \<Rightarrow> (u32, ItemStack) umap option" where
  "restore_loop nextSlot [] slots restored = Some restored"
| "restore_loop nextSlot (item # items) slots restored =
     (if is_itemId item = 0 \<or> is_count item = 0 \<or> (ucast (is_slot item) :: u32) \<ge> nextSlot
         \<or> is_slot item \<in> set slots \<or> map_of restored (is_itemId item) \<noteq> None
      then None
      else restore_loop nextSlot items (is_slot item # slots)
             (AList.update (is_itemId item) item restored))"

definition bag_restore :: "nat \<Rightarrow> u32 \<Rightarrow> ItemStack list \<Rightarrow> Bag \<Rightarrow> bool \<times> Bag" where
  "bag_restore capacity nextSlot items b =
     (if capacity = 0 \<or> capacity > 65536 \<or> nextSlot > 65536 \<or> length items > capacity then (False, b)
      else case restore_loop nextSlot items [] [] of
        None \<Rightarrow> (False, b)
      | Some restored \<Rightarrow>
          (True, \<lparr>bag_capacity = capacity, bag_nextSlot = nextSlot, bag_items = restored\<rparr>))"

section \<open>Invariant\<close>

definition stack_ok :: "u32 \<Rightarrow> ItemStack \<Rightarrow> bool" where
  "stack_ok nextSlot st \<longleftrightarrow> is_itemId st \<noteq> 0 \<and> is_count st \<noteq> 0 \<and> unat (is_slot st) < unat nextSlot"

text \<open>Stacks a save may hold: valid, with distinct items and distinct slots.\<close>

definition stacks_ok :: "u32 \<Rightarrow> ItemStack list \<Rightarrow> bool" where
  "stacks_ok nextSlot items \<longleftrightarrow>
     list_all (stack_ok nextSlot) items \<and> distinct (map is_itemId items) \<and> distinct (map is_slot items)"

definition bag_ok :: "Bag \<Rightarrow> bool" where
  "bag_ok b \<longleftrightarrow>
     1 \<le> bag_capacity b \<and> bag_capacity b \<le> kSlotRange \<and> unat (bag_nextSlot b) \<le> kSlotRange
     \<and> length (bag_items b) \<le> bag_capacity b
     \<and> list_all (\<lambda>(k, st). is_itemId st = k) (bag_items b)
     \<and> stacks_ok (bag_nextSlot b) (map snd (bag_items b))"

lemma map_is_itemId:
  "list_all (\<lambda>(k, st). is_itemId st = k) m \<Longrightarrow> map is_itemId (map snd m) = map fst m"
  by (induction m) auto

lemma bag_ok_umap: "bag_ok b \<Longrightarrow> umap_ok (bag_items b)"
  unfolding bag_ok_def stacks_ok_def umap_ok_def by (metis map_is_itemId)

lemma bag_ok_stack:
  assumes "bag_ok b" and "map_of (bag_items b) k = Some st"
  shows "is_itemId st = k" and "stack_ok (bag_nextSlot b) st"
  using assms map_of_SomeD [of "bag_items b" k st]
  by (auto simp: bag_ok_def stacks_ok_def list_all_iff)

lemma new_bag_ok: "new_bag c = Some b \<Longrightarrow> bag_ok b"
  by (auto simp: new_bag_def bag_ok_def stacks_ok_def kSlotRange_def Let_def split: if_splits)

lemma bag_clear_ok [inv_intros]: "bag_ok b \<Longrightarrow> bag_ok (bag_clear b)"
  by (simp add: bag_clear_def bag_ok_def stacks_ok_def)

text \<open>Replacing the stack of a key by one with the same item and slot keeps the columns.\<close>

lemma update_columns:
  assumes "umap_ok m" and "map_of m k = Some st" and "f st' = f st"
  shows "map f (map snd (AList.update k st' m)) = map f (map snd m)"
  using assms
proof (induction m)
  case (Cons e m)
  obtain k' v' where e: "e = (k', v')" by force
  show ?case
    using Cons by (cases "k' = k") (auto simp: e umap_ok_def)
qed simp

lemma update_new_append: "map_of m k = None \<Longrightarrow> AList.update k v m = m @ [(k, v)]"
  by (induction m) (auto split: if_splits)

lemma list_all_snd_update:
  "list_all P (map snd m) \<Longrightarrow> P v \<Longrightarrow> list_all P (map snd (AList.update k v m))"
  by (induction m) auto

lemma list_all_pair_update:
  "list_all P m \<Longrightarrow> P (k, v) \<Longrightarrow> list_all P (AList.update k v m)"
  by (induction m) auto

lemma bag_ok_put_same:
  assumes b: "bag_ok b" and st: "map_of (bag_items b) k = Some st" and n: "n \<noteq> 0"
  shows "bag_ok (b\<lparr>bag_items := AList.update k (st\<lparr>is_count := n\<rparr>) (bag_items b)\<rparr>)"
proof -
  let ?st = "st\<lparr>is_count := n\<rparr>"
  note ok = bag_ok_stack [OF b st]
  have "map f (map snd (AList.update k ?st (bag_items b))) = map f (map snd (bag_items b))"
    if "f ?st = f st" for f :: "ItemStack \<Rightarrow> 'z"
    using update_columns [OF bag_ok_umap [OF b] st that] .
  from this [of is_slot] this [of is_itemId]
  show ?thesis
    using b ok n st
    by (auto simp: bag_ok_def stacks_ok_def stack_ok_def length_update_old
        intro!: list_all_snd_update list_all_pair_update)
qed

lemma slot_of_next: "(n :: u32) < 65536 \<Longrightarrow> unat (ucast n :: u16) = unat n"
  by (simp add: unsigned_ucast_eq word_less_nat_alt take_bit_eq_mod)

lemma bag_ok_put_new:
  assumes b: "bag_ok b" and new: "map_of (bag_items b) k = None" and "k \<noteq> 0" and "n \<noteq> 0"
    and room: "length (bag_items b) < bag_capacity b" and ns: "bag_nextSlot b < 65536"
  shows "bag_ok (b\<lparr>bag_items := AList.update k
            \<lparr>is_itemId = k, is_count = n, is_slot = ucast (bag_nextSlot b)\<rparr> (bag_items b),
          bag_nextSlot := bag_nextSlot b + 1\<rparr>)"
proof -
  have nxt: "unat (bag_nextSlot b + 1) = unat (bag_nextSlot b) + 1"
    using ns by (intro u32_inc) auto
  have slot: "unat (ucast (bag_nextSlot b) :: u16) = unat (bag_nextSlot b)"
    using ns by (rule slot_of_next)
  have "unat (bag_nextSlot b) < 65536" using ns by (simp add: word_less_nat_alt)
  moreover have "is_slot st \<noteq> ucast (bag_nextSlot b)" if "st \<in> snd ` set (bag_items b)" for st
    using b that slot by (fastforce simp: bag_ok_def stacks_ok_def stack_ok_def list_all_iff)
  moreover have "is_itemId st \<noteq> k" if "st \<in> snd ` set (bag_items b)" for st
    using b that new by (auto simp: bag_ok_def list_all_iff map_of_eq_None_iff) force
  ultimately show ?thesis
    using assms nxt slot
    by (fastforce simp: bag_ok_def stacks_ok_def stack_ok_def update_new_append list_all_iff kSlotRange_def)
qed

lemma u16_sum:
  "((ucast (a :: u16) :: u32) + ucast (b :: u16) > 0xFFFF) \<longleftrightarrow> unat a + unat b > 65535"
proof -
  have "unat a < 65536" "unat b < 65536" using unsigned_less [of a] unsigned_less [of b] by simp_all
  then show ?thesis by (simp add: word_less_nat_alt unat_word_ariths unsigned_ucast_eq take_bit_eq_mod)
qed

lemma unat_u16_add: "unat (a :: u16) + unat b \<le> 65535 \<Longrightarrow> unat (a + b) = unat a + unat b"
  by (simp add: unat_word_ariths)

lemma bag_addItem_ok [inv_intros]:
  assumes "bag_ok b"
  shows "bag_ok (snd (bag_addItem itemId num b))"
proof (cases "map_of (bag_items b) itemId")
  case None
  with assms show ?thesis
    by (auto simp: bag_addItem_def not_le intro!: bag_ok_put_new)
next
  case (Some st)
  have "is_count st + num \<noteq> 0" if "num \<noteq> 0" "\<not> unat (is_count st) + unat num > 65535"
    using that unat_u16_add [of "is_count st" num] by (metis add_is_0 not_le unat_0 unat_eq_0)
  with Some assms show ?thesis
    by (auto simp: bag_addItem_def u16_sum intro!: bag_ok_put_same)
qed

lemma bag_ok_delete:
  assumes "bag_ok b"
  shows "bag_ok (b\<lparr>bag_items := AList.delete k (bag_items b)\<rparr>)"
proof -
  have "AList.delete k (bag_items b) = filter (\<lambda>e. fst e \<noteq> k) (bag_items b)"
    by (auto simp: AList.delete_eq intro: filter_cong)
  then show ?thesis
    using assms le_trans [OF length_filter_le]
    by (auto simp: bag_ok_def stacks_ok_def list_all_iff distinct_map_filter)
qed

lemma bag_reduceItem_ok [inv_intros]:
  "bag_ok b \<Longrightarrow> bag_ok (snd (bag_reduceItem itemId num b))"
  by (auto simp: bag_reduceItem_def Let_def bag_ok_delete bag_ok_put_same split: option.splits)


section \<open>The bag as a ledger\<close>

text \<open>What a client of the bag relies on: how many items of a kind there are.\<close>

definition ledger :: "Bag \<Rightarrow> u32 \<Rightarrow> nat" where
  "ledger b i = unat (countOf b i)"

lemma ledger_clear [simp]: "ledger (bag_clear b) i = 0"
  by (simp add: ledger_def countOf_def bag_clear_def)

lemma ledger_add:
  "ledger (snd (bag_addItem k n b)) =
     (if fst (bag_addItem k n b) then (ledger b)(k := ledger b k + unat n) else ledger b)"
  by (auto simp: ledger_def countOf_def bag_addItem_def u16_sum unat_u16_add not_less fun_eq_iff
      split: option.splits)

lemma unat_u16_sub: "\<not> (a :: u16) < b \<Longrightarrow> unat (a - b) = unat a - unat b"
  by (simp add: unat_sub not_less)

lemma ledger_reduce:
  "ledger (snd (bag_reduceItem k n b)) =
     (if fst (bag_reduceItem k n b) then (ledger b)(k := ledger b k - unat n) else ledger b)"
  by (auto simp: ledger_def countOf_def bag_reduceItem_def Let_def unat_u16_sub [symmetric] fun_eq_iff
      split: option.splits)

lemma reduce_succeeds_iff:
  assumes "bag_ok b"
  shows "fst (bag_reduceItem k n b) \<longleftrightarrow> n \<noteq> 0 \<and> unat n \<le> ledger b k"
proof -
  have "map_of (bag_items b) 0 = None"
    using bag_ok_stack [OF assms, of 0] by (cases "map_of (bag_items b) 0") (auto simp: stack_ok_def)
  then show ?thesis
    by (auto simp: bag_reduceItem_def ledger_def countOf_def Let_def word_le_nat_alt [symmetric] not_less
        unat_eq_0 split: option.splits)
qed

lemma add_succeeds_iff:
  assumes "bag_ok b"
  shows "fst (bag_addItem k n b) \<longleftrightarrow> k \<noteq> 0 \<and> n \<noteq> 0 \<and>
    (if ledger b k = 0 then bag_used b < bag_capacity b \<and> unat (bag_nextSlot b) < kSlotRange
     else ledger b k + unat n \<le> 65535)"
proof -
  have "is_count st \<noteq> 0" if "map_of (bag_items b) k = Some st" for st
    using bag_ok_stack [OF assms that] by (simp add: stack_ok_def)
  then show ?thesis
    by (auto simp: bag_addItem_def ledger_def countOf_def u16_sum bag_used_def kSlotRange_def unat_eq_0
        word_le_nat_alt not_le not_less split: option.splits)
qed

lemma failed_operation_keeps_bag:
  "\<not> fst (bag_addItem k n b) \<Longrightarrow> snd (bag_addItem k n b) = b"
  "\<not> fst (bag_reduceItem k n b) \<Longrightarrow> snd (bag_reduceItem k n b) = b"
  by (auto simp: bag_addItem_def bag_reduceItem_def Let_def split: option.splits)

datatype bag_op = BAdd u32 u16 | BReduce u32 u16 | BClear | BRestore nat u32 "ItemStack list"

fun bag_step :: "bag_op \<Rightarrow> Bag \<Rightarrow> Bag" where
  "bag_step (BAdd k n) b = snd (bag_addItem k n b)"
| "bag_step (BReduce k n) b = snd (bag_reduceItem k n b)"
| "bag_step BClear b = bag_clear b"
| "bag_step (BRestore c ns items) b = snd (bag_restore c ns items b)"

text \<open>The specification: a ledger with unbounded counts, moved by the outcomes the bag reports.\<close>

fun ledger_step :: "bag_op \<Rightarrow> Bag \<Rightarrow> (u32 \<Rightarrow> nat) \<Rightarrow> u32 \<Rightarrow> nat" where
  "ledger_step (BAdd k n) b l = (if fst (bag_addItem k n b) then l(k := l k + unat n) else l)"
| "ledger_step (BReduce k n) b l = (if fst (bag_reduceItem k n b) then l(k := l k - unat n) else l)"
| "ledger_step BClear b l = (\<lambda>_. 0)"
| "ledger_step (BRestore c ns items) b l =
     (if fst (bag_restore c ns items b)
      then (\<lambda>k. sum_list (map (unat \<circ> is_count) (filter (\<lambda>st. is_itemId st = k) items))) else l)"

section \<open>Restoring a stored bag\<close>

lemma restore_loop_iff:
  "restore_loop ns items slots m = Some r \<longleftrightarrow>
     list_all (stack_ok ns) items \<and> distinct (map is_slot items) \<and> distinct (map is_itemId items)
     \<and> set (map is_slot items) \<inter> set slots = {}
     \<and> (\<forall>st \<in> set items. map_of m (is_itemId st) = None)
     \<and> r = m @ map (\<lambda>st. (is_itemId st, st)) items"
proof (induction items arbitrary: slots m)
  case (Cons st items)
  have "((ucast (is_slot st) :: u32) \<ge> ns) \<longleftrightarrow> \<not> unat (is_slot st) < unat ns"
    using unsigned_less [of "is_slot st", where 'a = nat]
    by (simp add: word_le_nat_alt unsigned_ucast_eq take_bit_eq_mod not_less)
  then show ?case
    by (auto simp: Cons.IH stack_ok_def update_new_append image_iff)
qed auto

lemma bag_restore_accepts:
  "bag_restore c ns items b =
     (if 1 \<le> c \<and> c \<le> kSlotRange \<and> unat ns \<le> kSlotRange \<and> length items \<le> c \<and> stacks_ok ns items
      then (True, \<lparr>bag_capacity = c, bag_nextSlot = ns,
                   bag_items = map (\<lambda>st. (is_itemId st, st)) items\<rparr>)
      else (False, b))"
proof -
  have "restore_loop ns items [] [] = (if stacks_ok ns items
      then Some (map (\<lambda>st. (is_itemId st, st)) items) else None)"
    using restore_loop_iff [of ns items "[]" "[]"]
    by (cases "restore_loop ns items [] []") (auto simp: stacks_ok_def)
  moreover have "65536 < ns \<longleftrightarrow> \<not> unat ns \<le> kSlotRange"
    by (simp add: word_less_nat_alt kSlotRange_def not_le)
  ultimately show ?thesis
    by (auto simp: bag_restore_def kSlotRange_def)
qed

lemma restored_ok [inv_intros]:
  assumes "bag_ok b"
  shows "bag_ok (snd (bag_restore c ns items b))"
proof -
  have "map snd (map (\<lambda>st. (is_itemId st, st)) items) = items" by (simp add: comp_def)
  then show ?thesis
    using assms by (auto simp: bag_restore_accepts bag_ok_def list_all_iff simp del: map_map)
qed

lemma map_of_stacks:
  "distinct (map is_itemId items) \<Longrightarrow>
     map_of (map (\<lambda>st. (is_itemId st, st)) items) k = Some st \<longleftrightarrow> st \<in> set items \<and> is_itemId st = k"
  by (subst map_of_eq_Some_iff) (auto simp: comp_def)

lemma sum_of_unique:
  "distinct (map is_itemId items) \<Longrightarrow> st \<in> set items \<Longrightarrow>
     filter (\<lambda>s. is_itemId s = is_itemId st) items = [st]"
proof (induction items)
  case (Cons a items)
  then show ?case
    by (cases "a = st") (auto simp: filter_empty_conv image_iff)
qed simp

lemma ledger_restore:
  "ledger (snd (bag_restore c ns items b)) =
     (if fst (bag_restore c ns items b)
      then (\<lambda>k. sum_list (map (unat \<circ> is_count) (filter (\<lambda>st. is_itemId st = k) items))) else ledger b)"
proof (cases "fst (bag_restore c ns items b)")
  case True
  then have d: "distinct (map is_itemId items)"
    by (simp add: bag_restore_accepts stacks_ok_def split: if_splits)
  let ?m = "map (\<lambda>st. (is_itemId st, st)) items"
  have "ledger (snd (bag_restore c ns items b)) k =
      sum_list (map (unat \<circ> is_count) (filter (\<lambda>st. is_itemId st = k) items))" for k
  proof (cases "map_of ?m k")
    case None
    then have "filter (\<lambda>st. is_itemId st = k) items = []"
      by (force simp: map_of_eq_None_iff filter_empty_conv)
    with None True show ?thesis
      by (simp add: ledger_def countOf_def bag_restore_accepts split: if_splits)
  next
    case (Some st)
    then have "filter (\<lambda>s. is_itemId s = k) items = [st]"
      using sum_of_unique [OF d, of st] map_of_stacks [OF d, of k st] by simp
    with Some True show ?thesis
      by (simp add: ledger_def countOf_def bag_restore_accepts split: if_splits)
  qed
  with True show ?thesis by auto
qed (auto simp: bag_restore_accepts)

lemma bag_step_ok [inv_intros]: "bag_ok b \<Longrightarrow> bag_ok (bag_step opr b)"
  by (cases opr) (simp_all add: inv_intros)

lemma bag_step_ledger: "ledger (bag_step opr b) = ledger_step opr b (ledger b)"
  by (cases opr) (auto simp: ledger_add ledger_reduce ledger_restore)

fun bag_run :: "bag_op list \<Rightarrow> Bag \<Rightarrow> Bag" where
  "bag_run [] b = b"
| "bag_run (opr # ops) b = bag_run ops (bag_step opr b)"

fun ledger_run :: "bag_op list \<Rightarrow> Bag \<Rightarrow> (u32 \<Rightarrow> nat) \<Rightarrow> u32 \<Rightarrow> nat" where
  "ledger_run [] b l = l"
| "ledger_run (opr # ops) b l = ledger_run ops (bag_step opr b) (ledger_step opr b l)"

lemma bag_run_ok: "bag_ok b \<Longrightarrow> bag_ok (bag_run ops b)"
  by (induction ops arbitrary: b) (simp_all add: inv_intros)

lemma bag_run_ledger: "ledger (bag_run ops b) = ledger_run ops b (ledger b)"
  by (induction ops arbitrary: b) (simp_all add: bag_step_ledger)

text \<open>C31. Refinement: along every sequence of operations a bag built by the constructor keeps its
  invariant (nonzero counts, one stack per item, distinct slots below the next slot, no more stacks
  than the capacity) and is a ledger of unbounded counts: a successful addition adds exactly the
  amount, a successful removal takes exactly the amount, anything else changes no count. In each
  such state a removal succeeds exactly when that many items are there, and an addition exactly when
  the 16-bit count cannot overflow (a new item: when a stack and a slot number are left).\<close>

theorem bag_is_a_ledger:
  assumes "new_bag c = Some b0" and "b = bag_run ops b0"
  shows "bag_ok b \<and> ledger b = ledger_run ops b0 (\<lambda>_. 0)
    \<and> (fst (bag_reduceItem k n b) \<longleftrightarrow> n \<noteq> 0 \<and> unat n \<le> ledger b k)
    \<and> (fst (bag_addItem k n b) \<longleftrightarrow> k \<noteq> 0 \<and> n \<noteq> 0 \<and>
        (if ledger b k = 0 then bag_used b < bag_capacity b \<and> unat (bag_nextSlot b) < kSlotRange
         else ledger b k + unat n \<le> 65535))"
proof -
  have "bag_ok b0" using assms(1) by (rule new_bag_ok)
  then have ok: "bag_ok b" unfolding assms(2) by (rule bag_run_ok)
  have "ledger b0 = (\<lambda>_. 0)"
    using assms(1) by (auto simp: new_bag_def ledger_def countOf_def Let_def split: if_splits)
  then have "ledger b = ledger_run ops b0 (\<lambda>_. 0)" by (simp add: assms(2) bag_run_ledger)
  with ok reduce_succeeds_iff [OF ok] add_succeeds_iff [OF ok] show ?thesis by blast
qed

theorem bag_is_a_ledger_witness:
  "new_bag 2 \<noteq> None \<and>
   (let b = bag_run [BAdd 7 50, BAdd 7 6, BAdd 9 3, BReduce 7 10] (the (new_bag 2))
    in ledger b 7 = 46 \<and> fst (bag_reduceItem 7 46 b) \<and> \<not> fst (bag_addItem 8 1 b))"
proof -
  let ?b0 = "\<lparr>bag_capacity = 2, bag_nextSlot = 0, bag_items = []\<rparr>"
  let ?ops = "[BAdd 7 50, BAdd 7 6, BAdd 9 3, BReduce 7 10]"
  have new: "new_bag 2 = Some ?b0" by (simp add: new_bag_def kSlotRange_def)
  have b: "ledger (bag_run ?ops ?b0) 7 = 46 \<and> ledger (bag_run ?ops ?b0) 8 = 0
      \<and> bag_used (bag_run ?ops ?b0) = 2 \<and> bag_capacity (bag_run ?ops ?b0) = 2" by code_simp
  then show ?thesis
    using bag_is_a_ledger [OF new refl, of ?ops 7 46] bag_is_a_ledger [OF new refl, of ?ops 8 1] new
    by (simp add: Let_def)
qed

section \<open>Round trip of the stored stacks\<close>

lemma view_mset: "mset (view b) = mset (map snd (bag_items b))"
  by (simp add: view_def)

lemma stacks_ok_mset: "mset xs = mset ys \<Longrightarrow> stacks_ok ns xs \<longleftrightarrow> stacks_ok ns ys"
proof -
  assume *: "mset xs = mset ys"
  then have "mset (map f xs) = mset (map f ys)" for f :: "ItemStack \<Rightarrow> 'z" by simp
  from this [of is_itemId] this [of is_slot] mset_eq_setD [OF *] show ?thesis
    unfolding stacks_ok_def list_all_iff by (metis mset_eq_imp_distinct_iff)
qed

lemma restore_view:
  assumes "bag_ok b"
  shows "bag_restore (bag_capacity b) (bag_nextSlot b) (view b) b' =
     (True, b\<lparr>bag_items := map (\<lambda>st. (is_itemId st, st)) (view b)\<rparr>)"
proof -
  have "length (view b) = length (bag_items b)" by (simp add: view_def)
  moreover have "stacks_ok (bag_nextSlot b) (view b)"
    using assms stacks_ok_mset [OF view_mset] by (simp add: bag_ok_def)
  ultimately show ?thesis using assms by (simp add: bag_restore_accepts bag_ok_def)
qed

lemma map_of_view:
  assumes "bag_ok b"
  shows "map_of (map (\<lambda>st. (is_itemId st, st)) (view b)) = map_of (bag_items b)"
proof (rule map_of_eqI)
  show "set (map fst (map (\<lambda>st. (is_itemId st, st)) (view b))) = set (map fst (bag_items b))"
    using assms by (force simp: bag_ok_def list_all_iff view_def)
next
  show "\<forall>k \<in> set (map fst (map (\<lambda>st. (is_itemId st, st)) (view b))).
    map_of (map (\<lambda>st. (is_itemId st, st)) (view b)) k = map_of (bag_items b) k"
  proof
  fix k assume "k \<in> set (map fst (map (\<lambda>st. (is_itemId st, st)) (view b)))"
  then obtain st where st: "st \<in> snd ` set (bag_items b)" "is_itemId st = k"
    by (auto simp: view_def)
  then have "map_of (bag_items b) k = Some st"
    using assms bag_ok_umap [OF assms] by (auto simp: bag_ok_def list_all_iff umap_mem_iff [symmetric])
  moreover have "distinct (map is_itemId (view b))"
    using assms stacks_ok_mset [OF view_mset] unfolding bag_ok_def stacks_ok_def by blast
  ultimately show "map_of (map (\<lambda>st. (is_itemId st, st)) (view b)) k = map_of (bag_items b) k"
    using st map_of_stacks [of "view b" k st] by (simp add: view_def)
  qed
qed

lemma view_rebuilt:
  assumes "bag_ok b"
  shows "view (b\<lparr>bag_items := map (\<lambda>st. (is_itemId st, st)) (view b)\<rparr>) = view b"
proof -
  have "sorted (map is_slot (view b))" by (simp add: view_def)
  then show ?thesis by (simp add: view_def [of "bag_items_update _ b"] comp_def sort_key_id_if_sorted)
qed

text \<open>Round trip: the capacity, next slot and slot-ordered stacks read from a bag are accepted
  by \<open>restore\<close> of any other bag and give back the same content under every key and the same view.
  \<open>restore\<close> accepts exactly the stacks that satisfy the invariant (nonzero items and counts, distinct
  items and slots, slots below the next slot, within capacity), and refuses anything else without
  touching the bag.\<close>

theorem bag_store_restore:
  assumes "bag_ok b"
  shows "(case bag_restore (bag_capacity b) (bag_nextSlot b) (view b) b' of (accepted, b2) \<Rightarrow>
      accepted \<and> bag_ok b2 \<and> view b2 = view b \<and> map_of (bag_items b2) = map_of (bag_items b)
      \<and> bag_capacity b2 = bag_capacity b \<and> bag_nextSlot b2 = bag_nextSlot b)
    \<and> (fst (bag_restore c ns items b) \<longleftrightarrow>
      1 \<le> c \<and> c \<le> kSlotRange \<and> unat ns \<le> kSlotRange \<and> length items \<le> c \<and> stacks_ok ns items)
    \<and> (fst (bag_restore c ns items b) \<or> snd (bag_restore c ns items b) = b)"
proof -
  have "bag_ok (snd (bag_restore (bag_capacity b) (bag_nextSlot b) (view b) b))"
    using assms by (rule restored_ok)
  then have "bag_ok (b\<lparr>bag_items := map (\<lambda>st. (is_itemId st, st)) (view b)\<rparr>)"
    by (simp add: restore_view assms)
  then show ?thesis
    using assms by (simp add: restore_view map_of_view view_rebuilt) (simp add: bag_restore_accepts)
qed

theorem bag_store_restore_witness:
  "let b = bag_run [BAdd 7 5, BAdd 9 3, BReduce 7 5, BAdd 4 1] \<lparr>bag_capacity = 2, bag_nextSlot = 0, bag_items = []\<rparr>
   in bag_ok b \<and> map is_slot (view b) = [1, 2]
      \<and> fst (bag_restore (bag_capacity b) (bag_nextSlot b) (view b) (bag_clear b))"
proof -
  let ?b = "bag_run [BAdd 7 5, BAdd 9 3, BReduce 7 5, BAdd 4 1] \<lparr>bag_capacity = 2, bag_nextSlot = 0, bag_items = []\<rparr>"
  have b: "?b = \<lparr>bag_capacity = 2, bag_nextSlot = 3,
      bag_items = [(9, \<lparr>is_itemId = 9, is_count = 3, is_slot = 1\<rparr>), (4, \<lparr>is_itemId = 4, is_count = 1, is_slot = 2\<rparr>)]\<rparr>"
    by code_simp
  have ok: "bag_ok ?b" and slots: "map is_slot (view ?b) = [1, 2]"
    unfolding b by (simp_all add: bag_ok_def stacks_ok_def stack_ok_def kSlotRange_def view_def)
  have "fst (bag_restore (bag_capacity ?b) (bag_nextSlot ?b) (view ?b) (bag_clear ?b))"
    using bag_store_restore [OF ok, of "bag_clear ?b" 1 1 "[]"] unfolding split_beta by blast
  with ok slots show ?thesis unfolding Let_def by blast
qed

end
