(* ===== verification/Player.thy ===== *)
theory Player
  imports Actions Bag GatewayPlayer
begin

text \<open>
  The player actor, sceneServer/src-cpp/player/player.h, player.cc and playerSaveSnapshot.h. An
  operation takes the player and returns its outcome, a value or the exception it threw, together
  with the player as it is at that moment, so that what a throwing operation leaves behind is
  part of the model. Positions are 32-bit patterns read as signed numbers where the code computes.
\<close>

section \<open>State\<close>

record PlayerSaveSnapshot =
  ps_playerId :: u64
  ps_hp :: u16
  ps_mp :: u16
  ps_gold :: u32
  ps_x :: u32
  ps_y :: u32
  ps_dir :: u32
  ps_sceneId :: u32
  ps_bagCapacity :: u32
  ps_bagNextSlot :: u32
  ps_items :: "ItemStack list"
  ps_saveVersion :: u64
  ps_capturedRevision :: u64
  ps_saveLifecycleToken :: u64

record EconomyRequest =
  er_operationId :: string
  er_cost :: u32
  er_itemId :: u32
  er_count :: u16
  er_rulesVersion :: u32

record EconomyReservation =
  ev_request :: EconomyRequest
  ev_candidate :: PlayerSaveSnapshot
  ev_preparedBag :: Bag

record Player =
  p_playerId :: u64
  p_epoch :: u32
  p_session :: u64
  p_clientBinding :: ClientData
  p_hp :: u16
  p_mp :: u16
  p_gold :: u32
  p_x :: u32
  p_y :: u32
  p_dir :: u32
  p_sceneId :: u32
  p_mutationRevision :: u64
  p_persistedVersion :: u64
  p_persistedRevision :: u64
  p_bag :: Bag
  p_economyReservation :: "EconomyReservation option"
  p_dirty :: bool
  p_lastActiveMs :: int

definition default_bag :: Bag where
  "default_bag = \<lparr>bag_capacity = 64, bag_nextSlot = 0, bag_items = []\<rparr>"

definition default_client :: ClientData where
  "default_client = \<lparr>cd_playerId = 0, cd_clientSession = 0, cd_clientEpoch = 0, cd_gatewayId = 0, cd_sceneId = 0\<rparr>"

definition new_player :: Player where
  "new_player = \<lparr>p_playerId = 0, p_epoch = 0, p_session = 0, p_clientBinding = default_client,
     p_hp = 100, p_mp = 50, p_gold = 0, p_x = 0, p_y = 0, p_dir = 0, p_sceneId = 1,
     p_mutationRevision = 0, p_persistedVersion = 0, p_persistedRevision = 0,
     p_bag = default_bag, p_economyReservation = None, p_dirty = False, p_lastActiveMs = 0\<rparr>"

section \<open>Operations\<close>

definition kMaxRevision :: u64 where
  "kMaxRevision = 0xFFFFFFFFFFFFFFFF"

definition kMaxInt64 :: u64 where
  "kMaxInt64 = 0x7FFFFFFFFFFFFFFF"

definition kMaxHp :: int where "kMaxHp = 65535"
definition kMaxMp :: int where "kMaxMp = 65535"
definition kMaxGold :: int where "kMaxGold = 0xFFFFFFFF"

definition economyPending :: "Player \<Rightarrow> bool" where
  "economyPending p \<longleftrightarrow> p_economyReservation p \<noteq> None"

definition markDirty :: "Player \<Rightarrow> Player" where
  "markDirty p = p\<lparr>p_dirty := True\<rparr>"

definition clearDirty :: "Player \<Rightarrow> Player" where
  "clearDirty p = p\<lparr>p_dirty := False\<rparr>"

definition touch :: "int \<Rightarrow> Player \<Rightarrow> Player" where
  "touch nowMs p = p\<lparr>p_lastActiveMs := nowMs\<rparr>"

definition ensureRevisionAvailable :: "(Player, unit) act" where
  "ensureRevisionAvailable p =
     (if p_mutationRevision p = kMaxRevision then act_throw OverflowError p else act_return () p)"

definition recordMutation :: "(Player, unit) act" where
  "recordMutation = act_then ensureRevisionAvailable
     (act_modify (\<lambda>p. markDirty (p\<lparr>p_mutationRevision := p_mutationRevision p + 1\<rparr>)))"

definition set_hp :: "u16 \<Rightarrow> (Player, unit) act" where
  "set_hp v p =
     (if p_hp p = v then act_return () p
      else act_then ensureRevisionAvailable
             (act_then (act_modify (\<lambda>p. p\<lparr>p_hp := v\<rparr>)) recordMutation) p)"

definition set_mp :: "u16 \<Rightarrow> (Player, unit) act" where
  "set_mp v p =
     (if p_mp p = v then act_return () p
      else act_then ensureRevisionAvailable
             (act_then (act_modify (\<lambda>p. p\<lparr>p_mp := v\<rparr>)) recordMutation) p)"

definition modifyHp :: "32 word \<Rightarrow> (Player, unit) act" where
  "modifyHp delta p =
     (let v = uint (p_hp p) + sint delta;
          v = (if v < 0 then 0 else v);
          v = (if v > kMaxHp then kMaxHp else v)
      in set_hp (word_of_int v) p)"

definition modifyMp :: "32 word \<Rightarrow> (Player, unit) act" where
  "modifyMp delta p =
     (let v = uint (p_mp p) + sint delta;
          v = (if v < 0 then 0 else v);
          v = (if v > kMaxMp then kMaxMp else v)
      in set_mp (word_of_int v) p)"

text \<open>\<open>std::clamp\<close>, whose bounds are ordered here.\<close>

definition clamp :: "int \<Rightarrow> int \<Rightarrow> int \<Rightarrow> int" where
  "clamp v lo hi = (if v < lo then lo else if hi < v then hi else v)"

definition addGold :: "64 word \<Rightarrow> (Player, unit) act" where
  "addGold delta p =
     (if economyPending p then act_throw LogicError p
      else let clamped = clamp (sint delta) (- uint (p_gold p)) (kMaxGold - uint (p_gold p));
               value = (word_of_int (uint (p_gold p) + clamped) :: u32)
           in if value = p_gold p then act_return () p
              else act_then ensureRevisionAvailable
                     (act_then (act_modify (\<lambda>p. p\<lparr>p_gold := value\<rparr>)) recordMutation) p)"

definition setPos :: "u32 \<Rightarrow> u32 \<Rightarrow> u32 \<Rightarrow> (Player, unit) act" where
  "setPos x y dir p =
     (if p_x p = x \<and> p_y p = y \<and> p_dir p = dir then act_return () p
      else act_then ensureRevisionAvailable
             (act_then (act_modify (\<lambda>p. p\<lparr>p_x := x, p_y := y, p_dir := dir\<rparr>)) recordMutation) p)"

definition setSceneId :: "u32 \<Rightarrow> (Player, unit) act" where
  "setSceneId sceneId p =
     (if sceneId = 0 then act_throw InvalidArgument p
      else if p_sceneId p = sceneId then act_return () p
      else act_then ensureRevisionAvailable
             (act_then (act_modify (\<lambda>p. p\<lparr>p_sceneId := sceneId\<rparr>)) recordMutation) p)"

text \<open>A call of a bag operation on the player's own bag, which reports success.\<close>

definition on_bag :: "(Bag \<Rightarrow> bool \<times> Bag) \<Rightarrow> (Player, bool) act" where
  "on_bag f p = (case f (p_bag p) of (ok, b) \<Rightarrow> (Inr ok, p\<lparr>p_bag := b\<rparr>))"

definition player_addItem :: "u32 \<Rightarrow> u16 \<Rightarrow> (Player, bool) act" where
  "player_addItem itemId num p =
     (if economyPending p then act_return False p
      else act_then ensureRevisionAvailable
             (act_bind (on_bag (bag_addItem itemId num)) (\<lambda>ok.
                if \<not> ok then act_return False else act_then recordMutation (act_return True))) p)"

definition consumeItem :: "u32 \<Rightarrow> u16 \<Rightarrow> (Player, bool) act" where
  "consumeItem itemId num p =
     (if economyPending p then act_return False p
      else act_then ensureRevisionAvailable
             (act_bind (on_bag (bag_reduceItem itemId num)) (\<lambda>ok.
                if \<not> ok then act_return False else act_then recordMutation (act_return True))) p)"

definition clearBag :: "(Player, unit) act" where
  "clearBag p =
     (if economyPending p then act_throw LogicError p
      else if bag_used (p_bag p) = 0 \<and> bag_nextSlot (p_bag p) = 0 then act_return () p
      else act_then ensureRevisionAvailable
             (act_then (act_modify (\<lambda>p. p\<lparr>p_bag := bag_clear (p_bag p)\<rparr>)) recordMutation) p)"

definition freezeSaveSnapshot :: "u64 \<Rightarrow> u64 \<Rightarrow> Player \<Rightarrow> exn + PlayerSaveSnapshot" where
  "freezeSaveSnapshot saveVersion lifecycleToken p =
     (if saveVersion > kMaxInt64 then Inl InvalidArgument
      else Inr \<lparr>ps_playerId = p_playerId p, ps_hp = p_hp p, ps_mp = p_mp p, ps_gold = p_gold p,
        ps_x = p_x p, ps_y = p_y p, ps_dir = p_dir p, ps_sceneId = p_sceneId p,
        ps_bagCapacity = of_nat (bag_capacity (p_bag p)), ps_bagNextSlot = bag_nextSlot (p_bag p),
        ps_items = view (p_bag p), ps_saveVersion = saveVersion,
        ps_capturedRevision = p_mutationRevision p, ps_saveLifecycleToken = lifecycleToken\<rparr>)"

definition restoreSaveSnapshot :: "PlayerSaveSnapshot \<Rightarrow> Player \<Rightarrow> bool \<times> Player" where
  "restoreSaveSnapshot s p =
     (if economyPending p then (False, p)
      else if ps_playerId s = 0 \<or> ps_playerId s > kMaxInt64 \<or> ps_sceneId s = 0
              \<or> ps_saveVersion s > kMaxInt64
              \<or> (p_playerId p \<noteq> 0 \<and> p_playerId p \<noteq> ps_playerId s) then (False, p)
      else case bag_restore (unat (ps_bagCapacity s)) (ps_bagNextSlot s) (ps_items s) default_bag of
        (False, _) \<Rightarrow> (False, p)
      | (True, restored) \<Rightarrow>
          (True, p\<lparr>p_bag := restored, p_playerId := ps_playerId s,
                   p_hp := ps_hp s, p_mp := ps_mp s, p_gold := ps_gold s,
                   p_x := ps_x s, p_y := ps_y s, p_dir := ps_dir s, p_sceneId := ps_sceneId s,
                   p_mutationRevision := 0, p_persistedVersion := ps_saveVersion s,
                   p_persistedRevision := 0, p_dirty := False\<rparr>))"

definition reserveEconomy :: "EconomyRequest \<Rightarrow> (Player, bool) act" where
  "reserveEconomy r p =
     (case p_economyReservation p of
        Some v \<Rightarrow> act_return (ev_request v = r) p
      | None \<Rightarrow>
          if p_playerId p = 0 \<or> er_operationId r = [] \<or> length (er_operationId r) > 128
             \<or> er_itemId r = 0 \<or> er_count r = 0 \<or> er_rulesVersion r = 0 \<or> er_cost r > p_gold p
          then act_return False p
          else act_then ensureRevisionAvailable (\<lambda>p.
            case freezeSaveSnapshot (p_persistedVersion p) 0 p of
              Inl e \<Rightarrow> act_throw e p
            | Inr candidate \<Rightarrow>
                (case bag_restore (bag_capacity (p_bag p)) (bag_nextSlot (p_bag p)) (view (p_bag p))
                        default_bag of
                   (False, _) \<Rightarrow> act_return False p
                 | (True, prepared) \<Rightarrow>
                     (case bag_addItem (er_itemId r) (er_count r) prepared of
                        (False, _) \<Rightarrow> act_return False p
                      | (True, prepared) \<Rightarrow>
                          act_return True (p\<lparr>p_economyReservation := Some
                            \<lparr>ev_request = r,
                             ev_candidate = candidate\<lparr>ps_gold := p_gold p - er_cost r,
                               ps_items := view prepared, ps_bagNextSlot := bag_nextSlot prepared\<rparr>,
                             ev_preparedBag = prepared\<rparr>\<rparr>)))) p)"

definition commitEconomy :: "string \<Rightarrow> (Player, bool) act" where
  "commitEconomy operationId p =
     (case p_economyReservation p of
        None \<Rightarrow> act_return False p
      | Some v \<Rightarrow>
          if er_operationId (ev_request v) \<noteq> operationId then act_return False p
          else act_then ensureRevisionAvailable
                 (act_then (act_modify (\<lambda>p. p\<lparr>p_gold := ps_gold (ev_candidate v),
                                             p_bag := ev_preparedBag v,
                                             p_economyReservation := None\<rparr>))
                    (act_then recordMutation (act_return True))) p)"

definition cancelEconomy :: "string \<Rightarrow> Player \<Rightarrow> bool \<times> Player" where
  "cancelEconomy operationId p =
     (case p_economyReservation p of
        None \<Rightarrow> (False, p)
      | Some v \<Rightarrow>
          if er_operationId (ev_request v) \<noteq> operationId then (False, p)
          else (True, p\<lparr>p_economyReservation := None\<rparr>))"

definition confirmSave :: "u64 \<Rightarrow> u64 \<Rightarrow> Player \<Rightarrow> Player" where
  "confirmSave version revision p =
     (if revision > p_mutationRevision p \<or> version < p_persistedVersion p then p
      else let p' = p\<lparr>p_persistedVersion := version, p_persistedRevision := revision\<rparr>
           in if revision = p_mutationRevision p' then clearDirty p' else p')"

section \<open>Runs\<close>

datatype player_op =
    PSetHp u16 | PModifyHp "32 word" | PSetMp u16 | PModifyMp "32 word" | PAddGold "64 word"
  | PSetPos u32 u32 u32 | PSetSceneId u32 | PAddItem u32 u16 | PConsumeItem u32 u16 | PClearBag
  | PReserve EconomyRequest | PCommit string | PCancel string | PConfirmSave u64 u64
  | PMarkDirty | PTouch int | PSetSession u64 | PSetClientBinding ClientData

text \<open>The operations a holder of a player may call; \<open>set_id\<close> and \<open>set_epoch\<close> are called by the
  player manager alone. The outcome is \<open>Inr False\<close> for an operation that reports failure.\<close>

definition act_unit :: "(Player, unit) act \<Rightarrow> (Player, bool) act" where
  "act_unit m = act_then m (act_return True)"

definition pure_update :: "(Player \<Rightarrow> Player) \<Rightarrow> (Player, bool) act" where
  "pure_update f p = (Inr True, f p)"

fun player_act :: "player_op \<Rightarrow> (Player, bool) act" where
  "player_act (PSetHp v) = act_unit (set_hp v)"
| "player_act (PModifyHp d) = act_unit (modifyHp d)"
| "player_act (PSetMp v) = act_unit (set_mp v)"
| "player_act (PModifyMp d) = act_unit (modifyMp d)"
| "player_act (PAddGold d) = act_unit (addGold d)"
| "player_act (PSetPos x y dir) = act_unit (setPos x y dir)"
| "player_act (PSetSceneId i) = act_unit (setSceneId i)"
| "player_act (PAddItem i n) = player_addItem i n"
| "player_act (PConsumeItem i n) = consumeItem i n"
| "player_act PClearBag = act_unit clearBag"
| "player_act (PReserve r) = reserveEconomy r"
| "player_act (PCommit oid) = commitEconomy oid"
| "player_act (PCancel oid) = (\<lambda>p. case cancelEconomy oid p of (ok, p') \<Rightarrow> (Inr ok, p'))"
| "player_act (PConfirmSave v r) = pure_update (confirmSave v r)"
| "player_act PMarkDirty = pure_update markDirty"
| "player_act (PTouch t) = pure_update (touch t)"
| "player_act (PSetSession s) = pure_update (\<lambda>p. p\<lparr>p_session := s\<rparr>)"
| "player_act (PSetClientBinding c) = pure_update (\<lambda>p. p\<lparr>p_clientBinding := c\<rparr>)"

definition player_run :: "player_op list \<Rightarrow> Player \<Rightarrow> Player" where
  "player_run ops p = fold (\<lambda>opr p. snd (player_act opr p)) ops p"

section \<open>Transitions\<close>

text \<open>The shape every mutating operation has: check the revision, change, record.\<close>

lemma mutation:
  assumes "\<And>q. p_mutationRevision (f q) = p_mutationRevision q"
  shows "act_then ensureRevisionAvailable (act_then (act_modify f) recordMutation) p =
    (if p_mutationRevision p = kMaxRevision then (Inl OverflowError, p)
     else (Inr (), (f p)\<lparr>p_mutationRevision := p_mutationRevision p + 1, p_dirty := True\<rparr>))"
  using assms by (simp add: act_simps ensureRevisionAvailable_def recordMutation_def markDirty_def)

text \<open>What is saved of a player: the snapshot without the bookkeeping of the save.\<close>

definition content :: "Player \<Rightarrow> PlayerSaveSnapshot" where
  "content p = \<lparr>ps_playerId = p_playerId p, ps_hp = p_hp p, ps_mp = p_mp p, ps_gold = p_gold p,
     ps_x = p_x p, ps_y = p_y p, ps_dir = p_dir p, ps_sceneId = p_sceneId p,
     ps_bagCapacity = of_nat (bag_capacity (p_bag p)), ps_bagNextSlot = bag_nextSlot (p_bag p),
     ps_items = view (p_bag p), ps_saveVersion = 0, ps_capturedRevision = 0, ps_saveLifecycleToken = 0\<rparr>"

lemma freeze_content:
  "freezeSaveSnapshot v t p = (if v > kMaxInt64 then Inl InvalidArgument
     else Inr ((content p)\<lparr>ps_saveVersion := v, ps_capturedRevision := p_mutationRevision p,
                           ps_saveLifecycleToken := t\<rparr>))"
  by (simp add: freezeSaveSnapshot_def content_def)

definition unchanged :: "Player \<Rightarrow> Player \<Rightarrow> bool" where
  "unchanged p q \<longleftrightarrow> content q = content p \<and> p_mutationRevision q = p_mutationRevision p"

definition mutated :: "Player \<Rightarrow> Player \<Rightarrow> bool" where
  "mutated p q \<longleftrightarrow> unat (p_mutationRevision q) = unat (p_mutationRevision p) + 1 \<and> p_dirty q"

lemma u64_inc: "(r :: u64) \<noteq> kMaxRevision \<Longrightarrow> unat (r + 1) = unat r + 1"
proof -
  assume "r \<noteq> kMaxRevision"
  then have "unat r \<noteq> 0xFFFFFFFFFFFFFFFF" by (auto simp: kMaxRevision_def word_unat_eq_iff)
  moreover have "unat r < 0x10000000000000000" using unsigned_less [of r, where 'a = nat] by simp
  ultimately show ?thesis by (simp add: unat_word_ariths)
qed

lemma on_bag_false:
  assumes "\<not> fst (f (p_bag p)) \<Longrightarrow> snd (f (p_bag p)) = p_bag p"
  shows "on_bag f p = (if fst (f (p_bag p)) then (Inr True, p\<lparr>p_bag := snd (f (p_bag p))\<rparr>) else (Inr False, p))"
  using assms by (auto simp: on_bag_def split: prod.splits)

lemma bag_operation:
  assumes "\<And>b. \<not> fst (f b) \<Longrightarrow> snd (f b) = b"
  shows "act_then ensureRevisionAvailable (act_bind (on_bag f) (\<lambda>ok.
      if \<not> ok then act_return False else act_then recordMutation (act_return True))) p =
    (if p_mutationRevision p = kMaxRevision then (Inl OverflowError, p)
     else if fst (f (p_bag p))
       then (Inr True, p\<lparr>p_bag := snd (f (p_bag p)), p_mutationRevision := p_mutationRevision p + 1, p_dirty := True\<rparr>)
     else (Inr False, p))"
  using assms by (simp add: act_simps ensureRevisionAvailable_def recordMutation_def markDirty_def on_bag_false)

lemma player_addItem_eq:
  "player_addItem i n p =
    (if economyPending p then (Inr False, p)
     else if p_mutationRevision p = kMaxRevision then (Inl OverflowError, p)
     else if fst (bag_addItem i n (p_bag p))
       then (Inr True, p\<lparr>p_bag := snd (bag_addItem i n (p_bag p)),
              p_mutationRevision := p_mutationRevision p + 1, p_dirty := True\<rparr>)
     else (Inr False, p))"
  by (simp add: player_addItem_def bag_operation failed_operation_keeps_bag act_return_def)

lemma consumeItem_eq:
  "consumeItem i n p =
    (if economyPending p then (Inr False, p)
     else if p_mutationRevision p = kMaxRevision then (Inl OverflowError, p)
     else if fst (bag_reduceItem i n (p_bag p))
       then (Inr True, p\<lparr>p_bag := snd (bag_reduceItem i n (p_bag p)),
              p_mutationRevision := p_mutationRevision p + 1, p_dirty := True\<rparr>)
     else (Inr False, p))"
  by (simp add: consumeItem_def bag_operation failed_operation_keeps_bag act_return_def)

lemma commitEconomy_eq:
  "commitEconomy oid p =
    (case p_economyReservation p of
       None \<Rightarrow> (Inr False, p)
     | Some v \<Rightarrow>
         if er_operationId (ev_request v) \<noteq> oid then (Inr False, p)
         else if p_mutationRevision p = kMaxRevision then (Inl OverflowError, p)
         else (Inr True, p\<lparr>p_gold := ps_gold (ev_candidate v), p_bag := ev_preparedBag v,
                p_economyReservation := None, p_mutationRevision := p_mutationRevision p + 1, p_dirty := True\<rparr>))"
  by (simp add: commitEconomy_def act_simps ensureRevisionAvailable_def recordMutation_def markDirty_def
      split: option.splits)

text \<open>The bag a reservation prepares: the player's bag rebuilt, with the bought items added.\<close>

definition rebuilt :: "Player \<Rightarrow> bool \<times> Bag" where
  "rebuilt p = bag_restore (bag_capacity (p_bag p)) (bag_nextSlot (p_bag p)) (view (p_bag p)) default_bag"

definition prepared :: "EconomyRequest \<Rightarrow> Player \<Rightarrow> bool \<times> Bag" where
  "prepared r p = bag_addItem (er_itemId r) (er_count r) (snd (rebuilt p))"

definition reservation_for :: "EconomyRequest \<Rightarrow> Player \<Rightarrow> EconomyReservation" where
  "reservation_for r p =
     (let b = snd (prepared r p)
      in \<lparr>ev_request = r,
          ev_candidate = (content p)\<lparr>ps_saveVersion := p_persistedVersion p,
            ps_capturedRevision := p_mutationRevision p, ps_gold := p_gold p - er_cost r,
            ps_items := view b, ps_bagNextSlot := bag_nextSlot b\<rparr>,
          ev_preparedBag = b\<rparr>)"

definition request_refused :: "EconomyRequest \<Rightarrow> Player \<Rightarrow> bool" where
  "request_refused r p \<longleftrightarrow> p_playerId p = 0 \<or> er_operationId r = [] \<or> length (er_operationId r) > 128
     \<or> er_itemId r = 0 \<or> er_count r = 0 \<or> er_rulesVersion r = 0 \<or> er_cost r > p_gold p"

lemma reserveEconomy_eq:
  "reserveEconomy r p =
    (case p_economyReservation p of
       Some v \<Rightarrow> (Inr (ev_request v = r), p)
     | None \<Rightarrow>
         if request_refused r p then (Inr False, p)
         else if p_mutationRevision p = kMaxRevision then (Inl OverflowError, p)
         else if p_persistedVersion p > kMaxInt64 then (Inl InvalidArgument, p)
         else if \<not> fst (rebuilt p) \<or> \<not> fst (prepared r p) then (Inr False, p)
         else (Inr True, p\<lparr>p_economyReservation := Some (reservation_for r p)\<rparr>))"
proof (cases "p_economyReservation p = None \<and> \<not> request_refused r p \<and> p_mutationRevision p \<noteq> kMaxRevision")
  case True
  obtain a1 b1 where restore: "rebuilt p = (a1, b1)" by force
  obtain a2 b2 where add: "bag_addItem (er_itemId r) (er_count r) b1 = (a2, b2)" by force
  have "prepared r p = (a2, b2)" using restore add by (simp add: prepared_def)
  with True restore add show ?thesis
    unfolding reserveEconomy_def request_refused_def [symmetric] rebuilt_def [symmetric]
    by (cases a1; cases a2) (simp_all add: act_simps ensureRevisionAvailable_def freeze_content
        reservation_for_def content_def)
next
  case False
  then show ?thesis
    unfolding reserveEconomy_def request_refused_def [symmetric]
    by (auto simp: act_simps ensureRevisionAvailable_def split: option.splits)
qed

lemma act_unit_eq:
  "act_unit m p = (case m p of (Inl e, q) \<Rightarrow> (Inl e, q) | (Inr _, q) \<Rightarrow> (Inr True, q))"
  by (simp add: act_unit_def act_simps split: prod.splits sum.splits)

lemmas player_simps = set_hp_def set_mp_def modifyHp_def modifyMp_def addGold_def setPos_def setSceneId_def
  clearBag_def Let_def mutation player_addItem_eq consumeItem_eq
  reserveEconomy_eq commitEconomy_eq
  cancelEconomy_def confirmSave_def markDirty_def clearDirty_def touch_def act_unit_eq
  pure_update_def act_return_def act_throw_def

lemma player_act_transition:
  "unchanged p (snd (player_act opr p)) \<or> mutated p (snd (player_act opr p))"
  by (cases opr) (auto simp: player_simps unchanged_def mutated_def content_def u64_inc split: option.splits)

lemma player_act_failure: "fst (player_act opr p) = Inr True \<or> snd (player_act opr p) = p"
  by (cases opr) (auto simp: player_simps split: option.splits)

section \<open>Invariant\<close>

text \<open>A reservation holds what the player's gold and bag become when it is committed.\<close>

definition reservation_ok :: "Player \<Rightarrow> EconomyReservation \<Rightarrow> bool" where
  "reservation_ok p v \<longleftrightarrow>
     (let r = ev_request v; c = ev_candidate v; b = ev_preparedBag v
      in er_cost r \<le> p_gold p \<and> ps_gold c = p_gold p - er_cost r
         \<and> bag_ok b \<and> ps_items c = view b \<and> ps_bagNextSlot c = bag_nextSlot b
         \<and> bag_capacity b = bag_capacity (p_bag p)
         \<and> ledger b = (ledger (p_bag p))(er_itemId r := ledger (p_bag p) (er_itemId r) + unat (er_count r)))"

definition player_ok :: "Player \<Rightarrow> bool" where
  "player_ok p \<longleftrightarrow> bag_ok (p_bag p) \<and> p_sceneId p \<noteq> 0
     \<and> (case p_economyReservation p of None \<Rightarrow> True | Some v \<Rightarrow> reservation_ok p v)"

lemma rebuilt_bag:
  assumes "bag_ok (p_bag p)"
  shows "fst (rebuilt p)" and "bag_ok (snd (rebuilt p))"
    and "bag_capacity (snd (rebuilt p)) = bag_capacity (p_bag p)" and "ledger (snd (rebuilt p)) = ledger (p_bag p)"
proof -
  have eq: "rebuilt p = (True, (p_bag p)\<lparr>bag_items := map (\<lambda>st. (is_itemId st, st)) (view (p_bag p))\<rparr>)"
    using assms by (simp add: rebuilt_def restore_view)
  then show "fst (rebuilt p)" and "bag_capacity (snd (rebuilt p)) = bag_capacity (p_bag p)" by simp_all
  have "bag_ok default_bag" by (simp add: default_bag_def bag_ok_def stacks_ok_def kSlotRange_def)
  then show "bag_ok (snd (rebuilt p))" by (simp add: rebuilt_def inv_intros)
  show "ledger (snd (rebuilt p)) = ledger (p_bag p)"
    using assms by (simp add: eq ledger_def countOf_def map_of_view fun_eq_iff)
qed

lemma bag_addItem_capacity [simp]: "bag_capacity (snd (bag_addItem i n b)) = bag_capacity b"
  by (auto simp: bag_addItem_def split: option.splits)

lemma reservation_for_ok:
  assumes "bag_ok (p_bag p)" and "fst (prepared r p)" and "\<not> request_refused r p"
  shows "reservation_ok (p\<lparr>p_economyReservation := v\<rparr>) (reservation_for r p)"
  using assms rebuilt_bag [OF assms(1)]
  by (simp add: reservation_ok_def reservation_for_def Let_def request_refused_def prepared_def
      ledger_add not_less inv_intros)

lemma player_ok_act [inv_intros]:
  assumes "player_ok p"
  shows "player_ok (snd (player_act opr p))"
proof (cases opr)
  case (PReserve r)
  with assms show ?thesis
    by (auto simp: reserveEconomy_eq player_ok_def intro!: reservation_for_ok split: option.splits)
qed (use assms in \<open>auto simp: player_simps player_ok_def economyPending_def reservation_ok_def
       inv_intros split: option.splits\<close>)

text \<open>The players that exist: created for an id (PlayerManager::getOrCreate), moved by the
  operations, or loaded from a snapshot.\<close>

inductive reachable_player :: "Player \<Rightarrow> bool" where
  created: "reachable_player (new_player\<lparr>p_playerId := pid\<rparr>)"
| acted: "reachable_player p \<Longrightarrow> reachable_player (snd (player_act opr p))"
| loaded: "reachable_player p \<Longrightarrow> reachable_player (snd (restoreSaveSnapshot s p))"

lemma reachable_player_ok: "reachable_player p \<Longrightarrow> player_ok p"
proof (induction rule: reachable_player.induct)
  case (created pid)
  show ?case by (simp add: player_ok_def new_player_def default_bag_def bag_ok_def stacks_ok_def kSlotRange_def)
next
  case (acted p opr)
  then show ?case by (intro player_ok_act)
next
  case (loaded p s)
  have d: "bag_ok default_bag" by (simp add: default_bag_def bag_ok_def stacks_ok_def kSlotRange_def)
  from restored_ok [OF this, of "unat (ps_bagCapacity s)" "ps_bagNextSlot s" "ps_items s"] loaded
  show ?case
    by (auto simp: restoreSaveSnapshot_def player_ok_def economyPending_def split: prod.splits bool.splits option.splits)
qed

lemma player_run_step: "player_run (opr # ops) p = player_run ops (snd (player_act opr p))"
  by (simp add: player_run_def)

lemma player_run_Nil [simp]: "player_run [] p = p"
  by (simp add: player_run_def)

lemma reachable_player_run: "reachable_player p \<Longrightarrow> reachable_player (player_run ops p)"
  by (induction ops arbitrary: p) (auto simp: player_run_step intro: reachable_player.intros)

text \<open>C30. Every operation of a player is all or nothing: when it throws (a pending purchase, an
  exhausted revision counter, an invalid scene) or reports failure, the player is exactly as before,
  although the code changes fields before it records the mutation. When it succeeds, either what
  would be saved is unchanged, or the revision has moved up by exactly one without wrapping and the
  player is marked dirty.\<close>

theorem player_operations_all_or_nothing:
  "(fst (player_act opr p) = Inr True \<or> snd (player_act opr p) = p)
   \<and> (content (snd (player_act opr p)) = content p
        \<and> p_mutationRevision (snd (player_act opr p)) = p_mutationRevision p
      \<or> unat (p_mutationRevision (snd (player_act opr p))) = unat (p_mutationRevision p) + 1
        \<and> p_dirty (snd (player_act opr p)))"
  using player_act_failure [of opr p] player_act_transition [of p opr]
  unfolding unchanged_def mutated_def by blast

section \<open>Saving\<close>

lemma player_run_revision:
  "unat (p_mutationRevision p) \<le> unat (p_mutationRevision (player_run ops p)) \<and>
   (p_mutationRevision (player_run ops p) = p_mutationRevision p \<longrightarrow> content (player_run ops p) = content p)"
proof (induction ops arbitrary: p)
  case (Cons opr ops)
  from Cons.IH [of "snd (player_act opr p)"] player_act_transition [of p opr]
  show ?case by (auto simp: player_run_step unchanged_def mutated_def)
qed simp

text \<open>A confirmed save clears the dirty mark only when nothing was lost: if a snapshot is frozen,
  any operations follow, and the confirmation of that snapshot then makes a dirty player clean, the
  player's saved content is the snapshot's, so freezing it again gives the very same snapshot.\<close>

theorem confirmed_save_is_current_state:
  assumes "freezeSaveSnapshot v t p = Inr s" and "q = player_run ops p" and "p_dirty q"
    and "\<not> p_dirty (confirmSave v' (ps_capturedRevision s) q)"
  shows "freezeSaveSnapshot v t (confirmSave v' (ps_capturedRevision s) q) = Inr s"
proof -
  have s: "ps_capturedRevision s = p_mutationRevision p"
    using assms(1) by (auto simp: freeze_content split: if_splits)
  with assms(3,4) have "p_mutationRevision q = p_mutationRevision p"
    by (auto simp: confirmSave_def Let_def clearDirty_def split: if_splits)
  moreover from this have "content q = content p"
    using player_run_revision [of p ops] assms(2) by blast
  moreover have "content (confirmSave v' r q) = content q"
      "p_mutationRevision (confirmSave v' r q) = p_mutationRevision q" for r
    by (auto simp: confirmSave_def clearDirty_def Let_def content_def)
  ultimately show ?thesis using assms(1) by (simp add: freeze_content split: if_splits)
qed

theorem confirmed_save_is_current_state_witness:
  "let p = player_run [PAddGold 10] new_player; q = player_run [PTouch 5, PSetHp 100] p
   in p_dirty q \<and> \<not> p_dirty (confirmSave 1 1 q) \<and>
      (case freezeSaveSnapshot 1 7 p of Inl _ \<Rightarrow> False | Inr s \<Rightarrow> freezeSaveSnapshot 1 7 (confirmSave 1 1 q) = Inr s)"
proof -
  let ?p = "player_run [PAddGold 10] new_player" let ?q = "player_run [PTouch 5, PSetHp 100] ?p"
  have e: "p_dirty ?q \<and> \<not> p_dirty (confirmSave 1 1 ?q)
     \<and> (case freezeSaveSnapshot 1 7 ?p of Inl _ \<Rightarrow> False | Inr s \<Rightarrow> ps_capturedRevision s = 1)" by code_simp
  then obtain s where "freezeSaveSnapshot 1 7 ?p = Inr s" "ps_capturedRevision s = 1" by (auto split: sum.splits)
  with e confirmed_save_is_current_state [OF this(1) refl, of "[PTouch 5, PSetHp 100]" 1] show ?thesis
    by (simp add: Let_def)
qed

text \<open>Round trip: the snapshot frozen from a reachable player with a valid id is accepted by any
  player without pending purchase that is blank or has the same id, and what is then frozen from
  that player is the same snapshot with revision zero. The loaded player is clean, at the saved version,
  and keeps its session, its client binding and its epoch.\<close>

theorem player_save_restore:
  assumes "reachable_player p" and "p_playerId p \<noteq> 0" and "p_playerId p \<le> kMaxInt64"
    and "freezeSaveSnapshot v t p = Inr s"
    and "\<not> economyPending q" and "p_playerId q = 0 \<or> p_playerId q = p_playerId p"
  shows "case restoreSaveSnapshot s q of (ok, q') \<Rightarrow>
      ok \<and> freezeSaveSnapshot v t q' = Inr (s\<lparr>ps_capturedRevision := 0\<rparr>)
      \<and> \<not> p_dirty q' \<and> p_persistedVersion q' = v
      \<and> p_session q' = p_session q \<and> p_clientBinding q' = p_clientBinding q \<and> p_epoch q' = p_epoch q"
proof -
  have ok: "bag_ok (p_bag p)" "p_sceneId p \<noteq> 0"
    using reachable_player_ok [OF assms(1)] by (simp_all add: player_ok_def)
  then have "unat (of_nat (bag_capacity (p_bag p)) :: u32) = bag_capacity (p_bag p)"
    by (simp add: bag_ok_def kSlotRange_def unat_of_nat)
  with assms ok show ?thesis
    by (auto simp: restoreSaveSnapshot_def freeze_content content_def restore_view view_rebuilt not_less
        split: if_splits)
qed

theorem player_save_restore_witness:
  "let p = player_run [PAddGold 10, PAddItem 7 3] (new_player\<lparr>p_playerId := 42\<rparr>); q = new_player
   in case freezeSaveSnapshot 1 9 p of Inl _ \<Rightarrow> False
      | Inr s \<Rightarrow> (case restoreSaveSnapshot s q of (ok, q') \<Rightarrow>
          ok \<and> freezeSaveSnapshot 1 9 q' = Inr (s\<lparr>ps_capturedRevision := 0\<rparr>))"
proof -
  let ?p = "player_run [PAddGold 10, PAddItem 7 3] (new_player\<lparr>p_playerId := 42\<rparr>)"
  have e: "p_playerId ?p \<noteq> 0 \<and> p_playerId ?p \<le> kMaxInt64 \<and> \<not> economyPending new_player
      \<and> p_playerId new_player = 0
      \<and> (case freezeSaveSnapshot 1 9 ?p of Inl _ \<Rightarrow> False | Inr _ \<Rightarrow> True)" by code_simp
  then obtain s where s: "freezeSaveSnapshot 1 9 ?p = Inr s" by (auto split: sum.splits)
  have "reachable_player ?p" by (intro reachable_player_run reachable_player.created)
  from player_save_restore [OF this _ _ s, of new_player] e s show ?thesis
    by (auto simp: Let_def split: prod.splits)
qed

section \<open>Purchases\<close>

text \<open>The operation neither commits nor cancels the purchase \<open>oid\<close>.\<close>

fun settles :: "string \<Rightarrow> player_op \<Rightarrow> bool" where
  "settles oid (PCommit oid') = (oid' = oid)"
| "settles oid (PCancel oid') = (oid' = oid)"
| "settles oid _ = False"

lemma reservation_frozen:
  assumes "p_economyReservation p = Some v" and "\<not> settles (er_operationId (ev_request v)) opr"
  shows "p_economyReservation (snd (player_act opr p)) = Some v \<and> p_gold (snd (player_act opr p)) = p_gold p
    \<and> p_bag (snd (player_act opr p)) = p_bag p"
  using assms by (cases opr) (auto simp: player_simps economyPending_def)

lemma reservation_frozen_run:
  assumes "p_economyReservation p = Some v" and "list_all (\<lambda>opr. \<not> settles (er_operationId (ev_request v)) opr) ops"
  shows "p_economyReservation (player_run ops p) = Some v \<and> p_gold (player_run ops p) = p_gold p
    \<and> p_bag (player_run ops p) = p_bag p"
  using assms
proof (induction ops arbitrary: p)
  case (Cons opr ops)
  from reservation_frozen [OF Cons.prems(1), of opr] Cons.prems(2)
    Cons.IH [of "snd (player_act opr p)"]
  show ?case by (simp add: player_run_step)
qed simp

text \<open>C18. A purchase is atomic. After a successful reservation, whatever the player does until it is
  settled leaves gold and bag untouched and the reservation in place. Cancelling it gives
  back exactly that player without the reservation. Committing it takes exactly the cost, adds exactly the
  items and nothing else to the bag, makes gold, stacks and next slot those of the candidate that was persisted,
  and removes the reservation, so that a second commit fails; it throws, changing nothing, only when the
  revision counter is exhausted.\<close>

theorem purchase_is_atomic:
  assumes "reachable_player p" and "\<not> economyPending p" and "reserveEconomy r p = (Inr True, p1)"
    and "list_all (\<lambda>opr. \<not> settles (er_operationId r) opr) ops" and "p2 = player_run ops p1"
    and "commitEconomy (er_operationId r) p2 = (outcome, p3)"
  shows "p_gold p2 = p_gold p \<and> p_bag p2 = p_bag p
    \<and> cancelEconomy (er_operationId r) p2 = (True, p2\<lparr>p_economyReservation := None\<rparr>)
    \<and> (if p_mutationRevision p2 = kMaxRevision then outcome = Inl OverflowError \<and> p3 = p2
       else outcome = Inr True \<and> unat (p_gold p3) + unat (er_cost r) = unat (p_gold p)
         \<and> ledger (p_bag p3) = (ledger (p_bag p))(er_itemId r := ledger (p_bag p) (er_itemId r) + unat (er_count r))
         \<and> (case p_economyReservation p2 of None \<Rightarrow> False | Some v \<Rightarrow>
              p_gold p3 = ps_gold (ev_candidate v) \<and> view (p_bag p3) = ps_items (ev_candidate v)
              \<and> bag_nextSlot (p_bag p3) = ps_bagNextSlot (ev_candidate v))
         \<and> commitEconomy (er_operationId r) p3 = (Inr False, p3))"
proof -
  from assms(2,3) have res: "p_economyReservation p1 = Some (reservation_for r p)"
    "p_gold p1 = p_gold p" "p_bag p1 = p_bag p"
    by (auto simp: reserveEconomy_eq economyPending_def split: if_splits)
  have "player_ok p2"
    using assms(1,3,5) reachable_player.acted [OF assms(1), of "PReserve r"]
    by (auto intro!: reachable_player_ok reachable_player_run)
  moreover have frozen: "p_economyReservation p2 = Some (reservation_for r p) \<and> p_gold p2 = p_gold p \<and> p_bag p2 = p_bag p"
    using reservation_frozen_run [OF res(1), of ops] assms(4,5) res
    by (simp add: reservation_for_def Let_def)
  ultimately have v: "reservation_ok p2 (reservation_for r p)" by (simp add: player_ok_def)
  have req: "ev_request (reservation_for r p) = r" by (simp add: reservation_for_def Let_def)
  have "er_cost r \<le> p_gold p2" using v req by (simp add: reservation_ok_def Let_def)
  then have "unat (p_gold p2 - er_cost r) + unat (er_cost r) = unat (p_gold p2)"
    by (simp add: unat_sub word_le_nat_alt)
  then show ?thesis
    using assms(6) v frozen req
    by (auto simp: commitEconomy_eq cancelEconomy_def reservation_ok_def Let_def split: if_splits)
qed

theorem purchase_is_atomic_witness:
  "let p = player_run [PAddGold 10, PAddItem 7 3] (new_player\<lparr>p_playerId := 42\<rparr>);
       r = \<lparr>er_operationId = ''op1'', er_cost = 4, er_itemId = 7, er_count = 2, er_rulesVersion = 1\<rparr>;
       p2 = player_run [PAddGold 100] (snd (reserveEconomy r p))
   in fst (reserveEconomy r p) = Inr True \<and> p_gold p2 = 10
      \<and> ledger (p_bag (snd (commitEconomy ''op1'' p2))) 7 = 5"
proof -
  define p where "p = player_run [PAddGold 10, PAddItem 7 3] (new_player\<lparr>p_playerId := 42\<rparr>)"
  define r where "r = \<lparr>er_operationId = ''op1'', er_cost = 4, er_itemId = 7, er_count = 2, er_rulesVersion = 1\<rparr>"
  let ?ops = "[PAddGold 100]"
  have e: "\<not> economyPending p \<and> p_gold p = 10 \<and> p_mutationRevision p \<noteq> kMaxRevision
      \<and> \<not> p_persistedVersion p > kMaxInt64 \<and> \<not> request_refused r p \<and> ledger (p_bag p) 7 = 3
      \<and> list_all (\<lambda>opr. \<not> settles (er_operationId r) opr) ?ops"
    unfolding p_def r_def by code_simp
  have r: "er_itemId r = 7" "er_count r = 2" "er_operationId r = ''op1''" by (simp_all add: r_def)
  have reach: "reachable_player p" unfolding p_def by (intro reachable_player_run reachable_player.created)
  note bag = rebuilt_bag [OF reachable_player_ok [OF reach, unfolded player_ok_def, THEN conjunct1]]
  have "fst (prepared r p)"
    using e bag by (simp add: prepared_def add_succeeds_iff r)
  with e bag have "reserveEconomy r p = (Inr True, p\<lparr>p_economyReservation := Some (reservation_for r p)\<rparr>)"
    by (simp add: reserveEconomy_eq economyPending_def)
  then have res: "reserveEconomy r p = (Inr True, snd (reserveEconomy r p))" and
    rev: "p_mutationRevision (player_run ?ops (snd (reserveEconomy r p))) \<noteq> kMaxRevision"
    using e by (simp_all add: player_run_step player_simps economyPending_def)
  from purchase_is_atomic [OF reach _ res _ refl prod.collapse [symmetric], of ?ops] e rev res r
  show ?thesis unfolding p_def [symmetric] r_def [symmetric] Let_def
    by (simp add: prod_eq_iff)
qed

end
