(* ===== verification/AoiService.thy ===== *)
theory AoiService
  imports AoiWire AoiViewSet Player
begin

text \<open>
  The AOI service of a logic thread, sceneServer/src-cpp/service/aoi/aoiService.h, aoiService.cc, aoiServiceRouter.h,
  aoiPushSink.h and aoiClientView.cc: it gives the thread's players entities, applies their movements and the events of other threads to the replica,
  publishes its own changes to the other threads, and sends every client what changed in its view. The sink, which hands frames to the
  network thread and events to other threads, and the serialisation of the messages to clients (protobuf) are parameters. Diagnostics and statistics are left out.
\<close>

section \<open>State\<close>

record LocalIdentity =
  li_id :: u64
  li_generation :: u32

record PublishTask =
  pt_event :: AoiEvent
  pt_remaining :: "u32 list"

record AoiClientPushRequest =
  cr_observerPlayerId :: u64
  cr_clientViewEpoch :: u32
  cr_module :: u16
  cr_method :: u16
  cr_body :: bytes

datatype AoiPushResult = kPushAccepted | kQueueFull | kObserverOffline | kSessionChanged | kInvalidRequest

record AoiWorkerPublishRequest =
  wr_msgType :: u16
  wr_targets :: "u32 list"
  wr_body :: bytes
  wr_module :: u16
  wr_method :: u16

record WorkerDeliveryResult =
  wd_target :: u32
  wd_accepted :: bool

text \<open>The messages to clients, with the fields the service sets.\<close>

record ViewEntity =
  ve_entity_id :: u64
  ve_business_id :: u64
  ve_entity_kind :: u32
  ve_entity_generation :: u32
  ve_spatial_version :: u64
  ve_actor_epoch :: u32
  ve_x :: u32
  ve_y :: u32
  ve_dir :: u32

record SCPushViewDelta =
  dl_view_seq :: u64
  dl_entered :: "ViewEntity list"
  dl_moved :: "ViewEntity list"
  dl_left :: "ViewEntity list"

record SCPushViewSnapshotPart =
  sp_snapshot_id :: u64
  sp_view_seq :: u64
  sp_part_index :: u32
  sp_part_count :: u32
  sp_entities :: "ViewEntity list"

record 'w AoiPushSink =
  si_sendToClient :: "AoiClientPushRequest \<Rightarrow> 'w \<Rightarrow> AoiPushResult \<times> 'w"
  si_publishToWorkers :: "AoiWorkerPublishRequest \<Rightarrow> 'w \<Rightarrow> WorkerDeliveryResult list \<times> 'w"
  si_delta :: "SCPushViewDelta \<Rightarrow> bytes"
  si_part :: "SCPushViewSnapshotPart \<Rightarrow> bytes"

record AoiService =
  sv_wId :: u32
  sv_config :: AoiConfig
  sv_map :: SceneMap
  sv_publishTargets :: "u32 list"
  sv_viewSet :: AoiViewSet
  sv_replica :: AoiReplica
  sv_identities :: "(u64, LocalIdentity) umap"
  sv_dirtyObservers :: "u64 set"
  sv_pendingRemoteMoves :: "(u64, AoiEvent) umap"
  sv_ownersNeedingSnapshot :: "u32 set"
  sv_pendingPublishes :: "PublishTask list"
  sv_nextEntityCounter :: u32
  sv_ownerSeq :: u64
  sv_nextTickTime :: int
  sv_tickCount :: u64

text \<open>The constructor; \<open>None\<close> is the exception it throws.\<close>

definition new_service :: "u32 \<Rightarrow> AoiConfig \<Rightarrow> SceneMap \<Rightarrow> u32 list \<Rightarrow> AoiService option" where
  "new_service wId cfg m targets =
     (if aoi_Validate cfg \<noteq> None \<or> sm_cellSize m \<noteq> cf_cellSize cfg \<or> getCols m = 0 then None
      else Some \<lparr>sv_wId = wId, sv_config = cfg, sv_map = m, sv_publishTargets = filter (\<lambda>t. t \<noteq> wId) (remdups_adj (sort targets)),
        sv_viewSet = empty_views, sv_replica = new_replica wId cfg m, sv_identities = [], sv_dirtyObservers = {},
        sv_pendingRemoteMoves = [], sv_ownersNeedingSnapshot = {}, sv_pendingPublishes = [], sv_nextEntityCounter = 1, sv_ownerSeq = 0,
        sv_nextTickTime = 0, sv_tickCount = 0\<rparr>)"

section \<open>Entities of the own players\<close>

definition FromEntity :: "AoiEntity \<Rightarrow> AoiMsgKind \<Rightarrow> AoiEvent" where
  "FromEntity ent kind = \<lparr>av_msgKind = kind, av_entityKind = ae_kind ent, av_eId = ae_entityId ent, av_businessId = ae_businessId ent,
     av_target_x = ae_x ent, av_target_y = ae_y ent, av_target_dir = ae_dir ent, av_entityGeneration = ae_entityGeneration ent,
     av_actorEpoch = ae_actorEpoch ent, av_spatialVersion = ae_spatialVersion ent, av_ownerThreadId = ae_ownerWorker ent,
     av_ownerSeq = ae_ownerSeq ent\<rparr>"

definition IsEntityActive :: "AoiService \<Rightarrow> u64 \<Rightarrow> bool" where
  "IsEntityActive s i \<longleftrightarrow> findById (sv_replica s) i \<noteq> None"

definition EntityOf :: "AoiService \<Rightarrow> u64 \<Rightarrow> u64 option" where
  "EntityOf s pid = map_option li_id (map_of (sv_identities s) pid)"

definition BusinessIdOf :: "AoiService \<Rightarrow> u64 \<Rightarrow> u64 option" where
  "BusinessIdOf s i = (case findById (sv_replica s) i of
     None \<Rightarrow> None | Some e \<Rightarrow> if ae_businessId e = 0 then None else Some (ae_businessId e))"

definition ValidPosition :: "AoiService \<Rightarrow> Player \<Rightarrow> bool" where
  "ValidPosition s p = map_contains (sv_map s) (p_x p) (p_y p)"

text \<open>\<open>replica_.Apply\<close> and \<open>replica_.ApplyOwnerSnapshot\<close> on the service's replica and dirty observers.\<close>

definition on_replica :: "(replica_state \<Rightarrow> ApplyResult \<times> replica_state) \<Rightarrow> AoiService \<Rightarrow> ApplyResult \<times> AoiService" where
  "on_replica f s = (case f (sv_replica s, sv_dirtyObservers s) of
     (res, r, d) \<Rightarrow> (res, s\<lparr>sv_replica := r, sv_dirtyObservers := d\<rparr>))"

definition ApplyLocal :: "int \<Rightarrow> AoiEvent \<Rightarrow> AoiService \<Rightarrow> ApplyResult \<times> AoiService" where
  "ApplyLocal now event s =
     (if sv_ownerSeq s = 0xFFFFFFFFFFFFFFFF then (kInvalid, s)
      else let ev = event\<lparr>av_ownerSeq := sv_ownerSeq s + 1\<rparr>
      in case on_replica (Apply now ev kLocal) s of (result, s') \<Rightarrow>
           if result \<noteq> kApplied then (result, s')
           else (result, s'\<lparr>sv_ownerSeq := av_ownerSeq ev,
             sv_pendingPublishes := sv_pendingPublishes s @
               (if sv_publishTargets s = [] then [] else [\<lparr>pt_event = ev, pt_remaining = sv_publishTargets s\<rparr>])\<rparr>))"

definition Enter :: "int \<Rightarrow> Player \<Rightarrow> bool \<Rightarrow> AoiService \<Rightarrow> ApplyResult \<times> AoiService" where
  "Enter now p reenter s =
     (if p_playerId p = 0 then (kInvalid, s)
      else if \<not> ValidPosition s p then (kOutOfBounds, s)
      else case (case map_of (sv_identities s) (p_playerId p) of
                   None \<Rightarrow> if sv_nextEntityCounter s = 0xFFFFFFFF then None
                     else let identity = \<lparr>li_id = push_bit 32 (ucast (sv_wId s)) OR ucast (sv_nextEntityCounter s), li_generation = 0\<rparr>
                          in Some (identity, s\<lparr>sv_nextEntityCounter := sv_nextEntityCounter s + 1,
                               sv_identities := AList.update (p_playerId p) identity (sv_identities s)\<rparr>)
                 | Some identity \<Rightarrow> Some (identity, s)) of
             None \<Rightarrow> (kInvalid, s)
           | Some (identity, s) \<Rightarrow>
               if \<not> reenter \<and> findById (sv_replica s) (li_id identity) \<noteq> None then (kIgnored, s)
               else if li_generation identity = 0xFFFFFFFF then (kInvalid, s)
               else let ev = \<lparr>av_msgKind = kEntry, av_entityKind = kPlayer, av_eId = li_id identity, av_businessId = p_playerId p,
                              av_target_x = p_x p, av_target_y = p_y p, av_target_dir = p_dir p,
                              av_entityGeneration = li_generation identity + 1, av_actorEpoch = p_epoch p, av_spatialVersion = 1,
                              av_ownerThreadId = sv_wId s, av_ownerSeq = 0\<rparr>
                    in case ApplyLocal now ev s of (result, s) \<Rightarrow>
                         (result, if result \<noteq> kApplied then s
                            else s\<lparr>sv_identities := AList.update (p_playerId p) (identity\<lparr>li_generation := av_entityGeneration ev\<rparr>) (sv_identities s)\<rparr>))"

definition OnEntityEnter :: "int \<Rightarrow> Player \<Rightarrow> AoiService \<Rightarrow> ApplyResult \<times> AoiService" where
  "OnEntityEnter now p = Enter now p False"

definition OnEntityReenter :: "int \<Rightarrow> Player \<Rightarrow> AoiService \<Rightarrow> ApplyResult \<times> AoiService" where
  "OnEntityReenter now p = Enter now p True"

definition OnEntityLeave :: "int \<Rightarrow> u64 \<Rightarrow> AoiService \<Rightarrow> ApplyResult \<times> AoiService" where
  "OnEntityLeave now i s =
     (case findById (sv_replica s) i of
        None \<Rightarrow> (kIgnored, s)
      | Some ent \<Rightarrow>
          if ae_ownerWorker ent \<noteq> sv_wId s then (kBadSource, s)
          else if ae_spatialVersion ent = 0xFFFFFFFFFFFFFFFF then (kInvalid, s)
          else case ApplyLocal now ((FromEntity ent kLeave)\<lparr>av_spatialVersion := ae_spatialVersion ent + 1\<rparr>) s of (result, s) \<Rightarrow>
            (result, if result \<noteq> kApplied then s
               else s\<lparr>sv_viewSet := (case findObserver (sv_viewSet s) i of
                                       None \<Rightarrow> sv_viewSet s
                                     | Some x \<Rightarrow> snd (removeObserver i (ob_clientViewEpoch x) (sv_viewSet s))),
                      sv_dirtyObservers := sv_dirtyObservers s - {i}\<rparr>))"

definition OnLocalEntityMoved :: "int \<Rightarrow> Player \<Rightarrow> AoiService \<Rightarrow> ApplyResult \<times> AoiService" where
  "OnLocalEntityMoved now p s =
     (case (case EntityOf s (p_playerId p) of None \<Rightarrow> None | Some i \<Rightarrow> findById (sv_replica s) i) of
        None \<Rightarrow> (kNeedSnapshot, s)
      | Some ent \<Rightarrow>
          if \<not> ValidPosition s p then (kOutOfBounds, s)
          else if ae_x ent = p_x p \<and> ae_y ent = p_y p \<and> ae_dir ent = p_dir p then (kIgnored, s)
          else if ae_spatialVersion ent = 0xFFFFFFFFFFFFFFFF then (kInvalid, s)
          else ApplyLocal now ((FromEntity ent kMove)\<lparr>av_target_x := p_x p, av_target_y := p_y p, av_target_dir := p_dir p,
                 av_actorEpoch := p_epoch p, av_spatialVersion := ae_spatialVersion ent + 1\<rparr>) s)"

section \<open>Events and snapshots of other threads\<close>

datatype RemoteResult = kQueued | kRemoteApplied | kRemoteIgnored | kRejected

definition supersedes :: "AoiEvent \<Rightarrow> AoiEvent \<Rightarrow> bool" where
  "supersedes ev old \<longleftrightarrow> av_entityGeneration old < av_entityGeneration ev
     \<or> av_entityGeneration old = av_entityGeneration ev \<and> (av_msgKind ev = kLeave \<or> av_spatialVersion old \<le> av_spatialVersion ev)"

definition onRemoteEntityEvent :: "int \<Rightarrow> u32 \<Rightarrow> AoiEvent \<Rightarrow> AoiService \<Rightarrow> RemoteResult \<times> AoiService" where
  "onRemoteEntityEvent now sender ev s =
     (if sender = sv_wId s \<or> sender \<noteq> av_ownerThreadId ev then (kRejected, s)
      else if av_msgKind ev = kMove then
        (if av_eId ev = 0 \<or> av_target_x ev \<ge> sm_length (sv_map s) \<or> av_target_y ev \<ge> sm_width (sv_map s)
            \<or> \<not> ValidEntityKind (av_entityKind ev) then (kRejected, s)
         else case map_of (sv_pendingRemoteMoves s) (av_eId ev) of
           Some old \<Rightarrow>
             if av_ownerThreadId old \<noteq> sender then (kRejected, s)
             else if av_entityGeneration ev < av_entityGeneration old
                \<or> av_entityGeneration ev = av_entityGeneration old \<and> av_spatialVersion ev \<le> av_spatialVersion old then (kRemoteIgnored, s)
             else (kQueued, s\<lparr>sv_pendingRemoteMoves := AList.update (av_eId ev) ev (sv_pendingRemoteMoves s)\<rparr>)
         | None \<Rightarrow> (kQueued, s\<lparr>sv_pendingRemoteMoves := AList.update (av_eId ev) ev (sv_pendingRemoteMoves s)\<rparr>))
      else case on_replica (Apply now ev kRemote) s of (result, s) \<Rightarrow>
        if result = kApplied
        then (kRemoteApplied,
              case map_of (sv_pendingRemoteMoves s) (av_eId ev) of
                None \<Rightarrow> s
              | Some old \<Rightarrow> if av_ownerThreadId old = sender \<and> supersedes ev old
                  then s\<lparr>sv_pendingRemoteMoves := AList.delete (av_eId ev) (sv_pendingRemoteMoves s)\<rparr> else s)
        else (if result = kIgnored then kRemoteIgnored else kRejected, s))"

definition service_snapshot :: "u32 \<Rightarrow> AoiOwnerSnapshot \<Rightarrow> AoiService \<Rightarrow> ApplyResult \<times> AoiService" where
  "service_snapshot sender snap s =
     (if sender = sv_wId s \<or> sender \<noteq> os_ownerWokerId snap then (kBadSource, s)
      else case on_replica (ApplyOwnerSnapshot snap) s of (result, s) \<Rightarrow>
        (result, if result \<noteq> kApplied then s
           else s\<lparr>sv_pendingRemoteMoves := filter (\<lambda>(_, ev). \<not> (av_ownerThreadId ev = sender \<and> av_ownerSeq ev \<le> os_seq snap)) (sv_pendingRemoteMoves s),
                  sv_ownersNeedingSnapshot := sv_ownersNeedingSnapshot s - {sender}\<rparr>))"

definition BuildOwnerSnapshot :: "AoiService \<Rightarrow> AoiOwnerSnapshot" where
  "BuildOwnerSnapshot s = \<lparr>os_seq = sv_ownerSeq s, os_ownerWokerId = sv_wId s, os_ents = ForEachOwned (sv_replica s)\<rparr>"

section \<open>Sessions of the players\<close>

definition OnPlayerOnline :: "u64 \<Rightarrow> u32 \<Rightarrow> AoiService \<Rightarrow> bool \<times> AoiService" where
  "OnPlayerOnline pid epoch s =
     (case EntityOf s pid of
        None \<Rightarrow> (False, s)
      | Some i \<Rightarrow>
          if findById (sv_replica s) i = None then (False, s)
          else case registryObserver i epoch (sv_viewSet s) of
            (False, _) \<Rightarrow> (False, s)
          | (True, v) \<Rightarrow> (True, s\<lparr>sv_viewSet := v, sv_dirtyObservers := insert i (sv_dirtyObservers s)\<rparr>))"

definition OnPlayerRebind :: "u64 \<Rightarrow> u32 \<Rightarrow> u32 \<Rightarrow> AoiService \<Rightarrow> bool \<times> AoiService" where
  "OnPlayerRebind pid oldEpoch newEpoch s =
     (case EntityOf s pid of
        None \<Rightarrow> (False, s)
      | Some i \<Rightarrow> (case resetObserver i oldEpoch newEpoch (sv_viewSet s) of
            (False, _) \<Rightarrow> (False, s)
          | (True, v) \<Rightarrow> (True, s\<lparr>sv_viewSet := v, sv_dirtyObservers := insert i (sv_dirtyObservers s)\<rparr>)))"

definition OnPlayerOffline :: "u64 \<Rightarrow> u32 \<Rightarrow> AoiService \<Rightarrow> bool \<times> AoiService" where
  "OnPlayerOffline pid epoch s =
     (case EntityOf s pid of
        None \<Rightarrow> (False, s)
      | Some i \<Rightarrow> (case removeObserver i epoch (sv_viewSet s) of
            (False, _) \<Rightarrow> (False, s)
          | (True, v) \<Rightarrow> (True, s\<lparr>sv_viewSet := v, sv_dirtyObservers := sv_dirtyObservers s - {i}\<rparr>)))"

definition OnClientSendFailed :: "u64 \<Rightarrow> u32 \<Rightarrow> AoiService \<Rightarrow> bool \<times> AoiService" where
  "OnClientSendFailed ob epoch s =
     (case markNeedResync ob epoch (sv_viewSet s) of
        (False, _) \<Rightarrow> (False, s)
      | (True, v) \<Rightarrow> (True, s\<lparr>sv_viewSet := v, sv_dirtyObservers := insert ob (sv_dirtyObservers s)\<rparr>))"

definition OnViewResyncReq :: "u64 \<Rightarrow> u32 \<Rightarrow> AoiService \<Rightarrow> bool \<times> AoiService" where
  "OnViewResyncReq pid epoch s = (case EntityOf s pid of None \<Rightarrow> (False, s) | Some i \<Rightarrow> OnClientSendFailed i epoch s)"

section \<open>Sending a client its view\<close>

definition ViewOf :: "AoiService \<Rightarrow> u64 \<Rightarrow> AoiEntity list" where
  "ViewOf s ob = (case getVisibleEntity (sv_replica s) ob False of None \<Rightarrow> [] | Some out \<Rightarrow> out)"

definition ToProto :: "AoiEntity \<Rightarrow> ViewEntity" where
  "ToProto e = \<lparr>ve_entity_id = ae_entityId e, ve_business_id = ae_businessId e, ve_entity_kind = ucast (entity_code (ae_kind e)),
     ve_entity_generation = ae_entityGeneration e, ve_spatial_version = ae_spatialVersion e, ve_actor_epoch = ae_actorEpoch e,
     ve_x = ae_x e, ve_y = ae_y e, ve_dir = ae_dir e\<rparr>"

definition CurrentView :: "AoiService \<Rightarrow> u64 \<Rightarrow> AoiEntity list" where
  "CurrentView s ob = sort_key ae_entityId (ViewOf s ob)"

definition state_of :: "AoiEntity \<Rightarrow> SentEntityState" where
  "state_of e = \<lparr>se_kind = ae_kind e, se_businessId = ae_businessId e, se_entityGeneration = ae_entityGeneration e,
     se_spatialVersion = ae_spatialVersion e, se_x = ae_x e, se_y = ae_y e, se_dir = ae_dir e\<rparr>"

text \<open>\<open>ToBaseline\<close>; \<open>emplace\<close> keeps the first of two states of one entity.\<close>

definition ToBaseline :: "AoiEntity list \<Rightarrow> ViewBaseline" where
  "ToBaseline es = fold (\<lambda>e b. if map_of b (ae_entityId e) = None then AList.update (ae_entityId e) (state_of e) b else b) es []"

text \<open>The state of a push in a delta: its position and direction are not filled in.\<close>

definition pushed_state :: "AoiEntity \<Rightarrow> SentEntityState" where
  "pushed_state e = \<lparr>se_kind = ae_kind e, se_businessId = ae_businessId e, se_entityGeneration = ae_entityGeneration e,
     se_spatialVersion = ae_spatialVersion e, se_x = 0, se_y = 0, se_dir = 0\<rparr>"

definition left_entity :: "u64 \<Rightarrow> SentEntityState \<Rightarrow> ViewEntity" where
  "left_entity i old = \<lparr>ve_entity_id = i, ve_business_id = se_businessId old, ve_entity_kind = ucast (entity_code (se_kind old)),
     ve_entity_generation = se_entityGeneration old, ve_spatial_version = se_spatialVersion old, ve_actor_epoch = 0,
     ve_x = se_x old, ve_y = se_y old, ve_dir = se_dir old\<rparr>"

definition is_entered :: "ViewBaseline \<Rightarrow> AoiEntity \<Rightarrow> bool" where
  "is_entered b e \<longleftrightarrow> (case map_of b (ae_entityId e) of None \<Rightarrow> True | Some old \<Rightarrow> se_entityGeneration old \<noteq> ae_entityGeneration e)"

definition is_moved :: "ViewBaseline \<Rightarrow> AoiEntity \<Rightarrow> bool" where
  "is_moved b e \<longleftrightarrow> \<not> is_entered b e \<and> (case map_of b (ae_entityId e) of None \<Rightarrow> False | Some old \<Rightarrow> se_spatialVersion old \<noteq> ae_spatialVersion e)"

text \<open>
  The pushes of a delta and its message: the entities of the view in the order of their ids, then those of the baseline that are no
  longer in view. The code looks these up by binary search in the sorted view.
\<close>

definition delta_pushes :: "ViewBaseline \<Rightarrow> AoiEntity list \<Rightarrow> AcceptedPush list" where
  "delta_pushes b current =
     concat (map (\<lambda>e. if is_entered b e then [\<lparr>ap_kind = kEntry, ap_targetId = ae_entityId e, ap_state = pushed_state e\<rparr>]
                      else if is_moved b e then [\<lparr>ap_kind = kMove, ap_targetId = ae_entityId e, ap_state = pushed_state e\<rparr>] else []) current)
     @ map (\<lambda>(i, old). \<lparr>ap_kind = kLeave, ap_targetId = i, ap_state = old\<rparr>)
         (filter (\<lambda>(i, _). i \<notin> ae_entityId ` set current) b)"

definition delta_message :: "u64 \<Rightarrow> ViewBaseline \<Rightarrow> AoiEntity list \<Rightarrow> SCPushViewDelta" where
  "delta_message sq b current = \<lparr>dl_view_seq = sq, dl_entered = map ToProto (filter (is_entered b) current),
     dl_moved = map ToProto (filter (is_moved b) current),
     dl_left = map (\<lambda>(i, old). left_entity i old) (filter (\<lambda>(i, _). i \<notin> ae_entityId ` set current) b)\<rparr>"

definition Module_AOI :: u16 where "Module_AOI = 100"
definition AOI_VIEW_DELTA :: u16 where "AOI_VIEW_DELTA = 7"
definition AOI_VIEW_SNAPSHOT :: u16 where "AOI_VIEW_SNAPSHOT = 8"

definition SendDelta :: "'w AoiPushSink \<Rightarrow> u64 \<Rightarrow> ViewSendToken \<Rightarrow> AoiEntity list \<Rightarrow> ViewBaseline \<Rightarrow> AoiService \<Rightarrow> 'w
    \<Rightarrow> bool \<times> AoiService \<times> 'w" where
  "SendDelta sink ob token current baseline s w =
     (let accepted = delta_pushes baseline current
      in if accepted = [] then (True, s, w)
         else case BusinessIdOf s ob of
           None \<Rightarrow> (False, s, w)
         | Some pid \<Rightarrow>
             if findObserver (sv_viewSet s) ob = None then (False, s, w)
             else case si_sendToClient sink \<lparr>cr_observerPlayerId = pid, cr_clientViewEpoch = vt_clientViewEpoch token, cr_module = Module_AOI,
                    cr_method = AOI_VIEW_DELTA, cr_body = si_delta sink (delta_message (vt_nextViewSeq token) baseline current)\<rparr> w of
               (res, w) \<Rightarrow>
                 if res \<noteq> kPushAccepted then (False, s, w)
                 else case commitAccepted ob token accepted (sv_viewSet s) of (done', v) \<Rightarrow> (done', s\<lparr>sv_viewSet := v\<rparr>, w))"

definition kPartSize :: nat where "kPartSize = 128"

definition part_entity :: "u64 \<times> SentEntityState \<Rightarrow> AoiEntity" where
  "part_entity = (\<lambda>(i, st). empty_entity\<lparr>ae_entityId := i, ae_kind := se_kind st, ae_businessId := se_businessId st,
     ae_entityGeneration := se_entityGeneration st, ae_spatialVersion := se_spatialVersion st, ae_x := se_x st, ae_y := se_y st, ae_dir := se_dir st\<rparr>)"

definition part_message :: "ViewSnapshotToken \<Rightarrow> u32 \<Rightarrow> (u64 \<times> SentEntityState) list \<Rightarrow> nat \<Rightarrow> SCPushViewSnapshotPart" where
  "part_message token partCount ordered part = \<lparr>sp_snapshot_id = st_snapshotId token, sp_view_seq = st_viewSeq token,
     sp_part_index = of_nat part, sp_part_count = partCount,
     sp_entities = map (ToProto \<circ> part_entity) (take kPartSize (drop (part * kPartSize) ordered))\<rparr>"

fun send_parts :: "'w AoiPushSink \<Rightarrow> u64 \<Rightarrow> ViewSnapshotToken \<Rightarrow> u32 \<Rightarrow> (u64 \<times> SentEntityState) list \<Rightarrow> nat list \<Rightarrow> AoiService \<Rightarrow> 'w
    \<Rightarrow> bool \<times> AoiService \<times> 'w" where
  "send_parts sink ob token partCount ordered [] s w = (True, s, w)"
| "send_parts sink ob token partCount ordered (part # parts) s w =
     (let pid = (case BusinessIdOf s ob of None \<Rightarrow> 0 | Some pid \<Rightarrow> pid)
      in case (if pid = 0 then (kInvalidRequest, w)
               else si_sendToClient sink \<lparr>cr_observerPlayerId = pid, cr_clientViewEpoch = st_clientViewEpoch token, cr_module = Module_AOI,
                 cr_method = AOI_VIEW_SNAPSHOT, cr_body = si_part sink (part_message token partCount ordered part)\<rparr> w) of
        (res, w) \<Rightarrow>
          if res \<noteq> kPushAccepted
          then (False, snd (OnClientSendFailed ob (st_clientViewEpoch token) (s\<lparr>sv_viewSet := snd (abortSnapshot token (sv_viewSet s))\<rparr>)), w)
          else send_parts sink ob token partCount ordered parts
                 (s\<lparr>sv_viewSet := snd (markSnapshotPartAccepted token (of_nat part) (sv_viewSet s))\<rparr>) w)"

definition ProcessAoiClientObserver :: "'w AoiPushSink \<Rightarrow> u64 \<Rightarrow> AoiService \<Rightarrow> 'w \<Rightarrow> bool \<times> AoiService \<times> 'w" where
  "ProcessAoiClientObserver sink ob s w =
     (case prepareSend (sv_viewSet s) ob of
        None \<Rightarrow> (False, s, w)
      | Some token \<Rightarrow>
          (case committedBaseline (sv_viewSet s) ob of
             None \<Rightarrow> (False, s, w)
           | Some baseline \<Rightarrow>
               let current = CurrentView s ob
               in if needResync (sv_viewSet s) ob
                  then let frozen = ToBaseline current;
                           partCount = max 1 (of_nat ((length frozen + kPartSize - 1) div kPartSize))
                       in case beginSnapshot ob frozen partCount (sv_viewSet s) of
                            (None, v) \<Rightarrow> (False, s\<lparr>sv_viewSet := v\<rparr>, w)
                          | (Some snapshot, v) \<Rightarrow>
                              (case send_parts sink ob snapshot partCount (sort_key fst frozen) [0..<unat partCount] (s\<lparr>sv_viewSet := v\<rparr>) w of
                                 (False, s, w) \<Rightarrow> (False, s, w)
                               | (True, s, w) \<Rightarrow> (case commitSnapshot snapshot (sv_viewSet s) of (done', v) \<Rightarrow> (done', s\<lparr>sv_viewSet := v\<rparr>, w)))
                  else SendDelta sink ob token current baseline s w))"

section \<open>Ticks\<close>

fun flush_moves :: "int \<Rightarrow> AoiEvent list \<Rightarrow> AoiService \<Rightarrow> AoiService" where
  "flush_moves now [] s = s"
| "flush_moves now (ev # evs) s =
     (case on_replica (Apply now ev kRemote) s of (result, s) \<Rightarrow>
        flush_moves now evs (if result = kNeedSnapshot
          then s\<lparr>sv_ownersNeedingSnapshot := insert (av_ownerThreadId ev) (sv_ownersNeedingSnapshot s)\<rparr> else s))"

definition FlushRemoteMoves :: "int \<Rightarrow> AoiService \<Rightarrow> AoiService" where
  "FlushRemoteMoves now s = flush_moves now (map snd (sv_pendingRemoteMoves s)) (s\<lparr>sv_pendingRemoteMoves := []\<rparr>)"

text \<open>The encoder that \<open>PublishHooks\<close> of aoiServiceRouter.h installs.\<close>

definition MSGTYPE_SERVICE :: u16 where "MSGTYPE_SERVICE = 100"

definition encode_publish :: "AoiEvent \<Rightarrow> u32 list \<Rightarrow> AoiWorkerPublishRequest option" where
  "encode_publish ev targets =
     (if EventMethod (av_msgKind ev) = 0 then None
      else map_option (\<lambda>body. \<lparr>wr_msgType = MSGTYPE_SERVICE, wr_targets = targets, wr_body = body, wr_module = Module_AOI,
                               wr_method = EventMethod (av_msgKind ev)\<rparr>) (EncodeEvent ev))"

definition undelivered :: "WorkerDeliveryResult list \<Rightarrow> u32 \<Rightarrow> bool" where
  "undelivered ds target \<longleftrightarrow> (case find (\<lambda>d. wd_target d = target) ds of None \<Rightarrow> True | Some d \<Rightarrow> \<not> wd_accepted d)"

fun retry_publishes :: "'w AoiPushSink \<Rightarrow> PublishTask list \<Rightarrow> 'w \<Rightarrow> PublishTask list \<times> 'w" where
  "retry_publishes sink [] w = ([], w)"
| "retry_publishes sink (t # ts) w =
     (case encode_publish (pt_event t) (pt_remaining t) of
        None \<Rightarrow> (case retry_publishes sink ts w of (ts, w) \<Rightarrow> (t # ts, w))
      | Some request \<Rightarrow>
          (case si_publishToWorkers sink request w of (ds, w) \<Rightarrow>
             let failed = filter (undelivered ds) (pt_remaining t)
             in case retry_publishes sink ts w of (ts, w) \<Rightarrow>
                  (if failed = [] then ts else t\<lparr>pt_remaining := failed\<rparr> # ts, w)))"

definition RetryPublishes :: "'w AoiPushSink \<Rightarrow> AoiService \<Rightarrow> 'w \<Rightarrow> AoiService \<times> 'w" where
  "RetryPublishes sink s w = (case retry_publishes sink (sv_pendingPublishes s) w of (ts, w) \<Rightarrow> (s\<lparr>sv_pendingPublishes := ts\<rparr>, w))"

fun process_observers :: "'w AoiPushSink \<Rightarrow> u64 list \<Rightarrow> AoiService \<Rightarrow> 'w \<Rightarrow> AoiService \<times> 'w" where
  "process_observers sink [] s w = (s, w)"
| "process_observers sink (ob # obs) s w =
     (if ob \<notin> sv_dirtyObservers s \<and> \<not> hasPending (sv_viewSet s) ob \<and> \<not> needResync (sv_viewSet s) ob
      then process_observers sink obs s w
      else case ProcessAoiClientObserver sink ob s w of (ok, s, w) \<Rightarrow>
        process_observers sink obs (if ok then s\<lparr>sv_dirtyObservers := sv_dirtyObservers s - {ob}\<rparr> else s) w)"

definition ProcessObservers :: "'w AoiPushSink \<Rightarrow> AoiService \<Rightarrow> 'w \<Rightarrow> AoiService \<times> 'w" where
  "ProcessObservers sink s w = process_observers sink (forEachObserver (sv_viewSet s)) s w"

definition OnTick :: "'w AoiPushSink \<Rightarrow> int \<Rightarrow> AoiService \<Rightarrow> 'w \<Rightarrow> AoiService \<times> 'w" where
  "OnTick sink now s w =
     (if now < 0 \<or> now < sv_nextTickTime s then (s, w)
      else let s = s\<lparr>sv_nextTickTime := (if now > 2 ^ 63 - 1 - uint (cf_tickMs (sv_config s)) then 2 ^ 63 - 1
                         else now + uint (cf_tickMs (sv_config s))),
                     sv_tickCount := sv_tickCount s + 1\<rparr>
           in case RetryPublishes sink (FlushRemoteMoves now s) w of (s, w) \<Rightarrow> ProcessObservers sink s w)"

section \<open>Messages of other threads\<close>

definition AOI_OWNER_SNAPSHOT_REQ :: u16 where "AOI_OWNER_SNAPSHOT_REQ = 5"
definition AOI_OWNER_SNAPSHOT :: u16 where "AOI_OWNER_SNAPSHOT = 6"

datatype RouterResult = kHandled | kRouterRejected | kSnapshotRequested

definition router_Dispatch :: "int \<Rightarrow> u32 \<Rightarrow> nat \<Rightarrow> Msg \<Rightarrow> AoiService \<Rightarrow> RouterResult \<times> AoiService" where
  "router_Dispatch now self workerCount msg s =
     (let h = msg_head msg; sender = mh_serviceSenderWorkerId h
      in if mh_msgType h \<noteq> MSGTYPE_SERVICE \<or> mh_Module h \<noteq> Module_AOI \<or> unat sender \<ge> workerCount \<or> sender = self then (kRouterRejected, s)
         else if mh_Method h = AOI_ENTRY \<or> mh_Method h = AOI_MOVE \<or> mh_Method h = AOI_LEAVE
         then (case DecodeEvent (msg_body msg) of
                 None \<Rightarrow> (kRouterRejected, s)
               | Some event \<Rightarrow>
                   if av_ownerThreadId event \<noteq> sender \<or> EventMethod (av_msgKind event) \<noteq> mh_Method h then (kRouterRejected, s)
                   else case onRemoteEntityEvent now sender event s of (res, s) \<Rightarrow> (if res = kRejected then kRouterRejected else kHandled, s))
         else if mh_Method h = AOI_OWNER_SNAPSHOT
         then (case DecodeSnapshot (msg_body msg) of
                 None \<Rightarrow> (kRouterRejected, s)
               | Some snapshot \<Rightarrow>
                   if os_ownerWokerId snapshot \<noteq> sender then (kRouterRejected, s)
                   else case service_snapshot sender snapshot s of (res, s) \<Rightarrow>
                     (if res = kApplied \<or> res = kIgnored then kHandled else kRouterRejected, s))
         else if mh_Method h = AOI_OWNER_SNAPSHOT_REQ
         then (if ValidSnapshotRequest (msg_body msg) then kSnapshotRequested else kRouterRejected, s)
         else (kRouterRejected, s))"

definition publish_targets :: "u32 \<Rightarrow> nat \<Rightarrow> u32 list" where
  "publish_targets self workerCount = map of_nat (filter (\<lambda>i. i \<noteq> unat self) [0..<workerCount])"

section \<open>The pushes of a delta\<close>

text \<open>What a frame that is committed does to the baseline.\<close>

lemma process_push_Some:
  assumes "process_push p b = Some b'" and "ap_kind p = kLeave \<Longrightarrow> map_of b (ap_targetId p) = Some (ap_state p)"
  shows "map_of b' = (map_of b)(ap_targetId p := (if ap_kind p = kLeave then None else Some (ap_state p)))" "umap_ok b \<Longrightarrow> umap_ok b'"
  using assms by (auto simp: process_push_def processEntry_def processMove_def processLeave_def Let_def split: if_splits option.splits AoiMsgKind.splits)

lemma process_items_Some:
  assumes "process_items items (b, q) = Some (b', q')" "distinct (map ap_targetId items)"
    and "\<forall>p \<in> set items. ap_kind p = kLeave \<longrightarrow> map_of b (ap_targetId p) = Some (ap_state p)"
  shows "(map_of b' i = (case map_of (map (\<lambda>p. (ap_targetId p, p)) items) i of None \<Rightarrow> map_of b i
      | Some p \<Rightarrow> if ap_kind p = kLeave then None else Some (ap_state p))) \<and> (umap_ok b \<longrightarrow> umap_ok b')"
  using assms
proof (induction items arbitrary: b q)
  case (Cons p items)
  from Cons.prems(1) obtain b1 where b1: "process_push p b = Some b1" and rest: "process_items items (b1, q - {ap_targetId p}) = Some (b', q')"
    by (auto split: option.splits)
  note s = process_push_Some [OF b1]
  have m: "map_of b1 = (map_of b)(ap_targetId p := (if ap_kind p = kLeave then None else Some (ap_state p)))" using s(1) Cons.prems(3) by simp
  have "\<forall>q \<in> set items. ap_kind q = kLeave \<longrightarrow> map_of b1 (ap_targetId q) = Some (ap_state q)"
  proof (intro ballI impI)
    fix q assume q: "q \<in> set items" "ap_kind q = kLeave"
    then have "ap_targetId q \<noteq> ap_targetId p" using Cons.prems(2) by (metis distinct.simps(2) image_eqI list.set_map list.simps(9))
    then show "map_of b1 (ap_targetId q) = Some (ap_state q)" using q Cons.prems(3) by (simp add: m)
  qed
  note ih = Cons.IH [OF rest _ this]
  have fresh: "map_of (map (\<lambda>p. (ap_targetId p, p)) items) (ap_targetId p) = None"
    using Cons.prems(2) by (auto simp: map_of_eq_None_iff image_iff)
  show ?case using ih Cons.prems(2,3) s(2) fresh by (auto simp: m split: option.splits)
qed auto

lemma delta_push_mem:
  "p \<in> set (delta_pushes b current) \<longleftrightarrow>
     (\<exists>e \<in> set current. (is_entered b e \<or> is_moved b e) \<and> p = \<lparr>ap_kind = (if is_entered b e then kEntry else kMove), ap_targetId = ae_entityId e, ap_state = pushed_state e\<rparr>)
     \<or> (\<exists>i old. (i, old) \<in> set b \<and> i \<notin> ae_entityId ` set current \<and> p = \<lparr>ap_kind = kLeave, ap_targetId = i, ap_state = old\<rparr>)"
  by (auto simp: delta_pushes_def is_moved_def split: if_splits)

lemma delta_targets_distinct:
  assumes "distinct (map ae_entityId current)" "umap_ok b"
  shows "distinct (map ap_targetId (delta_pushes b current))"
proof -
  let ?f = "\<lambda>e. if is_entered b e then [\<lparr>ap_kind = kEntry, ap_targetId = ae_entityId e, ap_state = pushed_state e\<rparr>]
                else if is_moved b e then [\<lparr>ap_kind = kMove, ap_targetId = ae_entityId e, ap_state = pushed_state e\<rparr>] else []"
  have t: "map ap_targetId (concat (map ?f es)) = map ae_entityId (filter (\<lambda>e. is_entered b e \<or> is_moved b e) es)" for es
    by (induction es) auto
  have l: "map ap_targetId (map (\<lambda>(i, old). \<lparr>ap_kind = kLeave, ap_targetId = i, ap_state = old\<rparr>) xs) = map fst xs" for xs
    by (induction xs) auto
  have "distinct (map ae_entityId (filter (\<lambda>e. is_entered b e \<or> is_moved b e) current))"
    using assms(1) by (rule distinct_map_filter)
  moreover have "distinct (map fst (filter (\<lambda>(i, _). i \<notin> ae_entityId ` set current) b))"
    using assms(2) by (simp add: umap_ok_def distinct_map_filter)
  ultimately show ?thesis unfolding delta_pushes_def map_append t l distinct_append by auto
qed

definition stamps :: "ViewBaseline \<Rightarrow> (u64 \<times> u32 \<times> u64) set" where
  "stamps b = {(i, se_entityGeneration st, se_spatialVersion st) | i st. map_of b i = Some st}"

definition stamp_of :: "AoiEntity \<Rightarrow> u64 \<times> u32 \<times> u64" where
  "stamp_of e = (ae_entityId e, ae_entityGeneration e, ae_spatialVersion e)"

lemma delta_leaves:
  "umap_ok b \<Longrightarrow> \<forall>p \<in> set (delta_pushes b current). ap_kind p = kLeave \<longrightarrow> map_of b (ap_targetId p) = Some (ap_state p)"
  by (auto simp: delta_push_mem umap_mem_iff split: if_splits)

lemma committed_delta_in_sync:
  assumes p: "process_items (delta_pushes b current) (b, q) = Some (b', q')" and d: "distinct (map ae_entityId current)" "umap_ok b"
  shows "stamps b' = stamp_of ` set current"
proof -
  let ?items = "delta_pushes b current" and ?at = "\<lambda>i. map_of (map (\<lambda>p. (ap_targetId p, p)) (delta_pushes b current)) i"
  have dist: "distinct (map ap_targetId ?items)" by (rule delta_targets_distinct [OF d])
  note res = process_items_Some [OF p dist delta_leaves [OF d(2)]]
  have at: "?at i = Some p \<longleftrightarrow> p \<in> set ?items \<and> ap_targetId p = i" for i p
    using dist by (subst map_of_eq_Some_iff) (auto simp: o_def)
  have none: "?at i = None \<longleftrightarrow> (\<forall>p \<in> set ?items. ap_targetId p \<noteq> i)" for i by (auto simp: map_of_eq_None_iff image_iff)
  have here: "map_of b' (ae_entityId e) \<noteq> None \<and> (\<forall>st. map_of b' (ae_entityId e) = Some st \<longrightarrow>
      se_entityGeneration st = ae_entityGeneration e \<and> se_spatialVersion st = ae_spatialVersion e)" if e: "e \<in> set current" for e
  proof (cases "is_entered b e \<or> is_moved b e")
    case True
    let ?p = "\<lparr>ap_kind = (if is_entered b e then kEntry else kMove), ap_targetId = ae_entityId e, ap_state = pushed_state e\<rparr>"
    have "?at (ae_entityId e) = Some ?p" unfolding at using True e by (auto simp: delta_push_mem)
    then have "map_of b' (ae_entityId e) = Some (pushed_state e)" using res by simp
    then show ?thesis by (simp add: pushed_state_def)
  next
    case False
    have "?at (ae_entityId e) = None" unfolding none
    proof (intro ballI notI)
      fix p assume "p \<in> set ?items" "ap_targetId p = ae_entityId e"
      then obtain f where "f \<in> set current" "ae_entityId f = ae_entityId e" "is_entered b f \<or> is_moved b f"
        using e by (auto simp: delta_push_mem)
      then show False using False e d(1) by (auto simp: distinct_map inj_on_def)
    qed
    then show ?thesis using False res by (auto simp: is_moved_def is_entered_def split: option.splits)
  qed
  have gone: "map_of b' i = None" if "i \<notin> ae_entityId ` set current" for i
  proof (cases "map_of b i")
    case None
    then have "?at i = None" unfolding none using that d(2) by (auto simp: delta_push_mem umap_mem_iff)
    then show ?thesis using None res by simp
  next
    case (Some old)
    let ?p = "\<lparr>ap_kind = kLeave, ap_targetId = i, ap_state = old\<rparr>"
    have "?at i = Some ?p" unfolding at using that Some d(2) by (auto simp: delta_push_mem umap_mem_iff)
    then show ?thesis using res by simp
  qed
  show ?thesis
  proof (intro equalityI subsetI)
    fix x assume "x \<in> stamps b'"
    then obtain i st where i: "map_of b' i = Some st" "x = (i, se_entityGeneration st, se_spatialVersion st)" by (auto simp: stamps_def)
    then obtain e where "e \<in> set current" "ae_entityId e = i" using gone [of i] by auto
    then show "x \<in> stamp_of ` set current" using here [of e] i by (auto simp: stamp_of_def)
  next
    fix x assume "x \<in> stamp_of ` set current"
    then obtain e where e: "e \<in> set current" "x = stamp_of e" by auto
    then show "x \<in> stamps b'" using here [OF e(1)] by (auto simp: stamps_def stamp_of_def)
  qed
qed

section \<open>One pass over an observer\<close>

lemma ToBaseline_eq:
  assumes "distinct (map ae_entityId es)"
  shows "stamps (ToBaseline es) = stamp_of ` set es \<and> umap_ok (ToBaseline es)"
proof -
  let ?f = "\<lambda>e b. if map_of b (ae_entityId e) = None then AList.update (ae_entityId e) (state_of e) b else b"
  have "umap_ok b \<Longrightarrow> (\<forall>e \<in> set es. map_of b (ae_entityId e) = None) \<Longrightarrow>
    umap_ok (fold ?f es b) \<and> (map_of (fold ?f es b) i = Some st \<longleftrightarrow>
      map_of b i = Some st \<or> (\<exists>e \<in> set es. ae_entityId e = i \<and> st = state_of e))" for b i st
    using assms
  proof (induction es arbitrary: b)
    case (Cons e es)
    let ?b = "AList.update (ae_entityId e) (state_of e) b"
    have "\<forall>x \<in> set es. map_of ?b (ae_entityId x) = None" using Cons.prems by (auto simp: image_iff)
    from Cons.IH [OF _ this] Cons.prems show ?case by auto
  qed simp
  from this [of "[]"] have m: "map_of (ToBaseline es) i = Some st \<longleftrightarrow> (\<exists>e \<in> set es. ae_entityId e = i \<and> st = state_of e)"
    and u: "umap_ok (ToBaseline es)" for i st by (simp_all add: ToBaseline_def)
  have "stamps (ToBaseline es) = {stamp_of e | e. e \<in> set es}" unfolding stamps_def m by (force simp: stamp_of_def state_of_def)
  with u show ?thesis by (auto simp: image_iff)
qed

lemma view_of:
  assumes "replica_ok (sv_replica s)"
  shows "distinct (map ae_entityId (CurrentView s ob))" "set (CurrentView s ob) = seen_by (sv_replica s) ob False"
proof -
  have "distinct (map ae_entityId (ViewOf s ob))"
  proof (cases "findById (sv_replica s) ob")
    case None
    then show ?thesis by (simp add: ViewOf_def getVisibleEntity_def)
  next
    case (Some oe)
    obtain out where "getVisibleEntity (sv_replica s) ob False = Some out" "distinct (map ae_entityId out)"
      by (rule getVisibleEntity_eq [OF assms Some])
    then show ?thesis by (simp add: ViewOf_def)
  qed
  then show "distinct (map ae_entityId (CurrentView s ob))" by (simp add: CurrentView_def distinct_map)
  show "set (CurrentView s ob) = seen_by (sv_replica s) ob False"
    by (simp add: CurrentView_def ViewOf_def seen_by_def split: option.splits)
qed

text \<open>The client of an observer is in step: its baseline has the entities in view, in their current generation and version.\<close>

definition in_step :: "AoiReplica \<Rightarrow> u64 \<Rightarrow> ObserverSnapshot \<Rightarrow> bool" where
  "in_step r ob x \<longleftrightarrow> stamps (ob_committedState x) = stamp_of ` seen_by r ob False"

definition baselines_ok :: "AoiViewSet \<Rightarrow> bool" where
  "baselines_ok v \<longleftrightarrow> (\<forall>ob x. findObserver v ob = Some x \<longrightarrow> umap_ok (ob_committedState x))"

text \<open>
  What a pass does: it touches the views of its observer only; if it succeeds, the observer's client is in step, and otherwise
  the observer is as before or has to be sent a new snapshot.
\<close>

definition pass_ok :: "u64 \<Rightarrow> AoiService \<Rightarrow> bool \<Rightarrow> AoiService \<Rightarrow> bool" where
  "pass_ok ob s ok s' \<longleftrightarrow> (\<exists>v d. s' = s\<lparr>sv_viewSet := v, sv_dirtyObservers := d\<rparr>) \<and> sv_dirtyObservers s \<subseteq> sv_dirtyObservers s'
     \<and> baselines_ok (sv_viewSet s') \<and> (\<forall>i. i \<noteq> ob \<longrightarrow> findObserver (sv_viewSet s') i = findObserver (sv_viewSet s) i)
     \<and> (case findObserver (sv_viewSet s) ob of
          None \<Rightarrow> findObserver (sv_viewSet s') ob = None
        | Some x \<Rightarrow> \<exists>x'. findObserver (sv_viewSet s') ob = Some x' \<and> (if ok then in_step (sv_replica s) ob x' else x' = x \<or> ob_needResync x'))"

lemma pass_ok_refl: "baselines_ok (sv_viewSet s) \<Longrightarrow> (ok \<Longrightarrow> \<forall>x. findObserver (sv_viewSet s) ob = Some x \<longrightarrow> in_step (sv_replica s) ob x) \<Longrightarrow> pass_ok ob s ok s"
  unfolding pass_ok_def by (auto split: option.splits intro!: exI [of _ "sv_viewSet s"] exI [of _ "sv_dirtyObservers s"])

lemma SendDelta_cases:
  assumes e: "SendDelta sink ob token cur b s w = (ok, s', w')" and n: "delta_pushes b cur \<noteq> []"
  shows "(\<not> ok \<and> s' = s) \<or> (\<exists>v. commitAccepted ob token (delta_pushes b cur) (sv_viewSet s) = (ok, v) \<and> s' = s\<lparr>sv_viewSet := v\<rparr>)"
proof (cases "BusinessIdOf s ob")
  case None
  then show ?thesis using e n by (simp add: SendDelta_def)
next
  case (Some pid)
  define req where "req = \<lparr>cr_observerPlayerId = pid, cr_clientViewEpoch = vt_clientViewEpoch token, cr_module = Module_AOI,
    cr_method = AOI_VIEW_DELTA, cr_body = si_delta sink (delta_message (vt_nextViewSeq token) b cur)\<rparr>"
  obtain res w1 where w1: "si_sendToClient sink req w = (res, w1)" by force
  obtain done' v where c: "commitAccepted ob token (delta_pushes b cur) (sv_viewSet s) = (done', v)" by force
  show ?thesis
    using e n Some w1 c by (cases "findObserver (sv_viewSet s) ob = None"; cases "res = kPushAccepted") (simp_all add: SendDelta_def req_def)
qed

lemma SendDelta_pass:
  assumes r: "replica_ok (sv_replica s)" and b: "baselines_ok (sv_viewSet s)" and x: "findObserver (sv_viewSet s) ob = Some x"
    and e: "SendDelta sink ob token (CurrentView s ob) (ob_committedState x) s w = (ok, s', w')"
  shows "pass_ok ob s ok s'"
proof -
  let ?cur = "CurrentView s ob" and ?b = "ob_committedState x"
  have u: "umap_ok ?b" using b x by (simp add: baselines_ok_def)
  note view = view_of [OF r, of ob]
  show ?thesis
  proof (cases "delta_pushes ?b ?cur = []")
    case True
    have "process_items (delta_pushes ?b ?cur) (?b, {}) = Some (?b, {})" using True by simp
    then have "in_step (sv_replica s) ob x"
      using committed_delta_in_sync [OF _ view(1) u] view(2) unfolding in_step_def by blast
    then show ?thesis using e True b x by (auto simp: SendDelta_def intro!: pass_ok_refl)
  next
    case False
    then consider (fail) "ok = False" "s' = s" | (commit) v where "commitAccepted ob token (delta_pushes ?b ?cur) (sv_viewSet s) = (ok, v)" "s' = s\<lparr>sv_viewSet := v\<rparr>"
      using SendDelta_cases [OF e] by blast
    then show ?thesis
    proof cases
      case fail
      then show ?thesis using b by (auto intro!: pass_ok_refl)
    next
      case commit
      show ?thesis
      proof (cases ok)
        case True
        then obtain b' q' where p: "process_items (delta_pushes ?b ?cur) (?b, ob_pendings x) = Some (b', q')"
          and v: "v = put_observer ob (x\<lparr>ob_committedState := b', ob_pendings := q', ob_nextViewSeq := ob_nextViewSeq x + 1\<rparr>) (sv_viewSet s)"
          using commit(1) x False by (auto simp: commitAccepted_def split: if_splits option.splits)
        have "stamps b' = stamp_of ` seen_by (sv_replica s) ob False" using committed_delta_in_sync [OF p view(1) u] view(2) by simp
        moreover have "umap_ok b'"
          using process_items_Some [OF p delta_targets_distinct [OF view(1) u] delta_leaves [OF u]] u by blast
        ultimately show ?thesis
          using True commit(2) v x b unfolding pass_ok_def
          by (auto simp: in_step_def baselines_ok_def intro!: exI [of _ v] exI [of _ "sv_dirtyObservers s"])
      next
        case False
        then have "v = sv_viewSet s" using commit(1) by (auto simp: commitAccepted_def split: if_splits option.splits)
        then show ?thesis using False commit(2) b by (auto intro!: pass_ok_refl)
      qed
    qed
  qed
qed

text \<open>A snapshot in parts.\<close>

lemma part_views:
  "vs_views (snd (markSnapshotPartAccepted token i v)) = vs_views v"
  "map_option sk_baseline (map_of (vs_snapshotTasks (snd (markSnapshotPartAccepted token i v))) ob) = map_option sk_baseline (map_of (vs_snapshotTasks v) ob)"
proof -
  show "vs_views (snd (markSnapshotPartAccepted token i v)) = vs_views v"
    by (simp add: markSnapshotPartAccepted_def split: option.splits)
  have "map_of (vs_snapshotTasks v) (st_observerId token) = Some t" if "findSnapshotTask v token = Some t" for t
    using that by (auto simp: findSnapshotTask_def Let_def split: option.splits if_splits)
  then show "map_option sk_baseline (map_of (vs_snapshotTasks (snd (markSnapshotPartAccepted token i v))) ob) = map_option sk_baseline (map_of (vs_snapshotTasks v) ob)"
    by (auto simp: markSnapshotPartAccepted_def split: option.splits)
qed

lemma abort_views: "vs_views (snd (abortSnapshot token v)) = vs_views v"
  by (simp add: abortSnapshot_def)

lemma send_failed:
  assumes b: "baselines_ok (sv_viewSet s)" and x: "findObserver (sv_viewSet s) ob = Some x" "ob_needResync x"
  shows "pass_ok ob s False (snd (OnClientSendFailed ob epoch s))"
proof (cases "epoch \<noteq> ob_clientViewEpoch x \<or> ob_resyncRevision x = 0xFFFFFFFF")
  case True
  then have "snd (OnClientSendFailed ob epoch s) = s" using x by (auto simp: OnClientSendFailed_def markNeedResync_def)
  then show ?thesis using b by (auto intro!: pass_ok_refl)
next
  case False
  then show ?thesis using assms unfolding pass_ok_def OnClientSendFailed_def markNeedResync_def by (auto simp: baselines_ok_def)
qed

lemma pass_ok_views:
  assumes "pass_ok ob (s\<lparr>sv_viewSet := v\<rparr>) ok s'" "vs_views v = vs_views (sv_viewSet s)"
  shows "pass_ok ob s ok s'"
proof -
  have f: "findObserver v = findObserver (sv_viewSet s)" using assms(2) by (simp add: findObserver_def fun_eq_iff)
  show ?thesis using assms(1) unfolding pass_ok_def by (auto simp: f split: option.splits)
qed

lemma send_parts_pass:
  assumes "send_parts sink ob token n ordered parts s w = (ok, s', w')" and "baselines_ok (sv_viewSet s)"
    and "findObserver (sv_viewSet s) ob = Some x" "ob_needResync x"
  shows "if ok then (\<exists>v. s' = s\<lparr>sv_viewSet := v\<rparr> \<and> vs_views v = vs_views (sv_viewSet s)
      \<and> map_option sk_baseline (map_of (vs_snapshotTasks v) ob) = map_option sk_baseline (map_of (vs_snapshotTasks (sv_viewSet s)) ob))
    else pass_ok ob s False s'"
  using assms
proof (induction parts arbitrary: s w)
  case Nil
  then show ?case by (auto intro!: exI [of _ "sv_viewSet s'"])
next
  case (Cons part parts)
  define pid where "pid = (case BusinessIdOf s ob of None \<Rightarrow> 0 | Some pid \<Rightarrow> pid)"
  obtain res w1 where w1: "(if pid = 0 then (kInvalidRequest, w)
      else si_sendToClient sink \<lparr>cr_observerPlayerId = pid, cr_clientViewEpoch = st_clientViewEpoch token, cr_module = Module_AOI,
        cr_method = AOI_VIEW_SNAPSHOT, cr_body = si_part sink (part_message token n ordered part)\<rparr> w) = (res, w1)" by force
  show ?case
  proof (cases "res = kPushAccepted")
    case True
    let ?v = "snd (markSnapshotPartAccepted token (of_nat part) (sv_viewSet s))"
    let ?s = "s\<lparr>sv_viewSet := ?v\<rparr>"
    have rest: "send_parts sink ob token n ordered parts ?s w1 = (ok, s', w')"
      using Cons.prems(1) w1 True by (simp add: Let_def flip: pid_def)
    have f: "findObserver ?v = findObserver (sv_viewSet s)" using part_views(1) by (simp add: findObserver_def fun_eq_iff)
    then have pre: "baselines_ok (sv_viewSet ?s)" "findObserver (sv_viewSet ?s) ob = Some x" using Cons.prems(2,3) by (simp_all add: baselines_ok_def)
    note ih = Cons.IH [OF rest pre Cons.prems(4)]
    show ?thesis
    proof (cases ok)
      case True
      then show ?thesis using ih part_views [of token "of_nat part" "sv_viewSet s"] by auto
    next
      case False
      then show ?thesis using ih pass_ok_views [where s = s and v = ?v and ok = False and ob = ob and s' = s'] part_views(1) by auto
    qed
  next
    case False
    let ?v = "snd (abortSnapshot token (sv_viewSet s))"
    have f: "findObserver ?v = findObserver (sv_viewSet s)" using abort_views by (simp add: findObserver_def fun_eq_iff)
    have eq: "ok = False" "s' = snd (OnClientSendFailed ob (st_clientViewEpoch token) (s\<lparr>sv_viewSet := ?v\<rparr>))"
      using Cons.prems(1) w1 False by (simp_all add: Let_def flip: pid_def)
    have "pass_ok ob (s\<lparr>sv_viewSet := ?v\<rparr>) False s'"
      unfolding eq(2) using Cons.prems(2-4) f by (intro send_failed) (simp_all add: baselines_ok_def)
    then show ?thesis using eq(1) pass_ok_views abort_views by auto
  qed
qed

lemma commit_pass:
  assumes r: "replica_ok (sv_replica s)" and b: "baselines_ok (sv_viewSet s)" and x: "findObserver (sv_viewSet s) ob = Some x"
    and v: "vs_views v = vs_views (sv_viewSet s)" and t: "map_option sk_baseline (map_of (vs_snapshotTasks v) ob) = Some (ToBaseline (CurrentView s ob))"
    and c: "commitSnapshot token v = (ok, v')" "st_observerId token = ob"
  shows "pass_ok ob s ok (s\<lparr>sv_viewSet := v'\<rparr>)"
proof -
  have f: "findObserver v = findObserver (sv_viewSet s)" using v by (simp add: findObserver_def fun_eq_iff)
  note base = ToBaseline_eq [OF view_of(1) [OF r, of ob]]
  show ?thesis
  proof (cases ok)
    case True
    then obtain k where k: "findSnapshotTask v token = Some k"
      and v': "v' = drop_task ob (put_observer ob (x\<lparr>ob_committedState := sk_baseline k, ob_pendings := {},
        ob_nextViewSeq := ob_nextViewSeq x + 1, ob_needResync := False\<rparr>) v)"
      using c x f by (auto simp: commitSnapshot_def split: option.splits if_splits)
    have "map_of (vs_snapshotTasks v) ob = Some k"
      using k c(2) by (auto simp: findSnapshotTask_def Let_def split: option.splits if_splits)
    then have "sk_baseline k = ToBaseline (CurrentView s ob)" using t by simp
    then show ?thesis
      using True v' x b base view_of(2) [OF r, of ob] unfolding pass_ok_def
      by (auto simp: in_step_def baselines_ok_def f intro!: exI [of _ v'] exI [of _ "sv_dirtyObservers s"])
  next
    case False
    then have "v' = v" using c by (auto simp: commitSnapshot_def split: option.splits if_splits)
    then have "pass_ok ob (s\<lparr>sv_viewSet := v'\<rparr>) ok (s\<lparr>sv_viewSet := v'\<rparr>)"
      using False b f by (intro pass_ok_refl) (auto simp: baselines_ok_def)
    then show ?thesis using pass_ok_views \<open>v' = v\<close> v by blast
  qed
qed

lemma beginSnapshot_Some:
  assumes "beginSnapshot ob frozen n v = (Some token, v')"
  shows "vs_views v' = vs_views v" "map_option sk_baseline (map_of (vs_snapshotTasks v') ob) = Some frozen" "st_observerId token = ob"
  using assms by (auto simp: beginSnapshot_def Let_def split: option.splits if_splits)

lemma beginSnapshot_None: "beginSnapshot ob frozen n v = (None, v') \<Longrightarrow> v' = v"
  by (auto simp: beginSnapshot_def Let_def split: option.splits if_splits)

lemma ProcessAoiClientObserver_pass:
  assumes r: "replica_ok (sv_replica s)" and b: "baselines_ok (sv_viewSet s)" and e: "ProcessAoiClientObserver sink ob s w = (ok, s', w')"
  shows "pass_ok ob s ok s'"
proof (cases "\<exists>token x. prepareSend (sv_viewSet s) ob = Some token \<and> findObserver (sv_viewSet s) ob = Some x")
  case False
  then have "ok = False" "s' = s"
    using e by (auto simp: ProcessAoiClientObserver_def committedBaseline_def prepareSend_def split: option.splits if_splits)
  then show ?thesis using b by (auto intro!: pass_ok_refl)
next
  case True
  then obtain token x where p: "prepareSend (sv_viewSet s) ob = Some token" and x: "findObserver (sv_viewSet s) ob = Some x" by blast
  show ?thesis
  proof (cases "ob_needResync x")
    case False
    then have "SendDelta sink ob token (CurrentView s ob) (ob_committedState x) s w = (ok, s', w')"
      using e p x by (simp add: ProcessAoiClientObserver_def committedBaseline_def needResync_def)
    then show ?thesis by (rule SendDelta_pass [OF r b x])
  next
    case True
    define frozen where "frozen = ToBaseline (CurrentView s ob)"
    define n :: u32 where "n = max 1 (of_nat ((length frozen + kPartSize - 1) div kPartSize))"
    have e: "(case beginSnapshot ob frozen n (sv_viewSet s) of
                (None, v) \<Rightarrow> (False, s\<lparr>sv_viewSet := v\<rparr>, w)
              | (Some snapshot, v) \<Rightarrow>
                  (case send_parts sink ob snapshot n (sort_key fst frozen) [0..<unat n] (s\<lparr>sv_viewSet := v\<rparr>) w of
                     (False, s, w) \<Rightarrow> (False, s, w)
                   | (True, s, w) \<Rightarrow> (case commitSnapshot snapshot (sv_viewSet s) of (done', v) \<Rightarrow> (done', s\<lparr>sv_viewSet := v\<rparr>, w)))) = (ok, s', w')"
      using e p x True unfolding frozen_def n_def by (simp add: ProcessAoiClientObserver_def committedBaseline_def needResync_def Let_def del: One_nat_def)
    obtain tk v where bs: "beginSnapshot ob frozen n (sv_viewSet s) = (tk, v)" by force
    show ?thesis
    proof (cases tk)
      case None
      then have "ok = False" "s' = s" using e bs beginSnapshot_None [of ob frozen n "sv_viewSet s" v] by auto
      then show ?thesis using b by (auto intro!: pass_ok_refl)
    next
      case (Some snap)
      note bs = bs [unfolded Some]
      note k = beginSnapshot_Some [OF bs]
      let ?s = "s\<lparr>sv_viewSet := v\<rparr>"
      obtain sent s1 w1 where sp: "send_parts sink ob snap n (sort_key fst frozen) [0..<unat n] ?s w = (sent, s1, w1)" by (metis prod_cases3)
      have f: "findObserver v = findObserver (sv_viewSet s)" using k(1) by (simp add: findObserver_def fun_eq_iff)
      have pre: "baselines_ok (sv_viewSet ?s)" "findObserver (sv_viewSet ?s) ob = Some x" using b x f by (simp_all add: baselines_ok_def)
      note parts = send_parts_pass [OF sp pre True]
      show ?thesis
      proof (cases sent)
        case False
        then show ?thesis using e bs sp parts pass_ok_views [OF _ k(1)] by auto
      next
        case True
        then obtain v1 where v1: "s1 = s\<lparr>sv_viewSet := v1\<rparr>" "vs_views v1 = vs_views (sv_viewSet s)"
          "map_option sk_baseline (map_of (vs_snapshotTasks v1) ob) = Some (ToBaseline (CurrentView s ob))"
          using parts k(1,2) by (auto simp: frozen_def)
        obtain dn v2 where c: "commitSnapshot snap v1 = (dn, v2)" by force
        have "ok = dn" "s' = s\<lparr>sv_viewSet := v2\<rparr>" using e bs sp True v1(1) c by auto
        then show ?thesis using commit_pass [OF r b x v1(2,3) c k(3)] by simp
      qed
    qed
  qed
qed

section \<open>Observers and entity ids\<close>

text \<open>The thread that gave out an entity id: \<open>Enter\<close> puts its number in the upper half.\<close>

definition id_owner :: "u64 \<Rightarrow> u32" where
  "id_owner i = ucast (drop_bit 32 i)"

lemma id_owner_own: "id_owner (push_bit 32 (ucast w) OR ucast (n :: u32)) = w"
  unfolding id_owner_def by (rule bit_eqI) (auto simp: bit_simps dest: bit_imp_le_length)

definition ids_ok :: "AoiReplica \<Rightarrow> bool" where
  "ids_ok r \<longleftrightarrow> (\<forall>i e. findById r i = Some e \<longrightarrow> id_owner i = ae_ownerWorker e)"

fun honest_op :: "replica_op \<Rightarrow> bool" where
  "honest_op (REvent now ev src) \<longleftrightarrow> (av_msgKind ev = kEntry \<longrightarrow> id_owner (av_eId ev) = av_ownerThreadId ev)"
| "honest_op (RSnapshot snap) \<longleftrightarrow> (\<forall>e \<in> set (os_ents snap). id_owner (ae_entityId e) = ae_ownerWorker e)"

lemma Apply_entities:
  assumes "check_event r ev src = Inr c"
  shows "findById (fst (snd (Apply now ev src (r, d)))) i =
    (if i \<noteq> av_eId ev then findById r i else if av_msgKind ev = kLeave then None else Some (updateEntity ev c empty_entity))"
proof -
  obtain g where "fst (snd (Apply now ev src (r, d))) = (if av_msgKind ev = kLeave then (buried now ev r)\<lparr>ar_grid := g\<rparr>
    else put_entity ev c empty_entity (r\<lparr>ar_grid := g\<rparr>))" by (rule Apply_tables [OF assms])
  then show ?thesis by (auto simp: findById_def buried_def put_entity_def delete_conv')
qed

lemma updateEntity_owner: "ae_ownerWorker (updateEntity ev c e) = av_ownerThreadId ev"
  by (simp add: updateEntity_def)

lemma ids_step:
  assumes r: "replica_ok r" "ids_ok r" and h: "honest_op op"
  shows "ids_ok (fst (replica_step op (r, d)))"
proof (cases op)
  case (REvent now ev src)
  show ?thesis
  proof (cases rule: Apply_cases [of now ev src "(r, d)"])
    case (refused res)
    then show ?thesis using r REvent by simp
  next
    case (applied c)
    have chk: "check_event r ev src = Inr c" using applied(1) by simp
    have "id_owner (av_eId ev) = av_ownerThreadId ev" if "av_msgKind ev \<noteq> kLeave"
    proof (cases "av_msgKind ev = kEntry")
      case True
      then show ?thesis using h REvent by simp
    next
      case False
      then have "av_msgKind ev = kMove" using check_event_Inr(3) [OF chk] that by (cases "av_msgKind ev") auto
      then obtain e where "findById r (av_eId ev) = Some e" using check_event_Inr(5) [OF chk] by auto
      then show ?thesis using r(2) check_event_Inr(2) [OF chk] by (auto simp: ids_ok_def owned_def)
    qed
    then show ?thesis using r(2) REvent by (auto simp: ids_ok_def Apply_entities [OF chk] updateEntity_owner)
  qed
next
  case (RSnapshot snap)
  show ?thesis
  proof (cases rule: ApplyOwnerSnapshot_cases [of snap r d])
    case (refused res)
    then show ?thesis using r RSnapshot by simp
  next
    case (applied incoming ents g d')
    note a = accepted_snapshot [OF r(1) applied(1-3)]
    have "id_owner i = ae_ownerWorker e" if e: "map_of ents i = Some e" for i e
    proof (cases "map_of (ar_ents r) i = Some e")
      case True
      then show ?thesis using r(2) by (simp add: ids_ok_def findById_def)
    next
      case False
      then have "map_of incoming i = Some e" using e a(4) [of i] by (auto split: option.splits if_splits)
      then obtain x where "x \<in> set (os_ents snap)" "ae_entityId x = i" "e = x\<lparr>ae_cellIdx := ae_cellIdx e\<rparr>"
        using check_snapshot_Inr [OF applied(2)] by (auto simp: incoming_ok_def)
      moreover from this(3) have "ae_ownerWorker e = ae_ownerWorker x" by (metis AoiEntity.select_convs AoiEntity.update_convs AoiEntity.surjective)
      ultimately show ?thesis using h RSnapshot by auto
    qed
    then show ?thesis using applied(4) RSnapshot by (simp add: ids_ok_def findById_def)
  qed
qed

definition local_entity :: "AoiReplica \<Rightarrow> u64 \<Rightarrow> bool" where
  "local_entity r i \<longleftrightarrow> (\<exists>e. findById r i = Some e \<and> ae_ownerWorker e = ar_wId r)"

lemma local_entity_stays:
  assumes r: "replica_ok r" and i: "local_entity r i"
    and no: "\<And>now ev. op = REvent now ev kLocal \<Longrightarrow> av_eId ev = i \<Longrightarrow> av_msgKind ev \<noteq> kLeave"
  shows "local_entity (fst (replica_step op (r, d))) i"
proof (cases op)
  case (REvent now ev src)
  show ?thesis
  proof (cases rule: Apply_cases [of now ev src "(r, d)"])
    case (refused res)
    then show ?thesis using i REvent by simp
  next
    case (applied c)
    have chk: "check_event r ev src = Inr c" using applied(1) by simp
    have w: "ar_wId (fst (snd (Apply now ev src (r, d)))) = ar_wId r" by (rule Apply_ok(2) [OF r])
    have "av_eId ev = i \<Longrightarrow> av_ownerThreadId ev = ar_wId r"
      using i check_event_Inr(2) [OF chk] by (auto simp: local_entity_def owned_def)
    moreover from this have "av_eId ev = i \<Longrightarrow> av_msgKind ev \<noteq> kLeave"
      using no REvent check_event_Inr(1) [OF chk] by auto
    ultimately show ?thesis using i REvent w by (auto simp: local_entity_def Apply_entities [OF chk] updateEntity_owner)
  qed
next
  case (RSnapshot snap)
  have "local_observer (ar_wId r) (map_of (ar_ents (fst (snd (ApplyOwnerSnapshot snap (r, d)))))) i"
    using snapshot_ok(5) [OF r, where snap = snap and d = d] i by (auto simp: follows_def core_def local_observer_def local_entity_def findById_def)
  then show ?thesis using RSnapshot snapshot_ok(2) [OF r, where snap = snap and d = d] by (simp add: local_observer_def local_entity_def findById_def)
qed

lemma step_keeps_marks:
  assumes r: "replica_ok r"
  shows "d \<subseteq> snd (replica_step op (r, d))"
proof (cases op)
  case (REvent now ev src)
  then show ?thesis using Apply_ok(4) [OF r, of now ev src d] by (cases "snd (Apply now ev src (r, d)) = (r, d)") (auto simp: changes_def core_def)
next
  case (RSnapshot snap)
  then show ?thesis using snapshot_ok(5) [OF r, where snap = snap and d = d] by (auto simp: follows_def core_def)
qed

section \<open>The service invariant\<close>

text \<open>
  The invariant, except for the observers in \<open>X\<close>: every registered observer is an entity of the thread, and is marked, has to be sent a
  snapshot or is in step.
\<close>

definition observer_ok :: "AoiService \<Rightarrow> u64 \<Rightarrow> ObserverSnapshot \<Rightarrow> bool" where
  "observer_ok s ob x \<longleftrightarrow> local_entity (sv_replica s) ob \<and> umap_ok (ob_committedState x)
     \<and> (ob \<in> sv_dirtyObservers s \<or> ob_needResync x \<or> in_step (sv_replica s) ob x)"

definition moves_only :: "(u64, AoiEvent) umap \<Rightarrow> bool" where
  "moves_only ms \<longleftrightarrow> (\<forall>ev \<in> snd ` set ms. av_msgKind ev = kMove)"

lemma moves_only_simps [simp]:
  "moves_only []" "moves_only ms \<Longrightarrow> av_msgKind ev = kMove \<Longrightarrow> moves_only (AList.update i ev ms)"
  "moves_only ms \<Longrightarrow> moves_only (AList.delete i ms)" "moves_only ms \<Longrightarrow> moves_only (filter P ms)"
proof -
  have "set (AList.update i ev ms) \<subseteq> insert (i, ev) (set ms)" by (induction ms) auto
  then show "moves_only ms \<Longrightarrow> av_msgKind ev = kMove \<Longrightarrow> moves_only (AList.update i ev ms)" by (fastforce simp: moves_only_def)
qed (auto simp: moves_only_def AList.delete_eq)

definition service_ok :: "u64 set \<Rightarrow> AoiService \<Rightarrow> bool" where
  "service_ok X s \<longleftrightarrow> replica_of (sv_wId s) (sv_config s) (sv_map s) (sv_replica s) \<and> ids_ok (sv_replica s)
     \<and> (\<forall>pid li. map_of (sv_identities s) pid = Some li \<longrightarrow> id_owner (li_id li) = sv_wId s)
     \<and> (\<forall>ob x. findObserver (sv_viewSet s) ob = Some x \<longrightarrow> ob \<notin> X \<longrightarrow> observer_ok s ob x) \<and> moves_only (sv_pendingRemoteMoves s)"

lemma service_okD:
  assumes "service_ok X s"
  shows "replica_ok (sv_replica s)" "ar_wId (sv_replica s) = sv_wId s"
    "findObserver (sv_viewSet s) ob = Some x \<Longrightarrow> ob \<notin> X \<Longrightarrow> observer_ok s ob x"
    "map_of (sv_identities s) pid = Some li \<Longrightarrow> id_owner (li_id li) = sv_wId s" "moves_only (sv_pendingRemoteMoves s)"
  using assms by (auto simp: service_ok_def replica_of_def)

lemma baselines_of: "service_ok {} s \<Longrightarrow> baselines_ok (sv_viewSet s)"
  by (auto simp: service_ok_def observer_ok_def baselines_ok_def)

text \<open>Fields outside the invariant.\<close>

lemma service_ok_fields [simp]:
  "service_ok X s \<Longrightarrow> service_ok X (s\<lparr>sv_pendingRemoteMoves := a\<rparr>) = moves_only a" "service_ok X (s\<lparr>sv_ownersNeedingSnapshot := b\<rparr>) = service_ok X s"
  "service_ok X (s\<lparr>sv_pendingPublishes := c\<rparr>) = service_ok X s" "service_ok X (s\<lparr>sv_nextEntityCounter := n\<rparr>) = service_ok X s"
  "service_ok X (s\<lparr>sv_ownerSeq := q\<rparr>) = service_ok X s" "service_ok X (s\<lparr>sv_nextTickTime := t\<rparr>) = service_ok X s"
  "service_ok X (s\<lparr>sv_tickCount := u\<rparr>) = service_ok X s"
  by (simp_all add: service_ok_def observer_ok_def)

lemma service_ok_identity:
  "service_ok X s \<Longrightarrow> id_owner (li_id li) = sv_wId s \<Longrightarrow> service_ok X (s\<lparr>sv_identities := AList.update pid li (sv_identities s)\<rparr>)"
  by (auto simp: service_ok_def observer_ok_def)

text \<open>A step of the replica.\<close>

lemma service_ok_replica:
  assumes ok: "service_ok {} s" and st: "replica_step op (sv_replica s, sv_dirtyObservers s) = (r, d)" and h: "honest_op op"
    and X: "\<And>now ev. op = REvent now ev kLocal \<Longrightarrow> av_msgKind ev = kLeave \<Longrightarrow> av_eId ev \<in> X"
  shows "service_ok X (s\<lparr>sv_replica := r, sv_dirtyObservers := d\<rparr>)"
proof -
  let ?r = "sv_replica s" and ?d = "sv_dirtyObservers s"
  note k = service_okD [OF ok]
  have of: "replica_of (sv_wId s) (sv_config s) (sv_map s) r"
    using replica_step_ok [of _ _ _ "(?r, ?d)" op] ok st by (simp add: service_ok_def)
  have ids: "ids_ok r" using ids_step [OF k(1) _ h, of ?d] ok st by (simp add: service_ok_def)
  have "observer_ok (s\<lparr>sv_replica := r, sv_dirtyObservers := d\<rparr>) ob x"
    if x: "findObserver (sv_viewSet s) ob = Some x" and ob: "ob \<notin> X" for ob x
  proof -
    have o': "observer_ok s ob x" using k(3) [OF x] by simp
    then have l: "local_entity r ob"
      using local_entity_stays [OF k(1), of ob op ?d] X ob st by (auto simp: observer_ok_def)
    have "ob \<in> d" if "seen_by ?r ob False \<noteq> seen_by r ob False"
      using step_marks [OF k(1) st [symmetric], of ob _ False] that l of k(2) by (auto simp: local_entity_def replica_of_def)
    moreover have "?d \<subseteq> d" using step_keeps_marks [OF k(1), of ?d op] st by simp
    ultimately consider "ob \<in> d" | "seen_by ?r ob False = seen_by r ob False" "?d \<subseteq> d" by blast
    then show ?thesis using o' l by cases (auto simp: observer_ok_def in_step_def)
  qed
  then show ?thesis using of ids ok by (simp add: service_ok_def)
qed

lemma on_replica_step:
  "on_replica (Apply now ev src) s = (res, s') \<Longrightarrow>
     (\<exists>r d. replica_step (REvent now ev src) (sv_replica s, sv_dirtyObservers s) = (r, d) \<and> s' = s\<lparr>sv_replica := r, sv_dirtyObservers := d\<rparr>)
     \<and> (res \<noteq> kApplied \<longrightarrow> s' = s)"
  by (rule Apply_cases [of now ev src "(sv_replica s, sv_dirtyObservers s)"]) (auto simp: on_replica_def split: prod.splits)

lemma on_replica_snapshot:
  "on_replica (ApplyOwnerSnapshot snap) s = (res, s') \<Longrightarrow>
     \<exists>r d. replica_step (RSnapshot snap) (sv_replica s, sv_dirtyObservers s) = (r, d) \<and> s' = s\<lparr>sv_replica := r, sv_dirtyObservers := d\<rparr>"
  by (auto simp: on_replica_def split: prod.splits)

lemma ApplyLocal_ok:
  assumes ok: "service_ok {} s" and e: "ApplyLocal now ev s = (res, s')" and h: "av_msgKind ev = kEntry \<Longrightarrow> id_owner (av_eId ev) = av_ownerThreadId ev"
  shows "service_ok (if av_msgKind ev = kLeave \<and> res = kApplied then {av_eId ev} else {}) s'" "sv_viewSet s' = sv_viewSet s"
    "sv_wId s' = sv_wId s" "sv_identities s' = sv_identities s"
proof -
  let ?ev = "ev\<lparr>av_ownerSeq := sv_ownerSeq s + 1\<rparr>"
  obtain r1 s1 where o': "on_replica (Apply now ?ev kLocal) s = (r1, s1)" by force
  then obtain r d where st: "replica_step (REvent now ?ev kLocal) (sv_replica s, sv_dirtyObservers s) = (r, d)"
    "s1 = s\<lparr>sv_replica := r, sv_dirtyObservers := d\<rparr>" and no: "r1 \<noteq> kApplied \<Longrightarrow> s1 = s" using on_replica_step by blast
  have ok1: "service_ok (if av_msgKind ev = kLeave \<and> r1 = kApplied then {av_eId ev} else {}) s1"
  proof (cases "r1 = kApplied")
    case True
    show ?thesis unfolding st(2) using h True by (intro service_ok_replica [OF ok st(1)]) auto
  next
    case False
    then show ?thesis using no ok by simp
  qed
  have "(res, s') = (if sv_ownerSeq s = 0xFFFFFFFFFFFFFFFF then (kInvalid, s) else if r1 \<noteq> kApplied then (r1, s1)
    else (r1, s1\<lparr>sv_ownerSeq := av_ownerSeq ?ev, sv_pendingPublishes := sv_pendingPublishes s @
               (if sv_publishTargets s = [] then [] else [\<lparr>pt_event = ?ev, pt_remaining = sv_publishTargets s\<rparr>])\<rparr>))"
    unfolding e [symmetric] by (simp add: ApplyLocal_def Let_def o')
  then show "service_ok (if av_msgKind ev = kLeave \<and> res = kApplied then {av_eId ev} else {}) s'" "sv_viewSet s' = sv_viewSet s"
    "sv_wId s' = sv_wId s" "sv_identities s' = sv_identities s" using ok1 ok by (auto simp: st(2) split: if_splits)
qed

lemma Enter_ok:
  assumes ok: "service_ok {} s" and e: "Enter now p reenter s = (res, s')"
  shows "service_ok {} s'"
proof (cases "p_playerId p = 0 \<or> \<not> ValidPosition s p")
  case True
  then show ?thesis using e ok by (auto simp: Enter_def split: if_splits)
next
  case False
  define start where "start = (case map_of (sv_identities s) (p_playerId p) of
                   None \<Rightarrow> if sv_nextEntityCounter s = 0xFFFFFFFF then None
                     else let identity = \<lparr>li_id = push_bit 32 (ucast (sv_wId s)) OR ucast (sv_nextEntityCounter s), li_generation = 0\<rparr>
                          in Some (identity, s\<lparr>sv_nextEntityCounter := sv_nextEntityCounter s + 1,
                               sv_identities := AList.update (p_playerId p) identity (sv_identities s)\<rparr>)
                 | Some identity \<Rightarrow> Some (identity, s))"
  show ?thesis
  proof (cases start)
    case None
    then show ?thesis using e False ok by (simp add: Enter_def flip: start_def)
  next
    case (Some a)
    then obtain li s1 where a: "start = Some (li, s1)" by (cases a) simp
    have li: "id_owner (li_id li) = sv_wId s" "sv_wId s1 = sv_wId s" "service_ok {} s1"
      using a ok id_owner_own service_ok_identity [of "{}" "s\<lparr>sv_nextEntityCounter := sv_nextEntityCounter s + 1\<rparr>"]
        service_okD(4) [OF ok] by (auto simp: start_def Let_def split: option.splits if_splits)
    define ev where "ev = \<lparr>av_msgKind = kEntry, av_entityKind = kPlayer, av_eId = li_id li, av_businessId = p_playerId p,
                              av_target_x = p_x p, av_target_y = p_y p, av_target_dir = p_dir p,
                              av_entityGeneration = li_generation li + 1, av_actorEpoch = p_epoch p, av_spatialVersion = 1,
                              av_ownerThreadId = sv_wId s1, av_ownerSeq = 0\<rparr>"
    obtain r2 s2 where l: "ApplyLocal now ev s1 = (r2, s2)" by force
    have "(res, s') = (if \<not> reenter \<and> findById (sv_replica s1) (li_id li) \<noteq> None then (kIgnored, s1)
      else if li_generation li = 0xFFFFFFFF then (kInvalid, s1) else (r2, if r2 \<noteq> kApplied then s2
        else s2\<lparr>sv_identities := AList.update (p_playerId p) (li\<lparr>li_generation := av_entityGeneration ev\<rparr>) (sv_identities s2)\<rparr>))"
      unfolding e [symmetric] using False a by (simp add: Enter_def Let_def l flip: start_def ev_def)
    moreover have "service_ok {} s2" "sv_wId s2 = sv_wId s1"
      using ApplyLocal_ok [OF li(3) l] li by (auto simp: ev_def)
    moreover from this have "service_ok {} (s2\<lparr>sv_identities := AList.update (p_playerId p) (li\<lparr>li_generation := n\<rparr>) (sv_identities s2)\<rparr>)" for n
      using li by (intro service_ok_identity) auto
    ultimately show ?thesis using li(3) by (auto split: if_splits)
  qed
qed

text \<open>Operations that change the views.\<close>

lemma service_ok_views:
  assumes ok: "service_ok X s" and d: "sv_dirtyObservers s - Y \<subseteq> d"
    and o': "\<And>ob x. findObserver v ob = Some x \<Longrightarrow> (ob \<notin> X \<union> Y \<and> findObserver (sv_viewSet s) ob = Some x)
      \<or> (ob \<in> d \<and> local_entity (sv_replica s) ob \<and> umap_ok (ob_committedState x))"
  shows "service_ok {} (s\<lparr>sv_viewSet := v, sv_dirtyObservers := d\<rparr>)"
proof -
  have "observer_ok (s\<lparr>sv_viewSet := v, sv_dirtyObservers := d\<rparr>) ob x" if "findObserver v ob = Some x" for ob x
    using o' [OF that] service_okD(3) [OF ok, of ob x] d by (auto simp: observer_ok_def)
  then show ?thesis using ok by (simp add: service_ok_def)
qed

lemma OnEntityLeave_ok:
  assumes ok: "service_ok {} s" and e: "OnEntityLeave now i s = (res, s')"
  shows "service_ok {} s'"
proof -
  consider "s' = s" | ent s1 where "findById (sv_replica s) i = Some ent"
      "ApplyLocal now ((FromEntity ent kLeave)\<lparr>av_spatialVersion := ae_spatialVersion ent + 1\<rparr>) s = (res, s1)"
      "s' = (if res \<noteq> kApplied then s1
               else s1\<lparr>sv_viewSet := (case findObserver (sv_viewSet s1) i of
                                       None \<Rightarrow> sv_viewSet s1
                                     | Some x \<Rightarrow> snd (removeObserver i (ob_clientViewEpoch x) (sv_viewSet s1))),
                      sv_dirtyObservers := sv_dirtyObservers s1 - {i}\<rparr>)"
    using e by (auto simp: OnEntityLeave_def split: option.splits if_splits prod.splits)
  then show ?thesis
  proof cases
    case 1
    then show ?thesis using ok by simp
  next
    case (2 ent s1)
    have i: "ae_entityId ent = i" using replica_entity(2) [OF service_okD(1) [OF ok] 2(1)] .
    note a = ApplyLocal_ok(1) [OF ok 2(2)]
    show ?thesis
    proof (cases "res = kApplied")
      case False
      then show ?thesis using a 2(3) by (simp add: FromEntity_def)
    next
      case True
      then have "service_ok {i} s1" using a i by (simp add: FromEntity_def)
      moreover define v where "v = (case findObserver (sv_viewSet s1) i of None \<Rightarrow> sv_viewSet s1
          | Some x \<Rightarrow> snd (removeObserver i (ob_clientViewEpoch x) (sv_viewSet s1)))"
      moreover have "findObserver v = (findObserver (sv_viewSet s1))(i := None)"
        by (auto simp: v_def removeObserver_def findObserver_def fun_eq_iff delete_conv' split: option.splits)
      ultimately have "service_ok {} (s1\<lparr>sv_viewSet := v, sv_dirtyObservers := sv_dirtyObservers s1 - {i}\<rparr>)"
        by (intro service_ok_views [where X = "{i}" and Y = "{i}"]) (auto split: if_splits)
      then show ?thesis unfolding 2(3) v_def using True by simp
    qed
  qed
qed

lemma OnLocalEntityMoved_ok:
  assumes ok: "service_ok {} s" and e: "OnLocalEntityMoved now p s = (res, s')"
  shows "service_ok {} s'"
proof -
  consider "s' = s" | ev where "ApplyLocal now ev s = (res, s')" "av_msgKind ev = kMove"
    using e by (fastforce simp: OnLocalEntityMoved_def FromEntity_def split: option.splits if_splits)
  then show ?thesis using ok ApplyLocal_ok(1) [OF ok] by cases fastforce+
qed

lemma onRemoteEntityEvent_ok:
  assumes ok: "service_ok {} s" and e: "onRemoteEntityEvent now sender ev s = (res, s')" and h: "id_owner (av_eId ev) = av_ownerThreadId ev"
  shows "service_ok {} s'"
proof (cases "sender = sv_wId s \<or> sender \<noteq> av_ownerThreadId ev \<or> av_msgKind ev = kMove")
  case True
  then show ?thesis using e ok service_okD(5) [OF ok] by (auto simp: onRemoteEntityEvent_def split: option.splits if_splits)
next
  case False
  obtain r1 s1 where o': "on_replica (Apply now ev kRemote) s = (r1, s1)" by force
  then have ok1: "service_ok {} s1" using on_replica_step [OF o'] service_ok_replica [OF ok, where X = "{}"] h by fastforce
  then show ?thesis using e False o' service_okD(5) [OF ok1] by (auto simp: onRemoteEntityEvent_def split: option.splits if_splits)
qed

lemma service_snapshot_ok:
  assumes ok: "service_ok {} s" and e: "service_snapshot sender snap s = (res, s')" and h: "honest_op (RSnapshot snap)"
  shows "service_ok {} s'"
proof (cases "sender = sv_wId s \<or> sender \<noteq> os_ownerWokerId snap")
  case True
  then show ?thesis using e ok by (auto simp: service_snapshot_def split: if_splits)
next
  case False
  obtain r1 s1 where o': "on_replica (ApplyOwnerSnapshot snap) s = (r1, s1)" by force
  then have ok1: "service_ok {} s1" using on_replica_snapshot [OF o'] service_ok_replica [OF ok _ h, where X = "{}"] by fastforce
  then show ?thesis using e False o' service_okD(5) [OF ok1] by (auto simp: service_snapshot_def split: if_splits)
qed

lemma OnPlayerOnline_ok:
  assumes ok: "service_ok {} s" and e: "OnPlayerOnline pid epoch s = (res, s')"
  shows "service_ok {} s'"
proof (cases "res = False")
  case True
  then show ?thesis using e ok by (auto simp: OnPlayerOnline_def split: option.splits if_splits prod.splits bool.splits)
next
  case False
  then obtain i v ent where i: "EntityOf s pid = Some i" "findById (sv_replica s) i = Some ent" "registryObserver i epoch (sv_viewSet s) = (True, v)"
    "s' = s\<lparr>sv_viewSet := v, sv_dirtyObservers := insert i (sv_dirtyObservers s)\<rparr>"
    using e by (auto simp: OnPlayerOnline_def split: option.splits if_splits prod.splits bool.splits)
  have "id_owner i = sv_wId s" using i(1) service_okD(4) [OF ok, of pid] by (auto simp: EntityOf_def)
  moreover have "id_owner i = ae_ownerWorker ent" using ok i(2) by (simp add: service_ok_def ids_ok_def)
  ultimately have "local_entity (sv_replica s) i" using i(2) service_okD(2) [OF ok] by (simp add: local_entity_def)
  moreover have "findObserver v = (findObserver (sv_viewSet s))(i \<mapsto> fresh_observer epoch)"
    using i(3) by (auto simp: registryObserver_def fun_eq_iff split: if_splits)
  ultimately show ?thesis unfolding i(4)
    by (intro service_ok_views [OF ok, where Y = "{}"]) (auto simp: fresh_observer_def split: if_splits)
qed

lemma OnPlayerRebind_ok:
  assumes ok: "service_ok {} s" and e: "OnPlayerRebind pid old new s = (res, s')"
  shows "service_ok {} s'"
proof (cases "res = False")
  case True
  then show ?thesis using e ok by (auto simp: OnPlayerRebind_def split: option.splits prod.splits bool.splits)
next
  case False
  then obtain i v where i: "resetObserver i old new (sv_viewSet s) = (True, v)"
    "s' = s\<lparr>sv_viewSet := v, sv_dirtyObservers := insert i (sv_dirtyObservers s)\<rparr>"
    using e by (auto simp: OnPlayerRebind_def split: option.splits prod.splits bool.splits)
  then obtain x where x: "findObserver (sv_viewSet s) i = Some x" "findObserver v = (findObserver (sv_viewSet s))(i \<mapsto> initObserverSnapshot new x)"
    by (auto simp: resetObserver_def fun_eq_iff split: option.splits if_splits)
  then have "local_entity (sv_replica s) i" "umap_ok (ob_committedState (initObserverSnapshot new x))"
    using service_okD(3) [OF ok x(1)] by (auto simp: observer_ok_def initObserverSnapshot_def)
  then show ?thesis unfolding i(2) using x
    by (intro service_ok_views [OF ok, where Y = "{}"]) (auto split: if_splits)
qed

lemma OnPlayerOffline_ok:
  assumes ok: "service_ok {} s" and e: "OnPlayerOffline pid epoch s = (res, s')"
  shows "service_ok {} s'"
proof (cases "res = False")
  case True
  then show ?thesis using e ok by (auto simp: OnPlayerOffline_def split: option.splits prod.splits bool.splits)
next
  case False
  then obtain i v where i: "removeObserver i epoch (sv_viewSet s) = (True, v)"
    "s' = s\<lparr>sv_viewSet := v, sv_dirtyObservers := sv_dirtyObservers s - {i}\<rparr>"
    using e by (auto simp: OnPlayerOffline_def split: option.splits prod.splits bool.splits)
  then have "findObserver v = (findObserver (sv_viewSet s))(i := None)"
    by (auto simp: removeObserver_def findObserver_def fun_eq_iff delete_conv' split: option.splits if_splits)
  then show ?thesis unfolding i(2)
    by (intro service_ok_views [OF ok, where Y = "{i}"]) (auto split: if_splits)
qed

lemma OnClientSendFailed_ok:
  assumes ok: "service_ok {} s"
  shows "service_ok {} (snd (OnClientSendFailed ob epoch s))"
proof (cases "fst (markNeedResync ob epoch (sv_viewSet s))")
  case False
  then show ?thesis using ok by (auto simp: OnClientSendFailed_def split: prod.splits bool.splits)
next
  case True
  then obtain v where v: "markNeedResync ob epoch (sv_viewSet s) = (True, v)" by (cases "markNeedResync ob epoch (sv_viewSet s)") auto
  then obtain x where x: "findObserver (sv_viewSet s) ob = Some x"
    "findObserver v = (findObserver (sv_viewSet s))(ob \<mapsto> x\<lparr>ob_needResync := True, ob_resyncRevision := ob_resyncRevision x + 1\<rparr>)"
    by (auto simp: markNeedResync_def fun_eq_iff split: option.splits if_splits)
  have "local_entity (sv_replica s) ob" "umap_ok (ob_committedState x)" using service_okD(3) [OF ok x(1)] by (auto simp: observer_ok_def)
  then have "service_ok {} (s\<lparr>sv_viewSet := v, sv_dirtyObservers := insert ob (sv_dirtyObservers s)\<rparr>)" using x
    by (intro service_ok_views [OF ok, where Y = "{}"]) (auto split: if_splits)
  then show ?thesis by (simp add: OnClientSendFailed_def v)
qed

text \<open>Ticks.\<close>

lemma flush_moves_ok: "service_ok {} s \<Longrightarrow> (\<forall>ev \<in> set evs. av_msgKind ev = kMove) \<Longrightarrow> service_ok {} (flush_moves now evs s)"
proof (induction evs arbitrary: s)
  case (Cons ev evs)
  obtain r1 s1 where o': "on_replica (Apply now ev kRemote) s = (r1, s1)" by force
  then have "service_ok {} s1"
    using on_replica_step [OF o'] service_ok_replica [OF Cons.prems(1), where X = "{}"] Cons.prems(2) by fastforce
  then show ?case using Cons.IH Cons.prems(2) by (simp add: o')
qed simp

lemma process_observers_ok: "service_ok {} s \<Longrightarrow> service_ok {} (fst (process_observers sink obs s w))"
proof (induction obs arbitrary: s w)
  case (Cons ob obs)
  obtain ok s1 w1 where p: "ProcessAoiClientObserver sink ob s w = (ok, s1, w1)" by (metis prod_cases3)
  note pass = ProcessAoiClientObserver_pass [OF service_okD(1) [OF Cons.prems] baselines_of [OF Cons.prems] p]
  let ?d = "if ok then sv_dirtyObservers s1 - {ob} else sv_dirtyObservers s1"
  obtain v d where s1: "s1 = s\<lparr>sv_viewSet := v, sv_dirtyObservers := d\<rparr>" using pass by (auto simp: pass_ok_def)
  have "observer_ok (s1\<lparr>sv_dirtyObservers := ?d\<rparr>) i x" if x: "findObserver (sv_viewSet s1) i = Some x" for i x
  proof -
    obtain y where y: "findObserver (sv_viewSet s) i = Some y"
      using pass x by (cases "i = ob") (auto simp: pass_ok_def split: option.splits)
    have u: "umap_ok (ob_committedState x)" using pass x by (auto simp: pass_ok_def baselines_ok_def)
    have "i \<noteq> ob \<Longrightarrow> x = y" "i = ob \<Longrightarrow> (if ok then in_step (sv_replica s) ob x else x = y \<or> ob_needResync x)"
      using pass x y by (auto simp: pass_ok_def)
    moreover have "sv_dirtyObservers s \<subseteq> sv_dirtyObservers s1" using pass by (simp add: pass_ok_def)
    ultimately show ?thesis using service_okD(3) [OF Cons.prems y] u by (cases "i = ob"; cases ok) (auto simp: observer_ok_def s1)
  qed
  then have "service_ok {} (s1\<lparr>sv_dirtyObservers := ?d\<rparr>)" using Cons.prems by (simp add: service_ok_def s1)
  from Cons.IH [OF this] Cons.IH [OF Cons.prems] show ?case by (auto simp: p s1)
qed simp

section \<open>Runs\<close>

datatype service_op = SEnter int Player bool | SLeave int u64 | SMove int Player | SRemote int u32 AoiEvent | SSnapshot u32 AoiOwnerSnapshot
  | SOnline u64 u32 | SRebind u64 u32 u32 | SOffline u64 u32 | SSendFailed u64 u32 | SResync u64 u32 | STick int

fun service_step :: "'w AoiPushSink \<Rightarrow> service_op \<Rightarrow> AoiService \<times> 'w \<Rightarrow> AoiService \<times> 'w" where
  "service_step sink (SEnter now p reenter) (s, w) = (snd (Enter now p reenter s), w)"
| "service_step sink (SLeave now i) (s, w) = (snd (OnEntityLeave now i s), w)"
| "service_step sink (SMove now p) (s, w) = (snd (OnLocalEntityMoved now p s), w)"
| "service_step sink (SRemote now sender ev) (s, w) = (snd (onRemoteEntityEvent now sender ev s), w)"
| "service_step sink (SSnapshot sender snap) (s, w) = (snd (service_snapshot sender snap s), w)"
| "service_step sink (SOnline pid epoch) (s, w) = (snd (OnPlayerOnline pid epoch s), w)"
| "service_step sink (SRebind pid old new) (s, w) = (snd (OnPlayerRebind pid old new s), w)"
| "service_step sink (SOffline pid epoch) (s, w) = (snd (OnPlayerOffline pid epoch s), w)"
| "service_step sink (SSendFailed ob epoch) (s, w) = (snd (OnClientSendFailed ob epoch s), w)"
| "service_step sink (SResync pid epoch) (s, w) = (snd (OnViewResyncReq pid epoch s), w)"
| "service_step sink (STick now) (s, w) = OnTick sink now s w"

definition service_run :: "'w AoiPushSink \<Rightarrow> service_op list \<Rightarrow> AoiService \<times> 'w \<Rightarrow> AoiService \<times> 'w" where
  "service_run sink ops s = fold (service_step sink) ops s"

text \<open>
  Events and snapshots that follow the rule for entity ids: an id carries the number of the thread that owns the entity.
\<close>

fun honest :: "service_op \<Rightarrow> bool" where
  "honest (SRemote now sender ev) \<longleftrightarrow> id_owner (av_eId ev) = av_ownerThreadId ev"
| "honest (SSnapshot sender snap) \<longleftrightarrow> list_all (\<lambda>e. id_owner (ae_entityId e) = ae_ownerWorker e) (os_ents snap)"
| "honest op \<longleftrightarrow> True"

lemma OnTick_ok:
  assumes ok: "service_ok {} s"
  shows "service_ok {} (fst (OnTick sink now s w))"
proof -
  have flush: "service_ok {} (FlushRemoteMoves now s)" if "service_ok {} s" for s
    using service_okD(5) [OF that] that unfolding FlushRemoteMoves_def by (intro flush_moves_ok) (auto simp: moves_only_def)
  have retry: "service_ok {} (fst (RetryPublishes sink s w))" if "service_ok {} s" for s w
    using that by (auto simp: RetryPublishes_def split: prod.splits)
  have "service_ok {} (fst (ProcessObservers sink (fst x) (snd x)))" if "service_ok {} (fst x)" for x
    using process_observers_ok [OF that] by (simp add: ProcessObservers_def)
  then show ?thesis using ok flush retry by (auto simp: OnTick_def Let_def split_beta)
qed

lemma service_step_ok:
  assumes "service_ok {} (fst s)" "honest op"
  shows "service_ok {} (fst (service_step sink op s))"
proof -
  obtain s0 w where s: "s = (s0, w)" by force
  have ok: "service_ok {} s0" using assms(1) s by simp
  note ops = Enter_ok [OF ok surjective_pairing] OnEntityLeave_ok [OF ok surjective_pairing] OnLocalEntityMoved_ok [OF ok surjective_pairing]
    onRemoteEntityEvent_ok [OF ok surjective_pairing] service_snapshot_ok [OF ok surjective_pairing] OnPlayerOnline_ok [OF ok surjective_pairing]
    OnPlayerRebind_ok [OF ok surjective_pairing] OnPlayerOffline_ok [OF ok surjective_pairing] OnClientSendFailed_ok [OF ok] OnTick_ok [OF ok]
  show ?thesis
  proof (cases op)
    case (SResync pid epoch)
    then show ?thesis using ops ok by (auto simp: s OnViewResyncReq_def split: option.splits)
  qed (use ops assms(2) in \<open>auto simp: s list_all_iff\<close>)
qed

lemma service_run_ok: "service_ok {} (fst s) \<Longrightarrow> list_all honest ops \<Longrightarrow> service_ok {} (fst (service_run sink ops s))"
  unfolding service_run_def by (induction ops arbitrary: s) (auto simp: service_step_ok)

lemma new_service_ok:
  assumes "Map_Load path cellSize source = Inr m" "radius_fits m cfg" "new_service wId cfg m targets = Some s"
  shows "service_ok {} s"
proof -
  have "replica_of wId cfg m (new_replica wId cfg m)" using loaded_replica [OF assms(1,2), of wId "[]"] by (simp add: replica_run_def)
  then show ?thesis using assms(3)
    by (auto simp: new_service_def service_ok_def ids_ok_def findById_def new_replica_def findObserver_def empty_views_def split: if_splits)
qed


definition demo_sink :: "nat AoiPushSink" where
  "demo_sink = \<lparr>si_sendToClient = (\<lambda>_ n. (kPushAccepted, Suc n)), si_publishToWorkers = (\<lambda>_ n. ([], n)),
     si_delta = (\<lambda>_. []), si_part = (\<lambda>_. [])\<rparr>"

definition demo_aoi :: AoiConfig where
  "demo_aoi = default_aoi_config\<lparr>cf_cellSize := 100, cf_viewRange := 100\<rparr>"

definition demo_service :: AoiService where
  "demo_service = (case new_service 1 demo_aoi demo_map [0, 1, 2] of Some s \<Rightarrow> s)"

lemma demo_service_new: "new_service 1 demo_aoi demo_map [0, 1, 2] = Some demo_service"
proof -
  have "new_service 1 demo_aoi demo_map [0, 1, 2] \<noteq> None" unfolding new_service_def by code_simp
  then show ?thesis by (auto simp: demo_service_def)
qed

definition demo_player :: Player where
  "demo_player = new_player\<lparr>p_playerId := 42, p_x := 10, p_y := 10\<rparr>"

text \<open>A player comes, is sent a snapshot, and then a delta with an entity of thread 2 that came near.\<close>

definition demo_session :: "service_op list" where
  "demo_session = [SEnter 0 demo_player False, SOnline 42 5, STick 100, SRemote 150 2 (demo_event kEntry 0x200000001 2 110 1 1), STick 200]"

definition demo_id :: u64 where "demo_id = 0x100000001"


end
