(* ===== verification/DbValue.thy ===== *)
theory DbValue
  imports Messages
begin

text \<open>
  Bodies of database tasks and results, sceneServer/src-cpp/db/dbValue.h and dbValue.cc: the value tree and the
  encodings of tasks and results. A decoder reads from the front of a byte list, the bytes between the
  C++ pointers \<open>p\<close> and \<open>end\<close>; a value with its kind is a constructor. An encoder that throws
  \<open>std::invalid_argument\<close> gives \<open>None\<close>. \<open>int64_t\<close> is a 64-bit pattern read as a signed number.
\<close>

section \<open>Values\<close>

datatype Val = VNil | VInt "64 word" | VStr bytes | VArr "Val list"

definition kWireMagic :: u16 where "kWireMagic = 0xDB01"
definition kWireVersion :: u8 where "kWireVersion = 1"
definition kMaxDepth :: nat where "kMaxDepth = 64"
definition kMaxErrMsg :: u32 where "kMaxErrMsg = 65536"
definition kMaxItems :: u32 where "kMaxItems = 0x1000000"
definition kMaxSteps :: u32 where "kMaxSteps = 65540"

definition PutU64 :: "bytes \<Rightarrow> u64 \<Rightarrow> bytes" where "PutU64 s v = s @ put_le 8 v"
definition GetU64 :: "bytes \<Rightarrow> u64" where "GetU64 p = get_le (take 8 p)"

text \<open>\<open>(uint32_t)size\<close>, the length fields.\<close>

definition size32 :: "'a list \<Rightarrow> u32" where "size32 xs = of_nat (length xs)"

fun EncodeValD :: "nat \<Rightarrow> Val \<Rightarrow> bytes" where
  "EncodeValD depth VNil = [0]"
| "EncodeValD depth (VInt i) = 1 # (if depth > kMaxDepth then [] else put_le 8 i)"
| "EncodeValD depth (VStr s) = 2 # (if depth > kMaxDepth then [] else put_le 4 (size32 s) @ s)"
| "EncodeValD depth (VArr a) = 3 # (if depth > kMaxDepth then []
     else put_le 4 (size32 a) @ concat (map (EncodeValD (depth + 1)) a))"

definition EncodeVal :: "bytes \<Rightarrow> Val \<Rightarrow> bytes" where
  "EncodeVal s v = s @ EncodeValD 0 v"

function DecodeValD :: "nat \<Rightarrow> bytes \<Rightarrow> (Val \<times> bytes) option"
  and DecodeVals :: "nat \<Rightarrow> nat \<Rightarrow> bytes \<Rightarrow> (Val list \<times> bytes) option" where
  "DecodeValD depth bs =
     (if depth > kMaxDepth then None
      else case bs of
        [] \<Rightarrow> None
      | kind # p \<Rightarrow>
          if kind = 1 then (if length p < 8 then None else Some (VInt (GetI64 p), drop 8 p))
          else if kind = 2 then
            (if length p < 4 then None
             else let n = unat (GetU32 p); q = drop 4 p
                  in if length q < n then None else Some (VStr (take n q), drop n q))
          else if kind = 3 then
            (if length p < 4 then None
             else let n = GetU32 p; q = drop 4 p
                  in if n > kMaxItems \<or> length q < unat n then None
                     else map_option (\<lambda>(a, r). (VArr a, r)) (DecodeVals (depth + 1) (unat n) q))
          else if kind = 0 then Some (VNil, p) else None)"
| "DecodeVals depth 0 bs = Some ([], bs)"
| "DecodeVals depth (Suc n) bs =
     (case DecodeValD depth bs of
        None \<Rightarrow> None
      | Some (v, r) \<Rightarrow> map_option (\<lambda>(a, r'). (v # a, r')) (DecodeVals depth n r))"
  by pat_completeness auto
termination
  by (relation "inv_image (less_than <*lex*> less_than) (\<lambda>x. case x of
        Inl (depth, _) \<Rightarrow> (2 * (kMaxDepth + 2 - depth), 0) | Inr (depth, n, _) \<Rightarrow> (2 * (kMaxDepth + 2 - depth) + 1, n))")
    auto

definition DecodeVal :: "bytes \<Rightarrow> (Val \<times> bytes) option" where
  "DecodeVal p = DecodeValD 0 p"

section \<open>Tasks\<close>

record SqlStep =
  sq_kind :: u8
  sq_args :: "bytes list"
  sq_expectedAffected :: "64 word"
  sq_checkData :: bool
  sq_expectedData :: Val

record SqlTask =
  ta_kind :: u8
  ta_args :: "bytes list"
  ta_steps :: "SqlStep list"
  ta_verification :: "SqlStep list"
  ta_playerId :: u64
  ta_saveVersion :: u64
  ta_capturedRevision :: u64
  ta_saveLifecycleToken :: u64

definition empty_task :: SqlTask where
  "empty_task = \<lparr>ta_kind = 1, ta_args = [], ta_steps = [], ta_verification = [], ta_playerId = 0, ta_saveVersion = 0,
     ta_capturedRevision = 0, ta_saveLifecycleToken = 0\<rparr>"

definition empty_step :: SqlStep where
  "empty_step = \<lparr>sq_kind = 2, sq_args = [], sq_expectedAffected = - 1, sq_checkData = False, sq_expectedData = VNil\<rparr>"

definition encode_arg :: "bytes \<Rightarrow> bytes" where
  "encode_arg a = put_le 4 (size32 a) @ a"

definition encode_step :: "SqlStep \<Rightarrow> bytes option" where
  "encode_step st =
     (if sq_args st = [] \<or> int (length (sq_args st)) > 65536 then None
      else if list_ex (\<lambda>a. int (length a) > 1024 * 1024) (sq_args st) then None
      else Some ([sq_kind st] @ put_le 8 (sq_expectedAffected st) @ [if sq_checkData st then 1 else 0]
        @ put_le 4 (size32 (sq_args st)) @ concat (map encode_arg (sq_args st)) @ EncodeValD 0 (sq_expectedData st)))"

fun encode_each :: "SqlStep list \<Rightarrow> bytes option" where
  "encode_each [] = Some []"
| "encode_each (st # sts) =
     (case encode_step st of None \<Rightarrow> None
      | Some a \<Rightarrow> (case encode_each sts of None \<Rightarrow> None | Some b \<Rightarrow> Some (a @ b)))"

definition encode_list :: "SqlStep list \<Rightarrow> bytes option" where
  "encode_list sts = (case encode_each sts of None \<Rightarrow> None | Some b \<Rightarrow> Some (put_le 4 (size32 sts) @ b))"

definition SqlTask_Encode :: "SqlTask \<Rightarrow> bytes option" where
  "SqlTask_Encode t =
     (if ta_kind t = 4 \<or> ta_kind t = 5
      then if ta_steps t = [] \<or> int (length (ta_steps t)) > uint kMaxSteps \<or> int (length (ta_verification t)) > uint kMaxSteps then None
        else case encode_list (ta_steps t) of None \<Rightarrow> None
        | Some a \<Rightarrow> (case encode_list (ta_verification t) of None \<Rightarrow> None
          | Some b \<Rightarrow>
              let s = put_le 2 kWireMagic @ [2, ta_kind t] @ put_le 8 (ta_playerId t) @ put_le 8 (ta_saveVersion t)
                      @ put_le 8 (ta_capturedRevision t) @ put_le 8 (ta_saveLifecycleToken t) @ a @ b
              in if int (length s) > 32 * 1024 * 1024 then None else Some s)
      else Some (put_le 2 kWireMagic @ [kWireVersion, ta_kind t] @ put_le 4 (size32 (ta_args t))
                 @ concat (map encode_arg (ta_args t))))"

text \<open>Arguments: the loop with its count, and the limit of one argument.\<close>

fun decode_args :: "u32 option \<Rightarrow> nat \<Rightarrow> bytes \<Rightarrow> (bytes list \<times> bytes) option" where
  "decode_args limit 0 p = Some ([], p)"
| "decode_args limit (Suc n) p =
     (if length p < 4 then None
      else let len = GetU32 p; q = drop 4 p
           in if (case limit of None \<Rightarrow> False | Some m \<Rightarrow> len > m) \<or> length q < unat len then None
              else case decode_args limit n (drop (unat len) q) of
                None \<Rightarrow> None
              | Some (args, r) \<Rightarrow> Some (take (unat len) q # args, r))"

definition decode_step :: "bytes \<Rightarrow> (SqlStep \<times> bytes) option" where
  "decode_step p =
     (if length p < 14 then None
      else let kind = p ! 0; expectedAffected = GetI64 (drop 1 p); check = p ! 9;
               argc = GetU32 (drop 10 p); q = drop 14 p
           in if (kind \<noteq> 1 \<and> kind \<noteq> 2) \<or> check > 1 \<or> sint expectedAffected < - 1 then None
              else if argc = 0 \<or> argc > 65536 \<or> length q < unat argc * 4 then None
              else case decode_args (Some (1024 * 1024)) (unat argc) q of
                None \<Rightarrow> None
              | Some (args, r) \<Rightarrow>
                  (case DecodeVal r of
                     None \<Rightarrow> None
                   | Some (v, r') \<Rightarrow>
                       Some (\<lparr>sq_kind = kind, sq_args = args, sq_expectedAffected = expectedAffected,
                              sq_checkData = (check \<noteq> 0), sq_expectedData = v\<rparr>, r')))"

fun decode_each :: "nat \<Rightarrow> bytes \<Rightarrow> (SqlStep list \<times> bytes) option" where
  "decode_each 0 p = Some ([], p)"
| "decode_each (Suc n) p =
     (case decode_step p of None \<Rightarrow> None
      | Some (st, r) \<Rightarrow> (case decode_each n r of None \<Rightarrow> None | Some (sts, r') \<Rightarrow> Some (st # sts, r')))"

definition decode_list :: "bytes \<Rightarrow> (SqlStep list \<times> bytes) option" where
  "decode_list p =
     (if length p < 4 then None
      else let count = GetU32 p; q = drop 4 p
           in if count > kMaxSteps \<or> length q < unat count * 15 then None else decode_each (unat count) q)"

definition SqlTask_Decode :: "bytes \<Rightarrow> SqlTask option" where
  "SqlTask_Decode body =
     (if length body < 8 then None
      else if GetU16 body \<noteq> kWireMagic then None
      else let version = body ! 2; p = drop 3 body
      in if version = 2
         then if int (length body) > 32 * 1024 * 1024 \<or> length p < 33 then None
           else let kind = p ! 0
           in if kind \<noteq> 4 \<and> kind \<noteq> 5 then None
              else case decode_list (drop 33 p) of
                None \<Rightarrow> None
              | Some (steps, r) \<Rightarrow>
                  if steps = [] then None
                  else case decode_list r of
                    None \<Rightarrow> None
                  | Some (verification, r') \<Rightarrow>
                      if r' \<noteq> [] then None
                      else Some \<lparr>ta_kind = kind, ta_args = [], ta_steps = steps, ta_verification = verification,
                        ta_playerId = GetU64 (drop 1 p), ta_saveVersion = GetU64 (drop 9 p),
                        ta_capturedRevision = GetU64 (drop 17 p), ta_saveLifecycleToken = GetU64 (drop 25 p)\<rparr>
         else if version \<noteq> kWireVersion then None
         else let n = GetU32 (drop 1 p); q = drop 5 p
         in if n > kMaxItems \<or> length q < unat n * 4 then None
            else case decode_args None (unat n) q of
              None \<Rightarrow> None
            | Some (args, r) \<Rightarrow> if r = [] then Some (empty_task\<lparr>ta_kind := p ! 0, ta_args := args\<rparr>) else None)"

section \<open>Results\<close>

datatype ResultClass = kSuccess | kFailure | kRetryable | kOutcomeUnknown | kIdentityConflict
  | kSuperseded | kBusinessRejected | kVersionConflict

definition class_code :: "ResultClass \<Rightarrow> u8" where
  "class_code c = (case c of kSuccess \<Rightarrow> 0 | kFailure \<Rightarrow> 1 | kRetryable \<Rightarrow> 2 | kOutcomeUnknown \<Rightarrow> 3
     | kIdentityConflict \<Rightarrow> 4 | kSuperseded \<Rightarrow> 5 | kBusinessRejected \<Rightarrow> 6 | kVersionConflict \<Rightarrow> 7)"

definition class_of_code :: "u8 \<Rightarrow> ResultClass option" where
  "class_of_code b = (if b = 0 then Some kSuccess else if b = 1 then Some kFailure else if b = 2 then Some kRetryable
     else if b = 3 then Some kOutcomeUnknown else if b = 4 then Some kIdentityConflict else if b = 5 then Some kSuperseded
     else if b = 6 then Some kBusinessRejected else if b = 7 then Some kVersionConflict else None)"

record DbResult =
  re_errcode :: "32 word"
  re_errmsg :: bytes
  re_data :: Val
  re_classification :: ResultClass
  re_nativeError :: u32
  re_playerId :: u64
  re_saveVersion :: u64
  re_capturedRevision :: u64
  re_saveLifecycleToken :: u64

definition empty_result :: DbResult where
  "empty_result = \<lparr>re_errcode = 0, re_errmsg = [], re_data = VNil, re_classification = kSuccess, re_nativeError = 0,
     re_playerId = 0, re_saveVersion = 0, re_capturedRevision = 0, re_saveLifecycleToken = 0\<rparr>"

definition sent_class :: "DbResult \<Rightarrow> ResultClass" where
  "sent_class r = (if re_errcode r \<noteq> 0 \<and> re_classification r = kSuccess then kFailure else re_classification r)"

definition DbResult_Encode :: "DbResult \<Rightarrow> bytes" where
  "DbResult_Encode r = put_le 2 kWireMagic @ [3] @ put_le 4 (re_errcode r) @ put_le 4 (size32 (re_errmsg r)) @ re_errmsg r
     @ EncodeValD 0 (re_data r) @ [class_code (sent_class r)] @ put_le 4 (re_nativeError r)
     @ put_le 8 (re_playerId r) @ put_le 8 (re_saveVersion r) @ put_le 8 (re_capturedRevision r)
     @ put_le 8 (re_saveLifecycleToken r)"

text \<open>The fields behind the value, which versions 2 and 3 added.\<close>

definition decode_tail :: "u8 \<Rightarrow> DbResult \<Rightarrow> bytes \<Rightarrow> DbResult option" where
  "decode_tail version r p =
     (if version \<ge> 2 \<and> p = [] then None
      else case (if version \<ge> 2 then class_of_code (p ! 0) else Some (re_classification r)) of
        None \<Rightarrow> None
      | Some c \<Rightarrow>
          let p = (if version \<ge> 2 then drop 1 p else p); r = r\<lparr>re_classification := c\<rparr>
          in if version = 3
             then if length p < 36 then None
                  else if length p = 36
                  then Some (r\<lparr>re_nativeError := GetU32 p, re_playerId := GetU64 (drop 4 p),
                       re_saveVersion := GetU64 (drop 12 p), re_capturedRevision := GetU64 (drop 20 p),
                       re_saveLifecycleToken := GetU64 (drop 28 p)\<rparr>)
                  else None
             else if p = [] then Some r else None)"

definition DbResult_Decode :: "bytes \<Rightarrow> DbResult option" where
  "DbResult_Decode body =
     (if length body < 11 then None
      else if GetU16 body \<noteq> kWireMagic then None
      else let version = body ! 2
      in if version \<noteq> 1 \<and> version \<noteq> 2 \<and> version \<noteq> 3 then None
         else let errcode = GetU32 (drop 3 body); elen = GetU32 (drop 7 body); p = drop 11 body
         in if elen > kMaxErrMsg \<or> length p < unat elen then None
            else case DecodeVal (drop (unat elen) p) of
              None \<Rightarrow> None
            | Some (v, r) \<Rightarrow>
                decode_tail version (empty_result\<lparr>re_errcode := errcode, re_errmsg := take (unat elen) p, re_data := v,
                   re_classification := (if errcode = 0 then kSuccess else kFailure)\<rparr>) r)"

section \<open>Round trip of values\<close>

declare DecodeValD.simps [simp del]

text \<open>Values the format can carry below depth \<open>d\<close>: nesting, lengths and array sizes within the limits.\<close>

fun val_ok :: "nat \<Rightarrow> Val \<Rightarrow> bool" where
  "val_ok d VNil = (d \<le> kMaxDepth)"
| "val_ok d (VInt i) = (d \<le> kMaxDepth)"
| "val_ok d (VStr s) = (d \<le> kMaxDepth \<and> int (length s) < 2 ^ 32)"
| "val_ok d (VArr a) = (d \<le> kMaxDepth \<and> int (length a) \<le> uint kMaxItems \<and> list_all (val_ok (d + 1)) a)"

lemma EncodeValD_nonempty: "1 \<le> length (EncodeValD d v)"
  by (cases v) simp_all

lemma length_concat_ge: "(\<And>x. x \<in> set xs \<Longrightarrow> k \<le> length (f x)) \<Longrightarrow> k * length xs \<le> length (concat (map f xs))"
  by (induction xs) (auto simp: add_mono)

lemma unat_size32: "int (length xs) < 2 ^ 32 \<Longrightarrow> unat (size32 xs) = length xs"
  by (simp add: size32_def unat_of_nat)

lemma get_put_heads [codec_simps]:
  "GetU16 (put_le 2 a @ r) = a" "GetU32 (put_le 4 b @ r) = b" "GetI64 (put_le 8 c @ r) = c" "GetU64 (put_le 8 d @ r) = d"
  "GetU64 (put_le 8 d) = d"
  by (simp_all add: GetU16_def GetU32_def GetI64_def GetU64_def get_put_fields)

lemma DecodeVals_concat:
  assumes "\<And>v r. v \<in> set a \<Longrightarrow> DecodeValD d (EncodeValD d v @ r) = Some (v, r)"
  shows "DecodeVals d (length a) (concat (map (EncodeValD d) a) @ r) = Some (a, r)"
  using assms by (induction a) auto

lemma size32_le: "int (length xs) \<le> uint (k :: u32) \<Longrightarrow> \<not> size32 xs > k"
proof -
  assume "int (length xs) \<le> uint k"
  moreover have "uint k < 2 ^ 32" using unsigned_less [of k, where 'a = int] by simp
  ultimately have "int (length xs) < 2 ^ 32" by simp
  then have "unat (size32 xs) = length xs" by (rule unat_size32)
  moreover have "length xs \<le> unat k"
    using \<open>int (length xs) \<le> uint k\<close> by (metis nat_int nat_mono unat_eq_nat_uint)
  ultimately show "\<not> size32 xs > k" by (simp add: word_less_nat_alt not_less)
qed

lemma decode_encode_val: "val_ok d v \<Longrightarrow> DecodeValD d (EncodeValD d v @ r) = Some (v, r)"
proof (induction v arbitrary: d r)
  case (VStr s)
  then show ?case by (simp add: DecodeValD.simps codec_simps unat_size32)
next
  case (VArr a)
  have n: "unat (size32 a) = length a" and le: "\<not> size32 a > kMaxItems"
    using VArr.prems size32_le [of a kMaxItems] by (auto intro!: unat_size32 simp: kMaxItems_def)
  have "length a \<le> length (concat (map (EncodeValD (d + 1)) a))"
    using length_concat_ge [of a 1 "EncodeValD (d + 1)"] EncodeValD_nonempty by simp
  moreover have "DecodeVals (d + 1) (length a) (concat (map (EncodeValD (d + 1)) a) @ r) = Some (a, r)"
    using VArr by (intro DecodeVals_concat) (simp add: list_all_iff)
  ultimately show ?case
    using VArr.prems n le by (simp add: DecodeValD.simps codec_simps)
qed (simp_all add: DecodeValD.simps codec_simps)

section \<open>Round trip of tasks and results\<close>

lemma decode_args_concat:
  assumes "\<And>a. a \<in> set args \<Longrightarrow> int (length a) < 2 ^ 32 \<and> (case limit of None \<Rightarrow> True | Some m \<Rightarrow> int (length a) \<le> uint m)"
  shows "decode_args limit (length args) (concat (map encode_arg args) @ r) = Some (args, r)"
  using assms
proof (induction args)
  case (Cons a args)
  from Cons.prems [of a] have "unat (size32 a) = length a" "case limit of None \<Rightarrow> True | Some m \<Rightarrow> \<not> size32 a > m"
    by (auto simp: unat_size32 size32_le split: option.splits)
  with Cons show ?case by (auto simp: encode_arg_def codec_simps split: option.splits)
qed simp

definition step_ok :: "SqlStep \<Rightarrow> bool" where
  "step_ok st \<longleftrightarrow> (sq_kind st = 1 \<or> sq_kind st = 2) \<and> sint (sq_expectedAffected st) \<ge> - 1 \<and> val_ok 0 (sq_expectedData st)"

lemma length_encode_step: "encode_step st = Some b \<Longrightarrow> 15 \<le> length b"
  using EncodeValD_nonempty [of 0 "sq_expectedData st"] by (auto simp: encode_step_def split: if_splits)

lemma decode_encode_step:
  assumes "encode_step st = Some b" and "step_ok st"
  shows "decode_step (b @ r) = Some (st, r)"
proof -
  let ?args = "sq_args st"
  from assms(1) have ne: "?args \<noteq> []" and len: "int (length ?args) \<le> 65536"
    and small: "\<And>a. a \<in> set ?args \<Longrightarrow> int (length a) \<le> 1024 * 1024"
    and b: "b = [sq_kind st] @ put_le 8 (sq_expectedAffected st) @ [if sq_checkData st then 1 else 0]
        @ put_le 4 (size32 ?args) @ concat (map encode_arg ?args) @ EncodeValD 0 (sq_expectedData st)"
    by (auto simp: encode_step_def list_ex_iff not_less split: if_splits)
  have n: "unat (size32 ?args) = length ?args" using len by (intro unat_size32) simp
  have argc: "size32 ?args \<noteq> 0" "\<not> size32 ?args > 65536"
    using n ne size32_le [of ?args 65536] len by (auto simp: unat_eq_0 [symmetric])
  have enough: "length ?args * 4 \<le> length (concat (map encode_arg ?args) @ EncodeValD 0 (sq_expectedData st) @ r)"
    using length_concat_ge [of ?args 4 encode_arg] by (simp add: encode_arg_def)
  have args: "decode_args (Some (1024 * 1024)) (length ?args) (concat (map encode_arg ?args) @ EncodeValD 0 (sq_expectedData st) @ r)
      = Some (?args, EncodeValD 0 (sq_expectedData st) @ r)"
    using small by (intro decode_args_concat) fastforce
  have v: "DecodeVal (EncodeValD 0 (sq_expectedData st) @ r) = Some (sq_expectedData st, r)"
    using assms(2) by (simp add: DecodeVal_def step_ok_def decode_encode_val)
  have p: "(b @ r) ! 9 = (if sq_checkData st then 1 else 0)" "drop 10 (b @ r) = put_le 4 (size32 ?args) @ drop 14 (b @ r)"
    "drop 1 (b @ r) = put_le 8 (sq_expectedAffected st) @ drop 9 (b @ r)"
    "drop 14 (b @ r) = concat (map encode_arg ?args) @ EncodeValD 0 (sq_expectedData st) @ r"
    unfolding b by (simp_all add: nth_append)
  have "14 \<le> length (b @ r)" using length_encode_step [OF assms(1)] by simp
  moreover have "(b @ r) ! 0 = sq_kind st" by (simp add: b)
  ultimately show ?thesis
    using assms(2) argc n args v enough unfolding decode_step_def Let_def p
    by (auto simp: codec_simps step_ok_def)
qed

lemma decode_encode_each:
  "encode_each sts = Some b \<Longrightarrow> list_all step_ok sts \<Longrightarrow> decode_each (length sts) (b @ r) = Some (sts, r)"
proof (induction sts arbitrary: b)
  case (Cons st sts)
  then obtain b1 b2 where "encode_step st = Some b1" "encode_each sts = Some b2" "b = b1 @ b2"
    by (auto split: option.splits)
  with Cons show ?case by (simp add: decode_encode_step)
qed simp

lemma length_encode_each: "encode_each sts = Some b \<Longrightarrow> length sts * 15 \<le> length b"
proof (induction sts arbitrary: b)
  case (Cons st sts)
  then obtain b1 b2 where b: "encode_step st = Some b1" "encode_each sts = Some b2" "b = b1 @ b2"
    by (auto split: option.splits)
  then show ?case using Cons.IH [OF b(2)] length_encode_step [OF b(1)] by simp
qed simp

lemma decode_encode_list:
  assumes "encode_list sts = Some b" and "list_all step_ok sts" and "int (length sts) \<le> uint kMaxSteps"
  shows "decode_list (b @ r) = Some (sts, r)"
proof -
  obtain c where c: "encode_each sts = Some c" "b = put_le 4 (size32 sts) @ c"
    using assms(1) by (auto simp: encode_list_def split: option.splits)
  have "unat (size32 sts) = length sts" using assms(3) by (intro unat_size32) (simp add: kMaxSteps_def)
  then show ?thesis
    using c size32_le [OF assms(3)] length_encode_each [OF c(1)] decode_encode_each [OF c(1) assms(2), of r]
    by (simp add: decode_list_def codec_simps)
qed

text \<open>Tasks the format can carry: a transaction (kind 4 or 5) has steps and no plain arguments, any other task plain
  arguments only.\<close>

definition task_ok :: "SqlTask \<Rightarrow> bool" where
  "task_ok t \<longleftrightarrow>
     (if ta_kind t = 4 \<or> ta_kind t = 5
      then ta_args t = [] \<and> list_all step_ok (ta_steps t) \<and> list_all step_ok (ta_verification t)
      else t = empty_task\<lparr>ta_kind := ta_kind t, ta_args := ta_args t\<rparr>
        \<and> int (length (ta_args t)) \<le> uint kMaxItems \<and> list_all (\<lambda>a. int (length a) < 2 ^ 32) (ta_args t))"

lemma decode_encode_transaction:
  assumes "SqlTask_Encode t = Some s" and "task_ok t" and "ta_kind t = 4 \<or> ta_kind t = 5"
  shows "SqlTask_Decode s = Some t"
proof -
  from assms(1,3) obtain a b where a: "encode_list (ta_steps t) = Some a" and b: "encode_list (ta_verification t) = Some b"
    and lim: "ta_steps t \<noteq> []" "int (length (ta_steps t)) \<le> uint kMaxSteps" "int (length (ta_verification t)) \<le> uint kMaxSteps"
    and s: "s = put_le 2 kWireMagic @ [2, ta_kind t] @ put_le 8 (ta_playerId t) @ put_le 8 (ta_saveVersion t)
                @ put_le 8 (ta_capturedRevision t) @ put_le 8 (ta_saveLifecycleToken t) @ a @ b"
    and size: "int (length s) \<le> 32 * 1024 * 1024"
    by (auto simp: SqlTask_Encode_def Let_def split: option.splits if_splits)
  have ok: "list_all step_ok (ta_steps t)" "list_all step_ok (ta_verification t)" "ta_args t = []"
    using assms(2,3) by (auto simp: task_ok_def)
  have "decode_list (a @ b) = Some (ta_steps t, b)" "decode_list b = Some (ta_verification t, [])"
    using decode_encode_list [OF a ok(1) lim(2), of b] decode_encode_list [OF b ok(2) lim(3), of "[]"] by simp_all
  moreover have "drop 33 (drop 3 s) = a @ b" "drop 3 s ! 0 = ta_kind t" "s ! 2 = 2" "36 \<le> length s"
    "drop 1 (drop 3 s) = put_le 8 (ta_playerId t) @ drop 9 (drop 3 s)"
    "drop 9 (drop 3 s) = put_le 8 (ta_saveVersion t) @ drop 17 (drop 3 s)"
    "drop 17 (drop 3 s) = put_le 8 (ta_capturedRevision t) @ drop 25 (drop 3 s)"
    "drop 25 (drop 3 s) = put_le 8 (ta_saveLifecycleToken t) @ a @ b"
    by (simp_all add: s nth_append)
  moreover have "GetU16 s = kWireMagic" by (simp add: s codec_simps)
  ultimately show ?thesis
    using assms(3) lim(1) size ok(3) unfolding SqlTask_Decode_def Let_def
    by (auto simp: codec_simps)
qed

lemma decode_encode_plain:
  assumes "SqlTask_Encode t = Some s" and "task_ok t" and "ta_kind t \<noteq> 4" and "ta_kind t \<noteq> 5"
  shows "SqlTask_Decode s = Some t"
proof -
  let ?args = "ta_args t"
  have s: "s = put_le 2 kWireMagic @ [kWireVersion, ta_kind t] @ put_le 4 (size32 ?args) @ concat (map encode_arg ?args)"
    using assms(1,3,4) by (simp add: SqlTask_Encode_def)
  have t: "t = empty_task\<lparr>ta_kind := ta_kind t, ta_args := ?args\<rparr>" and lim: "int (length ?args) \<le> uint kMaxItems"
    and small: "list_all (\<lambda>a. int (length a) < 2 ^ 32) ?args"
    using assms(2-4) by (simp_all add: task_ok_def)
  have n: "unat (size32 ?args) = length ?args" using lim by (intro unat_size32) (simp add: kMaxItems_def)
  have "length ?args * 4 \<le> length (concat (map encode_arg ?args))"
    using length_concat_ge [of ?args 4 encode_arg] by (simp add: encode_arg_def)
  moreover have "decode_args None (length ?args) (concat (map encode_arg ?args)) = Some (?args, [])"
    using decode_args_concat [of ?args None "[]"] small by (simp add: list_all_iff)
  moreover have "drop 1 (drop 3 s) = put_le 4 (size32 ?args) @ concat (map encode_arg ?args)"
    "drop 5 (drop 3 s) = concat (map encode_arg ?args)" "drop 3 s ! 0 = ta_kind t" "s ! 2 = 1" "8 \<le> length s"
    by (simp_all add: s nth_append kWireVersion_def)
  moreover have "GetU16 s = kWireMagic" by (simp add: s codec_simps)
  ultimately show ?thesis
    using n size32_le [OF lim] t unfolding SqlTask_Decode_def Let_def
    by (simp add: codec_simps kWireVersion_def)
qed

text \<open>Round trip of database tasks: whatever task the logic thread manages to encode (the encoder throws on
  invalid step counts, arguments or sizes), the database thread decodes to exactly that task, for transactions with
  their steps, expectations and save identity as for plain statements and commands.\<close>

theorem db_task_roundtrip:
  assumes "SqlTask_Encode t = Some s" and "task_ok t"
  shows "SqlTask_Decode s = Some t"
  using decode_encode_transaction [OF assms] decode_encode_plain [OF assms] by blast

definition demo_task :: SqlTask where
  "demo_task = empty_task\<lparr>ta_kind := 5, ta_playerId := 7, ta_saveVersion := 3,
     ta_steps := [empty_step\<lparr>sq_args := [[85], [49, 50]], sq_expectedAffected := 1\<rparr>],
     ta_verification := [empty_step\<lparr>sq_kind := 1, sq_args := [[83]], sq_checkData := True,
        sq_expectedData := VArr [VArr [VInt 5, VStr [65], VNil]]\<rparr>]\<rparr>"

theorem db_task_roundtrip_witness:
  "\<exists>s. SqlTask_Encode demo_task = Some s \<and> 36 < length s \<and> SqlTask_Decode s = Some demo_task"
proof -
  have "case SqlTask_Encode demo_task of None \<Rightarrow> False | Some s \<Rightarrow> 36 < length s" by code_simp
  then obtain s where s: "SqlTask_Encode demo_task = Some s" "36 < length s" by (auto split: option.splits)
  have "task_ok demo_task"
    by (simp add: task_ok_def demo_task_def empty_task_def empty_step_def step_ok_def kMaxDepth_def kMaxItems_def)
  from db_task_roundtrip [OF s(1) this] s show ?thesis by blast
qed

section \<open>Round trip of results\<close>

lemma class_roundtrip: "class_of_code (class_code c) = Some c"
  by (cases c) (simp_all add: class_of_code_def class_code_def)

lemma decode_encode_tail:
  "decode_tail 3 r ([class_code c] @ put_le 4 n @ put_le 8 a @ put_le 8 b @ put_le 8 d @ put_le 8 e) =
     Some (r\<lparr>re_classification := c, re_nativeError := n, re_playerId := a, re_saveVersion := b,
       re_capturedRevision := d, re_saveLifecycleToken := e\<rparr>)"
  by (simp add: decode_tail_def class_roundtrip codec_simps)

text \<open>Round trip of database results: a result with a value the format can carry comes back unchanged, except that
  a result with an error code never arrives as a success, exactly when its error message fits
  \<open>kMaxErrMsg\<close>; a result with a longer message is encoded all the same and then refused by the receiver.\<close>

theorem db_result_roundtrip:
  assumes "val_ok 0 (re_data r)" and "int (length (re_errmsg r)) < 2 ^ 32"
  shows "DbResult_Decode (DbResult_Encode r) =
    (if int (length (re_errmsg r)) \<le> uint kMaxErrMsg then Some (r\<lparr>re_classification := sent_class r\<rparr>) else None)"
proof -
  let ?msg = "re_errmsg r" let ?s = "DbResult_Encode r"
  let ?tail = "[class_code (sent_class r)] @ put_le 4 (re_nativeError r) @ put_le 8 (re_playerId r)
     @ put_le 8 (re_saveVersion r) @ put_le 8 (re_capturedRevision r) @ put_le 8 (re_saveLifecycleToken r)"
  have n: "unat (size32 ?msg) = length ?msg" using assms(2) by (rule unat_size32)
  have p: "drop 3 ?s = put_le 4 (re_errcode r) @ drop 7 ?s" "drop 7 ?s = put_le 4 (size32 ?msg) @ drop 11 ?s"
    "drop 11 ?s = ?msg @ EncodeValD 0 (re_data r) @ ?tail" "?s ! 2 = 3" "11 \<le> length ?s"
    by (simp_all add: DbResult_Encode_def nth_append)
  have m: "GetU16 ?s = kWireMagic" by (simp add: DbResult_Encode_def codec_simps)
  have v: "DecodeVal (EncodeValD 0 (re_data r) @ ?tail) = Some (re_data r, ?tail)"
    using assms(1) by (simp only: DecodeVal_def decode_encode_val)
  show ?thesis
  proof (cases "int (length ?msg) \<le> uint kMaxErrMsg")
    case True
    have "\<not> GetU32 (drop 7 ?s) > kMaxErrMsg" "unat (GetU32 (drop 7 ?s)) = length ?msg" "GetU32 (drop 3 ?s) = re_errcode r"
      using size32_le [OF True] n by (subst p; simp add: codec_simps)+
    moreover have "drop (length ?msg) (drop 11 ?s) = EncodeValD 0 (re_data r) @ ?tail" "take (length ?msg) (drop 11 ?s) = ?msg"
      by (simp_all add: p(3))
    moreover have "length ?msg \<le> length (drop 11 ?s)" by (subst p(3)) simp
    ultimately show ?thesis
      using True p(4,5) m v unfolding DbResult_Decode_def Let_def
      by (simp add: decode_encode_tail empty_result_def del: drop_drop append.simps)
  next
    case False
    then have "size32 ?msg > kMaxErrMsg" using n by (simp add: word_less_nat_alt kMaxErrMsg_def)
    then have "GetU32 (drop 7 ?s) > kMaxErrMsg" by (subst p) (simp add: codec_simps)
    with False p(4,5) m show ?thesis unfolding DbResult_Decode_def Let_def by simp
  qed
qed

theorem db_result_roundtrip_witness:
  "DbResult_Decode (DbResult_Encode (empty_result\<lparr>re_errcode := 7, re_data := VArr [VInt 4]\<rparr>)) =
     Some (empty_result\<lparr>re_errcode := 7, re_data := VArr [VInt 4], re_classification := kFailure\<rparr>)"
  using db_result_roundtrip [of "empty_result\<lparr>re_errcode := 7, re_data := VArr [VInt 4]\<rparr>"]
  by (simp add: empty_result_def sent_class_def kMaxDepth_def kMaxItems_def kMaxErrMsg_def)

end
