(* ===== verification/Transaction.thy ===== *)
theory Transaction
  imports Actions Strings DbValue "HOL-Library.Multiset"
begin

text \<open>
  Transactions of the database thread, sceneServer/src-cpp/db/transactionExecutor.h, and their bounded retries,
  db/transactionRetries.h. The backend, an abstract class that drives the MySQL client library, is a
  parameter: four actions on a world of their own that may throw. \<open>execute\<close> and \<open>commit\<close> get the result object of the
  previous call, as in the code, where they overwrite it.
\<close>

section \<open>Backend and steps\<close>

record 'w TransactionBackend =
  tb_begin :: "DbResult \<Rightarrow> ('w, DbResult) act"
  tb_execute :: "SqlStep \<Rightarrow> DbResult \<Rightarrow> ('w, DbResult) act"
  tb_commit :: "DbResult \<Rightarrow> ('w, DbResult) act"
  tb_rollback :: "('w, bool) act"

function equalValue :: "Val \<Rightarrow> Val \<Rightarrow> bool" where
  "equalValue VNil VNil = True"
| "equalValue (VInt a) (VInt b) = (a = b)"
| "equalValue (VStr a) (VStr b) = (a = b)"
| "equalValue (VArr a) (VArr b) = (length a = length b \<and> list_all (\<lambda>(x, y). equalValue x y) (zip a b))"
| "equalValue VNil (VInt _) = False" | "equalValue VNil (VStr _) = False" | "equalValue VNil (VArr _) = False"
| "equalValue (VInt _) VNil = False" | "equalValue (VInt _) (VStr _) = False" | "equalValue (VInt _) (VArr _) = False"
| "equalValue (VStr _) VNil = False" | "equalValue (VStr _) (VInt _) = False" | "equalValue (VStr _) (VArr _) = False"
| "equalValue (VArr _) VNil = False" | "equalValue (VArr _) (VInt _) = False" | "equalValue (VArr _) (VStr _) = False"
  by pat_completeness auto
termination
  by (relation "measure (size \<circ> fst)") (auto dest!: set_zip_leftD simp: less_Suc_eq_le size_list_estimation')

definition blanks :: bytes where
  "blanks = [32, 9, 13, 10]"

definition validStep :: "SqlStep \<Rightarrow> bool" where
  "validStep st =
     (if sq_args st = [] \<or> hd (sq_args st) = [] \<or> sint (sq_expectedAffected st) < - 1
         \<or> (sq_kind st \<noteq> 1 \<and> sq_kind st \<noteq> 2) \<or> (sq_kind st = 1 \<and> sq_expectedAffected st \<noteq> - 1) then False
      else let sql = hd (sq_args st); rest = dropWhile (\<lambda>b. b \<in> set blanks) sql
      in if rest = [] \<or> 59 \<in> set sql then False
         else let verb = map toupper (takeWhile isalpha rest)
         in if sq_kind st = 1 then verb = ascii ''SELECT''
            else verb = ascii ''INSERT'' \<or> verb = ascii ''UPDATE'' \<or> verb = ascii ''DELETE'')"

section \<open>Executing a transaction\<close>

definition failed :: "ResultClass \<Rightarrow> string \<Rightarrow> DbResult \<Rightarrow> DbResult" where
  "failed kind message out = out\<lparr>re_errcode := 1010, re_errmsg := ascii message, re_classification := kind\<rparr>"

definition copyError :: "DbResult \<Rightarrow> DbResult \<Rightarrow> DbResult" where
  "copyError result out = out\<lparr>re_errcode := re_errcode result, re_errmsg := re_errmsg result,
     re_classification := (if re_classification result = kSuccess then kFailure else re_classification result),
     re_nativeError := re_nativeError result\<rparr>"

definition tx_abort :: "'w TransactionBackend \<Rightarrow> DbResult \<Rightarrow> ('w, DbResult) act" where
  "tx_abort be out = act_bind (tb_rollback be) (\<lambda>ok.
     act_return (if ok then out
       else out\<lparr>re_errcode := 1011, re_errmsg := re_errmsg out @ ascii ''; rollback not confirmed'',
                re_classification := kOutcomeUnknown\<rparr>))"

text \<open>The comparison of an already stored version with the task, which ends in a rollback.\<close>

fun replay :: "'w TransactionBackend \<Rightarrow> DbResult \<Rightarrow> DbResult \<Rightarrow> SqlStep list \<Rightarrow> ('w, DbResult) act" where
  "replay be out prev [] = tx_abort be out"
| "replay be out prev (st # sts) = act_bind (tb_execute be st prev) (\<lambda>result.
     if re_errcode result \<noteq> 0 then tx_abort be (copyError result out)
     else if \<not> equalValue (re_data result) (sq_expectedData st)
     then tx_abort be (failed kVersionConflict ''same save_version has different persistent payload'' out)
     else replay be out result sts)"

definition affected_mismatch :: "SqlStep \<Rightarrow> DbResult \<Rightarrow> bool" where
  "affected_mismatch st result \<longleftrightarrow> sint (sq_expectedAffected st) \<ge> 0 \<and>
     (case re_data result of VArr (VInt n # _) \<Rightarrow> n \<noteq> sq_expectedAffected st | _ \<Rightarrow> True)"

fun apply_steps :: "'w TransactionBackend \<Rightarrow> DbResult \<Rightarrow> DbResult \<Rightarrow> Val list \<Rightarrow> SqlStep list \<Rightarrow> ('w, DbResult) act" where
  "apply_steps be out prev results [] = act_bind (tb_commit be prev) (\<lambda>result.
     if re_errcode result \<noteq> 0 then tx_abort be (copyError result out)
     else act_return (out\<lparr>re_data := VArr results\<rparr>))"
| "apply_steps be out prev results (st # sts) = act_bind (tb_execute be st prev) (\<lambda>result.
     if re_errcode result \<noteq> 0 then tx_abort be (copyError result out)
     else if affected_mismatch st result
     then tx_abort be (failed kBusinessRejected ''affected row precondition failed'' out)
     else if sq_checkData st \<and> \<not> equalValue (re_data result) (sq_expectedData st)
     then tx_abort be (failed kBusinessRejected ''SQL result precondition failed'' out)
     else apply_steps be out result (results @ [re_data result]) sts)"

definition lock_step :: "SqlTask \<Rightarrow> SqlStep" where
  "lock_step t = empty_step\<lparr>sq_kind := 1,
     sq_args := [ascii ''SELECT save_version FROM player WHERE id=? FOR UPDATE'', to_string (unat (ta_playerId t))]\<rparr>"

text \<open>The version the lock query returned, if its shape is the expected one.\<close>

definition stored_version :: "DbResult \<Rightarrow> u64 option" where
  "stored_version result = (case re_data result of VArr [VArr [VInt v]] \<Rightarrow> if sint v < 0 then None else Some v | _ \<Rightarrow> None)"

definition tx_body :: "'w TransactionBackend \<Rightarrow> SqlTask \<Rightarrow> DbResult \<Rightarrow> DbResult \<Rightarrow> ('w, DbResult) act" where
  "tx_body be t out prev =
     (if ta_kind t = 5
      then act_bind (tb_execute be (lock_step t) prev) (\<lambda>result.
        if re_errcode result \<noteq> 0 then tx_abort be (copyError result out)
        else case stored_version result of
          None \<Rightarrow> tx_abort be (failed kVersionConflict
                   ''player row missing or invalid; creation requires explicit provisioning'' out)
        | Some v \<Rightarrow>
            if v > ta_saveVersion t then tx_abort be (out\<lparr>re_classification := kSuperseded\<rparr>)
            else if v = ta_saveVersion t then replay be out result (ta_verification t)
            else apply_steps be out result [] (ta_steps t))
      else apply_steps be out prev [] (ta_steps t))"

definition task_refused :: "SqlTask \<Rightarrow> string option" where
  "task_refused t =
     (if (ta_kind t \<noteq> 4 \<and> ta_kind t \<noteq> 5) \<or> ta_steps t = [] \<or> int (length (ta_steps t)) > 65540
         \<or> ta_args t \<noteq> [] \<or> (ta_kind t = 4 \<and> ta_verification t \<noteq> []) then Some ''invalid transaction request''
      else if list_ex (\<lambda>st. \<not> validStep st) (ta_steps t) then Some ''transaction accepts parameterized DML only''
      else if list_ex (\<lambda>st. \<not> validStep st \<or> sq_kind st \<noteq> 1 \<or> \<not> sq_checkData st) (ta_verification t)
      then Some ''invalid snapshot verification''
      else if ta_kind t = 5 \<and> (ta_playerId t = 0 \<or> ta_saveVersion t = 0 \<or> ta_playerId t > 0x7FFFFFFFFFFFFFFF
              \<or> ta_saveVersion t > 0x7FFFFFFFFFFFFFFF \<or> length (ta_verification t) \<noteq> 3)
      then Some ''invalid snapshot identity/version''
      else None)"

definition result_for :: "SqlTask \<Rightarrow> DbResult" where
  "result_for t = empty_result\<lparr>re_playerId := ta_playerId t, re_saveVersion := ta_saveVersion t,
     re_capturedRevision := ta_capturedRevision t, re_saveLifecycleToken := ta_saveLifecycleToken t\<rparr>"

definition executeTransaction :: "SqlTask \<Rightarrow> 'w TransactionBackend \<Rightarrow> ('w, DbResult) act" where
  "executeTransaction t be =
     (let out = result_for t
      in case task_refused t of
        Some message \<Rightarrow> act_return (failed kFailure message out)
      | None \<Rightarrow>
          act_bind (tb_begin be empty_result) (\<lambda>result.
            if re_errcode result \<noteq> 0 then act_return (copyError result out)
            else act_catch (tx_body be t out result) (\<lambda>e. act_bind (tb_rollback be) (\<lambda>_. act_throw e))))"

lemma equalValue_eq: "equalValue a b \<longleftrightarrow> a = b"
proof (induction a b rule: equalValue.induct)
  case (4 a b)
  have "list_all (\<lambda>(x, y). equalValue x y) (zip a b) \<longleftrightarrow> list_all (\<lambda>(x, y). x = y) (zip a b)"
    using 4 by (auto simp: list_all_iff)
  moreover have "length a = length b \<Longrightarrow> list_all (\<lambda>(x, y). x = y) (zip a b) \<longleftrightarrow> a = b"
    by (induction a b rule: list_induct2) auto
  ultimately show ?case by auto
qed auto

section \<open>What the backend promises\<close>

text \<open>
  The documented behaviour of an InnoDB connection, for a database content \<open>'d\<close>: \<open>durable\<close> is what is committed,
  \<open>working\<close> what the open transaction sees. Beginning starts from the committed content, a statement changes
  only the open transaction and a query reads it, a successful commit makes it durable, a failed or throwing commit did so or
  did not, and a rollback never changes what is committed.
\<close>

definition backend_contract :: "'w TransactionBackend \<Rightarrow> ('w \<Rightarrow> 'd) \<Rightarrow> ('w \<Rightarrow> 'd) \<Rightarrow> (SqlStep \<Rightarrow> 'd \<Rightarrow> 'd)
    \<Rightarrow> (SqlStep \<Rightarrow> 'd \<Rightarrow> Val) \<Rightarrow> bool" where
  "backend_contract be durable working effect query \<longleftrightarrow>
     (\<forall>prev w. act_ensures (tb_begin be prev) w
        (\<lambda>r w'. durable w' = durable w \<and> (re_errcode r = 0 \<longrightarrow> working w' = durable w)) (\<lambda>_ w'. durable w' = durable w))
   \<and> (\<forall>st prev w. act_ensures (tb_execute be st prev) w
        (\<lambda>r w'. durable w' = durable w \<and> (re_errcode r = 0 \<longrightarrow> working w' = effect st (working w)
            \<and> (sq_kind st = 1 \<longrightarrow> re_data r = query st (working w))))
        (\<lambda>_ w'. durable w' = durable w))
   \<and> (\<forall>prev w. act_ensures (tb_commit be prev) w
        (\<lambda>r w'. if re_errcode r = 0 then durable w' = working w else durable w' = durable w \<or> durable w' = working w)
        (\<lambda>_ w'. durable w' = durable w \<or> durable w' = working w))
   \<and> (\<forall>w. act_ensures (tb_rollback be) w (\<lambda>_ w'. durable w' = durable w) (\<lambda>_ w'. durable w' = durable w))
   \<and> (\<forall>st d. sq_kind st = 1 \<longrightarrow> effect st d = d)"

definition success :: "DbResult \<Rightarrow> bool" where
  "success r \<longleftrightarrow> re_errcode r = 0 \<and> re_classification r = kSuccess"

lemma success_simps [simp]:
  "re_errcode result \<noteq> 0 \<Longrightarrow> \<not> success (copyError result out)" "\<not> success (failed k m out)"
  "\<not> success (out\<lparr>re_classification := kSuperseded\<rparr>)" "success (out\<lparr>re_data := v\<rparr>) = success out"
  by (simp_all add: success_def copyError_def failed_def)

lemma contractD:
  assumes "backend_contract be durable working effect query"
  shows "act_ensures (tb_begin be prev) w
      (\<lambda>r w'. durable w' = durable w \<and> (re_errcode r = 0 \<longrightarrow> working w' = durable w)) (\<lambda>_ w'. durable w' = durable w)"
    and "act_ensures (tb_execute be st prev) w
      (\<lambda>r w'. durable w' = durable w \<and> (re_errcode r = 0 \<longrightarrow> working w' = effect st (working w)
          \<and> (sq_kind st = 1 \<longrightarrow> re_data r = query st (working w)))) (\<lambda>_ w'. durable w' = durable w)"
    and "act_ensures (tb_commit be prev) w
      (\<lambda>r w'. if re_errcode r = 0 then durable w' = working w else durable w' = durable w \<or> durable w' = working w)
      (\<lambda>_ w'. durable w' = durable w \<or> durable w' = working w)"
    and "act_ensures (tb_rollback be) w (\<lambda>_ w'. durable w' = durable w) (\<lambda>_ w'. durable w' = durable w)"
    and "sq_kind st = 1 \<Longrightarrow> effect st x = x"
  using assms unfolding backend_contract_def by blast+

lemma contract_abort:
  assumes "backend_contract be durable working effect query"
  shows "act_ensures (tx_abort be out) w (\<lambda>r w'. durable w' = durable w \<and> (success r \<longrightarrow> r = out)) (\<lambda>_ w'. durable w' = durable w)"
  unfolding tx_abort_def
  by (intro ensures_bind ensures_weaken [OF contractD(4) [OF assms]]) (auto intro!: act_intros simp: success_def)

lemmas ensures_abort = ensures_weaken [OF contract_abort]

lemma ensures_execute:
  assumes "backend_contract be durable working effect query"
    and "\<And>r w'. durable w' = durable w \<Longrightarrow> (re_errcode r = 0 \<longrightarrow> working w' = effect st (working w)
           \<and> (sq_kind st = 1 \<longrightarrow> re_data r = query st (working w))) \<Longrightarrow> act_ensures (k r) w' Q E"
    and "\<And>e w'. durable w' = durable w \<Longrightarrow> E e w'"
  shows "act_ensures (act_bind (tb_execute be st prev) k) w Q E"
  by (intro ensures_bind ensures_weaken [OF contractD(2) [OF assms(1)]]) (use assms(2,3) in blast)+

lemma ensures_apply_steps:
  assumes c: "backend_contract be durable working effect query"
  shows "act_ensures (apply_steps be out prev results sts) w
      (\<lambda>r w'. (success r \<longrightarrow> durable w' = fold effect sts (working w))
          \<and> durable w' \<in> {durable w, fold effect sts (working w)})
      (\<lambda>_ w'. durable w' \<in> {durable w, fold effect sts (working w)})"
proof (induction sts arbitrary: prev results w)
  case Nil
  show ?case
    unfolding apply_steps.simps
    by (intro ensures_bind ensures_weaken [OF contractD(3) [OF c]])
      (auto intro!: act_intros ensures_abort [OF c] split: if_splits)
next
  case (Cons st sts)
  show ?case
    unfolding apply_steps.simps
  proof (rule ensures_execute [OF c])
    fix r :: DbResult and w'
    assume w': "durable w' = durable w"
      "re_errcode r = 0 \<longrightarrow> working w' = effect st (working w) \<and> (sq_kind st = 1 \<longrightarrow> re_data r = query st (working w))"
    show "act_ensures (if re_errcode r \<noteq> 0 then tx_abort be (copyError r out)
        else if affected_mismatch st r
        then tx_abort be (failed kBusinessRejected ''affected row precondition failed'' out)
        else if sq_checkData st \<and> \<not> equalValue (re_data r) (sq_expectedData st)
        then tx_abort be (failed kBusinessRejected ''SQL result precondition failed'' out)
        else apply_steps be out r (results @ [re_data r]) sts) w'
      (\<lambda>r w'. (success r \<longrightarrow> durable w' = fold effect (st # sts) (working w))
          \<and> durable w' \<in> {durable w, fold effect (st # sts) (working w)})
      (\<lambda>_ w'. durable w' \<in> {durable w, fold effect (st # sts) (working w)})"
      using w' by (intro act_intros ensures_abort [OF c] ensures_weaken [OF Cons.IH]) auto
  qed auto
qed

lemma ensures_replay:
  assumes c: "backend_contract be durable working effect query"
  shows "list_all (\<lambda>st. sq_kind st = 1) sts \<Longrightarrow>
    act_ensures (replay be out prev sts) w
      (\<lambda>r w'. durable w' = durable w \<and> (success r \<longrightarrow> list_all (\<lambda>st. query st (working w) = sq_expectedData st) sts))
      (\<lambda>_ w'. durable w' = durable w)"
proof (induction sts arbitrary: prev w)
  case Nil
  then show ?case by (auto intro!: ensures_abort [OF c])
next
  case (Cons st sts)
  then have st: "sq_kind st = 1" and sts: "list_all (\<lambda>st. sq_kind st = 1) sts" by auto
  show ?case
    unfolding replay.simps
  proof (rule ensures_execute [OF c])
    fix r :: DbResult and w'
    assume w': "durable w' = durable w"
      "re_errcode r = 0 \<longrightarrow> working w' = effect st (working w) \<and> (sq_kind st = 1 \<longrightarrow> re_data r = query st (working w))"
    show "act_ensures (if re_errcode r \<noteq> 0 then tx_abort be (copyError r out)
        else if \<not> equalValue (re_data r) (sq_expectedData st)
        then tx_abort be (failed kVersionConflict ''same save_version has different persistent payload'' out)
        else replay be out r sts) w'
      (\<lambda>r w'. durable w' = durable w
          \<and> (success r \<longrightarrow> list_all (\<lambda>st. query st (working w) = sq_expectedData st) (st # sts)))
      (\<lambda>_ w'. durable w' = durable w)"
      using w' st contractD(5) [OF c st, of "working w"]
      by (intro act_intros ensures_abort [OF c] ensures_weaken [OF Cons.IH [OF sts]]) (auto simp: equalValue_eq)
  qed auto
qed

section \<open>A transaction happens wholly or not at all\<close>

text \<open>What a successful result says: the steps are durable, or the same version was stored and has the task's content.\<close>

definition confirmed :: "(SqlStep \<Rightarrow> 'd \<Rightarrow> 'd) \<Rightarrow> (SqlStep \<Rightarrow> 'd \<Rightarrow> Val) \<Rightarrow> SqlTask \<Rightarrow> 'd \<Rightarrow> 'd \<Rightarrow> bool" where
  "confirmed effect query t before after \<longleftrightarrow>
     after = fold effect (ta_steps t) before
     \<or> (ta_kind t = 5 \<and> after = before \<and> query (lock_step t) before = VArr [VArr [VInt (ta_saveVersion t)]]
         \<and> list_all (\<lambda>st. query st before = sq_expectedData st) (ta_verification t))"

definition atomic :: "(SqlStep \<Rightarrow> 'd \<Rightarrow> 'd) \<Rightarrow> SqlTask \<Rightarrow> 'd \<Rightarrow> 'd \<Rightarrow> bool" where
  "atomic effect t before after \<longleftrightarrow> after = before \<or> after = fold effect (ta_steps t) before"

lemma atomic_refl [simp]: "atomic effect t d d" by (simp add: atomic_def)

lemma confirmed_replay:
  "ta_kind t = 5 \<Longrightarrow> VArr [VArr [VInt (ta_saveVersion t)]] = query (lock_step t) d \<Longrightarrow>
   list_all (\<lambda>st. query st d = sq_expectedData st) (ta_verification t) \<Longrightarrow> confirmed effect query t d d"
  by (simp add: confirmed_def)

lemma stored_version_shape: "stored_version r = Some v \<Longrightarrow> re_data r = VArr [VArr [VInt v]]"
  by (auto simp: stored_version_def split: Val.splits list.splits if_splits)

lemma task_accepted_verification: "task_refused t = None \<Longrightarrow> list_all (\<lambda>st. sq_kind st = 1) (ta_verification t)"
  by (auto simp: task_refused_def list_ex_iff list_all_iff split: if_splits)

lemma ensures_apply_task:
  assumes c: "backend_contract be durable working effect query" and w: "working w' = durable w" "durable w' = durable w"
  shows "act_ensures (apply_steps be out prev results (ta_steps t)) w'
      (\<lambda>r w''. atomic effect t (durable w) (durable w'')
          \<and> (success r \<longrightarrow> confirmed effect query t (durable w) (durable w'')))
      (\<lambda>_ w''. atomic effect t (durable w) (durable w''))"
  using w by (intro ensures_weaken [OF ensures_apply_steps [OF c]]) (auto simp: confirmed_def atomic_def)

lemma ensures_tx_body:
  assumes c: "backend_contract be durable working effect query" and t: "task_refused t = None"
    and w: "working w' = durable w" "durable w' = durable w"
  shows "act_ensures (tx_body be t out prev) w'
      (\<lambda>r w''. atomic effect t (durable w) (durable w'')
          \<and> (success r \<longrightarrow> confirmed effect query t (durable w) (durable w'')))
      (\<lambda>_ w''. atomic effect t (durable w) (durable w''))"
proof (cases "ta_kind t = 5")
  case True
  have lock: "sq_kind (lock_step t) = 1" by (simp add: lock_step_def)
  show ?thesis
    unfolding tx_body_def if_P [OF True]
  proof (rule ensures_execute [OF c])
    fix r :: DbResult and w''
    assume "durable w'' = durable w'" and "re_errcode r = 0 \<longrightarrow> working w'' = effect (lock_step t) (working w')
      \<and> (sq_kind (lock_step t) = 1 \<longrightarrow> re_data r = query (lock_step t) (working w'))"
    then have *: "durable w'' = durable w" "re_errcode r = 0 \<Longrightarrow> working w'' = durable w \<and> re_data r = query (lock_step t) (durable w)"
      using w lock contractD(5) [OF c lock] by auto
    show "act_ensures (if re_errcode r \<noteq> 0 then tx_abort be (copyError r out)
        else case stored_version r of
          None \<Rightarrow> tx_abort be (failed kVersionConflict
                   ''player row missing or invalid; creation requires explicit provisioning'' out)
        | Some v \<Rightarrow>
            if v > ta_saveVersion t then tx_abort be (out\<lparr>re_classification := kSuperseded\<rparr>)
            else if v = ta_saveVersion t then replay be out r (ta_verification t)
            else apply_steps be out r [] (ta_steps t)) w''
      (\<lambda>r w''. atomic effect t (durable w) (durable w'')
          \<and> (success r \<longrightarrow> confirmed effect query t (durable w) (durable w'')))
      (\<lambda>_ w''. atomic effect t (durable w) (durable w''))"
      using * True
      by (auto split: option.split intro!: act_intros ensures_abort [OF c] ensures_apply_task [OF c]
          ensures_weaken [OF ensures_replay [OF c task_accepted_verification [OF t]]]
          dest!: stored_version_shape intro: confirmed_replay)
  qed (use w in auto)
next
  case False
  then show ?thesis unfolding tx_body_def by (auto intro!: ensures_apply_task [OF c] w)
qed

lemma ensures_executeTransaction:
  assumes c: "backend_contract be durable working effect query"
  shows "act_ensures (executeTransaction t be) w
      (\<lambda>r w'. atomic effect t (durable w) (durable w')
          \<and> (success r \<longrightarrow> confirmed effect query t (durable w) (durable w')))
      (\<lambda>_ w'. atomic effect t (durable w) (durable w'))"
proof (cases "task_refused t")
  case (Some m)
  then show ?thesis by (auto simp: executeTransaction_def Let_def intro!: act_intros)
next
  case None
  have catch: "act_ensures (act_catch (tx_body be t out r) (\<lambda>e. act_bind (tb_rollback be) (\<lambda>_. act_throw e))) w'
      (\<lambda>r w'. atomic effect t (durable w) (durable w')
          \<and> (success r \<longrightarrow> confirmed effect query t (durable w) (durable w')))
      (\<lambda>_ w'. atomic effect t (durable w) (durable w'))"
    if "working w' = durable w" "durable w' = durable w" for out r w'
    by (rule ensures_catch, rule ensures_weaken [OF ensures_tx_body [OF c None that]], assumption)
      (rule ensures_bind, rule ensures_weaken [OF contractD(4) [OF c]], auto intro!: act_intros)
  show ?thesis
    unfolding executeTransaction_def Let_def None option.case
    by (intro ensures_bind ensures_weaken [OF contractD(1) [OF c]]) (auto intro!: act_intros catch)
qed

text \<open>
  C9. A transaction happens wholly or not at all. On every outcome of \<open>executeTransaction\<close>, an exception and
  an unconfirmed commit included, what is committed is what was committed before or that with every step of the task
  applied in order; and a result that reports success says that all steps are durable or, for a snapshot
  whose version is already stored, that the stored rows equal the rows the task writes.
\<close>

theorem transaction_all_or_nothing:
  assumes "backend_contract be durable working effect query" and "executeTransaction t be w = (outcome, w')"
  shows "atomic effect t (durable w) (durable w')
    \<and> (\<forall>r. outcome = Inr r \<and> success r \<longrightarrow> confirmed effect query t (durable w) (durable w'))"
  using ensures_executeTransaction [OF assms(1), of t w] assms(2)
  by (auto simp: act_ensures_def split: sum.splits)

text \<open>A backend in memory: the content is the log of the statements, a query counts them, a commit may be lost.\<close>

definition log_effect :: "SqlStep \<Rightarrow> bytes list list \<Rightarrow> bytes list list" where
  "log_effect st d = (if sq_kind st = 1 then d else d @ [sq_args st])"

definition log_query :: "SqlStep \<Rightarrow> bytes list list \<Rightarrow> Val" where
  "log_query st d = VArr [VArr [VInt (of_nat (length d))]]"

definition log_backend :: "(bytes list list \<times> bytes list list) TransactionBackend" where
  "log_backend = \<lparr>tb_begin = \<lambda>_ (d, x). (Inr empty_result, d, d),
     tb_execute = \<lambda>st _ (d, x). (Inr (empty_result\<lparr>re_data := if sq_kind st = 1 then log_query st x else VArr [VInt 1]\<rparr>),
       d, log_effect st x),
     tb_commit = \<lambda>_ (d, x). (Inr empty_result, x, x),
     tb_rollback = \<lambda>(d, x). (Inr True, d, d)\<rparr>"

definition delete_rows :: SqlTask where
  "delete_rows = empty_task\<lparr>ta_kind := 4,
     ta_steps := [empty_step\<lparr>sq_args := [ascii ''DELETE FROM t''], sq_expectedAffected := 1\<rparr>]\<rparr>"

lemma log_backend_contract: "backend_contract log_backend fst snd log_effect log_query"
  by (auto simp: backend_contract_def log_backend_def act_ensures_def log_effect_def empty_result_def)

theorem transaction_all_or_nothing_witness:
  "fst (executeTransaction delete_rows log_backend ([], [])) = Inr (empty_result\<lparr>re_data := VArr [VArr [VInt 1]]\<rparr>)
   \<and> confirmed log_effect log_query delete_rows [] [[ascii ''DELETE FROM t'']]"
proof -
  have run: "executeTransaction delete_rows log_backend ([], [])
      = (Inr (empty_result\<lparr>re_data := VArr [VArr [VInt 1]]\<rparr>), [[ascii ''DELETE FROM t'']], [[ascii ''DELETE FROM t'']])"
    by code_simp
  show ?thesis
    using transaction_all_or_nothing [OF log_backend_contract run] by (simp add: run success_def empty_result_def)
qed

section \<open>Bounded retries\<close>

text \<open>
  \<open>TransactionRetries\<close>. The two callbacks are parameters on a world of their own: \<open>execute\<close> runs a task, \<open>complete\<close> is
  told the final result of a request. Times are milliseconds of the clock, far from the end of \<open>int64_t\<close>.
\<close>

record RetryEntry =
  en_request :: Msg
  en_task :: SqlTask
  en_attempts :: u32
  en_nextAt :: int

definition kRetryCapacity :: nat where "kRetryCapacity = 1024"
definition kMaxAttempts :: u32 where "kMaxAttempts = 3"

definition retries_schedule :: "Msg \<Rightarrow> SqlTask \<Rightarrow> DbResult \<Rightarrow> u32 \<Rightarrow> int \<Rightarrow> RetryEntry list \<Rightarrow> bool \<times> RetryEntry list" where
  "retries_schedule request t result attempts now entries =
     (if (ta_kind t \<noteq> 4 \<and> ta_kind t \<noteq> 5) \<or> re_classification result \<noteq> kRetryable
         \<or> attempts = 0 \<or> attempts \<ge> kMaxAttempts \<or> length entries \<ge> kRetryCapacity then (False, entries)
      else (True, entries @ [\<lparr>en_request = request, en_task = t, en_attempts = attempts,
                              en_nextAt = now + 100 * 2 ^ unat (attempts - 1)\<rparr>]))"

text \<open>
  The loop of \<open>tick\<close>: \<open>before\<close> are the entries the iterator passed, the third list those from the iterator on.
\<close>

function retries_loop :: "int \<Rightarrow> (SqlTask \<Rightarrow> 'w \<Rightarrow> DbResult \<times> 'w) \<Rightarrow> (Msg \<Rightarrow> DbResult \<Rightarrow> 'w \<Rightarrow> 'w) \<Rightarrow> nat
    \<Rightarrow> RetryEntry list \<Rightarrow> RetryEntry list \<Rightarrow> 'w \<Rightarrow> RetryEntry list \<times> 'w" where
  "retries_loop now execute complete budget before [] w = (before, w)"
| "retries_loop now execute complete budget before (e # rest) w =
     (if budget = 0 then (before @ e # rest, w)
      else if now < en_nextAt e then retries_loop now execute complete budget (before @ [e]) rest w
      else let (result, w') = execute (en_task e) w;
               (scheduled, entries) = retries_schedule (en_request e) (en_task e) result (en_attempts e + 1) now (before @ rest)
           in retries_loop now execute complete (budget - 1) [] entries
                (if scheduled then w' else complete (en_request e) result w'))"
  by pat_completeness auto
termination
  by (relation "measures [\<lambda>(now, ex, co, budget, before, rest, w). budget, \<lambda>(now, ex, co, budget, before, rest, w). length rest]")
    auto

definition retries_tick :: "int \<Rightarrow> (SqlTask \<Rightarrow> 'w \<Rightarrow> DbResult \<times> 'w) \<Rightarrow> (Msg \<Rightarrow> DbResult \<Rightarrow> 'w \<Rightarrow> 'w)
    \<Rightarrow> RetryEntry list \<Rightarrow> 'w \<Rightarrow> RetryEntry list \<times> 'w" where
  "retries_tick now execute complete entries w = retries_loop now execute complete 16 [] entries w"

text \<open>The rule of the loop: an invariant of the waiting entries and the world that every retried entry keeps.\<close>

lemma retries_loop_invariant:
  assumes step: "\<And>before e rest w. Inv (before @ e # rest) w \<Longrightarrow>
      (case execute (en_task e) w of (result, w') \<Rightarrow>
       case retries_schedule (en_request e) (en_task e) result (en_attempts e + 1) now (before @ rest) of (scheduled, entries) \<Rightarrow>
         Inv entries (if scheduled then w' else complete (en_request e) result w'))"
  shows "Inv (before @ rest) w \<Longrightarrow> case_prod Inv (retries_loop now execute complete budget before rest w)"
  using step
proof (induction now execute complete budget before rest w rule: retries_loop.induct)
  case (2 now execute complete budget before e rest w)
  show ?case
  proof (cases "budget = 0 \<or> now < en_nextAt e")
    case True
    with 2 show ?thesis by auto
  next
    case False
    obtain result w' where r: "execute (en_task e) w = (result, w')" by force
    obtain scheduled entries where sch:
      "retries_schedule (en_request e) (en_task e) result (en_attempts e + 1) now (before @ rest) = (scheduled, entries)" by force
    from 2(4) [OF 2(3)] r sch have "Inv ([] @ entries) (if scheduled then w' else complete (en_request e) result w')" by simp
    from 2(2) [OF _ _ r [symmetric] refl sch [symmetric] refl this 2(4)] False r sch show ?thesis by simp
  qed
qed simp

text \<open>An entry has been executed once or twice, and is never one that must not be retried.\<close>

definition retries_ok :: "RetryEntry list \<Rightarrow> bool" where
  "retries_ok entries \<longleftrightarrow> length entries \<le> kRetryCapacity
     \<and> list_all (\<lambda>e. (ta_kind (en_task e) = 4 \<or> ta_kind (en_task e) = 5) \<and> 0 < en_attempts e \<and> en_attempts e < kMaxAttempts) entries"

lemma schedule_ok: "retries_ok entries \<Longrightarrow> retries_ok (snd (retries_schedule m t r n now entries))"
  by (auto simp: retries_schedule_def retries_ok_def list_all_iff word_gt_0)

lemma retries_ok_remove: "retries_ok (before @ e # rest) \<Longrightarrow> retries_ok (before @ rest)"
  by (auto simp: retries_ok_def)

lemma schedule_requests:
  "mset (map en_request (snd (retries_schedule m t r n now entries)))
     + (if fst (retries_schedule m t r n now entries) then {#} else {#m#}) = add_mset m (mset (map en_request entries))"
  by (simp add: retries_schedule_def)

text \<open>Callbacks that remember what was completed.\<close>

definition remember_execute :: "(SqlTask \<Rightarrow> 'w \<Rightarrow> DbResult \<times> 'w) \<Rightarrow> SqlTask \<Rightarrow> (Msg \<times> DbResult) list \<times> 'w
    \<Rightarrow> DbResult \<times> (Msg \<times> DbResult) list \<times> 'w" where
  "remember_execute execute t = (\<lambda>(done, w). case execute t w of (r, w') \<Rightarrow> (r, done, w'))"

definition remember_complete :: "Msg \<Rightarrow> DbResult \<Rightarrow> (Msg \<times> DbResult) list \<times> 'w \<Rightarrow> (Msg \<times> DbResult) list \<times> 'w" where
  "remember_complete m r = (\<lambda>(done, w). (done @ [(m, r)], w))"

lemma retries_tick_ok:
  assumes "retries_ok entries"
  shows "retries_ok (fst (retries_tick now execute complete entries w))"
proof -
  have "case_prod (\<lambda>es w. retries_ok es) (retries_loop now execute complete 16 [] entries w)"
    by (rule retries_loop_invariant)
      (use assms schedule_ok [OF retries_ok_remove] in \<open>auto simp: split_beta\<close>)
  then show ?thesis by (simp add: retries_tick_def split_beta)
qed

text \<open>
  The retries of the database thread neither lose nor answer a request twice: after a \<open>tick\<close>, whatever the
  executions return, each request that was waiting is still waiting exactly once or has been completed exactly
  once in this tick.
\<close>

theorem retries_conserve_requests:
  "case retries_tick now (remember_execute execute) remember_complete entries ([], w) of (entries', completed, _) \<Rightarrow>
     mset (map en_request entries') + mset (map fst completed) = mset (map en_request entries)"
proof -
  let ?Inv = "\<lambda>es (c :: (Msg \<times> DbResult) list \<times> 'a). mset (map en_request es) + mset (map fst (fst c)) = mset (map en_request entries)"
  have "case_prod ?Inv (retries_loop now (remember_execute execute) remember_complete 16 [] entries ([], w))"
  proof (rule retries_loop_invariant)
    fix before rest :: "RetryEntry list" and e :: RetryEntry and c :: "(Msg \<times> DbResult) list \<times> 'a"
    assume "?Inv (before @ e # rest) c"
    then show "case remember_execute execute (en_task e) c of (result, w') \<Rightarrow>
       case retries_schedule (en_request e) (en_task e) result (en_attempts e + 1) now (before @ rest) of (scheduled, es) \<Rightarrow>
         ?Inv es (if scheduled then w' else remember_complete (en_request e) result w')"
      using schedule_requests [of "en_request e" "en_task e" _ "en_attempts e + 1" now "before @ rest"]
      by (auto simp: remember_execute_def remember_complete_def retries_schedule_def split: prod.splits if_splits)
  qed simp
  then show ?thesis by (simp add: retries_tick_def split_beta)
qed

end
