(* ===== verification/TaskDelivery.thy ===== *)
theory TaskDelivery
  imports Messages "HOL-Library.Multiset"
begin

text \<open>
  Delivery of database tasks, sceneServer/src-cpp/db/taskDelivery.h and taskDelivery.cc: the requests a
  logic thread has outstanding (\<open>PendingDbTasks\<close>) and the results a database thread still has to deliver
  (\<open>DbResultLedger\<close>).

  One call of an operation of \<open>PendingDbTasks\<close> sends at most one message per task and every message carries the
  id of its task, so the answers of the sender during one call are a function of the message, whatever they are.
  Each operation returns what it sent together with the answers. The ledger's \<open>flush\<close> may send equal messages,
  its sender acts on a world. \<open>NowMs\<close> and the process-wide id counter are arguments. The probe of a
  scan (\<open>ScanProbe\<close>) only measures and is left out.
\<close>

section \<open>Outstanding requests\<close>

datatype TaskState = PendingDispatch | AwaitResult | Completed | DispatchFailed

record DbTask =
  dt_request :: Msg
  dt_state :: TaskState
  dt_nextTryAt :: int
  dt_result :: Msg
  dt_ackPending :: bool
  dt_observedStatus :: u8
  dt_completedAt :: int

record PendingDbTasks =
  pd_tasks :: "(u64, DbTask) umap"
  pd_active :: "u64 list"
  pd_indexed :: bool

type_synonym sent = "(Msg \<times> DispatchResult) list"
type_synonym answers = "Msg \<Rightarrow> DispatchResult"

definition kMaxTasks :: int where
  "kMaxTasks = 65536"

definition new_tasks :: "bool \<Rightarrow> PendingDbTasks" where
  "new_tasks indexed = \<lparr>pd_tasks = [], pd_active = [], pd_indexed = indexed\<rparr>"

definition enableActiveIndex :: "PendingDbTasks \<Rightarrow> bool \<times> PendingDbTasks" where
  "enableActiveIndex s = (if pd_tasks s \<noteq> [] then (False, s) else (True, s\<lparr>pd_indexed := True\<rparr>))"

definition control :: "Msg \<Rightarrow> u8 \<Rightarrow> Msg" where
  "control request kind = request\<lparr>msg_head := (msg_head request)\<lparr>
     mh_msgType := (if mh_msgType (msg_head request) = MSGTYPE_DB_TASK_REDIS
                    then MSGTYPE_DB_CONTROL_REDIS else MSGTYPE_DB_CONTROL_MYSQL),
     mh_dbControl := kind\<rparr>\<rparr>"

definition same :: "Msg \<Rightarrow> Msg \<Rightarrow> bool" where
  "same a b \<longleftrightarrow> msg_body a = msg_body b
     \<and> mh_msgType (msg_head a) = mh_msgType (msg_head b) \<and> mh_dbShard (msg_head a) = mh_dbShard (msg_head b)
     \<and> mh_srcWorkerId (msg_head a) = mh_srcWorkerId (msg_head b) \<and> mh_ctx (msg_head a) = mh_ctx (msg_head b)
     \<and> mh_playerId (msg_head a) = mh_playerId (msg_head b) \<and> mh_epoch (msg_head a) = mh_epoch (msg_head b)
     \<and> mh_session (msg_head a) = mh_session (msg_head b) \<and> mh_Module (msg_head a) = mh_Module (msg_head b)
     \<and> mh_Method (msg_head a) = mh_Method (msg_head b) \<and> mh_seq (msg_head a) = mh_seq (msg_head b)"

definition needsScheduling :: "DbTask \<Rightarrow> bool" where
  "needsScheduling t \<longleftrightarrow> dt_state t = PendingDispatch \<or> dt_state t = AwaitResult
     \<or> dt_state t = Completed \<and> dt_ackPending t"

text \<open>\<open>active_\<close> is a set; the model keeps its elements as a list.\<close>

definition activate :: "u64 \<Rightarrow> PendingDbTasks \<Rightarrow> PendingDbTasks" where
  "activate i s = (if pd_indexed s \<and> i \<notin> set (pd_active s) then s\<lparr>pd_active := i # pd_active s\<rparr> else s)"

definition deactivate :: "u64 \<Rightarrow> PendingDbTasks \<Rightarrow> PendingDbTasks" where
  "deactivate i s = (if pd_indexed s then s\<lparr>pd_active := filter (\<lambda>j. j \<noteq> i) (pd_active s)\<rparr> else s)"

definition dispatch :: "int \<Rightarrow> answers \<Rightarrow> DbTask \<Rightarrow> sent \<times> DbTask" where
  "dispatch now send t =
     (let r = send (dt_request t);
          st = (if IsAccepted r then AwaitResult
                else if r = kInvalidTarget \<or> r = kInvalidMessage then DispatchFailed else dt_state t)
      in ([(dt_request t, r)], t\<lparr>dt_state := st, dt_nextTryAt := now + (if IsAccepted r then 5000 else 100)\<rparr>))"

definition recyclable :: "int \<Rightarrow> DbTask \<Rightarrow> bool" where
  "recyclable now t \<longleftrightarrow> \<not> (dt_state t \<noteq> Completed \<or> dt_ackPending t \<or> now - dt_completedAt t < 60000)"

text \<open>Room for a new record: at the limit the first recyclable record in iteration order goes.\<close>

definition make_room :: "u64 \<Rightarrow> int \<Rightarrow> PendingDbTasks \<Rightarrow> PendingDbTasks option" where
  "make_room i now s =
     (if int (length (pd_tasks s)) \<ge> kMaxTasks \<and> map_of (pd_tasks s) i = None
      then (case filter (\<lambda>(_, t). recyclable now t) (pd_tasks s) of
              [] \<Rightarrow> None
            | (j, _) # _ \<Rightarrow> Some ((deactivate j s)\<lparr>pd_tasks := AList.delete j (pd_tasks s)\<rparr>))
      else Some s)"

definition registered :: "Msg \<Rightarrow> DbTask" where
  "registered request = \<lparr>dt_request = request, dt_state = PendingDispatch, dt_nextTryAt = 0, dt_result = empty_msg,
     dt_ackPending = False, dt_observedStatus = 0, dt_completedAt = 0\<rparr>"

definition with_id :: "u64 \<Rightarrow> Msg \<Rightarrow> Msg" where
  "with_id fresh m = (if mh_taskId (msg_head m) = 0 then m\<lparr>msg_head := (msg_head m)\<lparr>mh_taskId := fresh\<rparr>\<rparr> else m)"

definition task_submit :: "u64 \<Rightarrow> Msg \<Rightarrow> int \<Rightarrow> answers \<Rightarrow> PendingDbTasks \<Rightarrow> (bool \<times> sent) \<times> PendingDbTasks" where
  "task_submit fresh m now send s =
     (if \<not> IsDbTask (mh_msgType (msg_head m)) then ((False, []), s)
      else let request = with_id fresh m; i = mh_taskId (msg_head request)
      in case make_room i now s of
        None \<Rightarrow> ((False, []), s)
      | Some s1 \<Rightarrow>
          (case map_of (pd_tasks s1) i of
             Some t \<Rightarrow> ((same (dt_request t) request, []), s1)
           | None \<Rightarrow>
               (case dispatch now send (registered request) of (out, t) \<Rightarrow>
                  let s2 = activate i s1; r = snd (hd out)
                  in if r = kInvalidTarget \<or> r = kInvalidMessage
                     then ((False, out), (deactivate i s2)\<lparr>pd_tasks := AList.delete i (AList.update i t (pd_tasks s2))\<rparr>)
                     else ((True, out), s2\<lparr>pd_tasks := AList.update i t (pd_tasks s2)\<rparr>))))"

definition observeStatus :: "Msg \<Rightarrow> PendingDbTasks \<Rightarrow> bool \<times> PendingDbTasks" where
  "observeStatus status s =
     (let sh = msg_head status in
      case map_of (pd_tasks s) (mh_taskId sh) of
        None \<Rightarrow> (False, s)
      | Some t \<Rightarrow>
          if dt_state t \<noteq> AwaitResult \<or> mh_msgType sh \<noteq> MSGTYPE_DB_STATUS \<or> length (msg_body status) \<noteq> 1
             \<or> msg_body status ! 0 > 2 then (False, s)
          else let h = msg_head (dt_request t)
          in if mh_srcWorkerId h \<noteq> mh_srcWorkerId sh \<or> mh_dbShard h \<noteq> mh_dbShard sh
                \<or> mh_playerId h \<noteq> mh_playerId sh \<or> mh_epoch h \<noteq> mh_epoch sh \<or> mh_ctx h \<noteq> mh_ctx sh
             then (False, s)
             else (True, s\<lparr>pd_tasks := AList.update (mh_taskId sh)
                              (t\<lparr>dt_observedStatus := msg_body status ! 0\<rparr>) (pd_tasks s)\<rparr>))"

text \<open>The two advance functions of the scans.\<close>

definition advance_dispatch :: "int \<Rightarrow> answers \<Rightarrow> DbTask \<Rightarrow> sent \<times> DbTask" where
  "advance_dispatch now send t =
     (if dt_state t = PendingDispatch \<and> now \<ge> dt_nextTryAt t then dispatch now send t else ([], t))"

definition advance_control :: "int \<Rightarrow> answers \<Rightarrow> DbTask \<Rightarrow> sent \<times> DbTask" where
  "advance_control now send t =
     (if now < dt_nextTryAt t then ([], t)
      else if dt_state t = Completed \<and> dt_ackPending t
      then let m = control (dt_request t) 1; r = send m
           in ([(m, r)], t\<lparr>dt_ackPending := (if IsAccepted r then False else dt_ackPending t), dt_nextTryAt := now + 100\<rparr>)
      else if dt_state t = AwaitResult
      then let m = control (dt_request t) 2
           in ([(m, send m)], t\<lparr>dt_nextTryAt := now + 5000\<rparr>)
      else ([], t))"

text \<open>The scan over the index: \<open>tasks_.at\<close> throws (\<open>None\<close>) on a missing task.\<close>

fun scan_active :: "(DbTask \<Rightarrow> sent \<times> DbTask) \<Rightarrow> u64 list \<Rightarrow> (u64, DbTask) umap
    \<Rightarrow> (sent \<times> (u64, DbTask) umap \<times> u64 list) option" where
  "scan_active adv [] ts = Some ([], ts, [])"
| "scan_active adv (i # is) ts =
     (case map_of ts i of
        None \<Rightarrow> None
      | Some t \<Rightarrow>
          (case adv t of (out, t') \<Rightarrow>
             (case scan_active adv is (AList.update i t' ts) of
                None \<Rightarrow> None
              | Some (out', ts', act) \<Rightarrow> Some (out @ out', ts', if needsScheduling t' then i # act else act))))"

definition scan_all :: "(DbTask \<Rightarrow> sent \<times> DbTask) \<Rightarrow> (u64, DbTask) umap \<Rightarrow> sent \<times> (u64, DbTask) umap" where
  "scan_all adv ts = (concat (map (\<lambda>(_, t). fst (adv t)) ts), map (\<lambda>(i, t). (i, snd (adv t))) ts)"

definition scan :: "(DbTask \<Rightarrow> sent \<times> DbTask) \<Rightarrow> PendingDbTasks \<Rightarrow> (sent \<times> PendingDbTasks) option" where
  "scan adv s =
     (if pd_indexed s
      then (case scan_active adv (pd_active s) (pd_tasks s) of
              None \<Rightarrow> None
            | Some (out, ts, act) \<Rightarrow> Some (out, s\<lparr>pd_tasks := ts, pd_active := act\<rparr>))
      else (case scan_all adv (pd_tasks s) of (out, ts) \<Rightarrow> Some (out, s\<lparr>pd_tasks := ts\<rparr>)))"

definition tick :: "int \<Rightarrow> answers \<Rightarrow> PendingDbTasks \<Rightarrow> (sent \<times> PendingDbTasks) option" where
  "tick now send = scan (advance_dispatch now send)"

definition tickControls :: "int \<Rightarrow> answers \<Rightarrow> PendingDbTasks \<Rightarrow> (sent \<times> PendingDbTasks) option" where
  "tickControls now send = scan (advance_control now send)"

definition acknowledgeDuplicate :: "Msg \<Rightarrow> PendingDbTasks \<Rightarrow> bool \<times> PendingDbTasks" where
  "acknowledgeDuplicate result s =
     (let i = mh_taskId (msg_head result) in
      case map_of (pd_tasks s) i of
        None \<Rightarrow> (False, s)
      | Some t \<Rightarrow>
          if dt_state t \<noteq> Completed \<or> \<not> same (dt_result t) result then (False, s)
          else (True, activate i (s\<lparr>pd_tasks := AList.update i (t\<lparr>dt_ackPending := True, dt_nextTryAt := 0\<rparr>) (pd_tasks s)\<rparr>)))"

definition result_matches :: "Msg \<Rightarrow> Msg \<Rightarrow> bool" where
  "result_matches request result \<longleftrightarrow>
     (let h = msg_head request; rh = msg_head result
      in \<not> (mh_playerId h \<noteq> mh_playerId rh \<or> mh_epoch h \<noteq> mh_epoch rh \<or> mh_dbShard h \<noteq> mh_dbShard rh
           \<or> mh_Module h \<noteq> mh_Module rh \<or> mh_Method h \<noteq> mh_Method rh \<or> mh_ctx h \<noteq> mh_ctx rh
           \<or> mh_srcWorkerId h \<noteq> mh_srcWorkerId rh
           \<or> mh_msgType rh \<noteq> (if mh_msgType h = MSGTYPE_DB_TASK_MYSQL
                                then MSGTYPE_DB_RESULT_MYSQL else MSGTYPE_DB_RESULT_REDIS)))"

definition task_complete :: "Msg \<Rightarrow> int \<Rightarrow> PendingDbTasks \<Rightarrow> bool \<times> PendingDbTasks" where
  "task_complete result now s =
     (let i = mh_taskId (msg_head result) in
      case map_of (pd_tasks s) i of
        None \<Rightarrow> (False, s)
      | Some t \<Rightarrow>
          if dt_state t \<noteq> AwaitResult then (False, s)
          else if \<not> result_matches (dt_request t) result then (False, s)
          else (True, s\<lparr>pd_tasks := AList.update i
                 (t\<lparr>dt_state := Completed, dt_completedAt := now, dt_result := result, dt_ackPending := True,
                    dt_nextTryAt := 0\<rparr>) (pd_tasks s)\<rparr>))"

definition task_find :: "PendingDbTasks \<Rightarrow> u64 \<Rightarrow> DbTask option" where
  "task_find s i = map_of (pd_tasks s) i"

definition unsettled :: "PendingDbTasks \<Rightarrow> bool" where
  "unsettled s \<longleftrightarrow> list_ex (\<lambda>(_, t). dt_state t \<noteq> Completed \<or> dt_ackPending t) (pd_tasks s)"

definition diagnosticSnapshot :: "PendingDbTasks \<Rightarrow> nat list" where
  "diagnosticSnapshot s =
     (let n = (\<lambda>P. length (filter (\<lambda>(_, t). P t) (pd_tasks s)))
      in [length (pd_tasks s), n (\<lambda>t. dt_state t = PendingDispatch), n (\<lambda>t. dt_state t = AwaitResult),
          n (\<lambda>t. dt_state t = Completed \<and> dt_ackPending t), n (\<lambda>t. dt_state t = Completed \<and> \<not> dt_ackPending t),
          n (\<lambda>t. dt_state t = DispatchFailed)])"

section \<open>Results to deliver\<close>

record LedgerEntry =
  le_request :: Msg
  le_result :: Msg
  le_ready :: bool
  le_delivered :: bool
  le_acknowledged :: bool
  le_nextSendAt :: int

record DbResultLedger =
  dl_capacity :: nat
  dl_entries :: "(u64, LedgerEntry) umap"
  dl_legacy :: "Msg list"

datatype LedgerAdmission = New | Duplicate | Conflict

definition new_ledger :: "nat \<Rightarrow> DbResultLedger" where
  "new_ledger capacity = \<lparr>dl_capacity = capacity, dl_entries = [], dl_legacy = []\<rparr>"

definition hasCapacity :: "DbResultLedger \<Rightarrow> bool \<times> DbResultLedger" where
  "hasCapacity l =
     (if length (dl_entries l) + length (dl_legacy l) < dl_capacity l then (True, l)
      else case filter (\<lambda>(_, e). le_acknowledged e) (dl_entries l) of
        [] \<Rightarrow> (False, l)
      | (i, _) # _ \<Rightarrow> (True, l\<lparr>dl_entries := AList.delete i (dl_entries l)\<rparr>))"

definition ledger_accept :: "Msg \<Rightarrow> DbResultLedger \<Rightarrow> LedgerAdmission \<times> DbResultLedger" where
  "ledger_accept request l =
     (let i = mh_taskId (msg_head request)
      in if i = 0 then (New, l)
         else case map_of (dl_entries l) i of
           None \<Rightarrow> (New, l\<lparr>dl_entries := AList.update i
                     \<lparr>le_request = request, le_result = empty_msg, le_ready = False, le_delivered = False,
                      le_acknowledged = False, le_nextSendAt = 0\<rparr> (dl_entries l)\<rparr>)
         | Some e \<Rightarrow>
             if \<not> same (le_request e) request then (Conflict, l)
             else if le_ready e
             then (Duplicate, l\<lparr>dl_entries := AList.update i
                    (e\<lparr>le_delivered := False, le_nextSendAt := 0, le_acknowledged := False\<rparr>) (dl_entries l)\<rparr>)
             else (Duplicate, l))"

definition queueNotice :: "Msg \<Rightarrow> DbResultLedger \<Rightarrow> bool \<times> DbResultLedger" where
  "queueNotice notice l =
     (if length (dl_entries l) + length (dl_legacy l) \<ge> dl_capacity l then (False, l)
      else (True, l\<lparr>dl_legacy := dl_legacy l @ [notice]\<rparr>))"

text \<open>\<open>entries_.at\<close> throws (\<open>None\<close>) for a task that was not accepted.\<close>

definition finish :: "Msg \<Rightarrow> Msg \<Rightarrow> DbResultLedger \<Rightarrow> DbResultLedger option" where
  "finish request result l =
     (let i = mh_taskId (msg_head request)
      in if i = 0 then Some (l\<lparr>dl_legacy := dl_legacy l @ [result]\<rparr>)
         else case map_of (dl_entries l) i of
           None \<Rightarrow> None
         | Some e \<Rightarrow> Some (l\<lparr>dl_entries := AList.update i
             (e\<lparr>le_result := result, le_ready := True, le_delivered := False\<rparr>) (dl_entries l)\<rparr>))"

definition handleControl :: "Msg \<Rightarrow> DbResultLedger \<Rightarrow> bool \<times> DbResultLedger" where
  "handleControl m l =
     (let h = msg_head m
      in if mh_msgType h \<noteq> MSGTYPE_DB_CONTROL_MYSQL \<and> mh_msgType h \<noteq> MSGTYPE_DB_CONTROL_REDIS then (False, l)
         else case map_of (dl_entries l) (mh_taskId h) of
           None \<Rightarrow> (False, l)
         | Some e \<Rightarrow>
             let request = m\<lparr>msg_head := h\<lparr>mh_msgType := (if mh_msgType h = MSGTYPE_DB_CONTROL_REDIS
                                 then MSGTYPE_DB_TASK_REDIS else MSGTYPE_DB_TASK_MYSQL), mh_dbControl := 0\<rparr>\<rparr>
             in if \<not> same (le_request e) request then (False, l)
                else if mh_dbControl h = 1 \<and> le_ready e
                then (True, l\<lparr>dl_entries := AList.update (mh_taskId h) (e\<lparr>le_acknowledged := True\<rparr>) (dl_entries l)\<rparr>)
                else if mh_dbControl h = 2
                then (True, l\<lparr>dl_entries := AList.update (mh_taskId h)
                       (e\<lparr>le_nextSendAt := 0, le_delivered := False, le_acknowledged := False\<rparr>) (dl_entries l)\<rparr>)
                else (False, l))"

definition ledger_status :: "DbResultLedger \<Rightarrow> u64 \<Rightarrow> u8" where
  "ledger_status l i = (case map_of (dl_entries l) i of None \<Rightarrow> 0 | Some e \<Rightarrow> if le_ready e then 2 else 1)"

fun flush_entries :: "('w \<Rightarrow> Msg \<Rightarrow> DispatchResult \<times> 'w) \<Rightarrow> int \<Rightarrow> (u64, LedgerEntry) umap \<Rightarrow> 'w
    \<Rightarrow> (u64, LedgerEntry) umap \<times> 'w" where
  "flush_entries send now [] w = ([], w)"
| "flush_entries send now ((i, e) # es) w =
     (if le_ready e \<and> \<not> le_acknowledged e \<and> now \<ge> le_nextSendAt e
      then (case send w (le_result e) of (r, w') \<Rightarrow>
              case flush_entries send now es w' of (es', w'') \<Rightarrow>
                ((i, e\<lparr>le_delivered := IsAccepted r, le_nextSendAt := now + (if IsAccepted r then 1000 else 100)\<rparr>) # es', w''))
      else (case flush_entries send now es w of (es', w') \<Rightarrow> ((i, e) # es', w')))"

fun flush_legacy :: "('w \<Rightarrow> Msg \<Rightarrow> DispatchResult \<times> 'w) \<Rightarrow> Msg list \<Rightarrow> 'w \<Rightarrow> Msg list \<times> 'w" where
  "flush_legacy send [] w = ([], w)"
| "flush_legacy send (m # ms) w =
     (case send w m of (r, w') \<Rightarrow>
      case flush_legacy send ms w' of (ms', w'') \<Rightarrow> (if IsAccepted r then ms' else m # ms', w''))"

definition flush :: "('w \<Rightarrow> Msg \<Rightarrow> DispatchResult \<times> 'w) \<Rightarrow> int \<Rightarrow> DbResultLedger \<Rightarrow> 'w \<Rightarrow> DbResultLedger \<times> 'w" where
  "flush send now l w =
     (case flush_entries send now (dl_entries l) w of (es, w') \<Rightarrow>
      case flush_legacy send (dl_legacy l) w' of (ms, w'') \<Rightarrow> (l\<lparr>dl_entries := es, dl_legacy := ms\<rparr>, w''))"

section \<open>The index against the full scan\<close>

datatype task_op =
    TSubmit u64 Msg int answers | TObserve Msg | TTick int answers | TControls int answers
  | TAckDuplicate Msg | TComplete Msg int

text \<open>One call: what it returned, what it sent, and the tasks after it; \<open>None\<close> when it threw.\<close>

fun task_step :: "task_op \<Rightarrow> PendingDbTasks \<Rightarrow> ((bool \<times> sent) \<times> PendingDbTasks) option" where
  "task_step (TSubmit fresh m now send) s = Some (task_submit fresh m now send s)"
| "task_step (TObserve m) s = (case observeStatus m s of (r, s') \<Rightarrow> Some ((r, []), s'))"
| "task_step (TTick now send) s = map_option (\<lambda>(out, s'). ((True, out), s')) (tick now send s)"
| "task_step (TControls now send) s = map_option (\<lambda>(out, s'). ((True, out), s')) (tickControls now send s)"
| "task_step (TAckDuplicate m) s = (case acknowledgeDuplicate m s of (r, s') \<Rightarrow> Some ((r, []), s'))"
| "task_step (TComplete m now) s = (case task_complete m now s of (r, s') \<Rightarrow> Some ((r, []), s'))"

fun task_run :: "task_op list \<Rightarrow> PendingDbTasks \<Rightarrow> ((bool \<times> sent) list \<times> PendingDbTasks) option" where
  "task_run [] s = Some ([], s)"
| "task_run (a # as) s =
     (case task_step a s of
        None \<Rightarrow> None
      | Some (out, s') \<Rightarrow> map_option (\<lambda>(outs, s''). (out # outs, s'')) (task_run as s'))"

text \<open>The index holds exactly the tasks that need scheduling.\<close>

definition index_ok :: "PendingDbTasks \<Rightarrow> bool" where
  "index_ok s \<longleftrightarrow> pd_indexed s \<and> umap_ok (pd_tasks s) \<and> distinct (pd_active s)
     \<and> (\<forall>i. i \<in> set (pd_active s) \<longleftrightarrow> (\<exists>t. map_of (pd_tasks s) i = Some t \<and> needsScheduling t))"

definition plain :: "PendingDbTasks \<Rightarrow> PendingDbTasks" where
  "plain s = \<lparr>pd_tasks = pd_tasks s, pd_active = [], pd_indexed = False\<rparr>"

lemma update_as_map:
  "umap_ok ts \<Longrightarrow> map_of ts i = Some t \<Longrightarrow> AList.update i t' ts = map (\<lambda>(j, u). (j, if j = i then t' else u)) ts"
proof (induction ts)
  case (Cons e ts)
  obtain j u where e: "e = (j, u)" by force
  show ?case
  proof (cases "j = i")
    case True
    with Cons.prems have "i \<notin> fst ` set ts" by (auto simp: umap_ok_def e)
    then have "map (\<lambda>(j, u). (j, if j = i then t' else u)) ts = ts"
      by (intro map_idI) (force split: prod.splits)
    with True show ?thesis by (simp add: e)
  next
    case False
    with Cons show ?thesis by (simp add: e umap_ok_def)
  qed
qed simp

lemma map_of_map_values: "map_of (map (\<lambda>(j, u). (j, f j u)) ts) i = map_option (f i) (map_of ts i)"
  by (induction ts) auto

lemma umap_ok_map_values [simp]: "umap_ok (map (\<lambda>(j, u). (j, f j u)) ts) = umap_ok ts"
  by (simp add: umap_ok_def comp_def split_beta)

lemma scan_active_eq:
  assumes "umap_ok ts" and "distinct is" and "\<forall>i \<in> set is. map_of ts i \<noteq> None"
  shows "scan_active adv is ts =
    Some (concat (map (\<lambda>i. fst (adv (the (map_of ts i)))) is),
          map (\<lambda>(i, t). (i, if i \<in> set is then snd (adv t) else t)) ts,
          filter (\<lambda>i. needsScheduling (snd (adv (the (map_of ts i))))) is)"
  using assms
proof (induction "is" arbitrary: ts)
  case Nil
  show ?case by (simp add: map_idI split_beta)
next
  case (Cons i "is")
  then obtain t where t: "map_of ts i = Some t" by auto
  define ts' where "ts' = map (\<lambda>(j, u). (j, if j = i then snd (adv t) else u)) ts"
  have upd: "AList.update i (snd (adv t)) ts = ts'"
    using Cons.prems(1) t by (simp add: update_as_map ts'_def)
  have look: "map_of ts' j = map_of ts j" if "j \<noteq> i" for j
    using that by (simp add: ts'_def map_of_map_values option.map_ident)
  have look_is: "map_of ts' j = map_of ts j" if "j \<in> set is" for j
    using that look [of j] Cons.prems(2) by fastforce
  have "map_of ts' j \<noteq> None" if "j \<in> set is" for j
    using that Cons.prems(3) by (simp add: look_is)
  then have IH: "scan_active adv is ts' = Some (concat (map (\<lambda>i. fst (adv (the (map_of ts' i)))) is),
      map (\<lambda>(i, t). (i, if i \<in> set is then snd (adv t) else t)) ts',
      filter (\<lambda>i. needsScheduling (snd (adv (the (map_of ts' i))))) is)"
    using Cons.IH [of ts'] Cons.prems(1,2) by (simp add: ts'_def)
  have same: "map (\<lambda>j. fst (adv (the (map_of ts' j)))) is = map (\<lambda>j. fst (adv (the (map_of ts j)))) is"
    "filter (\<lambda>j. needsScheduling (snd (adv (the (map_of ts' j))))) is =
     filter (\<lambda>j. needsScheduling (snd (adv (the (map_of ts j))))) is"
    by (simp_all add: look_is cong: map_cong filter_cong)
  have "map (\<lambda>(j, u). (j, if j \<in> set is then snd (adv u) else u)) ts' =
      map (\<lambda>(j, u). (j, if j \<in> set (i # is) then snd (adv u) else u)) ts"
    unfolding ts'_def map_map
    using Cons.prems(1,2) t by (intro map_cong) (auto simp: umap_mem_iff)
  with IH same t show ?case by (simp add: upd split_beta)
qed

lemma mset_concat_image: "mset (concat (map f xs)) = sum_mset (image_mset (mset \<circ> f) (mset xs))"
  by (induction xs) simp_all

lemma mset_concat_keys:
  assumes "umap_ok ts" and "distinct is" and "\<forall>i \<in> set is. map_of ts i \<noteq> None"
    and "\<forall>(i, t) \<in> set ts. i \<notin> set is \<longrightarrow> f t = []"
  shows "mset (concat (map (\<lambda>i. f (the (map_of ts i))) is)) = mset (concat (map (\<lambda>(_, t). f t) ts))"
proof -
  let ?in = "filter (\<lambda>e. fst e \<in> set is) ts"
  have "concat (map (\<lambda>(_, t). f t) ts) = concat (map (\<lambda>(_, t). f t) ?in)"
    using assms(4) by (induction ts) (auto split: prod.splits)
  also have "map (\<lambda>(_, t). f t) ?in = map (\<lambda>i. f (the (map_of ts i))) (map fst ?in)"
    using assms(1) by (auto simp: umap_mem_iff)
  also have "mset (concat \<dots>) = mset (concat (map (\<lambda>i. f (the (map_of ts i))) is))"
  proof -
    have "set (map fst ?in) = set is" using assms(3) by (force simp: map_of_eq_None_iff)
    moreover have "distinct (map fst ?in)" using assms(1) by (simp add: umap_ok_def distinct_map_filter)
    ultimately have "mset (map fst ?in) = mset is" using assms(2) set_eq_iff_mset_eq_distinct by blast
    then show ?thesis by (simp only: mset_concat_image)
  qed
  finally show ?thesis by simp
qed

lemma advance_idle:
  "\<not> needsScheduling t \<Longrightarrow> advance_dispatch now send t = ([], t)"
  "\<not> needsScheduling t \<Longrightarrow> advance_control now send t = ([], t)"
  by (auto simp: needsScheduling_def advance_dispatch_def advance_control_def)

lemma scan_equiv:
  assumes ok: "index_ok s" and idle: "\<And>t. \<not> needsScheduling t \<Longrightarrow> adv t = ([], t)"
  obtains out out' s' where "scan adv s = Some (out, s')" "scan adv (plain s) = Some (out', plain s')"
    "mset out = mset out'" "index_ok s'"
proof -
  let ?ts = "pd_tasks s" let ?act = "pd_active s"
  have ts: "umap_ok ?ts" "distinct ?act" "\<forall>i \<in> set ?act. map_of ?ts i \<noteq> None" and idx: "pd_indexed s"
    using ok by (force simp: index_ok_def)+
  have out_idle: "\<not> needsScheduling t" if "(i, t) \<in> set ?ts" "i \<notin> set ?act" for i t
    using ok that by (auto simp: index_ok_def umap_mem_iff)
  have tasks: "map (\<lambda>(i, t). (i, if i \<in> set ?act then snd (adv t) else t)) ?ts = map (\<lambda>(i, t). (i, snd (adv t))) ?ts"
    using out_idle idle by (force intro!: map_cong)
  define s' where "s' = s\<lparr>pd_tasks := map (\<lambda>(i, t). (i, snd (adv t))) ?ts,
     pd_active := filter (\<lambda>i. needsScheduling (snd (adv (the (map_of ?ts i))))) ?act\<rparr>"
  have 1: "scan adv s = Some (concat (map (\<lambda>i. fst (adv (the (map_of ?ts i)))) ?act), s')"
    using idx by (simp add: scan_def scan_active_eq [OF ts] tasks s'_def)
  have 2: "scan adv (plain s) = Some (concat (map (\<lambda>(_, t). fst (adv t)) ?ts), plain s')"
    by (simp add: scan_def plain_def scan_all_def s'_def)
  have 3: "mset (concat (map (\<lambda>i. fst (adv (the (map_of ?ts i)))) ?act)) = mset (concat (map (\<lambda>(_, t). fst (adv t)) ?ts))"
    using out_idle idle by (intro mset_concat_keys [OF ts]) fastforce
  have "i \<in> set (pd_active s') \<longleftrightarrow> (\<exists>t. map_of (pd_tasks s') i = Some t \<and> needsScheduling t)" for i
  proof (cases "map_of ?ts i")
    case None
    then show ?thesis using ts(3) by (auto simp: s'_def map_of_map_values)
  next
    case (Some t)
    then show ?thesis using ok idle [of t]
      by (cases "needsScheduling t") (auto simp: s'_def map_of_map_values index_ok_def)
  qed
  then have "index_ok s'" using ts idx by (simp add: index_ok_def s'_def)
  with 1 2 3 that show ?thesis by blast
qed

text \<open>Changing the record of one task, with the index following it.\<close>

lemma index_ok_put:
  assumes "index_ok s" and "needsScheduling t"
  shows "index_ok ((activate i s)\<lparr>pd_tasks := AList.update i t (pd_tasks s)\<rparr>)"
    and "map_of (pd_tasks s) i = Some t0 \<Longrightarrow> needsScheduling t0 \<Longrightarrow>
      index_ok (s\<lparr>pd_tasks := AList.update i t (pd_tasks s)\<rparr>)"
  using assms by (auto simp: index_ok_def activate_def)

lemma index_ok_delete:
  "index_ok s \<Longrightarrow> index_ok ((deactivate i s)\<lparr>pd_tasks := AList.delete i (pd_tasks s)\<rparr>)"
  by (auto simp: index_ok_def deactivate_def)

lemma delete_update_new: "map_of m i = None \<Longrightarrow> AList.delete i (AList.update i v m) = m"
  by (induction m) auto

lemma activate_tasks [simp]: "pd_tasks (activate i s) = pd_tasks s" "pd_tasks (deactivate i s) = pd_tasks s"
  "plain (activate i s) = plain s" "plain (deactivate i s) = plain s"
  "plain (s\<lparr>pd_tasks := ts\<rparr>) = (plain s)\<lparr>pd_tasks := ts\<rparr>" "pd_tasks (plain s) = pd_tasks s"
  "activate i (plain s) = plain s" "deactivate i (plain s) = plain s"
  by (simp_all add: activate_def deactivate_def plain_def)

lemma make_room_equiv:
  "make_room i now (plain s) = map_option plain (make_room i now s)"
  by (simp add: make_room_def split: list.splits prod.splits)

lemma make_room_ok: "make_room i now s = Some s' \<Longrightarrow> index_ok s \<Longrightarrow> index_ok s'"
  by (auto simp: make_room_def index_ok_delete split: if_splits list.splits)

lemma dispatch_scheduled:
  "dispatch now send t = (out, t') \<Longrightarrow> dt_state t = PendingDispatch \<Longrightarrow>
     (\<exists>r. out = [(dt_request t, r)] \<and> (r = kInvalidTarget \<or> r = kInvalidMessage \<or> needsScheduling t'))"
  by (auto simp: dispatch_def Let_def needsScheduling_def)

lemma submit_equiv:
  assumes ok: "index_ok s"
  shows "task_submit fresh m now send (plain s) = (fst (task_submit fresh m now send s), plain (snd (task_submit fresh m now send s)))"
    and "index_ok (snd (task_submit fresh m now send s))"
proof -
  let ?req = "with_id fresh m" let ?i = "mh_taskId (msg_head (with_id fresh m))"
  obtain out t where d: "dispatch now send (registered ?req) = (out, t)" by force
  then obtain r where r: "out = [(?req, r)]" "r = kInvalidTarget \<or> r = kInvalidMessage \<or> needsScheduling t"
    using dispatch_scheduled [OF d] by (auto simp: registered_def)
  show "task_submit fresh m now send (plain s) = (fst (task_submit fresh m now send s), plain (snd (task_submit fresh m now send s)))"
    using d r(1) by (auto simp: task_submit_def Let_def make_room_equiv split: option.splits)
  show "index_ok (snd (task_submit fresh m now send s))"
  proof (cases "make_room ?i now s")
    case None
    with ok show ?thesis by (simp add: task_submit_def Let_def)
  next
    case (Some s1)
    then have ok1: "index_ok s1" using make_room_ok ok by blast
    have del: "index_ok (deactivate ?i (activate ?i s1))" if "map_of (pd_tasks s1) ?i = None"
      using ok1 that by (auto simp: index_ok_def activate_def deactivate_def)
    then have "map_of (pd_tasks s1) ?i = None \<Longrightarrow>
        index_ok ((deactivate ?i (activate ?i s1))\<lparr>pd_tasks := pd_tasks s1\<rparr>)"
      by (simp add: index_ok_def)
    with Some ok ok1 d r index_ok_put(1) [OF ok1, of t ?i] show ?thesis
      by (auto simp: task_submit_def Let_def delete_update_new split: option.splits)
  qed
qed

lemma task_step_equiv:
  assumes "index_ok s"
  obtains r out out' s' where "task_step a s = Some ((r, out), s')" "task_step a (plain s) = Some ((r, out'), plain s')"
    "mset out = mset out'" "index_ok s'"
proof (cases a)
  case (TSubmit fresh m now send)
  obtain r out s' where "task_submit fresh m now send s = ((r, out), s')" by (metis surj_pair)
  with TSubmit submit_equiv [OF assms, of fresh m now send] that [of r out s' out] show ?thesis by simp
next
  case (TObserve m)
  obtain r s' where o: "observeStatus m s = (r, s')" by force
  then have "index_ok s'"
    using assms by (auto simp: observeStatus_def Let_def needsScheduling_def intro: index_ok_put(2)
        split: option.splits if_splits)
  moreover have "observeStatus m (plain s) = (r, plain s')"
    using o by (auto simp: observeStatus_def Let_def split: option.splits)
  ultimately show ?thesis using TObserve o that [of r "[]" s' "[]"] by simp
next
  case (TTick now send)
  obtain out out' s' where "scan (advance_dispatch now send) s = Some (out, s')"
    "scan (advance_dispatch now send) (plain s) = Some (out', plain s')" "mset out = mset out'" "index_ok s'"
    by (rule scan_equiv [OF assms advance_idle(1)])
  with TTick that [of True out s' out'] show ?thesis by (simp add: tick_def)
next
  case (TControls now send)
  obtain out out' s' where "scan (advance_control now send) s = Some (out, s')"
    "scan (advance_control now send) (plain s) = Some (out', plain s')" "mset out = mset out'" "index_ok s'"
    by (rule scan_equiv [OF assms advance_idle(2)])
  with TControls that [of True out s' out'] show ?thesis by (simp add: tickControls_def)
next
  case (TAckDuplicate m)
  obtain r s' where o: "acknowledgeDuplicate m s = (r, s')" by force
  have "activate i (s\<lparr>pd_tasks := ts\<rparr>) = (activate i s)\<lparr>pd_tasks := ts\<rparr>" for i ts
    by (simp add: activate_def)
  then have "index_ok s'"
    using assms o by (auto simp: acknowledgeDuplicate_def Let_def needsScheduling_def intro!: index_ok_put(1)
        split: option.splits if_splits)
  moreover have "acknowledgeDuplicate m (plain s) = (r, plain s')"
    using o by (auto simp: acknowledgeDuplicate_def Let_def activate_def plain_def split: option.splits)
  ultimately show ?thesis using TAckDuplicate o that [of r "[]" s' "[]"] by simp
next
  case (TComplete m now)
  obtain r s' where o: "task_complete m now s = (r, s')" by force
  then have "index_ok s'"
    using assms by (auto simp: task_complete_def Let_def needsScheduling_def intro: index_ok_put(2)
        split: option.splits if_splits)
  moreover have "task_complete m now (plain s) = (r, plain s')"
    using o by (auto simp: task_complete_def Let_def split: option.splits)
  ultimately show ?thesis using TComplete o that [of r "[]" s' "[]"] by simp
qed

lemma task_run_equiv:
  "index_ok s \<Longrightarrow> \<exists>outs outs' s'. task_run as s = Some (outs, s') \<and> task_run as (plain s) = Some (outs', plain s')
     \<and> list_all2 (\<lambda>(r, out) (r', out'). r = r' \<and> mset out = mset out') outs outs'"
proof (induction as arbitrary: s)
  case (Cons a as)
  obtain r out out' s1 where 1: "task_step a s = Some ((r, out), s1)" "task_step a (plain s) = Some ((r, out'), plain s1)"
    "mset out = mset out'" "index_ok s1"
    by (rule task_step_equiv [OF Cons.prems])
  obtain outs outs' s' where "task_run as s1 = Some (outs, s')" "task_run as (plain s1) = Some (outs', plain s')"
    "list_all2 (\<lambda>(r, out) (r', out'). r = r' \<and> mset out = mset out') outs outs'"
    using Cons.IH [OF 1(4)] by blast
  with 1 show ?case by simp
qed simp

text \<open>The active index is an optimisation without effect: started empty, an instance that schedules from
  its index of active tasks and one that scans every task give, for every sequence of calls and all answers of the
  senders, the same return values, the same task table, and in every call the same messages
  (in an order of their own). In particular the index never names a missing task, so
  \<open>tasks_.at\<close> never throws.\<close>

theorem active_index_is_full_scan:
  "case (task_run as (new_tasks True), task_run as (new_tasks False)) of
     (Some (outs, s), Some (outs', s')) \<Rightarrow> pd_tasks s = pd_tasks s'
       \<and> list_all2 (\<lambda>(r, out) (r', out'). r = r' \<and> mset out = mset out') outs outs'
   | _ \<Rightarrow> False"
proof -
  have "index_ok (new_tasks True)" by (simp add: index_ok_def new_tasks_def)
  from task_run_equiv [OF this, of as] show ?thesis
    by (auto simp: new_tasks_def plain_def)
qed

section \<open>No request is handed over twice\<close>

definition request_accepted :: "u64 \<Rightarrow> Msg \<times> DispatchResult \<Rightarrow> bool" where
  "request_accepted i e \<longleftrightarrow> IsDbTask (mh_msgType (msg_head (fst e))) \<and> mh_taskId (msg_head (fst e)) = i \<and> IsAccepted (snd e)"

text \<open>Every record is stored under the id of its request, which is a database task.\<close>

definition request_ok :: "u64 \<Rightarrow> DbTask \<Rightarrow> bool" where
  "request_ok i t \<longleftrightarrow> mh_taskId (msg_head (dt_request t)) = i \<and> IsDbTask (mh_msgType (msg_head (dt_request t)))"

definition tasks_ok :: "PendingDbTasks \<Rightarrow> bool" where
  "tasks_ok s \<longleftrightarrow> \<not> pd_indexed s \<and> umap_ok (pd_tasks s) \<and> list_all (\<lambda>(i, t). request_ok i t) (pd_tasks s)"

definition handed_over :: "u64 \<Rightarrow> PendingDbTasks \<Rightarrow> bool" where
  "handed_over i s \<longleftrightarrow> (\<exists>t. map_of (pd_tasks s) i = Some t \<and> (dt_state t = AwaitResult \<or> dt_state t = Completed))"

text \<open>What one step may do for a task: nothing more once it is handed over, at most one hand-over before.\<close>

definition at_most_once :: "u64 \<Rightarrow> PendingDbTasks \<Rightarrow> sent \<Rightarrow> PendingDbTasks \<Rightarrow> bool" where
  "at_most_once i s out s' \<longleftrightarrow>
     (if handed_over i s then handed_over i s' \<and> filter (request_accepted i) out = []
      else length (filter (request_accepted i) out) \<le> 1
        \<and> (filter (request_accepted i) out \<noteq> [] \<longrightarrow> handed_over i s'))"

lemma tasks_ok_find: "tasks_ok s \<Longrightarrow> map_of (pd_tasks s) i = Some t \<Longrightarrow> request_ok i t"
  by (auto simp: tasks_ok_def list_all_iff dest: map_of_SomeD)

lemma tasks_ok_put:
  "tasks_ok s \<Longrightarrow> request_ok i t \<Longrightarrow> tasks_ok (s\<lparr>pd_tasks := AList.update i t (pd_tasks s)\<rparr>)"
proof -
  have "list_all P m \<Longrightarrow> P (i, t) \<Longrightarrow> list_all P (AList.update i t m)" for P m
    by (induction m) auto
  then show "tasks_ok s \<Longrightarrow> request_ok i t \<Longrightarrow> tasks_ok (s\<lparr>pd_tasks := AList.update i t (pd_tasks s)\<rparr>)"
    by (simp add: tasks_ok_def)
qed

lemma concat_single_key:
  assumes "umap_ok ts" and "\<forall>(j, t) \<in> set ts. j \<noteq> i \<longrightarrow> filter P (f t) = []"
  shows "filter P (concat (map (\<lambda>(_, t). f t) ts)) = (case map_of ts i of None \<Rightarrow> [] | Some t \<Rightarrow> filter P (f t))"
  using assms
proof (induction ts)
  case (Cons e ts)
  obtain j t where e: "e = (j, t)" by force
  have IH: "filter P (concat (map (\<lambda>(_, t). f t) ts)) = (case map_of ts i of None \<Rightarrow> [] | Some t \<Rightarrow> filter P (f t))"
    using Cons by (simp add: e umap_ok_def)
  have "map_of ts i = None" if "j = i"
    using Cons.prems(1) that by (simp add: e umap_ok_def map_of_eq_None_iff)
  with IH Cons.prems(2) show ?case by (auto simp: e)
qed simp

lemma IsDbTask_control: "\<not> IsDbTask (mh_msgType (msg_head (control m k)))"
  by (simp add: control_def IsDbTask_def msgtype_defs)

text \<open>What the two scans do with one task.\<close>

definition advance_ok :: "(DbTask \<Rightarrow> sent \<times> DbTask) \<Rightarrow> bool" where
  "advance_ok adv \<longleftrightarrow> (\<forall>j t. request_ok j t \<longrightarrow>
     request_ok j (snd (adv t)) \<and> (\<forall>i. i \<noteq> j \<longrightarrow> filter (request_accepted i) (fst (adv t)) = [])
     \<and> (if dt_state t = AwaitResult \<or> dt_state t = Completed
        then (dt_state (snd (adv t)) = AwaitResult \<or> dt_state (snd (adv t)) = Completed)
          \<and> filter (request_accepted j) (fst (adv t)) = []
        else length (filter (request_accepted j) (fst (adv t))) \<le> 1
          \<and> (filter (request_accepted j) (fst (adv t)) \<noteq> [] \<longrightarrow> dt_state (snd (adv t)) = AwaitResult)))"

lemma advance_okD:
  assumes "advance_ok adv" and "request_ok j t"
  shows "request_ok j (snd (adv t))" and "i \<noteq> j \<Longrightarrow> filter (request_accepted i) (fst (adv t)) = []"
  using assms by (auto simp: advance_ok_def)

lemma advance_ok_dispatch: "advance_ok (advance_dispatch now send)"
  by (auto simp: advance_ok_def advance_dispatch_def dispatch_def Let_def request_ok_def request_accepted_def)

lemma advance_ok_control: "advance_ok (advance_control now send)"
  by (auto simp: advance_ok_def advance_control_def Let_def request_ok_def request_accepted_def IsDbTask_control)

lemma scan_once:
  assumes ok: "tasks_ok s" and adv: "advance_ok adv" and s: "scan adv s = Some (out, s')"
  shows "tasks_ok s' \<and> length (pd_tasks s') = length (pd_tasks s) \<and> at_most_once i s out s'"
proof -
  let ?ts = "pd_tasks s"
  have u: "umap_ok ?ts" and r: "\<And>j t. (j, t) \<in> set ?ts \<Longrightarrow> request_ok j t"
    using ok by (auto simp: tasks_ok_def list_all_iff)
  have out: "out = concat (map (\<lambda>(_, t). fst (adv t)) ?ts)" and s': "s' = s\<lparr>pd_tasks := map (\<lambda>(i, t). (i, snd (adv t))) ?ts\<rparr>"
    using s ok by (auto simp: scan_def scan_all_def tasks_ok_def)
  have "tasks_ok s'"
    using ok advance_okD(1) [OF adv] r by (auto simp: tasks_ok_def s' list_all_iff)
  moreover have "\<forall>(j, t) \<in> set ?ts. j \<noteq> i \<longrightarrow> filter (request_accepted i) (fst (adv t)) = []"
    using advance_okD(2) [OF adv r] by fastforce
  then have "filter (request_accepted i) out = (case map_of ?ts i of None \<Rightarrow> [] | Some t \<Rightarrow> filter (request_accepted i) (fst (adv t)))"
    unfolding out by (rule concat_single_key [OF u])
  moreover have "map_of (pd_tasks s') i = map_option (\<lambda>t. snd (adv t)) (map_of ?ts i)"
    by (simp add: s' map_of_map_values)
  ultimately show ?thesis
  proof (cases "map_of ?ts i")
    case (Some t)
    then have "request_ok i t" using tasks_ok_find [OF ok] by blast
    with adv have "if dt_state t = AwaitResult \<or> dt_state t = Completed
        then (dt_state (snd (adv t)) = AwaitResult \<or> dt_state (snd (adv t)) = Completed)
          \<and> filter (request_accepted i) (fst (adv t)) = []
        else length (filter (request_accepted i) (fst (adv t))) \<le> 1
          \<and> (filter (request_accepted i) (fst (adv t)) \<noteq> [] \<longrightarrow> dt_state (snd (adv t)) = AwaitResult)"
      unfolding advance_ok_def by blast
    with \<open>tasks_ok s'\<close> Some show ?thesis
      using \<open>filter (request_accepted i) out = _\<close> \<open>map_of (pd_tasks s') i = _\<close>
      by (auto simp: at_most_once_def handed_over_def s' split: if_splits)
  qed (simp add: at_most_once_def handed_over_def s')
qed

definition once_step :: "u64 \<Rightarrow> PendingDbTasks \<Rightarrow> sent \<Rightarrow> PendingDbTasks \<Rightarrow> bool" where
  "once_step i s out s' \<longleftrightarrow> tasks_ok s' \<and> length (pd_tasks s') \<le> Suc (length (pd_tasks s)) \<and> at_most_once i s out s'"

lemma submit_once:
  assumes ok: "tasks_ok s" and room: "int (length (pd_tasks s)) < kMaxTasks"
    and s: "task_submit fresh m now send s = ((r, out), s')"
  shows "once_step i s out s'"
proof (cases "IsDbTask (mh_msgType (msg_head m))")
  case True
  let ?req = "with_id fresh m" let ?j = "mh_taskId (msg_head (with_id fresh m))"
  have "make_room ?j now s = Some s" using room by (simp add: make_room_def)
  moreover obtain t where d: "dispatch now send (registered ?req) = ([(?req, send ?req)], t)"
      and t: "request_ok ?j t" "IsAccepted (send ?req) \<Longrightarrow> dt_state t = AwaitResult"
    using True by (force simp: dispatch_def Let_def registered_def request_ok_def with_id_def)
  moreover have "activate ?j s = s" "deactivate ?j s = s" using ok by (simp_all add: activate_def deactivate_def tasks_ok_def)
  ultimately show ?thesis
    using s True ok tasks_ok_put [OF ok t(1)] length_update_le [of ?j t "pd_tasks s"]
    by (auto simp: task_submit_def Let_def delete_update_new once_step_def at_most_once_def handed_over_def request_accepted_def
        split: option.splits if_splits)
next
  case False
  with s ok show ?thesis by (auto simp: task_submit_def once_step_def at_most_once_def)
qed

lemma record_change_once:
  assumes "tasks_ok s" and "map_of (pd_tasks s) j = Some t" and "dt_request t' = dt_request t"
    and "dt_state t' = dt_state t \<or> dt_state t' = Completed"
    and "s' = s\<lparr>pd_tasks := AList.update j t' (pd_tasks s)\<rparr>"
  shows "once_step i s [] s'"
proof -
  have "request_ok j t'" using tasks_ok_find [OF assms(1,2)] assms(3) by (simp add: request_ok_def)
  then show ?thesis
    using assms tasks_ok_put [OF assms(1)] length_update_le [of j t' "pd_tasks s"]
    by (auto simp: once_step_def at_most_once_def handed_over_def)
qed

lemma task_step_once:
  assumes ok: "tasks_ok s" and room: "int (length (pd_tasks s)) < kMaxTasks"
    and s: "task_step a s = Some ((r, out), s')"
  shows "once_step i s out s'"
proof -
  have idle: "once_step i s [] s"
    using ok by (simp add: once_step_def at_most_once_def)
  show ?thesis
  proof (cases a)
    case (TSubmit fresh m now send)
    with s submit_once [OF ok room] show ?thesis by simp
  next
    case (TObserve m)
    with s idle show ?thesis
      by (auto simp: observeStatus_def Let_def split: option.splits if_splits intro!: record_change_once [OF ok _ _ _ refl])
  next
    case (TTick now send)
    with s scan_once [OF ok advance_ok_dispatch] show ?thesis by (auto simp: tick_def once_step_def)
  next
    case (TControls now send)
    with s scan_once [OF ok advance_ok_control] show ?thesis by (auto simp: tickControls_def once_step_def)
  next
    case (TAckDuplicate m)
    moreover have "activate j (s\<lparr>pd_tasks := ts\<rparr>) = s\<lparr>pd_tasks := ts\<rparr>" for j ts
      using ok by (simp add: activate_def tasks_ok_def)
    ultimately show ?thesis using s idle
      by (auto simp: acknowledgeDuplicate_def Let_def split: option.splits if_splits intro!: record_change_once [OF ok _ _ _ refl])
  next
    case (TComplete m now)
    with s idle show ?thesis
      by (auto simp: task_complete_def Let_def split: option.splits if_splits intro!: record_change_once [OF ok _ _ _ refl])
  qed
qed

lemma task_run_once:
  assumes "tasks_ok s" and "int (length (pd_tasks s)) + int (length as) \<le> kMaxTasks"
    and "task_run as s = Some (outs, s')"
  shows "length (filter (request_accepted i) (concat (map snd outs))) \<le> (if handed_over i s then 0 else 1)"
  using assms
proof (induction as arbitrary: s outs)
  case (Cons a as)
  then obtain r out s1 outs1 where 1: "task_step a s = Some ((r, out), s1)" "task_run as s1 = Some (outs1, s')"
    "outs = (r, out) # outs1"
    by (auto split: option.splits prod.splits)
  have "tasks_ok s1 \<and> length (pd_tasks s1) \<le> Suc (length (pd_tasks s)) \<and> at_most_once i s out s1"
    using Cons.prems task_step_once [OF Cons.prems(1) _ 1(1), of i] by (simp add: once_step_def)
  moreover from this have "length (filter (request_accepted i) (concat (map snd outs1))) \<le> (if handed_over i s1 then 0 else 1)"
    using Cons.prems 1 by (intro Cons.IH) auto
  ultimately show ?case using 1(3) by (auto simp: at_most_once_def split: if_splits)
qed simp

lemma accepted_count_mset:
  "list_all2 (\<lambda>(r, out) (r', out'). r = r' \<and> mset out = mset out') outs outs' \<Longrightarrow>
     length (filter P (concat (map snd outs))) = length (filter P (concat (map snd outs')))"
proof (induction rule: list_all2_induct)
  case (Cons x xs y ys)
  then have "mset (snd x) = mset (snd y)" by (simp add: split_beta)
  then have "length (filter P (snd x)) = length (filter P (snd y))"
    by (metis mset_filter size_mset)
  with Cons show ?case by simp
qed simp


definition demo_request :: Msg where
  "demo_request = empty_msg\<lparr>msg_head := empty_head\<lparr>mh_taskId := 9, mh_msgType := MSGTYPE_DB_TASK_MYSQL\<rparr>\<rparr>"


section \<open>No result is lost\<close>

datatype 'w ledger_op =
    LCapacity | LAccept Msg | LFinish Msg Msg | LNotice Msg | LControl Msg
  | LFlush "'w \<Rightarrow> Msg \<Rightarrow> DispatchResult \<times> 'w" int

fun ledger_step :: "'w ledger_op \<Rightarrow> DbResultLedger \<times> 'w \<Rightarrow> (DbResultLedger \<times> 'w) option" where
  "ledger_step LCapacity (l, w) = Some (snd (hasCapacity l), w)"
| "ledger_step (LAccept m) (l, w) = Some (snd (ledger_accept m l), w)"
| "ledger_step (LFinish m r) (l, w) = map_option (\<lambda>l'. (l', w)) (finish m r l)"
| "ledger_step (LNotice m) (l, w) = Some (snd (queueNotice m l), w)"
| "ledger_step (LControl m) (l, w) = Some (snd (handleControl m l), w)"
| "ledger_step (LFlush send now) (l, w) = Some (flush send now l w)"

fun ledger_run :: "'w ledger_op list \<Rightarrow> DbResultLedger \<times> 'w \<Rightarrow> (DbResultLedger \<times> 'w) option" where
  "ledger_run [] x = Some x"
| "ledger_run (a # as) x = (case ledger_step a x of None \<Rightarrow> None | Some y \<Rightarrow> ledger_run as y)"

text \<open>The operation executes task \<open>i\<close> again, or carries the acknowledgement of its result.\<close>

fun settles_task :: "u64 \<Rightarrow> 'w ledger_op \<Rightarrow> bool" where
  "settles_task i (LFinish m r) = (mh_taskId (msg_head m) = i)"
| "settles_task i (LControl m) = (mh_taskId (msg_head m) = i \<and> mh_dbControl (msg_head m) = 1)"
| "settles_task i _ = False"

definition ledger_ok :: "DbResultLedger \<Rightarrow> bool" where
  "ledger_ok l \<longleftrightarrow> umap_ok (dl_entries l) \<and> (\<forall>i e. map_of (dl_entries l) i = Some e \<longrightarrow> le_acknowledged e \<longrightarrow> le_ready e)"

definition keeps_result :: "u64 \<Rightarrow> Msg \<Rightarrow> DbResultLedger \<Rightarrow> bool" where
  "keeps_result i res l \<longleftrightarrow>
     (\<exists>e. map_of (dl_entries l) i = Some e \<and> le_ready e \<and> le_result e = res \<and> \<not> le_acknowledged e)"

lemma flush_entries_keys: "map fst (fst (flush_entries send now es w)) = map fst es"
  by (induction es arbitrary: w) (auto split: prod.splits if_splits simp: prod_eq_iff)

text \<open>A flush changes only the delivery bookkeeping of an entry.\<close>

definition resent :: "LedgerEntry \<Rightarrow> LedgerEntry \<Rightarrow> bool" where
  "resent e e' \<longleftrightarrow> le_request e' = le_request e \<and> le_result e' = le_result e \<and> le_ready e' = le_ready e
     \<and> le_acknowledged e' = le_acknowledged e"

lemma flush_entries_find:
  "rel_option resent (map_of es i) (map_of (fst (flush_entries send now es w)) i)"
proof (induction es arbitrary: w)
  case (Cons x es)
  obtain j e where x: "x = (j, e)" by force
  show ?case using Cons.IH by (auto simp: x split_beta resent_def)
qed simp

lemma hasCapacity_cases:
  obtains "snd (hasCapacity l) = l"
  | i e where "(i, e) \<in> set (dl_entries l)" "le_acknowledged e" "snd (hasCapacity l) = l\<lparr>dl_entries := AList.delete i (dl_entries l)\<rparr>"
proof (cases "filter (\<lambda>(_, e). le_acknowledged e) (dl_entries l)")
  case Nil
  with that show ?thesis by (auto simp: hasCapacity_def)
next
  case (Cons x xs)
  obtain i e where x: "x = (i, e)" by force
  from Cons have "(i, e) \<in> set (dl_entries l)" "le_acknowledged e"
    by (auto simp: x filter_eq_Cons_iff)
  with that Cons show ?thesis
    by (cases "length (dl_entries l) + length (dl_legacy l) < dl_capacity l") (auto simp: hasCapacity_def x)
qed

lemma ledger_step_ok:
  assumes "ledger_ok l" and "ledger_step a (l, w) = Some (l', w')"
  shows "ledger_ok l'"
proof (cases a)
  case LCapacity
  then have "l' = snd (hasCapacity l)" using assms(2) by simp
  then show ?thesis using assms(1) by (cases l rule: hasCapacity_cases) (auto simp: ledger_ok_def)
next
  case (LFlush send now)
  then have "dl_entries l' = fst (flush_entries send now (dl_entries l) w)"
    using assms(2) by (auto simp: flush_def split: prod.splits)
  moreover have "\<exists>e. map_of (dl_entries l) i = Some e \<and> resent e e'"
    if "map_of (fst (flush_entries send now (dl_entries l) w)) i = Some e'" for i e'
    using flush_entries_find [of "dl_entries l" i send now w] that by (simp add: option_rel_Some2)
  ultimately show ?thesis
    using assms(1) flush_entries_keys [of send now "dl_entries l" w]
    by (auto simp: ledger_ok_def umap_ok_def resent_def) metis
qed (use assms in \<open>auto simp: ledger_ok_def ledger_accept_def finish_def queueNotice_def handleControl_def Let_def
      split: option.splits if_splits\<close>)

lemma ledger_step_keeps:
  assumes "ledger_ok l" and "keeps_result i res l" and "i \<noteq> 0" and "\<not> settles_task i a"
    and "ledger_step a (l, w) = Some (l', w')"
  shows "keeps_result i res l'"
proof (cases a)
  case LCapacity
  then have "l' = snd (hasCapacity l)" using assms(5) by simp
  then show ?thesis using assms(1,2)
    by (cases l rule: hasCapacity_cases) (auto simp: keeps_result_def ledger_ok_def umap_mem_iff)
next
  case (LFlush send now)
  then have "dl_entries l' = fst (flush_entries send now (dl_entries l) w)"
    using assms(5) by (auto simp: flush_def split: prod.splits)
  then show ?thesis
    using assms(2) flush_entries_find [of "dl_entries l" i send now w]
    by (fastforce simp: keeps_result_def resent_def option_rel_Some1)
qed (use assms in \<open>auto simp: keeps_result_def ledger_accept_def finish_def queueNotice_def handleControl_def Let_def
      split: option.splits if_splits\<close>)

lemma ledger_run_keeps:
  assumes "ledger_ok l" and "keeps_result i res l" and "i \<noteq> 0" and "list_all (\<lambda>a. \<not> settles_task i a) as"
    and "ledger_run as (l, w) = Some (l', w')"
  shows "keeps_result i res l'"
  using assms
proof (induction as arbitrary: l w)
  case (Cons a as)
  then obtain l1 w1 where 1: "ledger_step a (l, w) = Some (l1, w1)" "ledger_run as (l1, w1) = Some (l', w')"
    by (auto split: option.splits)
  with Cons show ?case
    using ledger_step_ok [OF _ 1(1)] ledger_step_keeps [OF _ _ _ _ 1(1)] by simp
qed simp

lemma ledger_run_ok: "ledger_ok l \<Longrightarrow> ledger_run as (l, w) = Some (l', w') \<Longrightarrow> ledger_ok l'"
proof (induction as arbitrary: l w)
  case (Cons a as)
  then obtain l1 w1 where 1: "ledger_step a (l, w) = Some (l1, w1)" "ledger_run as (l1, w1) = Some (l', w')"
    by (auto split: option.splits)
  show ?case by (rule Cons.IH [OF ledger_step_ok [OF Cons.prems(1) 1(1)] 1(2)])
qed simp

text \<open>A sender that remembers what it was given, answering by a function.\<close>

definition recording :: "(Msg \<Rightarrow> DispatchResult) \<Rightarrow> Msg list \<Rightarrow> Msg \<Rightarrow> DispatchResult \<times> Msg list" where
  "recording answer log m = (answer m, log @ [m])"

lemma recording_grows: "set log \<subseteq> set (snd (flush_entries (recording answer) now es log))"
  by (induction es arbitrary: log) (force simp: recording_def split_beta)+

lemma recording_legacy_grows: "set log \<subseteq> set (snd (flush_legacy (recording answer) ms log))"
  by (induction ms arbitrary: log) (force simp: recording_def split_beta)+

lemma flush_sends:
  "map_of es i = Some e \<Longrightarrow> le_ready e \<Longrightarrow> \<not> le_acknowledged e \<Longrightarrow> now \<ge> le_nextSendAt e \<Longrightarrow>
     le_result e \<in> set (snd (flush_entries (recording answer) now es log))"
proof (induction es arbitrary: log)
  case (Cons x es)
  obtain j e0 where x: "x = (j, e0)" by force
  have "m \<in> set (snd (flush_entries (recording answer) now es (log @ [m])))" for m
    using recording_grows [of "log @ [m]" answer now es] by auto
  with Cons show ?case
    by (cases "i = j") (auto simp: x split_beta recording_def [of answer log])
qed simp

text \<open>C24. A database result is never lost and its task never executed again: from the moment the result of an
  accepted task is stored, whatever the ledger does, as long as the task is not acknowledged, it keeps exactly
  that result, admits no request with its id as new (the code finishes a task only after it was
  admitted as new), and every flush that is due sends it again.\<close>

theorem result_kept_until_acknowledged:
  assumes "ledger_run as (new_ledger n, w) = Some (l, w1)" and "i \<noteq> 0" and "ledger_status l i = 1"
    and "mh_taskId (msg_head request) = i" and "finish request res l = Some l1"
    and "list_all (\<lambda>a. \<not> settles_task i a) bs" and "ledger_run bs (l1, w1) = Some (l2, w2)"
  shows "ledger_status l2 i = 2 \<and> (mh_taskId (msg_head m) = i \<longrightarrow> fst (ledger_accept m l2) \<noteq> New)
    \<and> (case map_of (dl_entries l2) i of None \<Rightarrow> False
       | Some e \<Rightarrow> le_result e = res \<and> (le_nextSendAt e \<le> now \<longrightarrow> res \<in> set (snd (flush (recording answer) now l2 []))))"
proof -
  have ok: "ledger_ok l"
    using ledger_run_ok [OF _ assms(1)] by (simp add: ledger_ok_def new_ledger_def)
  from assms(3) obtain e where e: "map_of (dl_entries l) i = Some e" "\<not> le_ready e"
    by (auto simp: ledger_status_def split: option.splits if_splits)
  then have "\<not> le_acknowledged e" using ok by (auto simp: ledger_ok_def)
  with assms(2,4,5) e have "keeps_result i res l1"
    by (auto simp: finish_def Let_def keeps_result_def)
  moreover have "ledger_ok l1"
    using ledger_step_ok [OF ok, of "LFinish request res" w1 l1 w1] assms(5) by simp
  ultimately have "keeps_result i res l2"
    using ledger_run_keeps [OF _ _ assms(2,6,7)] by simp
  then obtain e2 where e2: "map_of (dl_entries l2) i = Some e2" "le_ready e2" "le_result e2 = res" "\<not> le_acknowledged e2"
    by (auto simp: keeps_result_def)
  have "res \<in> set (snd (flush (recording answer) now l2 []))" if "le_nextSendAt e2 \<le> now"
    using flush_sends [OF e2(1,2,4) that, of answer "[]"] e2(3)
      recording_legacy_grows [of "snd (flush_entries (recording answer) now (dl_entries l2) [])" answer "dl_legacy l2"]
    by (auto simp: flush_def split_beta)
  with e2 assms(2) show ?thesis
    by (auto simp: ledger_status_def ledger_accept_def Let_def)
qed

theorem result_kept_until_acknowledged_witness:
  "\<exists>l l1 l2. ledger_run [LAccept demo_request] (new_ledger 4, [] :: Msg list) = Some (l, []) \<and> ledger_status l 9 = 1
     \<and> finish demo_request empty_msg l = Some l1
     \<and> ledger_run [LFlush (recording (\<lambda>_. kAccepted)) 0, LAccept demo_request] (l1, []) = Some (l2, [empty_msg])
     \<and> ledger_status l2 9 = 2 \<and> fst (ledger_accept demo_request l2) \<noteq> New"
proof -
  have "case ledger_run [LAccept demo_request] (new_ledger 4, [] :: Msg list) of None \<Rightarrow> False
    | Some (l, w) \<Rightarrow> w = [] \<and> ledger_status l 9 = 1 \<and> (case finish demo_request empty_msg l of None \<Rightarrow> False
       | Some l1 \<Rightarrow> (case ledger_run [LFlush (recording (\<lambda>_. kAccepted)) 0, LAccept demo_request] (l1, []) of None \<Rightarrow> False
           | Some (l2, w2) \<Rightarrow> w2 = [empty_msg]))" by code_simp
  then obtain l l1 l2 where r: "ledger_run [LAccept demo_request] (new_ledger 4, [] :: Msg list) = Some (l, [])" "ledger_status l 9 = 1"
    "finish demo_request empty_msg l = Some l1"
    "ledger_run [LFlush (recording (\<lambda>_. kAccepted)) 0, LAccept demo_request] (l1, []) = Some (l2, [empty_msg])"
    by (auto split: option.splits prod.splits)
  have i: "mh_taskId (msg_head demo_request) = 9" by code_simp
  from result_kept_until_acknowledged [OF r(1) _ r(2) i r(3) _ r(4), of demo_request] r i show ?thesis by auto
qed

end
