(* ===== verification/DbThread.thy ===== *)
theory DbThread
  imports Transaction TaskDelivery
begin

text \<open>
  The channels of the database threads, sceneServer/src-cpp/db/dbThread.h and dbThread.cc: one iteration of the MySQL loop and
  of a Redis loop, with the connection upkeep, the control messages and the delivery of results. What the
  iteration calls is a parameter on a world of its own: the clock, the connection, the execution of a task and the bus. The
  queue of waiting tasks is an argument, and so are the control messages the bus hands out in the iteration: it takes at most 256
  of them, and a run of the loop gives it the later ones in its next iterations. \<open>None\<close> is an
  exception that leaves the loop (\<open>entries_.at\<close> in the ledger). Threads, logging and diagnostics are left out.
\<close>

section \<open>Connection upkeep\<close>

record 'w db_env =
  de_now :: "'w \<Rightarrow> int"
  de_connected :: "'w \<Rightarrow> bool"
  de_connect :: "'w \<Rightarrow> bool \<times> 'w"
  de_execute :: "SqlTask \<Rightarrow> 'w \<Rightarrow> DbResult \<times> 'w"
  de_sendToWorker :: "'w \<Rightarrow> Msg \<Rightarrow> DispatchResult \<times> 'w"

record db_link =
  lk_nextTryMs :: int
  lk_failStreak :: u32

record db_channel =
  ch_results :: DbResultLedger
  ch_retries :: "RetryEntry list"
  ch_link :: db_link
  ch_tasks :: u64
  ch_errors :: u64

text \<open>\<open>BackoffMs\<close>: its loop, with the counter \<open>i\<close>; that the delay is positive is part of the condition for the sake of termination.\<close>

function backoff_loop :: "u32 \<Rightarrow> u32 \<Rightarrow> int \<Rightarrow> int" where
  "backoff_loop i streak ms = (if i < streak \<and> 0 < ms \<and> ms < 60000 then backoff_loop (i + 1) streak (ms * 2) else ms)"
  by pat_completeness auto
termination by (relation "measure (\<lambda>(i, streak, ms). nat (60000 - ms))") auto

declare backoff_loop.simps [simp del]

definition BackoffMs :: "u32 \<Rightarrow> int" where
  "BackoffMs streak = (let ms = backoff_loop 1 streak 2000 in if ms > 60000 then 60000 else ms)"

definition ensureConnection :: "'w db_env \<Rightarrow> db_link \<times> 'w \<Rightarrow> db_link \<times> 'w" where
  "ensureConnection env = (\<lambda>(k, w).
     let now = de_now env w
     in if de_connected env w then (k\<lparr>lk_failStreak := 0, lk_nextTryMs := 0\<rparr>, w)
        else if now < lk_nextTryMs k then (k, w)
        else (case de_connect env w of
                (True, w) \<Rightarrow> (k\<lparr>lk_failStreak := 0, lk_nextTryMs := 0\<rparr>, w)
              | (False, w) \<Rightarrow>
                  let streak = lk_failStreak k + 1
                  in (k\<lparr>lk_failStreak := streak, lk_nextTryMs := now + BackoffMs streak\<rparr>, w)))"

section \<open>Results and controls\<close>

definition result_message :: "Msg \<Rightarrow> DbResult \<Rightarrow> Msg" where
  "result_message task res =
     (let h = msg_head task
      in \<lparr>msg_head = empty_head\<lparr>mh_msgType := (if mh_msgType h = MSGTYPE_DB_TASK_REDIS then MSGTYPE_DB_RESULT_REDIS
                                 else MSGTYPE_DB_RESULT_MYSQL),
           mh_taskId := mh_taskId h, mh_dbShard := mh_dbShard h, mh_ctx := mh_ctx h, mh_epoch := mh_epoch h,
           mh_playerId := mh_playerId h, mh_session := mh_session h, mh_seq := mh_seq h, mh_Module := mh_Module h,
           mh_Method := mh_Method h, mh_srcWorkerId := mh_srcWorkerId h\<rparr>, msg_body = DbResult_Encode res\<rparr>)"

definition flushResults :: "'w db_env \<Rightarrow> DbResultLedger \<Rightarrow> 'w \<Rightarrow> DbResultLedger \<times> 'w" where
  "flushResults env l w = flush (de_sendToWorker env) (de_now env w) l w"

definition replyResult :: "'w db_env \<Rightarrow> Msg \<Rightarrow> DbResult \<Rightarrow> DbResultLedger \<times> 'w \<Rightarrow> (DbResultLedger \<times> 'w) option" where
  "replyResult env task res = (\<lambda>(l, w). map_option (\<lambda>l. flushResults env l w) (finish task (result_message task res) l))"

definition status_notice :: "Msg \<Rightarrow> bool \<Rightarrow> DbResultLedger \<Rightarrow> Msg" where
  "status_notice m found l = \<lparr>msg_head = (msg_head m)\<lparr>mh_msgType := MSGTYPE_DB_STATUS\<rparr>,
     msg_body = [if found then ledger_status l (mh_taskId (msg_head m)) else 0]\<rparr>"

text \<open>The loop of \<open>processControls\<close> over the messages that it pops, at most 256.\<close>

fun control_loop :: "Msg list \<Rightarrow> DbResultLedger \<Rightarrow> DbResultLedger" where
  "control_loop [] l = l"
| "control_loop (m # ms) l =
     (case handleControl m l of (found, l) \<Rightarrow>
        control_loop ms (if mh_dbControl (msg_head m) = 2 then snd (queueNotice (status_notice m found l) l) else l))"

definition processControls :: "Msg list \<Rightarrow> DbResultLedger \<Rightarrow> DbResultLedger" where
  "processControls controls l = control_loop (take 256 controls) l"

definition conflict_notice :: "u32 \<Rightarrow> u16 \<Rightarrow> Msg \<Rightarrow> Msg" where
  "conflict_notice errcode msgType task = task\<lparr>msg_head := (msg_head task)\<lparr>mh_msgType := msgType\<rparr>,
     msg_body := DbResult_Encode (empty_result\<lparr>re_errcode := errcode, re_errmsg := ascii ''taskId reused with different request'',
       re_classification := kIdentityConflict\<rparr>)\<rparr>"

definition undecodable :: "string \<Rightarrow> DbResult" where
  "undecodable message = empty_result\<lparr>re_errcode := 1, re_errmsg := ascii message\<rparr>"

section \<open>The MySQL loop\<close>

text \<open>
  The callbacks of the retries, on the ledger, the link and the world; \<open>None\<close> once an exception was thrown.
\<close>

definition retry_execute :: "'w db_env \<Rightarrow> SqlTask \<Rightarrow> (DbResultLedger \<times> db_link \<times> 'w) option
    \<Rightarrow> DbResult \<times> (DbResultLedger \<times> db_link \<times> 'w) option" where
  "retry_execute env t x = (case x of None \<Rightarrow> (empty_result, None)
     | Some (l, k, w) \<Rightarrow> (case ensureConnection env (k, w) of (k, w) \<Rightarrow> case de_execute env t w of (r, w) \<Rightarrow> (r, Some (l, k, w))))"

definition retry_complete :: "'w db_env \<Rightarrow> Msg \<Rightarrow> DbResult \<Rightarrow> (DbResultLedger \<times> db_link \<times> 'w) option
    \<Rightarrow> (DbResultLedger \<times> db_link \<times> 'w) option" where
  "retry_complete env m r x = (case x of None \<Rightarrow> None
     | Some (l, k, w) \<Rightarrow> (case replyResult env m r (l, w) of None \<Rightarrow> None | Some (l, w) \<Rightarrow> Some (l, k, w)))"

text \<open>What happens to a task that was taken from the queue.\<close>

definition mysql_task :: "'w db_env \<Rightarrow> Msg \<Rightarrow> db_channel \<Rightarrow> 'w \<Rightarrow> (db_channel \<times> 'w) option" where
  "mysql_task env task c w =
     (case ledger_accept task (ch_results c) of
        (Conflict, l) \<Rightarrow>
          (case flushResults env (snd (queueNotice (conflict_notice 1005 MSGTYPE_DB_RESULT_MYSQL task) l)) w of
             (l, w) \<Rightarrow> Some (c\<lparr>ch_results := l\<rparr>, w))
      | (Duplicate, l) \<Rightarrow> (case flushResults env l w of (l, w) \<Rightarrow> Some (c\<lparr>ch_results := l\<rparr>, w))
      | (New, l) \<Rightarrow>
          (case SqlTask_Decode (msg_body task) of
             None \<Rightarrow> (case replyResult env task (undecodable ''decode db task failed'') (l, w) of
                 None \<Rightarrow> None
               | Some (l, w) \<Rightarrow> Some (c\<lparr>ch_results := l, ch_errors := ch_errors c + 1\<rparr>, w))
           | Some t \<Rightarrow>
               (case ensureConnection env (ch_link c, w) of (k, w) \<Rightarrow>
                case de_execute env t w of (res, w) \<Rightarrow>
                  let c = c\<lparr>ch_results := l, ch_link := k, ch_errors := ch_errors c + (if re_errcode res \<noteq> 0 then 1 else 0),
                            ch_tasks := ch_tasks c + 1\<rparr>
                  in case retries_schedule task t res 1 (de_now env w) (ch_retries c) of
                       (True, entries) \<Rightarrow> Some (c\<lparr>ch_retries := entries\<rparr>, w)
                     | (False, _) \<Rightarrow> (case replyResult env task res (l, w) of
                           None \<Rightarrow> None
                         | Some (l, w) \<Rightarrow> Some (c\<lparr>ch_results := l\<rparr>, w)))))"

definition mysql_iteration :: "'w db_env \<Rightarrow> Msg list \<Rightarrow> Msg list \<Rightarrow> db_channel \<Rightarrow> 'w \<Rightarrow> (Msg list \<times> db_channel \<times> 'w) option" where
  "mysql_iteration env controls queue c w =
     (let l = processControls controls (ch_results c)
      in case retries_tick (de_now env w) (retry_execute env) (retry_complete env) (ch_retries c) (Some (l, ch_link c, w)) of
           (_, None) \<Rightarrow> None
         | (entries, Some (l, k, w)) \<Rightarrow>
             (case flushResults env l w of (l, w) \<Rightarrow>
              case hasCapacity l of (room, l) \<Rightarrow>
                let c = c\<lparr>ch_results := l, ch_retries := entries, ch_link := k\<rparr>
                in if \<not> room then Some (queue, c, w)
                   else case queue of
                     [] \<Rightarrow> (case ensureConnection env (k, w) of (k, w) \<Rightarrow> Some ([], c\<lparr>ch_link := k\<rparr>, w))
                   | task # queue \<Rightarrow> map_option (\<lambda>(c, w). (queue, c, w)) (mysql_task env task c w)))"

section \<open>A Redis loop\<close>

definition redis_task :: "'w db_env \<Rightarrow> Msg \<Rightarrow> db_channel \<Rightarrow> 'w \<Rightarrow> (db_channel \<times> 'w) option" where
  "redis_task env task c w =
     (case ledger_accept task (ch_results c) of
        (Conflict, l) \<Rightarrow>
          (case flushResults env (snd (queueNotice (conflict_notice 2004 MSGTYPE_DB_RESULT_REDIS task) l)) w of
             (l, w) \<Rightarrow> Some (c\<lparr>ch_results := l\<rparr>, w))
      | (Duplicate, l) \<Rightarrow> (case flushResults env l w of (l, w) \<Rightarrow> Some (c\<lparr>ch_results := l\<rparr>, w))
      | (New, l) \<Rightarrow>
          (case SqlTask_Decode (msg_body task) of
             None \<Rightarrow> (case replyResult env task (undecodable ''decode redis task failed'') (l, w) of
                 None \<Rightarrow> None
               | Some (l, w) \<Rightarrow> Some (c\<lparr>ch_results := l, ch_errors := ch_errors c + 1\<rparr>, w))
           | Some t \<Rightarrow>
               (case ensureConnection env (ch_link c, w) of (k, w) \<Rightarrow>
                case de_execute env t w of (res, w) \<Rightarrow>
                  let c = c\<lparr>ch_link := k, ch_errors := ch_errors c + (if re_errcode res \<noteq> 0 then 1 else 0), ch_tasks := ch_tasks c + 1\<rparr>
                  in case replyResult env task res (l, w) of
                       None \<Rightarrow> None
                     | Some (l, w) \<Rightarrow> Some (c\<lparr>ch_results := l\<rparr>, w))))"

definition redis_iteration :: "'w db_env \<Rightarrow> Msg list \<Rightarrow> Msg list \<Rightarrow> db_channel \<Rightarrow> 'w \<Rightarrow> (Msg list \<times> db_channel \<times> 'w) option" where
  "redis_iteration env controls queue c w =
     (case flushResults env (processControls controls (ch_results c)) w of (l, w) \<Rightarrow>
      case hasCapacity l of (room, l) \<Rightarrow>
        let c = c\<lparr>ch_results := l\<rparr>
        in if \<not> room then Some (queue, c, w)
           else case queue of
             [] \<Rightarrow> (case ensureConnection env (ch_link c, w) of (k, w) \<Rightarrow> Some ([], c\<lparr>ch_link := k\<rparr>, w))
           | task # queue \<Rightarrow> map_option (\<lambda>(c, w). (queue, c, w)) (redis_task env task c w))"

definition new_channel :: "nat \<Rightarrow> db_channel" where
  "new_channel capacity = \<lparr>ch_results = new_ledger capacity, ch_retries = [],
     ch_link = \<lparr>lk_nextTryMs = 0, lk_failStreak = 0\<rparr>, ch_tasks = 0, ch_errors = 0\<rparr>"

text \<open>Runs: before each iteration control messages and tasks arrive.\<close>

fun channel_run :: "('w db_env \<Rightarrow> Msg list \<Rightarrow> Msg list \<Rightarrow> db_channel \<Rightarrow> 'w \<Rightarrow> (Msg list \<times> db_channel \<times> 'w) option)
    \<Rightarrow> 'w db_env \<Rightarrow> (Msg list \<times> Msg list) list \<Rightarrow> Msg list \<Rightarrow> db_channel \<Rightarrow> 'w \<Rightarrow> (Msg list \<times> db_channel \<times> 'w) option" where
  "channel_run iteration env [] queue c w = Some (queue, c, w)"
| "channel_run iteration env ((controls, tasks) # inputs) queue c w =
     (case iteration env controls (queue @ tasks) c w of
        None \<Rightarrow> None
      | Some (queue, c, w) \<Rightarrow> channel_run iteration env inputs queue c w)"

section \<open>Tasks in progress\<close>

definition progress :: "DbResultLedger \<Rightarrow> u64 set" where
  "progress l = {i. ledger_status l i = 1}"

definition ledger_base :: "DbResultLedger \<Rightarrow> bool" where
  "ledger_base l \<longleftrightarrow> ledger_ok l \<and> map_of (dl_entries l) 0 = None"

lemma progress_iff: "i \<in> progress l \<longleftrightarrow> (\<exists>e. map_of (dl_entries l) i = Some e \<and> \<not> le_ready e)"
  by (auto simp: progress_def ledger_status_def split: option.splits)

lemma progress_put [simp]:
  "progress (l\<lparr>dl_entries := AList.update i e (dl_entries l)\<rparr>) = (if le_ready e then progress l - {i} else insert i (progress l))"
  by (auto simp: progress_iff split: if_splits)

lemma progress_delete [simp]: "progress (l\<lparr>dl_entries := AList.delete i (dl_entries l)\<rparr>) = progress l - {i}"
  by (auto simp: progress_iff split: if_splits)

lemma progress_legacy [simp]: "progress (l\<lparr>dl_legacy := ms\<rparr>) = progress l"
  by (auto simp: progress_iff)

lemma flush_same: "ledger_base l \<Longrightarrow> ledger_base (fst (flush send now l w)) \<and> progress (fst (flush send now l w)) = progress l"
proof -
  assume l: "ledger_base l"
  let ?l = "fst (flush send now l w)"
  have e: "dl_entries ?l = fst (flush_entries send now (dl_entries l) w)" by (simp add: flush_def split_beta)
  have f: "rel_option resent (map_of (dl_entries l) i) (map_of (dl_entries ?l) i)" for i
    unfolding e by (rule flush_entries_find)
  have "ledger_ok ?l" using ledger_step_ok [of l "LFlush send now" w ?l "snd (flush send now l w)"] l by (simp add: ledger_base_def)
  moreover have "map_of (dl_entries ?l) 0 = None" using f [of 0] l by (simp add: ledger_base_def)
  moreover have "i \<in> progress ?l \<longleftrightarrow> i \<in> progress l" for i
    unfolding progress_iff using f [of i] by (cases "map_of (dl_entries l) i"; cases "map_of (dl_entries ?l) i") (auto simp: resent_def)
  ultimately show ?thesis by (auto simp: ledger_base_def)
qed

lemma ledger_simple_same:
  assumes "ledger_base l"
  shows "ledger_base (snd (queueNotice m l))" "progress (snd (queueNotice m l)) = progress l"
    "ledger_base (snd (handleControl m l))" "progress (snd (handleControl m l)) = progress l"
proof -
  have ok: "ledger_ok l" using assms by (simp add: ledger_base_def)
  show "ledger_base (snd (queueNotice m l))" "progress (snd (queueNotice m l)) = progress l"
    using assms by (auto simp: queueNotice_def ledger_base_def ledger_ok_def progress_iff)
  have "ledger_ok (snd (handleControl m l))"
    using ledger_step_ok [OF ok, of "LControl m" "()" "snd (handleControl m l)" "()"] by simp
  then show "ledger_base (snd (handleControl m l))" "progress (snd (handleControl m l)) = progress l"
    using assms by (auto simp: handleControl_def Let_def ledger_base_def progress_iff split: option.splits if_splits)
qed

lemma hasCapacity_same:
  assumes "ledger_base l"
  shows "ledger_base (snd (hasCapacity l)) \<and> progress (snd (hasCapacity l)) = progress l"
proof -
  have ok: "ledger_ok l" using assms by (simp add: ledger_base_def)
  then have "ledger_ok (snd (hasCapacity l))"
    using ledger_step_ok [OF ok, of LCapacity "()" "snd (hasCapacity l)" "()"] by simp
  then show ?thesis
    using assms
  proof (cases l rule: hasCapacity_cases)
    case (2 i e)
    then have "map_of (dl_entries l) i = Some e" "le_ready e" using ok by (auto simp: ledger_ok_def umap_mem_iff)
    moreover from this have "i \<notin> progress l" by (simp add: progress_iff)
    ultimately show ?thesis using 2(3) assms \<open>ledger_ok (snd (hasCapacity l))\<close> by (auto simp: ledger_base_def)
  qed simp
qed

lemma accept_cases:
  assumes "ledger_base l"
  shows "ledger_base (snd (ledger_accept m l))
    \<and> progress (snd (ledger_accept m l)) = progress l \<union> (if fst (ledger_accept m l) = New \<and> mh_taskId (msg_head m) \<noteq> 0
         then {mh_taskId (msg_head m)} else {})
    \<and> (fst (ledger_accept m l) = New \<longrightarrow> mh_taskId (msg_head m) \<notin> progress l)"
proof -
  have ok: "ledger_ok l" using assms by (simp add: ledger_base_def)
  have "ledger_ok (snd (ledger_accept m l))"
    using ledger_step_ok [OF ok, of "LAccept m" "()" "snd (ledger_accept m l)" "()"] by simp
  moreover have "map_of (dl_entries (snd (ledger_accept m l))) 0 = None"
    using assms by (auto simp: ledger_accept_def Let_def ledger_base_def split: option.splits)
  moreover have "progress (snd (ledger_accept m l)) = progress l \<union> (if fst (ledger_accept m l) = New \<and> mh_taskId (msg_head m) \<noteq> 0
      then {mh_taskId (msg_head m)} else {}) \<and> (fst (ledger_accept m l) = New \<longrightarrow> mh_taskId (msg_head m) \<notin> progress l)"
  proof (cases "mh_taskId (msg_head m) = 0")
    case True
    then show ?thesis using assms by (simp add: ledger_accept_def ledger_base_def progress_iff)
  next
    case False
    show ?thesis
    proof (cases "map_of (dl_entries l) (mh_taskId (msg_head m))")
      case None
      with False show ?thesis by (simp add: ledger_accept_def progress_iff)
    next
      case (Some e)
      moreover have "le_ready e \<Longrightarrow> mh_taskId (msg_head m) \<notin> progress l" using Some by (simp add: progress_iff)
      ultimately show ?thesis using False by (simp add: ledger_accept_def)
    qed
  qed
  ultimately show ?thesis by (simp add: ledger_base_def)
qed

lemma finish_progress:
  assumes "ledger_base l" and "mh_taskId (msg_head m) \<noteq> 0 \<longrightarrow> mh_taskId (msg_head m) \<in> progress l"
  shows "\<exists>l'. finish m r l = Some l' \<and> ledger_base l' \<and> progress l' = progress l - {mh_taskId (msg_head m)}"
proof -
  have ok: "ledger_ok l" using assms by (simp add: ledger_base_def)
  show ?thesis
  proof (cases "mh_taskId (msg_head m) = 0")
    case True
    moreover have "0 \<notin> progress l" using assms(1) by (simp add: ledger_base_def progress_iff)
    ultimately show ?thesis using assms(1) by (simp add: finish_def ledger_base_def ledger_ok_def)
  next
    case False
    with assms(2) obtain e where e: "map_of (dl_entries l) (mh_taskId (msg_head m)) = Some e" by (auto simp: progress_iff)
    then obtain l' where l': "finish m r l = Some l'" using False by (simp add: finish_def)
    have "ledger_ok l'" using ledger_step_ok [OF ok, of "LFinish m r" "()" l' "()"] l' by simp
    with l' e False assms(1) show ?thesis by (auto simp: finish_def ledger_base_def)
  qed
qed

lemma replyResult_progress:
  assumes "ledger_base l" and "mh_taskId (msg_head m) \<noteq> 0 \<longrightarrow> mh_taskId (msg_head m) \<in> progress l"
  shows "\<exists>l' w'. replyResult env m r (l, w) = Some (l', w') \<and> ledger_base l' \<and> progress l' = progress l - {mh_taskId (msg_head m)}"
proof -
  obtain l1 where l1: "finish m (result_message m r) l = Some l1" "ledger_base l1" "progress l1 = progress l - {mh_taskId (msg_head m)}"
    using finish_progress [OF assms] by blast
  with flush_same [OF l1(2), of "de_sendToWorker env" "de_now env w" w] show ?thesis
    by (cases "flush (de_sendToWorker env) (de_now env w) l1 w") (simp add: replyResult_def flushResults_def)
qed

lemma processControls_same: "ledger_base l \<Longrightarrow> ledger_base (processControls ms l) \<and> progress (processControls ms l) = progress l"
proof -
  have "ledger_base l \<Longrightarrow> ledger_base (control_loop ms l) \<and> progress (control_loop ms l) = progress l" for ms
    by (induction ms arbitrary: l) (simp_all add: split_beta ledger_simple_same)
  then show "ledger_base l \<Longrightarrow> ledger_base (processControls ms l) \<and> progress (processControls ms l) = progress l"
    by (simp add: processControls_def)
qed

section \<open>No task is stranded\<close>

definition waiting_ids :: "RetryEntry list \<Rightarrow> u64 list" where
  "waiting_ids es = filter (\<lambda>i. i \<noteq> 0) (map (\<lambda>e. mh_taskId (msg_head (en_request e))) es)"

text \<open>The tasks in progress are those that wait for a retry, each of them once.\<close>

definition accounted :: "DbResultLedger \<Rightarrow> RetryEntry list \<Rightarrow> bool" where
  "accounted l es \<longleftrightarrow> ledger_base l \<and> distinct (waiting_ids es) \<and> progress l = set (waiting_ids es)"

lemma waiting_ids_simps [simp]:
  "waiting_ids [] = []" "waiting_ids (es @ fs) = waiting_ids es @ waiting_ids fs"
  "waiting_ids (e # es) = (if mh_taskId (msg_head (en_request e)) \<noteq> 0 then [mh_taskId (msg_head (en_request e))] else []) @ waiting_ids es"
  by (simp_all add: waiting_ids_def)

lemma waiting_not_zero [simp]: "0 \<notin> set (waiting_ids es)"
  by (simp add: waiting_ids_def)

text \<open>A task of the ledger is rescheduled or answered.\<close>

lemma reply_accounted:
  assumes base: "ledger_base l" and dist: "distinct (waiting_ids es)" "mh_taskId (msg_head m) \<notin> set (waiting_ids es)"
    and prog: "progress l = set (waiting_ids es) \<union> ({mh_taskId (msg_head m)} - {0})"
  shows "\<exists>l' w'. replyResult env m r (l, w) = Some (l', w') \<and> accounted l' es"
proof -
  have "progress l - {mh_taskId (msg_head m)} = set (waiting_ids es)" using dist(2) prog by auto
  with replyResult_progress [OF base, of m env r w] dist prog show ?thesis by (auto simp: accounted_def)
qed

lemma schedule_or_reply:
  assumes base: "ledger_base l" and dist: "distinct (waiting_ids es)" "mh_taskId (msg_head m) \<notin> set (waiting_ids es)"
    and prog: "progress l = set (waiting_ids es) \<union> ({mh_taskId (msg_head m)} - {0})"
  shows "(case retries_schedule m t r n now es of (scheduled, es') \<Rightarrow>
      if scheduled then accounted l es' else \<exists>l' w'. replyResult env m r (l, w) = Some (l', w') \<and> accounted l' es')"
  using reply_accounted [OF assms] assms by (auto simp: retries_schedule_def accounted_def)

lemma retry_tick_accounted:
  fixes env :: "'w db_env"
  assumes "accounted l es"
  shows "\<exists>es' l' k' w'. retries_tick now (retry_execute env) (retry_complete env) es (Some (l, k, w)) = (es', Some (l', k', w'))
    \<and> accounted l' es'"
proof -
  let ?Inv = "\<lambda>es x. \<exists>l k w. x = Some (l, k, w) \<and> accounted l es"
  have "case_prod ?Inv (retries_loop now (retry_execute env) (retry_complete env) 16 [] es (Some (l, k, w)))"
  proof (rule retries_loop_invariant)
    fix before rest :: "RetryEntry list" and e :: RetryEntry and x :: "(DbResultLedger \<times> db_link \<times> 'w) option"
    assume "?Inv (before @ e # rest) x"
    then obtain l k w where x: "x = Some (l, k, w)" and acc: "accounted l (before @ e # rest)" by blast
    obtain k1 w1 where c: "ensureConnection env (k, w) = (k1, w1)" by force
    obtain r w2 where r: "de_execute env (en_task e) w1 = (r, w2)" by force
    show "case retry_execute env (en_task e) x of (result, w') \<Rightarrow>
       case retries_schedule (en_request e) (en_task e) result (en_attempts e + 1) now (before @ rest) of (scheduled, entries) \<Rightarrow>
         ?Inv entries (if scheduled then w' else retry_complete env (en_request e) result w')"
      using acc schedule_or_reply [where l = l and es = "before @ rest" and m = "en_request e" and t = "en_task e" and r = r
          and n = "en_attempts e + 1" and now = now and env = env and w = w2]
      by (auto simp: x c r retry_execute_def retry_complete_def accounted_def split: prod.splits if_splits)
  qed (use assms in auto)
  then show ?thesis by (auto simp: retries_tick_def split: prod.splits)
qed

lemma flushResults_accounted:
  "accounted l es \<Longrightarrow> \<exists>l' w'. flushResults env l w = (l', w') \<and> accounted l' es"
  using flush_same [of l "de_sendToWorker env" "de_now env w" w]
  by (cases "flushResults env l w") (auto simp: accounted_def flushResults_def)

lemma flushed_accounted: "accounted l es \<Longrightarrow> accounted (fst (flushResults env l w)) es"
  using flushResults_accounted [of l es env w] by auto

lemma mysql_task_accounted:
  assumes "accounted (ch_results c) (ch_retries c)"
  shows "\<exists>c' w'. mysql_task env task c w = Some (c', w') \<and> accounted (ch_results c') (ch_retries c')"
proof -
  have base: "ledger_base (ch_results c)" using assms by (simp add: accounted_def)
  obtain a l where al: "ledger_accept task (ch_results c) = (a, l)" by force
  note acc = accept_cases [OF base, of task, unfolded al, simplified]
  show ?thesis
  proof (cases "a = New")
    case True
    let ?i = "mh_taskId (msg_head task)"
    have new: "ledger_base l" "?i \<notin> set (waiting_ids (ch_retries c))" "progress l = set (waiting_ids (ch_retries c)) \<union> ({?i} - {0})"
      using acc assms True by (auto simp: accounted_def)
    have d: "distinct (waiting_ids (ch_retries c))" using assms by (simp add: accounted_def)
    show ?thesis
    proof (cases "SqlTask_Decode (msg_body task)")
      case None
      obtain l' w' where "replyResult env task (undecodable ''decode db task failed'') (l, w) = Some (l', w')"
        "accounted l' (ch_retries c)"
        using reply_accounted [OF new(1) d new(2,3), where env = env and r = "undecodable ''decode db task failed''" and w = w] by blast
      then show ?thesis using al True None by (simp add: mysql_task_def)
    next
      case (Some t)
      obtain k w1 where c: "ensureConnection env (ch_link c, w) = (k, w1)" by force
      obtain r w2 where r: "de_execute env t w1 = (r, w2)" by force
      obtain b es where b: "retries_schedule task t r 1 (de_now env w2) (ch_retries c) = (b, es)" by force
      have "b \<or> es = ch_retries c" using b by (auto simp: retries_schedule_def split: if_splits)
      moreover have "if b then accounted l es else \<exists>l' w'. replyResult env task r (l, w2) = Some (l', w') \<and> accounted l' es"
        using schedule_or_reply [OF new(1) d new(2,3), where t = t and r = r and n = 1 and now = "de_now env w2" and env = env and w = w2] b
        by simp
      ultimately show ?thesis
        using al True Some c r b by (cases b) (auto simp: mysql_task_def Let_def)
    qed
  next
    case False
    then have "accounted l (ch_retries c)" using acc assms by (simp add: accounted_def)
    moreover from this have "accounted (snd (queueNotice m l)) (ch_retries c)" for m
      using ledger_simple_same(1,2) [of l m] by (simp add: accounted_def)
    ultimately show ?thesis
      using al False by (cases a) (simp_all add: mysql_task_def split_beta flushed_accounted)
  qed
qed

lemma redis_task_accounted:
  assumes "accounted (ch_results c) (ch_retries c)"
  shows "\<exists>c' w'. redis_task env task c w = Some (c', w') \<and> accounted (ch_results c') (ch_retries c') \<and> ch_retries c' = ch_retries c"
proof -
  have base: "ledger_base (ch_results c)" and d: "distinct (waiting_ids (ch_retries c))" using assms by (simp_all add: accounted_def)
  obtain a l where al: "ledger_accept task (ch_results c) = (a, l)" by force
  note acc = accept_cases [OF base, of task, unfolded al, simplified]
  show ?thesis
  proof (cases "a = New")
    case True
    let ?i = "mh_taskId (msg_head task)"
    have new: "ledger_base l" "?i \<notin> set (waiting_ids (ch_retries c))" "progress l = set (waiting_ids (ch_retries c)) \<union> ({?i} - {0})"
      using acc assms True by (auto simp: accounted_def)
    have reply: "\<exists>l' w'. replyResult env task r (l, w) = Some (l', w') \<and> accounted l' (ch_retries c)" for r w
      by (rule reply_accounted [OF new(1) d new(2,3)])
    show ?thesis
    proof (cases "SqlTask_Decode (msg_body task)")
      case None
      with reply [of "undecodable ''decode redis task failed''" w] al True show ?thesis by (auto simp: redis_task_def)
    next
      case (Some t)
      obtain k w1 where c: "ensureConnection env (ch_link c, w) = (k, w1)" by force
      obtain r w2 where r: "de_execute env t w1 = (r, w2)" by force
      from reply [of r w2] al True Some c r show ?thesis by (auto simp: redis_task_def Let_def)
    qed
  next
    case False
    then have "accounted l (ch_retries c)" using acc assms by (simp add: accounted_def)
    moreover from this have "accounted (snd (queueNotice m l)) (ch_retries c)" for m
      using ledger_simple_same(1,2) [of l m] by (simp add: accounted_def)
    ultimately show ?thesis
      using al False by (cases a) (simp_all add: redis_task_def split_beta flushed_accounted)
  qed
qed

lemma mysql_iteration_accounted:
  assumes "accounted (ch_results c) (ch_retries c)"
  shows "\<exists>q' c' w'. mysql_iteration env controls queue c w = Some (q', c', w') \<and> accounted (ch_results c') (ch_retries c')"
proof -
  let ?l = "processControls controls (ch_results c)"
  have "accounted ?l (ch_retries c)" using assms processControls_same [of "ch_results c" controls] by (simp add: accounted_def)
  then obtain es l1 k1 w1 where t: "retries_tick (de_now env w) (retry_execute env) (retry_complete env) (ch_retries c)
      (Some (?l, ch_link c, w)) = (es, Some (l1, k1, w1))" "accounted l1 es"
    using retry_tick_accounted [where env = env and now = "de_now env w" and k = "ch_link c" and w = w] by blast
  obtain l2 w2 where f: "flushResults env l1 w1 = (l2, w2)" "accounted l2 es" using flushResults_accounted [OF t(2), of env w1] by blast
  obtain room l3 where h: "hasCapacity l2 = (room, l3)" by force
  have acc: "accounted l3 es" using hasCapacity_same [of l2] f(2) h by (simp add: accounted_def)
  let ?c = "c\<lparr>ch_results := l3, ch_retries := es, ch_link := k1\<rparr>"
  obtain k4 w4 where k: "ensureConnection env (k1, w2) = (k4, w4)" by force
  have "accounted (ch_results ?c) (ch_retries ?c)" using acc by simp
  note task = mysql_task_accounted [OF this, of env "hd queue" w2]
  show ?thesis
  proof (cases "room \<and> queue \<noteq> []")
    case True
    with task show ?thesis by (cases queue) (auto simp: mysql_iteration_def Let_def t(1) f(1) h k)
  next
    case False
    with acc show ?thesis by (cases queue; cases room) (auto simp: mysql_iteration_def Let_def t(1) f(1) h k)
  qed
qed

lemma redis_iteration_accounted:
  assumes "accounted (ch_results c) (ch_retries c)"
  shows "\<exists>q' c' w'. redis_iteration env controls queue c w = Some (q', c', w') \<and> accounted (ch_results c') (ch_retries c')
    \<and> ch_retries c' = ch_retries c"
proof -
  let ?l = "processControls controls (ch_results c)"
  have "accounted ?l (ch_retries c)" using assms processControls_same [of "ch_results c" controls] by (simp add: accounted_def)
  then obtain l2 w2 where f: "flushResults env ?l w = (l2, w2)" "accounted l2 (ch_retries c)"
    using flushResults_accounted [where env = env and w = w] by blast
  obtain room l3 where h: "hasCapacity l2 = (room, l3)" by force
  have acc: "accounted l3 (ch_retries c)" using hasCapacity_same [of l2] f(2) h by (simp add: accounted_def)
  let ?c = "c\<lparr>ch_results := l3\<rparr>"
  obtain k4 w4 where k: "ensureConnection env (ch_link c, w2) = (k4, w4)" by force
  have "accounted (ch_results ?c) (ch_retries ?c)" using acc by simp
  note task = redis_task_accounted [OF this, of env "hd queue" w2]
  show ?thesis
  proof (cases "room \<and> queue \<noteq> []")
    case True
    with task show ?thesis by (cases queue) (auto simp: redis_iteration_def Let_def f(1) h k)
  next
    case False
    with acc show ?thesis by (cases queue; cases room) (auto simp: redis_iteration_def Let_def f(1) h k)
  qed
qed

section \<open>Both loops\<close>

text \<open>
  What the runs of a loop need of one iteration: it never throws, and it keeps the tasks accounted for.
\<close>

locale channel_loop =
  fixes iteration :: "'w db_env \<Rightarrow> Msg list \<Rightarrow> Msg list \<Rightarrow> db_channel \<Rightarrow> 'w \<Rightarrow> (Msg list \<times> db_channel \<times> 'w) option"
    and ok :: "db_channel \<Rightarrow> bool"
  assumes iteration_ok: "ok c \<Longrightarrow> \<exists>q' c' w'. iteration env controls queue c w = Some (q', c', w') \<and> ok c'"
begin

lemma run_ok: "ok c \<Longrightarrow> \<exists>q' c' w'. channel_run iteration env inputs queue c w = Some (q', c', w') \<and> ok c'"
proof (induction inputs arbitrary: queue c w)
  case (Cons x inputs)
  obtain controls tasks where x: "x = (controls, tasks)" by force
  obtain q1 c1 w1 where "iteration env controls (queue @ tasks) c w = Some (q1, c1, w1)" "ok c1"
    using iteration_ok [OF Cons.prems] by blast
  with Cons.IH [of c1 q1 w1] show ?case by (simp add: x)
qed simp

end

interpretation mysql_loop: channel_loop mysql_iteration "\<lambda>c. accounted (ch_results c) (ch_retries c)"
  by unfold_locales (rule mysql_iteration_accounted)

interpretation redis_loop: channel_loop redis_iteration "\<lambda>c. accounted (ch_results c) (ch_retries c) \<and> ch_retries c = []"
proof
  fix c :: db_channel and env :: "'w db_env" and controls queue w
  assume "accounted (ch_results c) (ch_retries c) \<and> ch_retries c = []"
  then show "\<exists>q' c' w'. redis_iteration env controls queue c w = Some (q', c', w')
      \<and> accounted (ch_results c') (ch_retries c') \<and> ch_retries c' = []"
    using redis_iteration_accounted [of c env controls queue w] by auto
qed

lemma new_channel_accounted: "accounted (ch_results (new_channel n)) (ch_retries (new_channel n))" "ch_retries (new_channel n) = []"
  by (auto simp: new_channel_def accounted_def new_ledger_def ledger_base_def ledger_ok_def progress_iff)

text \<open>
  C26. No database task is stranded. Whatever tasks and control messages arrive, however the connection and the
  executions fail and whatever the workers answer, the MySQL loop never throws, and after every iteration the
  tasks that are still in progress are exactly those that wait for one of their bounded retries: every other admitted
  task has its result in the ledger.
\<close>

theorem no_mysql_task_is_stranded:
  "\<exists>q c w'. channel_run mysql_iteration env inputs [] (new_channel n) w = Some (q, c, w')
     \<and> (ledger_status (ch_results c) i = 1 \<longleftrightarrow> i \<in> set (waiting_ids (ch_retries c)))"
proof -
  obtain q c w' where "channel_run mysql_iteration env inputs [] (new_channel n) w = Some (q, c, w')"
    "accounted (ch_results c) (ch_retries c)"
    using mysql_loop.run_ok [where c = "new_channel n" and env = env and inputs = inputs and queue = "[]" and w = w,
        OF new_channel_accounted(1)] by blast
  then show ?thesis by (auto simp: accounted_def progress_def)
qed

text \<open>
  A Redis loop answers every admitted task in the iteration that took it: it never throws, and after every iteration no
  task is in progress.
\<close>

theorem redis_tasks_answered_at_once:
  "\<exists>q c w'. channel_run redis_iteration env inputs [] (new_channel n) w = Some (q, c, w') \<and> ledger_status (ch_results c) i \<noteq> 1"
proof -
  have "accounted (ch_results (new_channel n)) (ch_retries (new_channel n)) \<and> ch_retries (new_channel n) = []"
    using new_channel_accounted by blast
  from redis_loop.run_ok [OF this, of env inputs "[]" w] show ?thesis
    by (auto simp: accounted_def progress_def)
qed

section \<open>Backoff\<close>

lemma backoff_loop_value:
  "2000 * 2 ^ k = ms \<Longrightarrow> unat i = k + 1 \<Longrightarrow> k \<le> 5 \<Longrightarrow> 1 \<le> unat streak \<Longrightarrow> k + 1 \<le> unat streak \<Longrightarrow>
   min 60000 (backoff_loop i streak ms) = min 60000 (2000 * 2 ^ (unat streak - 1))"
proof (induction "5 - k" arbitrary: k i ms)
  case 0
  then have k: "k = 5" by simp
  then have ms: "ms = 64000" using 0 by simp
  have "(2000 :: int) * 2 ^ 5 \<le> 2000 * 2 ^ (unat streak - 1)"
    using 0 k by (intro mult_left_mono power_increasing) auto
  then show ?case by (simp add: backoff_loop.simps [of i] ms)
next
  case (Suc n)
  show ?case
  proof (cases "i < streak")
    case True
    have "unat (i + 1) = unat i + 1" using Suc by (intro u32_inc(1)) auto
    moreover have "ms < 60000"
    proof -
      have "(2 :: int) ^ k \<le> 2 ^ 4" using Suc by (intro power_increasing) auto
      then show ?thesis using Suc by simp
    qed
    moreover have "0 < ms" using Suc by auto
    moreover have "k + 2 \<le> unat streak" using True Suc by (simp add: word_less_nat_alt)
    ultimately show ?thesis
      using Suc True Suc(1) [of "k + 1" "ms * 2" "i + 1"] by (simp add: backoff_loop.simps [of i])
  next
    case False
    then have "unat streak = k + 1" using Suc by (simp add: word_less_nat_alt)
    then show ?thesis using Suc False by (simp add: backoff_loop.simps [of i])
  qed
qed

text \<open>The delay doubles with every failure, from two seconds up to one minute.\<close>

lemma BackoffMs_doubles: "0 < streak \<Longrightarrow> BackoffMs streak = min 60000 (2000 * 2 ^ (unat streak - 1))"
  using backoff_loop_value [of 0 2000 1 streak] unat_gt_0 [of streak] by (auto simp: BackoffMs_def Let_def min_def word_gt_0 split: if_splits)

end
