(* ===== verification/PlayerManager.thy ===== *)
theory PlayerManager
  imports Player
begin

text \<open>
  The table of player actors of one logic thread, sceneServer/src-cpp/player/playerManager.h and
  playerManager.cc. A returned pointer is the key of the actor it points to; \<open>NowMs\<close> is an argument.
\<close>

section \<open>State and operations\<close>

record PlayerManager =
  pm_workerId :: u32
  pm_nextEpoch :: u32
  pm_actors :: "(u64, Player) umap"
  pm_sizeSnapshot :: nat

definition new_manager :: "u32 \<Rightarrow> PlayerManager" where
  "new_manager workerId = \<lparr>pm_workerId = workerId, pm_nextEpoch = 1, pm_actors = [], pm_sizeSnapshot = 0\<rparr>"

definition getOrCreate :: "u64 \<Rightarrow> u64 \<Rightarrow> int \<Rightarrow> PlayerManager \<Rightarrow> (u64 option \<times> u32) \<times> PlayerManager" where
  "getOrCreate playerId session now m =
     (if playerId = 0 then ((None, 0), m)
      else case map_of (pm_actors m) playerId of
        Some p \<Rightarrow>
          if p_session p = session
          then let p' = touch now p
               in ((Some playerId, p_epoch p'), m\<lparr>pm_actors := AList.update playerId p' (pm_actors m)\<rparr>)
          else let p' = touch now (p\<lparr>p_session := session, p_epoch := pm_nextEpoch m\<rparr>)
               in ((Some playerId, p_epoch p'),
                   m\<lparr>pm_actors := AList.update playerId p' (pm_actors m), pm_nextEpoch := pm_nextEpoch m + 1\<rparr>)
      | None \<Rightarrow>
          let p = touch now (new_player\<lparr>p_playerId := playerId, p_session := session, p_epoch := pm_nextEpoch m\<rparr>);
              actors = AList.update playerId p (pm_actors m)
          in ((Some playerId, p_epoch p),
              m\<lparr>pm_actors := actors, pm_nextEpoch := pm_nextEpoch m + 1, pm_sizeSnapshot := length actors\<rparr>))"

definition manager_get :: "PlayerManager \<Rightarrow> u64 \<Rightarrow> Player option" where
  "manager_get m playerId = map_of (pm_actors m) playerId"

definition manager_remove :: "u64 \<Rightarrow> PlayerManager \<Rightarrow> bool \<times> PlayerManager" where
  "manager_remove playerId m =
     (case map_of (pm_actors m) playerId of
        None \<Rightarrow> (False, m)
      | Some _ \<Rightarrow> let actors = AList.delete playerId (pm_actors m)
                  in (True, m\<lparr>pm_actors := actors, pm_sizeSnapshot := length actors\<rparr>))"

definition validateEpoch :: "PlayerManager \<Rightarrow> u64 \<Rightarrow> u32 \<Rightarrow> bool" where
  "validateEpoch m playerId epoch =
     (case map_of (pm_actors m) playerId of
        None \<Rightarrow> False
      | Some p \<Rightarrow> if epoch = 0 then True else p_epoch p = epoch)"

definition epochOf :: "PlayerManager \<Rightarrow> u64 \<Rightarrow> u32" where
  "epochOf m playerId = (case map_of (pm_actors m) playerId of None \<Rightarrow> 0 | Some p \<Rightarrow> p_epoch p)"

definition sessionOf :: "PlayerManager \<Rightarrow> u64 \<Rightarrow> u64" where
  "sessionOf m playerId = (case map_of (pm_actors m) playerId of None \<Rightarrow> 0 | Some p \<Rightarrow> p_session p)"

definition renewEpoch :: "u64 \<Rightarrow> PlayerManager \<Rightarrow> bool \<times> PlayerManager" where
  "renewEpoch playerId m =
     (case manager_get m playerId of
        None \<Rightarrow> (False, m)
      | Some p \<Rightarrow> (True, m\<lparr>pm_actors := AList.update playerId (p\<lparr>p_epoch := pm_nextEpoch m\<rparr>) (pm_actors m),
                          pm_nextEpoch := pm_nextEpoch m + 1\<rparr>))"

text \<open>\<open>forEach\<close>: the function may change the actor it is given and stops the loop with \<open>False\<close>.\<close>

fun forEach_loop :: "(Player \<Rightarrow> bool \<times> Player) \<Rightarrow> (u64, Player) umap \<Rightarrow> (u64, Player) umap" where
  "forEach_loop fn [] = []"
| "forEach_loop fn ((k, p) # rest) =
     (case fn p of (True, p') \<Rightarrow> (k, p') # forEach_loop fn rest | (False, p') \<Rightarrow> (k, p') # rest)"

definition manager_forEach :: "(Player \<Rightarrow> bool \<times> Player) \<Rightarrow> PlayerManager \<Rightarrow> PlayerManager" where
  "manager_forEach fn m = m\<lparr>pm_actors := forEach_loop fn (pm_actors m)\<rparr>"

section \<open>Runs\<close>

text \<open>The operations of the manager, and what the logic thread does through a pointer from \<open>get\<close>.\<close>

datatype manager_op =
    MGetOrCreate u64 u64 int | MRemove u64 | MRenewEpoch u64 | MAct u64 player_op | MLoad u64 PlayerSaveSnapshot

definition on_actor :: "u64 \<Rightarrow> (Player \<Rightarrow> Player) \<Rightarrow> PlayerManager \<Rightarrow> PlayerManager" where
  "on_actor playerId f m =
     (case manager_get m playerId of None \<Rightarrow> m
      | Some p \<Rightarrow> m\<lparr>pm_actors := AList.update playerId (f p) (pm_actors m)\<rparr>)"

fun manager_step :: "manager_op \<Rightarrow> PlayerManager \<Rightarrow> PlayerManager" where
  "manager_step (MGetOrCreate pid session now) m = snd (getOrCreate pid session now m)"
| "manager_step (MRemove pid) m = snd (manager_remove pid m)"
| "manager_step (MRenewEpoch pid) m = snd (renewEpoch pid m)"
| "manager_step (MAct pid opr) m = on_actor pid (\<lambda>p. snd (player_act opr p)) m"
| "manager_step (MLoad pid s) m = on_actor pid (\<lambda>p. snd (restoreSaveSnapshot s p)) m"

section \<open>Invariant\<close>

definition manager_ok :: "PlayerManager \<Rightarrow> bool" where
  "manager_ok m \<longleftrightarrow> umap_ok (pm_actors m) \<and> pm_sizeSnapshot m = length (pm_actors m)
     \<and> list_all (\<lambda>(k, p). k \<noteq> 0 \<and> p_playerId p = k) (pm_actors m)"

lemma player_act_identity [simp]:
  "p_playerId (snd (player_act opr p)) = p_playerId p" "p_epoch (snd (player_act opr p)) = p_epoch p"
  by (cases opr; auto simp: player_simps split: option.splits)+

lemma restore_identity [simp]:
  "p_epoch (snd (restoreSaveSnapshot s p)) = p_epoch p"
  "p_playerId p \<noteq> 0 \<Longrightarrow> p_playerId (snd (restoreSaveSnapshot s p)) = p_playerId p"
  by (auto simp: restoreSaveSnapshot_def split: prod.splits bool.splits)

lemma list_all_update: "list_all P m \<Longrightarrow> P (k, v) \<Longrightarrow> list_all P (AList.update k v m)"
  by (induction m) auto

lemma list_all_map_of: "list_all P m \<Longrightarrow> map_of m k = Some v \<Longrightarrow> P (k, v)"
  by (auto simp: list_all_iff dest: map_of_SomeD)

lemma on_actor_ok:
  assumes "manager_ok m" and "\<And>p. p_playerId p \<noteq> 0 \<Longrightarrow> p_playerId (f p) = p_playerId p"
  shows "manager_ok (on_actor pid f m)"
  using assms by (auto simp: manager_ok_def on_actor_def manager_get_def length_update_old
      intro!: list_all_update dest: list_all_map_of split: option.splits)

lemma manager_step_ok [inv_intros]:
  assumes "manager_ok m"
  shows "manager_ok (manager_step a m)"
proof (cases a)
  case (MGetOrCreate pid session now)
  with assms show ?thesis
    by (auto simp: getOrCreate_def Let_def manager_ok_def touch_def length_update_old
        intro!: list_all_update dest: list_all_map_of split: option.splits)
next
  case (MRemove pid)
  with assms show ?thesis
    by (auto simp: manager_remove_def Let_def manager_ok_def list_all_iff AList.delete_eq split: option.splits)
next
  case (MRenewEpoch pid)
  with assms show ?thesis
    by (auto simp: renewEpoch_def manager_get_def manager_ok_def length_update_old
        intro!: list_all_update dest: list_all_map_of split: option.splits)
qed (use assms in \<open>auto intro!: on_actor_ok\<close>)

section \<open>Epochs as tokens\<close>

definition epoch_token :: "PlayerManager \<Rightarrow> u64 \<Rightarrow> nat option" where
  "epoch_token m pid = map_option (unat \<circ> p_epoch) (map_of (pm_actors m) pid)"

definition epoch_left :: "manager_op \<Rightarrow> PlayerManager \<Rightarrow> bool" where
  "epoch_left a m \<longleftrightarrow> pm_nextEpoch m \<noteq> 0xFFFFFFFF"

interpretation epochs: token_source manager_step epoch_token "\<lambda>m. unat (pm_nextEpoch m)" epoch_left
proof
  fix a m assume "epoch_left a m"
  then have inc: "unat (pm_nextEpoch m + 1) = unat (pm_nextEpoch m) + 1"
    by (intro u32_inc(1)) (simp add: epoch_left_def)
  then show "unat (pm_nextEpoch m) \<le> unat (pm_nextEpoch (manager_step a m))"
    by (cases a) (auto simp: getOrCreate_def manager_remove_def renewEpoch_def on_actor_def Let_def split: option.splits)
  fix k t assume "epoch_token (manager_step a m) k = Some t"
  with inc show "epoch_token m k = Some t \<or>
      unat (pm_nextEpoch m) \<le> t \<and> t < unat (pm_nextEpoch (manager_step a m))"
    by (cases a) (auto simp: epoch_token_def getOrCreate_def manager_remove_def renewEpoch_def on_actor_def
        manager_get_def touch_def Let_def split: option.splits if_splits)
qed

definition manager_run :: "manager_op list \<Rightarrow> PlayerManager \<Rightarrow> PlayerManager" where
  "manager_run as m = fold manager_step as m"

lemma manager_run_tokens: "manager_run as m = epochs.run as m"
  by (induction as arbitrary: m) (simp_all add: manager_run_def)

lemma manager_run_ok: "manager_ok m \<Longrightarrow> manager_ok (manager_run as m)"
  by (induction as arbitrary: m) (simp_all add: manager_run_def inv_intros)

lemma nextEpoch_step:
  "unat (pm_nextEpoch m) < 0xFFFFFFFF \<Longrightarrow> unat (pm_nextEpoch (manager_step a m)) \<le> unat (pm_nextEpoch m) + 1"
proof -
  assume "unat (pm_nextEpoch m) < 0xFFFFFFFF"
  then have "pm_nextEpoch m \<noteq> 0xFFFFFFFF" by auto
  from u32_inc(1) [OF this] show ?thesis
    by (cases a) (auto simp: getOrCreate_def manager_remove_def renewEpoch_def on_actor_def Let_def split: option.splits)
qed

text \<open>A shard with fewer than \<open>2 ^ 32 - 1\<close> epochs issued does not wrap its counter.\<close>

lemma epochs_left: "unat (pm_nextEpoch m) + length as \<le> 0xFFFFFFFF \<Longrightarrow> epochs.safe_run as m"
proof (induction as arbitrary: m)
  case (Cons a as)
  then have "unat (pm_nextEpoch m) < 0xFFFFFFFF" by simp
  moreover from this nextEpoch_step [of m a] Cons.prems
  have "unat (pm_nextEpoch (manager_step a m)) + length as \<le> 0xFFFFFFFF" by simp
  moreover from calculation(1) have "epoch_left a m" by (auto simp: epoch_left_def)
  ultimately show ?case using Cons.IH by simp
qed simp

lemma epochOf_token:
  "epochOf m pid \<noteq> 0 \<Longrightarrow> epoch_token m pid = Some (unat (epochOf m pid))"
  "e \<noteq> 0 \<Longrightarrow> epoch_token m pid = Some (unat e) \<longleftrightarrow> validateEpoch m pid e"
  "e \<noteq> 0 \<Longrightarrow> validateEpoch m pid e \<longleftrightarrow> epochOf m pid = e"
  by (auto simp: epochOf_def epoch_token_def validateEpoch_def word_unat_eq_iff split: option.splits)

text \<open>A late callback never reaches a new life of an actor: if a callback was issued with the epoch of a
  player and the player's epoch then changed (a new session, a renewed epoch, a removal, a removal followed
  by a new login), \<open>validateEpoch\<close> refuses that epoch in every later state, as long as fewer than
  \<open>2 ^ 32 - 1\<close> operations were made on the shard. The table also stays consistent: every actor is stored
  under its own nonzero id and the published size is the number of actors.\<close>

theorem stale_epoch_never_validates:
  assumes "m1 = manager_run as (new_manager w)" and "m2 = manager_run bs m1" and "m3 = manager_run cs m2"
    and "length as + length bs + length cs < 0xFFFFFFFF"
    and "e = epochOf m1 pid" and "e \<noteq> 0" and "epochOf m2 pid \<noteq> e"
  shows "\<not> validateEpoch m3 pid e \<and> manager_ok m3"
proof -
  have m3: "m3 = epochs.run cs m2" and m2: "m2 = epochs.run bs m1" and m1: "m1 = epochs.run as (new_manager w)"
    using assms(1-3) by (simp_all add: manager_run_tokens)
  have "epochs.safe_run (as @ bs @ cs) (new_manager w)"
    using assms(4) by (intro epochs_left) (simp add: new_manager_def)
  then have safe: "epochs.safe_run as (new_manager w)" "epochs.safe_run bs m1" "epochs.safe_run cs m2"
    by (simp_all add: epochs.safe_run_append m1 m2)
  have tok: "epoch_token m1 pid = Some (unat e)" using epochOf_token(1) [of m1 pid] assms(5,6) by simp
  have "unat e < unat (pm_nextEpoch m1)"
    using epochs.issued_below [OF safe(1)] tok by (simp add: epoch_token_def new_manager_def m1)
  then have "unat e < unat (pm_nextEpoch m2)"
    using epochs.run_bound [OF safe(2)] by (simp add: m2)
  moreover have "epoch_token m2 pid \<noteq> Some (unat e)"
    using assms(6,7) by (simp add: epochOf_token)
  ultimately have "epoch_token m3 pid \<noteq> Some (unat e)"
    using epochs.retired_stays_retired [OF safe(3)] by (simp add: m3)
  moreover have "manager_ok (new_manager w)" by (simp add: manager_ok_def new_manager_def)
  ultimately show ?thesis
    using assms(1-3,6) by (simp add: epochOf_token(2) manager_run_ok)
qed

theorem stale_epoch_never_validates_witness:
  "let m1 = manager_run [MGetOrCreate 5 100 0] (new_manager 1); m2 = manager_run [MGetOrCreate 5 200 1] m1;
       m3 = manager_run [MRemove 5, MGetOrCreate 5 100 2] m2
   in epochOf m1 5 = 1 \<and> epochOf m3 5 = 3 \<and> \<not> validateEpoch m3 5 1"
proof -
  let ?m1 = "manager_run [MGetOrCreate 5 100 0] (new_manager 1)" let ?m2 = "manager_run [MGetOrCreate 5 200 1] ?m1"
  let ?m3 = "manager_run [MRemove 5, MGetOrCreate 5 100 2] ?m2"
  have "epochOf ?m1 5 = 1 \<and> epochOf ?m2 5 \<noteq> 1 \<and> epochOf ?m3 5 = 3" by code_simp
  with stale_epoch_never_validates [OF refl refl refl, of "[MGetOrCreate 5 100 0]" "[MGetOrCreate 5 200 1]"
      "[MRemove 5, MGetOrCreate 5 100 2]" 1 1 5]
  show ?thesis by (simp add: Let_def)
qed

end
