(* ===== verification/WorkerPending.thy ===== *)
theory WorkerPending
  imports Messages
begin

text \<open>
  The network thread's waiting lists in front of the logic threads,
  sceneServer/src-cpp/net/workerPendingTasks.h. Handing a message to a worker is a callback that may
  change the world: it takes the world and returns it, so the model covers every behaviour of the bus.
  \<open>sizeof(Task)\<close>, which only the compiler knows, is an argument. \<open>size_t\<close> counters are natural numbers whose
  decrement wraps, and the proofs show that it never does.
\<close>

section \<open>State\<close>

record Limits =
  maxBusinessTasks :: nat
  maxBusinessBytes :: nat
  businessTimeoutMs :: u64
  perWorkerAttempts :: nat
  globalAttempts :: nat
  retryIntervalMs :: u32

definition limits_valid :: "Limits \<Rightarrow> bool" where
  "limits_valid l \<longleftrightarrow> maxBusinessTasks l \<noteq> 0 \<and> maxBusinessBytes l \<noteq> 0 \<and> businessTimeoutMs l \<noteq> 0
     \<and> businessTimeoutMs l \<le> 3600000 \<and> perWorkerAttempts l \<noteq> 0 \<and> globalAttempts l \<noteq> 0
     \<and> retryIntervalMs l \<noteq> 0 \<and> retryIntervalMs l \<le> 1000"

datatype Admission = Accepted | Pending | Busy | InternalError

record Stats =
  st_businessTasks :: nat
  st_businessBytes :: nat
  st_lifecycleTasks :: nat
  st_accepted :: u64
  st_busy :: u64
  st_expired :: u64
  st_stale :: u64
  st_internalErrors :: u64
  st_directBusy :: u64
  st_taskLimitBusy :: u64
  st_byteLimitBusy :: u64

definition zero_stats :: Stats where
  "zero_stats = \<lparr>st_businessTasks = 0, st_businessBytes = 0, st_lifecycleTasks = 0, st_accepted = 0,
     st_busy = 0, st_expired = 0, st_stale = 0, st_internalErrors = 0, st_directBusy = 0,
     st_taskLimitBusy = 0, st_byteLimitBusy = 0\<rparr>"

datatype ErrorCode = ERROR_CODE_INTERNAL | ERROR_CODE_PLAYER_SESSION_INVALID | ERROR_CODE_PENDING_TIMEOUT

type_synonym Rejected = "Msg \<times> ErrorCode"

record Task =
  t_message :: Msg
  t_lifecycle :: bool
  t_deadline :: u64
  t_bytes :: nat

record Queue =
  q_tasks :: "Task list"
  q_stats :: Stats

record WorkerPendingTasks =
  queues :: "Queue list"
  limits :: Limits
  cursor :: nat

type_synonym 'w send = "'w \<Rightarrow> nat \<Rightarrow> Msg \<Rightarrow> DispatchResult \<times> 'w"

section \<open>Operations\<close>

text \<open>The constructor throws (\<open>None\<close>) for no workers or invalid limits.\<close>

definition new_pending :: "nat \<Rightarrow> Limits \<Rightarrow> WorkerPendingTasks option" where
  "new_pending workers l =
     (if workers = 0 \<or> \<not> limits_valid l then None
      else Some \<lparr>queues = replicate workers \<lparr>q_tasks = [], q_stats = zero_stats\<rparr>, limits = l, cursor = 0\<rparr>)"

definition pending_empty :: "WorkerPendingTasks \<Rightarrow> bool" where
  "pending_empty s \<longleftrightarrow> list_all (\<lambda>q. q_tasks q = []) (queues s)"

definition accountRemove :: "Task \<Rightarrow> Stats \<Rightarrow> Stats" where
  "accountRemove t st =
     (if t_lifecycle t then st\<lparr>st_lifecycleTasks := size_sub (st_lifecycleTasks st) 1\<rparr>
      else st\<lparr>st_businessTasks := size_sub (st_businessTasks st) 1,
              st_businessBytes := size_sub (st_businessBytes st) (t_bytes t)\<rparr>)"

definition add_deadline :: "Limits \<Rightarrow> u64 \<Rightarrow> u64" where
  "add_deadline l now =
     (let timeout = businessTimeoutMs l * 1000
      in if now > 0xFFFFFFFFFFFFFFFF - timeout then 0xFFFFFFFFFFFFFFFF else now + timeout)"

text \<open>The second half of \<open>submit\<close>: the limits and the append.\<close>

definition enqueue :: "nat \<Rightarrow> Limits \<Rightarrow> Msg \<Rightarrow> bool \<Rightarrow> u64 \<Rightarrow> Queue \<Rightarrow> Admission \<times> Queue" where
  "enqueue task_size l m lifecycle now q =
     (let bytes = task_size + length (msg_body m); st = q_stats q
      in if \<not> lifecycle \<and> st_businessTasks st \<ge> maxBusinessTasks l
         then (Busy, q\<lparr>q_stats := st\<lparr>st_busy := st_busy st + 1, st_taskLimitBusy := st_taskLimitBusy st + 1\<rparr>\<rparr>)
         else if \<not> lifecycle \<and> (bytes > maxBusinessBytes l \<or> st_businessBytes st > size_sub (maxBusinessBytes l) bytes)
         then (Busy, q\<lparr>q_stats := st\<lparr>st_busy := st_busy st + 1, st_byteLimitBusy := st_byteLimitBusy st + 1\<rparr>\<rparr>)
         else (Pending, q\<lparr>q_tasks := q_tasks q @
                            [\<lparr>t_message = m, t_lifecycle = lifecycle, t_deadline = add_deadline l now, t_bytes = bytes\<rparr>],
                          q_stats := (if lifecycle then st\<lparr>st_lifecycleTasks := st_lifecycleTasks st + 1\<rparr>
                                      else st\<lparr>st_businessTasks := st_businessTasks st + 1,
                                              st_businessBytes := st_businessBytes st + bytes\<rparr>)\<rparr>))"

definition submit_queue :: "nat \<Rightarrow> Limits \<Rightarrow> 'w send \<Rightarrow> nat \<Rightarrow> Msg \<Rightarrow> bool \<Rightarrow> u64 \<Rightarrow> Queue \<Rightarrow> 'w
    \<Rightarrow> (Admission \<times> Queue) \<times> 'w" where
  "submit_queue task_size l send worker m lifecycle now q w =
     (if q_tasks q = []
      then case send w worker m of (r, w') \<Rightarrow>
        let st = q_stats q;
            st' = (if r \<noteq> kBackpressure then st\<lparr>st_internalErrors := st_internalErrors st + 1\<rparr> else st)
        in if IsAccepted r then ((Accepted, q\<lparr>q_stats := st\<lparr>st_accepted := st_accepted st + 1\<rparr>\<rparr>), w')
           else if r \<noteq> kBackpressure \<and> \<not> lifecycle then ((InternalError, q\<lparr>q_stats := st'\<rparr>), w')
           else if \<not> lifecycle
           then ((Busy, q\<lparr>q_stats := st'\<lparr>st_busy := st_busy st' + 1, st_directBusy := st_directBusy st' + 1\<rparr>\<rparr>), w')
           else (enqueue task_size l m lifecycle now (q\<lparr>q_stats := st'\<rparr>), w')
      else (enqueue task_size l m lifecycle now q, w))"

definition pending_submit :: "nat \<Rightarrow> 'w send \<Rightarrow> nat \<Rightarrow> Msg \<Rightarrow> bool \<Rightarrow> u64 \<Rightarrow> WorkerPendingTasks \<times> 'w
    \<Rightarrow> Admission \<times> WorkerPendingTasks \<times> 'w" where
  "pending_submit task_size send worker m lifecycle now = (\<lambda>(s, w).
     if worker \<ge> length (queues s) then (InternalError, s, w)
     else case submit_queue task_size (limits s) send worker m lifecycle now (queues s ! worker) w of
       ((a, q), w') \<Rightarrow> (a, s\<lparr>queues := (queues s)[worker := q]\<rparr>, w'))"

text \<open>The first loop of \<open>pump\<close>: business tasks that are late or whose session is gone.\<close>

fun expire_tasks :: "u64 \<Rightarrow> (Msg \<Rightarrow> bool) \<Rightarrow> Task list \<Rightarrow> Stats \<Rightarrow> Rejected list \<times> Task list \<times> Stats" where
  "expire_tasks now valid [] st = ([], [], st)"
| "expire_tasks now valid (t # ts) st =
     (if \<not> t_lifecycle t \<and> (now \<ge> t_deadline t \<or> \<not> valid (t_message t))
      then let late = now \<ge> t_deadline t;
               st' = (if late then st\<lparr>st_expired := st_expired st + 1\<rparr> else st\<lparr>st_stale := st_stale st + 1\<rparr>)
           in (case expire_tasks now valid ts (accountRemove t st') of (rej, ts', st'') \<Rightarrow>
                 ((t_message t, if late then ERROR_CODE_PENDING_TIMEOUT else ERROR_CODE_PLAYER_SESSION_INVALID) # rej,
                  ts', st''))
      else (case expire_tasks now valid ts st of (rej, ts', st') \<Rightarrow> (rej, t # ts', st')))"

fun expire_queues :: "u64 \<Rightarrow> (Msg \<Rightarrow> bool) \<Rightarrow> Queue list \<Rightarrow> Rejected list \<times> Queue list" where
  "expire_queues now valid [] = ([], [])"
| "expire_queues now valid (q # qs) =
     (case expire_tasks now valid (q_tasks q) (q_stats q) of (rej, ts, st) \<Rightarrow>
      case expire_queues now valid qs of (rej', qs') \<Rightarrow>
        (rej @ rej', q\<lparr>q_tasks := ts, q_stats := st\<rparr> # qs'))"

text \<open>The attempts for one worker. Every iteration removes the front task or ends the loop.\<close>

fun attempts :: "Limits \<Rightarrow> 'w send \<Rightarrow> nat \<Rightarrow> nat \<Rightarrow> nat \<Rightarrow> Task list \<Rightarrow> Stats \<Rightarrow> 'w
    \<Rightarrow> (Rejected list \<times> nat) \<times> (Task list \<times> Stats) \<times> 'w" where
  "attempts l send worker tried attempted [] st w = (([], attempted), ([], st), w)"
| "attempts l send worker tried attempted (t # ts) st w =
     (if tried < perWorkerAttempts l \<and> attempted < globalAttempts l
      then case send w worker (t_message t) of (r, w') \<Rightarrow>
        if r = kBackpressure then (([], attempted + 1), (t # ts, st), w')
        else if \<not> IsAccepted r
        then let st' = st\<lparr>st_internalErrors := st_internalErrors st + 1\<rparr>
             in if t_lifecycle t then (([], attempted + 1), (t # ts, st'), w')
                else (case attempts l send worker (tried + 1) (attempted + 1) ts (accountRemove t st') w' of
                        ((rej, n), rest) \<Rightarrow> (((t_message t, ERROR_CODE_INTERNAL) # rej, n), rest))
        else attempts l send worker (tried + 1) (attempted + 1) ts
               (accountRemove t (st\<lparr>st_accepted := st_accepted st + 1\<rparr>)) w'
      else (([], attempted), (t # ts, st), w))"

text \<open>The round over the workers from the cursor; the first argument counts the workers left.\<close>

fun pump_workers :: "nat \<Rightarrow> 'w send \<Rightarrow> nat \<Rightarrow> WorkerPendingTasks \<Rightarrow> 'w
    \<Rightarrow> Rejected list \<times> WorkerPendingTasks \<times> 'w" where
  "pump_workers 0 send attempted s w = ([], s, w)"
| "pump_workers (Suc n) send attempted s w =
     (if attempted < globalAttempts (limits s)
      then let worker = cursor s; s' = s\<lparr>cursor := (cursor s + 1) mod length (queues s)\<rparr>; q = queues s ! worker
           in (case attempts (limits s) send worker 0 attempted (q_tasks q) (q_stats q) w of
                 ((rej, attempted'), (ts, st), w') \<Rightarrow>
                   case pump_workers n send attempted'
                          (s'\<lparr>queues := (queues s)[worker := q\<lparr>q_tasks := ts, q_stats := st\<rparr>]\<rparr>) w' of
                     (rej', rest) \<Rightarrow> (rej @ rej', rest))
      else ([], s, w))"

definition pump :: "u64 \<Rightarrow> 'w send \<Rightarrow> (Msg \<Rightarrow> bool) \<Rightarrow> WorkerPendingTasks \<times> 'w
    \<Rightarrow> Rejected list \<times> WorkerPendingTasks \<times> 'w" where
  "pump now send valid = (\<lambda>(s, w).
     case expire_queues now valid (queues s) of (rej, qs) \<Rightarrow>
     case pump_workers (length qs) send 0 (s\<lparr>queues := qs\<rparr>) w of (rej', rest) \<Rightarrow> (rej @ rej', rest))"

fun cancel_tasks :: "u64 \<Rightarrow> Task list \<Rightarrow> Stats \<Rightarrow> Task list \<times> Stats" where
  "cancel_tasks session [] st = ([], st)"
| "cancel_tasks session (t # ts) st =
     (if \<not> t_lifecycle t \<and> mh_session (msg_head (t_message t)) = session
      then cancel_tasks session ts (accountRemove t st)
      else (case cancel_tasks session ts st of (ts', st') \<Rightarrow> (t # ts', st')))"

definition cancelSession :: "u64 \<Rightarrow> WorkerPendingTasks \<Rightarrow> WorkerPendingTasks" where
  "cancelSession session s = s\<lparr>queues := map (\<lambda>q.
     case cancel_tasks session (q_tasks q) (q_stats q) of (ts, st) \<Rightarrow> q\<lparr>q_tasks := ts, q_stats := st\<rparr>) (queues s)\<rparr>"

definition task_wait :: "u64 \<Rightarrow> Task \<Rightarrow> u64" where
  "task_wait now t = (if now \<ge> t_deadline t then 0 else (t_deadline t - now + 999) div 1000)"

definition waitMs :: "u64 \<Rightarrow> WorkerPendingTasks \<Rightarrow> int" where
  "waitMs now s =
     (if pending_empty s then - 1
      else uint (fold (\<lambda>t wait. if \<not> t_lifecycle t then min wait (task_wait now t) else wait)
                   (concat (map q_tasks (queues s))) (ucast (retryIntervalMs (limits s)))))"

section \<open>Accounting\<close>

text \<open>The statistics count the tasks of a list, besides \<open>n\<close> business tasks with \<open>b\<close> bytes and \<open>c\<close> lifecycle
  tasks that are kept elsewhere.\<close>

definition counts :: "nat \<Rightarrow> nat \<Rightarrow> nat \<Rightarrow> Task list \<Rightarrow> Stats \<Rightarrow> bool" where
  "counts n b c ts st \<longleftrightarrow>
     st_businessTasks st = n + length (filter (\<lambda>t. \<not> t_lifecycle t) ts)
     \<and> st_businessBytes st = b + sum_list (map t_bytes (filter (\<lambda>t. \<not> t_lifecycle t) ts))
     \<and> st_lifecycleTasks st = c + length (filter t_lifecycle ts)"

lemma counts_other [simp]:
  "counts n b c ts (st\<lparr>st_accepted := v\<rparr>) = counts n b c ts st"
  "counts n b c ts (st\<lparr>st_expired := v\<rparr>) = counts n b c ts st"
  "counts n b c ts (st\<lparr>st_stale := v\<rparr>) = counts n b c ts st"
  "counts n b c ts (st\<lparr>st_internalErrors := v\<rparr>) = counts n b c ts st"
  "counts n b c ts (st\<lparr>st_busy := v\<rparr>) = counts n b c ts st"
  "counts n b c ts (st\<lparr>st_directBusy := v\<rparr>) = counts n b c ts st"
  "counts n b c ts (st\<lparr>st_taskLimitBusy := v\<rparr>) = counts n b c ts st"
  "counts n b c ts (st\<lparr>st_byteLimitBusy := v\<rparr>) = counts n b c ts st"
  by (simp_all add: counts_def)

lemma counts_remove: "counts n b c (t # ts) st \<Longrightarrow> counts n b c ts (accountRemove t st)"
  by (auto simp: counts_def accountRemove_def)

lemma counts_keep:
  "t_lifecycle t \<Longrightarrow> counts n b c (t # ts) st = counts n b (c + 1) ts st"
  "\<not> t_lifecycle t \<Longrightarrow> counts n b c (t # ts) st = counts (n + 1) (b + t_bytes t) c ts st"
  by (auto simp: counts_def)

lemma counts_kept:
  assumes "counts n b c (t # ts) st"
    and "\<And>n b c. counts n b c ts st \<Longrightarrow> counts n b c ts' st'"
  shows "counts n b c (t # ts') st'"
  using assms by (cases "t_lifecycle t") (simp_all add: counts_keep)

lemma expire_counts:
  "counts n b c ts st \<Longrightarrow>
     counts n b c (fst (snd (expire_tasks now valid ts st))) (snd (snd (expire_tasks now valid ts st)))"
proof (induction ts arbitrary: n b c st)
  case (Cons t ts)
  let ?st = "if now \<ge> t_deadline t then st\<lparr>st_expired := st_expired st + 1\<rparr> else st\<lparr>st_stale := st_stale st + 1\<rparr>"
  have "counts n b c ts (accountRemove t ?st)"
    using Cons.prems by (intro counts_remove) simp
  from Cons.IH [OF this] counts_kept [OF Cons.prems Cons.IH]
  show ?case by (simp add: Let_def split_beta)
qed simp

lemma cancel_counts:
  "counts n b c ts st \<Longrightarrow> counts n b c (fst (cancel_tasks session ts st)) (snd (cancel_tasks session ts st))"
proof (induction ts arbitrary: n b c st)
  case (Cons t ts)
  from Cons.IH [OF counts_remove [OF Cons.prems]] counts_kept [OF Cons.prems Cons.IH]
  show ?case by (simp add: split_beta)
qed simp

lemma attempts_counts:
  "counts n b c ts st \<Longrightarrow>
     (case attempts l send worker tried attempted ts st w of (_, (ts', st'), _) \<Rightarrow> counts n b c ts' st')"
proof (induction ts arbitrary: tried attempted st w)
  case (Cons t ts)
  have "counts n b c ts (accountRemove t (st\<lparr>st_internalErrors := v\<rparr>))"
    "counts n b c ts (accountRemove t (st\<lparr>st_accepted := v\<rparr>))" for v
    using Cons.prems by (auto intro!: counts_remove)
  from this [THEN Cons.IH] Cons.prems show ?case by (simp add: Let_def split_beta)
qed simp

text \<open>What is left of a list is a subsequence of it.\<close>

lemma expire_subseq: "subseq (fst (snd (expire_tasks now valid ts st))) ts"
  by (induction ts arbitrary: st) (auto simp: Let_def split_beta)

lemma cancel_subseq: "subseq (fst (cancel_tasks session ts st)) ts"
  by (induction ts arbitrary: st) (auto simp: split_beta)

lemma attempts_subseq:
  "case attempts l send worker tried attempted ts st w of (_, (ts', _), _) \<Rightarrow> subseq ts' ts"
  by (induction ts arbitrary: tried attempted st w) (auto simp: Let_def split_beta)

definition within :: "Limits \<Rightarrow> Task list \<Rightarrow> bool" where
  "within l ts \<longleftrightarrow> length (filter (\<lambda>t. \<not> t_lifecycle t) ts) \<le> maxBusinessTasks l
     \<and> sum_list (map t_bytes (filter (\<lambda>t. \<not> t_lifecycle t) ts)) \<le> maxBusinessBytes l"

lemma sum_list_subseq: "subseq xs ys \<Longrightarrow> sum_list (map f xs) \<le> (sum_list (map f ys) :: nat)"
  by (induction rule: list_emb.induct) auto

lemma within_subseq: "subseq ts' ts \<Longrightarrow> within l ts \<Longrightarrow> within l ts'"
proof -
  assume "subseq ts' ts"
  then have "subseq (filter (\<lambda>t. \<not> t_lifecycle t) ts') (filter (\<lambda>t. \<not> t_lifecycle t) ts)"
    by (rule subseq_filter)
  from list_emb_length [OF this] sum_list_subseq [OF this, of t_bytes]
  show "within l ts \<Longrightarrow> within l ts'" by (auto simp: within_def)
qed

definition queue_ok :: "Limits \<Rightarrow> Queue \<Rightarrow> bool" where
  "queue_ok l q \<longleftrightarrow> counts 0 0 0 (q_tasks q) (q_stats q) \<and> within l (q_tasks q)"

lemma queue_ok_reduced:
  "queue_ok l q \<Longrightarrow> subseq ts (q_tasks q) \<Longrightarrow> counts 0 0 0 ts st \<Longrightarrow> queue_ok l (q\<lparr>q_tasks := ts, q_stats := st\<rparr>)"
  by (auto simp: queue_ok_def intro: within_subseq)

lemma enqueue_ok: "queue_ok l q \<Longrightarrow> queue_ok l (snd (enqueue task_size l m lifecycle now q))"
  by (auto simp: enqueue_def Let_def queue_ok_def counts_def within_def)

lemma submit_queue_ok:
  "queue_ok l q \<Longrightarrow> queue_ok l (snd (fst (submit_queue task_size l send worker m lifecycle now q w)))"
proof (cases "q_tasks q = []")
  case True
  obtain r w' where s: "send w worker m = (r, w')" by force
  assume "queue_ok l q"
  then have "queue_ok l (q\<lparr>q_stats := (q_stats q)\<lparr>st_internalErrors := v\<rparr>\<rparr>)" for v
    by (simp add: queue_ok_def)
  with True s show ?thesis
    using \<open>queue_ok l q\<close> by (auto simp: submit_queue_def Let_def intro: enqueue_ok) (simp_all add: queue_ok_def)
qed (simp add: submit_queue_def enqueue_ok)

section \<open>Order\<close>

text \<open>A world that also remembers, in order, what the workers accepted.\<close>

definition logging :: "'w send \<Rightarrow> ('w \<times> (nat \<times> Msg) list) send" where
  "logging send = (\<lambda>(w, log) worker m.
     case send w worker m of (r, w') \<Rightarrow> (r, (w', if IsAccepted r then log @ [(worker, m)] else log)))"

definition for_worker :: "nat \<Rightarrow> (nat \<times> Msg) list \<Rightarrow> Msg list" where
  "for_worker k log = map snd (filter (\<lambda>e. fst e = k) log)"

lemma for_worker_append [simp]: "for_worker k (xs @ ys) = for_worker k xs @ for_worker k ys"
  by (simp add: for_worker_def)

lemma for_worker_single [simp]: "for_worker k [(j, m)] = (if j = k then [m] else [])" "for_worker k [] = []"
  by (simp_all add: for_worker_def)

text \<open>Of the messages \<open>sub\<close> submitted for a worker, \<open>sent\<close> were accepted by it and \<open>ts\<close> wait, in this order,
  and no lifecycle message (those with \<open>lc\<close>) is missing.\<close>

definition fifo :: "(Msg \<Rightarrow> bool) \<Rightarrow> Msg list \<Rightarrow> Msg list \<Rightarrow> Task list \<Rightarrow> bool" where
  "fifo lc sub sent ts \<longleftrightarrow> subseq (sent @ map t_message ts) sub
     \<and> filter lc (sent @ map t_message ts) = filter lc sub
     \<and> list_all (\<lambda>t. t_lifecycle t = lc (t_message t)) ts"

lemma subseq_insert: "subseq (xs @ ys) (xs @ y # ys)"
  by (induction xs) auto

lemma fifo_drop:
  assumes "fifo lc sub sent (us @ t # ts)" and "\<not> t_lifecycle t"
  shows "fifo lc sub sent (us @ ts)"
proof -
  have "subseq (sent @ map t_message (us @ ts)) (sent @ map t_message (us @ t # ts))"
    using subseq_insert [of "sent @ map t_message us" "map t_message ts"] by simp
  then show ?thesis using assms by (auto simp: fifo_def intro: subseq_order.trans)
qed

lemma fifo_send: "fifo lc sub sent (t # ts) \<Longrightarrow> fifo lc sub (sent @ [t_message t]) ts"
  by (simp add: fifo_def)

lemma expire_fifo:
  "fifo lc sub sent (us @ ts) \<Longrightarrow> fifo lc sub sent (us @ fst (snd (expire_tasks now valid ts st)))"
proof (induction ts arbitrary: us st)
  case (Cons t ts)
  from Cons.IH [of "us @ [t]"] Cons.IH [of us] fifo_drop [OF Cons.prems] Cons.prems
  show ?case by (simp add: Let_def split_beta)
qed simp

lemma cancel_fifo:
  "fifo lc sub sent (us @ ts) \<Longrightarrow> fifo lc sub sent (us @ fst (cancel_tasks session ts st))"
proof (induction ts arbitrary: us st)
  case (Cons t ts)
  from Cons.IH [of "us @ [t]"] Cons.IH [of us] fifo_drop [OF Cons.prems] Cons.prems
  show ?case by (simp add: split_beta)
qed simp

lemma attempts_fifo:
  "fifo lc sub (for_worker worker log) ts \<Longrightarrow>
     (case attempts l (logging send) worker tried attempted ts st (w, log) of (_, (ts', _), (_, log')) \<Rightarrow>
        fifo lc sub (for_worker worker log') ts' \<and> (\<forall>k. k \<noteq> worker \<longrightarrow> for_worker k log' = for_worker k log))"
proof (induction ts arbitrary: tried attempted st w log)
  case (Cons t ts)
  obtain r w' where r: "send w worker (t_message t) = (r, w')" by force
  have drop: "\<not> t_lifecycle t \<Longrightarrow> fifo lc sub (for_worker worker log) ts"
    using fifo_drop [of lc sub _ "[]" t ts] Cons.prems by simp
  from fifo_send [OF Cons.prems] have sent: "fifo lc sub (for_worker worker (log @ [(worker, t_message t)])) ts"
    by simp
  note IH1 = Cons.IH [OF sent, of "tried + 1" "attempted + 1" _ w']
  note IH2 = Cons.IH [OF drop, of "tried + 1" "attempted + 1" _ w']
  show ?case
    using IH1 IH2 r Cons.prems by (auto simp: logging_def Let_def split_beta)
qed simp

lemma enqueue_fifo:
  assumes "fifo lc sub sent (q_tasks q)"
  shows "fifo lc (sub @ [m]) sent (q_tasks (snd (enqueue task_size l m (lc m) now q)))"
proof -
  let ?xs = "sent @ map t_message (q_tasks q)"
  have "subseq ?xs sub" using assms by (simp add: fifo_def)
  then have "subseq ?xs (sub @ [m])" "subseq (?xs @ [m]) (sub @ [m])"
    by (blast intro: list_emb_prefix list_emb_append_mono)+
  with assms show ?thesis by (auto simp: enqueue_def Let_def fifo_def)
qed

lemma submit_queue_fifo:
  assumes "fifo lc sub (for_worker worker log) (q_tasks q)"
  shows "case submit_queue task_size l (logging send) worker m (lc m) now q (w, log) of ((_, q'), (_, log')) \<Rightarrow>
      fifo lc (sub @ [m]) (for_worker worker log') (q_tasks q')
      \<and> (\<forall>k. k \<noteq> worker \<longrightarrow> for_worker k log' = for_worker k log)"
proof (cases "q_tasks q = []")
  case False
  then show ?thesis using enqueue_fifo [OF assms] by (simp add: submit_queue_def split_beta)
next
  case True
  obtain r w' where r: "send w worker m = (r, w')" by force
  have "fifo lc (sub @ [m]) (for_worker worker log) (q_tasks (snd (enqueue task_size l m (lc m) now (q\<lparr>q_stats := st\<rparr>))))" for st
    using enqueue_fifo [of lc sub _ "q\<lparr>q_stats := st\<rparr>"] assms by simp
  moreover have "fifo lc (sub @ [m]) (for_worker worker log @ [m]) []"
    using assms True by (simp add: fifo_def list_emb_append_mono)
  moreover have "\<not> lc m \<Longrightarrow> fifo lc (sub @ [m]) (for_worker worker log) []"
    using assms True by (simp add: fifo_def list_emb_prefix)
  moreover note enqueue_fifo [OF assms, of m task_size l now]
  ultimately show ?thesis
    using True r by (auto simp: submit_queue_def logging_def Let_def split_beta)
qed

section \<open>Runs\<close>

text \<open>What the network thread does: it submits with a flag that depends on the message, pumps, cancels.\<close>

datatype pending_op = PendSubmit nat Msg u64 | PendPump u64 "Msg \<Rightarrow> bool" | PendCancel u64

fun pending_step :: "nat \<Rightarrow> (Msg \<Rightarrow> bool) \<Rightarrow> 'w send \<Rightarrow> pending_op \<Rightarrow> WorkerPendingTasks \<times> 'w
    \<Rightarrow> WorkerPendingTasks \<times> 'w" where
  "pending_step z lc send (PendSubmit k m now) x = snd (pending_submit z send k m (lc m) now x)"
| "pending_step z lc send (PendPump now valid) x = snd (pump now send valid x)"
| "pending_step z lc send (PendCancel session) x = (cancelSession session (fst x), snd x)"

definition pending_run :: "nat \<Rightarrow> (Msg \<Rightarrow> bool) \<Rightarrow> 'w send \<Rightarrow> pending_op list \<Rightarrow> WorkerPendingTasks \<times> 'w
    \<Rightarrow> WorkerPendingTasks \<times> 'w" where
  "pending_run z lc send ops x = fold (pending_step z lc send) ops x"

fun submitted :: "nat \<Rightarrow> pending_op list \<Rightarrow> Msg list" where
  "submitted k [] = []"
| "submitted k (PendSubmit j m now # ops) = (if j = k then m # submitted k ops else submitted k ops)"
| "submitted k (_ # ops) = submitted k ops"

lemma submitted_append: "submitted k (xs @ ys) = submitted k xs @ submitted k ys"
  by (induction k xs rule: submitted.induct) auto

definition pending_ok :: "WorkerPendingTasks \<Rightarrow> bool" where
  "pending_ok s \<longleftrightarrow> list_all (queue_ok (limits s)) (queues s) \<and> cursor s < length (queues s)"

definition ordered :: "(Msg \<Rightarrow> bool) \<Rightarrow> (nat \<Rightarrow> Msg list) \<Rightarrow> WorkerPendingTasks \<Rightarrow> (nat \<times> Msg) list \<Rightarrow> bool" where
  "ordered lc sub s log \<longleftrightarrow>
     (\<forall>k < length (queues s). fifo lc (sub k) (for_worker k log) (q_tasks (queues s ! k)))"

lemma list_all_set_nth: "list_all P xs \<Longrightarrow> P x \<Longrightarrow> list_all P (xs[i := x])"
  by (auto simp: list_all_iff dest: set_update_subset_insert [THEN subsetD])

lemma list_all_at: "list_all P xs \<Longrightarrow> i < length xs \<Longrightarrow> P (xs ! i)"
  by (simp add: list_all_length)

text \<open>Replacing the list of one worker, with a log that grows for that worker only.\<close>

lemma ordered_set:
  assumes "ordered lc sub s log" and "worker < length (queues s)"
    and "fifo lc (sub' worker) (for_worker worker log') (q_tasks q)"
    and "\<forall>k. k \<noteq> worker \<longrightarrow> for_worker k log' = for_worker k log \<and> sub' k = sub k"
    and "queues s' = (queues s)[worker := q]"
  shows "ordered lc sub' s' log'"
  using assms by (auto simp: ordered_def nth_list_update)

lemma submit_step:
  assumes "pending_ok s" and "ordered lc sub s log"
    and "pending_submit z (logging send) k m (lc m) now (s, w, log) = (a, s', w', log')"
  shows "pending_ok s' \<and> ordered lc (\<lambda>j. if j = k then sub j @ [m] else sub j) s' log'
    \<and> limits s' = limits s \<and> length (queues s') = length (queues s)"
proof (cases "k < length (queues s)")
  case False
  with assms show ?thesis by (auto simp: pending_submit_def ordered_def)
next
  case True
  obtain q where q: "submit_queue z (limits s) (logging send) k m (lc m) now (queues s ! k) (w, log) = ((a, q), (w', log'))"
    and s': "s' = s\<lparr>queues := (queues s)[k := q]\<rparr>"
    using assms(3) True by (auto simp: pending_submit_def split: prod.splits)
  have "queue_ok (limits s) q"
    using submit_queue_ok [of "limits s" "queues s ! k" z "logging send" k m "lc m" now "(w, log)"] q assms(1) True
    by (simp add: pending_ok_def list_all_at)
  then have "pending_ok s'" using assms(1) by (simp add: pending_ok_def s' list_all_set_nth)
  moreover have "fifo lc (sub k @ [m]) (for_worker k log') (q_tasks q)
      \<and> (\<forall>j. j \<noteq> k \<longrightarrow> for_worker j log' = for_worker j log)"
    using submit_queue_fifo [where lc = lc and sub = "sub k" and worker = k and log = log and q = "queues s ! k"
        and task_size = z and l = "limits s" and send = send and m = m and now = now and w = w] q assms(2) True
    by (simp add: ordered_def)
  then have "ordered lc (\<lambda>j. if j = k then sub j @ [m] else sub j) s' log'"
    by (intro ordered_set [OF assms(2) True, where q = q]) (auto simp: s')
  ultimately show ?thesis by (simp add: s')
qed

lemma pump_workers_step:
  assumes "pending_ok s" and "ordered lc sub s log"
    and "pump_workers n (logging send) attempted s (w, log) = (rej, s', w', log')"
  shows "pending_ok s' \<and> ordered lc sub s' log' \<and> limits s' = limits s \<and> length (queues s') = length (queues s)"
  using assms
proof (induction n arbitrary: attempted s w log rej)
  case (Suc n)
  show ?case
  proof (cases "attempted < globalAttempts (limits s)")
    case True
    define k where "k = cursor s"
    define q where "q = queues s ! k"
    have k: "k < length (queues s)" using Suc.prems(1) by (simp add: k_def pending_ok_def)
    obtain rej1 n1 ts st w1 log1 where a:
      "attempts (limits s) (logging send) k 0 attempted (q_tasks q) (q_stats q) (w, log) = ((rej1, n1), (ts, st), (w1, log1))"
      by (metis surj_pair)
    define s1 where "s1 = s\<lparr>cursor := (cursor s + 1) mod length (queues s),
        queues := (queues s)[k := q\<lparr>q_tasks := ts, q_stats := st\<rparr>]\<rparr>"
    obtain rej2 where rest: "pump_workers n (logging send) n1 s1 (w1, log1) = (rej2, s', w', log')"
      using Suc.prems(3) True a by (auto simp: Let_def k_def q_def s1_def split: prod.splits)
    have q_ok: "queue_ok (limits s) q"
      using Suc.prems(1) k by (simp add: pending_ok_def list_all_at q_def)
    then have "queue_ok (limits s) (q\<lparr>q_tasks := ts, q_stats := st\<rparr>)"
      using attempts_counts [where n = 0 and b = 0 and c = 0 and ts = "q_tasks q" and l = "limits s" and send = "logging send"
          and worker = k and tried = 0 and attempted = attempted and st = "q_stats q" and w = "(w, log)"]
        attempts_subseq [where ts = "q_tasks q" and l = "limits s" and send = "logging send" and worker = k and tried = 0
          and attempted = attempted and st = "q_stats q" and w = "(w, log)"] a
      by (intro queue_ok_reduced) (simp_all add: queue_ok_def)
    moreover have "(cursor s + 1) mod length (queues s) < length (queues s)"
      using k by (intro mod_less_divisor) auto
    ultimately have "pending_ok s1"
      using Suc.prems(1) by (simp add: pending_ok_def s1_def list_all_set_nth)
    moreover have "fifo lc (sub k) (for_worker k log1) ts \<and> (\<forall>j. j \<noteq> k \<longrightarrow> for_worker j log1 = for_worker j log)"
      using attempts_fifo [where lc = lc and sub = "sub k" and worker = k and log = log and ts = "q_tasks q" and l = "limits s"
        and send = send and tried = 0 and attempted = attempted and st = "q_stats q" and w = w] a Suc.prems(2) k
      by (simp add: ordered_def q_def)
    then have "ordered lc sub s1 log1"
      by (intro ordered_set [OF Suc.prems(2) k, where q = "q\<lparr>q_tasks := ts, q_stats := st\<rparr>"]) (auto simp: s1_def)
    ultimately show ?thesis using Suc.IH [OF _ _ rest] by (simp add: s1_def)
  next
    case False
    with Suc.prems show ?thesis by simp
  qed
qed simp

lemma expire_queues_map:
  "snd (expire_queues now valid qs) = map (\<lambda>q. q\<lparr>q_tasks := fst (snd (expire_tasks now valid (q_tasks q) (q_stats q))),
     q_stats := snd (snd (expire_tasks now valid (q_tasks q) (q_stats q)))\<rparr>) qs"
  by (induction qs) (simp_all add: split_beta)

text \<open>A rewrite of every waiting list that only drops business tasks and keeps the books.\<close>

lemma rewrite_queues:
  assumes "pending_ok s" and "ordered lc sub s log"
    and "\<And>q. counts 0 0 0 (q_tasks q) (q_stats q) \<Longrightarrow> counts 0 0 0 (ts q) (st q)"
    and "\<And>q. subseq (ts q) (q_tasks q)"
    and "\<And>q sub sent. fifo lc sub sent (q_tasks q) \<Longrightarrow> fifo lc sub sent (ts q)"
    and "s' = s\<lparr>queues := map (\<lambda>q. q\<lparr>q_tasks := ts q, q_stats := st q\<rparr>) (queues s)\<rparr>"
  shows "pending_ok s' \<and> ordered lc sub s' log \<and> limits s' = limits s \<and> length (queues s') = length (queues s)"
  using assms by (auto simp: pending_ok_def ordered_def list_all_iff queue_ok_def intro: within_subseq [OF assms(4)])

lemma pump_step:
  assumes "pending_ok s" and "ordered lc sub s log"
    and "pump now (logging send) valid (s, w, log) = (rej, s', w', log')"
  shows "pending_ok s' \<and> ordered lc sub s' log' \<and> limits s' = limits s \<and> length (queues s') = length (queues s)"
proof -
  define s1 where "s1 = s\<lparr>queues := snd (expire_queues now valid (queues s))\<rparr>"
  have s1: "pending_ok s1 \<and> ordered lc sub s1 log \<and> limits s1 = limits s \<and> length (queues s1) = length (queues s)"
    by (rule rewrite_queues [OF assms(1,2),
          where ts = "\<lambda>q. fst (snd (expire_tasks now valid (q_tasks q) (q_stats q)))"
            and st = "\<lambda>q. snd (snd (expire_tasks now valid (q_tasks q) (q_stats q)))"])
      (use expire_fifo [where us = "[]"] in \<open>auto simp: s1_def expire_queues_map expire_subseq intro: expire_counts\<close>)
  obtain rej1 where "pump_workers (length (queues s1)) (logging send) 0 s1 (w, log) = (rej1, s', w', log')"
    using assms(3) by (auto simp: pump_def s1_def split_beta prod_eq_iff)
  from pump_workers_step [OF _ _ this, of lc sub] s1 show ?thesis by simp
qed

lemma cancel_step:
  assumes "pending_ok s" and "ordered lc sub s log" and "s' = cancelSession session s"
  shows "pending_ok s' \<and> ordered lc sub s' log \<and> limits s' = limits s \<and> length (queues s') = length (queues s)"
  by (rule rewrite_queues [OF assms(1,2),
        where ts = "\<lambda>q. fst (cancel_tasks session (q_tasks q) (q_stats q))"
          and st = "\<lambda>q. snd (cancel_tasks session (q_tasks q) (q_stats q))"])
    (use cancel_fifo [where us = "[]"] in \<open>auto simp: assms(3) cancelSession_def split_beta cancel_subseq intro: cancel_counts\<close>)

lemma pending_run_step:
  assumes "pending_ok s" and "ordered lc sub s log"
    and "pending_run z lc (logging send) ops (s, w, log) = (s', w', log')"
  shows "pending_ok s' \<and> ordered lc (\<lambda>k. sub k @ submitted k ops) s' log'
    \<and> limits s' = limits s \<and> length (queues s') = length (queues s)"
  using assms
proof (induction ops arbitrary: sub s w log)
  case Nil
  then show ?case by (simp add: pending_run_def)
next
  case (Cons opr ops)
  obtain s1 w1 log1 where one: "pending_step z lc (logging send) opr (s, w, log) = (s1, w1, log1)"
    by (metis surj_pair)
  with Cons.prems(3) have rest: "pending_run z lc (logging send) ops (s1, w1, log1) = (s', w', log')"
    by (simp add: pending_run_def)
  show ?case
  proof (cases opr)
    case (PendSubmit k m now)
    obtain a where "pending_submit z (logging send) k m (lc m) now (s, w, log) = (a, s1, w1, log1)"
      using one PendSubmit by (auto simp: prod_eq_iff)
    note one = submit_step [OF Cons.prems(1,2) this]
    have "(\<lambda>j. (if j = k then sub j @ [m] else sub j) @ submitted j ops) = (\<lambda>j. sub j @ submitted j (opr # ops))"
      by (auto simp: PendSubmit)
    with one Cons.IH [OF _ _ rest, of "\<lambda>j. if j = k then sub j @ [m] else sub j"] show ?thesis by simp
  next
    case (PendPump now valid)
    obtain rej where "pump now (logging send) valid (s, w, log) = (rej, s1, w1, log1)"
      using one PendPump by (auto simp: prod_eq_iff)
    from pump_step [OF Cons.prems(1,2) this] Cons.IH [OF _ _ rest, of sub] PendPump show ?thesis by simp
  next
    case (PendCancel session)
    then have "s1 = cancelSession session s" "log1 = log" using one by auto
    with cancel_step [OF Cons.prems(1,2), of s1 session] Cons.IH [OF _ _ rest, of sub] PendCancel show ?thesis by simp
  qed
qed

lemma new_pending_ok:
  "new_pending n l = Some s \<Longrightarrow> pending_ok s \<and> ordered lc (\<lambda>_. []) s [] \<and> limits s = l \<and> length (queues s) = n"
  by (auto simp: new_pending_def pending_ok_def ordered_def fifo_def list_all_iff queue_ok_def counts_def within_def
      zero_stats_def split: if_splits)

definition small_limits :: Limits where
  "small_limits = \<lparr>maxBusinessTasks = 2, maxBusinessBytes = 1000, businessTimeoutMs = 500,
     perWorkerAttempts = 4, globalAttempts = 8, retryIntervalMs = 10\<rparr>"

text \<open>A bus that refuses the first three messages and then accepts.\<close>

definition slow_bus :: "nat send" where
  "slow_bus w worker m = (if w < 3 then (kBackpressure, w + 1) else (kAccepted, w + 1))"

definition lifecycle_msg :: "u64 \<Rightarrow> Msg" where
  "lifecycle_msg t = empty_msg\<lparr>msg_head := empty_head\<lparr>mh_taskId := t\<rparr>\<rparr>"

definition small_run :: "WorkerPendingTasks \<times> nat \<times> (nat \<times> Msg) list" where
  "small_run = pending_run 64 (\<lambda>m. mh_taskId (msg_head m) < 10) (logging slow_bus)
     [PendSubmit 0 (lifecycle_msg 1) 0, PendSubmit 0 (lifecycle_msg 11) 0, PendSubmit 0 (lifecycle_msg 2) 0,
      PendPump 1 (\<lambda>_. True), PendPump 2 (\<lambda>_. False), PendPump 3 (\<lambda>_. True)]
     (the (new_pending 1 small_limits), 0, [])"

text \<open>C25. Order and completeness, whatever the workers answer: what a worker accepted followed by what still waits for
  it is a subsequence of what was submitted for it (nothing overtakes, nothing is duplicated), and on the
  lifecycle messages it is all of it: a lifecycle message is never rejected, expired, cancelled or lost.\<close>

theorem worker_messages_in_order:
  assumes "new_pending n l = Some s0" and "k < n"
    and "pending_run task_size lc (logging send) ops (s0, w, []) = (s, w', log)"
  shows "subseq (for_worker k log @ map t_message (q_tasks (queues s ! k))) (submitted k ops)
    \<and> filter lc (for_worker k log @ map t_message (q_tasks (queues s ! k))) = filter lc (submitted k ops)"
  using pending_run_step [OF _ _ assms(3), of "\<lambda>_. []"] new_pending_ok [OF assms(1), of lc] assms(2)
  by (auto simp: ordered_def fifo_def)

theorem worker_messages_in_order_witness:
  "new_pending 1 small_limits \<noteq> None \<and> map (mh_taskId \<circ> msg_head) (for_worker 0 (snd (snd small_run))) = [1, 2]
   \<and> filter (\<lambda>m. mh_taskId (msg_head m) < 10) (for_worker 0 (snd (snd small_run)) @
       map t_message (q_tasks (queues (fst small_run) ! 0))) = [lifecycle_msg 1, lifecycle_msg 2]"
proof -
  have e: "new_pending 1 small_limits \<noteq> None \<and> map (mh_taskId \<circ> msg_head) (for_worker 0 (snd (snd small_run))) = [1, 2]"
    by code_simp
  then obtain s0 where s0: "new_pending 1 small_limits = Some s0" by blast
  obtain s w log where r: "small_run = (s, w, log)" by (metis surj_pair)
  from worker_messages_in_order [OF s0 _ r [unfolded small_run_def s0 option.sel], of 0] e
  show ?thesis by (simp add: r lifecycle_msg_def)
qed

text \<open>Bounds: the statistics always are the exact numbers of waiting tasks and bytes (their \<open>size_t\<close>
  decrements never wrap), and the business tasks waiting for a worker never exceed the configured
  number and bytes.\<close>

theorem waiting_tasks_bounded:
  assumes "new_pending n l = Some s0" and "k < n"
    and "pending_run task_size lc (logging send) ops (s0, w, []) = (s, w', log)"
  shows "let q = queues s ! k; business = filter (\<lambda>t. \<not> t_lifecycle t) (q_tasks q)
    in st_businessTasks (q_stats q) = length business \<and> st_businessTasks (q_stats q) \<le> maxBusinessTasks l
       \<and> st_businessBytes (q_stats q) = sum_list (map t_bytes business)
       \<and> st_businessBytes (q_stats q) \<le> maxBusinessBytes l
       \<and> st_lifecycleTasks (q_stats q) = length (filter t_lifecycle (q_tasks q))"
proof -
  have "pending_ok s" "limits s = l" "length (queues s) = n"
    using pending_run_step [OF _ _ assms(3), of "\<lambda>_. []"] new_pending_ok [OF assms(1), of lc] by auto
  then have "queue_ok l (queues s ! k)" using assms(2) by (simp add: pending_ok_def list_all_at)
  then show ?thesis by (simp add: queue_ok_def counts_def within_def Let_def)
qed

theorem waiting_tasks_bounded_witness:
  "new_pending 1 small_limits \<noteq> None \<and> st_lifecycleTasks (q_stats (queues (fst small_run) ! 0)) = 0
   \<and> st_businessTasks (q_stats (queues (fst small_run) ! 0)) \<le> 2"
proof -
  have e: "new_pending 1 small_limits \<noteq> None \<and> q_tasks (queues (fst small_run) ! 0) = [] \<and> maxBusinessTasks small_limits = 2"
    by code_simp
  then obtain s0 where s0: "new_pending 1 small_limits = Some s0" by blast
  obtain s w log where r: "small_run = (s, w, log)" by (metis surj_pair)
  from waiting_tasks_bounded [OF s0 _ r [unfolded small_run_def s0 option.sel], of 0] e
  show ?thesis by (simp add: r Let_def)
qed

end
