(* ===== verification/SnapshotDao.thy ===== *)
theory SnapshotDao
  imports Player Transaction
begin

text \<open>
  The data access of player snapshots, sceneServer/src-cpp/db/playerSnapshotDao.h: the task that loads a
  player, the reader of its result, and the task that saves a snapshot. A function that reports an error
  text and \<open>false\<close> gives \<open>Inl\<close> of the text; the loader's \<open>std::invalid_argument\<close> is \<open>None\<close>.
\<close>

section \<open>Loading\<close>

text \<open>The fields of a value; \<open>i\<close> is zero and \<open>a\<close> is empty in a value of another kind.\<close>

definition IsInt :: "Val \<Rightarrow> bool" where "IsInt v = (case v of VInt _ \<Rightarrow> True | _ \<Rightarrow> False)"
definition IsArr :: "Val \<Rightarrow> bool" where "IsArr v = (case v of VArr _ \<Rightarrow> True | _ \<Rightarrow> False)"
definition val_i :: "Val \<Rightarrow> int" where "val_i v = (case v of VInt i \<Rightarrow> sint i | _ \<Rightarrow> 0)"
definition val_a :: "Val \<Rightarrow> Val list" where "val_a v = (case v of VArr a \<Rightarrow> a | _ \<Rightarrow> [])"

definition sql_load_player :: bytes where
  "sql_load_player = ascii ''SELECT hp,mp,gold,pos_x,pos_y,dir,scene_id,save_version FROM player WHERE id=? FOR UPDATE''"
definition sql_load_container :: bytes where
  "sql_load_container = ascii ''SELECT capacity,next_slot,container_version FROM player_container WHERE player_id=? AND container_kind=1''"
definition sql_load_items :: bytes where
  "sql_load_items = ascii ''SELECT item_id,slot,quantity FROM player_item_stack WHERE player_id=? AND container_kind=1 ORDER BY slot''"

definition buildLoad :: "u64 \<Rightarrow> SqlTask option" where
  "buildLoad playerId =
     (if playerId = 0 \<or> playerId > kMaxInt64 then None
      else Some (empty_task\<lparr>ta_kind := 4, ta_playerId := playerId,
        ta_steps := map (\<lambda>sql. empty_step\<lparr>sq_kind := 1, sq_args := [sql, to_string (unat playerId)]\<rparr>)
          [sql_load_player, sql_load_container, sql_load_items]\<rparr>))"

definition default_snapshot :: PlayerSaveSnapshot where
  "default_snapshot = \<lparr>ps_playerId = 0, ps_hp = 100, ps_mp = 50, ps_gold = 0, ps_x = 0, ps_y = 0, ps_dir = 0, ps_sceneId = 1,
     ps_bagCapacity = 64, ps_bagNextSlot = 0, ps_items = [], ps_saveVersion = 0, ps_capturedRevision = 0,
     ps_saveLifecycleToken = 0\<rparr>"

text \<open>The main row, once its shape is checked.\<close>

definition load_row :: "u64 \<Rightarrow> Val list \<Rightarrow> string + PlayerSaveSnapshot" where
  "load_row playerId row =
     (if list_ex (\<lambda>v. \<not> IsInt v) row then Inl ''noninteger player state''
      else let r = map val_i row
      in if r ! 0 < 0 \<or> r ! 0 > 65535 \<or> r ! 1 < 0 \<or> r ! 1 > 65535 \<or> r ! 2 < 0 \<or> r ! 2 > 0xFFFFFFFF
            \<or> r ! 6 \<le> 0 \<or> r ! 6 > 0xFFFFFFFF \<or> r ! 7 < 0 then Inl ''player state out of range''
         else if list_ex (\<lambda>i. r ! i < - 0x80000000 \<or> r ! i > 0x7FFFFFFF) [3, 4, 5] then Inl ''position out of range''
         else Inr (default_snapshot\<lparr>ps_playerId := playerId, ps_hp := word_of_int (r ! 0), ps_mp := word_of_int (r ! 1),
           ps_gold := word_of_int (r ! 2), ps_x := word_of_int (r ! 3), ps_y := word_of_int (r ! 4),
           ps_dir := word_of_int (r ! 5), ps_sceneId := word_of_int (r ! 6), ps_saveVersion := word_of_int (r ! 7)\<rparr>))"

definition load_container :: "Val list \<Rightarrow> Val list \<Rightarrow> PlayerSaveSnapshot \<Rightarrow> string + PlayerSaveSnapshot" where
  "load_container container items snap =
     (if container = []
      then if ps_saveVersion snap \<noteq> 0 \<or> items \<noteq> [] then Inl ''missing persisted bag metadata'' else Inr snap
      else if \<not> IsArr (container ! 0) \<or> length (val_a (container ! 0)) \<noteq> 3 then Inl ''malformed bag metadata''
      else let row = val_a (container ! 0); b = map val_i row
      in if list_ex (\<lambda>v. \<not> IsInt v) row then Inl ''noninteger bag metadata''
         else if b ! 0 \<le> 0 \<or> b ! 0 > 65536 \<or> b ! 1 < 0 \<or> b ! 1 > 65536 \<or> b ! 2 < 0 \<or> b ! 2 \<noteq> uint (ps_saveVersion snap)
         then Inl ''bag metadata/version mismatch''
         else Inr (snap\<lparr>ps_bagCapacity := word_of_int (b ! 0), ps_bagNextSlot := word_of_int (b ! 1)\<rparr>))"

fun load_items :: "u32 \<Rightarrow> u32 list \<Rightarrow> u16 list \<Rightarrow> Val list \<Rightarrow> string + ItemStack list" where
  "load_items nextSlot ids slots [] = Inr []"
| "load_items nextSlot ids slots (item # items) =
     (if \<not> IsArr item \<or> length (val_a item) \<noteq> 3 then Inl ''malformed item row''
      else if list_ex (\<lambda>v. \<not> IsInt v) (val_a item) then Inl ''noninteger item row''
      else let i = val_i (val_a item ! 0); slot = val_i (val_a item ! 1); count = val_i (val_a item ! 2)
      in if i \<le> 0 \<or> i > 0xFFFFFFFF \<or> slot < 0 \<or> slot \<ge> uint nextSlot \<or> slot > 65535 \<or> count \<le> 0 \<or> count > 65535
            \<or> word_of_int i \<in> set ids \<or> word_of_int slot \<in> set slots then Inl ''invalid or duplicate stack''
         else map_sum id ((#) \<lparr>is_itemId = word_of_int i, is_count = word_of_int count, is_slot = word_of_int slot\<rparr>)
                (load_items nextSlot (word_of_int i # ids) (word_of_int slot # slots) items))"

definition parseLoad :: "u64 \<Rightarrow> DbResult \<Rightarrow> string + PlayerSaveSnapshot" where
  "parseLoad playerId result =
     (if re_errcode result \<noteq> 0 \<or> re_classification result \<noteq> kSuccess \<or> re_playerId result \<noteq> playerId
         \<or> \<not> IsArr (re_data result) \<or> length (val_a (re_data result)) \<noteq> 3 then Inl ''invalid player load result''
      else let main = val_a (re_data result) ! 0; container = val_a (re_data result) ! 1; items = val_a (re_data result) ! 2
      in if \<not> IsArr main \<or> length (val_a main) \<noteq> 1 \<or> \<not> IsArr (val_a main ! 0) \<or> length (val_a (val_a main ! 0)) \<noteq> 8
            \<or> \<not> IsArr container \<or> length (val_a container) > 1 \<or> \<not> IsArr items then Inl ''player missing or malformed rows''
         else case load_row playerId (val_a (val_a main ! 0)) of
           Inl e \<Rightarrow> Inl e
         | Inr snap \<Rightarrow>
           (case load_container (val_a container) (val_a items) snap of
              Inl e \<Rightarrow> Inl e
            | Inr snap \<Rightarrow>
              (case load_items (ps_bagNextSlot snap) [] [] (val_a items) of
                 Inl e \<Rightarrow> Inl e
               | Inr stacks \<Rightarrow>
                 if length stacks > unat (ps_bagCapacity snap) then Inl ''bag capacity exceeded''
                 else Inr (snap\<lparr>ps_items := stacks\<rparr>))))"

section \<open>Saving\<close>

definition sql_update_player :: bytes where
  "sql_update_player = ascii ''UPDATE player SET hp=?,mp=?,gold=?,pos_x=?,pos_y=?,dir=?,scene_id=?,save_version=?,updated_at=CURRENT_TIMESTAMP(3) WHERE id=? AND save_version<?''"
definition sql_put_container :: bytes where
  "sql_put_container = ascii ''INSERT INTO player_container(player_id,container_kind,capacity,next_slot,container_version) VALUES(?,1,?,?,?) ON DUPLICATE KEY UPDATE capacity=VALUES(capacity),next_slot=VALUES(next_slot),container_version=VALUES(container_version),updated_at=CURRENT_TIMESTAMP(3)''"
definition sql_erase_items :: bytes where
  "sql_erase_items = ascii ''DELETE FROM player_item_stack WHERE player_id=? AND container_kind=1''"
definition sql_insert_item :: bytes where
  "sql_insert_item = ascii ''INSERT INTO player_item_stack(player_id,container_kind,item_id,slot,quantity) VALUES(?,1,?,?,?)''"
definition sql_verify_player :: bytes where
  "sql_verify_player = ascii ''SELECT hp,mp,gold,pos_x,pos_y,dir,scene_id,save_version FROM player WHERE id=?''"

text \<open>The loop with its two sets.\<close>

fun check_items :: "u32 \<Rightarrow> u32 list \<Rightarrow> u16 list \<Rightarrow> ItemStack list \<Rightarrow> bool" where
  "check_items nextSlot ids slots [] = True"
| "check_items nextSlot ids slots (item # items) =
     (if is_itemId item = 0 \<or> is_count item = 0 \<or> (ucast (is_slot item) :: u32) \<ge> nextSlot
         \<or> is_itemId item \<in> set ids \<or> is_slot item \<in> set slots then False
      else check_items nextSlot (is_itemId item # ids) (is_slot item # slots) items)"

definition save_player_step :: "PlayerSaveSnapshot \<Rightarrow> SqlStep" where
  "save_player_step s =
     (let version = to_string (unat (ps_saveVersion s))
      in empty_step\<lparr>sq_expectedAffected := 1, sq_args := [sql_update_player,
           to_string (unat (ps_hp s)), to_string (unat (ps_mp s)), to_string (unat (ps_gold s)),
           to_string_int (sint (ps_x s)), to_string_int (sint (ps_y s)), to_string_int (sint (ps_dir s)),
           to_string (unat (ps_sceneId s)), version, to_string (unat (ps_playerId s)), version]\<rparr>)"

definition save_container_step :: "PlayerSaveSnapshot \<Rightarrow> SqlStep" where
  "save_container_step s = empty_step\<lparr>sq_args := [sql_put_container, to_string (unat (ps_playerId s)),
     to_string (unat (ps_bagCapacity s)), to_string (unat (ps_bagNextSlot s)), to_string (unat (ps_saveVersion s))]\<rparr>"

definition erase_items_step :: "PlayerSaveSnapshot \<Rightarrow> SqlStep" where
  "erase_items_step s = empty_step\<lparr>sq_args := [sql_erase_items, to_string (unat (ps_playerId s))]\<rparr>"

definition insert_item_step :: "PlayerSaveSnapshot \<Rightarrow> ItemStack \<Rightarrow> SqlStep" where
  "insert_item_step s item = empty_step\<lparr>sq_expectedAffected := 1, sq_args := [sql_insert_item, to_string (unat (ps_playerId s)),
     to_string (unat (is_itemId item)), to_string (unat (is_slot item)), to_string (unat (is_count item))]\<rparr>"

definition verify_step :: "PlayerSaveSnapshot \<Rightarrow> bytes \<Rightarrow> Val \<Rightarrow> SqlStep" where
  "verify_step s sql expected = empty_step\<lparr>sq_kind := 1, sq_args := [sql, to_string (unat (ps_playerId s))],
     sq_checkData := True, sq_expectedData := expected\<rparr>"

text \<open>\<open>number\<close>: the cast to \<open>int64_t\<close> of an unsigned and of a signed field.\<close>

definition unumber :: "'a::len word \<Rightarrow> Val" where "unumber v = VInt (ucast v)"
definition snumber :: "u32 \<Rightarrow> Val" where "snumber v = VInt (scast v)"

definition player_row :: "PlayerSaveSnapshot \<Rightarrow> Val" where
  "player_row s = VArr [VArr [unumber (ps_hp s), unumber (ps_mp s), unumber (ps_gold s), snumber (ps_x s), snumber (ps_y s),
     snumber (ps_dir s), unumber (ps_sceneId s), unumber (ps_saveVersion s)]]"

definition container_row :: "PlayerSaveSnapshot \<Rightarrow> Val" where
  "container_row s = VArr [VArr [unumber (ps_bagCapacity s), unumber (ps_bagNextSlot s), unumber (ps_saveVersion s)]]"

definition item_row :: "ItemStack \<Rightarrow> Val" where
  "item_row item = VArr [unumber (is_itemId item), unumber (is_slot item), unumber (is_count item)]"

definition buildSave :: "PlayerSaveSnapshot \<Rightarrow> string + SqlTask" where
  "buildSave s =
     (if ps_playerId s = 0 \<or> ps_playerId s > kMaxInt64 \<or> ps_saveVersion s = 0 \<or> ps_saveVersion s > kMaxInt64
         \<or> ps_sceneId s = 0 \<or> ps_bagCapacity s = 0 \<or> ps_bagCapacity s > 65536 \<or> ps_bagNextSlot s > 65536
         \<or> length (ps_items s) > unat (ps_bagCapacity s) then Inl ''invalid player snapshot metadata''
      else if \<not> check_items (ps_bagNextSlot s) [] [] (ps_items s) then Inl ''invalid or duplicate item stack''
      else let items = sort_key is_slot (ps_items s)
      in Inr (empty_task\<lparr>ta_kind := 5, ta_playerId := ps_playerId s, ta_saveVersion := ps_saveVersion s,
           ta_capturedRevision := ps_capturedRevision s, ta_saveLifecycleToken := ps_saveLifecycleToken s,
           ta_steps := [save_player_step s, save_container_step s, erase_items_step s] @ map (insert_item_step s) items,
           ta_verification := [verify_step s sql_verify_player (player_row s),
             verify_step s sql_load_container (container_row s),
             verify_step s sql_load_items (VArr (map item_row items))]\<rparr>))"

section \<open>What is stored loads back\<close>

lemma sint_small: "uint (w :: 64 word) < 2 ^ 63 \<Longrightarrow> sint w = uint w"
  using signed_take_bit_int_eq_self [of 63 "uint w"] uint_ge_0 [of w] by (simp add: sint_uint)

lemma uint_below: "uint (w :: 'a::len word) < 2 ^ LENGTH('a)"
  by (rule uint_lt2p)

lemma uint_pos: "(w :: 'a::len word) \<noteq> 0 \<Longrightarrow> 0 < uint w"
  using uint_ge_0 [of w] by (auto simp: less_le uint_0_iff)

lemma uint_less_nat: "unat (a :: 'a::len word) < unat (b :: 'b::len word) \<Longrightarrow> uint a < uint b"
  by (metis uint_nat of_nat_less_iff)

lemma val_unumber [simp]: "IsInt (unumber v)" "IsInt (snumber x)" "IsArr (VArr a)" "val_a (VArr a) = a"
  by (simp_all add: IsInt_def IsArr_def unumber_def snumber_def val_a_def)

lemma val_i_u16 [simp]: "val_i (unumber (v :: u16)) = uint v"
  using uint_below [of v] by (simp add: val_i_def unumber_def sint_small unsigned_ucast_eq take_bit_int_eq_self)

lemma val_i_u32 [simp]: "val_i (unumber (v :: u32)) = uint v"
  using uint_below [of v] by (simp add: val_i_def unumber_def sint_small unsigned_ucast_eq take_bit_int_eq_self)

lemma val_i_u64: "v \<le> kMaxInt64 \<Longrightarrow> val_i (unumber (v :: u64)) = uint v"
  by (simp add: val_i_def unumber_def sint_small kMaxInt64_def word_le_def)

lemma val_i_snumber [simp]: "val_i (snumber v) = sint v"
  by (simp add: val_i_def snumber_def sint_up_scast is_up)

lemma sint_u32_range: "- 0x80000000 \<le> sint (v :: u32)" "sint (v :: u32) \<le> 0x7FFFFFFF"
  using sint_ge [of v] sint_lt [of v] by simp_all

lemma check_items_iff:
  "check_items n ids slots items \<longleftrightarrow> list_all (stack_ok n) items \<and> distinct (map is_itemId items) \<and> distinct (map is_slot items)
     \<and> set (map is_itemId items) \<inter> set ids = {} \<and> set (map is_slot items) \<inter> set slots = {}"
proof (induction items arbitrary: ids slots)
  case (Cons st items)
  have "((ucast (is_slot st) :: u32) \<ge> n) \<longleftrightarrow> \<not> unat (is_slot st) < unat n"
    using unsigned_less [of "is_slot st", where 'a = nat]
    by (simp add: word_le_nat_alt unsigned_ucast_eq take_bit_eq_mod not_less)
  then show ?case by (auto simp: Cons.IH stack_ok_def)
qed simp

lemma load_items_rows:
  "list_all (stack_ok n) items \<Longrightarrow> distinct (map is_itemId items) \<Longrightarrow> distinct (map is_slot items) \<Longrightarrow>
   set (map is_itemId items) \<inter> set ids = {} \<Longrightarrow> set (map is_slot items) \<inter> set slots = {} \<Longrightarrow>
   load_items n ids slots (map item_row items) = Inr items"
proof (induction items arbitrary: ids slots)
  case (Cons st items)
  then have st: "is_itemId st \<noteq> 0" "is_count st \<noteq> 0" "unat (is_slot st) < unat n" by (simp_all add: stack_ok_def)
  then have "uint (is_itemId st) > 0" "uint (is_count st) > 0" "uint (is_slot st) < uint n"
    by (simp_all add: uint_pos uint_less_nat)
  moreover have "uint (is_itemId st) \<le> 0xFFFFFFFF" "uint (is_count st) \<le> 65535" "uint (is_slot st) \<le> 65535"
    using uint_below [of "is_itemId st"] uint_below [of "is_count st"] uint_below [of "is_slot st"] by simp_all
  ultimately show ?case using Cons by (simp add: item_row_def Let_def not_le)
qed simp

definition stored_rows :: "SqlTask \<Rightarrow> DbResult" where
  "stored_rows t = empty_result\<lparr>re_playerId := ta_playerId t, re_data := VArr (map sq_expectedData (ta_verification t))\<rparr>"

lemma stacks_sorted: "stacks_ok n items \<Longrightarrow> stacks_ok n (sort_key is_slot items)"
  using stacks_ok_mset [of "sort_key is_slot items" items n] by simp

text \<open>When a snapshot is accepted, and what the accepted task is.\<close>

lemma buildSave_accepts:
  assumes "buildSave s = Inr t"
  shows "ps_playerId s \<noteq> 0" "ps_playerId s \<le> kMaxInt64" "ps_saveVersion s \<noteq> 0" "ps_saveVersion s \<le> kMaxInt64" "ps_sceneId s \<noteq> 0"
    "ps_bagCapacity s \<noteq> 0" "ps_bagCapacity s \<le> 65536" "ps_bagNextSlot s \<le> 65536" "length (ps_items s) \<le> unat (ps_bagCapacity s)"
    "stacks_ok (ps_bagNextSlot s) (ps_items s)"
    "t = empty_task\<lparr>ta_kind := 5, ta_playerId := ps_playerId s, ta_saveVersion := ps_saveVersion s,
           ta_capturedRevision := ps_capturedRevision s, ta_saveLifecycleToken := ps_saveLifecycleToken s,
           ta_steps := [save_player_step s, save_container_step s, erase_items_step s]
             @ map (insert_item_step s) (sort_key is_slot (ps_items s)),
           ta_verification := [verify_step s sql_verify_player (player_row s),
             verify_step s sql_load_container (container_row s),
             verify_step s sql_load_items (VArr (map item_row (sort_key is_slot (ps_items s))))]\<rparr>"
  using assms by (auto simp: buildSave_def Let_def check_items_iff stacks_ok_def split: if_splits)

lemma load_player_row:
  assumes "ps_saveVersion s \<le> kMaxInt64" "ps_sceneId s \<noteq> 0"
  shows "load_row pid [unumber (ps_hp s), unumber (ps_mp s), unumber (ps_gold s), snumber (ps_x s), snumber (ps_y s),
       snumber (ps_dir s), unumber (ps_sceneId s), unumber (ps_saveVersion s)]
     = Inr (s\<lparr>ps_playerId := pid, ps_bagCapacity := 64, ps_bagNextSlot := 0, ps_items := [], ps_capturedRevision := 0,
          ps_saveLifecycleToken := 0\<rparr>)"
proof -
  have "uint (ps_sceneId s) > 0" using assms(2) by (rule uint_pos)
  then show ?thesis
    using uint_below [of "ps_hp s"] uint_below [of "ps_mp s"] uint_below [of "ps_gold s"] uint_below [of "ps_sceneId s"]
      sint_u32_range [of "ps_x s"] sint_u32_range [of "ps_y s"] sint_u32_range [of "ps_dir s"]
    by (simp add: load_row_def Let_def val_i_u64 [OF assms(1)] default_snapshot_def not_less not_le linorder_not_less)
qed

lemma u32_le_uint: "(v :: u32) \<le> 65536 \<Longrightarrow> uint v \<le> 65536"
  by (simp add: word_le_def)

text \<open>
  C10. What a save stores loads back: the rows that a save task of \<open>buildSave\<close> declares to be the persistent state (the ones a
  repeated save is compared with), read by \<open>parseLoad\<close> as the result of a load, give the saved snapshot,
  all fields and every stack, with the stacks ordered by slot and the two values that belong to one
  server process, revision and token, reset.
\<close>

theorem saved_rows_load_back:
  assumes "buildSave s = Inr t"
  shows "parseLoad (ps_playerId s) (stored_rows t) =
    Inr (s\<lparr>ps_items := sort_key is_slot (ps_items s), ps_capturedRevision := 0, ps_saveLifecycleToken := 0\<rparr>)"
proof -
  note a = buildSave_accepts [OF assms]
  have v: "uint (ps_bagCapacity s) \<le> 65536" "uint (ps_bagNextSlot s) \<le> 65536" "0 < uint (ps_bagCapacity s)"
    using a(6-8) by (simp_all add: u32_le_uint uint_pos)
  have c: "load_container [VArr [unumber (ps_bagCapacity s), unumber (ps_bagNextSlot s), unumber (ps_saveVersion s)]] items
      (s\<lparr>ps_bagCapacity := 64, ps_bagNextSlot := 0, ps_items := [], ps_capturedRevision := 0,
          ps_saveLifecycleToken := 0\<rparr>)
    = Inr (s\<lparr>ps_items := [], ps_capturedRevision := 0, ps_saveLifecycleToken := 0\<rparr>)" for items
    using v by (simp add: load_container_def val_i_u64 [OF a(4)])
  have i: "load_items (ps_bagNextSlot s) [] [] (map item_row (sort_key is_slot (ps_items s))) = Inr (sort_key is_slot (ps_items s))"
    by (rule load_items_rows) (use stacks_sorted [OF a(10)] in \<open>simp_all add: stacks_ok_def\<close>)
  show ?thesis
    using a(9) unfolding a(11)
    by (simp add: parseLoad_def stored_rows_def empty_result_def verify_step_def player_row_def container_row_def
        load_player_row [OF a(4,5)] c i)
qed

definition demo_snapshot :: PlayerSaveSnapshot where
  "demo_snapshot = default_snapshot\<lparr>ps_playerId := 42, ps_gold := 4000000000, ps_x := - 5, ps_bagNextSlot := 3, ps_saveVersion := 9,
     ps_capturedRevision := 4, ps_saveLifecycleToken := 1,
     ps_items := [\<lparr>is_itemId = 7, is_count = 65535, is_slot = 2\<rparr>, \<lparr>is_itemId = 5, is_count = 1, is_slot = 0\<rparr>]\<rparr>"

theorem saved_rows_load_back_witness:
  "\<exists>t. buildSave demo_snapshot = Inr t \<and> ta_steps t \<noteq> [] \<and> parseLoad 42 (stored_rows t) =
    Inr (demo_snapshot\<lparr>ps_items := [\<lparr>is_itemId = 5, is_count = 1, is_slot = 0\<rparr>, \<lparr>is_itemId = 7, is_count = 65535, is_slot = 2\<rparr>],
      ps_capturedRevision := 0, ps_saveLifecycleToken := 0\<rparr>)"
proof -
  have "\<not> isl (buildSave demo_snapshot)"
    by (simp add: buildSave_def Let_def demo_snapshot_def default_snapshot_def kMaxInt64_def)
  then obtain t where t: "buildSave demo_snapshot = Inr t" by (cases "buildSave demo_snapshot") auto
  have "ps_playerId demo_snapshot = 42" "ta_steps t \<noteq> []"
    "sort_key is_slot (ps_items demo_snapshot) = [\<lparr>is_itemId = 5, is_count = 1, is_slot = 0\<rparr>, \<lparr>is_itemId = 7, is_count = 65535, is_slot = 2\<rparr>]"
    using buildSave_accepts(11) [OF t] by (simp_all add: demo_snapshot_def)
  with saved_rows_load_back [OF t] t show ?thesis by simp
qed

section \<open>A save can always be sent and executed\<close>

text \<open>The loader reads the very columns that a repeated save is compared with.\<close>

lemma load_reads_what_saves_verify:
  "buildLoad pid = Some l \<Longrightarrow> buildSave s = Inr t \<Longrightarrow>
   map (hd \<circ> sq_args) (ta_steps l) = (hd (sq_args (ta_verification t ! 0)) @ ascii '' FOR UPDATE'')
     # map (hd \<circ> sq_args) (tl (ta_verification t))"
  using buildSave_accepts(11) [of s t]
  by (auto simp: buildLoad_def verify_step_def sql_load_player_def sql_verify_player_def ascii_def split: if_splits)

definition statement :: "string \<Rightarrow> bytes \<Rightarrow> bool" where
  "statement verb sql \<longleftrightarrow> sql \<noteq> [] \<and> hd sql \<notin> set blanks \<and> 59 \<notin> set sql \<and> map toupper (takeWhile isalpha sql) = ascii verb"

lemma dropWhile_hd: "xs \<noteq> [] \<Longrightarrow> \<not> P (hd xs) \<Longrightarrow> dropWhile P xs = xs"
  by (cases xs) auto

lemma valid_statement:
  "sq_args st = sql # args \<Longrightarrow> statement verb sql \<Longrightarrow>
   (if sq_kind st = 1 then sq_expectedAffected st = - 1 \<and> verb = ''SELECT''
    else sq_kind st = 2 \<and> sint (sq_expectedAffected st) \<ge> - 1 \<and> verb \<in> {''INSERT'', ''UPDATE'', ''DELETE''}) \<Longrightarrow> validStep st"
  by (auto simp: validStep_def statement_def Let_def dropWhile_hd simp del: dropWhile_eq_Nil_conv split: if_splits)

lemma statements:
  "statement ''UPDATE'' sql_update_player" "statement ''INSERT'' sql_put_container" "statement ''DELETE'' sql_erase_items"
  "statement ''INSERT'' sql_insert_item" "statement ''SELECT'' sql_verify_player" "statement ''SELECT'' sql_load_container"
  "statement ''SELECT'' sql_load_items" "statement ''SELECT'' sql_load_player"
  by code_simp+

lemmas step_simps = save_player_step_def save_container_step_def erase_items_step_def insert_item_step_def verify_step_def
  empty_step_def Let_def

lemma valid_save_steps:
  "validStep (save_player_step s)" "validStep (save_container_step s)" "validStep (erase_items_step s)"
  "validStep (insert_item_step s item)" "validStep (verify_step s sql_verify_player v)"
  "validStep (verify_step s sql_load_container v)" "validStep (verify_step s sql_load_items v)"
  by (rule valid_statement [OF _ statements(1)] valid_statement [OF _ statements(2)] valid_statement [OF _ statements(3)]
      valid_statement [OF _ statements(4)] valid_statement [OF _ statements(5)] valid_statement [OF _ statements(6)]
      valid_statement [OF _ statements(7)]; simp add: step_simps; fail)+

lemma save_not_refused:
  assumes "buildSave s = Inr t"
  shows "task_refused t = None"
proof -
  note a = buildSave_accepts [OF assms]
  have "length (ps_items s) \<le> 65536" using a(7,9) by (simp add: word_le_nat_alt)
  then have "int (length (ps_items s)) \<le> 65536" by simp
  then show ?thesis
    using a(1-4) by (simp add: task_refused_def a(11) empty_task_def list_ex_iff valid_save_steps not_less kMaxInt64_def)
      (auto simp: verify_step_def)
qed

lemma length_to_string: "n < 10 ^ Suc k \<Longrightarrow> length (to_string n) \<le> Suc k"
proof (induction k arbitrary: n)
  case 0
  then show ?case by (simp add: to_string.simps [of n])
next
  case (Suc k)
  show ?case
  proof (cases "n < 10")
    case False
    have "n div 10 < 10 ^ Suc k" using Suc.prems by (simp add: less_mult_imp_div_less)
    with Suc.IH False show ?thesis by (simp add: to_string.simps [of n])
  qed (simp add: to_string.simps [of n])
qed

lemma length_to_string_word:
  "length (to_string (unat (w :: u16))) \<le> 20" "length (to_string (unat (v :: u32))) \<le> 20"
  "length (to_string (unat (x :: u64))) \<le> 20" "length (to_string_int (sint (y :: u32))) \<le> 20"
proof -
  have *: "length (to_string n) \<le> 20" if "n < 2 ^ 64" for n
    using that length_to_string [of n 19] by simp
  show "length (to_string (unat w)) \<le> 20" "length (to_string (unat v)) \<le> 20" "length (to_string (unat x)) \<le> 20"
    using unsigned_less [of w, where 'a = nat] unsigned_less [of v, where 'a = nat] unsigned_less [of x, where 'a = nat]
    by (auto intro!: *)
  have "length (to_string n) \<le> 19" if "n \<le> 2 ^ 31" for n
    using that length_to_string [of n 18] by simp
  then show "length (to_string_int (sint y)) \<le> 20"
    using sint_u32_range [of y] by (auto simp: to_string_int_def le_SucI nat_le_iff intro!: le_SucI [of _ 19, simplified])
qed

lemma length_encode_args: "list_all (\<lambda>a. length a \<le> k) args \<Longrightarrow> length (concat (map encode_arg args)) \<le> (4 + k) * length args"
  by (induction args) (auto simp: encode_arg_def)

lemma encode_step_small:
  assumes "sq_args st = sql # args" "length sql \<le> 300" "length args \<le> 10" "list_all (\<lambda>a. length a \<le> 20) args"
  shows "\<exists>b. encode_step st = Some b
    \<and> length b \<le> 18 + length sql + 24 * length args + length (EncodeValD 0 (sq_expectedData st))"
  using assms length_encode_args [OF assms(4)] by (auto simp: encode_step_def list_ex_iff list_all_iff encode_arg_def)

lemma encode_each_bounded:
  "(\<And>st. st \<in> set sts \<Longrightarrow> \<exists>b. encode_step st = Some b \<and> length b \<le> K) \<Longrightarrow>
   \<exists>b. encode_each sts = Some b \<and> length b \<le> K * length sts"
proof (induction sts)
  case (Cons st sts)
  then obtain a b where "encode_step st = Some a" "length a \<le> K" "encode_each sts = Some b" "length b \<le> K * length sts"
    by (metis list.set_intros)
  then show ?case by simp
qed simp

lemma sql_lengths:
  "length sql_update_player \<le> 300" "length sql_put_container \<le> 300" "length sql_erase_items \<le> 300" "length sql_insert_item \<le> 110"
  "length sql_verify_player \<le> 300" "length sql_load_container \<le> 300" "length sql_load_items \<le> 300"
  by (simp_all add: sql_update_player_def sql_put_container_def sql_erase_items_def sql_insert_item_def sql_verify_player_def
      sql_load_container_def sql_load_items_def ascii_def)

lemma length_EncodeVal_rows: "length (EncodeValD 0 (VArr (map item_row items))) = 5 + 32 * length items"
  by (induction items) (simp_all add: item_row_def unumber_def kMaxDepth_def)

lemma encode_step_le:
  assumes "length (hd (sq_args st)) \<le> L" "sq_args st \<noteq> []" "L \<le> 300" "length (tl (sq_args st)) \<le> 10"
    and "list_all (\<lambda>a. length a \<le> 20) (tl (sq_args st))"
    and "18 + L + 24 * length (tl (sq_args st)) + length (EncodeValD 0 (sq_expectedData st)) \<le> K"
  shows "\<exists>b. encode_step st = Some b \<and> length b \<le> K"
  using encode_step_small [of st "hd (sq_args st)" "tl (sq_args st)"] assms by fastforce

lemmas encode_step_simps = step_simps length_to_string_word player_row_def container_row_def unumber_def snumber_def kMaxDepth_def

lemma encode_save_step:
  "\<exists>b. encode_step (save_player_step s) = Some b \<and> length b \<le> 1000"
  "\<exists>b. encode_step (save_container_step s) = Some b \<and> length b \<le> 1000"
  "\<exists>b. encode_step (erase_items_step s) = Some b \<and> length b \<le> 1000"
  "\<exists>b. encode_step (insert_item_step s item) = Some b \<and> length b \<le> 225"
  "\<exists>b. encode_step (verify_step s sql_verify_player (player_row s)) = Some b \<and> length b \<le> 1000"
  "\<exists>b. encode_step (verify_step s sql_load_container (container_row s)) = Some b \<and> length b \<le> 1000"
  by (rule encode_step_le [where L = 300] encode_step_le [where L = 110];
      simp add: encode_step_simps sql_lengths; fail)+

lemma encode_verify_items:
  "\<exists>b. encode_step (verify_step s sql_load_items (VArr (map item_row items))) = Some b \<and> length b \<le> 1000 + 32 * length items"
  using sql_lengths(7)
  by (intro encode_step_le [where L = 300]) (simp_all add: step_simps length_to_string_word length_EncodeVal_rows del: EncodeValD.simps)

lemma encode_save:
  assumes "buildSave s = Inr t"
  shows "\<exists>b. SqlTask_Encode t = Some b"
proof -
  note a = buildSave_accepts [OF assms]
  let ?items = "sort_key is_slot (ps_items s)"
  have n: "length (ps_items s) \<le> 65536" using a(7,9) by (simp add: word_le_nat_alt)
  obtain b where b: "encode_each (map (insert_item_step s) ?items) = Some b" "length b \<le> 225 * length (ps_items s)"
    using encode_each_bounded [of "map (insert_item_step s) ?items" 225] encode_save_step(4) by fastforce
  obtain c1 c2 c3 where c: "encode_step (save_player_step s) = Some c1" "encode_step (save_container_step s) = Some c2"
    "encode_step (erase_items_step s) = Some c3" "length c1 \<le> 1000" "length c2 \<le> 1000" "length c3 \<le> 1000"
    using encode_save_step(1-3) by blast
  obtain v1 v2 v3 where v: "encode_step (verify_step s sql_verify_player (player_row s)) = Some v1"
    "encode_step (verify_step s sql_load_container (container_row s)) = Some v2"
    "encode_step (verify_step s sql_load_items (VArr (map item_row ?items))) = Some v3"
    "length v1 \<le> 1000" "length v2 \<le> 1000" "length v3 \<le> 1000 + 32 * length (ps_items s)"
    using encode_save_step(5,6) encode_verify_items [of s ?items] by fastforce
  have "length b \<le> 14745600" "length v3 \<le> 2098152" using b(2) v(6) n by linarith+
  then show ?thesis
    using n b(1) c v(1-5) unfolding SqlTask_Encode_def a(11)
    by (simp add: encode_list_def kMaxSteps_def Let_def)
qed

lemma save_task_ok:
  assumes "buildSave s = Inr t"
  shows "task_ok t"
proof -
  note a = buildSave_accepts [OF assms]
  have "length (ps_items s) \<le> 65536" using a(7,9) by (simp add: word_le_nat_alt)
  then have "val_ok 0 (VArr (map item_row (sort_key is_slot (ps_items s))))"
    by (auto simp: kMaxItems_def kMaxDepth_def list_all_iff item_row_def unumber_def)
  then show ?thesis
    by (auto simp: task_ok_def a(11) empty_task_def step_ok_def list_all_iff step_simps player_row_def container_row_def
        unumber_def snumber_def kMaxDepth_def kMaxItems_def)
qed

text \<open>
  A snapshot that \<open>buildSave\<close> accepts can always be saved: its task, however many stacks the bag has, is
  within every limit of the encoder, arrives at the database thread unchanged, and is not
  refused by the transaction executor.
\<close>

theorem save_task_is_executable:
  assumes "buildSave s = Inr t"
  shows "\<exists>b. SqlTask_Encode t = Some b \<and> SqlTask_Decode b = Some t \<and> task_refused t = None"
proof -
  obtain b where b: "SqlTask_Encode t = Some b" using encode_save [OF assms] by blast
  have "ta_kind t = 5" by (simp add: buildSave_accepts(11) [OF assms])
  with decode_encode_transaction [OF b save_task_ok [OF assms]] b save_not_refused [OF assms] show ?thesis by simp
qed

theorem save_task_is_executable_witness:
  "\<exists>t b. buildSave demo_snapshot = Inr t \<and> SqlTask_Encode t = Some b \<and> SqlTask_Decode b = Some t \<and> task_refused t = None"
proof -
  have "\<not> isl (buildSave demo_snapshot)"
    by (simp add: buildSave_def Let_def demo_snapshot_def default_snapshot_def kMaxInt64_def)
  then obtain t where "buildSave demo_snapshot = Inr t" by (cases "buildSave demo_snapshot") auto
  with save_task_is_executable show ?thesis by blast
qed

end
