(* ===== verification/Persistence.thy ===== *)
theory Persistence
  imports SnapshotDao
begin

text \<open>
  The coordinator of player saves, sceneServer/src-cpp/player/playerPersistence.h and playerPersistence.cc. One logic thread
  owns it. What it calls is a parameter: the world that hands out task ids (\<open>PendingDbTasks::newTaskId\<close>) and takes the
  submitted message. \<open>None\<close> is an exception that leaves an operation, of \<open>freezeSaveSnapshot\<close> or of the
  encoder; that it never happens is proved below.
\<close>

section \<open>State and operations\<close>

datatype SaveState = Idle | AwaitSave | Blocked

record SaveRecord =
  sr_actorEpoch :: u32
  sr_token :: u64
  sr_nextVersion :: u64
  sr_confirmedVersion :: u64
  sr_confirmedRevision :: u64
  sr_taskId :: u64
  sr_state :: SaveState
  sr_offline :: bool
  sr_active :: "PlayerSaveSnapshot option"
  sr_queued :: "PlayerSaveSnapshot option"
  sr_error :: bytes

record PlayerPersistence =
  pp_nextToken :: u64
  pp_records :: "(u64, SaveRecord) umap"

record 'w save_world =
  sw_newTaskId :: "'w \<Rightarrow> u64 \<times> 'w"
  sw_submit :: "Msg \<Rightarrow> 'w \<Rightarrow> bool \<times> 'w"

definition kMaxPlayers :: int where "kMaxPlayers = 65536"

definition new_persistence :: PlayerPersistence where
  "new_persistence = \<lparr>pp_nextToken = 0, pp_records = []\<rparr>"

definition save_message :: "SaveRecord \<Rightarrow> SqlTask \<Rightarrow> bytes \<Rightarrow> Msg" where
  "save_message r t body = \<lparr>msg_head = empty_head\<lparr>mh_msgType := MSGTYPE_DB_TASK_MYSQL, mh_Module := 1, mh_Method := 3,
     mh_playerId := ta_playerId t, mh_epoch := sr_actorEpoch r, mh_taskId := sr_taskId r\<rparr>, msg_body = body\<rparr>"

definition save_dispatch :: "'w save_world \<Rightarrow> SaveRecord \<Rightarrow> 'w \<Rightarrow> (SaveRecord \<times> 'w) option" where
  "save_dispatch env r w =
     (if sr_state r \<noteq> Idle then Some (r, w)
      else case sr_queued r of
        None \<Rightarrow> Some (r, w)
      | Some snapshot \<Rightarrow>
          (case buildSave snapshot of
             Inl e \<Rightarrow> Some (r\<lparr>sr_state := Blocked, sr_error := ascii e\<rparr>, w)
           | Inr t \<Rightarrow>
               let (i, w) = (if sr_taskId r = 0 then sw_newTaskId env w else (sr_taskId r, w));
                   r = r\<lparr>sr_taskId := i\<rparr>
               in (case SqlTask_Encode t of
                     None \<Rightarrow> None
                   | Some body \<Rightarrow>
                       let (ok, w) = sw_submit env (save_message r t body) w
                       in if \<not> ok then Some (r, w)
                          else Some (r\<lparr>sr_active := Some snapshot, sr_queued := None, sr_state := AwaitSave\<rparr>, w))))"

definition new_record :: "Player \<Rightarrow> u64 \<Rightarrow> SaveRecord" where
  "new_record p token = \<lparr>sr_actorEpoch = p_epoch p, sr_token = token, sr_nextVersion = p_persistedVersion p,
     sr_confirmedVersion = p_persistedVersion p, sr_confirmedRevision = p_persistedRevision p, sr_taskId = 0,
     sr_state = Idle, sr_offline = False, sr_active = None, sr_queued = None, sr_error = []\<rparr>"

definition put_record :: "u64 \<Rightarrow> SaveRecord \<Rightarrow> PlayerPersistence \<Rightarrow> PlayerPersistence" where
  "put_record i r s = s\<lparr>pp_records := AList.update i r (pp_records s)\<rparr>"

definition erase_record :: "u64 \<Rightarrow> PlayerPersistence \<Rightarrow> PlayerPersistence" where
  "erase_record i s = s\<lparr>pp_records := AList.delete i (pp_records s)\<rparr>"

text \<open>The first part of \<open>request\<close>: the record of the player, a new one if there is none.\<close>

definition record_for :: "Player \<Rightarrow> PlayerPersistence \<Rightarrow> (SaveRecord \<times> PlayerPersistence) option" where
  "record_for p s =
     (case map_of (pp_records s) (p_playerId p) of
        Some r \<Rightarrow> Some (r, s)
      | None \<Rightarrow>
          if int (length (pp_records s)) \<ge> kMaxPlayers \<or> p_playerId p = 0 then None
          else let r = new_record p (pp_nextToken s + 1)
               in Some (r, put_record (p_playerId p) r (s\<lparr>pp_nextToken := pp_nextToken s + 1\<rparr>)))"

text \<open>The snapshot of the current revision is already on its way.\<close>

definition already_held :: "u64 \<Rightarrow> SaveRecord \<Rightarrow> bool" where
  "already_held revision r \<longleftrightarrow>
     (case sr_active r of Some a \<Rightarrow> ps_capturedRevision a = revision \<and> sr_queued r = None | None \<Rightarrow> False)
   \<or> (case sr_queued r of Some q \<Rightarrow> ps_capturedRevision q = revision | None \<Rightarrow> False)"

definition settled_for :: "Player \<Rightarrow> SaveRecord \<Rightarrow> bool" where
  "settled_for p r \<longleftrightarrow> \<not> p_dirty p \<and> p_mutationRevision p = sr_confirmedRevision r \<and> sr_active r = None"

text \<open>The record after the assignments to the epoch and the offline flag, and after a snapshot was queued.\<close>

definition touched :: "Player \<Rightarrow> bool \<Rightarrow> SaveRecord \<Rightarrow> SaveRecord" where
  "touched p offline r = r\<lparr>sr_actorEpoch := p_epoch p, sr_offline := sr_offline r \<or> offline\<rparr>"

definition requeued :: "PlayerSaveSnapshot \<Rightarrow> SaveRecord \<Rightarrow> SaveRecord" where
  "requeued x r = r\<lparr>sr_nextVersion := sr_nextVersion r + 1, sr_taskId := (if sr_state r = Idle then 0 else sr_taskId r),
     sr_queued := Some x\<rparr>"

text \<open>The end of \<open>request\<close>: a snapshot is frozen, queued and, if possible, dispatched.\<close>

definition take_snapshot :: "'w save_world \<Rightarrow> Player \<Rightarrow> SaveRecord \<Rightarrow> PlayerPersistence \<Rightarrow> 'w
    \<Rightarrow> (bool \<times> PlayerPersistence \<times> 'w) option" where
  "take_snapshot env p r s w =
     (let i = p_playerId p
      in if sr_nextVersion r \<ge> kMaxInt64
         then Some (False, put_record i (r\<lparr>sr_state := Blocked, sr_error := ascii ''save version exhausted''\<rparr>) s, w)
         else case freezeSaveSnapshot (sr_nextVersion r + 1) (sr_token r) p of
           Inl _ \<Rightarrow> None
         | Inr snapshot \<Rightarrow>
             (case buildSave snapshot of
                Inl e \<Rightarrow> Some (False, put_record i (r\<lparr>sr_error := ascii e\<rparr>) s, w)
              | Inr _ \<Rightarrow>
                  (case save_dispatch env (requeued snapshot r) w of
                     None \<Rightarrow> None
                   | Some (r', w') \<Rightarrow> Some (True, put_record i r' s, w'))))"

text \<open>\<open>request\<close> on the record of the player.\<close>

definition request_record :: "'w save_world \<Rightarrow> Player \<Rightarrow> bool \<Rightarrow> SaveRecord \<Rightarrow> PlayerPersistence \<Rightarrow> 'w
    \<Rightarrow> (bool \<times> PlayerPersistence \<times> 'w) option" where
  "request_record env p offline r s w =
     (if sr_actorEpoch r \<noteq> p_epoch p \<and> sr_offline r then Some (False, s, w)
      else let r = touched p offline r; s = put_record (p_playerId p) r s
      in if already_held (p_mutationRevision p) r then Some (True, s, w)
         else if settled_for p r then Some (True, (if offline then erase_record (p_playerId p) s else s), w)
         else take_snapshot env p r s w)"

definition save_request :: "'w save_world \<Rightarrow> Player \<Rightarrow> bool \<Rightarrow> PlayerPersistence \<Rightarrow> 'w
    \<Rightarrow> (bool \<times> PlayerPersistence \<times> 'w) option" where
  "save_request env p offline s w =
     (case record_for p s of None \<Rightarrow> Some (False, s, w) | Some (r, s) \<Rightarrow> request_record env p offline r s w)"

fun save_tick_loop :: "'w save_world \<Rightarrow> (u64, SaveRecord) umap \<Rightarrow> 'w \<Rightarrow> ((u64, SaveRecord) umap \<times> 'w) option" where
  "save_tick_loop env [] w = Some ([], w)"
| "save_tick_loop env ((i, r) # rs) w =
     (case save_dispatch env r w of None \<Rightarrow> None
      | Some (r', w) \<Rightarrow> (case save_tick_loop env rs w of None \<Rightarrow> None | Some (rs', w) \<Rightarrow> Some ((i, r') # rs', w)))"

definition save_tick :: "'w save_world \<Rightarrow> PlayerPersistence \<Rightarrow> 'w \<Rightarrow> (PlayerPersistence \<times> 'w) option" where
  "save_tick env s w = (case save_tick_loop env (pp_records s) w of None \<Rightarrow> None
     | Some (rs, w) \<Rightarrow> Some (s\<lparr>pp_records := rs\<rparr>, w))"

definition save_owns :: "PlayerPersistence \<Rightarrow> u64 \<Rightarrow> bool" where
  "save_owns s taskId \<longleftrightarrow> taskId \<noteq> 0 \<and> list_ex (\<lambda>(_, r). sr_active r \<noteq> None \<and> sr_taskId r = taskId) (pp_records s)"

text \<open>\<open>complete\<close>: the live player is the pointer the caller passes, \<open>None\<close> if it is null.\<close>

definition save_complete :: "u64 \<Rightarrow> DbResult \<Rightarrow> Player option \<Rightarrow> PlayerPersistence \<Rightarrow> bool \<times> Player option \<times> PlayerPersistence" where
  "save_complete taskId result live s =
     (case find (\<lambda>(_, r). sr_taskId r = taskId) (pp_records s) of
        None \<Rightarrow> (False, live, s)
      | Some (i, r) \<Rightarrow>
          (case sr_active r of
             None \<Rightarrow> (False, live, s)
           | Some snapshot \<Rightarrow>
               if sr_state r \<noteq> AwaitSave then (False, live, s)
               else if re_errcode result \<noteq> 0 \<or> re_classification result \<noteq> kSuccess
               then (True, live, put_record i (r\<lparr>sr_state := Blocked, sr_error := re_errmsg result\<rparr>) s)
               else if re_playerId result \<noteq> ps_playerId snapshot \<or> re_saveVersion result \<noteq> ps_saveVersion snapshot
                       \<or> re_capturedRevision result \<noteq> ps_capturedRevision snapshot \<or> re_saveLifecycleToken result \<noteq> sr_token r
               then (False, live, put_record i (r\<lparr>sr_state := Blocked, sr_error := ascii ''save result identity mismatch''\<rparr>) s)
               else let r = r\<lparr>sr_confirmedVersion := ps_saveVersion snapshot, sr_confirmedRevision := ps_capturedRevision snapshot\<rparr>;
                        live = map_option (\<lambda>p. if p_playerId p = re_playerId result \<and> p_epoch p = sr_actorEpoch r \<and> \<not> sr_offline r
                                 then confirmSave (sr_confirmedVersion r) (sr_confirmedRevision r) p else p) live;
                        r = r\<lparr>sr_active := None, sr_taskId := 0, sr_state := Idle\<rparr>
                    in (True, live, if sr_offline r \<and> sr_queued r = None then erase_record i s else put_record i r s)))"

definition blocksLogin :: "PlayerPersistence \<Rightarrow> u64 \<Rightarrow> bool" where
  "blocksLogin s playerId = (case map_of (pp_records s) playerId of Some r \<Rightarrow> sr_offline r | None \<Rightarrow> False)"

definition save_find :: "PlayerPersistence \<Rightarrow> u64 \<Rightarrow> SaveRecord option" where
  "save_find s playerId = map_of (pp_records s) playerId"

definition save_unsettled :: "PlayerPersistence \<Rightarrow> bool" where
  "save_unsettled s \<longleftrightarrow> list_ex (\<lambda>(_, r). sr_state r \<noteq> Idle \<or> sr_active r \<noteq> None \<or> sr_queued r \<noteq> None) (pp_records s)"

section \<open>Runs\<close>

datatype save_op = SRequest Player bool | STick | SComplete u64 DbResult "Player option"

fun save_step :: "'w save_world \<Rightarrow> save_op \<Rightarrow> PlayerPersistence \<times> 'w \<Rightarrow> (PlayerPersistence \<times> 'w) option" where
  "save_step env (SRequest p offline) (s, w) = map_option snd (save_request env p offline s w)"
| "save_step env STick (s, w) = save_tick env s w"
| "save_step env (SComplete i result live) (s, w) = Some (snd (snd (save_complete i result live s)), w)"

fun save_run :: "'w save_world \<Rightarrow> save_op list \<Rightarrow> PlayerPersistence \<times> 'w \<Rightarrow> (PlayerPersistence \<times> 'w) option" where
  "save_run env [] sw = Some sw"
| "save_run env (a # as) sw = (case save_step env a sw of None \<Rightarrow> None | Some sw' \<Rightarrow> save_run env as sw')"

section \<open>Invariant\<close>

text \<open>The version of the newest snapshot a record answers for.\<close>

definition newest :: "SaveRecord \<Rightarrow> u64" where
  "newest r = (case sr_queued r of Some q \<Rightarrow> ps_saveVersion q
     | None \<Rightarrow> (case sr_active r of Some a \<Rightarrow> ps_saveVersion a | None \<Rightarrow> sr_confirmedVersion r))"

definition snapshot_of :: "u64 \<Rightarrow> SaveRecord \<Rightarrow> PlayerSaveSnapshot \<Rightarrow> bool" where
  "snapshot_of i r x \<longleftrightarrow> ps_playerId x = i \<and> ps_saveLifecycleToken x = sr_token r \<and> \<not> isl (buildSave x)"

definition record_ok :: "u64 \<Rightarrow> SaveRecord \<Rightarrow> bool" where
  "record_ok i r \<longleftrightarrow> newest r = sr_nextVersion r \<and> (sr_state r = Idle \<longrightarrow> sr_active r = None)
     \<and> pred_option (snapshot_of i r) (sr_active r) \<and> pred_option (snapshot_of i r) (sr_queued r)
     \<and> pred_option (\<lambda>a. ps_saveVersion a \<le> sr_nextVersion r) (sr_active r)"

definition persistence_ok :: "PlayerPersistence \<Rightarrow> bool" where
  "persistence_ok s \<longleftrightarrow> umap_ok (pp_records s) \<and> (\<forall>i r. map_of (pp_records s) i = Some r \<longrightarrow> record_ok i r)"

lemma new_persistence_ok [simp]: "persistence_ok new_persistence"
  by (simp add: persistence_ok_def new_persistence_def)

lemma put_record_ok: "persistence_ok s \<Longrightarrow> record_ok i r \<Longrightarrow> persistence_ok (put_record i r s)"
  by (simp add: persistence_ok_def put_record_def)

lemma erase_record_ok: "persistence_ok s \<Longrightarrow> persistence_ok (erase_record i s)"
  by (simp add: persistence_ok_def erase_record_def)

lemma find_put_record [simp]: "map_of (pp_records (put_record i r s)) = (map_of (pp_records s))(i \<mapsto> r)"
  "map_of (pp_records (erase_record i s)) = (map_of (pp_records s))(i := None)"
  by (simp_all add: put_record_def erase_record_def)

lemma new_record_ok: "record_ok i (new_record p token)"
  by (simp add: record_ok_def new_record_def newest_def)

lemma record_okD: "persistence_ok s \<Longrightarrow> map_of (pp_records s) i = Some r \<Longrightarrow> record_ok i r"
  by (simp add: persistence_ok_def)

text \<open>What a dispatch may change: it moves the queued snapshot to the active place, and never throws.\<close>

definition same_save :: "SaveRecord \<Rightarrow> SaveRecord \<Rightarrow> bool" where
  "same_save r r' \<longleftrightarrow> sr_nextVersion r' = sr_nextVersion r \<and> sr_token r' = sr_token r \<and> sr_offline r' = sr_offline r
     \<and> sr_confirmedVersion r' = sr_confirmedVersion r \<and> newest r' = newest r"

definition held :: "SaveRecord \<Rightarrow> PlayerSaveSnapshot list" where
  "held r = (case sr_active r of Some a \<Rightarrow> [a] | None \<Rightarrow> []) @ (case sr_queued r of Some q \<Rightarrow> [q] | None \<Rightarrow> [])"

lemma save_dispatch_ok:
  assumes "record_ok i r"
  shows "\<exists>r' w'. save_dispatch env r w = Some (r', w') \<and> record_ok i r' \<and> same_save r r' \<and> held r' = held r"
proof (cases "sr_state r = Idle \<and> sr_queued r \<noteq> None")
  case True
  then obtain q where q: "sr_queued r = Some q" by blast
  from assms True have a: "sr_active r = None" by (simp add: record_ok_def)
  from assms q obtain t where t: "buildSave q = Inr t" by (cases "buildSave q") (auto simp: record_ok_def snapshot_of_def)
  obtain body where "SqlTask_Encode t = Some body" using encode_save [OF t] by blast
  with assms True q a t show ?thesis
    by (auto simp: save_dispatch_def Let_def split_beta record_ok_def same_save_def newest_def held_def snapshot_of_def)
next
  case False
  with assms show ?thesis by (auto simp: save_dispatch_def same_save_def split: option.split)
qed

lemma record_for_ok:
  assumes "persistence_ok s" and "record_for p s = Some (r, s')"
  shows "persistence_ok s'" "map_of (pp_records s') (p_playerId p) = Some r" "record_ok (p_playerId p) r"
    "map_of (pp_records s) (p_playerId p) = Some r \<or> map_of (pp_records s) (p_playerId p) = None"
    "j \<noteq> p_playerId p \<Longrightarrow> map_of (pp_records s') j = map_of (pp_records s) j"
  using assms new_record_ok [of "p_playerId p" p]
  by (auto simp: record_for_def Let_def intro!: put_record_ok dest: record_okD split: option.splits if_splits)
    (simp_all add: persistence_ok_def)

text \<open>
  A record \<open>r\<close> goes on as \<open>r'\<close>: it stays well-formed and offline, and a snapshot it holds is still held or replaced by a
  later version.
\<close>

definition goes_on :: "u64 \<Rightarrow> SaveRecord \<Rightarrow> SaveRecord \<Rightarrow> bool" where
  "goes_on i r r' \<longleftrightarrow> record_ok i r' \<and> (sr_offline r \<longrightarrow> sr_offline r')
     \<and> (\<forall>x \<in> set (held r). \<exists>y \<in> set (held r'). ps_saveVersion x \<le> ps_saveVersion y)"

lemma goes_on_same: "record_ok i r' \<Longrightarrow> sr_offline r' = sr_offline r \<Longrightarrow> held r' = held r \<Longrightarrow> goes_on i r r'"
  by (auto simp: goes_on_def)

lemma held_version: "record_ok i r \<Longrightarrow> x \<in> set (held r) \<Longrightarrow> ps_saveVersion x \<le> sr_nextVersion r"
  by (cases "sr_active r"; cases "sr_queued r") (auto simp: record_ok_def newest_def held_def)

lemma touched_simps [simp]:
  "record_ok i (touched p off r) = record_ok i r" "held (touched p off r) = held r" "newest (touched p off r) = newest r"
  "sr_nextVersion (touched p off r) = sr_nextVersion r" "sr_offline (touched p off r) = (sr_offline r \<or> off)"
  "sr_token (touched p off r) = sr_token r"
  by (cases "sr_active r"; cases "sr_queued r"; simp add: record_ok_def touched_def held_def newest_def snapshot_of_def)+

lemma u64_next: "(v :: u64) < kMaxInt64 \<Longrightarrow> v < v + 1 \<and> v + 1 \<le> kMaxInt64 \<and> v \<le> v + 1"
proof -
  assume "v < kMaxInt64"
  then have less: "unat v < 0x7FFFFFFFFFFFFFFF" by (simp add: kMaxInt64_def word_less_nat_alt)
  then have "v \<noteq> kMaxRevision" by (auto simp: kMaxRevision_def)
  then have "unat (v + 1) = unat v + 1" by (rule u64_inc)
  with less show ?thesis by (simp add: kMaxInt64_def word_less_nat_alt word_le_nat_alt)
qed

lemma requeued_ok:
  assumes "record_ok i r" "sr_nextVersion r < kMaxInt64" "freezeSaveSnapshot (sr_nextVersion r + 1) (sr_token r) p = Inr x"
    "buildSave x = Inr t" "p_playerId p = i"
  shows "record_ok i (requeued x r)" "x \<in> set (held (requeued x r))" "ps_capturedRevision x = p_mutationRevision p"
    "ps_saveVersion x = sr_nextVersion r + 1" "sr_offline (requeued x r) = sr_offline r"
proof -
  have x: "ps_saveVersion x = sr_nextVersion r + 1" "ps_playerId x = i" "ps_saveLifecycleToken x = sr_token r"
    "ps_capturedRevision x = p_mutationRevision p"
    using assms(3,5) by (auto simp: freezeSaveSnapshot_def split: if_splits)
  have "snapshot_of i r x" using x assms(4) by (simp add: snapshot_of_def)
  then show "record_ok i (requeued x r)"
    using assms(1) x(1) u64_next [OF assms(2)]
    by (cases "sr_active r") (auto simp: record_ok_def requeued_def newest_def snapshot_of_def elim: order_trans)
  show "x \<in> set (held (requeued x r))" "ps_capturedRevision x = p_mutationRevision p"
    "ps_saveVersion x = sr_nextVersion r + 1" "sr_offline (requeued x r) = sr_offline r"
    using x by (simp_all add: held_def requeued_def)
qed

text \<open>How an operation on the player's record ends: every other record as before, this one going on.\<close>

definition kept_in :: "u64 \<Rightarrow> SaveRecord \<Rightarrow> PlayerPersistence \<Rightarrow> PlayerPersistence \<Rightarrow> SaveRecord \<Rightarrow> bool" where
  "kept_in i r s s' r' \<longleftrightarrow> persistence_ok s' \<and> (\<forall>j. j \<noteq> i \<longrightarrow> map_of (pp_records s') j = map_of (pp_records s) j)
     \<and> map_of (pp_records s') i = Some r' \<and> goes_on i r r'"

lemma kept_in_put: "persistence_ok s \<Longrightarrow> goes_on i r r' \<Longrightarrow> kept_in i r s (put_record i r' s) r'"
  by (auto simp: kept_in_def goes_on_def intro: put_record_ok)

lemma goes_on_refl [simp]: "record_ok i r \<Longrightarrow> goes_on i r r"
  by (auto simp: goes_on_def)

lemma goes_on_blocked [simp]:
  assumes "record_ok i r"
  shows "goes_on i r (r\<lparr>sr_error := e\<rparr>)" "goes_on i r (r\<lparr>sr_state := Blocked, sr_error := e\<rparr>)"
proof -
  have "record_ok i (r\<lparr>sr_error := e\<rparr>)" "record_ok i (r\<lparr>sr_state := Blocked, sr_error := e\<rparr>)"
    using assms by (cases "sr_active r"; cases "sr_queued r"; simp add: record_ok_def newest_def snapshot_of_def)+
  moreover have "held (r\<lparr>sr_error := e\<rparr>) = held r" "held (r\<lparr>sr_state := Blocked, sr_error := e\<rparr>) = held r"
    by (simp_all add: held_def)
  ultimately show "goes_on i r (r\<lparr>sr_error := e\<rparr>)" "goes_on i r (r\<lparr>sr_state := Blocked, sr_error := e\<rparr>)"
    by (auto intro: goes_on_same)
qed

lemma take_snapshot_ok:
  assumes s: "persistence_ok s" and r: "record_ok (p_playerId p) r"
  shows "\<exists>b s' w' r'. take_snapshot env p r s w = Some (b, s', w') \<and> kept_in (p_playerId p) r s s' r'
    \<and> (b \<longrightarrow> (\<exists>x \<in> set (held r'). ps_capturedRevision x = p_mutationRevision p))"
proof (cases "sr_nextVersion r \<ge> kMaxInt64")
  case True
  then show ?thesis
    using kept_in_put [OF s goes_on_blocked(2) [OF r, of "ascii ''save version exhausted''"]] by (auto simp: take_snapshot_def)
next
  case False
  then have v: "sr_nextVersion r < kMaxInt64" by simp
  obtain x where x: "freezeSaveSnapshot (sr_nextVersion r + 1) (sr_token r) p = Inr x"
    using u64_next [OF v] by (simp add: freezeSaveSnapshot_def not_less)
  show ?thesis
  proof (cases "buildSave x")
    case (Inl e)
    then show ?thesis using kept_in_put [OF s goes_on_blocked(1) [OF r, of "ascii e"]] v x by (auto simp: take_snapshot_def Let_def)
  next
    case (Inr t)
    note q = requeued_ok [OF r v x Inr refl]
    obtain r' w' where d: "save_dispatch env (requeued x r) w = Some (r', w')" "record_ok (p_playerId p) r'"
      "same_save (requeued x r) r'" "held r' = held (requeued x r)"
      using save_dispatch_ok [OF q(1), of env w] by blast
    have "ps_saveVersion y \<le> ps_saveVersion x" if "y \<in> set (held r)" for y
      using held_version [OF r that] u64_next [OF v] q(4) by auto
    then have "goes_on (p_playerId p) r r'"
      using d(2-4) q(2,5) unfolding goes_on_def same_save_def by metis
    then have "kept_in (p_playerId p) r s (put_record (p_playerId p) r' s) r'" by (rule kept_in_put [OF s])
    moreover have "\<exists>x \<in> set (held r'). ps_capturedRevision x = p_mutationRevision p" using q d(4) by auto
    ultimately show ?thesis using v x Inr d(1) by (auto simp: take_snapshot_def Let_def)
  qed
qed

lemma goes_on_trans: "goes_on i r r' \<Longrightarrow> goes_on i r' r'' \<Longrightarrow> goes_on i r r''"
  unfolding goes_on_def by (meson order_trans)

lemma kept_in_trans: "kept_in i r s s' r' \<Longrightarrow> kept_in i r' s' s'' r'' \<Longrightarrow> kept_in i r s s'' r''"
  using goes_on_trans by (auto simp: kept_in_def)

text \<open>A request on the record of a clean and confirmed player that goes offline erases the record.\<close>

definition retires :: "Player \<Rightarrow> bool \<Rightarrow> SaveRecord \<Rightarrow> bool" where
  "retires p offline r \<longleftrightarrow> offline \<and> settled_for p (touched p offline r)"

lemma settled_touched [simp]: "settled_for p (touched p off r) = settled_for p r" "already_held v (touched p off r) = already_held v r"
  by (cases "sr_active r"; simp add: settled_for_def already_held_def touched_def)+

lemma already_held_in: "already_held v r \<Longrightarrow> \<exists>x \<in> set (held r). ps_capturedRevision x = v"
  by (auto simp: already_held_def held_def split: option.splits)

lemma request_record_ok:
  assumes s: "persistence_ok s" and r: "map_of (pp_records s) (p_playerId p) = Some r"
  shows "(retires p off r \<and> (\<exists>s'. request_record env p off r s w = Some (True, s', w) \<and> persistence_ok s'
           \<and> (\<forall>j. j \<noteq> p_playerId p \<longrightarrow> map_of (pp_records s') j = map_of (pp_records s) j)))
    \<or> (\<exists>b s' w' r'. request_record env p off r s w = Some (b, s', w') \<and> kept_in (p_playerId p) r s s' r'
         \<and> (b \<longrightarrow> (off \<longrightarrow> sr_offline r') \<and> (p_dirty p \<longrightarrow> (\<exists>x \<in> set (held r'). ps_capturedRevision x = p_mutationRevision p))))"
proof -
  let ?i = "p_playerId p" let ?r = "touched p off r" let ?s = "put_record ?i ?r s"
  have ok: "record_ok ?i r" using s r by (rule record_okD)
  have put: "kept_in ?i r s ?s ?r" by (rule kept_in_put [OF s]) (use ok in \<open>auto simp: goes_on_def\<close>)
  consider "sr_actorEpoch r \<noteq> p_epoch p \<and> sr_offline r" | "already_held (p_mutationRevision p) r" "\<not> (sr_actorEpoch r \<noteq> p_epoch p \<and> sr_offline r)"
    | "settled_for p r" "off" "\<not> already_held (p_mutationRevision p) r" "\<not> (sr_actorEpoch r \<noteq> p_epoch p \<and> sr_offline r)"
    | "settled_for p r" "\<not> off" "\<not> already_held (p_mutationRevision p) r" "\<not> (sr_actorEpoch r \<noteq> p_epoch p \<and> sr_offline r)"
    | "\<not> settled_for p r" "\<not> already_held (p_mutationRevision p) r" "\<not> (sr_actorEpoch r \<noteq> p_epoch p \<and> sr_offline r)"
    by blast
  then show ?thesis
  proof cases
    case 1
    have "kept_in ?i r s s r" using s r ok by (simp add: kept_in_def)
    with 1 show ?thesis by (auto simp: request_record_def)
  next
    case 2
    have "request_record env p off r s w = Some (True, ?s, w)" unfolding request_record_def if_not_P [OF 2(2)] using 2(1) by simp
    with put already_held_in [OF 2(1)] show ?thesis by fastforce
  next
    case 3
    have "request_record env p off r s w = Some (True, erase_record ?i ?s, w)"
      unfolding request_record_def if_not_P [OF 3(4)] using 3(1-3) by simp
    moreover have "persistence_ok (erase_record ?i ?s)" using put by (auto simp: kept_in_def intro: erase_record_ok)
    ultimately show ?thesis using 3 by (auto simp: retires_def)
  next
    case 4
    have "request_record env p off r s w = Some (True, ?s, w)" unfolding request_record_def if_not_P [OF 4(4)] using 4(1-3) by simp
    with put 4(1,2) show ?thesis by (fastforce simp: settled_for_def)
  next
    case 5
    have eq: "request_record env p off r s w = take_snapshot env p ?r ?s w"
      unfolding request_record_def if_not_P [OF 5(3)] using 5(1,2) by (simp add: Let_def)
    obtain b s' w' r' where "take_snapshot env p ?r ?s w = Some (b, s', w')" "kept_in ?i ?r ?s s' r'"
      "b \<longrightarrow> (\<exists>x \<in> set (held r'). ps_capturedRevision x = p_mutationRevision p)"
      using take_snapshot_ok [of ?s p ?r env w] put ok unfolding kept_in_def [of _ _ s] touched_simps(1) by metis
    moreover have "off \<longrightarrow> sr_offline r'" using calculation(2) by (simp add: kept_in_def goes_on_def)
    ultimately show ?thesis using kept_in_trans [OF put] eq by metis
  qed
qed

lemma tick_loop_ok:
  "list_all (\<lambda>(i, r). record_ok i r) rs \<Longrightarrow> \<exists>rs' w'. save_tick_loop env rs w = Some (rs', w')
     \<and> list_all2 (\<lambda>(i, r) (j, r'). i = j \<and> goes_on i r r') rs rs'"
proof (induction rs arbitrary: w)
  case (Cons a rs)
  obtain i r where a: "a = (i, r)" by force
  with Cons.prems have "record_ok i r" by simp
  then obtain r' w1 where d: "save_dispatch env r w = Some (r', w1)" "goes_on i r r'"
    using save_dispatch_ok [of i r env w] by (auto intro: goes_on_same simp: same_save_def)
  obtain rs' w2 where "save_tick_loop env rs w1 = Some (rs', w2)" "list_all2 (\<lambda>(i, r) (j, r'). i = j \<and> goes_on i r r') rs rs'"
    using Cons by force
  with d show ?case by (simp add: a)
qed simp

lemma list_all2_map_of:
  "list_all2 (\<lambda>(i, r) (j, r'). i = j \<and> R i r r') rs rs' \<Longrightarrow> map fst rs' = map fst rs \<and> rel_option (R i) (map_of rs i) (map_of rs' i)"
  by (induction rs rs' rule: list_all2_induct) auto

lemma tick_ok:
  assumes "persistence_ok s"
  shows "\<exists>s' w'. save_tick env s w = Some (s', w') \<and> persistence_ok s'
    \<and> (\<forall>i. rel_option (goes_on i) (map_of (pp_records s) i) (map_of (pp_records s') i))"
proof -
  have "list_all (\<lambda>(i, r). record_ok i r) (pp_records s)"
    unfolding list_all_iff using assms by (auto simp: persistence_ok_def umap_ok_def)
  from tick_loop_ok [OF this, of env w]
  obtain rs' w' where t: "save_tick_loop env (pp_records s) w = Some (rs', w')"
    and rel: "list_all2 (\<lambda>(i, r) (j, r'). i = j \<and> goes_on i r r') (pp_records s) rs'"
    by (elim exE conjE)
  have "umap_ok rs'" using list_all2_map_of [OF rel] assms by (simp add: persistence_ok_def umap_ok_def)
  moreover have *: "rel_option (goes_on i) (map_of (pp_records s) i) (map_of rs' i)" for i using list_all2_map_of [OF rel] by blast
  moreover have "record_ok i r'" if "map_of rs' i = Some r'" for i r'
    using * [of i] that by (auto simp: goes_on_def option_rel_Some2)
  ultimately show ?thesis using t by (auto simp: save_tick_def persistence_ok_def)
qed

text \<open>The confirmation of version \<open>v\<close> or a later one of a player.\<close>

fun confirms :: "u64 \<Rightarrow> u64 \<Rightarrow> save_op \<Rightarrow> bool" where
  "confirms i v (SComplete taskId result live) = (re_errcode result = 0 \<and> re_classification result = kSuccess
     \<and> re_playerId result = i \<and> v \<le> re_saveVersion result)"
| "confirms i v _ = False"

definition confirmed_record :: "PlayerSaveSnapshot \<Rightarrow> SaveRecord \<Rightarrow> SaveRecord" where
  "confirmed_record a r = r\<lparr>sr_confirmedVersion := ps_saveVersion a, sr_confirmedRevision := ps_capturedRevision a,
     sr_active := None, sr_taskId := 0, sr_state := Idle\<rparr>"

text \<open>The four ends of \<open>complete\<close>.\<close>

lemma save_complete_cases:
  assumes s: "persistence_ok s" and c: "save_complete taskId result live s = (b, live', s')"
  obtains "s' = s"
  | i r e where "map_of (pp_records s) i = Some r" "s' = put_record i (r\<lparr>sr_state := Blocked, sr_error := e\<rparr>) s"
  | i r a where "map_of (pp_records s) i = Some r" "sr_active r = Some a" "re_errcode result = 0"
      "re_classification result = kSuccess" "re_playerId result = ps_playerId a" "re_saveVersion result = ps_saveVersion a"
      "s' = (if sr_offline r \<and> sr_queued r = None then erase_record i s else put_record i (confirmed_record a r) s)"
proof (cases "find (\<lambda>(_, r). sr_taskId r = taskId) (pp_records s)")
  case None
  with c that(1) show ?thesis by (simp add: save_complete_def)
next
  case (Some ir)
  obtain i r where ir: "ir = (i, r)" by force
  with Some have "(i, r) \<in> set (pp_records s)" by (auto simp: find_Some_iff in_set_conv_nth)
  then have r: "map_of (pp_records s) i = Some r" using s umap_mem_iff by (fastforce simp: persistence_ok_def)
  show ?thesis
  proof (cases "sr_active r")
    case None
    with c Some ir that(1) show ?thesis by (simp add: save_complete_def)
  next
    case a: (Some a)
    show ?thesis
      using c Some ir a that(1) that(2) [OF r] that(3) [OF r a]
      by (simp add: save_complete_def Let_def confirmed_record_def split: if_splits) blast+
  qed
qed

lemma confirmed_record_ok: "record_ok i r \<Longrightarrow> sr_active r = Some a \<Longrightarrow> record_ok i (confirmed_record a r)"
  by (cases "sr_queued r") (auto simp: record_ok_def confirmed_record_def newest_def snapshot_of_def)

lemma complete_ok:
  assumes s: "persistence_ok s" and c: "save_complete taskId result live s = (b, live', s')"
  shows "persistence_ok s'"
  using s c
proof (cases rule: save_complete_cases)
  case (2 i r e)
  then show ?thesis using s goes_on_blocked(2) [of i r] by (auto intro!: put_record_ok dest: record_okD simp: goes_on_def)
next
  case (3 i r a)
  then show ?thesis using s by (auto intro!: put_record_ok erase_record_ok confirmed_record_ok dest: record_okD)
qed (use s in simp)

lemma complete_keeps:
  assumes s: "persistence_ok s" and c: "save_complete taskId result live s = (b, live', s')"
    and j: "map_of (pp_records s) j = Some r" "x \<in> set (held r)"
    and n: "\<not> confirms j (ps_saveVersion x) (SComplete taskId result live)"
  shows "\<exists>r'. map_of (pp_records s') j = Some r' \<and> (sr_offline r \<longrightarrow> sr_offline r')
    \<and> (\<exists>y \<in> set (held r'). ps_saveVersion x \<le> ps_saveVersion y)"
  using s c
proof (cases rule: save_complete_cases)
  case (2 i r0 e)
  then show ?thesis
    using j goes_on_blocked(2) [OF record_okD [OF s 2(1)], of e] by (cases "i = j") (auto simp: goes_on_def)
next
  case (3 i r0 a)
  show ?thesis
  proof (cases "i = j")
    case True
    then have r0: "r0 = r" and "ps_playerId a = j"
      using 3(1,2) j record_okD [OF s 3(1)] by (auto simp: record_ok_def snapshot_of_def)
    then have "x \<noteq> a" using n 3(3-6) by auto
    then have "sr_queued r = Some x" using j(2) 3(2) r0 by (auto simp: held_def split: option.splits)
    with True r0 3(7) show ?thesis by (simp add: confirmed_record_def held_def)
  qed (use 3(7) j in auto)
qed (use j in auto)

section \<open>An accepted save is never lost\<close>

definition holds :: "PlayerPersistence \<Rightarrow> u64 \<Rightarrow> PlayerSaveSnapshot list" where
  "holds s i = (case map_of (pp_records s) i of None \<Rightarrow> [] | Some r \<Rightarrow> held r)"

text \<open>A request that takes a player with nothing to save offline.\<close>

fun clean_leave :: "u64 \<Rightarrow> save_op \<Rightarrow> bool" where
  "clean_leave i (SRequest p offline) = (p_playerId p = i \<and> offline \<and> \<not> p_dirty p)"
| "clean_leave i _ = False"

definition keeps :: "u64 \<Rightarrow> u64 \<Rightarrow> bool \<Rightarrow> PlayerPersistence \<Rightarrow> bool" where
  "keeps i v off s \<longleftrightarrow> (off \<longrightarrow> blocksLogin s i) \<and> (\<exists>y \<in> set (holds s i). v \<le> ps_saveVersion y)"

lemma keepsI: "map_of (pp_records s) i = Some r \<Longrightarrow> (off \<longrightarrow> sr_offline r) \<Longrightarrow> y \<in> set (held r) \<Longrightarrow> v \<le> ps_saveVersion y \<Longrightarrow> keeps i v off s"
  by (auto simp: keeps_def blocksLogin_def holds_def)

lemma keepsE:
  assumes "keeps i v off s"
  obtains r y where "map_of (pp_records s) i = Some r" "off \<longrightarrow> sr_offline r" "y \<in> set (held r)" "v \<le> ps_saveVersion y"
  using assms by (auto simp: keeps_def blocksLogin_def holds_def split: option.splits)

lemma goes_on_keeps:
  "map_of (pp_records s) i = Some r \<Longrightarrow> map_of (pp_records s') i = Some r' \<Longrightarrow> goes_on i r r' \<Longrightarrow> keeps i v off s \<Longrightarrow> keeps i v off s'"
  by (elim keepsE, unfold goes_on_def, elim conjE bexE ballE) (auto intro!: keepsI elim: order_trans)

lemma keeps_cong: "map_of (pp_records s') i = map_of (pp_records s) i \<Longrightarrow> keeps i v off s' = keeps i v off s"
  by (simp add: keeps_def blocksLogin_def holds_def)

lemma request_record_keeps:
  assumes s: "persistence_ok s" and r: "map_of (pp_records s) (p_playerId p) = Some r"
  shows "\<exists>b s' w'. request_record env p off r s w = Some (b, s', w') \<and> persistence_ok s'
    \<and> (\<forall>i v o'. keeps i v o' s \<and> \<not> clean_leave i (SRequest p off) \<longrightarrow> keeps i v o' s')
    \<and> (b \<and> p_dirty p \<longrightarrow> (off \<longrightarrow> blocksLogin s' (p_playerId p))
      \<and> (\<exists>x \<in> set (holds s' (p_playerId p)). ps_capturedRevision x = p_mutationRevision p))"
proof -
  let ?i = "p_playerId p"
  from request_record_ok [OF s r, of off env w] show ?thesis
  proof (elim disjE exE conjE)
    fix s' assume a: "retires p off r" "request_record env p off r s w = Some (True, s', w)" "persistence_ok s'"
      "\<forall>j. j \<noteq> ?i \<longrightarrow> map_of (pp_records s') j = map_of (pp_records s) j"
    then have "off" "\<not> p_dirty p" by (simp_all add: retires_def settled_for_def)
    moreover have "keeps i v o' s'" if "keeps i v o' s" "\<not> clean_leave i (SRequest p off)" for i v o'
      using that calculation a(4) keeps_cong [of s' i s] by auto
    ultimately show ?thesis using a(2,3) by auto
  next
    fix b s' w' r' assume a: "request_record env p off r s w = Some (b, s', w')" "kept_in ?i r s s' r'"
      "b \<longrightarrow> (off \<longrightarrow> sr_offline r') \<and> (p_dirty p \<longrightarrow> (\<exists>x \<in> set (held r'). ps_capturedRevision x = p_mutationRevision p))"
    have "keeps i v o' s'" if "keeps i v o' s" for i v o'
      using that a(2) goes_on_keeps [OF r, of s' r'] keeps_cong [of s' i s] by (cases "i = ?i") (auto simp: kept_in_def)
    moreover have "b \<and> p_dirty p \<longrightarrow> (off \<longrightarrow> blocksLogin s' ?i) \<and> (\<exists>x \<in> set (holds s' ?i). ps_capturedRevision x = p_mutationRevision p)"
      using a(2,3) by (auto simp: kept_in_def blocksLogin_def holds_def)
    moreover have "persistence_ok s'" using a(2) by (simp add: kept_in_def)
    ultimately show ?thesis using a(1) by blast
  qed
qed

lemma request_ok:
  assumes s: "persistence_ok s"
  shows "\<exists>b s' w'. save_request env p off s w = Some (b, s', w') \<and> persistence_ok s'
    \<and> (\<forall>i v o'. keeps i v o' s \<and> \<not> clean_leave i (SRequest p off) \<longrightarrow> keeps i v o' s')
    \<and> (b \<and> p_dirty p \<longrightarrow> (off \<longrightarrow> blocksLogin s' (p_playerId p))
      \<and> (\<exists>x \<in> set (holds s' (p_playerId p)). ps_capturedRevision x = p_mutationRevision p))"
proof (cases "record_for p s")
  case None
  with s show ?thesis by (auto simp: save_request_def)
next
  case (Some rs)
  obtain r s0 where rs: "rs = (r, s0)" by force
  note ok = record_for_ok [OF s Some [unfolded rs]]
  have "keeps i v o' s0" if k: "keeps i v o' s" for i v o'
  proof -
    from k obtain r0 where "map_of (pp_records s) i = Some r0" by (rule keepsE)
    then have "map_of (pp_records s0) i = map_of (pp_records s) i" using ok(2,4,5) by (cases "i = p_playerId p") auto
    with k keeps_cong [of s0 i s v o'] show ?thesis by blast
  qed
  with request_record_keeps [OF ok(1,2), of env off w] show ?thesis by (auto simp: save_request_def Some rs)
qed

lemma save_step_ok:
  assumes s: "persistence_ok s"
  shows "\<exists>s' w'. save_step env a (s, w) = Some (s', w') \<and> persistence_ok s'
    \<and> (\<forall>i v off. keeps i v off s \<and> \<not> clean_leave i a \<and> \<not> confirms i v a \<longrightarrow> keeps i v off s')"
proof (cases a)
  case (SRequest p off)
  with request_ok [OF s, of env p off w] show ?thesis by auto
next
  case STick
  obtain s' w' where t: "save_tick env s w = Some (s', w')" "persistence_ok s'"
    and rel: "\<And>i. rel_option (goes_on i) (map_of (pp_records s) i) (map_of (pp_records s') i)"
    using tick_ok [OF s, of env w] by auto
  have "keeps i v off s'" if k: "keeps i v off s" for i v off
  proof -
    from k obtain r where r: "map_of (pp_records s) i = Some r" by (rule keepsE)
    then obtain r' where "map_of (pp_records s') i = Some r'" "goes_on i r r'" using rel [of i] by (auto simp: option_rel_Some1)
    from goes_on_keeps [OF r this k] show ?thesis .
  qed
  with t STick show ?thesis by simp
next
  case (SComplete taskId result live)
  obtain b live' s' where c: "save_complete taskId result live s = (b, live', s')" by (metis prod_cases3)
  have "keeps i v off s'" if k: "keeps i v off s" "\<not> confirms i v a" for i v off
  proof -
    from k(1) obtain r y where r: "map_of (pp_records s) i = Some r" "off \<longrightarrow> sr_offline r" "y \<in> set (held r)" "v \<le> ps_saveVersion y"
      by (rule keepsE)
    have "\<not> confirms i (ps_saveVersion y) a" using k(2) r(4) SComplete by auto
    with complete_keeps [OF s c r(1,3)] SComplete r(2,4) show ?thesis by (auto intro!: keepsI elim: order_trans)
  qed
  with c complete_ok [OF s c] SComplete show ?thesis by simp
qed

lemma save_run_ok:
  "persistence_ok s \<Longrightarrow> \<exists>s' w'. save_run env as (s, w) = Some (s', w') \<and> persistence_ok s'
    \<and> (\<forall>i v off. keeps i v off s \<and> list_all (\<lambda>a. \<not> clean_leave i a \<and> \<not> confirms i v a) as \<longrightarrow> keeps i v off s')"
proof (induction as arbitrary: s w)
  case (Cons a as)
  from save_step_ok [OF Cons.prems, of env a w] obtain s1 w1 where "save_step env a (s, w) = Some (s1, w1)" "persistence_ok s1"
    "\<forall>i v off. keeps i v off s \<and> \<not> clean_leave i a \<and> \<not> confirms i v a \<longrightarrow> keeps i v off s1" by blast
  with Cons.IH [of s1 w1] show ?case by fastforce
qed simp

text \<open>
  Saving never throws: whatever players request saves, however ticks and results interleave and whatever the
  delivery layer answers, neither freezing a snapshot nor encoding its task raises an exception in the coordinator.
\<close>

theorem saving_never_throws:
  "\<exists>s' w'. save_run env ops (new_persistence, w) = Some (s', w')"
  using save_run_ok [OF new_persistence_ok, of env ops w] by blast

text \<open>
  C8. An accepted save is never lost. Once \<open>request\<close> has accepted the save of a player with unsaved changes, the
  coordinator holds a snapshot of the player's current revision; from then on, through any further
  requests, ticks and results, it holds that snapshot or a later version (and blocks the player's login if
  the player is offline) until the database confirms that version or a later one, or the player itself
  leaves with nothing unsaved. Failed, superseded, conflicting and unknown results do not release it.
\<close>

theorem accepted_save_never_lost:
  assumes "save_run env before (new_persistence, w0) = Some (s, w)"
    and "save_request env p offline s w = Some (True, s1, w1)" and "p_dirty p"
    and "save_run env after (s1, w1) = Some (s2, w2)"
  shows "\<exists>x \<in> set (holds s1 (p_playerId p)). ps_capturedRevision x = p_mutationRevision p
    \<and> (list_ex (\<lambda>a. clean_leave (p_playerId p) a \<or> confirms (p_playerId p) (ps_saveVersion x) a) after
       \<or> keeps (p_playerId p) (ps_saveVersion x) offline s2)"
proof -
  have s: "persistence_ok s" using save_run_ok [OF new_persistence_ok, of env before w0] assms(1) by auto
  from request_ok [OF s, of env p offline w] assms(2,3) obtain x where x: "x \<in> set (holds s1 (p_playerId p))"
    "ps_capturedRevision x = p_mutationRevision p" and s1: "persistence_ok s1" "offline \<longrightarrow> blocksLogin s1 (p_playerId p)"
    by auto
  then have "keeps (p_playerId p) (ps_saveVersion x) offline s1" by (auto simp: keeps_def)
  with save_run_ok [OF s1(1), of env after w1] assms(4)
  have "list_all (\<lambda>a. \<not> clean_leave (p_playerId p) a \<and> \<not> confirms (p_playerId p) (ps_saveVersion x) a) after
      \<longrightarrow> keeps (p_playerId p) (ps_saveVersion x) offline s2" by auto
  with x show ?thesis by (auto simp: list_all_iff list_ex_iff)
qed

definition counting_world :: "u64 save_world" where
  "counting_world = \<lparr>sw_newTaskId = (\<lambda>w. (w + 1, w + 1)), sw_submit = (\<lambda>_ w. (True, w))\<rparr>"

definition demo_leaver :: Player where
  "demo_leaver = new_player\<lparr>p_playerId := 42, p_epoch := 3, p_gold := 10, p_mutationRevision := 1, p_dirty := True\<rparr>"

definition unknown_outcome :: DbResult where
  "unknown_outcome = empty_result\<lparr>re_errcode := 1011, re_classification := kOutcomeUnknown\<rparr>"

theorem accepted_save_never_lost_witness:
  "\<exists>s1 s2 w2. save_request counting_world demo_leaver True new_persistence 0 = Some (True, s1, 1)
     \<and> save_run counting_world [STick, SComplete 1 unknown_outcome None] (s1, 1) = Some (s2, w2)
     \<and> blocksLogin s2 42 \<and> holds s2 42 \<noteq> []"
proof -
  have "case save_request counting_world demo_leaver True new_persistence 0 of Some (b, s, w) \<Rightarrow> b \<and> w = 1 | None \<Rightarrow> False"
    by code_simp
  then obtain s1 where s1: "save_request counting_world demo_leaver True new_persistence 0 = Some (True, s1, 1)"
    by (auto split: option.splits)
  have "persistence_ok s1" using request_ok [OF new_persistence_ok, of counting_world demo_leaver True 0] s1 by auto
  then obtain s2 w2 where s2: "save_run counting_world [STick, SComplete 1 unknown_outcome None] (s1, 1) = Some (s2, w2)"
    using save_run_ok [of s1 counting_world "[STick, SComplete 1 unknown_outcome None]" 1] by blast
  have "p_dirty demo_leaver" "p_playerId demo_leaver = 42" "re_errcode unknown_outcome \<noteq> 0"
    by (simp_all add: demo_leaver_def unknown_outcome_def)
  with accepted_save_never_lost [OF _ s1 _ s2, of "[]" 0] have "blocksLogin s2 42 \<and> holds s2 42 \<noteq> []"
    by (auto simp: keeps_def)
  with s1 s2 show ?thesis by blast
qed

end
