(* ===== verification/Spec2Isabelle.thy ===== *)
theory Spec2Isabelle
  imports GatewayDispatch ServiceApp TimerThread RedisKey AoiService DbThread Hash PlayerManager WorkerPending TaskDelivery Persistence ClientProto GatewayPlayer ReturnRoutes ClientSessions ServiceRegistry
begin

text \<open>
  Verification of the ClearMoon game server, the C++ servers of one zone under src/Zone.

  The program. Clients connect to a gateway (gatewayServer), which authenticates them, gives each a session with an epoch, and forwards their
  requests under sequence numbers of its own to the backends that registered with it: scene servers (sceneServer), the chat server and the global server
  (chatServer, globalServer, both a call of \<open>RunService\<close>). Responses come back through a table of return routes; pushes go to the session of
  the player they name. In the scene server a network thread hands messages to logic threads, one per shard of the players; a logic thread keeps its player
  actors, their place in the area of interest (AOI) and the tasks it sent to the database threads. A timer thread sends messages that fall due.

  From code to theories (files under src/Zone; a definition has the name of the function it translates wherever HOL leaves it free).
    zone_common/base: Buffer (buffer), Framing and GateProto (proto), ClientProto (clientProto), GatewayPlayer (gatewayPlayer), ServiceApp (serviceApp).
    gatewayServer: ClientSessions (clientSession), ServiceRegistry (serviceRegistry), ReturnRoutes (returnRoute), GatewayDispatch (gatewayDispatcher).
    sceneServer/src-cpp: Messages (common/msg.h) and Hash (common/hash.h); TimerThread (timer); Bag, Player, PlayerManager and Persistence
    (player); DbValue, RedisKey, SnapshotDao, Transaction, TaskDelivery, DbThread (db); WorkerPending (net/workerPendingTasks.h); SceneMap, AoiGrid, AoiReplica,
    AoiWire, AoiViewSet, AoiService (service/aoi).
    Prelude, Strings and Actions hold what they share: machine words in bytes, hash maps as association lists with distinct keys, decimal numbers, and
    operations that change a state and may throw. This theory holds the property that spans gateway and chat service.

  How state and operations correspond. A struct or class is a record; an enumeration with its integer values is a word constant, a tagged union a datatype;
  \<open>uintN_t\<close> is a word, \<open>size_t\<close> a natural number where the code keeps it from wrapping, and \<open>size_sub\<close> where it subtracts. A method is a function from the old state to
  the new one, paired with what it returns; a mutex makes it one step, and threads are interleavings of such steps. \<open>None\<close> stands for an execution
  the C++ code does not survive (an access outside a vector, an uncaught exception) unless the theory says otherwise, so that a theorem that a result is
  \<open>Some\<close> is a theorem about safety. Clocks, operating system answers, MySQL, Redis, Lua and protobuf are arguments; what is assumed of them is a
  hypothesis with a name (the transactions of MySQL in Transaction, the serialisation of view messages in AoiService).

  What the lemmas show.
    Protocols: the resynchronising decoders refine one reference decoder on byte lists (\<open>resync_loop\<close>, \<open>frame_codec\<close>), so a stream cut anywhere yields the frames sent; role
    names and chat texts are accepted exactly when they are UTF-8 without control characters; bodies and envelopes round-trip.
    Gateway: at most one session speaks for a player, epochs grow, a retired binding does not come back, a response reaches only the login that asked, frames to
    backends name players that logged in, callbacks end after a bounded number of steps.
    Chat and global service: each request is answered once and in order under every interleaving of the two threads, a private message is queued for all gateways or for none, no turn
    faults; together with the gateway, a private message arrives with the name of its sender.
    Players: the bag is a ledger, operations are all or nothing, a purchase is atomic, a confirmed save is the state, an accepted save is not lost.
    Databases: codecs round-trip, transactions are all or nothing under lost connections, requests are handed over at most once, results are kept until they are acknowledged, tasks
    end with a result, commands stay within the key space of the zone.
    AOI: the grid watches exactly the visible cells, replicas that applied the same events agree, changed views are marked, clients that are not marked are
    up to date, snapshots commit whole.
    Timer: messages fall due on schedule or, for whole turns of the wheel, late; cancelled timers are silent; skipped ticks are never made up.
  Where a theorem shows that the code does not do what it or its documentation says, the text before it says so.

  Bounds and fuel. A decoder skips at most \<open>kMaxResyncPerCall\<close> candidates per call, which is the measure of its loop. Receive loops take one more than the number of bytes in the
  buffer as fuel: every round but the last consumes a byte, so they never run out (\<open>message_callbacks_return\<close>, \<open>service_turns_never_fault\<close>). Counters of
  64 bits are assumed not to wrap where a theorem says so. Queues and tables have the capacities of the code.

  Not modelled. Sockets, epoll and event loops, and the threads themselves, whose steps are modelled (tcpConnection, event, poller, acceptor, the timer queue of the gateway, net_server of
  the scene): what they do is what the operating system answers. The message bus: its queues are a third-party library. The loop of a logic
  thread: it calls the modelled parts around calls of Lua. The bindings of Lua and protobuf and the MySQL and Redis connections: calls of libraries. Logging, metrics, the readers of
  configuration files and the construction of processes. chatServer/net and chatServer/common are not part of the build.
\<close>

section \<open>Properties across components\<close>

text \<open>What the receiver of a frame decodes: the encoder fills in the length.\<close>

definition on_wire :: "Header \<times> bytes \<Rightarrow> Header \<times> bytes" where
  "on_wire m = ((fst m)\<lparr>h_totalLen := word_of_nat (32 + length (snd m))\<rparr>, snd m)"

lemma frame_arrives:
  assumes "buffer_ok b" and "readable b = gate_frame m" and "32 + length (snd m) \<le> kMaxMessageSize" and "h_dstServiceID (fst m) = dst"
  shows "\<exists>b'. gate_next dst b = Some (Got (on_wire m), b') \<and> buffer_ok b' \<and> readable b' = []"
proof (rule gate_next_scan [OF assms(1)])
  have "gate_frame m = gate_frame (on_wire m)" by (simp add: gate_frame_def header_bytes_def on_wire_def)
  moreover have "gate_valid dst (on_wire m)" using assms(3,4) by (simp add: gate_valid_def on_wire_def)
  ultimately show "gate_scan dst 0 (readable b) = (Got (on_wire m), [])" using gate_scan_frame [of dst "on_wire m" 0 "[]"] assms(2) by simp
qed

text \<open>A private message in the gateway of the sender, in the chat service, and in the gateway of the receiver.\<close>

lemma gateway_names_the_sender:
  assumes "c_module h = ServiceModule_kChat" and "c_method h = kPrivateChat" and "c_roleName h \<noteq> []" and "ValidRoleName (c_roleName h)"
  shows "backend_body s kChat session ep h (put_be 8 target @ t) = Inr (ChatBody target (c_roleName h) t)"
  using assms by (simp add: backend_body_def ChatBody_def ServiceModule_kChat_def kPrivateChat_def Let_def)

lemma service_pushes:
  assumes "m = \<lparr>sm_header = h, sm_body = ChatBody target name t, sm_gateway = a\<rparr>" and "h_seq h \<noteq> 0" and "h_playerId h \<noteq> 0"
    and "h_module h = ServiceModule_kChat" and "h_method h = kPrivateChat" and "name \<noteq> []" and "ValidRoleName name" and "ValidChatText t"
    and "target \<noteq> 0" and "target \<noteq> h_playerId h" and "sv_id s = kChat" and "length (sv_toNet s) + Suc (sv_gateways s) \<le> Queue_kCapacity" and "g < sv_gateways s"
  shows "push_to kChat m target (ChatBody (h_playerId h) name t) g \<in> set (sv_toNet (handle_message m s))"
proof -
  have q: "length (sv_toNet s) \<le> Queue_kCapacity" using assms(12) by simp
  have "handle_message m s = spread m target (ChatBody (h_playerId h) name t) s"
    using assms ParseChatBody_ChatBody [OF assms(6,7), of target t] by (simp add: handle_message_def)
  then show ?thesis using assms(11-13) q by (simp add: spread_def queue.batch_law)
qed

lemma gateway_shows_the_sender:
  assumes "GetByName (gd_services r) (conn_name r c) = Some self" and "ep_serviceId self = kChat" and "ep_sceneId self = 0"
    and "dc_selfServiceId (gd_cfg r) = kGateway" and "FindByPlayer (gd_sessions r) target = Some ss" and "cs_conn ss = Some k" and "connected r k"
    and "h_srcServiceID h = kChat" "h_dstServiceID h = kGateway" "h_retrFlag h = 0" "h_seq h = 0" "h_playerId h = target" "target \<noteq> 0"
    and "h_module h = ServiceModule_kChat" "h_method h = kPrivateChat" "name \<noteq> []" "ValidRoleName name"
  shows "HandleBackendFrame c h (ChatBody player name t) now r =
    emit (SentClient k (default_client_header\<lparr>c_kind := kPush, c_module := ServiceModule_kChat, c_method := kPrivateChat, c_requestId := 0,
       c_roleName := name\<rparr>) (put_be 8 player @ t)) r"
proof -
  note len = ValidRoleName_length [OF assms(17)]
  have f: "name_field (slice 8 12 (ChatBody player name t)) = (name, True)" "take 8 (ChatBody player name t) = put_be 8 player"
    "drop 20 (ChatBody player name t) = t" "20 \<le> length (ChatBody player name t)"
    using assms(16,17) len by (simp_all add: ChatBody_def slice_simps name_field_pad)
  have m: "h_module h \<noteq> kSYS" "ServiceModule_kChat \<noteq> ServiceModule_kGlobal"
    using assms(14) by (simp_all add: ServiceModule_kChat_def ServiceModule_kGlobal_def kSYS_def)
  show ?thesis
    using assms(1-15,17) f m
    by (simp add: HandleBackendFrame_def handle_business_def handle_push_def retired_endpoint_def IsAllowedScenePush_def SendToClient_def Let_def)
qed

text \<open>
  C6. A private message of a client arrives. The gateway of the sender writes the role name of the client into the body; the chat service reads that body from its link and queues a push
  for every gateway; and any gateway that reads the push from its link and has the receiver sends the receiver a push with the sender's number, role name and text, and does nothing
  else. The bytes of both links are those of the frame codec.
\<close>

theorem private_chat_end_to_end:
  assumes "c_module h = ServiceModule_kChat" and "c_method h = kPrivateChat" and "c_roleName h \<noteq> []" and "ValidRoleName (c_roleName h)" and "ValidChatText t"
    and "player \<noteq> 0" and "target \<noteq> 0" and "target \<noteq> player" and "sn \<noteq> 0"
    and "sv_id svc = kChat" and "length (sv_toNet svc) + Suc (sv_gateways svc) \<le> Queue_kCapacity" and "g < sv_gateways svc"
    and "GetByName (gd_services r) (conn_name r c) = Some self" and "ep_serviceId self = kChat" and "ep_sceneId self = 0"
    and "dc_selfServiceId (gd_cfg r) = kGateway" and "FindByPlayer (gd_sessions r) target = Some ss" and "cs_conn ss = Some k" and "connected r k"
    and "buffer_ok b1" and "readable b1 = gate_frame (MakeHeader (LinkTypeOf kChat) ServiceModule_kChat kPrivateChat sn player kGateway kChat, bb)"
    and "backend_body s kChat session ep h (put_be 8 target @ t) = Inr bb"
  shows "\<exists>b1' m push. decode_requests (Suc (readableBytes b1)) kChat a b1 [] = Some (True, b1', [m]) \<and>
    push \<in> set (sv_toNet (handle_message m svc)) \<and> sm_gateway push = g \<and>
    (\<forall>b2. buffer_ok b2 \<and> readable b2 = gate_frame (sm_header push, sm_body push) \<longrightarrow>
      (\<exists>h2 body b2'. gate_next kGateway b2 = Some (Got (h2, body), b2') \<and>
         HandleBackendFrame c h2 body now r = emit (SentClient k (default_client_header\<lparr>c_kind := kPush, c_module := ServiceModule_kChat,
           c_method := kPrivateChat, c_requestId := 0, c_roleName := c_roleName h\<rparr>) (put_be 8 player @ t)) r))"
proof -
  let ?name = "c_roleName h" and ?hdr = "MakeHeader (LinkTypeOf kChat) ServiceModule_kChat kPrivateChat sn player kGateway kChat"
  have bb: "bb = ChatBody target ?name t" using gateway_names_the_sender [OF assms(1-4)] assms(22) by simp
  have t: "length t \<le> 1024" using assms(5) by (simp add: ValidChatText_iff)
  have size: "32 + length (ChatBody p ?name t) \<le> kMaxMessageSize" for p using length_ChatBody [OF assms(3,4)] t by simp
  let ?m = "\<lparr>sm_header = fst (on_wire (?hdr, bb)), sm_body = bb, sm_gateway = a\<rparr>"
  have hdr: "h_dstServiceID ?hdr = kChat" by (simp add: MakeHeader_def)
  have dec: "\<exists>b1'. decode_requests (Suc (readableBytes b1)) kChat a b1 [] = Some (True, b1', [] @ map (\<lambda>m. \<lparr>sm_header = fst m, sm_body = snd m, sm_gateway = a\<rparr>) [on_wire (?hdr, bb)])
      \<and> buffer_ok b1' \<and> readable b1' = []"
  proof (rule decode_requests_frames)
    have v: "gate_valid kChat (on_wire (?hdr, bb))" using size [of target] hdr by (simp add: gate_valid_def on_wire_def bb)
    then show "gate_valid kChat (on_wire (?hdr, bb))" .
    show "\<forall>m \<in> set [on_wire (?hdr, bb)]. gate_valid kChat m \<and> request_from a \<lparr>sm_header = fst m, sm_body = snd m, sm_gateway = a\<rparr>"
      using v assms(6,9) by (simp add: request_from_def well_formed_def on_wire_def MakeHeader_def)
    show "readable b1 = concat (map gate_frame [on_wire (?hdr, bb)]) @ []"
      using assms(21) by (simp add: gate_frame_def header_bytes_def on_wire_def)
    show "strict_prefix [] (gate_frame (on_wire (?hdr, bb)))" by (simp add: gate_frame_def strict_prefix_def) (simp add: header_bytes_def magic_wire)
  qed (use assms(20,21) in \<open>simp_all add: Queue_kCapacity_def gate_frame_def\<close>)
  then obtain b1' where d: "decode_requests (Suc (readableBytes b1)) kChat a b1 [] = Some (True, b1', [?m])" by (auto simp: on_wire_def)
  let ?push = "push_to kChat ?m target (ChatBody player ?name t) g"
  have "push_to kChat ?m target (ChatBody (h_playerId (fst (on_wire (?hdr, bb)))) ?name t) g \<in> set (sv_toNet (handle_message ?m svc))"
    using assms bb by (intro service_pushes) (simp_all add: on_wire_def MakeHeader_def)
  then have p: "?push \<in> set (sv_toNet (handle_message ?m svc))" by (simp add: on_wire_def MakeHeader_def)
  have arrive: "\<exists>h2 body b2'. gate_next kGateway b2 = Some (Got (h2, body), b2') \<and>
         HandleBackendFrame c h2 body now r = emit (SentClient k (default_client_header\<lparr>c_kind := kPush, c_module := ServiceModule_kChat,
           c_method := kPrivateChat, c_requestId := 0, c_roleName := ?name\<rparr>) (put_be 8 player @ t)) r"
    if b2: "buffer_ok b2" "readable b2 = gate_frame (sm_header ?push, sm_body ?push)" for b2
  proof -
    have body: "sm_body ?push = ChatBody player ?name t" by (simp add: push_to_def Let_def)
    obtain b2' where "gate_next kGateway b2 = Some (Got (on_wire (sm_header ?push, sm_body ?push)), b2')"
      using frame_arrives [OF b2, of kGateway] size [of player] body by (auto simp: push_to_def MakeHeader_def Let_def)
    moreover have "HandleBackendFrame c (fst (on_wire (sm_header ?push, sm_body ?push))) (ChatBody player ?name t) now r =
      emit (SentClient k (default_client_header\<lparr>c_kind := kPush, c_module := ServiceModule_kChat, c_method := kPrivateChat, c_requestId := 0,
       c_roleName := ?name\<rparr>) (put_be 8 player @ t)) r"
      by (rule gateway_shows_the_sender [OF assms(13-19)])
        (use assms(3,4,7) in \<open>simp_all add: on_wire_def push_to_def MakeHeader_def default_header_def Let_def\<close>)
    ultimately show ?thesis using body by (auto simp: on_wire_def)
  qed
  show ?thesis using d p arrive by (intro exI [of _ b1'] exI [of _ ?m] exI [of _ ?push]) simp
qed


text \<open>A gateway with player 42 on connection 1 and the chat service on connection 2.\<close>

definition chat_conn :: "string \<Rightarrow> gw_conn" where
  "chat_conn name = \<lparr>cn_name = name, cn_connected = True, cn_loop = 0, cn_guard = new_guard\<rparr>"

definition chat_endpoint :: ServiceEndpoint where
  "chat_endpoint = empty_endpoint\<lparr>ep_connName := ''chat'', ep_serviceId := kChat, ep_zoneId := 1, ep_conn := Some 2\<rparr>"

definition chat_session :: ClientSession where
  "chat_session = \<lparr>cs_sessionId = 1, cs_epoch = 1, cs_playerId = 42, cs_dstService = kScene, cs_sceneId = 0, cs_backendChannelId = 0,
     cs_sceneIncarnation = 0, cs_sceneConnName = [], cs_authed = True, cs_sceneOnlineSubmitted = False, cs_conn = Some 1, cs_createdAtMs = 0,
     cs_authedAtMs = 2\<rparr>"

definition chat_demo :: GatewayDispatcher where
  "chat_demo = (new_dispatcher demo_cfg)\<lparr>gd_conns := [(1, chat_conn ''client''), (2, chat_conn ''chat'')],
     gd_services := (new_registry 1)\<lparr>byName := [(''chat'', chat_endpoint)], byService := [(kChat, ''chat'')]\<rparr>,
     gd_sessions := empty_sessions\<lparr>sessions := [(1, chat_session)], playerIndex := [(42, 1)], playerEpoch := [(42, 1)], nextSessionId := 2\<rparr>\<rparr>"

lemma chat_demo_state:
  "GetByName (gd_services chat_demo) (conn_name chat_demo 2) = Some chat_endpoint" "FindByPlayer (gd_sessions chat_demo) 42 = Some chat_session"
  "connected chat_demo 1" "dc_selfServiceId (gd_cfg chat_demo) = kGateway"
  by (simp_all add: chat_demo_def GetByName_def conn_name_def chat_conn_def FindByPlayer_def connected_def new_dispatcher_def demo_cfg_def)

definition chat_header :: ClientHeader where
  "chat_header = default_client_header\<lparr>c_kind := kRequest, c_module := ServiceModule_kChat, c_method := kPrivateChat, c_requestId := 3, c_roleName := ascii ''Bo''\<rparr>"

theorem private_chat_end_to_end_witness:
  "\<exists>b1 b1' m push. decode_requests (Suc (readableBytes b1)) kChat 0 b1 [] = Some (True, b1', [m]) \<and>
    push \<in> set (sv_toNet (handle_message m (idle_service kChat 2))) \<and> sm_gateway push = 1 \<and>
    (\<forall>b2. buffer_ok b2 \<and> readable b2 = gate_frame (sm_header push, sm_body push) \<longrightarrow>
      (\<exists>h2 body b2'. gate_next kGateway b2 = Some (Got (h2, body), b2') \<and>
         HandleBackendFrame 2 h2 body 9 chat_demo = emit (SentClient 1 (default_client_header\<lparr>c_kind := kPush, c_module := ServiceModule_kChat,
           c_method := kPrivateChat, c_requestId := 0, c_roleName := ascii ''Bo''\<rparr>) (put_be 8 (7 :: u64) @ ascii ''hi'')) chat_demo))"
proof -
  let ?hdr = "MakeHeader (LinkTypeOf kChat) ServiceModule_kChat kPrivateChat 5 7 kGateway kChat" and ?bb = "ChatBody 42 (ascii ''Bo'') (ascii ''hi'')"
  obtain b1 where b1: "buffer_ok b1" "readable b1 = gate_frame (?hdr, ?bb)" using append_spec [OF new_buffer_ok(1), of "gate_frame (?hdr, ?bb)"] by auto
  have h: "c_module chat_header = ServiceModule_kChat" "c_method chat_header = kPrivateChat" "c_roleName chat_header = ascii ''Bo''"
    by (simp_all add: chat_header_def)
  have bb: "backend_body chat_demo kChat session ep chat_header (put_be 8 (42 :: u64) @ ascii ''hi'') = Inr ?bb" for session ep
    using gateway_names_the_sender [OF h(1,2)] h(3) sample_names by simp
  have ep: "ep_serviceId chat_endpoint = kChat" "ep_sceneId chat_endpoint = 0" by (simp_all add: chat_endpoint_def empty_endpoint_def)
  have ss: "cs_conn chat_session = Some 1" by (simp add: chat_session_def)
  have idle: "sv_id (idle_service kChat 2) = kChat" "length (sv_toNet (idle_service kChat 2)) + Suc (sv_gateways (idle_service kChat 2)) \<le> Queue_kCapacity"
    "1 < sv_gateways (idle_service kChat 2)"
    by (simp_all add: idle_service_def Queue_kCapacity_def)
  have nm: "c_roleName chat_header \<noteq> []" "ValidRoleName (c_roleName chat_header)" using h(3) sample_names by simp_all
  have seven: "(7 :: u64) \<noteq> 0" "(42 :: u64) \<noteq> 0" "(42 :: u64) \<noteq> 7" "(5 :: u64) \<noteq> 0" by simp_all
  from private_chat_end_to_end [where player = 7 and a = 0 and now = 9, OF h(1,2) nm sample_names(2) seven(1-4) idle chat_demo_state(1) ep chat_demo_state(4,2) ss chat_demo_state(3) b1 bb]
  show ?thesis unfolding h(3) by (rule exI [of _ b1])
qed

end
